(* ===== verification/Prelude.thy ===== *)
theory Prelude
  imports Complex_Main "HOL-Library.Word"
begin

text \<open>
  Shared vocabulary of the development: bytes and byte strings, the hexadecimal and
  fixed-width integer encodings of Go's standard library (\<open>encoding/hex\<close>,
  \<open>encoding/binary\<close>), the result type for fallible operations, and the lemma
  collections the component theories add to.

  A Go \<open>string\<close> is Isabelle's \<open>string\<close> (a list of 8-bit characters), a \<open>[]byte\<close> is a
  list of \<open>8 word\<close>. An operation returning \<open>(T, error)\<close> returns \<open>'e + 'a\<close>: \<open>Inl\<close> for
  the error, \<open>Inr\<close> for the value.
\<close>

unbundle bit_operations_syntax

named_theorems codec_simps \<open>round trips and lengths of the byte encodings\<close>

type_synonym byte = "8 word"
type_synonym bytes = "8 word list"

subsection \<open>Results\<close>

fun map_result :: "('a \<Rightarrow> 'e + 'b) \<Rightarrow> 'a list \<Rightarrow> 'e + 'b list" where
  "map_result f [] = Inr []"
| "map_result f (x # xs) =
     (case f x of Inl e \<Rightarrow> Inl e
      | Inr y \<Rightarrow> (case map_result f xs of Inl e \<Rightarrow> Inl e | Inr ys \<Rightarrow> Inr (y # ys)))"

lemma map_result_Inr_length: "map_result f xs = Inr ys \<Longrightarrow> length ys = length xs"
  by (induction xs arbitrary: ys) (auto split: sum.splits)

lemma map_result_Inr_nth:
  "map_result f xs = Inr ys \<Longrightarrow> i < length xs \<Longrightarrow> f (xs ! i) = Inr (ys ! i)"
  by (induction xs arbitrary: ys i) (auto simp: nth_Cons split: sum.splits nat.splits)

lemma map_result_Inr_iff:
  "(\<exists>ys. map_result f xs = Inr ys) \<longleftrightarrow> (\<forall>x \<in> set xs. \<exists>y. f x = Inr y)"
  by (induction xs) (auto split: sum.splits)

lemma map_result_InrI: "(\<And>x. x \<in> set xs \<Longrightarrow> f x = Inr (g x)) \<Longrightarrow> map_result f xs = Inr (map g xs)"
  by (induction xs) auto

subsection \<open>Little- and big-endian integers\<close>

text \<open>\<open>le_bytes k v\<close> is the low \<open>k\<close> bytes of \<open>v\<close>, least significant first.\<close>

fun le_bytes :: "nat \<Rightarrow> int \<Rightarrow> bytes" where
  "le_bytes 0 v = []"
| "le_bytes (Suc k) v = word_of_int (v mod 256) # le_bytes k (v div 256)"

fun le_val :: "bytes \<Rightarrow> int" where
  "le_val [] = 0"
| "le_val (b # bs) = uint b + 256 * le_val bs"

definition be_bytes :: "nat \<Rightarrow> int \<Rightarrow> bytes" where
  "be_bytes k v = rev (le_bytes k v)"

text \<open>\<open>be_val\<close> is Go's \<open>new(big.Int).SetBytes\<close>.\<close>

definition be_val :: "bytes \<Rightarrow> int" where
  "be_val bs = le_val (rev bs)"

lemma uint_byte_less [simp]: "uint (b :: 8 word) < 256"
  using uint_lt2p [of b] by simp

lemma uint_byte_le [simp]: "uint (b :: 8 word) \<le> 255"
  using uint_byte_less [of b] by linarith

lemma uint_word_of_nat_byte [simp]: "n < 256 \<Longrightarrow> uint (word_of_nat n :: 8 word) = int n"
  using uint_word_of_int [of "int n", where 'a = 8] by simp

lemma uint_u32_less [simp]: "uint (v :: 32 word) < 4294967296"
  using uint_lt2p [of v] by simp

lemma uint_u64_less [simp]: "uint (v :: 64 word) < 18446744073709551616"
  using uint_lt2p [of v] by simp

lemma length_le_bytes [simp]: "length (le_bytes k v) = k"
  by (induction k arbitrary: v) auto

lemma length_be_bytes [simp]: "length (be_bytes k v) = k"
  by (simp add: be_bytes_def)

lemma le_val_nonneg [simp]: "0 \<le> le_val bs"
  by (induction bs) auto

lemma be_val_nonneg [simp]: "0 \<le> be_val bs"
  by (simp add: be_val_def)

lemma mod_256_split: "v mod 256 + 256 * (v div 256 mod 256 ^ k) = v mod (256 * 256 ^ k)"
  for v :: int
  by (subst zmod_zmult2_eq) auto

lemma le_val_le_bytes [codec_simps]: "le_val (le_bytes k v) = v mod 256 ^ k"
  by (induction k arbitrary: v) (auto simp: uint_word_of_int mod_256_split)

lemma le_val_bound: "le_val bs < 256 ^ length bs"
proof (induction bs)
  case (Cons b bs)
  have "uint b + 256 * le_val bs < 256 * (le_val bs + 1)" by simp
  also have "\<dots> \<le> 256 * 256 ^ length bs" using Cons.IH by (intro mult_left_mono) auto
  finally show ?case by simp
qed simp

lemma le_bytes_le_val [codec_simps]: "length bs = k \<Longrightarrow> le_bytes k (le_val bs) = bs"
proof (induction bs arbitrary: k)
  case (Cons b bs)
  have "(uint b + 256 * le_val bs) mod 256 = uint b" by simp
  moreover have "(uint b + 256 * le_val bs) div 256 = le_val bs" by simp
  ultimately show ?case using Cons by (cases k) auto
qed simp

lemma le_bytes_inj:
  "0 \<le> v \<Longrightarrow> v < 256 ^ k \<Longrightarrow> 0 \<le> w \<Longrightarrow> w < 256 ^ k \<Longrightarrow> le_bytes k v = le_bytes k w \<Longrightarrow> v = w"
  by (metis le_val_le_bytes mod_pos_pos_trivial)

lemma be_val_be_bytes [codec_simps]: "be_val (be_bytes k v) = v mod 256 ^ k"
  by (simp add: be_val_def be_bytes_def codec_simps)

lemma be_bytes_be_val [codec_simps]: "length bs = k \<Longrightarrow> be_bytes k (be_val bs) = bs"
  by (simp add: be_val_def be_bytes_def codec_simps)

lemma be_val_bound: "be_val bs < 256 ^ length bs"
  using le_val_bound [of "rev bs"] by (simp add: be_val_def)

lemma le_val_append: "le_val (xs @ ys) = le_val xs + 256 ^ length xs * le_val ys"
  by (induction xs) (auto simp: algebra_simps)

lemma be_val_append: "be_val (xs @ ys) = be_val xs * 256 ^ length ys + be_val ys"
  by (simp add: be_val_def le_val_append)

lemma be_val_Nil [simp]: "be_val [] = 0"
  by (simp add: be_val_def)

lemma le_val_zeros [simp]: "le_val (replicate n 0) = 0"
  by (induction n) auto

lemma be_val_zeros [simp]: "be_val (replicate n 0) = 0"
  by (simp add: be_val_def)

text \<open>\<open>binary.LittleEndian.PutUint32/64\<close>, \<open>binary.BigEndian.Uint32\<close>, \<open>PutUint32\<close>.\<close>

definition put_u32_le :: "32 word \<Rightarrow> bytes" where
  "put_u32_le v = le_bytes 4 (uint v)"

definition put_u64_le :: "64 word \<Rightarrow> bytes" where
  "put_u64_le v = le_bytes 8 (uint v)"

definition put_u32_be :: "32 word \<Rightarrow> bytes" where
  "put_u32_be v = be_bytes 4 (uint v)"

definition get_u32_be :: "bytes \<Rightarrow> 32 word" where
  "get_u32_be bs = word_of_int (be_val bs)"

definition get_u32_le :: "bytes \<Rightarrow> 32 word" where
  "get_u32_le bs = word_of_int (le_val bs)"

lemma length_put_u32_le [simp]: "length (put_u32_le v) = 4"
  and length_put_u64_le [simp]: "length (put_u64_le w) = 8"
  and length_put_u32_be [simp]: "length (put_u32_be v) = 4"
  by (simp_all add: put_u32_le_def put_u64_le_def put_u32_be_def)

lemma get_put_u32_be [simp]: "get_u32_be (put_u32_be v) = v"
  by (simp add: get_u32_be_def put_u32_be_def codec_simps)

lemma get_put_u32_le [simp]: "get_u32_le (put_u32_le v) = v"
  by (simp add: get_u32_le_def put_u32_le_def codec_simps)

lemma put_u32_le_inj: "put_u32_le v = put_u32_le w \<Longrightarrow> v = w"
  by (metis get_put_u32_le)

lemma put_u32_be_inj: "put_u32_be v = put_u32_be w \<Longrightarrow> v = w"
  by (metis get_put_u32_be)

lemma put_get_u32_be [codec_simps]: "length bs = 4 \<Longrightarrow> put_u32_be (get_u32_be bs) = bs"
  using be_val_bound [of bs]
  by (simp add: put_u32_be_def get_u32_be_def uint_word_of_int codec_simps)

subsection \<open>Minimal byte strings\<close>

text \<open>The minimal little-endian bytes of a non-negative number; \<open>big.Int.Bytes\<close> is the same
  bytes, most significant first.\<close>

function le_minimal :: "int \<Rightarrow> bytes" where
  "le_minimal v = (if 0 < v then word_of_int (v mod 256) # le_minimal (v div 256) else [])"
  by pat_completeness auto
termination by (relation "measure nat") auto

declare le_minimal.simps [simp del]

definition big_bytes :: "int \<Rightarrow> bytes" where
  "big_bytes v = rev (le_minimal v)"

lemma le_minimal_val: "0 \<le> v \<Longrightarrow> le_val (le_minimal v) = v"
proof (induction v rule: le_minimal.induct)
  case (1 v)
  then show ?case
    by (subst le_minimal.simps) (auto simp: uint_word_of_int pos_imp_zdiv_nonneg_iff)
qed

lemma le_minimal_length: "v < 256 ^ k \<Longrightarrow> length (le_minimal v) \<le> k"
proof (induction k arbitrary: v)
  case 0
  then show ?case by (subst le_minimal.simps) simp
next
  case (Suc k)
  have "v div 256 < 256 ^ k" using Suc.prems by (simp add: div_less_iff_less_mult mult.commute)
  then show ?case using Suc.IH by (subst le_minimal.simps) auto
qed

lemma le_minimal_nonempty: "0 < v \<Longrightarrow> le_minimal v \<noteq> []"
  by (subst le_minimal.simps) simp

lemma le_minimal_last_nonzero: "0 < v \<Longrightarrow> last (le_minimal v) \<noteq> 0"
proof (induction v rule: le_minimal.induct)
  case (1 v)
  show ?case
  proof (cases "0 < v div 256")
    case True
    with 1 show ?thesis by (subst le_minimal.simps) (simp add: le_minimal_nonempty)
  next
    case False
    then have e: "le_minimal (v div 256) = []" by (subst le_minimal.simps) simp
    from False "1.prems" have "v < 256" by (simp add: pos_imp_zdiv_pos_iff)
    with "1.prems" have "uint (word_of_int (v mod 256) :: byte) = v" by (simp add: uint_word_of_int)
    with e "1.prems" show ?thesis by (subst le_minimal.simps) auto
  qed
qed

lemma le_minimal_of_le_val:
  "bs \<noteq> [] \<Longrightarrow> last bs \<noteq> 0 \<Longrightarrow> le_minimal (le_val bs) = bs"
proof (induction bs)
  case (Cons b bs)
  have d: "(uint b + 256 * le_val bs) div 256 = le_val bs" "(uint b + 256 * le_val bs) mod 256 = uint b"
    by simp_all
  show ?case
  proof (cases "bs = []")
    case True
    then have "0 < uint b" using Cons.prems unsigned_greater_eq [of b, where 'a = int]
      by (simp add: less_le uint_0_iff)
    then show ?thesis using True by (subst le_minimal.simps) (simp add: le_minimal.simps [of 0])
  next
    case False
    with Cons have e: "le_minimal (le_val bs) = bs" by simp
    have "0 < le_val bs"
    proof (rule ccontr)
      assume "\<not> 0 < le_val bs"
      with le_val_nonneg [of bs] have "le_val bs = 0" by linarith
      with e False show False by (simp add: le_minimal.simps [of 0])
    qed
    then have "0 < uint b + 256 * le_val bs" using unsigned_greater_eq [of b, where 'a = int] by linarith
    then show ?thesis using e d by (subst le_minimal.simps) simp
  qed
qed simp

lemma le_val_zero: "le_val bs = 0 \<Longrightarrow> bs = replicate (length bs) 0"
proof (induction bs)
  case (Cons b bs)
  have "0 \<le> le_val bs" by simp
  moreover have "0 \<le> uint b" by simp
  ultimately have "uint b = 0 \<and> le_val bs = 0" using Cons.prems unfolding le_val.simps by linarith
  with Cons.IH show ?case by (simp add: uint_0_iff)
qed simp

lemma dropWhile_zeros_val: "be_val (dropWhile ((=) 0) bs) = be_val bs"
proof (induction bs)
  case (Cons b bs)
  then show ?case using be_val_append [of "[b]" bs] by (auto simp: be_val_def)
qed simp

lemma big_bytes_be_val: "big_bytes (be_val bs) = dropWhile ((=) 0) bs"
proof -
  let ?d = "dropWhile ((=) 0) bs"
  have v: "be_val bs = be_val ?d" by (simp add: dropWhile_zeros_val)
  show ?thesis
  proof (cases "?d = []")
    case True
    show ?thesis unfolding v unfolding True by (simp add: big_bytes_def le_minimal.simps [of 0])
  next
    case False
    then have "hd ?d \<noteq> 0" using hd_dropWhile [OF False] by auto
    then have "le_minimal (le_val (rev ?d)) = rev ?d"
      using False by (intro le_minimal_of_le_val) (auto simp: last_rev)
    then show ?thesis unfolding v by (simp add: big_bytes_def be_val_def)
  qed
qed

subsection \<open>Hexadecimal\<close>

definition hex_digits :: string where
  "hex_digits = ''0123456789abcdef''"

definition hex_digit :: "int \<Rightarrow> char" where
  "hex_digit n = hex_digits ! nat n"

text \<open>\<open>hex.EncodeToString\<close>: two lower-case digits per byte.\<close>

fun hex_encode :: "bytes \<Rightarrow> string" where
  "hex_encode [] = []"
| "hex_encode (b # bs) = hex_digit (uint b div 16) # hex_digit (uint b mod 16) # hex_encode bs"

text \<open>\<open>hex.DecodeString\<close>: both cases are accepted, an odd length or any other character
  is an error.\<close>

definition hex_val :: "char \<Rightarrow> int option" where
  "hex_val c =
     (let n = (of_char c :: int) in
      if 48 \<le> n \<and> n \<le> 57 then Some (n - 48)
      else if 97 \<le> n \<and> n \<le> 102 then Some (n - 87)
      else if 65 \<le> n \<and> n \<le> 70 then Some (n - 55)
      else None)"

fun hex_decode :: "string \<Rightarrow> bytes option" where
  "hex_decode [] = Some []"
| "hex_decode [c] = None"
| "hex_decode (c # d # cs) =
     (case hex_val c of None \<Rightarrow> None
      | Some h \<Rightarrow> (case hex_val d of None \<Rightarrow> None
        | Some l \<Rightarrow> (case hex_decode cs of None \<Rightarrow> None
          | Some bs \<Rightarrow> Some (word_of_int (16 * h + l) # bs))))"

lemma hex_val_hex_digit: "0 \<le> n \<Longrightarrow> n < 16 \<Longrightarrow> hex_val (hex_digit n) = Some n"
proof -
  have "\<forall>k \<in> set [0..15]. hex_val (hex_digit k) = Some k" by code_simp
  moreover assume "0 \<le> n" and "n < 16"
  then have "n \<in> set [0..15]" by simp
  ultimately show ?thesis by blast
qed

lemma hex_val_bound: "hex_val c = Some n \<Longrightarrow> 0 \<le> n \<and> n < 16"
  by (auto simp: hex_val_def Let_def split: if_splits)

lemma length_hex_encode [simp]: "length (hex_encode bs) = 2 * length bs"
  by (induction bs) auto

lemma hex_decode_encode [simp]: "hex_decode (hex_encode bs) = Some bs"
proof (induction bs)
  case (Cons b bs)
  have "hex_val (hex_digit (uint b div 16)) = Some (uint b div 16)"
  proof (rule hex_val_hex_digit)
    show "uint b div 16 < 16" using uint_byte_less [of b] by linarith
  qed (simp add: pos_imp_zdiv_nonneg_iff)
  moreover have "hex_val (hex_digit (uint b mod 16)) = Some (uint b mod 16)"
    by (intro hex_val_hex_digit) simp_all
  ultimately show ?case using Cons.IH by simp
qed simp

lemma hex_decode_length: "hex_decode s = Some bs \<Longrightarrow> length s = 2 * length bs"
  by (induction s arbitrary: bs rule: hex_decode.induct) (auto split: option.splits)

lemma hex_encode_inj: "hex_encode xs = hex_encode ys \<Longrightarrow> xs = ys"
  by (metis hex_decode_encode option.inject)

text \<open>\<open>fmt.Sprintf("%08x", uint32)\<close>.\<close>

definition fmt_08x :: "32 word \<Rightarrow> string" where
  "fmt_08x v = hex_encode (put_u32_be v)"

lemma length_fmt_08x [simp]: "length (fmt_08x v) = 8"
  by (simp add: fmt_08x_def)

lemma hex_decode_fmt_08x [simp]: "hex_decode (fmt_08x v) = Some (put_u32_be v)"
  by (simp add: fmt_08x_def)

subsection \<open>Decimal numbers and string helpers\<close>

function dec_digits :: "int \<Rightarrow> string" where
  "dec_digits n = (if n < 10 then [char_of (48 + n)]
                   else dec_digits (n div 10) @ [char_of (48 + n mod 10)])"

  by pat_completeness auto
termination
  by (relation "measure nat") auto

declare dec_digits.simps [simp del]

text \<open>\<open>%d\<close>, and texts with commas between them.\<close>

definition int_text :: "int \<Rightarrow> string" where
  "int_text n = (if n < 0 then CHR ''-'' # dec_digits (- n) else dec_digits n)"

fun join_commas :: "string list \<Rightarrow> string" where
  "join_commas [] = []"
| "join_commas [x] = x"
| "join_commas (x # y # xs) = x @ '','' @ join_commas (y # xs)"

text \<open>\<open>%0kd\<close> of a number below \<open>10 ^ k\<close>, and the value of a string of digits.\<close>

fun fixed_digits :: "nat \<Rightarrow> int \<Rightarrow> string" where
  "fixed_digits 0 n = []"
| "fixed_digits (Suc k) n = fixed_digits k (n div 10) @ [char_of (48 + n mod 10)]"

definition digits_value :: "string \<Rightarrow> int" where
  "digits_value s = foldl (\<lambda>n c. 10 * n + (of_char c - 48)) 0 s"

lemma digits_value_snoc: "digits_value (s @ [c]) = 10 * digits_value s + (of_char c - 48)"
  by (simp add: digits_value_def)

lemma digit_char: "0 \<le> n \<Longrightarrow> n < 10 \<Longrightarrow> of_char (char_of (48 + n) :: char) = 48 + n" for n :: int
  by simp

lemma digit_not_sign:
  fixes n :: int
  assumes "0 \<le> n" and "n < 10"
  shows "(char_of (48 + n) :: char) \<noteq> CHR ''.''" and "(char_of (48 + n) :: char) \<noteq> CHR ''-''"
proof -
  have "of_char (char_of (48 + n) :: char) = (48 + n :: int)" by (rule digit_char [OF assms])
  then show "(char_of (48 + n) :: char) \<noteq> CHR ''.''" "(char_of (48 + n) :: char) \<noteq> CHR ''-''"
    using assms by (auto dest!: arg_cong [where f = "of_char :: char \<Rightarrow> int"])
qed

lemma digits_value_dec: "0 \<le> n \<Longrightarrow> digits_value (dec_digits n) = n"
proof (induction n rule: dec_digits.induct)
  case (1 n)
  show ?case
  proof (cases "n < 10")
    case True
    with "1.prems" show ?thesis by (subst dec_digits.simps) (simp add: digits_value_def digit_char)
  next
    case False
    with 1 show ?thesis
      by (subst dec_digits.simps)
        (simp add: digits_value_snoc digit_char pos_imp_zdiv_nonneg_iff)
  qed
qed

lemma dec_digits_chars:
  "0 \<le> n \<Longrightarrow> dec_digits n \<noteq> [] \<and> (\<forall>c \<in> set (dec_digits n). c \<noteq> CHR ''.'' \<and> c \<noteq> CHR ''-'')"
proof (induction n rule: dec_digits.induct)
  case (1 n)
  show ?case
  proof (cases "n < 10")
    case True
    with "1.prems" show ?thesis by (subst (1 2) dec_digits.simps) (simp add: digit_not_sign)
  next
    case False
    with 1 show ?thesis
      by (subst (1 2) dec_digits.simps) (auto simp: digit_not_sign pos_imp_zdiv_nonneg_iff)
  qed
qed

lemma digits_value_fixed: "0 \<le> n \<Longrightarrow> n < 10 ^ k \<Longrightarrow> digits_value (fixed_digits k n) = n"
proof (induction k arbitrary: n)
  case (Suc k)
  then have "n div 10 < 10 ^ k" by (simp add: div_less_iff_less_mult mult.commute)
  then show ?case using Suc by (simp add: digits_value_snoc digit_char pos_imp_zdiv_nonneg_iff)
qed (simp add: digits_value_def)

text \<open>\<open>strings.TrimSpace\<close>: white space of Unicode at either end, in UTF-8, is removed.\<close>

definition is_ascii_space :: "char \<Rightarrow> bool" where
  "is_ascii_space c = (of_char c \<in> {9, 10, 11, 12, 13, 32 :: int})"

definition wide_spaces :: "string list" where
  "wide_spaces =
     [[CHR 0xC2, CHR 0x85], [CHR 0xC2, CHR 0xA0], [CHR 0xE1, CHR 0x9A, CHR 0x80], [CHR 0xE2, CHR 0x80, CHR 0xA8],
      [CHR 0xE2, CHR 0x80, CHR 0xA9], [CHR 0xE2, CHR 0x80, CHR 0xAF], [CHR 0xE2, CHR 0x81, CHR 0x9F], [CHR 0xE3, CHR 0x80, CHR 0x80],
      [CHR 0xE2, CHR 0x80, CHR 0x80], [CHR 0xE2, CHR 0x80, CHR 0x81], [CHR 0xE2, CHR 0x80, CHR 0x82], [CHR 0xE2, CHR 0x80, CHR 0x83],
      [CHR 0xE2, CHR 0x80, CHR 0x84], [CHR 0xE2, CHR 0x80, CHR 0x85], [CHR 0xE2, CHR 0x80, CHR 0x86], [CHR 0xE2, CHR 0x80, CHR 0x87],
      [CHR 0xE2, CHR 0x80, CHR 0x88], [CHR 0xE2, CHR 0x80, CHR 0x89], [CHR 0xE2, CHR 0x80, CHR 0x8A]]"

text \<open>How many bytes the white space a text starts with has; 0 when it starts with none.\<close>

definition space_length :: "string list \<Rightarrow> string \<Rightarrow> nat" where
  "space_length wide s =
     (case s of [] \<Rightarrow> 0
      | c # cs \<Rightarrow> if is_ascii_space c then 1
        else (case find (\<lambda>u. take (length u) s = u) wide of None \<Rightarrow> 0 | Some u \<Rightarrow> length u))"

function trim_left :: "string list \<Rightarrow> string \<Rightarrow> string" where
  "trim_left wide s = (let k = space_length wide s in if k = 0 then s else trim_left wide (drop k s))"
  by pat_completeness auto
termination
  by (relation "measure (length \<circ> snd)") (auto simp: space_length_def split: list.splits)

declare trim_left.simps [simp del]

definition trim_space :: "string \<Rightarrow> string" where
  "trim_space s = rev (trim_left (map rev wide_spaces) (rev (trim_left wide_spaces s)))"

lemma trim_space_Nil [simp]: "trim_space [] = []"
  by (simp add: trim_space_def trim_left.simps space_length_def)

definition ascii_lower :: "char \<Rightarrow> char" where
  "ascii_lower c =
     (let n = (of_char c :: int) in if 65 \<le> n \<and> n \<le> 90 then char_of (n + 32) else c)"

definition to_lower :: "string \<Rightarrow> string" where
  "to_lower s = map ascii_lower s"

definition ascii_upper :: "char \<Rightarrow> char" where
  "ascii_upper c =
     (let n = (of_char c :: int) in if 97 \<le> n \<and> n \<le> 122 then char_of (n - 32) else c)"

definition to_upper :: "string \<Rightarrow> string" where
  "to_upper s = map ascii_upper s"

text \<open>\<open>strings.EqualFold\<close> on ASCII strings.\<close>

definition equal_fold :: "string \<Rightarrow> string \<Rightarrow> bool" where
  "equal_fold s t = (to_lower s = to_lower t)"

lemma ascii_upper_lower [simp]: "ascii_upper (ascii_lower c) = ascii_upper c"
  by (auto simp: ascii_upper_def ascii_lower_def Let_def)

lemma ascii_lower_upper [simp]: "ascii_lower (ascii_upper c) = ascii_lower c"
  by (auto simp: ascii_upper_def ascii_lower_def Let_def)

lemma equal_fold_upper: "equal_fold s t \<longleftrightarrow> to_upper s = to_upper t"
proof
  have "to_upper s = to_upper (to_lower s)" for s by (simp add: to_upper_def to_lower_def)
  then show "equal_fold s t \<Longrightarrow> to_upper s = to_upper t" unfolding equal_fold_def by metis
  have "to_lower s = to_lower (to_upper s)" for s by (simp add: to_upper_def to_lower_def)
  then show "to_upper s = to_upper t \<Longrightarrow> equal_fold s t" unfolding equal_fold_def by metis
qed

end
