(* ===== verification/Sha256.thy ===== *)
theory Sha256
  imports Prelude
begin

text \<open>
  \<open>crypto/sha256.Sum256\<close> of Go's standard library (FIPS 180-4), which the Bitcoin-family
  code calls through \<open>DoubleSHA256\<close> and the epoch seed derivation.
\<close>

definition ror32 :: "nat \<Rightarrow> 32 word \<Rightarrow> 32 word" where
  "ror32 n x = drop_bit n x OR push_bit (32 - n) x"

definition sha_ch :: "32 word \<Rightarrow> 32 word \<Rightarrow> 32 word \<Rightarrow> 32 word" where
  "sha_ch x y z = (x AND y) XOR (NOT x AND z)"

definition sha_maj :: "32 word \<Rightarrow> 32 word \<Rightarrow> 32 word \<Rightarrow> 32 word" where
  "sha_maj x y z = (x AND y) XOR (x AND z) XOR (y AND z)"

definition big_sigma0 :: "32 word \<Rightarrow> 32 word" where
  "big_sigma0 x = ror32 2 x XOR ror32 13 x XOR ror32 22 x"

definition big_sigma1 :: "32 word \<Rightarrow> 32 word" where
  "big_sigma1 x = ror32 6 x XOR ror32 11 x XOR ror32 25 x"

definition small_sigma0 :: "32 word \<Rightarrow> 32 word" where
  "small_sigma0 x = ror32 7 x XOR ror32 18 x XOR drop_bit 3 x"

definition small_sigma1 :: "32 word \<Rightarrow> 32 word" where
  "small_sigma1 x = ror32 17 x XOR ror32 19 x XOR drop_bit 10 x"

text \<open>The round constants, in decimal: the fractional bits of the cube roots of the first 64 primes.\<close>

definition sha_k :: "32 word list" where
  "sha_k =
    [1116352408, 1899447441, 3049323471, 3921009573, 961987163, 1508970993, 2453635748, 2870763221,
     3624381080, 310598401, 607225278, 1426881987, 1925078388, 2162078206, 2614888103, 3248222580,
     3835390401, 4022224774, 264347078, 604807628, 770255983, 1249150122, 1555081692, 1996064986,
     2554220882, 2821834349, 2952996808, 3210313671, 3336571891, 3584528711, 113926993, 338241895,
     666307205, 773529912, 1294757372, 1396182291, 1695183700, 1986661051, 2177026350, 2456956037,
     2730485921, 2820302411, 3259730800, 3345764771, 3516065817, 3600352804, 4094571909, 275423344,
     430227734, 506948616, 659060556, 883997877, 958139571, 1322822218, 1537002063, 1747873779,
     1955562222, 2024104815, 2227730452, 2361852424, 2428436474, 2756734187, 3204031479, 3329325298]"

text \<open>The message schedule, newest word first: \<open>w\<close> holds \<open>W[t-1], W[t-2], \<dots>\<close>.\<close>

fun sha_schedule :: "nat \<Rightarrow> 32 word list \<Rightarrow> 32 word list" where
  "sha_schedule 0 w = w"
| "sha_schedule (Suc n) w =
     sha_schedule n ((small_sigma1 (w ! 1) + w ! 6 + small_sigma0 (w ! 14) + w ! 15) # w)"

type_synonym sha_regs =
  "32 word \<times> 32 word \<times> 32 word \<times> 32 word \<times> 32 word \<times> 32 word \<times> 32 word \<times> 32 word"

fun sha_round :: "32 word \<times> 32 word \<Rightarrow> sha_regs \<Rightarrow> sha_regs" where
  "sha_round (k, w) (a, b, c, d, e, f, g, h) =
     (let t1 = h + big_sigma1 e + sha_ch e f g + k + w;
          t2 = big_sigma0 a + sha_maj a b c
      in (t1 + t2, a, b, c, d + t1, e, f, g))"

fun be_words :: "nat \<Rightarrow> bytes \<Rightarrow> 32 word list" where
  "be_words 0 bs = []"
| "be_words (Suc n) bs = get_u32_be (take 4 bs) # be_words n (drop 4 bs)"

fun sha_add :: "sha_regs \<Rightarrow> sha_regs \<Rightarrow> sha_regs" where
  "sha_add (a, b, c, d, e, f, g, h) (a', b', c', d', e', f', g', h') =
     (a + a', b + b', c + c', d + d', e + e', f + f', g + g', h + h')"

definition sha_block :: "sha_regs \<Rightarrow> bytes \<Rightarrow> sha_regs" where
  "sha_block st chunk =
     sha_add st (fold sha_round (zip sha_k (rev (sha_schedule 48 (rev (be_words 16 chunk))))) st)"

fun sha_blocks :: "nat \<Rightarrow> sha_regs \<Rightarrow> bytes \<Rightarrow> sha_regs" where
  "sha_blocks 0 st bs = st"
| "sha_blocks (Suc n) st bs = sha_blocks n (sha_block st (take 64 bs)) (drop 64 bs)"

definition sha_pad :: "bytes \<Rightarrow> bytes" where
  "sha_pad m = m @ 0x80 # replicate ((119 - length m mod 64) mod 64) 0 @ be_bytes 8 (8 * int (length m))"

fun sha_digest :: "sha_regs \<Rightarrow> bytes" where
  "sha_digest (a, b, c, d, e, f, g, h) = concat (map put_u32_be [a, b, c, d, e, f, g, h])"

definition sha256 :: "bytes \<Rightarrow> bytes" where
  "sha256 m =
     sha_digest (sha_blocks (length (sha_pad m) div 64)
       (0x6a09e667, 0xbb67ae85, 0x3c6ef372, 0xa54ff53a, 0x510e527f, 0x9b05688c, 0x1f83d9ab, 0x5be0cd19)
       (sha_pad m))"

lemma length_sha_digest: "length (sha_digest r) = 32"
  by (induction r rule: sha_digest.induct) simp

lemma length_sha256 [simp, codec_simps]: "length (sha256 m) = 32"
  by (simp add: sha256_def length_sha_digest)

end
