(* ===== verification/Merkle.thy ===== *)
theory Merkle
  imports Sha256
begin

text \<open>
  \<open>internal/coins/bitcoinbase/merkle.go\<close>: the double SHA-256, byte-order reversal, and the
  three merkle computations. The Stratum branch leaves the coinbase slot open (Go's \<open>nil\<close>
  placeholder, here the empty byte string); the main result is that folding a coinbase hash
  through the branch gives the root of the full tree.
\<close>

definition double_sha256 :: "bytes \<Rightarrow> bytes" where
  "double_sha256 b = sha256 (sha256 b)"

lemma length_double_sha256 [simp, codec_simps]: "length (double_sha256 b) = 32"
  by (simp add: double_sha256_def)

definition reverse_bytes :: "bytes \<Rightarrow> bytes" where
  "reverse_bytes b = rev b"

datatype hex32_error = NotHex | WrongLength nat

definition hash_le_from_display_hex :: "string \<Rightarrow> hex32_error + bytes" where
  "hash_le_from_display_hex s =
     (case hex_decode s of None \<Rightarrow> Inl NotHex
      | Some raw \<Rightarrow> if length raw \<noteq> 32 then Inl (WrongLength (length raw))
                    else Inr (reverse_bytes raw))"

lemma hash_le_length: "hash_le_from_display_hex s = Inr b \<Longrightarrow> length b = 32"
  by (auto simp: hash_le_from_display_hex_def reverse_bytes_def split: option.splits if_splits)

subsection \<open>Levels\<close>

text \<open>One level is reduced pairwise; the loop has made its length even, so the one-element case
  (Go would index past the end) never arises.\<close>

fun hash_pairs :: "bytes list \<Rightarrow> bytes list" where
  "hash_pairs (a # b # rest) = double_sha256 (a @ b) # hash_pairs rest"
| "hash_pairs _ = []"

definition pad_even :: "bytes list \<Rightarrow> bytes list" where
  "pad_even level = (if odd (length level) then level @ [last level] else level)"

lemma length_hash_pairs: "length (hash_pairs xs) = length xs div 2"
  by (induction xs rule: hash_pairs.induct) auto

lemma length_pad_even: "length (pad_even xs) = (if odd (length xs) then Suc (length xs) else length xs)"
  by (simp add: pad_even_def)

lemma pad_even_Cons2: "pad_even (a # b # xs) = a # b # (if xs = [] then [] else pad_even xs)"
  by (cases xs) (auto simp: pad_even_def)

lemma hash_pairs_sizes: "set (hash_pairs xs) \<subseteq> {h. length h = 32}"
  by (induction xs rule: hash_pairs.induct) auto

subsection \<open>The branch, its fold, and the full root\<close>

function branch_loop :: "bytes list \<Rightarrow> bytes list" where
  "branch_loop level =
     (if 1 < length level
      then level ! 1 # branch_loop ([] # hash_pairs (drop 2 (pad_even level)))
      else [])"
  by pat_completeness auto
termination
  by (relation "measure length") (auto simp: length_hash_pairs length_pad_even elim!: oddE evenE)

definition merkle_branch :: "bytes list \<Rightarrow> bytes list" where
  "merkle_branch tx_hashes = branch_loop ([] # tx_hashes)"

fun fold_branch :: "bytes \<Rightarrow> bytes list \<Rightarrow> bytes" where
  "fold_branch h [] = h"
| "fold_branch h (s # steps) = fold_branch (double_sha256 (h @ s)) steps"

function root_loop :: "bytes list \<Rightarrow> bytes list" where
  "root_loop level =
     (if 1 < length level then root_loop (hash_pairs (pad_even level)) else level)"
  by pat_completeness auto
termination
  by (relation "measure length") (auto simp: length_hash_pairs length_pad_even elim!: oddE evenE)

definition merkle_root :: "bytes list \<Rightarrow> bytes" where
  "merkle_root hashes = (if hashes = [] then [] else hd (root_loop hashes))"

declare branch_loop.simps [simp del] root_loop.simps [simp del]

lemma branch_loop_single [simp]: "branch_loop [x] = []"
  by (simp add: branch_loop.simps)

lemma root_loop_single [simp]: "root_loop [x] = [x]"
  by (simp add: root_loop.simps)

text \<open>The placeholder itself is never hashed: only its successors matter.\<close>

lemma branch_loop_Cons2:
  "branch_loop (p # x # xs) = x # branch_loop ([] # hash_pairs (if xs = [] then [] else pad_even xs))"
  by (subst branch_loop.simps) (simp add: pad_even_Cons2)

lemma root_loop_Cons2:
  "root_loop (c # x # xs) =
     root_loop (double_sha256 (c @ x) # hash_pairs (if xs = [] then [] else pad_even xs))"
  by (subst root_loop.simps) (simp add: pad_even_Cons2)

lemma fold_branch_root:
  "root_loop (c # txs) = [fold_branch c (branch_loop (p # txs))]"
proof (induction txs arbitrary: c p rule: length_induct)
  case (1 txs)
  show ?case
  proof (cases txs)
    case Nil
    then show ?thesis by simp
  next
    case (Cons x xs)
    let ?next = "hash_pairs (if xs = [] then [] else pad_even xs)"
    have "length ?next < length txs"
      using Cons by (auto simp: length_hash_pairs length_pad_even)
    with "1.IH" have "root_loop (double_sha256 (c @ x) # ?next)
        = [fold_branch (double_sha256 (c @ x)) (branch_loop ([] # ?next))]"
      by blast
    then show ?thesis by (simp only: Cons root_loop_Cons2 branch_loop_Cons2 fold_branch.simps)
  qed
qed

lemma branch_loop_sizes:
  "(\<And>h. h \<in> set txs \<Longrightarrow> length h = 32) \<Longrightarrow> h \<in> set (branch_loop (p # txs)) \<Longrightarrow> length h = 32"
proof (induction txs arbitrary: p rule: length_induct)
  case (1 txs)
  show ?case
  proof (cases txs)
    case Nil
    with "1.prems" show ?thesis by simp
  next
    case (Cons x xs)
    let ?next = "hash_pairs (if xs = [] then [] else pad_even xs)"
    have l: "length ?next < length txs"
      using Cons by (auto simp: length_hash_pairs length_pad_even)
    have s: "\<And>k. k \<in> set ?next \<Longrightarrow> length k = 32" using hash_pairs_sizes by blast
    show ?thesis
    proof (cases "h = x")
      case True
      with "1.prems"(1) Cons show ?thesis by simp
    next
      case False
      with "1.prems"(2) have "h \<in> set (branch_loop ([] # ?next))"
        by (simp add: Cons branch_loop_Cons2)
      with "1.IH" l s show ?thesis by blast
    qed
  qed
qed

lemma length_fold_branch: "length c = 32 \<Longrightarrow> length (fold_branch c steps) = 32"
  by (induction steps arbitrary: c) auto

text \<open>
  C40: what a miner computes from \<open>mining.notify\<close> is the block's merkle root. For every coinbase
  hash and every list of template transactions, folding the coinbase through the branch the pool
  sends gives the root of the standard Bitcoin tree over the coinbase and the transactions.
\<close>

theorem merkle_branch_correct:
  "fold_branch coinbase (merkle_branch txs) = merkle_root (coinbase # txs)"
  by (simp add: merkle_branch_def merkle_root_def fold_branch_root [where p = "[]"])

text \<open>The branch has one step per tree level: \<open>n\<close> transactions need \<open>\<lceil>log\<^sub>2 (n + 1)\<rceil>\<close> hashes.\<close>

lemma branch_depth: "length txs < 2 ^ d \<Longrightarrow> length (branch_loop (p # txs)) \<le> d"
proof (induction d arbitrary: txs p)
  case 0
  then show ?case by simp
next
  case (Suc d)
  show ?case
  proof (cases txs)
    case Nil
    then show ?thesis by simp
  next
    case (Cons x xs)
    let ?next = "hash_pairs (if xs = [] then [] else pad_even xs)"
    have "length ?next < 2 ^ d"
      using Suc.prems Cons by (auto simp: length_hash_pairs length_pad_even elim!: oddE evenE)
    then show ?thesis using Suc.IH [of ?next "[]"] by (simp add: Cons branch_loop_Cons2)
  qed
qed

end
