(* ===== verification/Coinbase.thy ===== *)
theory Coinbase
  imports Merkle
begin

text \<open>
  \<open>internal/coins/bitcoinbase/coinbase.go\<close>: the coinbase transaction split at the extranonce
  placeholder, the BIP34 height push and Bitcoin's variable-length integers. A reference parser
  for the legacy transaction serialization (the Bitcoin wire format, not code of this
  repository) states what the assembled bytes mean.
\<close>

record coinbase_parts =
  cp_coinb1 :: bytes
  cp_coinb2 :: bytes
  cp_extra_nonce_size :: int

record coinbase_spec =
  cs_height :: int
  cs_coinbase_value :: int
  cs_payout_script :: bytes
  cs_witness_commitment :: bytes
  cs_tag :: string
  cs_en1_size :: int
  cs_en2_size :: int
  cs_tx_version :: "32 word"

datatype coinbase_error =
    InvalidHeight int
  | InvalidCoinbaseValue int
  | EmptyPayoutScript
  | InvalidExtranonceSizes int int
  | ScriptSigTooLong int
  | ExtranonceLength int int

definition max_script_sig_len :: int where
  "max_script_sig_len = 100"

definition bytes_of_string :: "string \<Rightarrow> bytes" where
  "bytes_of_string s = map of_char s"

lemma length_bytes_of_string [simp]: "length (bytes_of_string s) = length s"
  by (simp add: bytes_of_string_def)

subsection \<open>Variable-length integers\<close>

definition append_var_int :: "bytes \<Rightarrow> int \<Rightarrow> bytes" where
  "append_var_int b v =
     (if v < 0xfd then b @ [word_of_int v]
      else if v \<le> 0xffff then b @ [0xfd] @ le_bytes 2 v
      else if v \<le> 0xffffffff then b @ [0xfe] @ le_bytes 4 v
      else b @ [0xff] @ le_bytes 8 v)"

text \<open>The inverse a node applies when it reads the count or script length.\<close>

fun read_var_int :: "bytes \<Rightarrow> (int \<times> bytes) option" where
  "read_var_int [] = None"
| "read_var_int (b # bs) =
     (let take_int = (\<lambda>k. if length bs < k then None else Some (le_val (take k bs), drop k bs))
      in if uint b < 0xfd then Some (uint b, bs)
         else if uint b = 0xfd then take_int 2
         else if uint b = 0xfe then take_int 4
         else take_int 8)"

lemma read_var_int_append:
  assumes "0 \<le> v" and "v < 2 ^ 64"
  shows "read_var_int (append_var_int [] v @ rest) = Some (v, rest)"
proof -
  consider "v < 0xfd" | "0xfd \<le> v" "v \<le> 0xffff" | "0xffff < v" "v \<le> 0xffffffff" | "0xffffffff < v"
    by linarith
  then show ?thesis
    by cases (use assms in \<open>simp_all add: append_var_int_def uint_word_of_int codec_simps\<close>)
qed

lemma append_var_int_prefix: "append_var_int b v = b @ append_var_int [] v"
  by (simp add: append_var_int_def)

subsection \<open>BIP34 heights\<close>

definition encode_height_bip34 :: "int \<Rightarrow> bytes" where
  "encode_height_bip34 height =
     (if height = 0 then [0x00]
      else let le = le_minimal height;
               le' = (if last le AND 0x80 \<noteq> 0 then le @ [0x00] else le)
           in word_of_int (int (length le')) # le')"

datatype bip34_error = EmptyScriptSig | InvalidHeightPush

definition decode_height_bip34 :: "bytes \<Rightarrow> bip34_error + (int \<times> int)" where
  "decode_height_bip34 script =
     (case script of
        [] \<Rightarrow> Inl EmptyScriptSig
      | n # rest \<Rightarrow>
          if uint n = 0 \<or> 8 < uint n \<or> int (length script) < 1 + uint n then Inl InvalidHeightPush
          else Inr (le_val (take (nat (uint n)) rest), 1 + uint n))"

lemma le_val_append_zero: "le_val (bs @ [0]) = le_val bs"
  by (simp add: le_val_append)

lemma byte_top_bit: "b AND 0x80 = 0 \<longleftrightarrow> uint (b :: byte) < 128"
proof -
  have "b AND 2 ^ 7 = 0 \<longleftrightarrow> \<not> bit b 7" by (rule and_exp_eq_0_iff_not_bit)
  moreover have "bit b 7 \<longleftrightarrow> odd (uint b div 128)"
    using bit_uint_iff [of b 7] by (simp add: bit_iff_odd)
  moreover have "odd (uint b div 128) \<longleftrightarrow> \<not> uint b < 128"
  proof (cases "uint b < 128")
    case False
    then have "uint b div 128 = 1" using uint_byte_less [of b] by linarith
    with False show ?thesis by simp
  qed simp
  ultimately show ?thesis by simp
qed

lemma le_val_ge_last: "bs \<noteq> [] \<Longrightarrow> 256 ^ (length bs - 1) * uint (last bs) \<le> le_val bs"
proof -
  assume "bs \<noteq> []"
  then have "le_val bs = le_val (butlast bs) + 256 ^ (length bs - 1) * uint (last bs)"
    using le_val_append [of "butlast bs" "[last bs]"] by simp
  then show ?thesis by simp
qed

text \<open>The bytes after the length byte: little-endian value, at most eight of them.\<close>

definition height_bytes :: "int \<Rightarrow> bytes" where
  "height_bytes h =
     (let le = le_minimal h in if last le AND 0x80 \<noteq> 0 then le @ [0x00] else le)"

lemma height_bytes_val: "0 < h \<Longrightarrow> le_val (height_bytes h) = h"
  by (simp add: height_bytes_def Let_def le_val_append_zero le_minimal_val)

lemma height_bytes_length:
  assumes "0 < h" and "h < 2 ^ 63"
  shows "0 < length (height_bytes h) \<and> length (height_bytes h) \<le> 8"
proof -
  let ?le = "le_minimal h"
  have l8: "length ?le \<le> 8" using assms(2) by (intro le_minimal_length) simp
  have ne: "?le \<noteq> []" by (rule le_minimal_nonempty [OF assms(1)])
  have "uint (last ?le) < 128" if "length ?le = 8"
  proof (rule ccontr)
    assume "\<not> ?thesis"
    then have "256 ^ 7 * 128 \<le> (256 :: int) ^ 7 * uint (last ?le)" by simp
    also have "\<dots> \<le> le_val ?le" using le_val_ge_last [OF ne] that by simp
    also have "\<dots> = h" using assms(1) by (simp add: le_minimal_val)
    finally show False using assms(2) by simp
  qed
  then have "last ?le AND 0x80 \<noteq> 0 \<Longrightarrow> length ?le < 8"
    using l8 by (auto simp: byte_top_bit le_less)
  with l8 ne show ?thesis by (auto simp: height_bytes_def Let_def)
qed

lemma encode_height_eq:
  "0 < h \<Longrightarrow> encode_height_bip34 h = word_of_int (int (length (height_bytes h))) # height_bytes h"
  by (simp add: encode_height_bip34_def height_bytes_def Let_def)

lemma encode_height_length:
  "0 < h \<Longrightarrow> h < 2 ^ 63 \<Longrightarrow> length (encode_height_bip34 h) \<le> 9"
  using height_bytes_length by (simp add: encode_height_eq)

text \<open>
  BIP34 heights round trip. For every positive 64-bit height, decoding the push at the front
  of any script returns that height and the number of bytes the push occupies.
\<close>

theorem bip34_round_trip:
  assumes "0 < h" and "h < 2 ^ 63"
  shows "decode_height_bip34 (encode_height_bip34 h @ rest)
           = Inr (h, int (length (encode_height_bip34 h)))"
proof -
  let ?hb = "height_bytes h"
  have l: "0 < length ?hb" "length ?hb \<le> 8" using height_bytes_length [OF assms] by simp_all
  then have u: "uint (word_of_int (int (length ?hb)) :: byte) = int (length ?hb)"
    using uint_word_of_nat_byte [of "length ?hb"] by simp
  show ?thesis
    using l assms(1) by (simp add: encode_height_eq decode_height_bip34_def u height_bytes_val)
qed

text \<open>The push is minimal as a signed script number: its top byte has a clear sign bit and is
  zero only as the padding of a byte that would have set it.\<close>

lemma height_bytes_sign:
  assumes "0 < h"
  shows "uint (last (height_bytes h)) < 128"
  using le_minimal_nonempty [OF assms] by (auto simp: height_bytes_def Let_def byte_top_bit)

theorem bip34_round_trip_witness:
  "decode_height_bip34 (encode_height_bip34 840000 @ [7])
     = Inr (840000, int (length (encode_height_bip34 840000)))"
  by (rule bip34_round_trip) simp_all

subsection \<open>Building and assembling the coinbase\<close>

definition coinbase_output :: "int \<Rightarrow> bytes \<Rightarrow> bytes" where
  "coinbase_output value script =
     append_var_int (put_u64_le (word_of_int value)) (int (length script)) @ script"

definition build_coinbase :: "coinbase_spec \<Rightarrow> coinbase_error + coinbase_parts" where
  "build_coinbase spec =
     (if cs_height spec \<le> 0 then Inl (InvalidHeight (cs_height spec))
      else if cs_coinbase_value spec \<le> 0 then Inl (InvalidCoinbaseValue (cs_coinbase_value spec))
      else if cs_payout_script spec = [] then Inl EmptyPayoutScript
      else if cs_en1_size spec \<le> 0 \<or> cs_en2_size spec \<le> 0
        then Inl (InvalidExtranonceSizes (cs_en1_size spec) (cs_en2_size spec))
      else
        let tx_version = (if cs_tx_version spec = 0 then 2 else cs_tx_version spec);
            height_push = encode_height_bip34 (cs_height spec);
            tag = bytes_of_string (cs_tag spec);
            en_size = cs_en1_size spec + cs_en2_size spec;
            script_sig_len = int (length height_push) + int (length tag) + en_size
        in if max_script_sig_len < script_sig_len then Inl (ScriptSigTooLong script_sig_len)
           else
             let coinb1 = put_u32_le tx_version @ [0x01] @ replicate 32 0 @ put_u32_le 0xffffffff
                            @ [word_of_int script_sig_len] @ height_push @ tag;
                 outputs = coinbase_output (cs_coinbase_value spec) (cs_payout_script spec)
                   # (if cs_witness_commitment spec \<noteq> []
                      then [coinbase_output 0 (cs_witness_commitment spec)] else []);
                 coinb2 = append_var_int (put_u32_le 0xffffffff) (int (length outputs))
                            @ concat outputs @ put_u32_le 0
             in Inr \<lparr>cp_coinb1 = coinb1, cp_coinb2 = coinb2, cp_extra_nonce_size = en_size\<rparr>)"

definition assemble :: "coinbase_parts \<Rightarrow> bytes \<Rightarrow> bytes \<Rightarrow> coinbase_error + bytes" where
  "assemble p en1 en2 =
     (let n = int (length en1) + int (length en2) in
      if n \<noteq> cp_extra_nonce_size p then Inl (ExtranonceLength n (cp_extra_nonce_size p))
      else Inr (cp_coinb1 p @ en1 @ en2 @ cp_coinb2 p))"

subsection \<open>Reference parser for a legacy transaction with one input\<close>

record parsed_coinbase =
  pc_version :: "32 word"
  pc_prevout :: bytes
  pc_prev_index :: "32 word"
  pc_script_sig :: bytes
  pc_sequence :: "32 word"
  pc_outputs :: "(int \<times> bytes) list"
  pc_locktime :: "32 word"

fun take_bytes :: "nat \<Rightarrow> bytes \<Rightarrow> (bytes \<times> bytes) option" where
  "take_bytes n bs = (if length bs < n then None else Some (take n bs, drop n bs))"

fun read_outputs :: "nat \<Rightarrow> bytes \<Rightarrow> ((int \<times> bytes) list \<times> bytes) option" where
  "read_outputs 0 bs = Some ([], bs)"
| "read_outputs (Suc n) bs =
     (case take_bytes 8 bs of None \<Rightarrow> None
      | Some (v, bs1) \<Rightarrow>
        (case read_var_int bs1 of None \<Rightarrow> None
         | Some (k, bs2) \<Rightarrow>
           (case take_bytes (nat k) bs2 of None \<Rightarrow> None
            | Some (script, bs3) \<Rightarrow>
              (case read_outputs n bs3 of None \<Rightarrow> None
               | Some (outs, bs4) \<Rightarrow> Some ((le_val v, script) # outs, bs4)))))"

definition parse_coinbase :: "bytes \<Rightarrow> parsed_coinbase option" where
  "parse_coinbase bs =
     (case take_bytes 4 bs of None \<Rightarrow> None | Some (ver, b1) \<Rightarrow>
     (case read_var_int b1 of None \<Rightarrow> None | Some (n_in, b2) \<Rightarrow>
      if n_in \<noteq> 1 then None else
     (case take_bytes 32 b2 of None \<Rightarrow> None | Some (prev, b3) \<Rightarrow>
     (case take_bytes 4 b3 of None \<Rightarrow> None | Some (idx, b4) \<Rightarrow>
     (case read_var_int b4 of None \<Rightarrow> None | Some (n_ss, b5) \<Rightarrow>
     (case take_bytes (nat n_ss) b5 of None \<Rightarrow> None | Some (ss, b6) \<Rightarrow>
     (case take_bytes 4 b6 of None \<Rightarrow> None | Some (sq, b7) \<Rightarrow>
     (case read_var_int b7 of None \<Rightarrow> None | Some (n_out, b8) \<Rightarrow>
     (case read_outputs (nat n_out) b8 of None \<Rightarrow> None | Some (outs, b9) \<Rightarrow>
      if length b9 \<noteq> 4 then None
      else Some \<lparr>pc_version = get_u32_le ver, pc_prevout = prev, pc_prev_index = get_u32_le idx,
                 pc_script_sig = ss, pc_sequence = get_u32_le sq, pc_outputs = outs,
                 pc_locktime = get_u32_le b9\<rparr>)))))))))"

lemma take_bytes_append: "take_bytes (length xs) (xs @ ys) = Some (xs, ys)"
  by simp

lemma take_bytes_append_n: "length xs = n \<Longrightarrow> take_bytes n (xs @ ys) = Some (xs, ys)"
  by simp

lemma read_outputs_step:
  assumes "0 \<le> v" and "v < 2 ^ 64" and "int (length script) < 2 ^ 64"
  shows "read_outputs (Suc n) (coinbase_output v script @ rest)
    = (case read_outputs n rest of None \<Rightarrow> None | Some (outs, r) \<Rightarrow> Some ((v, script) # outs, r))"
proof -
  have t: "take_bytes 8 (put_u64_le (word_of_int v) @ ys) = Some (put_u64_le (word_of_int v), ys)" for ys
    by (intro take_bytes_append_n) simp
  have v: "le_val (put_u64_le (word_of_int v)) = v"
    using assms(1,2) by (simp add: put_u64_le_def codec_simps uint_word_of_int)
  have r: "read_var_int (append_var_int [] (int (length script)) @ ys) = Some (int (length script), ys)" for ys
    using assms(3) by (intro read_var_int_append) auto
  have s: "coinbase_output v script @ rest
      = put_u64_le (word_of_int v) @ append_var_int [] (int (length script)) @ script @ rest"
    by (simp add: coinbase_output_def append_var_int_prefix [of "put_u64_le (word_of_int v)"])
  show ?thesis
    unfolding s
    by (simp del: take_bytes.simps read_var_int.simps add: t r v take_bytes_append split: option.split)
qed


text \<open>The prefix every parse reads: version, one input with the null prevout, the script length.\<close>

lemma parse_coinbase_parts:
  assumes "0 \<le> n_ss" "n_ss < 0xfd" "length ss = nat n_ss"
    and "0 \<le> n_out" "n_out < 2 ^ 64"
    and outs: "read_outputs (nat n_out) (body @ put_u32_le lt) = Some (outs, put_u32_le lt)"
  shows "parse_coinbase
      (put_u32_le ver @ [0x01] @ replicate 32 0 @ put_u32_le idx @ [word_of_int n_ss] @ ss
        @ append_var_int (put_u32_le sq) n_out @ body @ put_u32_le lt)
    = Some \<lparr>pc_version = ver, pc_prevout = replicate 32 0, pc_prev_index = idx,
            pc_script_sig = ss, pc_sequence = sq, pc_outputs = outs, pc_locktime = lt\<rparr>"
proof -
  have u: "uint (word_of_int n_ss :: byte) = n_ss"
    using assms(1,2) by (simp add: uint_word_of_int)
  have r1: "read_var_int (0x01 # ys) = Some (1, ys)" for ys by simp
  have r2: "read_var_int (word_of_int n_ss # ys) = Some (n_ss, ys)" for ys
    using assms(2) by (simp add: u)
  have r3: "read_var_int (append_var_int [] n_out @ ys) = Some (n_out, ys)" for ys
    using assms(4,5) by (rule read_var_int_append)
  have t4: "take_bytes 4 (put_u32_le w @ ys) = Some (put_u32_le w, ys)" for w ys
    by (intro take_bytes_append_n) simp
  have t32: "take_bytes 32 (replicate 32 0 @ ys) = Some (replicate 32 0, ys)" for ys
    by (intro take_bytes_append_n) simp
  have ts: "take_bytes (nat n_ss) (ss @ ys) = Some (ss, ys)" for ys
    using assms(3) by (intro take_bytes_append_n)
  have sq: "append_var_int (put_u32_le sq) n_out = put_u32_le sq @ append_var_int [] n_out"
    by (rule append_var_int_prefix)
  show ?thesis
    by (simp del: take_bytes.simps read_var_int.simps replicate.simps
        add: parse_coinbase_def sq r1 r2 r3 t4 t32 ts outs)
qed

lemma build_coinbase_Inr:
  assumes "build_coinbase spec = Inr p"
  shows "0 < cs_height spec" "0 < cs_coinbase_value spec" "cs_payout_script spec \<noteq> []"
    "cp_extra_nonce_size p = cs_en1_size spec + cs_en2_size spec"
    "int (length (encode_height_bip34 (cs_height spec))) + int (length (cs_tag spec))
       + (cs_en1_size spec + cs_en2_size spec) \<le> 100"
    "cp_coinb1 p = put_u32_le (if cs_tx_version spec = 0 then 2 else cs_tx_version spec)
       @ [0x01] @ replicate 32 0 @ put_u32_le 0xffffffff
       @ [word_of_int (int (length (encode_height_bip34 (cs_height spec))) + int (length (cs_tag spec))
            + (cs_en1_size spec + cs_en2_size spec))]
       @ encode_height_bip34 (cs_height spec) @ bytes_of_string (cs_tag spec)"
    "cp_coinb2 p = append_var_int (put_u32_le 0xffffffff)
         (if cs_witness_commitment spec \<noteq> [] then 2 else 1)
       @ (coinbase_output (cs_coinbase_value spec) (cs_payout_script spec)
         @ (if cs_witness_commitment spec \<noteq> [] then coinbase_output 0 (cs_witness_commitment spec) else []))
       @ put_u32_le 0"
  using assms
  by (auto simp: build_coinbase_def Let_def max_script_sig_len_def split: if_splits)

definition coinbase_outputs :: "coinbase_spec \<Rightarrow> (int \<times> bytes) list" where
  "coinbase_outputs spec = (cs_coinbase_value spec, cs_payout_script spec)
     # (if cs_witness_commitment spec \<noteq> [] then [(0, cs_witness_commitment spec)] else [])"

definition coinbase_script_sig :: "coinbase_spec \<Rightarrow> bytes \<Rightarrow> bytes \<Rightarrow> bytes" where
  "coinbase_script_sig spec en1 en2 =
     encode_height_bip34 (cs_height spec) @ bytes_of_string (cs_tag spec) @ en1 @ en2"

lemma read_coinbase_outputs:
  assumes "0 < cs_coinbase_value spec" "cs_coinbase_value spec < 2 ^ 63"
    and "int (length (cs_payout_script spec)) < 2 ^ 64"
    and "int (length (cs_witness_commitment spec)) < 2 ^ 64"
  shows "read_outputs (nat (if cs_witness_commitment spec \<noteq> [] then 2 else 1))
      ((coinbase_output (cs_coinbase_value spec) (cs_payout_script spec)
         @ (if cs_witness_commitment spec \<noteq> [] then coinbase_output 0 (cs_witness_commitment spec) else []))
        @ rest) = Some (coinbase_outputs spec, rest)"
proof -
  have one: "read_outputs (Suc n) (coinbase_output (cs_coinbase_value spec) (cs_payout_script spec) @ r)
    = (case read_outputs n r of None \<Rightarrow> None
       | Some (outs, r') \<Rightarrow> Some ((cs_coinbase_value spec, cs_payout_script spec) # outs, r'))" for n r
    using assms by (intro read_outputs_step) auto
  have two: "read_outputs (Suc n) (coinbase_output 0 (cs_witness_commitment spec) @ r)
    = (case read_outputs n r of None \<Rightarrow> None
       | Some (outs, r') \<Rightarrow> Some ((0, cs_witness_commitment spec) # outs, r'))" for n r
    using assms by (intro read_outputs_step) auto
  show ?thesis
    by (simp del: read_outputs.simps(2) add: one two numeral_2_eq_2 coinbase_outputs_def)
qed

lemma coinbase_parse:
  assumes built: "build_coinbase spec = Inr p"
    and asm: "assemble p en1 en2 = Inr tx"
    and ranges: "cs_coinbase_value spec < 2 ^ 63"
      "int (length (cs_payout_script spec)) < 2 ^ 64"
      "int (length (cs_witness_commitment spec)) < 2 ^ 64"
  shows "parse_coinbase tx = Some
      \<lparr>pc_version = (if cs_tx_version spec = 0 then 2 else cs_tx_version spec),
       pc_prevout = replicate 32 0, pc_prev_index = 0xffffffff,
       pc_script_sig = coinbase_script_sig spec en1 en2, pc_sequence = 0xffffffff,
       pc_outputs = coinbase_outputs spec, pc_locktime = 0\<rparr>
    \<and> length (coinbase_script_sig spec en1 en2) \<le> 100"
proof -
  note b = build_coinbase_Inr [OF built]
  have en: "int (length en1) + int (length en2) = cs_en1_size spec + cs_en2_size spec"
    and tx: "tx = cp_coinb1 p @ en1 @ en2 @ cp_coinb2 p"
    using asm b(4) by (auto simp: assemble_def Let_def split: if_splits)
  let ?ss = "coinbase_script_sig spec en1 en2"
  have n: "int (length (encode_height_bip34 (cs_height spec))) + int (length (cs_tag spec))
      + (cs_en1_size spec + cs_en2_size spec) = int (length ?ss)"
    using en by (simp add: coinbase_script_sig_def)
  have l: "int (length ?ss) \<le> 100" using b(5) unfolding n .
  have "parse_coinbase tx = Some
      \<lparr>pc_version = (if cs_tx_version spec = 0 then 2 else cs_tx_version spec),
       pc_prevout = replicate 32 0, pc_prev_index = 0xffffffff,
       pc_script_sig = ?ss, pc_sequence = 0xffffffff,
       pc_outputs = coinbase_outputs spec, pc_locktime = 0\<rparr>"
    using parse_coinbase_parts [OF _ _ _ _ _ read_coinbase_outputs [OF b(2) ranges], of "int (length ?ss)" ?ss] l
    unfolding tx b(6,7) n by (simp add: coinbase_script_sig_def)
  with l show ?thesis by simp
qed

text \<open>
  The coinbase a miner completes is the transaction the pool meant. If the parts were built and
  the miner's extranonces have the advertised total width, the assembled bytes parse as a legacy
  transaction with one null-prevout input whose scriptSig is the height push, the tag and the two
  extranonces, within the 100-byte consensus limit, paying the whole coinbase value to the pool
  script (and the witness commitment with value 0 when there is one).
\<close>

theorem coinbase_parses:
  assumes built: "build_coinbase spec = Inr p"
    and asm: "assemble p en1 en2 = Inr tx"
    and ranges: "cs_coinbase_value spec < 2 ^ 63"
      "int (length (cs_payout_script spec)) < 2 ^ 64"
      "int (length (cs_witness_commitment spec)) < 2 ^ 64"
  shows "parse_coinbase tx = Some
      \<lparr>pc_version = (if cs_tx_version spec = 0 then 2 else cs_tx_version spec),
       pc_prevout = replicate 32 0, pc_prev_index = 0xffffffff,
       pc_script_sig = coinbase_script_sig spec en1 en2, pc_sequence = 0xffffffff,
       pc_outputs = coinbase_outputs spec, pc_locktime = 0\<rparr>
    \<and> length (coinbase_script_sig spec en1 en2) \<le> 100"
  by (rule coinbase_parse [OF assms])

text \<open>A concrete coinbase: height 840000, a P2PKH-sized script, a commitment, 4-byte extranonces.\<close>

definition sample_spec :: coinbase_spec where
  "sample_spec = \<lparr>cs_height = 840000, cs_coinbase_value = 312500000,
     cs_payout_script = [0x76, 0xa9, 0x88], cs_witness_commitment = [0x6a, 0x24],
     cs_tag = ''/P/'', cs_en1_size = 4, cs_en2_size = 4, cs_tx_version = 2\<rparr>"

definition sample_parts :: coinbase_parts where
  "sample_parts = \<lparr>
     cp_coinb1 = [2, 0, 0, 0, 1] @ replicate 32 0 @ [255, 255, 255, 255, 15, 3, 64, 209, 12, 47, 80, 47],
     cp_coinb2 = [255, 255, 255, 255, 2, 32, 95, 160, 18, 0, 0, 0, 0, 3, 0x76, 0xa9, 0x88,
       0, 0, 0, 0, 0, 0, 0, 0, 2, 0x6a, 0x24, 0, 0, 0, 0],
     cp_extra_nonce_size = 8\<rparr>"

lemma sample_built: "build_coinbase sample_spec = Inr sample_parts"
  by code_simp

theorem coinbase_parses_witness:
  "\<exists>tx. assemble sample_parts [0, 0, 0, 1] [0, 0, 0, 42] = Inr tx
    \<and> parse_coinbase tx = Some
      \<lparr>pc_version = (if cs_tx_version sample_spec = 0 then 2 else cs_tx_version sample_spec),
       pc_prevout = replicate 32 0, pc_prev_index = 0xffffffff,
       pc_script_sig = coinbase_script_sig sample_spec [0, 0, 0, 1] [0, 0, 0, 42],
       pc_sequence = 0xffffffff, pc_outputs = coinbase_outputs sample_spec, pc_locktime = 0\<rparr>"
proof -
  obtain tx where tx: "assemble sample_parts [0, 0, 0, 1] [0, 0, 0, 42] = Inr tx"
    by (simp add: assemble_def sample_parts_def)
  show ?thesis
    using tx coinbase_parses [OF sample_built tx] by (simp add: sample_spec_def)
qed

end
