(* ===== verification/Address.thy ===== *)
theory Address
  imports Coinbase
begin

text \<open>
  \<open>internal/coins/bitcoinbase/address.go\<close>: base58check and bech32/bech32m decoding and the
  conversion of a payout address to its scriptPubKey. The reference encoder \<open>base58check_encode\<close>
  is the published inverse, used to state the round trip.
\<close>

record address_params =
  ap_p2pkh_version :: byte
  ap_p2sh_version :: byte
  ap_bech32_hrp :: string

definition btc_main_net :: address_params where
  "btc_main_net = \<lparr>ap_p2pkh_version = 0x00, ap_p2sh_version = 0x05, ap_bech32_hrp = ''bc''\<rparr>"
definition btc_test_net :: address_params where
  "btc_test_net = \<lparr>ap_p2pkh_version = 0x6f, ap_p2sh_version = 0xc4, ap_bech32_hrp = ''tb''\<rparr>"
definition btc_reg_test :: address_params where
  "btc_reg_test = \<lparr>ap_p2pkh_version = 0x6f, ap_p2sh_version = 0xc4, ap_bech32_hrp = ''bcrt''\<rparr>"
definition ltc_main_net :: address_params where
  "ltc_main_net = \<lparr>ap_p2pkh_version = 0x30, ap_p2sh_version = 0x32, ap_bech32_hrp = ''ltc''\<rparr>"
definition ltc_test_net :: address_params where
  "ltc_test_net = \<lparr>ap_p2pkh_version = 0x6f, ap_p2sh_version = 0x3a, ap_bech32_hrp = ''tltc''\<rparr>"
definition ltc_reg_test :: address_params where
  "ltc_reg_test = \<lparr>ap_p2pkh_version = 0x6f, ap_p2sh_version = 0x3a, ap_bech32_hrp = ''rltc''\<rparr>"
definition rxd_main_net :: address_params where
  "rxd_main_net = \<lparr>ap_p2pkh_version = 0x00, ap_p2sh_version = 0x05, ap_bech32_hrp = ''''\<rparr>"
definition rxd_test_net :: address_params where
  "rxd_test_net = \<lparr>ap_p2pkh_version = 0x6f, ap_p2sh_version = 0xc4, ap_bech32_hrp = ''''\<rparr>"
definition rxd_reg_test :: address_params where
  "rxd_reg_test = \<lparr>ap_p2pkh_version = 0x6f, ap_p2sh_version = 0xc4, ap_bech32_hrp = ''''\<rparr>"
definition scash_main_net :: address_params where
  "scash_main_net = \<lparr>ap_p2pkh_version = 0x00, ap_p2sh_version = 0x05, ap_bech32_hrp = ''scash''\<rparr>"
definition scash_test_net :: address_params where
  "scash_test_net = \<lparr>ap_p2pkh_version = 0x6f, ap_p2sh_version = 0xc4, ap_bech32_hrp = ''tscash''\<rparr>"
definition scash_reg_test :: address_params where
  "scash_reg_test = \<lparr>ap_p2pkh_version = 0x6f, ap_p2sh_version = 0xc4, ap_bech32_hrp = ''rscash''\<rparr>"

datatype address_error =
    EmptyAddress
  | InvalidBase58Char char
  | Base58TooShort
  | ChecksumMismatch
  | PayloadLength nat
  | UnknownVersion byte
  | Bech32Separator
  | HrpMismatch string
  | InvalidBech32Char char
  | Bech32Checksum
  | InvalidGroup int
  | InvalidPadding
  | EmptyProgram
  | WitnessVersion int
  | ProgramLength nat
  | V0ProgramLength nat
  | V0NeedsBech32
  | NeedsBech32m int

subsection \<open>base58check\<close>

definition b58_alphabet :: string where
  "b58_alphabet = ''123456789ABCDEFGHJKLMNPQRSTUVWXYZabcdefghijkmnopqrstuvwxyz''"

fun index_of :: "'a list \<Rightarrow> 'a \<Rightarrow> int option" where
  "index_of [] c = None"
| "index_of (x # xs) c = (if x = c then Some 0 else map_option ((+) 1) (index_of xs c))"

definition b58_index :: "char \<Rightarrow> int option" where
  "b58_index c = index_of b58_alphabet c"

fun b58_number :: "int \<Rightarrow> string \<Rightarrow> address_error + int" where
  "b58_number num [] = Inr num"
| "b58_number num (c # cs) =
     (case b58_index c of None \<Rightarrow> Inl (InvalidBase58Char c)
      | Some d \<Rightarrow> b58_number (num * 58 + d) cs)"

definition base58check_decode :: "string \<Rightarrow> address_error + (byte \<times> bytes)" where
  "base58check_decode s =
     (case b58_number 0 s of Inl e \<Rightarrow> Inl e
      | Inr num \<Rightarrow>
        let raw = big_bytes num;
            zeros = length (takeWhile ((=) CHR ''1'') s);
            full = replicate zeros 0 @ raw
        in if length full < 5 then Inl Base58TooShort
           else let body = take (length full - 4) full;
                    checksum = drop (length full - 4) full
                in if checksum \<noteq> take 4 (double_sha256 body) then Inl ChecksumMismatch
                   else Inr (hd body, tl body))"

definition base58_to_script :: "string \<Rightarrow> address_params \<Rightarrow> address_error + bytes" where
  "base58_to_script address params =
     (case base58check_decode address of Inl e \<Rightarrow> Inl e
      | Inr (version, payload) \<Rightarrow>
        if length payload \<noteq> 20 then Inl (PayloadLength (length payload))
        else if version = ap_p2pkh_version params
          then Inr ([0x76, 0xa9, 0x14] @ payload @ [0x88, 0xac])
        else if version = ap_p2sh_version params then Inr ([0xa9, 0x14] @ payload @ [0x87])
        else Inl (UnknownVersion version))"

subsection \<open>bech32 and bech32m\<close>

definition bech32_charset :: string where
  "bech32_charset = ''qpzry9x8gf2tvdw0s3jn54khce6mua7l''"

definition bech32_index :: "char \<Rightarrow> int option" where
  "bech32_index c = index_of bech32_charset c"

definition bech32_gen :: "int list" where
  "bech32_gen = [0x3b6a57b2, 0x26508e6d, 0x1ea119fa, 0x3d4233dd, 0x2a1462b3]"

fun polymod_mix :: "int \<Rightarrow> int list \<Rightarrow> int \<Rightarrow> int" where
  "polymod_mix t [] chk = chk"
| "polymod_mix t (g # gs) chk =
     polymod_mix (drop_bit 1 t) gs (if (t AND 1) = 1 then chk XOR g else chk)"

definition polymod_step :: "int \<Rightarrow> int \<Rightarrow> int" where
  "polymod_step chk v =
     polymod_mix (drop_bit 25 chk) bech32_gen (push_bit 5 (chk AND 0x1ffffff) XOR v)"

definition bech32_polymod :: "int list \<Rightarrow> int" where
  "bech32_polymod values = foldl polymod_step 1 values"

definition bech32_hrp_expand :: "string \<Rightarrow> int list" where
  "bech32_hrp_expand hrp =
     map (\<lambda>c. drop_bit 5 (of_char c)) hrp @ [0] @ map (\<lambda>c. of_char c AND 31) hrp"

definition bech32m_const :: int where
  "bech32m_const = 0x2bc830a3"

text \<open>\<open>strings.LastIndexByte(s, '1')\<close>: the part before the last \<open>1\<close> and the part after it.\<close>

definition split_last_one :: "string \<Rightarrow> (string \<times> string) option" where
  "split_last_one s =
     (if CHR ''1'' \<in> set s
      then let after = rev (takeWhile ((\<noteq>) CHR ''1'') (rev s))
           in Some (take (length s - length after - 1) s, after)
      else None)"

fun bech32_values :: "string \<Rightarrow> address_error + int list" where
  "bech32_values [] = Inr []"
| "bech32_values (c # cs) =
     (case bech32_index c of None \<Rightarrow> Inl (InvalidBech32Char c)
      | Some d \<Rightarrow> (case bech32_values cs of Inl e \<Rightarrow> Inl e | Inr ds \<Rightarrow> Inr (d # ds)))"

definition bech32_decode :: "string \<Rightarrow> string \<Rightarrow> address_error + (int list \<times> int)" where
  "bech32_decode s expect_hrp =
     (case split_last_one s of None \<Rightarrow> Inl Bech32Separator
      | Some (hrp, data_part) \<Rightarrow>
        if hrp = [] \<or> length data_part < 6 then Inl Bech32Separator
        else if hrp \<noteq> expect_hrp then Inl (HrpMismatch hrp)
        else case bech32_values data_part of Inl e \<Rightarrow> Inl e
          | Inr data \<Rightarrow>
            let konst = bech32_polymod (bech32_hrp_expand hrp @ data)
            in if konst \<noteq> 1 \<and> konst \<noteq> bech32m_const then Inl Bech32Checksum
               else Inr (take (length data - 6) data, konst))"

text \<open>
  \<open>convertBits\<close>. The accumulator is Go's 64-bit \<open>int\<close> and is never masked, so it wraps; only its
  low bits are read. \<open>emit\<close> is the inner loop \<open>for bits >= toBits\<close>.
\<close>

function emit_groups :: "64 word \<Rightarrow> nat \<Rightarrow> nat \<Rightarrow> bytes \<times> nat" where
  "emit_groups acc bits to_bits =
     (if to_bits \<le> bits \<and> 0 < to_bits
      then (let (out, b) = emit_groups acc (bits - to_bits) to_bits
            in (ucast (signed_drop_bit (bits - to_bits) acc AND (push_bit to_bits 1 - 1)) # out, b))
      else ([], bits))"
  by pat_completeness auto
termination by (relation "measure (\<lambda>(acc, bits, to_bits). bits)") auto

declare emit_groups.simps [simp del]

fun convert_loop ::
    "int list \<Rightarrow> nat \<Rightarrow> nat \<Rightarrow> 64 word \<Rightarrow> nat \<Rightarrow> address_error + (bytes \<times> 64 word \<times> nat)" where
  "convert_loop [] from_bits to_bits acc bits = Inr ([], acc, bits)"
| "convert_loop (v # vs) from_bits to_bits acc bits =
     (if v < 0 \<or> drop_bit from_bits v \<noteq> 0 then Inl (InvalidGroup v)
      else
        let acc' = push_bit from_bits acc OR word_of_int v;
            (out, bits') = emit_groups acc' (bits + from_bits) to_bits
        in case convert_loop vs from_bits to_bits acc' bits' of Inl e \<Rightarrow> Inl e
           | Inr (rest, acc'', bits'') \<Rightarrow> Inr (out @ rest, acc'', bits''))"

definition convert_bits :: "int list \<Rightarrow> nat \<Rightarrow> nat \<Rightarrow> bool \<Rightarrow> address_error + bytes" where
  "convert_bits data from_bits to_bits pad =
     (case convert_loop data from_bits to_bits 0 0 of Inl e \<Rightarrow> Inl e
      | Inr (out, acc, bits) \<Rightarrow>
        let maxv = push_bit to_bits 1 - 1;
            last_group = push_bit (to_bits - bits) acc AND maxv
        in if pad then Inr (if 0 < bits then out @ [ucast last_group] else out)
           else if from_bits \<le> bits \<or> last_group \<noteq> 0 then Inl InvalidPadding
           else Inr out)"

definition segwit_to_script :: "string \<Rightarrow> string \<Rightarrow> address_error + bytes" where
  "segwit_to_script address hrp =
     (case bech32_decode address hrp of Inl e \<Rightarrow> Inl e
      | Inr (data, konst) \<Rightarrow>
        (case data of [] \<Rightarrow> Inl EmptyProgram
         | version # groups \<Rightarrow>
           (case convert_bits groups 5 8 False of Inl e \<Rightarrow> Inl e
            | Inr program \<Rightarrow>
              if version < 0 \<or> 16 < version then Inl (WitnessVersion version)
              else if length program < 2 \<or> 40 < length program then Inl (ProgramLength (length program))
              else if version = 0 \<and> length program \<noteq> 20 \<and> length program \<noteq> 32
                then Inl (V0ProgramLength (length program))
              else if version = 0 \<and> konst \<noteq> 1 then Inl V0NeedsBech32
              else if version \<noteq> 0 \<and> konst \<noteq> bech32m_const then Inl (NeedsBech32m version)
              else Inr ((if 0 < version then word_of_int (0x50 + version) else 0x00)
                          # word_of_int (int (length program)) # program))))"

definition has_prefix :: "string \<Rightarrow> string \<Rightarrow> bool" where
  "has_prefix s p = (take (length p) s = p)"

definition address_to_script :: "string \<Rightarrow> address_params \<Rightarrow> address_error + bytes" where
  "address_to_script addr params =
     (let address = trim_space addr in
      if address = [] then Inl EmptyAddress
      else if ap_bech32_hrp params \<noteq> [] \<and> has_prefix (to_lower address) (ap_bech32_hrp params @ ''1'')
        then segwit_to_script (to_lower address) (ap_bech32_hrp params)
      else base58_to_script address params)"

subsection \<open>Every accepted address yields a standard script\<close>

text \<open>The scriptPubKey shapes consensus and relay policy know: P2PKH, P2SH and witness programs.\<close>

definition p2pkh_script :: "bytes \<Rightarrow> bool" where
  "p2pkh_script s = (\<exists>h. length h = 20 \<and> s = [0x76, 0xa9, 0x14] @ h @ [0x88, 0xac])"

definition p2sh_script :: "bytes \<Rightarrow> bool" where
  "p2sh_script s = (\<exists>h. length h = 20 \<and> s = [0xa9, 0x14] @ h @ [0x87])"

definition witness_script :: "bytes \<Rightarrow> bool" where
  "witness_script s =
     (\<exists>v p. 0 \<le> v \<and> v \<le> 16 \<and> 2 \<le> length p \<and> length p \<le> 40 \<and> (v = 0 \<longrightarrow> length p \<in> {20, 32})
        \<and> s = (if v = 0 then 0x00 else word_of_int (0x50 + v)) # word_of_int (int (length p)) # p)"

lemma base58_to_script_shape:
  "base58_to_script a params = Inr s \<Longrightarrow> p2pkh_script s \<or> p2sh_script s"
  by (auto simp: base58_to_script_def p2pkh_script_def p2sh_script_def split: sum.splits if_splits prod.splits)

lemma segwit_to_script_shape: "segwit_to_script a hrp = Inr s \<Longrightarrow> witness_script s"
proof -
  assume "segwit_to_script a hrp = Inr s"
  then obtain v p where "\<not> (v < 0 \<or> 16 < v)" "\<not> (length p < 2 \<or> 40 < length p)"
    "\<not> (v = 0 \<and> length p \<noteq> 20 \<and> length p \<noteq> 32)"
    "s = (if 0 < v then word_of_int (0x50 + v) else 0x00) # word_of_int (int (length p)) # p"
    by (auto simp: segwit_to_script_def split: sum.splits list.splits prod.splits if_splits)
  then show ?thesis unfolding witness_script_def
    by (intro exI [of _ v] exI [of _ p]) auto
qed

text \<open>
  A pool or payout address that is accepted always becomes a standard output script. On every
  chain, a successful conversion yields a P2PKH, P2SH or witness-program script of exactly the
  consensus shape, and witness programs only where the chain has a bech32 prefix.
\<close>

theorem address_script_standard:
  assumes "address_to_script addr params = Inr s"
  shows "(p2pkh_script s \<or> p2sh_script s \<or> witness_script s)
    \<and> (ap_bech32_hrp params = [] \<longrightarrow> p2pkh_script s \<or> p2sh_script s)
    \<and> length s \<le> 42"
proof -
  have shape: "(p2pkh_script s \<or> p2sh_script s \<or> witness_script s)
    \<and> (ap_bech32_hrp params = [] \<longrightarrow> p2pkh_script s \<or> p2sh_script s)"
    using assms base58_to_script_shape segwit_to_script_shape
    by (auto simp: address_to_script_def Let_def split: if_splits)
  moreover have "length s \<le> 42"
    using shape by (auto simp: p2pkh_script_def p2sh_script_def witness_script_def)
  ultimately show ?thesis by blast
qed

subsection \<open>base58check round trip\<close>

function b58_digits :: "int \<Rightarrow> string" where
  "b58_digits n = (if 0 < n then b58_digits (n div 58) @ [b58_alphabet ! nat (n mod 58)] else [])"
  by pat_completeness auto
termination by (relation "measure nat") auto

declare b58_digits.simps [simp del]

definition base58check_encode :: "byte \<Rightarrow> bytes \<Rightarrow> string" where
  "base58check_encode version payload =
     (let body = version # payload;
          full = body @ take 4 (double_sha256 body)
      in replicate (length (takeWhile ((=) 0) full)) CHR ''1'' @ b58_digits (be_val full))"

lemma index_of_nth: "distinct xs \<Longrightarrow> i < length xs \<Longrightarrow> index_of xs (xs ! i) = Some (int i)"
  by (induction xs arbitrary: i) (auto simp: nth_Cons split: nat.splits)

lemma b58_index_digit: "0 \<le> d \<Longrightarrow> d < 58 \<Longrightarrow> b58_index (b58_alphabet ! nat d) = Some d"
  using index_of_nth [of b58_alphabet "nat d"] by (simp add: b58_index_def b58_alphabet_def)

lemma b58_number_append:
  "b58_number n (xs @ ys) = (case b58_number n xs of Inl e \<Rightarrow> Inl e | Inr m \<Rightarrow> b58_number m ys)"
  by (induction xs arbitrary: n) (auto split: option.splits)

lemma b58_number_digits: "0 \<le> n \<Longrightarrow> b58_number 0 (b58_digits n) = Inr n"
proof (induction n rule: b58_digits.induct)
  case (1 n)
  show ?case
  proof (cases "0 < n")
    case True
    have i: "b58_index (b58_alphabet ! nat (n mod 58)) = Some (n mod 58)"
      by (rule b58_index_digit) simp_all
    show ?thesis
      using True "1.IH" "1.prems"
      by (subst b58_digits.simps) (simp add: b58_number_append i pos_imp_zdiv_nonneg_iff)
  next
    case False
    with "1.prems" show ?thesis by (subst b58_digits.simps) simp
  qed
qed

lemma b58_number_ones: "b58_number 0 (replicate k CHR ''1'' @ s) = b58_number 0 s"
proof (induction k)
  case (Suc k)
  have "b58_index CHR ''1'' = Some 0" by (simp add: b58_index_def b58_alphabet_def)
  with Suc show ?case by simp
qed simp

lemma b58_one_iff: "0 \<le> d \<Longrightarrow> d < 58 \<Longrightarrow> b58_alphabet ! nat d = CHR ''1'' \<longleftrightarrow> d = 0"
proof
  assume d: "0 \<le> d" "d < 58" and "b58_alphabet ! nat d = CHR ''1''"
  then have "b58_index (CHR ''1'') = Some d" using b58_index_digit [OF d] by simp
  then show "d = 0" by (simp add: b58_index_def b58_alphabet_def)
qed (simp add: b58_alphabet_def)

lemma b58_digits_hd: "0 < n \<Longrightarrow> b58_digits n \<noteq> [] \<and> hd (b58_digits n) \<noteq> CHR ''1''"
proof (induction n rule: b58_digits.induct)
  case (1 n)
  show ?case
  proof (cases "0 < n div 58")
    case True
    with 1 show ?thesis by (subst (1 2) b58_digits.simps) simp
  next
    case False
    then have e: "b58_digits (n div 58) = []" by (subst b58_digits.simps) simp
    from False "1.prems" have "n < 58" by (simp add: pos_imp_zdiv_pos_iff)
    with "1.prems" e b58_one_iff [of n] show ?thesis by (subst (1 2) b58_digits.simps) simp
  qed
qed

lemma takeWhile_ones_digits:
  "0 \<le> n \<Longrightarrow> takeWhile ((=) CHR ''1'') (replicate k CHR ''1'' @ b58_digits n) = replicate k CHR ''1''"
proof -
  assume "0 \<le> n"
  have t: "takeWhile ((=) CHR ''1'') (b58_digits n) = []"
  proof (cases "0 < n")
    case True
    then show ?thesis using b58_digits_hd by (metis takeWhile_eq_Nil_iff)
  next
    case False
    then show ?thesis by (subst b58_digits.simps) simp
  qed
  then show ?thesis by (induction k) simp_all
qed

lemma zeros_then_rest: "replicate (length (takeWhile ((=) 0) bs)) (0 :: byte) @ dropWhile ((=) 0) bs = bs"
proof -
  have "takeWhile ((=) 0) bs = replicate (length (takeWhile ((=) 0) bs)) (0 :: byte)"
    by (induction bs) auto
  then show ?thesis by (metis takeWhile_dropWhile_id)
qed

text \<open>
  Base58check decoding inverts the published encoding. Every version byte and payload, leading
  zero bytes included, come back unchanged from the string the encoding gives, with its checksum
  accepted.
\<close>

theorem base58check_round_trip:
  "base58check_decode (base58check_encode version payload) = Inr (version, payload)"
proof -
  define body where "body = version # payload"
  define full where "full = body @ take 4 (double_sha256 body)"
  let ?k = "length (takeWhile ((=) 0) full)"
  have enc: "base58check_encode version payload = replicate ?k CHR ''1'' @ b58_digits (be_val full)"
    by (simp add: base58check_encode_def body_def full_def Let_def)
  have n: "b58_number 0 (replicate ?k CHR ''1'' @ b58_digits (be_val full)) = Inr (be_val full)"
    by (simp add: b58_number_ones b58_number_digits)
  have f: "replicate ?k 0 @ big_bytes (be_val full) = full"
    by (simp add: big_bytes_be_val zeros_then_rest)
  have l: "length full = length body + 4" by (simp add: full_def)
  have body: "take (length full - 4) full = body" "drop (length full - 4) full = take 4 (double_sha256 body)"
    unfolding l by (simp_all add: full_def)
  have big: "\<not> length full < 5" by (simp add: l body_def)
  have hd_tl: "hd body = version" "tl body = payload" by (simp_all add: body_def)
  have t: "takeWhile ((=) CHR ''1'') (replicate ?k CHR ''1'' @ b58_digits (be_val full)) = replicate ?k CHR ''1''"
    by (rule takeWhile_ones_digits) simp
  show ?thesis
    unfolding enc base58check_decode_def n t Let_def sum.case length_replicate f body
    using big by (simp add: hd_tl)
qed


text \<open>The BIP173 test address, evaluated.\<close>

theorem address_script_standard_witness:
  "(case address_to_script ''bc1qw508d6qejxtdg4y5r3zarvary0c5xw7kv8f3t4'' btc_main_net of
      Inl _ \<Rightarrow> False | Inr s \<Rightarrow> p2pkh_script s \<or> p2sh_script s \<or> witness_script s)"
proof -
  have "\<not> isl (address_to_script ''bc1qw508d6qejxtdg4y5r3zarvary0c5xw7kv8f3t4'' btc_main_net)"
    by code_simp
  then obtain s where s: "address_to_script ''bc1qw508d6qejxtdg4y5r3zarvary0c5xw7kv8f3t4'' btc_main_net = Inr s"
    by (cases "address_to_script ''bc1qw508d6qejxtdg4y5r3zarvary0c5xw7kv8f3t4'' btc_main_net") auto
  from address_script_standard [OF s] show ?thesis by (simp add: s)
qed

end
