(* ===== verification/Target.thy ===== *)
theory Target
  imports Merkle
begin

text \<open>
  \<open>internal/coins/bitcoinbase/target.go\<close>: the compact \<open>nBits\<close> encoding, the 32-byte rendering
  of a target and the two byte orders of the previous block hash. \<open>big.Int\<close> values are \<open>int\<close>;
  \<open>FillBytes\<close> panics when the value does not fit, which is the error \<open>TargetOverflow\<close>.
\<close>

datatype target_error = BitsNotHex | BitsLength nat | TargetOverflow

definition compact_to_target :: "32 word \<Rightarrow> int" where
  "compact_to_target nbits =
     (let exponent = uint (drop_bit 24 nbits);
          mantissa = uint (nbits AND 0x007fffff)
      in if exponent \<le> 3 then mantissa div 2 ^ nat (8 * (3 - exponent))
         else mantissa * 2 ^ nat (8 * (exponent - 3)))"

definition bits_to_target :: "string \<Rightarrow> target_error + int" where
  "bits_to_target bits_hex =
     (case hex_decode bits_hex of None \<Rightarrow> Inl BitsNotHex
      | Some raw \<Rightarrow> if length raw \<noteq> 4 then Inl (BitsLength (length raw))
                    else Inr (compact_to_target (get_u32_be raw)))"

definition target_to_bytes :: "int \<Rightarrow> target_error + bytes" where
  "target_to_bytes t = (if 0 \<le> t \<and> t < 2 ^ 256 then Inr (be_bytes 32 t) else Inl TargetOverflow)"

definition uint32_le_hex :: "32 word \<Rightarrow> string" where
  "uint32_le_hex v = hex_encode (put_u32_le v)"

text \<open>\<open>copy(out[i:i+4], raw[28-i:32-i])\<close> for \<open>i = 0, 4, \<dots>, 28\<close>: the 4-byte words in reverse
  order.\<close>

fun words4 :: "bytes \<Rightarrow> bytes list" where
  "words4 (a # b # c # d # rest) = [a, b, c, d] # words4 rest"
| "words4 _ = []"

definition swap_words :: "bytes \<Rightarrow> bytes" where
  "swap_words raw = concat (rev (words4 raw))"

definition prev_hash_to_stratum :: "string \<Rightarrow> hex32_error + string" where
  "prev_hash_to_stratum display_hex =
     (case hex_decode display_hex of None \<Rightarrow> Inl NotHex
      | Some raw \<Rightarrow> if length raw \<noteq> 32 then Inl (WrongLength (length raw))
                    else Inr (hex_encode (swap_words raw)))"

definition stratum_prev_hash_to_le :: "string \<Rightarrow> hex32_error + bytes" where
  "stratum_prev_hash_to_le stratum_hex =
     (case hex_decode stratum_hex of None \<Rightarrow> Inl NotHex
      | Some raw \<Rightarrow> if length raw \<noteq> 32 then Inl (WrongLength (length raw))
                    else Inr (concat (map rev (words4 raw))))"

subsection \<open>Word lists\<close>

lemma concat_words4: "4 dvd length bs \<Longrightarrow> concat (words4 bs) = bs"
proof (induction bs rule: words4.induct)
  case (1 a b c d rest)
  then have "4 dvd length rest" by simp presburger
  with 1 show ?case by simp
qed (simp_all, presburger+)

lemma words4_concat: "(\<And>w. w \<in> set ws \<Longrightarrow> length w = 4) \<Longrightarrow> words4 (concat ws) = ws"
proof (induction ws)
  case (Cons w ws)
  have "length w = Suc (Suc (Suc (Suc 0)))" using Cons.prems [of w] by simp
  then obtain a b c d where "w = [a, b, c, d]"
    by (auto simp only: length_Suc_conv length_0_conv)
  with Cons show ?case by simp
qed simp

lemma words4_sizes: "w \<in> set (words4 bs) \<Longrightarrow> length w = 4"
  by (induction bs rule: words4.induct) auto

lemma length_concat4: "(\<And>w. w \<in> set ws \<Longrightarrow> length w = 4) \<Longrightarrow> length (concat ws) = 4 * length ws"
  by (induction ws) auto

lemma length_words4: "length (words4 bs) = length bs div 4"
  by (induction bs rule: words4.induct) auto

lemma length_swap_words: "4 dvd length bs \<Longrightarrow> length (swap_words bs) = length bs"
  using length_concat4 [of "rev (words4 bs)"]
  by (auto simp: swap_words_def length_words4 dest: words4_sizes)

lemma words4_swap_words: "words4 (swap_words bs) = rev (words4 bs)"
  unfolding swap_words_def by (rule words4_concat) (auto dest: words4_sizes)

lemma reverse_by_words: "4 dvd length bs \<Longrightarrow> concat (map rev (rev (words4 bs))) = rev bs"
proof -
  assume "4 dvd length bs"
  have "concat (map rev (rev (words4 bs))) = rev (concat (words4 bs))"
    by (simp add: rev_concat rev_map)
  also have "\<dots> = rev bs" using \<open>4 dvd length bs\<close> by (simp add: concat_words4)
  finally show ?thesis .
qed

text \<open>
  The previous-hash encodings agree. Whatever hash the daemon reports, the string sent in
  \<open>mining.notify\<close> converts back (word by word, as a miner does) to exactly the little-endian
  bytes the pool puts in the header, and the conversion fails on the same inputs.
\<close>

theorem prev_hash_round_trip:
  "(case prev_hash_to_stratum display of Inl e \<Rightarrow> Inl e | Inr s \<Rightarrow> stratum_prev_hash_to_le s)
     = hash_le_from_display_hex display"
  by (auto simp: prev_hash_to_stratum_def stratum_prev_hash_to_le_def hash_le_from_display_hex_def
      length_swap_words words4_swap_words reverse_by_words reverse_bytes_def split: option.splits)

subsection \<open>Compact targets\<close>

lemma mantissa_bounds: "0 \<le> uint (c AND 0x007fffff :: 32 word)" "uint (c AND 0x007fffff :: 32 word) < 2 ^ 23"
proof -
  have "c AND 0x007fffff = take_bit 23 c" by (simp add: take_bit_eq_mask mask_eq_exp_minus_1)
  then show "uint (c AND 0x007fffff :: 32 word) < 2 ^ 23"
    using take_bit_int_less_exp [of 23 "uint c"] by (simp add: unsigned_take_bit_eq)
qed simp

lemma exponent_bounds: "uint (drop_bit 24 c :: 32 word) < 256"
proof -
  have "uint c div 16777216 < 256" using uint_u32_less [of c] by linarith
  then show ?thesis by (simp add: drop_bit_eq_div uint_div)
qed

lemma compact_to_target_nonneg: "0 \<le> compact_to_target c"
  using mantissa_bounds(1) [of c]
  by (auto simp: compact_to_target_def Let_def pos_imp_zdiv_nonneg_iff)

lemma zdiv_le_dividend_pow: "0 \<le> a \<Longrightarrow> a div 2 ^ k \<le> (a :: int)"
  by (cases "a = 0") (simp_all add: zdiv_mono2 [of a 1, simplified])

lemma compact_to_target_fits:
  assumes "uint (drop_bit 24 c) \<le> 32"
  shows "compact_to_target c < 2 ^ 256"
proof -
  let ?e = "uint (drop_bit 24 c)" and ?m = "uint (c AND 0x007fffff)"
  note m = mantissa_bounds [of c]
  show ?thesis
  proof (cases "?e \<le> 3")
    case True
    then have "compact_to_target c \<le> ?m"
      using m by (simp add: compact_to_target_def Let_def zdiv_le_dividend_pow)
    also have "?m < 2 ^ 256" using m by simp
    finally show ?thesis .
  next
    case False
    have "?m * 2 ^ nat (8 * (?e - 3)) \<le> ?m * 2 ^ 232"
      using assms m by (intro mult_left_mono power_increasing) auto
    also have "\<dots> < 2 ^ 23 * 2 ^ 232" using m by (intro mult_strict_right_mono) auto
    also have "\<dots> < 2 ^ 256" by simp
    finally show ?thesis using False by (simp add: compact_to_target_def Let_def)
  qed
qed

lemma target_to_bytes_value: "target_to_bytes t = Inr bs \<Longrightarrow> be_val bs = t \<and> length bs = 32"
  by (auto simp: target_to_bytes_def be_val_be_bytes split: if_splits)

end
