(* ===== verification/Job.thy ===== *)
theory Job
  imports Coinbase Target
begin

text \<open>
  \<open>internal/coins/bitcoinbase/template.go\<close> and \<open>notify.go\<close>: the checked block template and the
  mining job derived from it. JSON decoding itself is \<open>encoding/json\<close>'s: the model starts from
  the decoded struct (\<open>None\<close> where \<open>Unmarshal\<close> fails).
\<close>

record template_tx =
  tt_data :: string
  tt_txid :: string
  tt_hash :: string
  tt_fee :: int
  tt_weight :: int

record template =
  tp_version :: "32 word"
  tp_rules :: "string list"
  tp_previous_block_hash :: string
  tp_transactions :: "template_tx list"
  tp_coinbase_value :: int
  tp_target :: string
  tp_min_time :: int
  tp_cur_time :: int
  tp_bits :: string
  tp_height :: int
  tp_default_witness_commitment :: string

datatype template_error =
    TemplateNotJSON
  | TemplateHeight int
  | TemplatePrevHash string
  | TemplatePrevHashNotHex
  | TemplateBits string
  | TemplateBitsNotHex
  | TemplateCurTime int
  | TemplateCoinbaseValue int
  | TemplateTxNoId nat

fun first_tx_without_id :: "nat \<Rightarrow> template_tx list \<Rightarrow> nat option" where
  "first_tx_without_id i [] = None"
| "first_tx_without_id i (tx # txs) =
     (if tt_txid tx = [] \<and> tt_hash tx = [] then Some i else first_tx_without_id (Suc i) txs)"

definition parse_template :: "template option \<Rightarrow> template_error + template" where
  "parse_template raw =
     (case raw of None \<Rightarrow> Inl TemplateNotJSON
      | Some t \<Rightarrow>
        if tp_height t \<le> 0 then Inl (TemplateHeight (tp_height t))
        else if length (tp_previous_block_hash t) \<noteq> 64
          then Inl (TemplatePrevHash (tp_previous_block_hash t))
        else if hex_decode (tp_previous_block_hash t) = None then Inl TemplatePrevHashNotHex
        else if length (tp_bits t) \<noteq> 8 then Inl (TemplateBits (tp_bits t))
        else if hex_decode (tp_bits t) = None then Inl TemplateBitsNotHex
        else if tp_cur_time t \<le> 0 then Inl (TemplateCurTime (tp_cur_time t))
        else if tp_coinbase_value t \<le> 0 then Inl (TemplateCoinbaseValue (tp_coinbase_value t))
        else case first_tx_without_id 0 (tp_transactions t) of
               Some i \<Rightarrow> Inl (TemplateTxNoId i)
             | None \<Rightarrow> Inr t)"

definition tx_ids :: "template \<Rightarrow> string list" where
  "tx_ids t = map (\<lambda>tx. if tt_txid tx = [] then tt_hash tx else tt_txid tx) (tp_transactions t)"

record job =
  jb_job_id :: string
  jb_height :: int
  jb_clean_job :: bool
  jb_prev_hash_stratum :: string
  jb_prev_hash_display :: string
  jb_coinb1_hex :: string
  jb_coinb2_hex :: string
  jb_merkle_branch_hex :: "string list"
  jb_version_hex :: string
  jb_bits_hex :: string
  jb_ntime_hex :: string
  jb_cur_time :: int
  jb_min_time :: int
  jb_coinbase_parts :: coinbase_parts
  jb_has_witness_commitment :: bool
  jb_tx_data_hex :: "string list"
  jb_merkle_branch_le :: "bytes list"

datatype job_error =
    JobCoinbase coinbase_error
  | JobTxid hex32_error
  | JobPrevHash hex32_error

definition new_job :: "string \<Rightarrow> template \<Rightarrow> coinbase_spec \<Rightarrow> bool \<Rightarrow> job_error + job" where
  "new_job job_id tpl spec clean_job =
     (case build_coinbase spec of Inl e \<Rightarrow> Inl (JobCoinbase e)
      | Inr parts \<Rightarrow>
        (case map_result hash_le_from_display_hex (tx_ids tpl) of Inl e \<Rightarrow> Inl (JobTxid e)
         | Inr tx_hashes_le \<Rightarrow>
           (case prev_hash_to_stratum (tp_previous_block_hash tpl) of Inl e \<Rightarrow> Inl (JobPrevHash e)
            | Inr prev_stratum \<Rightarrow>
              let branch_le = merkle_branch tx_hashes_le in
              Inr \<lparr>jb_job_id = job_id,
                   jb_height = tp_height tpl,
                   jb_clean_job = clean_job,
                   jb_prev_hash_stratum = prev_stratum,
                   jb_prev_hash_display = tp_previous_block_hash tpl,
                   jb_coinb1_hex = hex_encode (cp_coinb1 parts),
                   jb_coinb2_hex = hex_encode (cp_coinb2 parts),
                   jb_merkle_branch_hex = map hex_encode branch_le,
                   jb_version_hex = fmt_08x (tp_version tpl),
                   jb_bits_hex = tp_bits tpl,
                   jb_ntime_hex = fmt_08x (word_of_int (tp_cur_time tpl)),
                   jb_cur_time = tp_cur_time tpl,
                   jb_min_time = tp_min_time tpl,
                   jb_coinbase_parts = parts,
                   jb_has_witness_commitment = (cs_witness_commitment spec \<noteq> []),
                   jb_tx_data_hex = map tt_data (tp_transactions tpl),
                   jb_merkle_branch_le = branch_le\<rparr>)))"

datatype notify_param = PStr string | PList "string list" | PBool bool

definition notify_params :: "job \<Rightarrow> notify_param list" where
  "notify_params j =
     [PStr (jb_job_id j), PStr (jb_prev_hash_stratum j), PStr (jb_coinb1_hex j),
      PStr (jb_coinb2_hex j), PList (jb_merkle_branch_hex j), PStr (jb_version_hex j),
      PStr (jb_bits_hex j), PStr (jb_ntime_hex j), PBool (jb_clean_job j)]"

lemma parse_template_Inr:
  assumes "parse_template raw = Inr t"
  shows "raw = Some t" "0 < tp_height t" "length (tp_previous_block_hash t) = 64"
    "\<exists>b. hex_decode (tp_previous_block_hash t) = Some b \<and> length b = 32"
    "\<exists>b. hex_decode (tp_bits t) = Some b \<and> length b = 4"
    "0 < tp_cur_time t" "0 < tp_coinbase_value t"
    "first_tx_without_id 0 (tp_transactions t) = None"
proof -
  have *: "raw = Some t \<and> 0 < tp_height t \<and> length (tp_previous_block_hash t) = 64
    \<and> (\<exists>b. hex_decode (tp_previous_block_hash t) = Some b)
    \<and> length (tp_bits t) = 8 \<and> (\<exists>b. hex_decode (tp_bits t) = Some b)
    \<and> 0 < tp_cur_time t \<and> 0 < tp_coinbase_value t \<and> first_tx_without_id 0 (tp_transactions t) = None"
    using assms by (auto simp: parse_template_def split: option.splits if_splits)
  then show "raw = Some t" "0 < tp_height t" "length (tp_previous_block_hash t) = 64"
    "0 < tp_cur_time t" "0 < tp_coinbase_value t"
    "first_tx_without_id 0 (tp_transactions t) = None"
    by simp_all
  from * show "\<exists>b. hex_decode (tp_previous_block_hash t) = Some b \<and> length b = 32"
    using hex_decode_length [of "tp_previous_block_hash t"] by auto
  from * show "\<exists>b. hex_decode (tp_bits t) = Some b \<and> length b = 4"
    using hex_decode_length [of "tp_bits t"] by auto
qed

lemma new_job_Inr:
  assumes "new_job jid tpl spec clean = Inr j"
  shows "\<exists>parts hashes prev.
      build_coinbase spec = Inr parts \<and> map_result hash_le_from_display_hex (tx_ids tpl) = Inr hashes
      \<and> prev_hash_to_stratum (tp_previous_block_hash tpl) = Inr prev
      \<and> jb_coinbase_parts j = parts \<and> jb_merkle_branch_le j = merkle_branch hashes
      \<and> jb_prev_hash_stratum j = prev \<and> jb_prev_hash_display j = tp_previous_block_hash tpl
      \<and> jb_merkle_branch_hex j = map hex_encode (merkle_branch hashes)
      \<and> jb_coinb1_hex j = hex_encode (cp_coinb1 parts) \<and> jb_coinb2_hex j = hex_encode (cp_coinb2 parts)
      \<and> jb_version_hex j = fmt_08x (tp_version tpl) \<and> jb_bits_hex j = tp_bits tpl
      \<and> jb_cur_time j = tp_cur_time tpl \<and> jb_min_time j = tp_min_time tpl
      \<and> jb_job_id j = jid \<and> jb_clean_job j = clean \<and> jb_height j = tp_height tpl
      \<and> jb_has_witness_commitment j = (cs_witness_commitment spec \<noteq> [])
      \<and> jb_tx_data_hex j = map tt_data (tp_transactions tpl)"
  using assms by (auto simp: new_job_def Let_def split: sum.splits)

text \<open>What a miner decodes from the notification: the coinbase halves and the branch as bytes.\<close>

definition miner_merkle_root :: "string \<Rightarrow> string \<Rightarrow> string list \<Rightarrow> bytes \<Rightarrow> bytes \<Rightarrow> bytes option" where
  "miner_merkle_root coinb1_hex coinb2_hex branch_hex en1 en2 =
     (case (hex_decode coinb1_hex, hex_decode coinb2_hex) of
        (Some c1, Some c2) \<Rightarrow>
          if \<forall>s \<in> set branch_hex. hex_decode s \<noteq> None
          then Some (fold_branch (double_sha256 (c1 @ en1 @ en2 @ c2)) (map (the \<circ> hex_decode) branch_hex))
          else None
      | _ \<Rightarrow> None)"

text \<open>
  C39: the notification and the remembered job agree. A miner that reconstructs the coinbase and
  folds the branch from the hex strings of \<open>mining.notify\<close> obtains the merkle root of the block
  made of that coinbase and the template's transactions, in template order.
\<close>

theorem notify_merkle_root:
  assumes "new_job jid tpl spec clean = Inr j"
    and "assemble (jb_coinbase_parts j) en1 en2 = Inr tx"
  shows "\<exists>hashes. map_result hash_le_from_display_hex (tx_ids tpl) = Inr hashes
    \<and> miner_merkle_root (jb_coinb1_hex j) (jb_coinb2_hex j) (jb_merkle_branch_hex j) en1 en2
        = Some (merkle_root (double_sha256 tx # hashes))"
proof -
  obtain parts hashes where j: "map_result hash_le_from_display_hex (tx_ids tpl) = Inr hashes"
    "jb_coinbase_parts j = parts" "jb_merkle_branch_hex j = map hex_encode (merkle_branch hashes)"
    "jb_coinb1_hex j = hex_encode (cp_coinb1 parts)" "jb_coinb2_hex j = hex_encode (cp_coinb2 parts)"
    using new_job_Inr [OF assms(1)] by blast
  have tx: "tx = cp_coinb1 parts @ en1 @ en2 @ cp_coinb2 parts"
    using assms(2) j(2) by (auto simp: assemble_def Let_def split: if_splits)
  have "fold_branch (double_sha256 tx) (merkle_branch hashes) = merkle_root (double_sha256 tx # hashes)"
    by (simp add: merkle_branch_def merkle_root_def fold_branch_root [where p = "[]"])
  with j tx show ?thesis by (simp add: miner_merkle_root_def o_def)
qed


definition sample_template :: template where
  "sample_template = \<lparr>tp_version = 0x20000000, tp_rules = [], 
     tp_previous_block_hash = replicate 64 CHR ''0'', tp_transactions = [],
     tp_coinbase_value = 312500000, tp_target = [], tp_min_time = 1700000000,
     tp_cur_time = 1700000600, tp_bits = ''207fffff'', tp_height = 840000,
     tp_default_witness_commitment = ''6a24''\<rparr>"

definition sample_job :: job where
  "sample_job = \<lparr>jb_job_id = ''1'', jb_height = 840000, jb_clean_job = True,
     jb_prev_hash_stratum = replicate 64 CHR ''0'', jb_prev_hash_display = replicate 64 CHR ''0'',
     jb_coinb1_hex = hex_encode (cp_coinb1 sample_parts), jb_coinb2_hex = hex_encode (cp_coinb2 sample_parts),
     jb_merkle_branch_hex = [], jb_version_hex = ''20000000'', jb_bits_hex = ''207fffff'',
     jb_ntime_hex = ''6553f358'', jb_cur_time = 1700000600, jb_min_time = 1700000000,
     jb_coinbase_parts = sample_parts, jb_has_witness_commitment = True,
     jb_tx_data_hex = [], jb_merkle_branch_le = []\<rparr>"

lemma sample_new_job: "new_job ''1'' sample_template sample_spec True = Inr sample_job"
  by code_simp

theorem notify_merkle_root_witness:
  "\<exists>tx hashes. assemble (jb_coinbase_parts sample_job) [0, 0, 0, 1] [0, 0, 0, 42] = Inr tx
    \<and> miner_merkle_root (jb_coinb1_hex sample_job) (jb_coinb2_hex sample_job)
        (jb_merkle_branch_hex sample_job) [0, 0, 0, 1] [0, 0, 0, 42]
        = Some (merkle_root (double_sha256 tx # hashes))"
proof -
  obtain tx where tx: "assemble (jb_coinbase_parts sample_job) [0, 0, 0, 1] [0, 0, 0, 42] = Inr tx"
    by (simp add: assemble_def sample_job_def sample_parts_def)
  from tx notify_merkle_root [OF sample_new_job tx] show ?thesis by blast
qed

end
