(* ===== verification/Block.thy ===== *)
theory Block
  imports Job
begin

text \<open>
  \<open>internal/coins/bitcoinbase/block.go\<close>: decoding of \<open>mining.submit\<close>, the 80-byte header with
  version rolling, the witness serialization of the coinbase and the full block.
\<close>

record submit_fields =
  sf_extra_nonce1 :: bytes
  sf_extra_nonce2 :: bytes
  sf_ntime :: "32 word"
  sf_nonce :: "32 word"
  sf_version_bits :: "32 word"
  sf_has_version :: bool

datatype hex_u32_error = HexU32Length nat | HexU32NotHex

datatype submit_parse_error =
    EN1NotHex
  | EN2NotHex
  | EN2Size nat int
  | NTimeBad hex_u32_error
  | NonceBad hex_u32_error
  | VersionBad hex_u32_error

definition parse_hex_u32_be :: "string \<Rightarrow> hex_u32_error + 32 word" where
  "parse_hex_u32_be s =
     (if length s \<noteq> 8 then Inl (HexU32Length (length s))
      else case hex_decode s of None \<Rightarrow> Inl HexU32NotHex | Some raw \<Rightarrow> Inr (get_u32_be raw))"

definition parse_submit_hex ::
    "string \<Rightarrow> string \<Rightarrow> string \<Rightarrow> string \<Rightarrow> string \<Rightarrow> int \<Rightarrow> submit_parse_error + submit_fields" where
  "parse_submit_hex extra_nonce1 extra_nonce2 ntime_hex nonce_hex version_hex want_en2_size =
     (case hex_decode extra_nonce1 of None \<Rightarrow> Inl EN1NotHex
      | Some en1 \<Rightarrow>
     (case hex_decode extra_nonce2 of None \<Rightarrow> Inl EN2NotHex
      | Some en2 \<Rightarrow>
      if int (length en2) \<noteq> want_en2_size then Inl (EN2Size (length en2) want_en2_size)
      else
     (case parse_hex_u32_be ntime_hex of Inl e \<Rightarrow> Inl (NTimeBad e)
      | Inr ntime \<Rightarrow>
     (case parse_hex_u32_be nonce_hex of Inl e \<Rightarrow> Inl (NonceBad e)
      | Inr nonce \<Rightarrow>
      let f = \<lparr>sf_extra_nonce1 = en1, sf_extra_nonce2 = en2, sf_ntime = ntime, sf_nonce = nonce,
               sf_version_bits = 0, sf_has_version = False\<rparr>
      in if version_hex \<noteq> []
         then (case parse_hex_u32_be version_hex of Inl e \<Rightarrow> Inl (VersionBad e)
               | Inr vb \<Rightarrow> Inr (f\<lparr>sf_version_bits := vb, sf_has_version := True\<rparr>))
         else Inr f))))"

datatype header_error =
    MerkleRootLength nat
  | HeaderPrevHash hex32_error
  | HeaderVersion hex_u32_error
  | HeaderBits string
  | HeaderLength nat

definition header_version :: "32 word \<Rightarrow> submit_fields \<Rightarrow> 32 word \<Rightarrow> 32 word" where
  "header_version base f vmask =
     (if sf_has_version f then (base AND NOT vmask) OR (sf_version_bits f AND vmask) else base)"

definition build_header :: "job \<Rightarrow> bytes \<Rightarrow> submit_fields \<Rightarrow> 32 word \<Rightarrow> header_error + bytes" where
  "build_header j merkle_root_le f version_mask =
     (if length merkle_root_le \<noteq> 32 then Inl (MerkleRootLength (length merkle_root_le))
      else case hash_le_from_display_hex (jb_prev_hash_display j) of Inl e \<Rightarrow> Inl (HeaderPrevHash e)
      | Inr prev_le \<Rightarrow>
        (case parse_hex_u32_be (jb_version_hex j) of Inl e \<Rightarrow> Inl (HeaderVersion e)
         | Inr base_version \<Rightarrow>
           (case hex_decode (jb_bits_hex j) of None \<Rightarrow> Inl (HeaderBits (jb_bits_hex j))
            | Some bits_raw \<Rightarrow>
              if length bits_raw \<noteq> 4 then Inl (HeaderBits (jb_bits_hex j))
              else
                let header = put_u32_le (header_version base_version f version_mask) @ prev_le
                               @ merkle_root_le @ put_u32_le (sf_ntime f)
                               @ put_u32_le (get_u32_be bits_raw) @ put_u32_le (sf_nonce f)
                in if length header \<noteq> 80 then Inl (HeaderLength (length header)) else Inr header)))"

datatype block_error =
    CoinbaseTooShort nat
  | BlockHeaderLength nat
  | TxNotHex nat

definition witnessify_coinbase :: "bytes \<Rightarrow> block_error + bytes" where
  "witnessify_coinbase legacy =
     (if length legacy < 4 + 1 + 36 + 1 + 4 + 1 + 4 then Inl (CoinbaseTooShort (length legacy))
      else Inr (take 4 legacy @ [0x00, 0x01] @ drop 4 (take (length legacy - 4) legacy)
                @ [0x01, 0x20] @ replicate 32 0 @ drop (length legacy - 4) legacy))"

fun append_txs :: "nat \<Rightarrow> string list \<Rightarrow> block_error + bytes" where
  "append_txs i [] = Inr []"
| "append_txs i (tx # txs) =
     (case hex_decode tx of None \<Rightarrow> Inl (TxNotHex i)
      | Some raw \<Rightarrow> (case append_txs (Suc i) txs of Inl e \<Rightarrow> Inl e | Inr rest \<Rightarrow> Inr (raw @ rest)))"

definition assemble_block :: "bytes \<Rightarrow> bytes \<Rightarrow> job \<Rightarrow> block_error + string" where
  "assemble_block header coinbase_legacy j =
     (if length header \<noteq> 80 then Inl (BlockHeaderLength (length header))
      else case (if jb_has_witness_commitment j then witnessify_coinbase coinbase_legacy
                 else Inr coinbase_legacy) of Inl e \<Rightarrow> Inl e
      | Inr coinbase \<Rightarrow>
        (case append_txs 0 (jb_tx_data_hex j) of Inl e \<Rightarrow> Inl e
         | Inr txs \<Rightarrow>
           Inr (hex_encode (append_var_int header (1 + int (length (jb_tx_data_hex j))) @ coinbase @ txs))))"

subsection \<open>Submit fields\<close>

lemma parse_hex_u32_be_fmt [simp]: "parse_hex_u32_be (fmt_08x v) = Inr v"
  by (simp add: parse_hex_u32_be_def)

lemma parse_submit_hex_Inr:
  assumes "parse_submit_hex e1 e2 nt no vh want = Inr f"
  shows "hex_decode e1 = Some (sf_extra_nonce1 f)" "hex_decode e2 = Some (sf_extra_nonce2 f)"
    "int (length (sf_extra_nonce2 f)) = want"
    "parse_hex_u32_be nt = Inr (sf_ntime f)" "parse_hex_u32_be no = Inr (sf_nonce f)"
    "sf_has_version f \<longleftrightarrow> vh \<noteq> []"
    "vh \<noteq> [] \<Longrightarrow> parse_hex_u32_be vh = Inr (sf_version_bits f)"
  using assms
  by (auto simp: parse_submit_hex_def Let_def split: option.splits sum.splits if_splits)

subsection \<open>The header and its fields\<close>

record header_view =
  hv_version :: "32 word"
  hv_prev :: bytes
  hv_merkle :: bytes
  hv_time :: "32 word"
  hv_bits :: "32 word"
  hv_nonce :: "32 word"

definition view_header :: "bytes \<Rightarrow> header_view" where
  "view_header h =
     \<lparr>hv_version = get_u32_le (take 4 h), hv_prev = take 32 (drop 4 h),
      hv_merkle = take 32 (drop 36 h), hv_time = get_u32_le (take 4 (drop 68 h)),
      hv_bits = get_u32_le (take 4 (drop 72 h)), hv_nonce = get_u32_le (take 4 (drop 76 h))\<rparr>"

lemma view_header_parts:
  "length p = 32 \<Longrightarrow> length m = 32 \<Longrightarrow>
   view_header (put_u32_le v @ p @ m @ put_u32_le t @ put_u32_le b @ put_u32_le n)
     = \<lparr>hv_version = v, hv_prev = p, hv_merkle = m, hv_time = t, hv_bits = b, hv_nonce = n\<rparr>"
  by (simp add: view_header_def)

lemma build_header_Inr:
  assumes "build_header j mroot f vmask = Inr h"
  shows "\<exists>prev base raw.
      length mroot = 32 \<and> hash_le_from_display_hex (jb_prev_hash_display j) = Inr prev
      \<and> parse_hex_u32_be (jb_version_hex j) = Inr base \<and> hex_decode (jb_bits_hex j) = Some raw
      \<and> length raw = 4 \<and> length h = 80
      \<and> h = put_u32_le (header_version base f vmask) @ prev @ mroot @ put_u32_le (sf_ntime f)
            @ put_u32_le (get_u32_be raw) @ put_u32_le (sf_nonce f)"
  using assms
  by (auto simp: build_header_def Let_def split: sum.splits option.splits if_splits)

text \<open>
  The header holds what the miner submitted and what the job prescribes. A built header is 80
  bytes and its fields read back as: the job's previous hash, the given merkle root, the job's
  bits, the submitted time and nonce, and a version that equals the template's outside the rolling
  mask and the submitted bits inside it (the template's version when no bits were submitted).
\<close>

theorem header_fields:
  assumes "build_header j mroot f vmask = Inr h"
  shows "length h = 80 \<and> hv_merkle (view_header h) = mroot
    \<and> hv_time (view_header h) = sf_ntime f \<and> hv_nonce (view_header h) = sf_nonce f
    \<and> hash_le_from_display_hex (jb_prev_hash_display j) = Inr (hv_prev (view_header h))
    \<and> (\<exists>base. parse_hex_u32_be (jb_version_hex j) = Inr base
        \<and> hv_version (view_header h) AND NOT vmask = base AND NOT vmask
        \<and> (sf_has_version f \<longrightarrow> hv_version (view_header h) AND vmask = sf_version_bits f AND vmask)
        \<and> (\<not> sf_has_version f \<longrightarrow> hv_version (view_header h) = base))
    \<and> hex_decode (jb_bits_hex j) = Some (put_u32_be (hv_bits (view_header h)))"
proof -
  obtain prev base raw where h: "length mroot = 32"
    "hash_le_from_display_hex (jb_prev_hash_display j) = Inr prev"
    "parse_hex_u32_be (jb_version_hex j) = Inr base" "hex_decode (jb_bits_hex j) = Some raw"
    "length raw = 4" "length h = 80"
    "h = put_u32_le (header_version base f vmask) @ prev @ mroot @ put_u32_le (sf_ntime f)
          @ put_u32_le (get_u32_be raw) @ put_u32_le (sf_nonce f)"
    using build_header_Inr [OF assms] by blast
  have p: "length prev = 32" using h(2) by (rule hash_le_length)
  have v: "view_header h = \<lparr>hv_version = header_version base f vmask, hv_prev = prev, hv_merkle = mroot,
      hv_time = sf_ntime f, hv_bits = get_u32_be raw, hv_nonce = sf_nonce f\<rparr>"
    unfolding h(7) by (rule view_header_parts [OF p h(1)])
  have out: "header_version base f vmask AND NOT vmask = base AND NOT vmask"
    by (intro bit_word_eqI) (auto simp: header_version_def bit_simps)
  have ins: "header_version base f vmask AND vmask = sf_version_bits f AND vmask" if "sf_has_version f"
    using that by (intro bit_word_eqI) (auto simp: header_version_def bit_simps)
  have nov: "header_version base f vmask = base" if "\<not> sf_has_version f"
    using that by (simp add: header_version_def)
  show ?thesis
    using h(1-6) out ins nov by (simp add: v put_get_u32_be)
qed

subsection \<open>The assembled block\<close>

text \<open>Dropping marker, flag and the witness stack of a witness-serialized coinbase.\<close>

definition strip_witness :: "bytes \<Rightarrow> bytes" where
  "strip_witness b = take 4 b @ take (length b - 44) (drop 6 b) @ drop (length b - 4) b"

lemma strip_witness_witnessify:
  assumes "witnessify_coinbase c = Inr w"
  shows "strip_witness w = c \<and> length w = length c + 36"
proof -
  have l: "51 \<le> length c" and w: "w = take 4 c @ [0x00, 0x01] @ drop 4 (take (length c - 4) c)
      @ [0x01, 0x20] @ replicate 32 0 @ drop (length c - 4) c"
    using assms by (auto simp: witnessify_coinbase_def split: if_splits)
  let ?mid = "drop 4 (take (length c - 4) c)"
  have lm: "length ?mid = length c - 8" by simp
  have lw: "length w = length c + 36" using l by (simp add: w)
  have "take 4 w = take 4 c" using l by (simp add: w)
  moreover have "drop 6 w = ?mid @ ([0x01, 0x20] @ replicate 32 0 @ drop (length c - 4) c)"
    using l by (simp add: w)
  then have "take (length w - 44) (drop 6 w) = ?mid" using l by (simp add: lw)
  moreover have "drop (length w - 4) w = drop (length c - 4) c"
  proof -
    let ?pre = "take 4 c @ [0x00, 0x01] @ ?mid @ [0x01, 0x20] @ replicate 32 0"
    have "length w - 4 = length ?pre" using l by (simp add: lw)
    moreover have "w = ?pre @ drop (length c - 4) c" by (simp add: w)
    ultimately show ?thesis by (metis append_eq_conv_conj)
  qed
  moreover have "take 4 c @ ?mid @ drop (length c - 4) c = c"
  proof -
    have "4 \<le> length c - 4" using l by linarith
    then have "take 4 c = take 4 (take (length c - 4) c)" by (simp add: min_def)
    then have "take 4 c @ ?mid = take (length c - 4) c" by (metis append_take_drop_id)
    then show ?thesis by (metis append.assoc append_take_drop_id)
  qed
  ultimately show ?thesis by (simp add: strip_witness_def lw)
qed

lemma append_txs_Inr:
  "append_txs i txs = Inr bs \<Longrightarrow>
   \<exists>raws. map hex_decode txs = map Some raws \<and> bs = concat raws"
proof (induction txs arbitrary: i bs)
  case Nil
  then show ?case by simp
next
  case (Cons tx txs)
  then obtain raw rest where r: "hex_decode tx = Some raw" "append_txs (Suc i) txs = Inr rest"
    "bs = raw @ rest"
    by (auto split: option.splits sum.splits)
  then obtain raws where "map hex_decode txs = map Some raws" "rest = concat raws"
    using Cons.IH by blast
  with r show ?case by (intro exI [of _ "raw # raws"]) simp
qed

lemma append_txs_total: "(\<And>tx. tx \<in> set txs \<Longrightarrow> hex_decode tx \<noteq> None) \<Longrightarrow> \<exists>bs. append_txs i txs = Inr bs"
proof (induction txs arbitrary: i)
  case (Cons tx txs)
  then obtain raw where "hex_decode tx = Some raw" by fastforce
  moreover obtain rest where "append_txs (Suc i) txs = Inr rest" using Cons by fastforce
  ultimately show ?case by simp
qed simp

text \<open>
  The submitted block is the header, the transaction count, the coinbase and the template's
  transactions in order. The hex given to \<open>submitblock\<close> decodes to exactly that; after the 80
  header bytes a node reads the count of one plus the template's transactions, then the coinbase,
  which is the mined one up to the witness fields BIP141 adds when the job commits to witnesses.
\<close>

theorem block_layout:
  assumes "assemble_block header coinbase j = Inr blk"
    and "int (length (jb_tx_data_hex j)) < 2 ^ 64 - 1"
  shows "\<exists>raws cb body. map hex_decode (jb_tx_data_hex j) = map Some raws
    \<and> hex_decode blk = Some (header @ body) \<and> length header = 80
    \<and> read_var_int body = Some (1 + int (length raws), cb @ concat raws)
    \<and> (if jb_has_witness_commitment j then strip_witness cb = coinbase else cb = coinbase)"
proof -
  obtain cb txs where b: "length header = 80"
    "(if jb_has_witness_commitment j then witnessify_coinbase coinbase else Inr coinbase) = Inr cb"
    "append_txs 0 (jb_tx_data_hex j) = Inr txs"
    "blk = hex_encode (append_var_int header (1 + int (length (jb_tx_data_hex j))) @ cb @ txs)"
    using assms(1) by (auto simp: assemble_block_def split: sum.splits if_splits)
  obtain raws where r: "map hex_decode (jb_tx_data_hex j) = map Some raws" "txs = concat raws"
    using append_txs_Inr [OF b(3)] by blast
  have n: "length raws = length (jb_tx_data_hex j)" using arg_cong [OF r(1), of length] by simp
  define body where "body = append_var_int [] (1 + int (length raws)) @ cb @ concat raws"
  have "hex_decode blk = Some (header @ body)"
    by (simp add: b(4) body_def n r(2) append_var_int_prefix [of header])
  moreover have "read_var_int body = Some (1 + int (length raws), cb @ concat raws)"
    unfolding body_def using assms(2) n by (intro read_var_int_append) simp_all
  moreover have "if jb_has_witness_commitment j then strip_witness cb = coinbase else cb = coinbase"
    using b(2) strip_witness_witnessify by (auto split: if_splits)
  ultimately show ?thesis using r(1) b(1) by blast
qed


definition sample_fields :: submit_fields where
  "sample_fields = \<lparr>sf_extra_nonce1 = [0, 0, 0, 1], sf_extra_nonce2 = [0, 0, 0, 42],
     sf_ntime = 1700000600, sf_nonce = 7, sf_version_bits = 0x00002000, sf_has_version = True\<rparr>"

theorem header_fields_witness:
  "\<exists>h. build_header sample_job (replicate 32 1) sample_fields 0x1fffe000 = Inr h
    \<and> length h = 80 \<and> hv_merkle (view_header h) = replicate 32 1"
proof -
  have "\<not> isl (build_header sample_job (replicate 32 1) sample_fields 0x1fffe000)"
    by code_simp
  then obtain h where h: "build_header sample_job (replicate 32 1) sample_fields 0x1fffe000 = Inr h"
    by (cases "build_header sample_job (replicate 32 1) sample_fields 0x1fffe000") auto
  from h header_fields [OF h] show ?thesis by blast
qed

theorem block_layout_witness:
  "\<exists>blk raws cb body. assemble_block (replicate 80 0) (replicate 60 0) sample_job = Inr blk
    \<and> hex_decode blk = Some (replicate 80 0 @ body)
    \<and> read_var_int body = Some (1 + int (length (raws :: bytes list)), cb @ concat raws)
    \<and> strip_witness cb = replicate 60 0"
proof -
  have "\<not> isl (assemble_block (replicate 80 0) (replicate 60 0) sample_job)"
    by code_simp
  then obtain blk where b: "assemble_block (replicate 80 0) (replicate 60 0) sample_job = Inr blk"
    by (cases "assemble_block (replicate 80 0) (replicate 60 0) sample_job") auto
  have n: "int (length (jb_tx_data_hex sample_job)) < 2 ^ 64 - 1" and w: "jb_has_witness_commitment sample_job"
    by (simp_all add: sample_job_def)
  from block_layout [OF b n] w b show ?thesis by (simp only: if_True) blast
qed

end
