(* ===== verification/GoFloat.thy ===== *)
theory GoFloat
  imports Prelude
begin

text \<open>
  Go's \<open>float64\<close> arithmetic on finite values. A float is the rational number it denotes and
  every operation is the exact one followed by \<open>round64\<close>, rounding to nearest with ties to
  even at 53 significant bits, as IEEE 754 and the Go specification require. The exponent range
  is unbounded: overflow to an infinity and gradual underflow below \<open>2 powi (-1022)\<close> are not
  modelled (no quantity of the pool comes near either).
\<close>

type_synonym f64 = rat

subsection \<open>Binary exponent of a positive rational\<close>

function ilog2 :: "int \<Rightarrow> int" where
  "ilog2 n = (if n < 2 then 0 else 1 + ilog2 (n div 2))"
  by pat_completeness auto
termination by (relation "measure nat") auto

declare ilog2.simps [simp del]

lemma ilog2_nonneg: "0 \<le> ilog2 n"
  by (induction n rule: ilog2.induct) (subst ilog2.simps, auto)

lemma ilog2_bounds: "0 < n \<Longrightarrow> 2 ^ nat (ilog2 n) \<le> n \<and> n < 2 ^ (nat (ilog2 n) + 1)"
proof (induction n rule: ilog2.induct)
  case (1 n)
  show ?case
  proof (cases "n < 2")
    case True
    with "1.prems" show ?thesis by (subst (1 2) ilog2.simps) auto
  next
    case False
    define k where "k = nat (ilog2 (n div 2))"
    from False "1.IH" have IH: "2 ^ k \<le> n div 2" "n div 2 < 2 ^ (k + 1)"
      by (auto simp: k_def)
    have "nat (ilog2 n) = Suc k"
      using False ilog2_nonneg [of "n div 2"] by (subst ilog2.simps) (simp add: k_def)
    with IH show ?thesis by auto
  qed
qed

definition ilog2_rat :: "rat \<Rightarrow> int" where
  "ilog2_rat x =
     (let e = ilog2 (fst (quotient_of x)) - ilog2 (snd (quotient_of x))
      in if 2 powi e \<le> x then e else e - 1)"

lemma powi_nat_eq: "0 \<le> k \<Longrightarrow> (2 :: rat) powi k = 2 ^ nat k"
  by (simp add: power_int_def)

lemma powi_split: "(2 :: rat) powi (a + b) = 2 powi a * 2 powi b"
  by (simp add: power_int_add)

lemma powi_pos [simp]: "0 < (2 :: rat) powi k"
  by simp

lemma powi_mono: "a \<le> b \<Longrightarrow> (2 :: rat) powi a \<le> 2 powi b"
  by (simp add: power_int_increasing)

lemma powi_strict_mono: "a < b \<Longrightarrow> (2 :: rat) powi a < 2 powi b"
  by (simp add: power_int_strict_increasing)

lemma ilog2_rat_int:
  assumes "0 < n"
  shows "2 powi (ilog2 n) \<le> (of_int n :: rat)" and "(of_int n :: rat) < 2 powi (ilog2 n + 1)"
proof -
  note nn = ilog2_nonneg [of n]
  have "of_int (2 ^ nat (ilog2 n)) \<le> (of_int n :: rat)"
    using ilog2_bounds [OF assms] by (simp only: of_int_le_iff)
  then show "2 powi (ilog2 n) \<le> (of_int n :: rat)" using nn by (simp add: powi_nat_eq)
  have "(of_int n :: rat) < of_int (2 ^ (nat (ilog2 n) + 1))"
    using ilog2_bounds [OF assms] by (simp only: of_int_less_iff)
  then show "(of_int n :: rat) < 2 powi (ilog2 n + 1)"
    using nn by (simp add: powi_nat_eq nat_add_distrib)
qed

lemma ilog2_rat_bounds:
  assumes "0 < x"
  shows "2 powi (ilog2_rat x) \<le> x" and "x < 2 powi (ilog2_rat x + 1)"
proof -
  obtain p q where pq: "quotient_of x = (p, q)" by (cases "quotient_of x")
  have q: "0 < q" using pq by (rule quotient_of_denom_pos)
  have x: "x = of_int p / of_int q" using pq by (rule quotient_of_div)
  have p: "0 < p" using assms q unfolding x by (simp add: zero_less_divide_iff)
  define a b where "a = ilog2 p" and "b = ilog2 q"
  have P: "2 powi a \<le> (of_int p :: rat)" "(of_int p :: rat) < 2 powi (a + 1)"
    using ilog2_rat_int [OF p] by (simp_all add: a_def)
  have Q: "2 powi b \<le> (of_int q :: rat)" "(of_int q :: rat) < 2 powi (b + 1)"
    using ilog2_rat_int [OF q] by (simp_all add: b_def)
  have q0: "0 < (of_int q :: rat)" using q by simp
  have hi: "x < 2 powi (a - b + 1)"
  proof -
    have "(of_int p :: rat) < 2 powi (a - b + 1) * 2 powi b"
      using P(2) by (simp add: powi_split [symmetric])
    also have "\<dots> \<le> 2 powi (a - b + 1) * of_int q"
      using Q(1) by (intro mult_left_mono) auto
    finally show ?thesis using q0 by (simp add: x divide_less_eq)
  qed
  have lo: "2 powi (a - b - 1) \<le> x"
  proof -
    have "(2 :: rat) powi (a - b - 1) * of_int q \<le> 2 powi (a - b - 1) * 2 powi (b + 1)"
      using Q(2) by (intro mult_left_mono) auto
    also have "\<dots> = 2 powi a" by (simp add: powi_split [symmetric])
    also have "\<dots> \<le> (of_int p :: rat)" by (rule P(1))
    finally show ?thesis using q0 by (simp add: x le_divide_eq)
  qed
  have e: "ilog2_rat x = (if 2 powi (a - b) \<le> x then a - b else a - b - 1)"
    by (simp add: ilog2_rat_def pq a_def b_def)
  show "2 powi (ilog2_rat x) \<le> x" using lo by (simp add: e)
  show "x < 2 powi (ilog2_rat x + 1)" using hi by (simp add: e)
qed

lemma ilog2_rat_unique:
  assumes "2 powi e \<le> x" and "x < 2 powi (e + 1)"
  shows "ilog2_rat x = e"
proof -
  have x: "0 < x" using assms(1) powi_pos [of e] by linarith
  note b = ilog2_rat_bounds [OF x]
  have "\<not> ilog2_rat x < e" using powi_mono [of "ilog2_rat x + 1" e] b(2) assms(1) by force
  moreover have "\<not> e < ilog2_rat x" using powi_mono [of "e + 1" "ilog2_rat x"] b(1) assms(2) by force
  ultimately show ?thesis by simp
qed

lemma ilog2_rat_mono:
  assumes "0 < x" and "x \<le> y"
  shows "ilog2_rat x \<le> ilog2_rat y"
proof (rule ccontr)
  assume "\<not> ilog2_rat x \<le> ilog2_rat y"
  then have "(2 :: rat) powi (ilog2_rat y + 1) \<le> 2 powi (ilog2_rat x)" by (intro powi_mono) simp
  with assms ilog2_rat_bounds [of x] ilog2_rat_bounds [of y] show False by linarith
qed

subsection \<open>Rounding to an integer, ties to even\<close>

definition rne :: "rat \<Rightarrow> int" where
  "rne x =
     (let n = \<lfloor>x\<rfloor>; d = x - of_int n
      in if d < 1 / 2 then n else if 1 / 2 < d then n + 1 else if even n then n else n + 1)"

lemma rne_of_int [simp]: "rne (of_int n) = n"
  by (simp add: rne_def)

lemma rne_floor: "rne x = \<lfloor>x\<rfloor> \<or> rne x = \<lfloor>x\<rfloor> + 1"
  by (simp add: rne_def Let_def)

lemma rne_err: "\<bar>of_int (rne x) - x\<bar> \<le> 1 / 2"
proof -
  define d where "d = x - of_int \<lfloor>x\<rfloor>"
  have d: "0 \<le> d" "d < 1" by (auto simp: d_def) linarith
  have x: "x = of_int \<lfloor>x\<rfloor> + d" by (simp add: d_def)
  have "rne x = (if d < 1 / 2 then \<lfloor>x\<rfloor> else if 1 / 2 < d then \<lfloor>x\<rfloor> + 1
      else if even \<lfloor>x\<rfloor> then \<lfloor>x\<rfloor> else \<lfloor>x\<rfloor> + 1)"
    by (simp add: rne_def d_def Let_def)
  then have "of_int (rne x) - x = - d \<and> d \<le> 1 / 2 \<or> of_int (rne x) - x = 1 - d \<and> 1 / 2 \<le> d"
    by (auto simp: d_def split: if_splits)
  with d show ?thesis by (auto simp: abs_le_iff)
qed

lemma rne_mono: "x \<le> y \<Longrightarrow> rne x \<le> rne y"
proof -
  assume xy: "x \<le> y"
  show ?thesis
  proof (cases "\<lfloor>x\<rfloor> = \<lfloor>y\<rfloor>")
    case True
    with xy show ?thesis unfolding rne_def Let_def by auto
  next
    case False
    with xy have "\<lfloor>x\<rfloor> + 1 \<le> \<lfloor>y\<rfloor>" using floor_mono [OF xy] by linarith
    with rne_floor [of x] rne_floor [of y] show ?thesis by linarith
  qed
qed

lemma rne_le: "x \<le> of_int n \<Longrightarrow> rne x \<le> n"
  using rne_mono [of x "of_int n"] by simp

lemma le_rne: "of_int n \<le> x \<Longrightarrow> n \<le> rne x"
  using rne_mono [of "of_int n" x] by simp

subsection \<open>Rounding to a significand of \<open>q + 1\<close> bits\<close>

definition ulp :: "nat \<Rightarrow> rat \<Rightarrow> rat" where
  "ulp q x = 2 powi (ilog2_rat x - int q)"

definition round_pos :: "nat \<Rightarrow> rat \<Rightarrow> rat" where
  "round_pos q x = of_int (rne (x / ulp q x)) * ulp q x"

definition round_frac :: "nat \<Rightarrow> rat \<Rightarrow> rat" where
  "round_frac q x = (if x = 0 then 0 else if 0 < x then round_pos q x else - round_pos q (- x))"

text \<open>\<open>float64\<close> has 52 fraction bits.\<close>

definition round64 :: "rat \<Rightarrow> f64" where
  "round64 = round_frac 52"

lemma ulp_pos [simp]: "0 < ulp q x"
  by (simp add: ulp_def)

lemma ulp_nonzero [simp]: "ulp q x \<noteq> 0"
  using ulp_pos [of q x] by linarith

lemma ulp_scale: "of_int (2 ^ q) * ulp q x = 2 powi (ilog2_rat x)"
  using powi_split [of "int q" "ilog2_rat x - int q"] by (simp add: ulp_def powi_nat_eq)

lemma ulp_scale_Suc: "of_int (2 ^ Suc q) * ulp q x = 2 powi (ilog2_rat x + 1)"
  using ulp_scale [of q x] powi_split [of "ilog2_rat x" 1] by simp

lemma scaled_bounds:
  assumes "0 < x"
  shows "of_int (2 ^ q) \<le> x / ulp q x" and "x / ulp q x < of_int (2 ^ Suc q)"
  using ilog2_rat_bounds [OF assms] ulp_scale [of q x] ulp_scale_Suc [of q x]
  by (simp_all add: le_divide_eq divide_less_eq)

lemma round_pos_bounds:
  assumes "0 < x"
  shows "2 powi (ilog2_rat x) \<le> round_pos q x" and "round_pos q x \<le> 2 powi (ilog2_rat x + 1)"
proof -
  note s = scaled_bounds [OF assms, of q]
  have n: "2 ^ q \<le> rne (x / ulp q x)" "rne (x / ulp q x) \<le> 2 ^ Suc q"
    using le_rne [OF s(1)] rne_le [OF less_imp_le [OF s(2)]] by simp_all
  have "of_int (2 ^ q) * ulp q x \<le> round_pos q x"
    unfolding round_pos_def using n(1) by (intro mult_right_mono) (simp_all only: of_int_le_iff, simp add: less_imp_le)
  then show "2 powi (ilog2_rat x) \<le> round_pos q x" by (simp only: ulp_scale)
  have "round_pos q x \<le> of_int (2 ^ Suc q) * ulp q x"
    unfolding round_pos_def using n(2) by (intro mult_right_mono) (simp_all only: of_int_le_iff, simp add: less_imp_le)
  then show "round_pos q x \<le> 2 powi (ilog2_rat x + 1)" by (simp only: ulp_scale_Suc)
qed

lemma round_pos_pos: "0 < x \<Longrightarrow> 0 < round_pos q x"
  using round_pos_bounds(1) [of x q] powi_pos [of "ilog2_rat x"] by linarith

lemma round_pos_mono:
  assumes "0 < x" and "x \<le> y"
  shows "round_pos q x \<le> round_pos q y"
proof (cases "ilog2_rat x = ilog2_rat y")
  case True
  then have u: "ulp q x = ulp q y" by (simp add: ulp_def)
  have "rne (x / ulp q y) \<le> rne (y / ulp q y)"
    using assms by (intro rne_mono divide_right_mono) (simp_all add: less_imp_le)
  then show ?thesis unfolding round_pos_def u by (intro mult_right_mono) (simp_all add: less_imp_le)
next
  case False
  with ilog2_rat_mono [OF assms] have "(2 :: rat) powi (ilog2_rat x + 1) \<le> 2 powi (ilog2_rat y)"
    by (intro powi_mono) simp
  with round_pos_bounds(2) [of x q] round_pos_bounds(1) [of y q] assms show ?thesis by linarith
qed

lemma round_pos_err:
  assumes "0 < x"
  shows "\<bar>round_pos q x - x\<bar> \<le> x / 2 ^ Suc q"
proof -
  define t where "t = x / ulp q x"
  have x: "t * ulp q x = x" by (simp add: t_def)
  have "round_pos q x = of_int (rne t) * ulp q x" by (simp add: round_pos_def t_def)
  with x have "round_pos q x - x = (of_int (rne t) - t) * ulp q x" by (simp add: algebra_simps)
  then have "\<bar>round_pos q x - x\<bar> = \<bar>of_int (rne t) - t\<bar> * ulp q x"
    by (simp add: abs_mult less_imp_le)
  also have "\<dots> \<le> 1 / 2 * ulp q x"
    using rne_err [of t] by (intro mult_right_mono) (simp_all add: less_imp_le)
  also have "\<dots> \<le> x / 2 ^ Suc q"
    using scaled_bounds(1) [OF assms] by (simp add: field_simps)
  finally show ?thesis .
qed

text \<open>Values with at most 53 significant bits are floats: rounding leaves them alone.\<close>

lemma round_pos_exact:
  assumes "0 < m" and "m \<le> 2 ^ Suc q" and x: "x = of_int m * 2 powi k"
  shows "round_pos q x = x"
proof -
  have x0: "0 < x" using assms(1) by (simp add: x)
  have p: "of_int (2 ^ Suc q) * 2 powi k = (2 :: rat) powi (int q + 1 + k)"
    using powi_split [of "int q" "1 + k"] powi_split [of 1 k] by (simp add: powi_nat_eq ac_simps)
  have "(of_int m :: rat) \<le> of_int (2 ^ Suc q)" using assms(2) by (simp only: of_int_le_iff)
  then have "x \<le> of_int (2 ^ Suc q) * 2 powi k" unfolding x by (intro mult_right_mono) simp_all
  then have xp: "x \<le> 2 powi (int q + 1 + k)" by (simp only: p)
  with ilog2_rat_bounds(1) [OF x0] have le: "(2 :: rat) powi (ilog2_rat x) \<le> 2 powi (int q + 1 + k)" by linarith
  have e: "ilog2_rat x \<le> int q + 1 + k"
    using le powi_strict_mono [of "int q + 1 + k" "ilog2_rat x"] by force
  show ?thesis
  proof (cases "ilog2_rat x = int q + 1 + k")
    case True
    then have "2 powi (int q + 1 + k) \<le> x" using ilog2_rat_bounds(1) [OF x0] by simp
    with xp have "x = 2 powi (ilog2_rat x)" unfolding True by (rule order.antisym)
    then have "x / ulp q x = of_int (2 ^ q)" using ulp_scale [of q x] by (simp add: divide_eq_eq)
    then show ?thesis unfolding round_pos_def using ulp_scale [of q x] \<open>x = 2 powi (ilog2_rat x)\<close>
      by (simp only: rne_of_int)
  next
    case False
    with e have d: "0 \<le> k - (ilog2_rat x - int q)" by simp
    have "x / ulp q x = of_int m * 2 powi (k - (ilog2_rat x - int q))"
      by (simp add: x ulp_def power_int_diff)
    also have "\<dots> = of_int (m * 2 ^ nat (k - (ilog2_rat x - int q)))"
      using d by (simp add: powi_nat_eq)
    finally have r: "x / ulp q x = of_int (m * 2 ^ nat (k - (ilog2_rat x - int q)))" .
    then have "round_pos q x = of_int (m * 2 ^ nat (k - (ilog2_rat x - int q))) * ulp q x"
      unfolding round_pos_def by (simp only: rne_of_int)
    then show ?thesis unfolding r [symmetric] by simp
  qed
qed

subsection \<open>The interface the float computations rely on\<close>

text \<open>
  What the components use of a rounding: it is monotone, leaves representable values alone, and
  moves any other value by at most one part in \<open>2 ^ Suc q\<close>.
\<close>

locale rounding =
  fixes prec :: nat and rnd :: "rat \<Rightarrow> rat"
  assumes prec_pos: "0 < prec"
    and rnd_mono: "x \<le> y \<Longrightarrow> rnd x \<le> rnd y"
    and rnd_exact: "\<bar>m\<bar> \<le> 2 ^ prec \<Longrightarrow> rnd (of_int m * 2 powi k) = of_int m * 2 powi k"
    and rnd_err: "0 \<le> x \<Longrightarrow> \<bar>rnd x - x\<bar> \<le> x / 2 ^ prec"
begin

lemma rnd_of_int: "\<bar>m\<bar> \<le> 2 ^ prec \<Longrightarrow> rnd (of_int m) = of_int m"
  using rnd_exact [of m 0] by simp

lemma rnd_0: "rnd 0 = 0"
  using rnd_of_int [of 0] by simp

lemma rnd_1: "rnd 1 = 1"
  using rnd_of_int [of 1] by (simp add: one_le_power)

lemma rnd_nonneg: "0 \<le> x \<Longrightarrow> 0 \<le> rnd x"
  using rnd_mono [of 0 x] by (simp add: rnd_0)

lemma rnd_nonpos: "x \<le> 0 \<Longrightarrow> rnd x \<le> 0"
  using rnd_mono [of x 0] by (simp add: rnd_0)

lemma rnd_le_of_int: "\<bar>m\<bar> \<le> 2 ^ prec \<Longrightarrow> x \<le> of_int m \<Longrightarrow> rnd x \<le> of_int m"
  using rnd_mono [of x "of_int m"] by (simp add: rnd_of_int)

lemma rnd_upper: "0 \<le> x \<Longrightarrow> rnd x \<le> x * (1 + 1 / 2 ^ prec)"
  using abs_le_D1 [OF rnd_err [of x]] by (simp add: field_simps)

lemma rnd_lower: "0 \<le> x \<Longrightarrow> x * (1 - 1 / 2 ^ prec) \<le> rnd x"
  using abs_le_D2 [OF rnd_err [of x]] by (simp add: field_simps)

lemma rnd_pos: "0 < x \<Longrightarrow> 0 < rnd x"
proof -
  assume x: "0 < x"
  have "(1 :: rat) < 2 ^ prec" using prec_pos by (intro one_less_power) simp_all
  with x have "0 < x * (1 - 1 / 2 ^ prec)" by simp
  with rnd_lower [of x] x show ?thesis by linarith
qed

end

lemma round_frac_mono: "x \<le> y \<Longrightarrow> round_frac q x \<le> round_frac q y"
proof -
  assume xy: "x \<le> y"
  consider "0 < x" | "x \<le> 0" "0 \<le> y" | "y < 0" by linarith
  then show ?thesis
  proof cases
    case 1
    with xy show ?thesis by (simp add: round_frac_def round_pos_mono)
  next
    case 2
    have "round_frac q x \<le> 0" using 2 round_pos_pos [of "- x" q] by (auto simp: round_frac_def less_imp_le)
    moreover have "0 \<le> round_frac q y" using 2 round_pos_pos [of y q] by (auto simp: round_frac_def less_imp_le)
    ultimately show ?thesis by linarith
  next
    case 3
    with xy show ?thesis by (simp add: round_frac_def round_pos_mono)
  qed
qed

lemma round_frac_exact:
  assumes "\<bar>m\<bar> \<le> 2 ^ Suc q"
  shows "round_frac q (of_int m * 2 powi k) = of_int m * 2 powi k"
proof -
  consider "m = 0" | "0 < m" | "m < 0" by linarith
  then show ?thesis
  proof cases
    case 1
    then show ?thesis by (simp add: round_frac_def)
  next
    case 2
    then have "0 < (of_int m :: rat) * 2 powi k" by simp
    with 2 assms show ?thesis by (simp add: round_frac_def round_pos_exact [OF _ _ refl])
  next
    case 3
    have r: "round_pos q (of_int (- m) * 2 powi k) = of_int (- m) * 2 powi k"
      using 3 assms by (intro round_pos_exact [OF _ _ refl]) auto
    have "(of_int m :: rat) * 2 powi k < 0" using 3 by (simp add: mult_neg_pos)
    then show ?thesis using r by (simp add: round_frac_def)
  qed
qed

lemma rounding_round_frac: "rounding (Suc q) (round_frac q)"
proof unfold_locales
  show "round_frac q x \<le> round_frac q y" if "x \<le> y" for x y by (rule round_frac_mono [OF that])
  show "round_frac q (of_int m * 2 powi k) = of_int m * 2 powi k" if "\<bar>m\<bar> \<le> 2 ^ Suc q" for m k
    by (rule round_frac_exact [OF that])
  show "\<bar>round_frac q x - x\<bar> \<le> x / 2 ^ Suc q" if "0 \<le> x" for x
    using that round_pos_err [of x q] by (auto simp: round_frac_def)
qed simp

text \<open>The two precisions the program computes with: \<open>float64\<close>, and the 224 bits \<open>big.Float\<close>
  takes from the difficulty-1 target.\<close>

interpretation f64: rounding 53 round64
  using rounding_round_frac [of 52] by (simp add: round64_def)

interpretation big224: rounding 224 "round_frac 223"
  using rounding_round_frac [of 223] by simp

subsection \<open>The operations\<close>

definition fadd :: "f64 \<Rightarrow> f64 \<Rightarrow> f64" where "fadd x y = round64 (x + y)"
definition fsub :: "f64 \<Rightarrow> f64 \<Rightarrow> f64" where "fsub x y = round64 (x - y)"
definition fmul :: "f64 \<Rightarrow> f64 \<Rightarrow> f64" where "fmul x y = round64 (x * y)"
definition fdiv :: "f64 \<Rightarrow> f64 \<Rightarrow> f64" where "fdiv x y = round64 (x / y)"

text \<open>Conversions: \<open>float64(n)\<close> rounds, \<open>int64(x)\<close> truncates towards zero (in range).\<close>

definition f64_of_int :: "int \<Rightarrow> f64" where
  "f64_of_int n = round64 (of_int n)"

definition int_of_f64 :: "f64 \<Rightarrow> int" where
  "int_of_f64 x = (if 0 \<le> x then \<lfloor>x\<rfloor> else \<lceil>x\<rceil>)"

lemma f64_of_int_exact [simp]: "\<bar>n\<bar> \<le> 2 ^ 53 \<Longrightarrow> f64_of_int n = of_int n"
  by (simp add: f64_of_int_def f64.rnd_of_int)

lemma f64_of_int_mono: "m \<le> n \<Longrightarrow> f64_of_int m \<le> f64_of_int n"
  by (simp add: f64_of_int_def f64.rnd_mono)

lemma int_of_f64_of_int [simp]: "int_of_f64 (of_int n) = n"
  by (simp add: int_of_f64_def)

lemma int_of_f64_mono: "x \<le> y \<Longrightarrow> int_of_f64 x \<le> int_of_f64 y"
proof -
  assume xy: "x \<le> y"
  have "\<lceil>x\<rceil> \<le> \<lfloor>y\<rfloor>" if "x < 0" "0 \<le> y"
  proof -
    have "\<lceil>x\<rceil> \<le> 0" using that(1) by (simp add: ceiling_le_iff)
    also have "0 \<le> \<lfloor>y\<rfloor>" using that(2) by simp
    finally show ?thesis .
  qed
  with xy show ?thesis by (auto simp: int_of_f64_def floor_mono ceiling_mono)
qed

lemma int_of_f64_nonneg: "0 \<le> x \<Longrightarrow> 0 \<le> int_of_f64 x"
  by (simp add: int_of_f64_def)

lemma int_of_f64_le: "0 \<le> x \<Longrightarrow> of_int (int_of_f64 x) \<le> x"
  by (simp add: int_of_f64_def)

text \<open>\<open>time.Duration.Seconds\<close>: whole seconds plus the nanosecond remainder over \<open>1e9\<close>.\<close>

definition seconds :: "int \<Rightarrow> f64" where
  "seconds d = fadd (f64_of_int (d div 1000000000)) (fdiv (f64_of_int (d mod 1000000000)) 1000000000)"

lemma seconds_nonneg: "0 \<le> d \<Longrightarrow> 0 \<le> seconds d"
  unfolding seconds_def fadd_def fdiv_def f64_of_int_def
  by (intro f64.rnd_nonneg add_nonneg_nonneg divide_nonneg_nonneg)
    (simp_all add: pos_imp_zdiv_nonneg_iff f64.rnd_nonneg)

lemma seconds_pos: "0 < d \<Longrightarrow> 0 < seconds d"
proof -
  assume d: "0 < d"
  have nn: "0 \<le> f64_of_int (d div 1000000000)" "0 \<le> fdiv (f64_of_int (d mod 1000000000)) 1000000000"
    using d by (simp_all add: f64_of_int_def fdiv_def f64.rnd_nonneg pos_imp_zdiv_nonneg_iff)
  have "0 < f64_of_int (d div 1000000000) \<or> 0 < fdiv (f64_of_int (d mod 1000000000)) 1000000000"
  proof (cases "d < 1000000000")
    case True
    with d have "d mod 1000000000 = d" by simp
    then show ?thesis using d by (simp add: f64_of_int_def fdiv_def f64.rnd_pos)
  next
    case False
    then have "0 < d div 1000000000" using pos_imp_zdiv_pos_iff [of 1000000000 d] by simp
    then show ?thesis by (simp add: f64_of_int_def f64.rnd_pos)
  qed
  with nn show ?thesis by (auto simp: seconds_def fadd_def intro!: f64.rnd_pos)
qed

lemma of_int_sum_list: "of_int (\<Sum>x\<leftarrow>xs. f x) = (\<Sum>x\<leftarrow>xs. of_int (f x) :: rat)"
  by (induction xs) simp_all

end
