(* ===== verification/VarDiff.thy ===== *)
theory VarDiff
  imports GoFloat
begin

text \<open>
  \<open>internal/stratum/vardiff\<close>: conversions between share difficulty and 256-bit targets
  (\<open>difficulty.go\<close>) and the per-session difficulty controller (\<open>controller.go\<close>). Times and
  durations are nanoseconds. A \<open>big.Float\<close> takes the precision of its widest operand: 224 bits
  for the difficulty-1 target, more when the target divided by is wider.
\<close>

subsection \<open>Difficulty and target\<close>

definition diff1_target :: int where
  "diff1_target = 0x00000000FFFF0000000000000000000000000000000000000000000000000000"

definition difficulty_to_target :: "f64 \<Rightarrow> int" where
  "difficulty_to_target d =
     (if d \<le> 0 then diff1_target
      else int_of_f64 (round_frac 223 (of_int diff1_target / d)))"

definition target_to_difficulty :: "int \<Rightarrow> f64" where
  "target_to_difficulty t =
     (if t \<le> 0 then 0
      else round64 (round_frac (nat (max 223 (ilog2 t))) (of_int diff1_target / of_int t)))"

definition hash_to_big :: "bytes \<Rightarrow> int" where
  "hash_to_big h = be_val h"

definition meets_target :: "int \<Rightarrow> int \<Rightarrow> bool" where
  "meets_target h t = (h \<le> t)"

definition share_difficulty :: "int \<Rightarrow> f64" where
  "share_difficulty h = target_to_difficulty h"

lemma diff1_target_pos: "0 < diff1_target" and diff1_target_bits: "diff1_target < 2 ^ 224"
  by (simp_all add: diff1_target_def)

lemma difficulty_to_target_nonneg: "0 \<le> difficulty_to_target d"
  using diff1_target_pos
  by (auto simp: difficulty_to_target_def intro!: int_of_f64_nonneg big224.rnd_nonneg divide_nonneg_nonneg)

lemma difficulty_to_target_antimono:
  assumes "0 < d" and "d \<le> e"
  shows "difficulty_to_target e \<le> difficulty_to_target d"
proof -
  have "(of_int diff1_target :: rat) / e \<le> of_int diff1_target / d"
    using assms diff1_target_pos by (intro divide_left_mono) (simp_all add: mult_pos_pos)
  then show ?thesis
    using assms by (simp add: difficulty_to_target_def int_of_f64_mono big224.rnd_mono)
qed

lemma difficulty_to_target_error:
  assumes "1 \<le> d"
  shows "\<bar>of_int (difficulty_to_target d) - of_int diff1_target / d\<bar> < 2"
proof -
  define x :: rat where "x = of_int diff1_target / d"
  define r where "r = round_frac 223 x"
  have x0: "0 \<le> x" using assms diff1_target_pos by (simp add: x_def)
  have "x \<le> of_int diff1_target" using assms diff1_target_pos by (simp add: x_def divide_le_eq)
  also have "(of_int diff1_target :: rat) < of_int (2 ^ 224)"
    using diff1_target_bits by (simp only: of_int_less_iff)
  finally have "x / 2 ^ 224 < 1" by simp
  with big224.rnd_err [OF x0] have e: "\<bar>r - x\<bar> < 1" unfolding r_def by linarith
  have r0: "0 \<le> r" unfolding r_def by (rule big224.rnd_nonneg [OF x0])
  have t: "difficulty_to_target d = \<lfloor>r\<rfloor>"
    using assms r0 by (simp add: difficulty_to_target_def int_of_f64_def r_def x_def)
  have "of_int \<lfloor>r\<rfloor> \<le> r" "r < of_int \<lfloor>r\<rfloor> + 1" by linarith+
  with e show ?thesis unfolding t x_def [symmetric] by linarith
qed

text \<open>
  The share target is the difficulty-1 target divided by the difficulty, to within one unit
  either side of the truncation, and a harder share always satisfies an easier target: raising a
  miner's difficulty never makes a rejected hash acceptable.
\<close>

theorem share_target_sound:
  assumes "1 \<le> d" and "d \<le> e"
  shows "\<bar>of_int (difficulty_to_target d) - of_int diff1_target / d\<bar> < 2
    \<and> (meets_target h (difficulty_to_target e) \<longrightarrow> meets_target h (difficulty_to_target d))"
  using difficulty_to_target_error [OF assms(1)] difficulty_to_target_antimono [of d e] assms
  by (auto simp: meets_target_def)

theorem share_target_sound_witness:
  "\<bar>of_int (difficulty_to_target 2) - of_int diff1_target / (2 :: rat)\<bar> < 2
    \<and> meets_target 5 (difficulty_to_target 3) \<and> meets_target 5 (difficulty_to_target 2)"
proof -
  have "meets_target 5 (difficulty_to_target 3)" by code_simp
  with share_target_sound [of 2 3 5] show ?thesis by simp
qed

subsection \<open>The controller\<close>

record controller_config =
  cc_min_diff :: f64
  cc_max_diff :: f64
  cc_target_interval :: int
  cc_retarget_interval :: int
  cc_variance_percent :: f64
  cc_max_adjust_factor :: f64

definition controller_defaults :: "controller_config \<Rightarrow> controller_config" where
  "controller_defaults c0 =
     (let c1 = (if cc_target_interval c0 \<le> 0 then c0\<lparr>cc_target_interval := 10000000000\<rparr> else c0);
          c2 = (if cc_retarget_interval c1 \<le> 0 then c1\<lparr>cc_retarget_interval := 60000000000\<rparr> else c1);
          c3 = (if cc_variance_percent c2 \<le> 0 then c2\<lparr>cc_variance_percent := 30\<rparr> else c2);
          c4 = (if cc_max_adjust_factor c3 \<le> 1 then c3\<lparr>cc_max_adjust_factor := 4\<rparr> else c3);
          c5 = (if cc_min_diff c4 \<le> 0 then c4\<lparr>cc_min_diff := round64 (1 / 1000)\<rparr> else c4)
      in if cc_max_diff c5 \<le> 0 \<or> cc_max_diff c5 < cc_min_diff c5
         then c5\<lparr>cc_max_diff := 1099511627776\<rparr> else c5)"

record controller =
  ct_cfg :: controller_config
  ct_window_start :: int
  ct_shares :: int
  ct_last_retarget :: int

definition new_controller :: "controller_config \<Rightarrow> int \<Rightarrow> controller" where
  "new_controller cfg now =
     \<lparr>ct_cfg = controller_defaults cfg, ct_window_start = now, ct_shares = 0, ct_last_retarget = now\<rparr>"

definition on_share :: "controller \<Rightarrow> controller" where
  "on_share c = c\<lparr>ct_shares := ct_shares c + 1\<rparr>"

definition retarget :: "controller \<Rightarrow> int \<Rightarrow> f64 \<Rightarrow> controller \<times> f64 \<times> bool" where
  "retarget c now current_diff =
     (let cfg = ct_cfg c;
          elapsed = now - ct_last_retarget c
      in if elapsed < cc_retarget_interval cfg then (c, current_diff, False)
         else
           let shares = ct_shares c;
               c' = c\<lparr>ct_shares := 0, ct_last_retarget := now, ct_window_start := now\<rparr>;
               tgt = seconds (cc_target_interval cfg);
               observed = (if shares = 0 then seconds elapsed
                           else fdiv (seconds elapsed) (f64_of_int shares));
               dev0 = fmul (fdiv (fsub observed tgt) tgt) 100;
               deviation = (if dev0 < 0 then - dev0 else dev0)
           in if deviation \<le> cc_variance_percent cfg then (c', current_diff, False)
              else
                let factor0 = fdiv tgt observed;
                    factor1 = (if factor0 > cc_max_adjust_factor cfg
                               then cc_max_adjust_factor cfg else factor0);
                    lo = fdiv 1 (cc_max_adjust_factor cfg);
                    factor = (if factor1 < lo then lo else factor1);
                    d0 = fmul current_diff factor;
                    d1 = (if d0 < cc_min_diff cfg then cc_min_diff cfg else d0);
                    d2 = (if d1 > cc_max_diff cfg then cc_max_diff cfg else d1)
                in if d2 = current_diff then (c', current_diff, False) else (c', d2, True))"

text \<open>A controller of a session: created with its configuration, then fed shares and retargets in
  any order.\<close>

inductive controller_reach :: "controller_config \<Rightarrow> controller \<Rightarrow> bool" for cfg where
  Created: "controller_reach cfg (new_controller cfg now)"
| Shared: "controller_reach cfg c \<Longrightarrow> controller_reach cfg (on_share c)"
| Retargeted: "controller_reach cfg c \<Longrightarrow> controller_reach cfg (fst (retarget c now d))"

lemma ct_cfg_retarget [simp]: "ct_cfg (fst (retarget c now d)) = ct_cfg c"
  by (simp add: retarget_def Let_def)

lemma ct_shares_retarget: "0 \<le> ct_shares c \<Longrightarrow> 0 \<le> ct_shares (fst (retarget c now d))"
  by (simp add: retarget_def Let_def)

lemma controller_reach_inv:
  "controller_reach cfg c \<Longrightarrow> ct_cfg c = controller_defaults cfg \<and> 0 \<le> ct_shares c"
  by (induction rule: controller_reach.induct)
    (auto simp: new_controller_def on_share_def ct_shares_retarget)

lemma controller_defaults_ok:
  "0 < cc_target_interval (controller_defaults cfg)"
  "0 < cc_retarget_interval (controller_defaults cfg)"
  "0 < cc_variance_percent (controller_defaults cfg)"
  "1 < cc_max_adjust_factor (controller_defaults cfg)"
  "0 < cc_min_diff (controller_defaults cfg)"
  "0 < cc_max_diff (controller_defaults cfg)"
  using f64.rnd_pos [of "1 / 1000"] by (auto simp: controller_defaults_def Let_def)

lemma controller_defaults_ordered:
  "cc_min_diff cfg \<le> 1099511627776 \<Longrightarrow>
   cc_min_diff (controller_defaults cfg) \<le> cc_max_diff (controller_defaults cfg)"
  using f64.rnd_le_of_int [of 1 "1 / 1000"] by (auto simp: controller_defaults_def Let_def)

text \<open>The observed seconds per share of the window that ends at \<open>now\<close>.\<close>

definition observed_interval :: "controller \<Rightarrow> int \<Rightarrow> f64" where
  "observed_interval c now =
     (if ct_shares c = 0 then seconds (now - ct_last_retarget c)
      else fdiv (seconds (now - ct_last_retarget c)) (f64_of_int (ct_shares c)))"

lemma observed_interval_pos:
  assumes "controller_reach cfg c" and "cc_retarget_interval (ct_cfg c) \<le> now - ct_last_retarget c"
  shows "0 < observed_interval c now"
proof -
  have "0 < now - ct_last_retarget c"
    using assms controller_reach_inv [OF assms(1)] controller_defaults_ok(2) [of cfg] by simp
  then have s: "0 < seconds (now - ct_last_retarget c)" by (rule seconds_pos)
  moreover have "0 < f64_of_int (ct_shares c)" if "ct_shares c \<noteq> 0"
    using that controller_reach_inv [OF assms(1)] f64.rnd_pos [of "of_int (ct_shares c)"]
    by (simp add: f64_of_int_def)
  ultimately show ?thesis by (simp add: observed_interval_def fdiv_def f64.rnd_pos)
qed

text \<open>The new difficulty, with the clamps written as minima and maxima.\<close>

definition adjust_factor :: "controller_config \<Rightarrow> f64 \<Rightarrow> f64" where
  "adjust_factor cfg observed =
     max (fdiv 1 (cc_max_adjust_factor cfg))
       (min (cc_max_adjust_factor cfg) (fdiv (seconds (cc_target_interval cfg)) observed))"

definition adjusted_diff :: "controller_config \<Rightarrow> f64 \<Rightarrow> f64 \<Rightarrow> f64" where
  "adjusted_diff cfg observed d =
     min (cc_max_diff cfg) (max (cc_min_diff cfg) (fmul d (adjust_factor cfg observed)))"

lemma clamp_max: "(if x > m then m else x) = min m x"
  and clamp_min: "(if x < m then m else x) = max m x" for x m :: f64
  by (simp_all add: min_def max_def)

lemma retarget_True:
  assumes "retarget c now d = (c', nd, True)"
  shows "cc_retarget_interval (ct_cfg c) \<le> now - ct_last_retarget c
    \<and> c' = c\<lparr>ct_shares := 0, ct_last_retarget := now, ct_window_start := now\<rparr>
    \<and> nd \<noteq> d \<and> nd = adjusted_diff (ct_cfg c) (observed_interval c now) d"
proof -
  have *: "\<not> now - ct_last_retarget c < cc_retarget_interval (ct_cfg c)"
    using assms by (auto simp: retarget_def)
  show ?thesis
    using assms *
    unfolding retarget_def Let_def clamp_max clamp_min observed_interval_def [symmetric]
      adjust_factor_def [symmetric] adjusted_diff_def [symmetric]
    by (simp only: if_False prod.inject split: if_split_asm) simp_all
qed

lemma fmul_ge_self:
  assumes "round64 d = d" and "0 \<le> d" and "1 \<le> f"
  shows "d \<le> fmul d f"
  using f64.rnd_mono [of d "d * f"] assms mult_left_mono [of 1 f d] by (simp add: fmul_def)

lemma fmul_le_self:
  assumes "round64 d = d" and "0 \<le> d" and "f \<le> 1"
  shows "fmul d f \<le> d"
  using f64.rnd_mono [of "d * f" d] assms mult_left_mono [of f 1 d] by (simp add: fmul_def)

lemma fmul_mono_right: "0 \<le> d \<Longrightarrow> f \<le> g \<Longrightarrow> fmul d f \<le> fmul d g"
  by (simp add: fmul_def f64.rnd_mono mult_left_mono)

lemma inverse_factor_le_1: "1 < m \<Longrightarrow> fdiv 1 m \<le> 1"
  using f64.rnd_mono [of "1 / m" 1] by (simp add: fdiv_def f64.rnd_1)

lemma adjust_factor_bounds:
  assumes "1 < cc_max_adjust_factor cfg"
  shows "fdiv 1 (cc_max_adjust_factor cfg) \<le> adjust_factor cfg obs"
    and "adjust_factor cfg obs \<le> cc_max_adjust_factor cfg"
  using inverse_factor_le_1 [OF assms] assms by (auto simp: adjust_factor_def)

lemma adjust_factor_fast:
  assumes "1 < cc_max_adjust_factor cfg" and "0 < obs" and "obs \<le> seconds (cc_target_interval cfg)"
  shows "1 \<le> adjust_factor cfg obs"
proof -
  have "1 \<le> seconds (cc_target_interval cfg) / obs" using assms by simp
  then have "1 \<le> fdiv (seconds (cc_target_interval cfg)) obs"
    using f64.rnd_mono [of 1] by (simp add: fdiv_def f64.rnd_1)
  then show ?thesis using assms(1) by (simp add: adjust_factor_def le_max_iff_disj)
qed

lemma adjust_factor_slow:
  assumes "1 < cc_max_adjust_factor cfg" and "0 < obs" and "seconds (cc_target_interval cfg) \<le> obs"
  shows "adjust_factor cfg obs \<le> 1"
proof -
  have "seconds (cc_target_interval cfg) / obs \<le> 1" using assms by simp
  then have "fdiv (seconds (cc_target_interval cfg)) obs \<le> 1"
    using f64.rnd_mono [of _ 1] by (simp add: fdiv_def f64.rnd_1)
  then show ?thesis using inverse_factor_le_1 [OF assms(1)] by (simp add: adjust_factor_def min_le_iff_disj)
qed

text \<open>
  C16: a retarget corrects towards the target share rate and never jumps. For any controller a
  session can have and a difficulty inside the port's bounds, a changed difficulty stays inside
  the bounds; it rises when shares came faster than the target interval and falls when they came
  slower, in either case by at most the configured step factor; and the window restarts.
\<close>

theorem retarget_corrects:
  assumes "controller_reach cfg c" and "retarget c now d = (c', nd, True)"
    and "round64 d = d" and "cc_min_diff (ct_cfg c) \<le> d" and "d \<le> cc_max_diff (ct_cfg c)"
  shows "cc_min_diff (ct_cfg c) \<le> nd \<and> nd \<le> cc_max_diff (ct_cfg c)
    \<and> (observed_interval c now \<le> seconds (cc_target_interval (ct_cfg c)) \<longrightarrow>
         d < nd \<and> nd \<le> fmul d (cc_max_adjust_factor (ct_cfg c)))
    \<and> (seconds (cc_target_interval (ct_cfg c)) \<le> observed_interval c now \<longrightarrow>
         nd < d \<and> fmul d (fdiv 1 (cc_max_adjust_factor (ct_cfg c))) \<le> nd)
    \<and> ct_shares c' = 0 \<and> ct_last_retarget c' = now"
proof -
  define g where "g = ct_cfg c"
  define obs where "obs = observed_interval c now"
  note ok = controller_defaults_ok [of cfg]
  have g: "g = controller_defaults cfg" using controller_reach_inv [OF assms(1)] by (simp add: g_def)
  have m: "1 < cc_max_adjust_factor g" and d0: "0 \<le> d" using ok(4,5) assms(4) by (simp_all add: g g_def [symmetric])
  have nd: "nd \<noteq> d" "nd = adjusted_diff g obs d" and c': "ct_shares c' = 0" "ct_last_retarget c' = now"
    and iv: "cc_retarget_interval g \<le> now - ct_last_retarget c"
    using retarget_True [OF assms(2)] by (simp_all add: g_def obs_def)
  have obs0: "0 < obs" using observed_interval_pos [OF assms(1)] iv by (simp add: g_def obs_def)
  have b: "cc_min_diff g \<le> d" "d \<le> cc_max_diff g" using assms(4,5) by (simp_all add: g_def)
  have in_bounds: "cc_min_diff g \<le> nd \<and> nd \<le> cc_max_diff g" using b nd(2) by (simp add: adjusted_diff_def)
  have fast: "d < nd \<and> nd \<le> fmul d (cc_max_adjust_factor g)" if "obs \<le> seconds (cc_target_interval g)"
  proof -
    have "d \<le> fmul d (adjust_factor g obs)"
      by (rule fmul_ge_self [OF assms(3) d0 adjust_factor_fast [OF m obs0 that]])
    moreover have "fmul d (adjust_factor g obs) \<le> fmul d (cc_max_adjust_factor g)"
      by (rule fmul_mono_right [OF d0 adjust_factor_bounds(2) [OF m]])
    ultimately show ?thesis using nd b by (auto simp: adjusted_diff_def min_def max_def split: if_splits)
  qed
  have slow: "nd < d \<and> fmul d (fdiv 1 (cc_max_adjust_factor g)) \<le> nd" if "seconds (cc_target_interval g) \<le> obs"
  proof -
    have "fmul d (adjust_factor g obs) \<le> d"
      by (rule fmul_le_self [OF assms(3) d0 adjust_factor_slow [OF m obs0 that]])
    moreover have "fmul d (fdiv 1 (cc_max_adjust_factor g)) \<le> fmul d (adjust_factor g obs)"
      by (rule fmul_mono_right [OF d0 adjust_factor_bounds(1) [OF m]])
    ultimately show ?thesis using nd b by (auto simp: adjusted_diff_def min_def max_def split: if_splits)
  qed
  show ?thesis using in_bounds fast slow c' unfolding g_def obs_def by blast
qed

text \<open>Two shares in a minute where six are expected: the difficulty falls from 1024 to about a
  third.\<close>

definition sample_cc :: controller_config where
  "sample_cc = \<lparr>cc_min_diff = 1, cc_max_diff = 65536, cc_target_interval = 10000000000,
     cc_retarget_interval = 60000000000, cc_variance_percent = 30, cc_max_adjust_factor = 4\<rparr>"

definition sample_ct :: controller where
  "sample_ct = on_share (on_share (new_controller sample_cc 0))"

theorem retarget_corrects_witness:
  "\<exists>c' nd. retarget sample_ct 60000000000 1024 = (c', nd, True) \<and> nd < 1024 \<and> 256 \<le> nd"
proof -
  have r: "controller_reach sample_cc sample_ct"
    unfolding sample_ct_def by (intro controller_reach.intros)
  obtain c' nd where t: "retarget sample_ct 60000000000 1024 = (c', nd, True)"
  proof -
    have "snd (snd (retarget sample_ct 60000000000 1024))" by code_simp
    then show thesis using that by (metis prod.collapse)
  qed
  have v: "round64 1024 = 1024" "cc_min_diff (ct_cfg sample_ct) \<le> 1024" "1024 \<le> cc_max_diff (ct_cfg sample_ct)"
    "seconds (cc_target_interval (ct_cfg sample_ct)) \<le> observed_interval sample_ct 60000000000"
    "fmul 1024 (fdiv 1 (cc_max_adjust_factor (ct_cfg sample_ct))) = 256"
    by code_simp+
  show ?thesis using retarget_corrects [OF r t v(1-3)] v(4,5) t by auto
qed

end
