(* ===== verification/Sha512.thy ===== *)
theory Sha512
  imports Prelude
begin

text \<open>
  SHA-512/256 (\<open>crypto/sha512\<close>'s \<open>Sum512_256\<close>) on 64-bit words and its double application, the
  proof-of-work and identity hash of Radiant
  (\<open>internal/coins/bitcoinbase/sha512256d.go\<close>). Rotations and the schedule are those of the
  standard; constants are written in decimal.
\<close>

definition ror64 :: "nat \<Rightarrow> 64 word \<Rightarrow> 64 word" where
  "ror64 n x = drop_bit n x OR push_bit (64 - n) x"

definition sha512_k :: "64 word list" where
  "sha512_k =
    [4794697086780616226, 8158064640168781261, 13096744586834688815, 16840607885511220156,
     4131703408338449720, 6480981068601479193, 10538285296894168987, 12329834152419229976,
     15566598209576043074, 1334009975649890238, 2608012711638119052, 6128411473006802146,
     8268148722764581231, 9286055187155687089, 11230858885718282805, 13951009754708518548,
     16472876342353939154, 17275323862435702243, 1135362057144423861, 2597628984639134821,
     3308224258029322869, 5365058923640841347, 6679025012923562964, 8573033837759648693,
     10970295158949994411, 12119686244451234320, 12683024718118986047, 13788192230050041572,
     14330467153632333762, 15395433587784984357, 489312712824947311, 1452737877330783856,
     2861767655752347644, 3322285676063803686, 5560940570517711597, 5996557281743188959,
     7280758554555802590, 8532644243296465576, 9350256976987008742, 10552545826968843579,
     11727347734174303076, 12113106623233404929, 14000437183269869457, 14369950271660146224,
     15101387698204529176, 15463397548674623760, 17586052441742319658, 1182934255886127544,
     1847814050463011016, 2177327727835720531, 2830643537854262169, 3796741975233480872,
     4115178125766777443, 5681478168544905931, 6601373596472566643, 7507060721942968483,
     8399075790359081724, 8693463985226723168, 9568029438360202098, 10144078919501101548,
     10430055236837252648, 11840083180663258601, 13761210420658862357, 14299343276471374635,
     14566680578165727644, 15097957966210449927, 16922976911328602910, 17689382322260857208,
     500013540394364858, 748580250866718886, 1242879168328830382, 1977374033974150939,
     2944078676154940804, 3659926193048069267, 4368137639120453308, 4836135668995329356,
     5532061633213252278, 6448918945643986474, 6902733635092675308, 7801388544844847127]"

definition sha512_256_iv :: "64 word list" where
  "sha512_256_iv =
     [2463787394917988140, 11481187982095705282, 2563595384472711505, 10824532655140301501,
      10819967247969091555, 13717434660681038226, 3098927326965381290, 1060366662362279074]"

text \<open>The next schedule word, from the words so far, newest first.\<close>

definition next_w :: "64 word list \<Rightarrow> 64 word" where
  "next_w w =
     (let x = w ! 14; y = w ! 1;
          s0 = ror64 1 x XOR ror64 8 x XOR drop_bit 7 x;
          s1 = ror64 19 y XOR ror64 61 y XOR drop_bit 6 y
      in w ! 15 + s0 + w ! 6 + s1)"

definition schedule512 :: "64 word list \<Rightarrow> 64 word list" where
  "schedule512 block = rev (((\<lambda>w. next_w w # w) ^^ 64) (rev block))"

text \<open>One round on the eight registers.\<close>

definition round512 :: "64 word list \<Rightarrow> 64 word \<times> 64 word \<Rightarrow> 64 word list" where
  "round512 r kw =
     (let e = r ! 4; a = r ! 0;
          t1 = r ! 7 + (ror64 14 e XOR ror64 18 e XOR ror64 41 e)
                 + ((e AND r ! 5) XOR (NOT e AND r ! 6)) + fst kw + snd kw;
          t2 = (ror64 28 a XOR ror64 34 a XOR ror64 39 a)
                 + ((a AND r ! 1) XOR (a AND r ! 2) XOR (r ! 1 AND r ! 2))
      in [t1 + t2, a, r ! 1, r ! 2, r ! 3 + t1, e, r ! 5, r ! 6])"

fun words64 :: "nat \<Rightarrow> bytes \<Rightarrow> 64 word list" where
  "words64 0 bs = []"
| "words64 (Suc n) bs = word_of_int (be_val (take 8 bs)) # words64 n (drop 8 bs)"

definition block512 :: "64 word list \<Rightarrow> bytes \<Rightarrow> 64 word list" where
  "block512 h chunk =
     map2 (+) h (foldl round512 h (zip sha512_k (schedule512 (words64 16 chunk))))"

fun blocks512 :: "nat \<Rightarrow> 64 word list \<Rightarrow> bytes \<Rightarrow> 64 word list" where
  "blocks512 0 h bs = h"
| "blocks512 (Suc n) h bs = blocks512 n (block512 h (take 128 bs)) (drop 128 bs)"

definition pad512 :: "bytes \<Rightarrow> bytes" where
  "pad512 m = m @ 0x80 # replicate ((239 - length m mod 128) mod 128) 0 @ be_bytes 16 (8 * int (length m))"

definition sha512_256 :: "bytes \<Rightarrow> bytes" where
  "sha512_256 m =
     take 32 (concat (map (\<lambda>w. be_bytes 8 (uint w))
       (blocks512 (length (pad512 m) div 128) sha512_256_iv (pad512 m))))"

definition sha512_256d :: "bytes \<Rightarrow> bytes" where
  "sha512_256d header = sha512_256 (sha512_256 header)"

lemma length_block512 [simp]: "length h = 8 \<Longrightarrow> length (block512 h chunk) = 8"
proof -
  have "length (foldl round512 r kws) = 8" if "length r = 8" for r kws
    using that by (induction kws arbitrary: r) (simp_all add: round512_def Let_def)
  then show "length h = 8 \<Longrightarrow> length (block512 h chunk) = 8" by (simp add: block512_def)
qed

lemma length_blocks512: "length h = 8 \<Longrightarrow> length (blocks512 n h bs) = 8"
  by (induction n h bs rule: blocks512.induct) simp_all

lemma length_concat_be8: "length (concat (map (\<lambda>w. be_bytes 8 (uint w)) ws)) = 8 * length ws"
  by (induction ws) simp_all

lemma length_sha512_256 [simp, codec_simps]: "length (sha512_256 m) = 32"
  using length_blocks512 [of sha512_256_iv] by (simp add: sha512_256_def length_concat_be8 sha512_256_iv_def)

lemma length_sha512_256d [simp, codec_simps]: "length (sha512_256d h) = 32"
  by (simp add: sha512_256d_def)

end
