(* ===== verification/Adapter.thy ===== *)
theory Adapter
  imports Address Block VarDiff Sha512
begin

text \<open>
  The coin adapter of \<open>internal/coins/bitcoinlike/adapter.go\<close>, shared by every Bitcoin-derived
  coin, and its constructors for BTC, LTC, RXD and SCASH. The daemon is an argument of the
  operations that call it. Hash functions outside the standard library (scrypt, blake2b and the
  RandomX virtual machine) are arguments too; SHA-256 and SHA-512/256 are the concrete ones.
  A Go panic (a target that does not fit 32 bytes) is the error \<open>AdPanic\<close>.
\<close>

type_synonym pow_hash = "bytes \<Rightarrow> string + bytes"

record coin_spec =
  sp_name :: string
  sp_symbol :: string
  sp_algo :: string
  sp_params :: address_params
  sp_pow :: "pow_hash option"
  sp_identity :: "pow_hash option"
  sp_mask :: "32 word"

record adapter_options =
  ao_has_rpc :: bool
  ao_pool_address :: string
  ao_tag :: string
  ao_en1_size :: int
  ao_en2_size :: int

record adapter =
  ad_spec :: coin_spec
  ad_payout_script :: bytes
  ad_tag :: string
  ad_en1_size :: int
  ad_en2_size :: int

datatype adapter_error =
    AdNilRpc
  | AdUnknownNetwork string
  | AdPoolAddress address_error
  | AdRpc string
  | AdInitialDownload int int
  | AdTemplate template_error
  | AdWitnessCommitment
  | AdJob job_error
  | AdBits target_error
  | AdPanic
  | AdNoPayload
  | AdSubmit submit_parse_error
  | AdEN1Length nat int
  | AdTimeTooOld int int
  | AdTimeTooNew int int
  | AdVersionBits "32 word" "32 word"
  | AdAssemble coinbase_error
  | AdHeader header_error
  | AdPow string
  | AdIdentity string
  | AdBlock block_error
  | AdRejected string
  | AdHeaderLength nat
  | AdAddress address_error

definition sha256d_hash :: pow_hash where
  "sha256d_hash header = Inr (double_sha256 header)"

definition new_adapter :: "coin_spec \<Rightarrow> adapter_options \<Rightarrow> adapter_error + adapter" where
  "new_adapter spec opts =
     (if \<not> ao_has_rpc opts then Inl AdNilRpc
      else
        let spec1 = (if sp_pow spec = None then spec\<lparr>sp_pow := Some sha256d_hash\<rparr> else spec);
            spec2 = (if sp_identity spec1 = None then spec1\<lparr>sp_identity := Some sha256d_hash\<rparr> else spec1)
        in case address_to_script (ao_pool_address opts) (sp_params spec2) of
             Inl e \<Rightarrow> Inl (AdPoolAddress e)
           | Inr script \<Rightarrow>
             let en1 = (if ao_en1_size opts \<le> 0 then 4 else ao_en1_size opts);
                 en2 = (if ao_en2_size opts \<le> 0 then 4 else ao_en2_size opts)
             in Inr \<lparr>ad_spec = spec2, ad_payout_script = script, ad_tag = ao_tag opts,
                     ad_en1_size = en1, ad_en2_size = en2\<rparr>)"

definition adapter_pow :: "adapter \<Rightarrow> pow_hash" where
  "adapter_pow a = (case sp_pow (ad_spec a) of None \<Rightarrow> sha256d_hash | Some h \<Rightarrow> h)"

definition adapter_identity :: "adapter \<Rightarrow> pow_hash" where
  "adapter_identity a = (case sp_identity (ad_spec a) of None \<Rightarrow> sha256d_hash | Some h \<Rightarrow> h)"

subsection \<open>The coins\<close>

definition pick_network ::
  "string list \<Rightarrow> address_params \<Rightarrow> address_params \<Rightarrow> address_params \<Rightarrow> string \<Rightarrow> adapter_error + address_params" where
  "pick_network test_names main_net test_net reg_net network =
     (let n = to_lower network in
      if n = [] \<or> n = ''mainnet'' then Inr main_net
      else if n \<in> set test_names then Inr test_net
      else if n = ''regtest'' then Inr reg_net
      else Inl (AdUnknownNetwork network))"

definition btc_version_mask :: "32 word" where
  "btc_version_mask = 0x1fffe000"

definition new_btc :: "string \<Rightarrow> adapter_options \<Rightarrow> adapter_error + adapter" where
  "new_btc network opts =
     (if \<not> ao_has_rpc opts then Inl AdNilRpc
      else case pick_network [''testnet'', ''signet''] btc_main_net btc_test_net btc_reg_test network of
        Inl e \<Rightarrow> Inl e
      | Inr params \<Rightarrow>
        new_adapter \<lparr>sp_name = ''Bitcoin'', sp_symbol = ''BTC'', sp_algo = ''sha256d'', sp_params = params,
          sp_pow = None, sp_identity = None, sp_mask = btc_version_mask\<rparr> opts)"

definition new_ltc :: "pow_hash \<Rightarrow> string \<Rightarrow> adapter_options \<Rightarrow> adapter_error + adapter" where
  "new_ltc scrypt_hash network opts =
     (if \<not> ao_has_rpc opts then Inl AdNilRpc
      else case pick_network [''testnet'', ''signet''] ltc_main_net ltc_test_net ltc_reg_test network of
        Inl e \<Rightarrow> Inl e
      | Inr params \<Rightarrow>
        new_adapter \<lparr>sp_name = ''Litecoin'', sp_symbol = ''LTC'', sp_algo = ''scrypt'', sp_params = params,
          sp_pow = Some scrypt_hash, sp_identity = None, sp_mask = 0\<rparr> opts)"

definition radiant_hash :: pow_hash where
  "radiant_hash header = Inr (sha512_256d header)"

definition new_rxd :: "string \<Rightarrow> adapter_options \<Rightarrow> adapter_error + adapter" where
  "new_rxd network opts =
     (if \<not> ao_has_rpc opts then Inl AdNilRpc
      else case pick_network [''testnet''] rxd_main_net rxd_test_net rxd_reg_test network of
        Inl e \<Rightarrow> Inl e
      | Inr params \<Rightarrow>
        new_adapter \<lparr>sp_name = ''Radiant'', sp_symbol = ''RXD'', sp_algo = ''sha512_256d'', sp_params = params,
          sp_pow = Some radiant_hash, sp_identity = Some radiant_hash, sp_mask = 0\<rparr> opts)"

subsubsection \<open>Scash: epoch seed and RandomX commitment\<close>

definition default_epoch_duration :: int where
  "default_epoch_duration = 7 * 24 * 60 * 60"

text \<open>Go's integer division truncates towards zero; the code then floors it.\<close>

definition go_quot :: "int \<Rightarrow> int \<Rightarrow> int" where
  "go_quot a b = (if 0 \<le> a then a div b else - ((- a) div b))"

definition epoch_of :: "int \<Rightarrow> int \<Rightarrow> int" where
  "epoch_of unix_time epoch_duration0 =
     (let epoch_duration = (if epoch_duration0 \<le> 0 then default_epoch_duration else epoch_duration0);
          epoch = go_quot unix_time epoch_duration
      in if unix_time < 0 \<and> unix_time - epoch_duration * epoch \<noteq> 0 then epoch - 1 else epoch)"

definition dec_int :: "int \<Rightarrow> string" where
  "dec_int n = (if n < 0 then CHR ''-'' # dec_digits (- n) else dec_digits n)"

definition epoch_seed_hash :: "int \<Rightarrow> int \<Rightarrow> bytes" where
  "epoch_seed_hash unix_time epoch_duration =
     sha256 (bytes_of_string (''Scash/RandomX/Epoch/'' @ dec_int (epoch_of unix_time epoch_duration)))"

definition epoch_number :: "int \<Rightarrow> int \<Rightarrow> int" where
  "epoch_number unix_time epoch_duration0 =
     go_quot unix_time (if epoch_duration0 \<le> 0 then default_epoch_duration else epoch_duration0)"

definition rx_commitment :: "(bytes \<Rightarrow> bytes) \<Rightarrow> bytes \<Rightarrow> bytes \<Rightarrow> string + bytes" where
  "rx_commitment blake2b_256 input rx_hash =
     (if length rx_hash \<noteq> 32 then Inl ''scash: rx hash length'' else Inr (blake2b_256 (input @ rx_hash)))"

definition unavailable_hasher :: "bytes \<Rightarrow> bytes \<Rightarrow> string + bytes" where
  "unavailable_hasher seed input = Inl ''scash: no RandomX backend configured''"

definition scash_pow_hash ::
  "(bytes \<Rightarrow> bytes) \<Rightarrow> (bytes \<Rightarrow> bytes \<Rightarrow> string + bytes) option \<Rightarrow> int \<Rightarrow> pow_hash" where
  "scash_pow_hash blake2b_256 rx0 epoch_duration header =
     (let rx = (case rx0 of None \<Rightarrow> unavailable_hasher | Some f \<Rightarrow> f)
      in if length header \<noteq> 80 then Inl ''scash: header length''
         else let ntime = uint (get_u32_le (take 4 (drop 68 header)));
                  seed = epoch_seed_hash ntime epoch_duration
              in case rx seed header of Inl e \<Rightarrow> Inl e
                 | Inr rx_hash \<Rightarrow>
                   if length rx_hash \<noteq> 32 then Inl ''scash: randomx hash length''
                   else rx_commitment blake2b_256 header rx_hash)"

definition new_scash ::
  "(bytes \<Rightarrow> bytes) \<Rightarrow> (bytes \<Rightarrow> bytes \<Rightarrow> string + bytes) option \<Rightarrow> int \<Rightarrow> string \<Rightarrow> adapter_options \<Rightarrow>
   adapter_error + adapter" where
  "new_scash blake2b_256 rx epoch_duration network opts =
     (if \<not> ao_has_rpc opts then Inl AdNilRpc
      else case pick_network [''testnet''] scash_main_net scash_test_net scash_reg_test network of
        Inl e \<Rightarrow> Inl e
      | Inr params \<Rightarrow>
        new_adapter \<lparr>sp_name = ''Scash'', sp_symbol = ''SCASH'', sp_algo = ''randomx'', sp_params = params,
          sp_pow = Some (scash_pow_hash blake2b_256 rx epoch_duration), sp_identity = None, sp_mask = 0\<rparr> opts)"

subsection \<open>Templates and jobs\<close>

record blockchain_info =
  bi_blocks :: int
  bi_headers :: int
  bi_initial_download :: bool

definition health :: "string + blockchain_info \<Rightarrow> adapter_error + unit" where
  "health rpc =
     (case rpc of Inl e \<Rightarrow> Inl (AdRpc e)
      | Inr info \<Rightarrow> if bi_initial_download info then Inl (AdInitialDownload (bi_blocks info) (bi_headers info))
                    else Inr ())"

text \<open>The coin-agnostic template; \<open>Raw\<close> keeps the daemon's answer, decoded.\<close>

record block_template =
  bt_height :: int
  bt_prev_hash :: string
  bt_bits :: string
  bt_cur_time :: int
  bt_coinbase_value :: int
  bt_raw :: "template option"

definition get_block_template :: "string + template option \<Rightarrow> adapter_error + block_template" where
  "get_block_template rpc =
     (case rpc of Inl e \<Rightarrow> Inl (AdRpc e)
      | Inr raw \<Rightarrow>
        (case parse_template raw of Inl e \<Rightarrow> Inl (AdTemplate e)
         | Inr tpl \<Rightarrow>
           Inr \<lparr>bt_height = tp_height tpl, bt_prev_hash = tp_previous_block_hash tpl, bt_bits = tp_bits tpl,
                bt_cur_time = tp_cur_time tpl, bt_coinbase_value = tp_coinbase_value tpl, bt_raw = raw\<rparr>))"

record mining_job =
  mj_job_id :: string
  mj_pool_id :: string
  mj_height :: int
  mj_clean_jobs :: bool
  mj_network_target :: bytes
  mj_coinbase_value :: int
  mj_notify_params :: "notify_param list"
  mj_base :: "job option"

definition job_spec :: "adapter \<Rightarrow> template \<Rightarrow> adapter_error + coinbase_spec" where
  "job_spec a base =
     (let spec = \<lparr>cs_height = tp_height base, cs_coinbase_value = tp_coinbase_value base,
                  cs_payout_script = ad_payout_script a, cs_witness_commitment = [], cs_tag = ad_tag a,
                  cs_en1_size = ad_en1_size a, cs_en2_size = ad_en2_size a, cs_tx_version = 2\<rparr>
      in if tp_default_witness_commitment base \<noteq> []
         then case hex_decode (tp_default_witness_commitment base) of
                None \<Rightarrow> Inl AdWitnessCommitment
              | Some wc \<Rightarrow> Inr (spec\<lparr>cs_witness_commitment := wc\<rparr>)
         else Inr spec)"

text \<open>
  The code keeps the template between the poll and this call as a \<open>map[string]any\<close> and marshals it again, which turns its numbers into
  \<open>float64\<close> and back; \<open>bt_raw\<close> is the template as it is read back. Numbers survive that up to \<open>2 ^ 53\<close>.
\<close>

definition build_mining_job :: "adapter \<Rightarrow> block_template \<Rightarrow> adapter_error + mining_job" where
  "build_mining_job a tpl =
     (case parse_template (bt_raw tpl) of Inl e \<Rightarrow> Inl (AdTemplate e)
      | Inr base \<Rightarrow>
     (case job_spec a base of Inl e \<Rightarrow> Inl e
      | Inr spec \<Rightarrow>
     (case new_job [] base spec False of Inl e \<Rightarrow> Inl (AdJob e)
      | Inr j \<Rightarrow>
     (case bits_to_target (tp_bits base) of Inl e \<Rightarrow> Inl (AdBits e)
      | Inr tgt \<Rightarrow>
     (case target_to_bytes tgt of Inl _ \<Rightarrow> Inl AdPanic
      | Inr net_target \<Rightarrow>
        Inr \<lparr>mj_job_id = [], mj_pool_id = [], mj_height = tp_height base, mj_clean_jobs = False,
             mj_network_target = net_target, mj_coinbase_value = tp_coinbase_value base,
             mj_notify_params = [], mj_base = Some j\<rparr>)))))"

definition bitcoinbase_job :: "mining_job \<Rightarrow> adapter_error + job" where
  "bitcoinbase_job j = (case mj_base j of None \<Rightarrow> Inl AdNoPayload | Some b \<Rightarrow> Inr b)"

subsection \<open>Shares\<close>

record share_submit =
  su_worker :: string
  su_job_id :: string
  su_extra_nonce2 :: string
  su_ntime :: string
  su_nonce :: string
  su_version_bits :: string
  su_extra_nonce1 :: string
  su_worker_diff :: f64
  su_user_agent :: string
  su_remote_ip :: string

record share_result =
  sr_valid :: bool
  sr_block_candidate :: bool
  sr_block_hash :: string
  sr_block_hex :: string
  sr_share_diff :: f64

definition check_fields :: "adapter \<Rightarrow> job \<Rightarrow> submit_fields \<Rightarrow> adapter_error option" where
  "check_fields a base f =
     (if int (length (sf_extra_nonce1 f)) \<noteq> ad_en1_size a
      then Some (AdEN1Length (length (sf_extra_nonce1 f)) (ad_en1_size a))
      else if jb_min_time base > 0 \<and> uint (sf_ntime f) < jb_min_time base
      then Some (AdTimeTooOld (uint (sf_ntime f)) (jb_min_time base))
      else if uint (sf_ntime f) > jb_cur_time base + 7200
      then Some (AdTimeTooNew (uint (sf_ntime f)) (jb_cur_time base))
      else if sf_has_version f \<and> sp_mask (ad_spec a) \<noteq> 0 \<and> sf_version_bits f AND NOT (sp_mask (ad_spec a)) \<noteq> 0
      then Some (AdVersionBits (sf_version_bits f) (sp_mask (ad_spec a)))
      else None)"

definition share_header :: "adapter \<Rightarrow> job \<Rightarrow> submit_fields \<Rightarrow> adapter_error + (bytes \<times> bytes)" where
  "share_header a base f =
     (case assemble (jb_coinbase_parts base) (sf_extra_nonce1 f) (sf_extra_nonce2 f) of
        Inl e \<Rightarrow> Inl (AdAssemble e)
      | Inr coinbase_tx \<Rightarrow>
        let merkle_root_le = fold_branch (double_sha256 coinbase_tx) (jb_merkle_branch_le base)
        in case build_header base merkle_root_le f (sp_mask (ad_spec a)) of
             Inl e \<Rightarrow> Inl (AdHeader e)
           | Inr header \<Rightarrow> Inr (coinbase_tx, header))"

definition validate_share :: "adapter \<Rightarrow> mining_job \<Rightarrow> share_submit \<Rightarrow> adapter_error + share_result" where
  "validate_share a j s =
     (case bitcoinbase_job j of Inl e \<Rightarrow> Inl e
      | Inr base \<Rightarrow>
     (case parse_submit_hex (su_extra_nonce1 s) (su_extra_nonce2 s) (su_ntime s) (su_nonce s)
             (su_version_bits s) (ad_en2_size a) of Inl e \<Rightarrow> Inl (AdSubmit e)
      | Inr f \<Rightarrow>
     (case check_fields a base f of Some e \<Rightarrow> Inl e
      | None \<Rightarrow>
     (case share_header a base f of Inl e \<Rightarrow> Inl e
      | Inr (coinbase_tx, header) \<Rightarrow>
     (case adapter_pow a header of Inl e \<Rightarrow> Inl (AdPow e)
      | Inr pow_le \<Rightarrow>
     (case adapter_identity a header of Inl e \<Rightarrow> Inl (AdIdentity e)
      | Inr id_le \<Rightarrow>
        let pow_big = hash_to_big pow_le;
            share_target = difficulty_to_target (su_worker_diff s);
            result = \<lparr>sr_valid = meets_target pow_big share_target, sr_block_candidate = False,
                      sr_block_hash = [], sr_block_hex = [], sr_share_diff = share_difficulty pow_big\<rparr>
        in if meets_target pow_big (be_val (mj_network_target j))
           then (case assemble_block header coinbase_tx base of Inl e \<Rightarrow> Inl (AdBlock e)
                 | Inr block_hex \<Rightarrow>
                   Inr (result\<lparr>sr_block_candidate := True,
                               sr_block_hash := hex_encode (reverse_bytes id_le),
                               sr_block_hex := block_hex\<rparr>))
           else Inr result))))))"

definition submit_block :: "string + string option \<Rightarrow> adapter_error + unit" where
  "submit_block rpc =
     (case rpc of Inl e \<Rightarrow> Inl (AdRpc e)
      | Inr None \<Rightarrow> Inr ()
      | Inr (Some reason) \<Rightarrow> if reason \<noteq> [] then Inl (AdRejected reason) else Inr ())"

definition hash_header :: "adapter \<Rightarrow> bytes \<Rightarrow> adapter_error + bytes" where
  "hash_header a header =
     (if length header \<noteq> 80 then Inl (AdHeaderLength (length header))
      else case adapter_pow a header of Inl e \<Rightarrow> Inl (AdPow e) | Inr h \<Rightarrow> Inr h)"

definition adapter_address_to_script :: "adapter \<Rightarrow> string \<Rightarrow> address_error + bytes" where
  "adapter_address_to_script a address = address_to_script address (sp_params (ad_spec a))"

definition normalize_address :: "adapter \<Rightarrow> string \<Rightarrow> address_error + string" where
  "normalize_address a address =
     (let addr0 = trim_space address;
          hrp = ap_bech32_hrp (sp_params (ad_spec a));
          addr = (if hrp \<noteq> [] \<and> has_prefix (to_lower addr0) (hrp @ ''1'') then to_lower addr0 else addr0)
      in case address_to_script addr (sp_params (ad_spec a)) of Inl e \<Rightarrow> Inl e | Inr _ \<Rightarrow> Inr addr)"


subsection \<open>What validation decides\<close>

lemma check_fields_None:
  assumes "check_fields a base f = None"
  shows "int (length (sf_extra_nonce1 f)) = ad_en1_size a"
    and "0 < jb_min_time base \<longrightarrow> jb_min_time base \<le> uint (sf_ntime f)"
    and "uint (sf_ntime f) \<le> jb_cur_time base + 7200"
    and "sf_has_version f \<longrightarrow> sp_mask (ad_spec a) \<noteq> 0 \<longrightarrow> sf_version_bits f AND NOT (sp_mask (ad_spec a)) = 0"
  using assms by (auto simp: check_fields_def split: if_splits)

lemma share_header_Inr:
  assumes "share_header a base f = Inr (tx, header)"
  shows "assemble (jb_coinbase_parts base) (sf_extra_nonce1 f) (sf_extra_nonce2 f) = Inr tx"
    and "build_header base (fold_branch (double_sha256 tx) (jb_merkle_branch_le base)) f (sp_mask (ad_spec a)) = Inr header"
  using assms by (auto simp: share_header_def Let_def split: sum.splits)

lemma validate_share_Inr:
  assumes "validate_share a j s = Inr r"
  shows "\<exists>base f tx header d i. mj_base j = Some base
    \<and> parse_submit_hex (su_extra_nonce1 s) (su_extra_nonce2 s) (su_ntime s) (su_nonce s)
        (su_version_bits s) (ad_en2_size a) = Inr f
    \<and> check_fields a base f = None \<and> share_header a base f = Inr (tx, header)
    \<and> adapter_pow a header = Inr d \<and> adapter_identity a header = Inr i
    \<and> sr_share_diff r = share_difficulty (hash_to_big d)
    \<and> sr_valid r = meets_target (hash_to_big d) (difficulty_to_target (su_worker_diff s))
    \<and> sr_block_candidate r = meets_target (hash_to_big d) (be_val (mj_network_target j))
    \<and> (if sr_block_candidate r
       then assemble_block header tx base = Inr (sr_block_hex r) \<and> sr_block_hash r = hex_encode (reverse_bytes i)
       else sr_block_hex r = [] \<and> sr_block_hash r = [])"
proof -
  obtain base where base: "mj_base j = Some base"
    using assms by (auto simp: validate_share_def bitcoinbase_job_def split: option.splits sum.splits)
  obtain f where f: "parse_submit_hex (su_extra_nonce1 s) (su_extra_nonce2 s) (su_ntime s) (su_nonce s)
        (su_version_bits s) (ad_en2_size a) = Inr f"
    using assms base by (auto simp: validate_share_def bitcoinbase_job_def split: sum.splits)
  have c: "check_fields a base f = None"
    using assms base f by (auto simp: validate_share_def bitcoinbase_job_def split: option.splits)
  obtain tx header where h: "share_header a base f = Inr (tx, header)"
    using assms base f c by (auto simp: validate_share_def bitcoinbase_job_def split: sum.splits)
  obtain d where d: "adapter_pow a header = Inr d"
    using assms base f c h by (auto simp: validate_share_def bitcoinbase_job_def split: sum.splits)
  obtain i where i: "adapter_identity a header = Inr i"
    using assms base f c h d by (auto simp: validate_share_def bitcoinbase_job_def split: sum.splits)
  show ?thesis
    using assms base f c h d i
    by (auto simp: validate_share_def bitcoinbase_job_def Let_def split: if_splits sum.splits
      intro!: exI [of _ base] exI [of _ f] exI [of _ tx] exI [of _ header] exI [of _ d] exI [of _ i])
qed


lemma assemble_block_header:
  assumes "assemble_block header tx j = Inr blk"
  shows "\<exists>rest. hex_decode blk = Some (header @ rest)"
proof -
  obtain n cb txs where "blk = hex_encode (append_var_int header n @ cb @ txs)"
    using assms by (auto simp: assemble_block_def split: sum.splits if_splits)
  then have "hex_decode blk = Some (header @ append_var_int [] n @ cb @ txs)"
    by (simp add: append_var_int_prefix [of header])
  then show ?thesis by blast
qed

text \<open>
  A share is judged on the miner's own work. When validation returns a verdict, the header it
  hashed has the merkle root of the job's coinbase completed with the session's extranonce1 and
  the submitted extranonce2, the submitted time (inside the template's window) and nonce; the
  share is valid exactly when that header's proof-of-work number is at most the worker's share
  target, a block candidate exactly when it is at most the network target, and a candidate's block
  starts with that very header.
\<close>

theorem share_verdict:
  assumes "validate_share a j s = Inr r"
  shows "\<exists>base (f :: submit_fields) tx header d. mj_base j = Some base
    \<and> hex_decode (su_extra_nonce1 s) = Some (sf_extra_nonce1 f)
    \<and> hex_decode (su_extra_nonce2 s) = Some (sf_extra_nonce2 f)
    \<and> parse_hex_u32_be (su_ntime s) = Inr (sf_ntime f) \<and> parse_hex_u32_be (su_nonce s) = Inr (sf_nonce f)
    \<and> tx = cp_coinb1 (jb_coinbase_parts base) @ sf_extra_nonce1 f @ sf_extra_nonce2 f @ cp_coinb2 (jb_coinbase_parts base)
    \<and> length header = 80
    \<and> hv_merkle (view_header header) = fold_branch (double_sha256 tx) (jb_merkle_branch_le base)
    \<and> hv_time (view_header header) = sf_ntime f \<and> hv_nonce (view_header header) = sf_nonce f
    \<and> (0 < jb_min_time base \<longrightarrow> jb_min_time base \<le> uint (sf_ntime f))
    \<and> uint (sf_ntime f) \<le> jb_cur_time base + 7200
    \<and> adapter_pow a header = Inr d
    \<and> (sr_valid r \<longleftrightarrow> be_val d \<le> difficulty_to_target (su_worker_diff s))
    \<and> (sr_block_candidate r \<longleftrightarrow> be_val d \<le> be_val (mj_network_target j))
    \<and> (sr_block_candidate r \<longrightarrow> (\<exists>rest. hex_decode (sr_block_hex r) = Some (header @ rest)))"
proof -
  obtain base f tx header d i where v: "mj_base j = Some base"
    "parse_submit_hex (su_extra_nonce1 s) (su_extra_nonce2 s) (su_ntime s) (su_nonce s)
        (su_version_bits s) (ad_en2_size a) = Inr f"
    "check_fields a base f = None" "share_header a base f = Inr (tx, header)"
    "adapter_pow a header = Inr d"
    "sr_valid r = meets_target (hash_to_big d) (difficulty_to_target (su_worker_diff s))"
    "sr_block_candidate r = meets_target (hash_to_big d) (be_val (mj_network_target j))"
    "if sr_block_candidate r
       then assemble_block header tx base = Inr (sr_block_hex r) \<and> sr_block_hash r = hex_encode (reverse_bytes i)
       else sr_block_hex r = [] \<and> sr_block_hash r = []"
    using validate_share_Inr [OF assms] by blast
  note f = parse_submit_hex_Inr [OF v(2)]
  note h = share_header_Inr [OF v(4)]
  note t = check_fields_None [OF v(3)]
  have tx: "tx = cp_coinb1 (jb_coinbase_parts base) @ sf_extra_nonce1 f @ sf_extra_nonce2 f @ cp_coinb2 (jb_coinbase_parts base)"
    using h(1) by (auto simp: assemble_def Let_def split: if_splits)
  obtain prev bver raw where b: "length (fold_branch (double_sha256 tx) (jb_merkle_branch_le base)) = 32"
      "hash_le_from_display_hex (jb_prev_hash_display base) = Inr prev" "length header = 80"
      "header = put_u32_le (header_version bver f (sp_mask (ad_spec a))) @ prev
        @ fold_branch (double_sha256 tx) (jb_merkle_branch_le base) @ put_u32_le (sf_ntime f)
        @ put_u32_le (get_u32_be raw) @ put_u32_le (sf_nonce f)"
    using build_header_Inr [OF h(2)] by blast
  have view: "hv_merkle (view_header header) = fold_branch (double_sha256 tx) (jb_merkle_branch_le base)
      \<and> hv_time (view_header header) = sf_ntime f \<and> hv_nonce (view_header header) = sf_nonce f"
    unfolding b(4) view_header_parts [OF hash_le_length [OF b(2)] b(1)] by simp
  have blk: "sr_block_candidate r \<longrightarrow> (\<exists>rest. hex_decode (sr_block_hex r) = Some (header @ rest))"
    using v(8) assemble_block_header by (auto split: if_splits)
  note sr = v(6,7) [unfolded meets_target_def hash_to_big_def]
  show ?thesis using v(1,5) sr f(1,2,4,5) tx b(3) view t(2,3) blk by blast
qed

text \<open>
  C17: what is compared with the targets, and what is shown. For every coin and every verdict there is a header of 80 bytes whose
  proof-of-work digest, read most significant byte first, decides: the share is valid exactly when it is at most the worker's share
  target, a block candidate exactly when it is at most the network target. A candidate's block starts with that header, and the hash reported
  for it is the header's identity digest reversed. For a coin whose identity hash is its proof-of-work hash, as Bitcoin's and Radiant's are but
  not Litecoin's or Scash's, it is therefore the displayed hash read backwards that is at most the network target; the displayed hash itself
  may exceed the target, as the witness shows.
\<close>

theorem candidate_hash_reversed:
  assumes "validate_share a j s = Inr r"
  shows "\<exists>header d i. length header = 80 \<and> adapter_pow a header = Inr d \<and> adapter_identity a header = Inr i
    \<and> (sr_valid r \<longleftrightarrow> be_val d \<le> difficulty_to_target (su_worker_diff s))
    \<and> (sr_block_candidate r \<longleftrightarrow> be_val d \<le> be_val (mj_network_target j))
    \<and> (sr_block_candidate r \<longrightarrow> (\<exists>rest. hex_decode (sr_block_hex r) = Some (header @ rest)) \<and> hex_decode (sr_block_hash r) = Some (rev i))
    \<and> (sr_block_candidate r \<and> adapter_identity a = adapter_pow a \<longrightarrow>
         (\<exists>shown. hex_decode (sr_block_hash r) = Some shown \<and> be_val (rev shown) \<le> be_val (mj_network_target j)))"
proof -
  obtain base f tx header d i where v: "share_header a base f = Inr (tx, header)" "adapter_pow a header = Inr d" "adapter_identity a header = Inr i"
    "sr_valid r = meets_target (hash_to_big d) (difficulty_to_target (su_worker_diff s))"
    "sr_block_candidate r = meets_target (hash_to_big d) (be_val (mj_network_target j))"
    "if sr_block_candidate r
       then assemble_block header tx base = Inr (sr_block_hex r) \<and> sr_block_hash r = hex_encode (reverse_bytes i)
       else sr_block_hex r = [] \<and> sr_block_hash r = []"
    using validate_share_Inr [OF assms] by blast
  have len: "length header = 80" using build_header_Inr [OF share_header_Inr(2) [OF v(1)]] by blast
  have blk: "\<exists>rest. hex_decode (sr_block_hex r) = Some (header @ rest)" "hex_decode (sr_block_hash r) = Some (rev i)" if "sr_block_candidate r"
    using v(6) that assemble_block_header by (auto simp: reverse_bytes_def)
  show ?thesis
    by (rule exI [of _ header], rule exI [of _ d], rule exI [of _ i])
      (use v(2-5) len blk in \<open>auto simp: meets_target_def hash_to_big_def\<close>)
qed

text \<open>A Radiant-like adapter on the sample job whose hash function is replaced by a constant
  digest, so that the verdict can be evaluated.\<close>

definition sample_adapter :: adapter where
  "sample_adapter = \<lparr>ad_spec = \<lparr>sp_name = ''Radiant'', sp_symbol = ''RXD'', sp_algo = ''sha512_256d'',
       sp_params = rxd_main_net, sp_pow = Some (\<lambda>h. Inr (replicate 31 0 @ [255])),
       sp_identity = Some (\<lambda>h. Inr (replicate 31 0 @ [255])), sp_mask = 0\<rparr>,
     ad_payout_script = [0x76, 0xa9, 0x88], ad_tag = ''/P/'', ad_en1_size = 4, ad_en2_size = 4\<rparr>"

definition sample_mining_job :: mining_job where
  "sample_mining_job = \<lparr>mj_job_id = ''1'', mj_pool_id = ''rxd'', mj_height = 840000, mj_clean_jobs = True,
     mj_network_target = replicate 30 0 @ [1, 0], mj_coinbase_value = 312500000,
     mj_notify_params = [], mj_base = Some sample_job\<rparr>"

definition sample_submit :: share_submit where
  "sample_submit = \<lparr>su_worker = ''a.rig'', su_job_id = ''1'', su_extra_nonce2 = ''0000002a'', su_ntime = ''6553f358'',
     su_nonce = ''00000007'', su_version_bits = [], su_extra_nonce1 = ''00000001'', su_worker_diff = 1,
     su_user_agent = [], su_remote_ip = []\<rparr>"

definition sample_rxd_fields :: submit_fields where
  "sample_rxd_fields = \<lparr>sf_extra_nonce1 = [0, 0, 0, 1], sf_extra_nonce2 = [0, 0, 0, 42],
     sf_ntime = 1700000600, sf_nonce = 7, sf_version_bits = 0, sf_has_version = False\<rparr>"

lemma sample_verdict:
  "\<exists>r. validate_share sample_adapter sample_mining_job sample_submit = Inr r \<and> sr_valid r \<and> sr_block_candidate r
    \<and> sr_block_hash r = hex_encode (255 # replicate 31 0)"
proof -
  have p: "parse_submit_hex (su_extra_nonce1 sample_submit) (su_extra_nonce2 sample_submit) (su_ntime sample_submit)
      (su_nonce sample_submit) (su_version_bits sample_submit) (ad_en2_size sample_adapter) = Inr sample_rxd_fields"
    by code_simp
  have c: "check_fields sample_adapter sample_job sample_rxd_fields = None" by code_simp
  obtain tx where tx: "assemble (jb_coinbase_parts sample_job) (sf_extra_nonce1 sample_rxd_fields)
      (sf_extra_nonce2 sample_rxd_fields) = Inr tx" "length tx = 89"
    by (simp add: assemble_def sample_job_def sample_parts_def sample_rxd_fields_def)
  have fields: "hash_le_from_display_hex (jb_prev_hash_display sample_job) = Inr (replicate 32 0)"
    "parse_hex_u32_be (jb_version_hex sample_job) = Inr 0x20000000"
    "hex_decode (jb_bits_hex sample_job) = Some [0x20, 0x7f, 0xff, 0xff]"
    "jb_merkle_branch_le sample_job = []" "jb_tx_data_hex sample_job = []" "jb_has_witness_commitment sample_job"
    by code_simp+
  obtain header where h: "build_header sample_job (fold_branch (double_sha256 tx) (jb_merkle_branch_le sample_job))
      sample_rxd_fields 0 = Inr header" "length header = 80"
    by (simp add: build_header_def fields Let_def)
  have sh: "share_header sample_adapter sample_job sample_rxd_fields = Inr (tx, header)"
    by (simp add: share_header_def tx(1) h(1) sample_adapter_def)
  obtain blk where blk: "assemble_block header tx sample_job = Inr blk"
    by (simp add: assemble_block_def h(2) fields witnessify_coinbase_def tx(2))
  have pw: "adapter_pow sample_adapter header = Inr (replicate 31 0 @ [255])"
    "adapter_identity sample_adapter header = Inr (replicate 31 0 @ [255])"
    by (simp_all add: adapter_pow_def adapter_identity_def sample_adapter_def)
  have m: "meets_target (hash_to_big (replicate 31 0 @ [255])) (be_val (mj_network_target sample_mining_job))"
    "meets_target (hash_to_big (replicate 31 0 @ [255])) (difficulty_to_target (su_worker_diff sample_submit))"
    "hex_encode (reverse_bytes (replicate 31 0 @ [255])) = hex_encode (255 # replicate 31 0)"
    by code_simp+
  have mb: "mj_base sample_mining_job = Some sample_job" by (simp add: sample_mining_job_def)
  show ?thesis
    by (simp add: validate_share_def p c sh pw m blk bitcoinbase_job_def mb Let_def)
qed

theorem share_verdict_witness:
  "\<exists>r base tx. validate_share sample_adapter sample_mining_job sample_submit = Inr r
    \<and> mj_base sample_mining_job = Some base
    \<and> tx = cp_coinb1 (jb_coinbase_parts base) @ [0, 0, 0, 1] @ [0, 0, 0, 42] @ cp_coinb2 (jb_coinbase_parts base)
    \<and> (\<exists>header rest. hex_decode (sr_block_hex r) = Some (header @ rest)
         \<and> hv_merkle (view_header header) = fold_branch (double_sha256 tx) (jb_merkle_branch_le base))"
proof -
  obtain r where r: "validate_share sample_adapter sample_mining_job sample_submit = Inr r" "sr_block_candidate r"
    using sample_verdict by blast
  have e: "hex_decode (su_extra_nonce1 sample_submit) = Some [0, 0, 0, 1]"
    "hex_decode (su_extra_nonce2 sample_submit) = Some [0, 0, 0, 42]" by code_simp+
  obtain base f tx header rest where v: "mj_base sample_mining_job = Some base"
    "[0, 0, 0, 1] = sf_extra_nonce1 (f :: submit_fields)" "[0, 0, 0, 42] = sf_extra_nonce2 f"
    "tx = cp_coinb1 (jb_coinbase_parts base) @ sf_extra_nonce1 f @ sf_extra_nonce2 f @ cp_coinb2 (jb_coinbase_parts base)"
    "hv_merkle (view_header header) = fold_branch (double_sha256 tx) (jb_merkle_branch_le base)"
    "hex_decode (sr_block_hex r) = Some (header @ rest)"
    using share_verdict [OF r(1)] r(2) unfolding e option.inject by blast
  show ?thesis using r(1) v by metis
qed

theorem candidate_hash_reversed_witness:
  "\<exists>r shown. validate_share sample_adapter sample_mining_job sample_submit = Inr r
    \<and> sr_block_candidate r \<and> hex_decode (sr_block_hash r) = Some shown
    \<and> be_val (rev shown) \<le> be_val (mj_network_target sample_mining_job)
    \<and> be_val (mj_network_target sample_mining_job) < be_val shown"
proof -
  obtain r where r: "validate_share sample_adapter sample_mining_job sample_submit = Inr r" "sr_block_candidate r"
      "sr_block_hash r = hex_encode (255 # replicate 31 0)"
    using sample_verdict by blast
  have i: "adapter_identity sample_adapter = adapter_pow sample_adapter"
    by (simp add: adapter_identity_def adapter_pow_def sample_adapter_def)
  have big: "be_val (mj_network_target sample_mining_job) < be_val (255 # replicate 31 0)" by code_simp
  have shown: "hex_decode (sr_block_hash r) = Some (255 # replicate 31 0)"
    unfolding r(3) by (rule hex_decode_encode)
  obtain x where "hex_decode (sr_block_hash r) = Some x" "be_val (rev x) \<le> be_val (mj_network_target sample_mining_job)"
    using candidate_hash_reversed [OF r(1)] i r(2) by blast
  with r(1,2) shown big show ?thesis by (metis option.inject)
qed


subsection \<open>What a job pays\<close>

lemma build_mining_job_Inr:
  assumes "build_mining_job a tpl = Inr j"
  shows "\<exists>t spec base tgt. parse_template (bt_raw tpl) = Inr t \<and> job_spec a t = Inr spec
    \<and> new_job [] t spec False = Inr base \<and> bits_to_target (tp_bits t) = Inr tgt
    \<and> target_to_bytes tgt = Inr (mj_network_target j) \<and> mj_base j = Some base
    \<and> mj_coinbase_value j = tp_coinbase_value t \<and> mj_height j = tp_height t"
  using assms by (auto simp: build_mining_job_def split: sum.splits)

lemma job_spec_Inr:
  assumes "job_spec a t = Inr spec"
  shows "cs_coinbase_value spec = tp_coinbase_value t \<and> cs_payout_script spec = ad_payout_script a
    \<and> length (cs_witness_commitment spec) \<le> length (tp_default_witness_commitment t)"
  using assms hex_decode_length [of "tp_default_witness_commitment t"]
  by (auto simp: job_spec_def Let_def split: if_splits option.splits)

text \<open>
  C38: every job pays the pool. Whatever extranonces the miners use, the coinbase completed from a
  job built on a daemon template is a transaction whose first output pays the template's whole
  coinbase value to the pool's script and whose outputs add up to that value, which is the reward
  recorded with the job; and the job's network target is the template's compact target.
\<close>

theorem job_pays_pool:
  assumes "build_mining_job a tpl = Inr j" and "mj_base j = Some base"
    and "assemble (jb_coinbase_parts base) en1 en2 = Inr tx"
    and "mj_coinbase_value j < 2 ^ 63" and "int (length (ad_payout_script a)) < 2 ^ 64"
    and "parse_template (bt_raw tpl) = Inr t" and "int (length (tp_default_witness_commitment t)) < 2 ^ 64"
  shows "\<exists>pc. parse_coinbase tx = Some pc
    \<and> hd (pc_outputs pc) = (tp_coinbase_value t, ad_payout_script a)
    \<and> (\<Sum>(v, s)\<leftarrow>pc_outputs pc. v) = mj_coinbase_value j
    \<and> (\<exists>nbits. hex_decode (tp_bits t) = Some (put_u32_be nbits)
        \<and> be_val (mj_network_target j) = compact_to_target nbits)"
proof -
  obtain spec b tgt where j: "job_spec a t = Inr spec" "new_job [] t spec False = Inr b"
    "bits_to_target (tp_bits t) = Inr tgt" "target_to_bytes tgt = Inr (mj_network_target j)"
    "mj_base j = Some b" "mj_coinbase_value j = tp_coinbase_value t"
    using build_mining_job_Inr [OF assms(1)] assms(6) by auto
  note sp = job_spec_Inr [OF j(1)]
  have b: "b = base" using j(5) assms(2) by simp
  obtain parts where parts: "build_coinbase spec = Inr parts" "jb_coinbase_parts base = parts"
    using new_job_Inr [OF j(2)] b by blast
  have "parse_coinbase tx = Some
      \<lparr>pc_version = (if cs_tx_version spec = 0 then 2 else cs_tx_version spec),
       pc_prevout = replicate 32 0, pc_prev_index = 0xffffffff,
       pc_script_sig = coinbase_script_sig spec en1 en2, pc_sequence = 0xffffffff,
       pc_outputs = coinbase_outputs spec, pc_locktime = 0\<rparr>"
    using coinbase_parse [OF parts(1) assms(3) [unfolded parts(2)]] sp assms(4,5,7) j(6) by auto
  moreover have "\<exists>nbits. hex_decode (tp_bits t) = Some (put_u32_be nbits)
        \<and> be_val (mj_network_target j) = compact_to_target nbits"
  proof -
    obtain raw where raw: "hex_decode (tp_bits t) = Some raw" "length raw = 4" "tgt = compact_to_target (get_u32_be raw)"
      using j(3) by (auto simp: bits_to_target_def split: option.splits if_splits)
    have "mj_network_target j = be_bytes 32 tgt" "0 \<le> tgt" "tgt < 2 ^ 256"
      using j(4) by (auto simp: target_to_bytes_def split: if_splits)
    then have "be_val (mj_network_target j) = compact_to_target (get_u32_be raw)"
      by (simp add: codec_simps flip: raw(3))
    with raw show ?thesis by (intro exI [of _ "get_u32_be raw"]) (simp add: codec_simps)
  qed
  ultimately show ?thesis using sp j(6) by (auto simp: coinbase_outputs_def)
qed

text \<open>
  The epoch that seeds Scash's RandomX is the floor of the header time over the epoch length,
  for negative times too, and the seed is the hash of its decimal text.
\<close>

theorem epoch_is_floor:
  "epoch_of t d = t div (if d \<le> 0 then default_epoch_duration else d)
   \<and> epoch_seed_hash t d = sha256 (bytes_of_string (''Scash/RandomX/Epoch/''
        @ dec_int (t div (if d \<le> 0 then default_epoch_duration else d))))"
proof -
  define k where "k = (if d \<le> 0 then default_epoch_duration else d)"
  have k: "0 < k" by (simp add: k_def default_epoch_duration_def)
  have "epoch_of t d = t div k"
  proof (cases "0 \<le> t")
    case True
    then show ?thesis by (simp add: epoch_of_def go_quot_def k_def [symmetric] Let_def)
  next
    case False
    define q where "q = (- t) div k"
    define r where "r = (- t) mod k"
    have qr: "- t = k * q + r" "0 \<le> r" "r < k" using k by (simp_all add: q_def r_def)
    have "t div k = (if r = 0 then - q else - q - 1)"
    proof (cases "r = 0")
      case True
      then have "t = (- q) * k" using qr(1) by (simp add: algebra_simps)
      then have "t div k = - q" using k by (metis less_irrefl nonzero_mult_div_cancel_right)
      then show ?thesis using True by simp
    next
      case False
      then have "t = (- q - 1) * k + (k - r)" using qr(1) by (simp add: algebra_simps)
      moreover have "0 \<le> k - r" "k - r < k" using qr False by simp_all
      ultimately show ?thesis using False k by (simp add: div_add1_eq)
    qed
    moreover have "t - k * (- q) = - r" using qr(1) by (simp add: algebra_simps)
    ultimately show ?thesis using False
      by (simp add: epoch_of_def go_quot_def k_def [symmetric] q_def [symmetric] Let_def)
  qed
  then show ?thesis unfolding k_def by (simp only: epoch_seed_hash_def)
qed


text \<open>The sample template at a target in range, for a pool whose script is the sample one.\<close>

definition sample_block_template :: block_template where
  "sample_block_template = \<lparr>bt_height = 840000, bt_prev_hash = replicate 64 CHR ''0'', bt_bits = ''207fffff'',
     bt_cur_time = 1700000600, bt_coinbase_value = 312500000, bt_raw = Some sample_template\<rparr>"

lemma sample_job_built:
  "\<exists>j base tx. build_mining_job sample_adapter sample_block_template = Inr j \<and> mj_base j = Some base
    \<and> mj_coinbase_value j = 312500000 \<and> assemble (jb_coinbase_parts base) [0, 0, 0, 1] [0, 0, 0, 42] = Inr tx"
proof -
  have "(case build_mining_job sample_adapter sample_block_template of Inl _ \<Rightarrow> False
    | Inr j \<Rightarrow> (case mj_base j of None \<Rightarrow> False
      | Some b \<Rightarrow> mj_coinbase_value j = 312500000
          \<and> (case assemble (jb_coinbase_parts b) [0, 0, 0, 1] [0, 0, 0, 42] of Inl _ \<Rightarrow> False | Inr _ \<Rightarrow> True)))"
    by code_simp
  then obtain j b where j: "build_mining_job sample_adapter sample_block_template = Inr j" "mj_base j = Some b"
    "mj_coinbase_value j = 312500000"
    and a: "case assemble (jb_coinbase_parts b) [0, 0, 0, 1] [0, 0, 0, 42] of Inl _ \<Rightarrow> False | Inr _ \<Rightarrow> True"
    by (cases "build_mining_job sample_adapter sample_block_template"; simp; cases "mj_base (projr (build_mining_job sample_adapter sample_block_template))"; simp)
  from a obtain tx where "assemble (jb_coinbase_parts b) [0, 0, 0, 1] [0, 0, 0, 42] = Inr tx"
    by (cases "assemble (jb_coinbase_parts b) [0, 0, 0, 1] [0, 0, 0, 42]"; simp)
  with j show ?thesis by blast
qed

theorem job_pays_pool_witness:
  "\<exists>pc tx. parse_coinbase tx = Some pc \<and> (\<Sum>(v, s)\<leftarrow>pc_outputs pc. v) = 312500000
    \<and> hd (pc_outputs pc) = (312500000, [0x76, 0xa9, 0x88])"
proof -
  obtain j base tx where j: "build_mining_job sample_adapter sample_block_template = Inr j" "mj_base j = Some base"
    "mj_coinbase_value j = 312500000" "assemble (jb_coinbase_parts base) [0, 0, 0, 1] [0, 0, 0, 42] = Inr tx"
    using sample_job_built by blast
  have t: "parse_template (bt_raw sample_block_template) = Inr sample_template" by code_simp
  have s: "ad_payout_script sample_adapter = [0x76, 0xa9, 0x88]" by (simp add: sample_adapter_def)
  from job_pays_pool [OF j(1,2,4) _ _ t] j(3) s show ?thesis by (auto simp: sample_template_def)
qed

end
