(* ===== verification/Jobs.thy ===== *)
theory Jobs
  imports Adapter
begin

text \<open>
  \<open>internal/jobs\<close>: the job manager of one pool (poll, remembered jobs, duplicate sets, the
  submit path and the events it records) and the registry of managers. A manager reaches its coin
  through the interface \<open>coins.CoinAdapter\<close>, here the record \<open>coin_adapter\<close> with the laws of
  the locale \<open>coin_jobs\<close>; \<open>bitcoinlike_coin\<close> is the instance every coin of the repository uses.
  Each critical section of the manager's mutex is one definition, so that the operations can be run
  whole (\<open>jobs_run\<close>) or interleaved (\<open>jobs_step\<close>). The calls that leave the package
  (\<open>BroadcastNotify\<close>, \<open>RecordShare\<close>, \<open>RecordBlock\<close>, the detached \<open>SubmitBlock\<close>) are the
  effects an operation returns, in order.
\<close>

record coin_adapter =
  ca_template :: "string + template option \<Rightarrow> adapter_error + block_template"
  ca_build :: "block_template \<Rightarrow> adapter_error + mining_job"
  ca_validate :: "mining_job \<Rightarrow> share_submit \<Rightarrow> adapter_error + share_result"

definition bitcoinlike_coin :: "adapter \<Rightarrow> coin_adapter" where
  "bitcoinlike_coin a =
     \<lparr>ca_template = get_block_template, ca_build = build_mining_job a, ca_validate = validate_share a\<rparr>"

record share_event =
  se_pool_id :: string
  se_block_height :: int
  se_share_diff :: f64
  se_worker_diff :: f64
  se_network_difficulty :: f64
  se_miner :: string
  se_worker :: string
  se_user_agent :: string
  se_ip_address :: string
  se_created :: int
  se_is_block_candidate :: bool

record block_event =
  be_pool_id :: string
  be_block_height :: int
  be_network_difficulty :: f64
  be_miner :: string
  be_worker :: string
  be_hash :: string
  be_reward_sats :: int
  be_created :: int

datatype submit_error =
    SeJobNotFound string
  | SeNoManager string
  | SeDuplicate
  | SeAdapter adapter_error
  | SeLowDifficulty share_result

datatype jobs_effect =
    EfNotify string "notify_param list"
  | EfSubmitBlock string string int
  | EfShare share_event
  | EfBlock block_event
  | EfReply share_submit "submit_error + share_result"

datatype poll_error = PollTemplate adapter_error | PollBuild adapter_error

record manager =
  mg_pool_id :: string
  mg_has_broadcaster :: bool
  mg_has_recorder :: bool
  mg_current :: "mining_job option"
  mg_by_id :: "string \<Rightarrow> mining_job option"
  mg_dup_by_job :: "string \<Rightarrow> string set option"
  mg_order :: "string list"
  mg_job_counter :: "64 word"
  mg_last_prev :: string
  mg_last_cur_time :: int
  mg_last_tx_count :: nat
  mg_last_value :: int

definition new_manager :: "string \<Rightarrow> manager" where
  "new_manager pool_id =
     \<lparr>mg_pool_id = pool_id, mg_has_broadcaster = False, mg_has_recorder = False, mg_current = None,
      mg_by_id = Map.empty, mg_dup_by_job = Map.empty, mg_order = [], mg_job_counter = 0,
      mg_last_prev = [], mg_last_cur_time = 0, mg_last_tx_count = 0, mg_last_value = 0\<rparr>"

definition set_broadcaster :: "manager \<Rightarrow> manager" where
  "set_broadcaster m = m\<lparr>mg_has_broadcaster := True\<rparr>"

definition set_recorder :: "manager \<Rightarrow> bool \<Rightarrow> manager" where
  "set_recorder m present = m\<lparr>mg_has_recorder := present\<rparr>"

abbreviation wired_manager :: "string \<Rightarrow> bool \<Rightarrow> manager" where
  "wired_manager pool_id recording \<equiv> set_recorder (new_manager pool_id) recording"

definition max_remembered_jobs :: nat where
  "max_remembered_jobs = 8"

text \<open>\<open>strconv.FormatUint(n, 16)\<close>.\<close>

function fmt_uint_16 :: "int \<Rightarrow> string" where
  "fmt_uint_16 n = (if n < 16 then [hex_digit n] else fmt_uint_16 (n div 16) @ [hex_digit (n mod 16)])"
  by pat_completeness auto
termination by (relation "measure nat") auto

declare fmt_uint_16.simps [simp del]

subsection \<open>Polling\<close>

definition tx_count :: "block_template \<Rightarrow> nat" where
  "tx_count tpl = (case bt_raw tpl of None \<Rightarrow> 0 | Some t \<Rightarrow> length (tp_transactions t))"

definition prev_changed :: "manager \<Rightarrow> block_template \<Rightarrow> bool" where
  "prev_changed m tpl = (bt_prev_hash tpl \<noteq> mg_last_prev m)"

definition poll_updated :: "manager \<Rightarrow> block_template \<Rightarrow> bool" where
  "poll_updated m tpl =
     (prev_changed m tpl \<or> bt_cur_time tpl \<noteq> mg_last_cur_time m \<or> tx_count tpl \<noteq> mg_last_tx_count m
      \<or> bt_coinbase_value tpl \<noteq> mg_last_value m)"

definition stamp_job :: "mining_job \<Rightarrow> string \<Rightarrow> string \<Rightarrow> bool \<Rightarrow> mining_job" where
  "stamp_job j pool_id job_id clean =
     (let j1 = j\<lparr>mj_job_id := job_id, mj_pool_id := pool_id, mj_clean_jobs := clean\<rparr>
      in case bitcoinbase_job j1 of Inl _ \<Rightarrow> j1
         | Inr base \<Rightarrow>
           let base1 = base\<lparr>jb_job_id := job_id, jb_clean_job := clean\<rparr>
           in j1\<lparr>mj_base := Some base1, mj_notify_params := notify_params base1\<rparr>)"

text \<open>The eviction loop: while more than the bound are remembered, the oldest goes, with its
  duplicate set.\<close>

fun evict :: "nat \<Rightarrow> manager \<Rightarrow> manager" where
  "evict 0 m = m"
| "evict (Suc k) m =
     (case mg_order m of [] \<Rightarrow> m
      | oldest # rest \<Rightarrow>
        evict k (m\<lparr>mg_by_id := (mg_by_id m)(oldest := None),
                   mg_dup_by_job := (mg_dup_by_job m)(oldest := None), mg_order := rest\<rparr>))"

text \<open>The second critical section of \<open>Poll\<close>.\<close>

definition publish_job :: "manager \<Rightarrow> block_template \<Rightarrow> bool \<Rightarrow> mining_job \<Rightarrow> manager \<times> mining_job" where
  "publish_job m tpl changed j =
     (let counter = mg_job_counter m + 1;
          job_id = fmt_uint_16 (uint counter);
          job = stamp_job j (mg_pool_id m) job_id changed;
          m1 = m\<lparr>mg_job_counter := counter, mg_current := Some job,
                 mg_by_id := (mg_by_id m)(job_id \<mapsto> job), mg_order := mg_order m @ [job_id]\<rparr>;
          m2 = evict (length (mg_order m1) - max_remembered_jobs) m1
      in (m2\<lparr>mg_last_prev := bt_prev_hash tpl, mg_last_cur_time := bt_cur_time tpl,
             mg_last_tx_count := tx_count tpl, mg_last_value := bt_coinbase_value tpl\<rparr>, job))"

definition poll ::
  "coin_adapter \<Rightarrow> manager \<Rightarrow> string + template option \<Rightarrow> manager \<times> jobs_effect list \<times> (poll_error + unit)" where
  "poll ca m rpc =
     (case ca_template ca rpc of Inl e \<Rightarrow> (m, [], Inl (PollTemplate e))
      | Inr tpl \<Rightarrow>
        if \<not> poll_updated m tpl then (m, [], Inr ())
        else case ca_build ca tpl of Inl e \<Rightarrow> (m, [], Inl (PollBuild e))
          | Inr j \<Rightarrow>
            let (m', job) = publish_job m tpl (prev_changed m tpl) j
            in (m', if mg_has_broadcaster m then [EfNotify (mg_pool_id m) (mj_notify_params job)] else [], Inr ()))"

definition current_notify :: "manager \<Rightarrow> notify_param list option" where
  "current_notify m =
     (case mg_current m of None \<Rightarrow> None
      | Some job \<Rightarrow>
        (case bitcoinbase_job job of
           Inr base \<Rightarrow> Some (notify_params (base\<lparr>jb_clean_job := True\<rparr>))
         | Inl _ \<Rightarrow> if mj_notify_params job \<noteq> [] then Some (mj_notify_params job) else None))"

definition get_job :: "manager \<Rightarrow> string \<Rightarrow> mining_job option" where
  "get_job m job_id = mg_by_id m job_id"

subsection \<open>Submitting\<close>

definition network_difficulty :: "mining_job \<Rightarrow> f64" where
  "network_difficulty j = (if mj_network_target j = [] then 0 else target_to_difficulty (be_val (mj_network_target j)))"

fun join :: "string \<Rightarrow> string list \<Rightarrow> string" where
  "join sep [] = []"
| "join sep [x] = x"
| "join sep (x # y # zs) = x @ sep @ join sep (y # zs)"

definition dup_key :: "share_submit \<Rightarrow> string" where
  "dup_key s = join '':'' [su_extra_nonce1 s, su_extra_nonce2 s, su_ntime s, su_nonce s, su_version_bits s]"

text \<open>The duplicate check: \<open>None\<close> when the key was already there. A missing set is made empty first.\<close>

definition seen_keys :: "manager \<Rightarrow> string \<Rightarrow> string set" where
  "seen_keys m job_id = (case mg_dup_by_job m job_id of None \<Rightarrow> {} | Some seen \<Rightarrow> seen)"

definition claim_share :: "manager \<Rightarrow> share_submit \<Rightarrow> manager option" where
  "claim_share m s =
     (let seen = seen_keys m (su_job_id s)
      in if dup_key s \<in> seen then None
         else Some (m\<lparr>mg_dup_by_job := (mg_dup_by_job m)(su_job_id s \<mapsto> insert (dup_key s) seen)\<rparr>))"

text \<open>\<open>strings.LastIndex(full, ".")\<close>.\<close>

fun last_index :: "char \<Rightarrow> string \<Rightarrow> nat option" where
  "last_index c [] = None"
| "last_index c (x # xs) =
     (case last_index c xs of Some i \<Rightarrow> Some (Suc i) | None \<Rightarrow> if x = c then Some 0 else None)"

definition split_worker :: "string \<Rightarrow> string \<times> string" where
  "split_worker full =
     (case last_index CHR ''.'' full of
        Some i \<Rightarrow> if 0 < i then (take i full, drop (i + 1) full) else (full, [])
      | None \<Rightarrow> (full, []))"

definition record_events ::
  "manager \<Rightarrow> mining_job \<Rightarrow> share_submit \<Rightarrow> share_result \<Rightarrow> f64 \<Rightarrow> int \<Rightarrow> jobs_effect list" where
  "record_events m job s r network_diff now =
     (if \<not> mg_has_recorder m then []
      else let (miner, worker) = split_worker (su_worker s) in
        EfShare \<lparr>se_pool_id = mg_pool_id m, se_block_height = mj_height job, se_share_diff = sr_share_diff r,
                 se_worker_diff = su_worker_diff s, se_network_difficulty = network_diff, se_miner = miner,
                 se_worker = worker, se_user_agent = su_user_agent s, se_ip_address = su_remote_ip s,
                 se_created = now, se_is_block_candidate = sr_block_candidate r\<rparr>
        # (if sr_block_candidate r
           then [EfBlock \<lparr>be_pool_id = mg_pool_id m, be_block_height = mj_height job,
                          be_network_difficulty = network_diff, be_miner = miner, be_worker = worker,
                          be_hash = sr_block_hash r, be_reward_sats = mj_coinbase_value job, be_created = now\<rparr>]
           else []))"

text \<open>Everything \<open>SubmitShare\<close> does after the duplicate check; it changes no state.\<close>

definition finish_share ::
  "coin_adapter \<Rightarrow> manager \<Rightarrow> mining_job \<Rightarrow> int \<Rightarrow> share_submit \<Rightarrow> jobs_effect list \<times> (submit_error + share_result)" where
  "finish_share ca m job now s =
     (case ca_validate ca job s of Inl e \<Rightarrow> ([], Inl (SeAdapter e))
      | Inr r \<Rightarrow>
        let block = (if sr_block_candidate r
                     then [EfSubmitBlock (sr_block_hash r) (sr_block_hex r) (mj_height job)] else [])
        in if \<not> sr_valid r \<and> \<not> sr_block_candidate r then (block, Inl (SeLowDifficulty r))
           else (block @ record_events m job s r (network_difficulty job) now, Inr r))"

definition submit_claimed ::
  "coin_adapter \<Rightarrow> manager \<Rightarrow> mining_job \<Rightarrow> int \<Rightarrow> share_submit \<Rightarrow> manager \<times> jobs_effect list \<times> (submit_error + share_result)" where
  "submit_claimed ca m job now s =
     (case claim_share m s of None \<Rightarrow> (m, [], Inl SeDuplicate)
      | Some m' \<Rightarrow> (m', finish_share ca m' job now s))"

definition submit_share ::
  "coin_adapter \<Rightarrow> manager \<Rightarrow> int \<Rightarrow> share_submit \<Rightarrow> manager \<times> jobs_effect list \<times> (submit_error + share_result)" where
  "submit_share ca m now s =
     (case get_job m (su_job_id s) of None \<Rightarrow> (m, [], Inl (SeJobNotFound (su_job_id s)))
      | Some job \<Rightarrow> submit_claimed ca m job now s)"

subsection \<open>The registry\<close>

type_synonym registry = "string \<Rightarrow> manager option"

definition registry_add :: "registry \<Rightarrow> manager \<Rightarrow> registry" where
  "registry_add r m = r(mg_pool_id m \<mapsto> m)"

definition registry_current_notify :: "registry \<Rightarrow> string \<Rightarrow> notify_param list option" where
  "registry_current_notify r pool_id = (case r pool_id of None \<Rightarrow> None | Some m \<Rightarrow> current_notify m)"

definition registry_submit_share ::
  "(string \<Rightarrow> coin_adapter) \<Rightarrow> registry \<Rightarrow> string \<Rightarrow> int \<Rightarrow> share_submit \<Rightarrow>
   registry \<times> jobs_effect list \<times> (submit_error + share_result)" where
  "registry_submit_share adapters r pool_id now s =
     (case r pool_id of None \<Rightarrow> (r, [], Inl (SeNoManager pool_id))
      | Some m \<Rightarrow>
        let (m', effects, result) = submit_share (adapters pool_id) m now s
        in (r(pool_id \<mapsto> m'), effects, result))"

definition registry_set_broadcaster :: "registry \<Rightarrow> registry" where
  "registry_set_broadcaster r pool_id = map_option set_broadcaster (r pool_id)"

definition registry_set_recorder :: "registry \<Rightarrow> bool \<Rightarrow> registry" where
  "registry_set_recorder r present pool_id = map_option (\<lambda>m. set_recorder m present) (r pool_id)"

subsection \<open>Job ids\<close>

lemma hex_digit_inj: "0 \<le> m \<Longrightarrow> m < 16 \<Longrightarrow> 0 \<le> n \<Longrightarrow> n < 16 \<Longrightarrow> hex_digit m = hex_digit n \<Longrightarrow> m = n"
  by (metis hex_val_hex_digit option.inject)

definition read_hex :: "string \<Rightarrow> int" where
  "read_hex s = foldl (\<lambda>a c. 16 * a + the (hex_val c)) 0 s"

lemma read_fmt_uint_16: "0 \<le> n \<Longrightarrow> read_hex (fmt_uint_16 n) = n"
proof (induction n rule: fmt_uint_16.induct)
  case (1 n)
  show ?case
  proof (cases "n < 16")
    case True
    with 1 show ?thesis by (subst fmt_uint_16.simps) (simp add: read_hex_def hex_val_hex_digit)
  next
    case False
    with 1 have "read_hex (fmt_uint_16 (n div 16)) = n div 16" by simp
    with False show ?thesis by (subst fmt_uint_16.simps) (simp add: read_hex_def hex_val_hex_digit)
  qed
qed

lemma fmt_uint_16_inj: "0 \<le> m \<Longrightarrow> 0 \<le> n \<Longrightarrow> fmt_uint_16 m = fmt_uint_16 n \<longleftrightarrow> m = n"
  by (metis read_fmt_uint_16)

text \<open>The id of the job published when the counter reads \<open>c\<close>, and the ids of the last \<open>n\<close>.\<close>

definition job_id_of :: "64 word \<Rightarrow> string" where
  "job_id_of c = fmt_uint_16 (uint c)"

lemma job_id_of_inj: "job_id_of c = job_id_of d \<longleftrightarrow> c = d"
  by (simp add: job_id_of_def fmt_uint_16_inj word_uint_eq_iff)

definition recent_ids :: "64 word \<Rightarrow> nat \<Rightarrow> string list" where
  "recent_ids c n = map (\<lambda>i. job_id_of (c - word_of_nat i)) (rev [0..<n])"

lemma length_recent_ids [simp]: "length (recent_ids c n) = n"
  by (simp add: recent_ids_def)

lemma recent_ids_Suc: "recent_ids (c + 1) (Suc n) = recent_ids c n @ [job_id_of (c + 1)]"
proof -
  have "rev [0..<Suc n] = map Suc (rev [0..<n]) @ [0]"
    by (simp only: rev_map [symmetric] map_Suc_upt rev.simps(2) [symmetric] upt_conv_Cons [OF zero_less_Suc, symmetric])
  then show ?thesis by (simp add: recent_ids_def del: upt_Suc)
qed

lemma recent_ids_tl: "recent_ids c (Suc n) = job_id_of (c - word_of_nat n) # recent_ids c n"
  by (simp add: recent_ids_def)

lemma word_of_nat_inj_64:
  assumes "i < 2 ^ 64" "j < 2 ^ 64" "(word_of_nat i :: 64 word) = word_of_nat j"
  shows "i = j"
proof -
  have "take_bit 64 i = take_bit 64 j"
    using arg_cong [OF assms(3), of unat] by (simp add: unsigned_of_nat)
  then show ?thesis using assms(1,2) by (simp add: take_bit_nat_eq_self)
qed

lemma uint_word_of_nat_64: "n < 2 ^ 64 \<Longrightarrow> uint (word_of_nat n :: 64 word) = int n"
  by (simp add: unsigned_of_nat take_bit_nat_eq_self)

lemma distinct_recent_ids: "n \<le> 2 ^ 64 \<Longrightarrow> distinct (recent_ids c n)"
  by (auto simp: recent_ids_def distinct_map job_id_of_inj inj_on_def intro: word_of_nat_inj_64)

subsection \<open>The manager's invariant\<close>

definition manager_inv :: "manager \<Rightarrow> bool" where
  "manager_inv m \<longleftrightarrow>
     length (mg_order m) \<le> max_remembered_jobs
     \<and> mg_order m = recent_ids (mg_job_counter m) (length (mg_order m))
     \<and> (\<forall>i. mg_by_id m i \<noteq> None \<longleftrightarrow> i \<in> set (mg_order m))
     \<and> (\<forall>i j. mg_by_id m i = Some j \<longrightarrow> mj_job_id j = i \<and> mj_pool_id j = mg_pool_id m
          \<and> (\<forall>b. mj_base j = Some b \<longrightarrow> jb_job_id b = i))
     \<and> mg_current m = (if mg_order m = [] then None else mg_by_id m (last (mg_order m)))"

lemma manager_inv_order:
  assumes "manager_inv m"
  shows "length (mg_order m) \<le> 8" and "distinct (mg_order m)" and "dom (mg_by_id m) = set (mg_order m)"
proof -
  show len: "length (mg_order m) \<le> 8" using assms by (simp add: manager_inv_def max_remembered_jobs_def)
  have "mg_order m = recent_ids (mg_job_counter m) (length (mg_order m))"
    using assms unfolding manager_inv_def by blast
  moreover have "distinct (recent_ids (mg_job_counter m) (length (mg_order m)))"
    by (rule distinct_recent_ids) (use len in simp)
  ultimately show "distinct (mg_order m)" by simp
  show "dom (mg_by_id m) = set (mg_order m)" using assms by (auto simp: manager_inv_def dom_def)
qed

lemma new_manager_inv: "manager_inv (new_manager p)"
  by (simp add: manager_inv_def new_manager_def recent_ids_def)

lemma stamp_job_fields [simp]:
  "mj_job_id (stamp_job j p i c) = i" "mj_pool_id (stamp_job j p i c) = p"
  "mj_clean_jobs (stamp_job j p i c) = c" "mj_height (stamp_job j p i c) = mj_height j"
  "mj_coinbase_value (stamp_job j p i c) = mj_coinbase_value j"
  "mj_network_target (stamp_job j p i c) = mj_network_target j"
  "mj_base (stamp_job j p i c) = map_option (\<lambda>b. b\<lparr>jb_job_id := i, jb_clean_job := c\<rparr>) (mj_base j)"
  by (simp_all add: stamp_job_def Let_def bitcoinbase_job_def split: option.splits)

text \<open>Publishing appends one id and, when eight are remembered, drops the oldest with its
  duplicate set.\<close>

definition drop_oldest :: "manager \<Rightarrow> string list \<Rightarrow> string list" where
  "drop_oldest m ids = (if length (mg_order m) < max_remembered_jobs then ids else tl ids)"

lemma publish_job_shape:
  assumes "manager_inv m" and "publish_job m tpl ch j = (m', job)"
  shows "job = stamp_job j (mg_pool_id m) (job_id_of (mg_job_counter m + 1)) ch"
    and "mg_job_counter m' = mg_job_counter m + 1" and "mg_pool_id m' = mg_pool_id m"
    and "mg_current m' = Some job" and "mg_has_recorder m' = mg_has_recorder m"
    and "mg_has_broadcaster m' = mg_has_broadcaster m"
    and "mg_order m' = drop_oldest m (mg_order m @ [job_id_of (mg_job_counter m + 1)])"
    and "mg_by_id m' = (if length (mg_order m) < max_remembered_jobs
           then (mg_by_id m)(job_id_of (mg_job_counter m + 1) \<mapsto> job)
           else ((mg_by_id m)(job_id_of (mg_job_counter m + 1) \<mapsto> job))(hd (mg_order m) := None))"
    and "mg_dup_by_job m' = (if length (mg_order m) < max_remembered_jobs then mg_dup_by_job m
           else (mg_dup_by_job m)(hd (mg_order m) := None))"
proof -
  have len: "length (mg_order m) \<le> 8" using manager_inv_order(1) [OF assms(1)] .
  consider (few) "length (mg_order m) < 8" | (full) x xs where "mg_order m = x # xs" "length xs = 7"
    using len by (cases "mg_order m") (auto simp: le_less)
  then have "job = stamp_job j (mg_pool_id m) (job_id_of (mg_job_counter m + 1)) ch
      \<and> mg_job_counter m' = mg_job_counter m + 1 \<and> mg_pool_id m' = mg_pool_id m
      \<and> mg_current m' = Some job \<and> mg_has_recorder m' = mg_has_recorder m
      \<and> mg_has_broadcaster m' = mg_has_broadcaster m
      \<and> mg_order m' = drop_oldest m (mg_order m @ [job_id_of (mg_job_counter m + 1)])
      \<and> mg_by_id m' = (if length (mg_order m) < max_remembered_jobs
           then (mg_by_id m)(job_id_of (mg_job_counter m + 1) \<mapsto> job)
           else ((mg_by_id m)(job_id_of (mg_job_counter m + 1) \<mapsto> job))(hd (mg_order m) := None))
      \<and> mg_dup_by_job m' = (if length (mg_order m) < max_remembered_jobs then mg_dup_by_job m
           else (mg_dup_by_job m)(hd (mg_order m) := None))"
  proof cases
    case few
    then show ?thesis using assms(2)
      by (auto simp: publish_job_def Let_def max_remembered_jobs_def drop_oldest_def job_id_of_def)
  next
    case full
    then have "length (mg_order m @ [job_id_of (mg_job_counter m + 1)]) - 8 = Suc 0" by simp
    with full assms(2) show ?thesis
      by (auto simp: publish_job_def Let_def max_remembered_jobs_def drop_oldest_def job_id_of_def)
  qed
  then show "job = stamp_job j (mg_pool_id m) (job_id_of (mg_job_counter m + 1)) ch"
    "mg_job_counter m' = mg_job_counter m + 1" "mg_pool_id m' = mg_pool_id m"
    "mg_current m' = Some job" "mg_has_recorder m' = mg_has_recorder m"
    "mg_has_broadcaster m' = mg_has_broadcaster m"
    "mg_order m' = drop_oldest m (mg_order m @ [job_id_of (mg_job_counter m + 1)])"
    "mg_by_id m' = (if length (mg_order m) < max_remembered_jobs
           then (mg_by_id m)(job_id_of (mg_job_counter m + 1) \<mapsto> job)
           else ((mg_by_id m)(job_id_of (mg_job_counter m + 1) \<mapsto> job))(hd (mg_order m) := None))"
    "mg_dup_by_job m' = (if length (mg_order m) < max_remembered_jobs then mg_dup_by_job m
           else (mg_dup_by_job m)(hd (mg_order m) := None))"
    by blast+
qed

lemma fresh_job_id:
  assumes "manager_inv m"
  shows "job_id_of (mg_job_counter m + 1) \<notin> set (mg_order m)"
proof -
  have o: "mg_order m = recent_ids (mg_job_counter m) (length (mg_order m))"
    using assms unfolding manager_inv_def by blast
  have "distinct (recent_ids (mg_job_counter m + 1) (Suc (length (mg_order m))))"
    by (rule distinct_recent_ids) (use manager_inv_order(1) [OF assms] in simp)
  then show ?thesis unfolding recent_ids_Suc using o by (metis distinct_append disjoint_iff list.set_intros(1))
qed

lemma publish_job_inv:
  assumes "manager_inv m" and "publish_job m tpl ch j = (m', job)"
  shows "manager_inv m'"
proof -
  note sh = publish_job_shape [OF assms]
  define n where "n = length (mg_order m)"
  define i where "i = job_id_of (mg_job_counter m + 1)"
  have n: "n \<le> 8" using manager_inv_order(1) [OF assms(1)] by (simp add: n_def)
  have o: "mg_order m = recent_ids (mg_job_counter m) n"
    using assms(1) unfolding manager_inv_def n_def by blast
  have fresh: "i \<notin> set (mg_order m)" using fresh_job_id [OF assms(1)] by (simp add: i_def)
  have d: "distinct (mg_order m)" by (rule manager_inv_order(2) [OF assms(1)])
  have by_id: "\<And>k. mg_by_id m k \<noteq> None \<longleftrightarrow> k \<in> set (mg_order m)"
    and stamped: "\<And>k x. mg_by_id m k = Some x \<Longrightarrow> mj_job_id x = k \<and> mj_pool_id x = mg_pool_id m
          \<and> (\<forall>b. mj_base x = Some b \<longrightarrow> jb_job_id b = k)"
    using assms(1) unfolding manager_inv_def by blast+
  have new: "mj_job_id job = i \<and> mj_pool_id job = mg_pool_id m \<and> (\<forall>b. mj_base job = Some b \<longrightarrow> jb_job_id b = i)"
    unfolding sh(1) i_def by auto
  show ?thesis
  proof (cases "n < 8")
    case True
    then have o': "mg_order m' = mg_order m @ [i]" and b': "mg_by_id m' = (mg_by_id m)(i \<mapsto> job)"
      using sh(7,8) by (simp_all add: drop_oldest_def n_def i_def max_remembered_jobs_def)
    show ?thesis unfolding manager_inv_def
    proof (intro conjI)
      show "mg_order m' = recent_ids (mg_job_counter m') (length (mg_order m'))"
        unfolding o' sh(2) using o recent_ids_Suc [of "mg_job_counter m" n] by (simp add: i_def n_def)
    qed (use True o' b' sh(3,4) by_id stamped new in \<open>auto simp: n_def max_remembered_jobs_def\<close>)
  next
    case False
    with n have "n = Suc 7" by simp
    then obtain x xs where xs: "mg_order m = x # xs" "length xs = 7" by (cases "mg_order m") (auto simp: n_def)
    then have o': "mg_order m' = xs @ [i]" and b': "mg_by_id m' = ((mg_by_id m)(i \<mapsto> job))(x := None)"
      using sh(7,8) by (simp_all add: drop_oldest_def i_def max_remembered_jobs_def)
    have xsr: "xs = recent_ids (mg_job_counter m) 7"
      using o xs(1) recent_ids_tl [of "mg_job_counter m" 7] \<open>n = Suc 7\<close> by simp
    have ne: "x \<notin> set xs" "x \<noteq> i" "i \<notin> set xs" using d xs(1) fresh by auto
    show ?thesis unfolding manager_inv_def
    proof (intro conjI)
      show "mg_order m' = recent_ids (mg_job_counter m') (length (mg_order m'))"
        unfolding o' sh(2) using recent_ids_Suc [of "mg_job_counter m" 7] xs(2) xsr by (simp add: i_def)
      show "\<forall>k. mg_by_id m' k \<noteq> None \<longleftrightarrow> k \<in> set (mg_order m')"
        unfolding b' o' using by_id xs(1) ne by auto
      show "mg_current m' = (if mg_order m' = [] then None else mg_by_id m' (last (mg_order m')))"
        unfolding b' o' sh(4) using ne by simp
    qed (use o' b' sh(3) xs(2) stamped new in \<open>auto simp: max_remembered_jobs_def\<close>)
  qed
qed

lemma poll_cases:
  assumes "poll ca m rpc = (m', effs, r)"
  obtains (idle) "m' = m" "effs = []"
    | (new) tpl j job where "ca_template ca rpc = Inr tpl" "ca_build ca tpl = Inr j"
        "publish_job m tpl (prev_changed m tpl) j = (m', job)" "r = Inr ()"
        "effs = (if mg_has_broadcaster m then [EfNotify (mg_pool_id m) (mj_notify_params job)] else [])"
  using assms by (auto simp: poll_def split: sum.splits if_splits prod.splits)

lemma poll_inv: "manager_inv m \<Longrightarrow> poll ca m rpc = (m', effs, r) \<Longrightarrow> manager_inv m'"
  by (erule poll_cases) (auto intro: publish_job_inv)

lemma claim_share_Some:
  assumes "claim_share m s = Some m'"
  shows "m' = m\<lparr>mg_dup_by_job := (mg_dup_by_job m)(su_job_id s \<mapsto> insert (dup_key s) (seen_keys m (su_job_id s)))\<rparr>"
    and "dup_key s \<notin> seen_keys m (su_job_id s)"
  using assms by (auto simp: claim_share_def Let_def split: if_splits)

lemma submit_claimed_inv:
  "manager_inv m \<Longrightarrow> submit_claimed ca m job now s = (m', effs, r) \<Longrightarrow> manager_inv m'"
  by (auto simp: submit_claimed_def manager_inv_def dest!: claim_share_Some(1) split: option.splits)

lemma submit_share_inv:
  "manager_inv m \<Longrightarrow> submit_share ca m now s = (m', effs, r) \<Longrightarrow> manager_inv m'"
  by (auto simp: submit_share_def intro: submit_claimed_inv split: option.splits)

subsection \<open>Interleaved submissions\<close>

text \<open>Submissions run on their connections' goroutines: the lookup of the job and the duplicate check
  are separate critical sections, with polls and other submissions in between. A polled job is
  published in one section, and only one goroutine polls a pool.\<close>

type_synonym inflight = "(share_submit \<times> mining_job) list"
type_synonym jobs_state = "manager \<times> inflight \<times> jobs_effect list"

inductive jobs_step :: "coin_adapter \<Rightarrow> jobs_state \<Rightarrow> jobs_state \<Rightarrow> bool" for ca where
  step_poll: "poll ca m rpc = (m', effs, r) \<Longrightarrow> jobs_step ca (m, fl, lg) (m', fl, lg @ effs)"
| step_missing: "get_job m (su_job_id s) = None \<Longrightarrow>
    jobs_step ca (m, fl, lg) (m, fl, lg @ [EfReply s (Inl (SeJobNotFound (su_job_id s)))])"
| step_lookup: "get_job m (su_job_id s) = Some job \<Longrightarrow> jobs_step ca (m, fl, lg) (m, (s, job) # fl, lg)"
| step_claimed: "submit_claimed ca m job now s = (m', effs, r) \<Longrightarrow>
    jobs_step ca (m, xs @ (s, job) # ys, lg) (m', xs @ ys, lg @ effs @ [EfReply s r])"
| step_broadcaster: "jobs_step ca (m, fl, lg) (set_broadcaster m, fl, lg)"
| step_recorder: "jobs_step ca (m, fl, lg) (set_recorder m p, fl, lg)"

inductive_cases jobs_stepE: "jobs_step ca (m, fl, lg) st"

abbreviation jobs_reach :: "coin_adapter \<Rightarrow> jobs_state \<Rightarrow> jobs_state \<Rightarrow> bool" where
  "jobs_reach ca \<equiv> (jobs_step ca)\<^sup>*\<^sup>*"

lemma set_wiring_inv [simp]:
  "manager_inv (set_broadcaster m) = manager_inv m" "manager_inv (set_recorder m p) = manager_inv m"
  by (simp_all add: manager_inv_def set_broadcaster_def set_recorder_def)

lemma jobs_step_inv: "jobs_step ca st st' \<Longrightarrow> manager_inv (fst st) \<Longrightarrow> manager_inv (fst st')"
  by (induction rule: jobs_step.induct) (auto intro: poll_inv submit_claimed_inv)

lemma jobs_reach_inv: "jobs_reach ca st st' \<Longrightarrow> manager_inv (fst st) \<Longrightarrow> manager_inv (fst st')"
  by (induction rule: rtranclp_induct) (auto intro: jobs_step_inv)

text \<open>
  Whatever the interleaving of polls and submissions, a pool remembers at most eight jobs, under
  distinct ids which are those of the last ones published; every remembered job carries the id and
  the pool it is filed under; and the job handed to a newly connected miner (with clean set) is the
  newest, is remembered, and is found again by the id it was announced with.
\<close>

theorem remembered_jobs:
  assumes "jobs_reach ca (wired_manager p w, [], []) (m, fl, lg)"
  shows "length (mg_order m) \<le> 8 \<and> distinct (mg_order m) \<and> dom (mg_by_id m) = set (mg_order m)
    \<and> mg_order m = map (\<lambda>i. fmt_uint_16 (uint (mg_job_counter m - word_of_nat i))) (rev [0..<length (mg_order m)])
    \<and> (\<forall>i j. get_job m i = Some j \<longrightarrow> mj_job_id j = i \<and> mj_pool_id j = mg_pool_id m)
    \<and> (\<forall>j b. mg_current m = Some j \<longrightarrow> mj_base j = Some b \<longrightarrow>
         get_job m (jb_job_id b) = Some j \<and> jb_job_id b = last (mg_order m)
         \<and> current_notify m = Some (notify_params (b\<lparr>jb_clean_job := True\<rparr>)))"
proof -
  have inv: "manager_inv m" using jobs_reach_inv [OF assms] new_manager_inv by simp
  have o: "mg_order m = map (\<lambda>i. fmt_uint_16 (uint (mg_job_counter m - word_of_nat i))) (rev [0..<length (mg_order m)])"
    using inv unfolding manager_inv_def recent_ids_def job_id_of_def by blast
  have stamped: "\<And>i j. mg_by_id m i = Some j \<Longrightarrow> mj_job_id j = i \<and> mj_pool_id j = mg_pool_id m
      \<and> (\<forall>b. mj_base j = Some b \<longrightarrow> jb_job_id b = i)"
    and cur: "mg_current m = (if mg_order m = [] then None else mg_by_id m (last (mg_order m)))"
    using inv unfolding manager_inv_def by blast+
  have "\<forall>j b. mg_current m = Some j \<longrightarrow> mj_base j = Some b \<longrightarrow>
         get_job m (jb_job_id b) = Some j \<and> jb_job_id b = last (mg_order m)
         \<and> current_notify m = Some (notify_params (b\<lparr>jb_clean_job := True\<rparr>))"
    using cur stamped
    by (auto simp: current_notify_def get_job_def bitcoinbase_job_def split: if_splits)
  with manager_inv_order [OF inv] o stamped show ?thesis
    unfolding get_job_def by (intro conjI) blast+
qed

subsection \<open>Submissions one at a time\<close>

datatype jobs_event = EvPoll "string + template option" | EvSubmit int share_submit

fun jobs_run :: "coin_adapter \<Rightarrow> manager \<Rightarrow> jobs_event list \<Rightarrow> manager \<times> jobs_effect list" where
  "jobs_run ca m [] = (m, [])"
| "jobs_run ca m (EvPoll rpc # evs) =
     (let (m1, effs, r) = poll ca m rpc; (m2, rest) = jobs_run ca m1 evs in (m2, effs @ rest))"
| "jobs_run ca m (EvSubmit now s # evs) =
     (let (m1, effs, r) = submit_share ca m now s; (m2, rest) = jobs_run ca m1 evs
      in (m2, effs @ EfReply s r # rest))"

fun accepted_keys :: "jobs_effect list \<Rightarrow> (string \<times> string) list" where
  "accepted_keys [] = []"
| "accepted_keys (EfReply s (Inr r) # es) = (su_job_id s, dup_key s) # accepted_keys es"
| "accepted_keys (e # es) = accepted_keys es"

lemma accepted_keys_append [simp]: "accepted_keys (xs @ ys) = accepted_keys xs @ accepted_keys ys"
  by (induction xs rule: accepted_keys.induct) auto

definition no_replies :: "jobs_effect list \<Rightarrow> bool" where
  "no_replies es \<longleftrightarrow> (\<forall>e \<in> set es. \<forall>s r. e \<noteq> EfReply s r)"

lemma no_replies_accepted: "no_replies es \<Longrightarrow> accepted_keys es = []"
  by (induction es rule: accepted_keys.induct) (auto simp: no_replies_def)

lemma poll_no_replies: "poll ca m rpc = (m', effs, r) \<Longrightarrow> no_replies effs"
  by (erule poll_cases) (auto simp: no_replies_def)

lemma jobs_run_inv: "jobs_run ca m evs = (m', lg) \<Longrightarrow> manager_inv m \<Longrightarrow> manager_inv m'"
  by (induction ca m evs arbitrary: lg rule: jobs_run.induct)
    (auto split: prod.splits dest: poll_inv submit_share_inv)

lemma finish_no_replies: "finish_share ca m job now s = (effs, r) \<Longrightarrow> no_replies effs"
  by (auto simp: finish_share_def record_events_def no_replies_def Let_def split: sum.splits if_splits prod.splits)

lemma submit_no_replies: "submit_share ca m now s = (m', effs, r) \<Longrightarrow> no_replies effs"
  by (auto simp: submit_share_def submit_claimed_def no_replies_def [of "[]"] dest: finish_no_replies
    split: option.splits)

text \<open>What the duplicate sets know of the keys accepted so far (\<open>ks\<close>): none belongs to a job not yet
  published, and those of a remembered job are in its set.\<close>

definition dup_inv :: "manager \<Rightarrow> (string \<times> string) set \<Rightarrow> bool" where
  "dup_inv m ks \<longleftrightarrow>
     (\<forall>i k. (i, k) \<in> ks \<longrightarrow> (\<exists>c. 0 < c \<and> c \<le> uint (mg_job_counter m) \<and> i = fmt_uint_16 c)
        \<and> (i \<in> set (mg_order m) \<longrightarrow> k \<in> seen_keys m i))
     \<and> dom (mg_dup_by_job m) \<subseteq> set (mg_order m)
     \<and> int (length (mg_order m)) \<le> uint (mg_job_counter m)"

lemma dup_invD:
  assumes "dup_inv m ks" "(i, k) \<in> ks"
  shows "\<exists>c. 0 < c \<and> c \<le> uint (mg_job_counter m) \<and> i = fmt_uint_16 c"
    and "i \<in> set (mg_order m) \<Longrightarrow> k \<in> seen_keys m i"
  using assms unfolding dup_inv_def by blast+

lemma remembered_id:
  assumes "manager_inv m" "dup_inv m ks" "get_job m i = Some job"
  shows "i \<in> set (mg_order m)" and "\<exists>c. 0 < c \<and> c \<le> uint (mg_job_counter m) \<and> i = fmt_uint_16 c"
proof -
  show mem: "i \<in> set (mg_order m)" using assms(1,3) by (auto simp: manager_inv_def get_job_def)
  have "i \<in> set (recent_ids (mg_job_counter m) (length (mg_order m)))"
    using mem assms(1) unfolding manager_inv_def by metis
  then obtain n where n: "n < length (mg_order m)" "i = job_id_of (mg_job_counter m - word_of_nat n)"
    by (auto simp: recent_ids_def)
  have le: "int n < uint (mg_job_counter m)" using n(1) assms(2) by (simp add: dup_inv_def)
  have u: "uint (word_of_nat n :: 64 word) = int n"
    using uint_word_of_nat_64 [of n] manager_inv_order(1) [OF assms(1)] n(1) by simp
  have "uint (mg_job_counter m - word_of_nat n) = uint (mg_job_counter m) - int n"
    using le u uint_sub_lem [of "word_of_nat n" "mg_job_counter m"] by simp
  then show "\<exists>c. 0 < c \<and> c \<le> uint (mg_job_counter m) \<and> i = fmt_uint_16 c"
    using n(2) le by (intro exI [of _ "uint (mg_job_counter m) - int n"]) (simp add: job_id_of_def)
qed

lemma dup_inv_submit:
  assumes inv: "manager_inv m" and dup: "dup_inv m ks" and sub: "submit_share ca m now s = (m', effs, r)"
  shows "(case r of Inl e \<Rightarrow> dup_inv m' ks
    | Inr _ \<Rightarrow> (su_job_id s, dup_key s) \<notin> ks \<and> dup_inv m' (insert (su_job_id s, dup_key s) ks))"
proof (cases "get_job m (su_job_id s)")
  case None
  then show ?thesis using sub dup by (auto simp: submit_share_def)
next
  case (Some job)
  note job = Some
  note rid = remembered_id [OF inv dup job]
  show ?thesis
  proof (cases "claim_share m s")
    case None
    then show ?thesis using sub dup job by (auto simp: submit_share_def submit_claimed_def)
  next
    case (Some m1)
    then have m1: "m1 = m\<lparr>mg_dup_by_job := (mg_dup_by_job m)(su_job_id s \<mapsto> insert (dup_key s) (seen_keys m (su_job_id s)))\<rparr>"
      and new: "dup_key s \<notin> seen_keys m (su_job_id s)"
      by (rule claim_share_Some)+
    have m': "m' = m1" using sub job Some by (auto simp: submit_share_def submit_claimed_def)
    have fresh: "(su_job_id s, dup_key s) \<notin> ks"
      using dup_invD(2) [OF dup _ rid(1)] new by blast
    have keys: "k \<in> seen_keys m' i"
      if mem: "(i, k) \<in> insert (su_job_id s, dup_key s) ks" "i \<in> set (mg_order m)" for i k
      using mem dup_invD(2) [OF dup, of i k] by (auto simp: m' m1 seen_keys_def)
    have ids: "\<exists>c. 0 < c \<and> c \<le> uint (mg_job_counter m) \<and> i = fmt_uint_16 c"
      if mem: "(i, k) \<in> insert (su_job_id s, dup_key s) ks" for i k
      using mem dup_invD(1) [OF dup, of i k] rid(2) by blast
    have same: "mg_order m' = mg_order m" "mg_job_counter m' = mg_job_counter m"
      "dom (mg_dup_by_job m') = insert (su_job_id s) (dom (mg_dup_by_job m))"
      by (auto simp: m' m1)
    have "dup_inv m' (insert (su_job_id s, dup_key s) ks)"
      unfolding dup_inv_def same
    proof (intro conjI)
      show "\<forall>i k. (i, k) \<in> insert (su_job_id s, dup_key s) ks \<longrightarrow>
          (\<exists>c. 0 < c \<and> c \<le> uint (mg_job_counter m) \<and> i = fmt_uint_16 c)
          \<and> (i \<in> set (mg_order m) \<longrightarrow> k \<in> seen_keys m' i)"
        using keys ids by blast
      show "insert (su_job_id s) (dom (mg_dup_by_job m)) \<subseteq> set (mg_order m)"
        using dup rid(1) by (simp add: dup_inv_def)
      show "int (length (mg_order m)) \<le> uint (mg_job_counter m)" using dup by (simp add: dup_inv_def)
    qed
    then show ?thesis using fresh by (auto simp: dup_inv_def split: sum.splits)
  qed
qed

lemma dup_inv_publish:
  assumes inv: "manager_inv m" and dup: "dup_inv m ks" and pub: "publish_job m tpl ch j = (m', job)"
    and room: "uint (mg_job_counter m) + 1 < 2 ^ 64"
  shows "dup_inv m' ks \<and> uint (mg_job_counter m') = uint (mg_job_counter m) + 1"
proof -
  note sh = publish_job_shape [OF inv pub]
  define i where "i = job_id_of (mg_job_counter m + 1)"
  have u: "uint (mg_job_counter m + 1) = uint (mg_job_counter m) + 1"
    using room uint_plus_if' [of "mg_job_counter m" 1] by simp
  have i: "i = fmt_uint_16 (uint (mg_job_counter m) + 1)" by (simp add: i_def job_id_of_def u)
  have d: "distinct (mg_order m)" by (rule manager_inv_order(2) [OF inv])
  have len: "int (length (mg_order m)) \<le> uint (mg_job_counter m)"
    and dd: "dom (mg_dup_by_job m) \<subseteq> set (mg_order m)" using dup by (simp_all add: dup_inv_def)
  have old: "k \<noteq> i" if mem: "(k, x) \<in> ks" for k x
  proof -
    obtain c where "0 < c" "c \<le> uint (mg_job_counter m)" "k = fmt_uint_16 c"
      using dup_invD(1) [OF dup mem] by blast
    then show ?thesis unfolding i by (simp add: fmt_uint_16_inj)
  qed
  have ids: "\<exists>c. 0 < c \<and> c \<le> uint (mg_job_counter m) + 1 \<and> k = fmt_uint_16 c" if mem: "(k, x) \<in> ks" for k x
    using dup_invD(1) [OF dup mem] by (auto intro: add_increasing2)
  have seen: "x \<in> seen_keys m k" if "(k, x) \<in> ks" "k \<in> set (mg_order m)" for k x
    by (rule dup_invD(2) [OF dup that])
  show ?thesis
  proof (cases "length (mg_order m) < max_remembered_jobs")
    case True
    then have o: "mg_order m' = mg_order m @ [i]" "mg_dup_by_job m' = mg_dup_by_job m"
      using sh(7,9) by (simp_all add: drop_oldest_def i_def)
    have "int (length (mg_order m)) + 1 \<le> uint (mg_job_counter m) + 1" using len by simp
    moreover have "x \<in> seen_keys m' k" if "(k, x) \<in> ks" "k \<in> set (mg_order m @ [i])" for k x
      using seen [OF that(1)] old [OF that(1)] that(2) by (simp add: seen_keys_def o(2))
    moreover have "dom (mg_dup_by_job m) \<subseteq> set (mg_order m @ [i])" using dd by auto
    ultimately show ?thesis unfolding dup_inv_def o sh(2) u using ids by simp
  next
    case False
    then have "mg_order m \<noteq> []" by (auto simp: max_remembered_jobs_def)
    then obtain x xs where xs: "mg_order m = x # xs" by (cases "mg_order m") auto
    with False have o: "mg_order m' = xs @ [i]" "mg_dup_by_job m' = (mg_dup_by_job m)(x := None)"
      using sh(7,9) by (simp_all add: drop_oldest_def i_def)
    have nx: "x \<notin> set xs" using d xs by simp
    have "int (length xs) + 1 \<le> uint (mg_job_counter m) + 1" using len xs by simp
    moreover have "y \<in> seen_keys m' k" if "(k, y) \<in> ks" "k \<in> set (xs @ [i])" for k y
      using seen [OF that(1)] old [OF that(1)] that(2) nx xs by (auto simp: seen_keys_def o(2))
    moreover have "dom ((mg_dup_by_job m)(x := None)) \<subseteq> set (xs @ [i])" using dd xs by auto
    ultimately show ?thesis unfolding dup_inv_def o sh(2) u using ids by simp
  qed
qed

lemma jobs_run_accepts_once:
  assumes "manager_inv m" and "dup_inv m ks" and "uint (mg_job_counter m) + int (length evs) < 2 ^ 64"
    and "jobs_run ca m evs = (m', lg)"
  shows "distinct (accepted_keys lg) \<and> set (accepted_keys lg) \<inter> ks = {}
    \<and> dom (mg_dup_by_job m') \<subseteq> set (mg_order m')"
  using assms
proof (induction ca m evs arbitrary: ks lg rule: jobs_run.induct)
  case (1 ca m)
  then show ?case by (auto simp: dup_inv_def)
next
  case (2 ca m rpc evs)
  obtain m1 effs r where p: "poll ca m rpc = (m1, effs, r)" by (cases "poll ca m rpc") auto
  obtain lg1 where run: "jobs_run ca m1 evs = (m', lg1)" "lg = effs @ lg1"
    using "2.prems"(4) p by (auto split: prod.splits)
  have d: "dup_inv m1 ks \<and> uint (mg_job_counter m1) \<le> uint (mg_job_counter m) + 1"
    using p "2.prems"(1,2,3) dup_inv_publish [OF "2.prems"(1,2)] by (elim poll_cases) auto
  have "distinct (accepted_keys lg1) \<and> set (accepted_keys lg1) \<inter> ks = {}
    \<and> dom (mg_dup_by_job m') \<subseteq> set (mg_order m')"
    using "2.IH" [OF p [symmetric] refl refl poll_inv [OF "2.prems"(1) p] conjunct1 [OF d] _ run(1)] d "2.prems"(3) by simp
  then show ?case using poll_no_replies [OF p] by (simp add: run(2) no_replies_accepted)
next
  case (3 ca m now s evs)
  obtain m1 effs r where p: "submit_share ca m now s = (m1, effs, r)" by (cases "submit_share ca m now s") auto
  obtain lg1 where run: "jobs_run ca m1 evs = (m', lg1)" "lg = effs @ EfReply s r # lg1"
    using "3.prems"(4) p by (auto split: prod.splits)
  have c: "mg_job_counter m1 = mg_job_counter m"
    using p by (auto simp: submit_share_def submit_claimed_def dest!: claim_share_Some(1) split: option.splits)
  note IH = "3.IH" [OF p [symmetric] refl refl submit_share_inv [OF "3.prems"(1) p] _ _ run(1)]
  note d = dup_inv_submit [OF "3.prems"(1,2) p]
  show ?case
  proof (cases r)
    case (Inl e)
    then show ?thesis using IH [of ks] d c "3.prems"(3) submit_no_replies [OF p]
      by (simp add: run(2) no_replies_accepted)
  next
    case (Inr x)
    then show ?thesis using IH [of "insert (su_job_id s, dup_key s) ks"] d c "3.prems"(3) submit_no_replies [OF p]
      by (simp add: run(2) no_replies_accepted)
  qed
qed

lemma wired_dup_inv: "dup_inv (wired_manager p w) {}"
  by (simp add: dup_inv_def set_recorder_def new_manager_def)

text \<open>
  C9: when submissions are handled one at a time, no share is accepted twice: in a run of fewer than
  2^64 polls and submissions, the (job id, duplicate key) pairs answered with success are pairwise
  distinct, and duplicate sets are kept for remembered jobs only, so their memory is bounded.
\<close>

theorem no_share_accepted_twice:
  assumes "jobs_run ca (wired_manager p w) evs = (m, lg)" and "int (length evs) < 2 ^ 64"
  shows "distinct (accepted_keys lg) \<and> dom (mg_dup_by_job m) \<subseteq> set (mg_order m)"
proof -
  have "manager_inv (wired_manager p w)" by (simp add: new_manager_inv)
  then show ?thesis
    using jobs_run_accepts_once [OF _ wired_dup_inv _ assms(1)] assms(2) by (simp add: new_manager_def set_recorder_def)
qed

subsection \<open>Limits of the duplicate check\<close>

text \<open>The duplicate check compares text, validation compares what the text decodes to.\<close>

definition same_work :: "share_submit \<Rightarrow> share_submit \<Rightarrow> bool" where
  "same_work s t \<longleftrightarrow>
     hex_decode (su_extra_nonce1 s) = hex_decode (su_extra_nonce1 t)
     \<and> hex_decode (su_extra_nonce2 s) = hex_decode (su_extra_nonce2 t)
     \<and> parse_hex_u32_be (su_ntime s) = parse_hex_u32_be (su_ntime t)
     \<and> parse_hex_u32_be (su_nonce s) = parse_hex_u32_be (su_nonce t)
     \<and> su_version_bits s = su_version_bits t \<and> su_worker_diff s = su_worker_diff t
     \<and> su_job_id s = su_job_id t"

lemma same_work_verdict:
  assumes "same_work s t"
  shows "validate_share a j s = validate_share a j t"
proof -
  have e: "hex_decode (su_extra_nonce1 s) = hex_decode (su_extra_nonce1 t)"
    "hex_decode (su_extra_nonce2 s) = hex_decode (su_extra_nonce2 t)"
    "parse_hex_u32_be (su_ntime s) = parse_hex_u32_be (su_ntime t)"
    "parse_hex_u32_be (su_nonce s) = parse_hex_u32_be (su_nonce t)"
    "su_version_bits s = su_version_bits t" "su_worker_diff s = su_worker_diff t"
    using assms by (simp_all add: same_work_def)
  show ?thesis unfolding validate_share_def parse_submit_hex_def e by (rule refl)
qed

lemma finish_valid:
  assumes "ca_validate ca j s = Inr r" and "sr_valid r"
  shows "\<exists>effs. finish_share ca m j now s = (effs, Inr r)"
  using assms by (simp add: finish_share_def Let_def)

lemma submit_claimed_valid:
  assumes "ca_validate ca j s = Inr r" and "sr_valid r" and "dup_key s \<notin> seen_keys m (su_job_id s)"
  shows "\<exists>m' effs. submit_claimed ca m j now s = (m', effs, Inr r) \<and> get_job m' = get_job m
    \<and> seen_keys m' (su_job_id s) = insert (dup_key s) (seen_keys m (su_job_id s))"
proof -
  let ?m = "m\<lparr>mg_dup_by_job := (mg_dup_by_job m)(su_job_id s \<mapsto> insert (dup_key s) (seen_keys m (su_job_id s)))\<rparr>"
  have "claim_share m s = Some ?m" using assms(3) by (simp add: claim_share_def)
  moreover have "get_job ?m = get_job m" by (simp add: get_job_def fun_eq_iff)
  moreover have "seen_keys ?m (su_job_id s) = insert (dup_key s) (seen_keys m (su_job_id s))"
    by (simp add: seen_keys_def)
  ultimately show ?thesis using finish_valid [OF assms(1,2), of ?m now] by (auto simp: submit_claimed_def)
qed

text \<open>
  The same work can be credited twice by changing the case of a hexadecimal digit: two
  submissions for a remembered job that decode to the same header but are spelled differently are
  both accepted, one after the other, with the same result, on every Bitcoin-like coin.
\<close>

theorem respelled_share_accepted_again:
  assumes "get_job m (su_job_id s) = Some j" and "validate_share a j s = Inr r" and "sr_valid r"
    and "same_work s t" and "dup_key s \<noteq> dup_key t"
    and "dup_key s \<notin> seen_keys m (su_job_id s)" and "dup_key t \<notin> seen_keys m (su_job_id s)"
  shows "\<exists>m' lg. jobs_run (bitcoinlike_coin a) m [EvSubmit now s, EvSubmit now t] = (m', lg)
    \<and> accepted_keys lg = [(su_job_id s, dup_key s), (su_job_id s, dup_key t)]
    \<and> EfReply s (Inr r) \<in> set lg \<and> EfReply t (Inr r) \<in> set lg"
proof -
  have ji: "su_job_id t = su_job_id s" using assms(4) by (simp add: same_work_def)
  have ca: "ca_validate (bitcoinlike_coin a) j s = Inr r" "ca_validate (bitcoinlike_coin a) j t = Inr r"
    using assms(2) same_work_verdict [OF assms(4)] by (simp_all add: bitcoinlike_coin_def)
  obtain m1 e1 where c1: "submit_claimed (bitcoinlike_coin a) m j now s = (m1, e1, Inr r)" "get_job m1 = get_job m"
    "seen_keys m1 (su_job_id s) = insert (dup_key s) (seen_keys m (su_job_id s))"
    using submit_claimed_valid [OF ca(1) assms(3,6)] by blast
  have "dup_key t \<notin> seen_keys m1 (su_job_id t)" using c1(3) ji assms(5,7) by auto
  from submit_claimed_valid [OF ca(2) assms(3) this]
  obtain m2 e2 where c2: "submit_claimed (bitcoinlike_coin a) m1 j now t = (m2, e2, Inr r)" by blast
  have one: "submit_share (bitcoinlike_coin a) m now s = (m1, e1, Inr r)"
    and two: "submit_share (bitcoinlike_coin a) m1 now t = (m2, e2, Inr r)"
    using c1(1,2) c2 assms(1) ji by (simp_all add: submit_share_def)
  have "accepted_keys (e1 @ EfReply s (Inr r) # e2 @ [EfReply t (Inr r)])
      = [(su_job_id s, dup_key s), (su_job_id s, dup_key t)]"
    using no_replies_accepted [OF submit_no_replies [OF one]] no_replies_accepted [OF submit_no_replies [OF two]] ji
    by simp
  then show ?thesis using one two by (simp add: ji)
qed

lemma polls_reach:
  "jobs_run ca m (map EvPoll rpcs) = (m', lg') \<Longrightarrow> jobs_reach ca (m, fl, lg) (m', fl, lg @ lg')"
proof (induction rpcs arbitrary: m lg lg')
  case (Cons rpc rpcs)
  obtain m1 effs r where p: "poll ca m rpc = (m1, effs, r)" by (cases "poll ca m rpc") auto
  obtain lg1 where "jobs_run ca m1 (map EvPoll rpcs) = (m', lg1)" "lg' = effs @ lg1"
    using Cons.prems p by (auto split: prod.splits)
  with Cons.IH [of m1 lg1 "lg @ effs"] show ?case
    using step_poll [OF p, of fl lg] by (auto intro: converse_rtranclp_into_rtranclp)
qed simp

lemma polls_accept_nothing: "jobs_run ca m (map EvPoll rpcs) = (m', lg') \<Longrightarrow> accepted_keys lg' = []"
  by (induction rpcs arbitrary: m lg') (auto split: prod.splits dest!: poll_no_replies simp: no_replies_accepted)

lemma poll_dup_order:
  assumes "manager_inv m" and "dom (mg_dup_by_job m) \<subseteq> set (mg_order m)" and "poll ca m rpc = (m', effs, r)"
  shows "dom (mg_dup_by_job m') \<subseteq> set (mg_order m')"
  using assms(3)
proof (cases rule: poll_cases)
  case (new tpl j job)
  note sh = publish_job_shape [OF assms(1) new(3)]
  show ?thesis
  proof (cases "length (mg_order m) < max_remembered_jobs")
    case True
    then show ?thesis using assms(2) sh(7,9) by (auto simp: drop_oldest_def)
  next
    case False
    then have "mg_order m \<noteq> []" by (auto simp: max_remembered_jobs_def)
    then show ?thesis using False assms(2) sh(7,9)
      by (cases "mg_order m") (auto simp: drop_oldest_def)
  qed
qed (use assms(2) in simp)

lemma polls_dup_order:
  assumes "manager_inv m" and "dom (mg_dup_by_job m) \<subseteq> set (mg_order m)"
    and "jobs_run ca m (map EvPoll rpcs) = (m', lg')"
  shows "manager_inv m' \<and> dom (mg_dup_by_job m') \<subseteq> set (mg_order m')"
  using assms
proof (induction rpcs arbitrary: m lg')
  case (Cons rpc rpcs)
  obtain m1 effs r where p: "poll ca m rpc = (m1, effs, r)" by (cases "poll ca m rpc") auto
  then obtain lg1 where "jobs_run ca m1 (map EvPoll rpcs) = (m', lg1)"
    using Cons.prems(3) by (auto split: prod.splits)
  then show ?case by (rule Cons.IH [OF poll_inv [OF Cons.prems(1) p] poll_dup_order [OF Cons.prems(1,2) p]])
qed simp

text \<open>
  The two critical sections of a submission race with eviction. If a share was accepted for a
  job and the job is then evicted by polls between another goroutine's lookup and its duplicate
  check, the same share is accepted a second time, and the duplicate set that check creates for the
  evicted job is never deleted.
\<close>

theorem late_claim_accepted_twice:
  assumes "jobs_run ca (wired_manager p w) evs = (m, lg)" and "int (length evs) < 2 ^ 64"
    and "(su_job_id s, dup_key s) \<in> set (accepted_keys lg)"
    and "get_job m (su_job_id s) = Some j" and "ca_validate ca j s = Inr r" and "sr_valid r"
    and "jobs_run ca m (map EvPoll rpcs) = (m', lg')" and "get_job m' (su_job_id s) = None"
  shows "\<exists>m'' lg''. jobs_reach ca (m, [], lg) (m'', [], lg'')
    \<and> accepted_keys lg'' = accepted_keys lg @ [(su_job_id s, dup_key s)] \<and> \<not> distinct (accepted_keys lg'')
    \<and> get_job m'' (su_job_id s) = None \<and> seen_keys m'' (su_job_id s) = {dup_key s}"
proof -
  have inv0: "manager_inv (wired_manager p w)" by (simp add: new_manager_inv)
  have "dom (mg_dup_by_job m) \<subseteq> set (mg_order m)"
    using jobs_run_accepts_once [OF inv0 wired_dup_inv _ assms(1)] assms(2) by (simp add: new_manager_def set_recorder_def)
  moreover have "manager_inv m" by (rule jobs_run_inv [OF assms(1) inv0])
  ultimately have inv: "manager_inv m'" "dom (mg_dup_by_job m') \<subseteq> set (mg_order m')"
    using polls_dup_order [OF _ _ assms(7)] by blast+
  have "su_job_id s \<notin> set (mg_order m')"
    using manager_inv_order(3) [OF inv(1)] assms(8) by (auto simp: get_job_def)
  with inv(2) have none: "seen_keys m' (su_job_id s) = {}" by (auto simp: seen_keys_def split: option.splits)
  obtain m2 effs where c: "submit_claimed ca m' j 0 s = (m2, effs, Inr r)" "get_job m2 = get_job m'"
    "seen_keys m2 (su_job_id s) = {dup_key s}"
    using submit_claimed_valid [OF assms(5,6), of m' 0] none by auto
  have "jobs_step ca (m, [], lg) (m, [(s, j)], lg)" by (rule step_lookup [OF assms(4)])
  moreover have "jobs_reach ca (m, [(s, j)], lg) (m', [(s, j)], lg @ lg')" by (rule polls_reach [OF assms(7)])
  moreover have "jobs_step ca (m', [(s, j)], lg @ lg') (m2, [], (lg @ lg') @ effs @ [EfReply s (Inr r)])"
    using step_claimed [OF c(1), of "[]" "[]" "lg @ lg'"] by simp
  ultimately have reach: "jobs_reach ca (m, [], lg) (m2, [], (lg @ lg') @ effs @ [EfReply s (Inr r)])"
    by (blast intro: converse_rtranclp_into_rtranclp rtranclp.rtrancl_into_rtrancl)
  have "no_replies effs"
    using c(1) by (auto simp: submit_claimed_def no_replies_def [of "[]"] dest: finish_no_replies split: option.splits)
  then have keys: "accepted_keys ((lg @ lg') @ effs @ [EfReply s (Inr r)]) = accepted_keys lg @ [(su_job_id s, dup_key s)]"
    by (simp add: no_replies_accepted polls_accept_nothing [OF assms(7)])
  have twice: "\<not> distinct (accepted_keys ((lg @ lg') @ effs @ [EfReply s (Inr r)]))"
    unfolding keys using assms(3) by simp
  have "get_job m2 (su_job_id s) = None" using c(2) assms(8) by simp
  with reach keys twice c(3) show ?thesis by blast
qed

subsection \<open>What is recorded\<close>

text \<open>The templates the daemon served in a run, and what it means that a remembered job or an effect
  stems from them.\<close>

definition served :: "coin_adapter \<Rightarrow> jobs_event list \<Rightarrow> block_template set" where
  "served ca evs = {tpl. \<exists>rpc. EvPoll rpc \<in> set evs \<and> ca_template ca rpc = Inr tpl}"

definition from_template :: "coin_adapter \<Rightarrow> block_template set \<Rightarrow> mining_job \<Rightarrow> bool" where
  "from_template ca ts job \<longleftrightarrow>
     (\<exists>tpl \<in> ts. \<exists>j p i c rpc. ca_template ca rpc = Inr tpl \<and> ca_build ca tpl = Inr j \<and> job = stamp_job j p i c)"

definition sourced :: "coin_adapter \<Rightarrow> block_template set \<Rightarrow> jobs_effect \<Rightarrow> bool" where
  "sourced ca ts e = (case e of
     EfReply s (Inr r) \<Rightarrow> (\<exists>tpl \<in> ts. \<exists>j. ca_build ca tpl = Inr j \<and> ca_validate ca j s = Inr r)
   | EfBlock b \<Rightarrow> (\<exists>tpl \<in> ts. be_reward_sats b = bt_coinbase_value tpl \<and> be_block_height b = bt_height tpl)
   | _ \<Rightarrow> True)"

lemma from_template_mono: "from_template ca ts job \<Longrightarrow> ts \<subseteq> us \<Longrightarrow> from_template ca us job"
  unfolding from_template_def by blast

lemma sourced_mono:
  assumes "sourced ca ts e" and "ts \<subseteq> us"
  shows "sourced ca us e"
proof (cases e)
  case (EfReply s x)
  then show ?thesis using assms by (cases x) (auto simp: sourced_def)
qed (use assms in \<open>auto simp: sourced_def\<close>)

lemma sourced_plain [simp]:
  "sourced ca ts (EfNotify p ps)" "sourced ca ts (EfSubmitBlock h x n)" "sourced ca ts (EfShare se)"
  "sourced ca ts (EfReply s (Inl err))"
  by (simp_all add: sourced_def)

text \<open>What the manager relies on of its coin: a job keeps the reward and height of its template, and
  stamping it changes no verdict.\<close>

locale coin_jobs =
  fixes ca :: coin_adapter
  assumes build_reward: "ca_build ca tpl = Inr j \<Longrightarrow> ca_template ca rpc = Inr tpl \<Longrightarrow>
      mj_coinbase_value j = bt_coinbase_value tpl \<and> mj_height j = bt_height tpl"
    and stamp_verdict: "ca_validate ca (stamp_job j p i c) s = ca_validate ca j s"
begin

lemma poll_sourced:
  assumes "poll ca m rpc = (m', effs, r)" and "manager_inv m"
    and "\<forall>i j. mg_by_id m i = Some j \<longrightarrow> from_template ca ts j"
    and "\<And>tpl. ca_template ca rpc = Inr tpl \<Longrightarrow> tpl \<in> ts"
  shows "(\<forall>i j. mg_by_id m' i = Some j \<longrightarrow> from_template ca ts j) \<and> (\<forall>e \<in> set effs. sourced ca ts e)"
  using assms(1)
proof (cases rule: poll_cases)
  case (new tpl j job)
  note sh = publish_job_shape [OF assms(2) new(3)]
  have "from_template ca ts job"
    unfolding from_template_def sh(1) using new(1,2) assms(4) by blast
  then show ?thesis using assms(3) sh(8) new(5) by auto
qed (use assms in simp)

lemma finish_sourced:
  assumes "finish_share ca m job now s = (effs, r)" and "from_template ca ts job"
  shows "(\<forall>e \<in> set effs. sourced ca ts e) \<and> sourced ca ts (EfReply s r)"
proof -
  obtain tpl j p i c rpc where t: "tpl \<in> ts" "ca_template ca rpc = Inr tpl" "ca_build ca tpl = Inr j"
      "job = stamp_job j p i c"
    using assms(2) unfolding from_template_def by blast
  have v: "ca_validate ca job s = ca_validate ca j s" by (simp add: t(4) stamp_verdict)
  have j: "mj_coinbase_value job = bt_coinbase_value tpl" "mj_height job = bt_height tpl"
    using build_reward [OF t(3,2)] by (simp_all add: t(4))
  have rec: "sourced ca ts e" if "e \<in> set (record_events m job s x d now)" for e x d
    using that t(1) j by (auto simp: record_events_def sourced_def split: if_splits prod.splits)
  have rep: "sourced ca ts (EfReply s (Inr x))" if "ca_validate ca job s = Inr x" for x
    using that t(1,3) v by (auto simp: sourced_def)
  show ?thesis
    using assms(1) rec rep by (auto simp: finish_share_def Let_def split: sum.splits if_splits)
qed

lemma submit_sourced:
  assumes "submit_share ca m now s = (m', effs, r)"
    and "\<forall>i j. mg_by_id m i = Some j \<longrightarrow> from_template ca ts j"
  shows "mg_by_id m' = mg_by_id m \<and> (\<forall>e \<in> set effs. sourced ca ts e) \<and> sourced ca ts (EfReply s r)"
proof (cases "get_job m (su_job_id s)")
  case None
  then show ?thesis using assms(1) by (auto simp: submit_share_def)
next
  case (Some job)
  then have ft: "from_template ca ts job" using assms(2) by (simp add: get_job_def)
  show ?thesis
  proof (cases "claim_share m s")
    case None
    then show ?thesis using assms(1) Some by (auto simp: submit_share_def submit_claimed_def)
  next
    case (Some m1)
    then have "m' = m1" "finish_share ca m1 job now s = (effs, r)"
      using assms(1) \<open>get_job m (su_job_id s) = Some job\<close> by (auto simp: submit_share_def submit_claimed_def)
    then show ?thesis using claim_share_Some(1) [OF Some] finish_sourced [OF _ ft] by auto
  qed
qed

lemma run_sourced:
  assumes "jobs_run ca m evs = (m', lg)" and "manager_inv m"
    and "\<forall>i j. mg_by_id m i = Some j \<longrightarrow> from_template ca ts j" and "served ca evs \<subseteq> ts"
  shows "\<forall>e \<in> set lg. sourced ca ts e"
  using assms
proof (induction evs arbitrary: m lg)
  case (Cons ev evs)
  have sub: "served ca evs \<subseteq> ts" using Cons.prems(4) by (auto simp: served_def)
  show ?case
  proof (cases ev)
    case (EvPoll rpc)
    obtain m1 effs r where p: "poll ca m rpc = (m1, effs, r)" by (cases "poll ca m rpc") auto
    obtain lg1 where run: "jobs_run ca m1 evs = (m', lg1)" "lg = effs @ lg1"
      using Cons.prems(1) p EvPoll by (auto split: prod.splits)
    have "\<And>tpl. ca_template ca rpc = Inr tpl \<Longrightarrow> tpl \<in> ts" using Cons.prems(4) EvPoll by (auto simp: served_def)
    note q = poll_sourced [OF p Cons.prems(2,3) this]
    then have "\<forall>e \<in> set lg1. sourced ca ts e"
      using Cons.IH [OF run(1) poll_inv [OF Cons.prems(2) p] _ sub] by blast
    with q run(2) show ?thesis by auto
  next
    case (EvSubmit now s)
    obtain m1 effs r where p: "submit_share ca m now s = (m1, effs, r)" by (cases "submit_share ca m now s") auto
    obtain lg1 where run: "jobs_run ca m1 evs = (m', lg1)" "lg = effs @ EfReply s r # lg1"
      using Cons.prems(1) p EvSubmit by (auto split: prod.splits)
    note q = submit_sourced [OF p Cons.prems(3)]
    then have "\<forall>e \<in> set lg1. sourced ca ts e"
      using Cons.IH [OF run(1) submit_share_inv [OF Cons.prems(2) p] _ sub] Cons.prems(3) by simp
    with q run(2) show ?thesis by auto
  qed
qed simp

end

lemma stamp_validate: "validate_share a (stamp_job j p i c) s = validate_share a j s"
proof (cases "mj_base j")
  case None
  then show ?thesis by (simp add: validate_share_def bitcoinbase_job_def)
next
  case (Some b)
  have c: "check_fields a (b\<lparr>jb_job_id := i, jb_clean_job := c\<rparr>) f = check_fields a b f" for f
    by (simp add: check_fields_def)
  have h: "share_header a (b\<lparr>jb_job_id := i, jb_clean_job := c\<rparr>) f = share_header a b f" for f
    by (simp add: share_header_def build_header_def Let_def cong: sum.case_cong option.case_cong if_cong)
  have bl: "assemble_block x y (b\<lparr>jb_job_id := i, jb_clean_job := c\<rparr>) = assemble_block x y b" for x y
    by (simp add: assemble_block_def cong: sum.case_cong if_cong)
  show ?thesis unfolding validate_share_def bitcoinbase_job_def stamp_job_fields Some option.map option.case sum.case c h bl
    by (rule refl)
qed

interpretation bl: coin_jobs "bitcoinlike_coin a" for a
proof
  fix tpl j rpc
  assume "ca_build (bitcoinlike_coin a) tpl = Inr j" "ca_template (bitcoinlike_coin a) rpc = Inr tpl"
  then show "mj_coinbase_value j = bt_coinbase_value tpl \<and> mj_height j = bt_height tpl"
    by (auto simp: bitcoinlike_coin_def get_block_template_def dest!: build_mining_job_Inr split: sum.splits)
qed (simp add: bitcoinlike_coin_def stamp_validate)

text \<open>
  C30: what a pool of a Bitcoin-like coin credits and records stems from the daemon. In any run, every
  accepted share was validated against the job built from a template the daemon had served, and every
  recorded block carries the height and the whole coinbase value of such a template as its reward.
\<close>

theorem recorded_blocks_are_served:
  assumes "jobs_run (bitcoinlike_coin a) (wired_manager p True) evs = (m, lg)"
  shows "(\<forall>b. EfBlock b \<in> set lg \<longrightarrow>
        (\<exists>tpl \<in> served (bitcoinlike_coin a) evs. be_reward_sats b = bt_coinbase_value tpl \<and> be_block_height b = bt_height tpl))
    \<and> (\<forall>s r. EfReply s (Inr r) \<in> set lg \<longrightarrow>
        (\<exists>tpl \<in> served (bitcoinlike_coin a) evs. \<exists>j. build_mining_job a tpl = Inr j \<and> validate_share a j s = Inr r))"
proof -
  have inv: "manager_inv (wired_manager p True)" by (simp add: new_manager_inv)
  have "mg_by_id (wired_manager p True) i = None" for i
    by (simp add: set_recorder_def new_manager_def)
  then have src: "\<forall>e \<in> set lg. sourced (bitcoinlike_coin a) (served (bitcoinlike_coin a) evs) e"
    using bl.run_sourced [OF assms inv, of "served (bitcoinlike_coin a) evs"] by simp
  show ?thesis
    using src by (fastforce simp: sourced_def bitcoinlike_coin_def)
qed

text \<open>The accepted submissions of a log, and what was recorded and sent to the daemon, in order.\<close>

fun accepted :: "jobs_effect list \<Rightarrow> (share_submit \<times> share_result) list" where
  "accepted [] = []"
| "accepted (EfReply s (Inr r) # es) = (s, r) # accepted es"
| "accepted (e # es) = accepted es"

fun share_events :: "jobs_effect list \<Rightarrow> share_event list" where
  "share_events [] = []"
| "share_events (EfShare e # es) = e # share_events es"
| "share_events (e # es) = share_events es"

fun block_events :: "jobs_effect list \<Rightarrow> block_event list" where
  "block_events [] = []"
| "block_events (EfBlock e # es) = e # block_events es"
| "block_events (e # es) = block_events es"

fun sent_blocks :: "jobs_effect list \<Rightarrow> (string \<times> string) list" where
  "sent_blocks [] = []"
| "sent_blocks (EfSubmitBlock h x n # es) = (h, x) # sent_blocks es"
| "sent_blocks (e # es) = sent_blocks es"

lemma log_append [simp]:
  "accepted (xs @ ys) = accepted xs @ accepted ys" "share_events (xs @ ys) = share_events xs @ share_events ys"
  "block_events (xs @ ys) = block_events xs @ block_events ys" "sent_blocks (xs @ ys) = sent_blocks xs @ sent_blocks ys"
  by (induction xs rule: accepted.induct; simp)+

definition share_matches :: "string \<Rightarrow> share_event \<Rightarrow> share_submit \<times> share_result \<Rightarrow> bool" where
  "share_matches p e sr \<longleftrightarrow> (case sr of (s, r) \<Rightarrow>
     se_pool_id e = p \<and> se_worker_diff e = su_worker_diff s \<and> se_share_diff e = sr_share_diff r
     \<and> (se_miner e, se_worker e) = split_worker (su_worker s) \<and> se_is_block_candidate e = sr_block_candidate r)"

definition block_matches :: "string \<Rightarrow> block_event \<Rightarrow> share_submit \<times> share_result \<Rightarrow> bool" where
  "block_matches p e sr \<longleftrightarrow> (case sr of (s, r) \<Rightarrow>
     be_pool_id e = p \<and> be_hash e = sr_block_hash r \<and> (be_miner e, be_worker e) = split_worker (su_worker s))"

definition candidates :: "(share_submit \<times> share_result) list \<Rightarrow> (share_submit \<times> share_result) list" where
  "candidates xs = [sr \<leftarrow> xs. sr_block_candidate (snd sr)]"

definition log_matches :: "string \<Rightarrow> jobs_effect list \<Rightarrow> bool" where
  "log_matches p lg \<longleftrightarrow>
     list_all2 (share_matches p) (share_events lg) (accepted lg)
     \<and> list_all2 (block_matches p) (block_events lg) (candidates (accepted lg))
     \<and> sent_blocks lg = map (\<lambda>(s, r). (sr_block_hash r, sr_block_hex r)) (candidates (accepted lg))"

lemma log_matches_append: "log_matches p xs \<Longrightarrow> log_matches p ys \<Longrightarrow> log_matches p (xs @ ys)"
  by (simp add: log_matches_def candidates_def list_all2_appendI)

lemma log_matches_plain: "log_matches p []" "log_matches p [EfNotify q ps]" "log_matches p [EfReply s (Inl e)]"
  by (simp_all add: log_matches_def candidates_def)

lemma finish_log:
  assumes "finish_share ca m job now s = (effs, r)" and "mg_has_recorder m"
  shows "log_matches (mg_pool_id m) (effs @ [EfReply s r])"
  using assms
  by (auto simp: finish_share_def record_events_def log_matches_def candidates_def share_matches_def block_matches_def Let_def
    split: sum.splits if_splits prod.splits)

lemma submit_log:
  assumes "submit_share ca m now s = (m', effs, r)" and "mg_has_recorder m"
  shows "log_matches (mg_pool_id m) (effs @ [EfReply s r]) \<and> mg_pool_id m' = mg_pool_id m \<and> mg_has_recorder m'"
  using assms finish_log claim_share_Some(1)
  by (fastforce simp: submit_share_def submit_claimed_def log_matches_plain split: option.splits)

lemma poll_log:
  assumes "poll ca m rpc = (m', effs, r)" and "mg_has_recorder m" and "manager_inv m"
  shows "log_matches p effs \<and> mg_pool_id m' = mg_pool_id m \<and> mg_has_recorder m'"
  using assms(1) by (cases rule: poll_cases) (use assms(2) publish_job_shape [OF assms(3)] log_matches_plain in auto)

lemma run_log:
  assumes "jobs_run ca m evs = (m', lg)" and "mg_has_recorder m" and "manager_inv m"
  shows "log_matches (mg_pool_id m) lg"
  using assms
proof (induction evs arbitrary: m lg)
  case (Cons ev evs)
  show ?case
  proof (cases ev)
    case (EvPoll rpc)
    obtain m1 effs r where p: "poll ca m rpc = (m1, effs, r)" by (cases "poll ca m rpc") auto
    obtain lg1 where run: "jobs_run ca m1 evs = (m', lg1)" "lg = effs @ lg1"
      using Cons.prems(1) p EvPoll by (auto split: prod.splits)
    note q = poll_log [OF p Cons.prems(2,3), of "mg_pool_id m"]
    with Cons.IH [OF run(1) _ poll_inv [OF Cons.prems(3) p]] show ?thesis
      unfolding run(2) by (simp add: log_matches_append)
  next
    case (EvSubmit now s)
    obtain m1 effs r where p: "submit_share ca m now s = (m1, effs, r)" by (cases "submit_share ca m now s") auto
    obtain lg1 where run: "jobs_run ca m1 evs = (m', lg1)" "lg = (effs @ [EfReply s r]) @ lg1"
      using Cons.prems(1) p EvSubmit by (auto split: prod.splits)
    note q = submit_log [OF p Cons.prems(2)]
    with Cons.IH [OF run(1) _ submit_share_inv [OF Cons.prems(3) p]] show ?thesis
      unfolding run(2) by (metis log_matches_append)
  qed
qed (simp add: log_matches_plain)

text \<open>
  C10: once a recorder is wired, the recorded events are exactly the accepted submissions: in any run
  there is one share event per accepted submission, in order, with the pool, the credited and achieved
  difficulty and the miner and worker of that submission; one block event per accepted block
  candidate; and the blocks sent to the daemon are exactly those candidates, once each and in order.
  A rejected, duplicate or stale submission leaves no trace.
\<close>

theorem recording_complete:
  assumes "jobs_run ca (wired_manager p True) evs = (m, lg)"
  shows "list_all2 (share_matches p) (share_events lg) (accepted lg)
    \<and> list_all2 (block_matches p) (block_events lg) (candidates (accepted lg))
    \<and> sent_blocks lg = map (\<lambda>(s, r). (sr_block_hash r, sr_block_hex r)) (candidates (accepted lg))"
proof -
  have "mg_has_recorder (wired_manager p True)" "manager_inv (wired_manager p True)"
    "mg_pool_id (wired_manager p True) = p"
    by (simp_all add: new_manager_inv) (simp_all add: set_recorder_def new_manager_def)
  then show ?thesis using run_log [OF assms] by (simp add: log_matches_def)
qed

subsection \<open>A sample pool\<close>

text \<open>A Radiant pool whose hash is the constant one of \<open>sample_adapter\<close>, on templates that differ in
  their time.\<close>

definition sample_rpc :: "int \<Rightarrow> string + template option" where
  "sample_rpc k = Inr (Some (sample_template\<lparr>tp_cur_time := 1700000600 + k\<rparr>))"

definition sample_pool :: manager where
  "sample_pool = fst (poll (bitcoinlike_coin sample_adapter) (wired_manager ''rxd'' True) (sample_rpc 0))"

text \<open>All of a submission that can be evaluated without hashing.\<close>

definition share_ready :: "adapter \<Rightarrow> mining_job \<Rightarrow> share_submit \<Rightarrow> bool" where
  "share_ready a j s \<longleftrightarrow>
     (case mj_base j of None \<Rightarrow> False
      | Some b \<Rightarrow>
        (case parse_submit_hex (su_extra_nonce1 s) (su_extra_nonce2 s) (su_ntime s) (su_nonce s)
             (su_version_bits s) (ad_en2_size a) of Inl _ \<Rightarrow> False
         | Inr f \<Rightarrow> check_fields a b f = None
           \<and> (case assemble (jb_coinbase_parts b) (sf_extra_nonce1 f) (sf_extra_nonce2 f) of Inl _ \<Rightarrow> False
              | Inr tx \<Rightarrow> 51 \<le> length tx)
           \<and> (case hash_le_from_display_hex (jb_prev_hash_display b) of Inl _ \<Rightarrow> False | Inr _ \<Rightarrow> True)
           \<and> (case parse_hex_u32_be (jb_version_hex b) of Inl _ \<Rightarrow> False | Inr _ \<Rightarrow> True)
           \<and> (case hex_decode (jb_bits_hex b) of None \<Rightarrow> False | Some raw \<Rightarrow> length raw = 4)
           \<and> jb_merkle_branch_le b = [] \<and> jb_tx_data_hex b = []))"

lemma share_ready_verdict:
  assumes "share_ready a j s" and "\<And>h. adapter_pow a h = Inr d" and "\<And>h. adapter_identity a h = Inr d"
    and "meets_target (hash_to_big d) (difficulty_to_target (su_worker_diff s))"
  shows "\<exists>r. validate_share a j s = Inr r \<and> sr_valid r"
proof -
  obtain b f tx prev ver raw where b: "mj_base j = Some b"
    and f: "parse_submit_hex (su_extra_nonce1 s) (su_extra_nonce2 s) (su_ntime s) (su_nonce s)
             (su_version_bits s) (ad_en2_size a) = Inr f" "check_fields a b f = None"
    and tx: "assemble (jb_coinbase_parts b) (sf_extra_nonce1 f) (sf_extra_nonce2 f) = Inr tx" "51 \<le> length tx"
    and h: "hash_le_from_display_hex (jb_prev_hash_display b) = Inr prev"
      "parse_hex_u32_be (jb_version_hex b) = Inr ver" "hex_decode (jb_bits_hex b) = Some raw" "length raw = 4"
    and e: "jb_merkle_branch_le b = []" "jb_tx_data_hex b = []"
    using assms(1) by (auto simp: share_ready_def split: option.splits sum.splits)
  have len: "length prev = 32" by (rule hash_le_length [OF h(1)])
  obtain header where bh: "build_header b (fold_branch (double_sha256 tx) (jb_merkle_branch_le b)) f (sp_mask (ad_spec a)) = Inr header"
      "length header = 80"
    by (simp add: build_header_def Let_def h e len)
  have sh: "share_header a b f = Inr (tx, header)" by (simp add: share_header_def tx(1) bh(1))
  obtain blk where blk: "assemble_block header tx b = Inr blk"
    using tx(2) by (cases "jb_has_witness_commitment b") (simp_all add: assemble_block_def bh(2) e witnessify_coinbase_def)
  show ?thesis
    using assms(4) by (simp add: validate_share_def bitcoinbase_job_def b f sh assms(2,3) blk Let_def)
qed

lemma sample_pow: "adapter_pow sample_adapter h = Inr (replicate 31 0 @ [255])"
  "adapter_identity sample_adapter h = Inr (replicate 31 0 @ [255])"
  by (simp_all add: adapter_pow_def adapter_identity_def sample_adapter_def)

lemma sample_pool_ready:
  "\<exists>j. get_job sample_pool ''1'' = Some j \<and> share_ready sample_adapter j sample_submit"
proof -
  have "(case get_job sample_pool ''1'' of None \<Rightarrow> False | Some j \<Rightarrow> share_ready sample_adapter j sample_submit)"
    by code_simp
  then show ?thesis by (cases "get_job sample_pool ''1''") auto
qed

definition respelled_submit :: share_submit where
  "respelled_submit = sample_submit\<lparr>su_ntime := ''6553F358''\<rparr>"

lemma sample_verdict_ok:
  "\<exists>j r. get_job sample_pool ''1'' = Some j \<and> validate_share sample_adapter j sample_submit = Inr r \<and> sr_valid r"
proof -
  have m: "meets_target (hash_to_big (replicate 31 0 @ [255])) (difficulty_to_target (su_worker_diff sample_submit))"
    by code_simp
  obtain j where j: "get_job sample_pool ''1'' = Some j" "share_ready sample_adapter j sample_submit"
    using sample_pool_ready by blast
  from share_ready_verdict [OF j(2) sample_pow m] j(1) show ?thesis by blast
qed

lemma sample_no_dups: "mg_dup_by_job sample_pool = Map.empty"
proof -
  let ?m0 = "wired_manager ''rxd'' True"
  have inv: "manager_inv ?m0" by (simp add: new_manager_inv)
  have none: "mg_dup_by_job ?m0 = Map.empty" "mg_order ?m0 = []"
    by (simp_all add: new_manager_def set_recorder_def)
  obtain m effs r where p: "poll (bitcoinlike_coin sample_adapter) ?m0 (sample_rpc 0) = (m, effs, r)"
    by (cases "poll (bitcoinlike_coin sample_adapter) ?m0 (sample_rpc 0)") auto
  from p have "mg_dup_by_job m = Map.empty"
  proof (cases rule: poll_cases)
    case (new tpl j job)
    show ?thesis unfolding publish_job_shape(9) [OF inv new(3)] none by (simp add: max_remembered_jobs_def)
  qed (simp add: none)
  then show ?thesis by (simp add: sample_pool_def p)
qed

lemma sample_fresh: "seen_keys sample_pool i = {}"
  by (simp add: seen_keys_def sample_no_dups)

definition claimed_pool :: manager where
  "claimed_pool = sample_pool\<lparr>mg_dup_by_job := [''1'' \<mapsto> {dup_key sample_submit}]\<rparr>"

lemma sample_accepted:
  "\<exists>e v. submit_share (bitcoinlike_coin sample_adapter) sample_pool 0 sample_submit = (claimed_pool, e, Inr v)"
proof -
  have ji: "su_job_id sample_submit = ''1''" by (simp add: sample_submit_def)
  obtain j v where j: "get_job sample_pool ''1'' = Some j" "validate_share sample_adapter j sample_submit = Inr v" "sr_valid v"
    using sample_verdict_ok by blast
  have "ca_validate (bitcoinlike_coin sample_adapter) j sample_submit = Inr v" using j(2) by (simp add: bitcoinlike_coin_def)
  then obtain e2 where e2: "finish_share (bitcoinlike_coin sample_adapter) claimed_pool j 0 sample_submit = (e2, Inr v)"
    using finish_valid [OF _ j(3)] by blast
  have "claim_share sample_pool sample_submit = Some claimed_pool"
    by (simp add: claim_share_def sample_fresh claimed_pool_def ji sample_no_dups)
  then show ?thesis using j(1) e2 by (simp add: submit_share_def submit_claimed_def ji)
qed

lemma sample_run:
  "\<exists>lg. jobs_run (bitcoinlike_coin sample_adapter) (wired_manager ''rxd'' True)
       [EvPoll (sample_rpc 0), EvSubmit 0 sample_submit] = (claimed_pool, lg)
    \<and> accepted_keys lg = [(''1'', dup_key sample_submit)]"
proof -
  obtain effs r where p: "poll (bitcoinlike_coin sample_adapter) (wired_manager ''rxd'' True) (sample_rpc 0) = (sample_pool, effs, r)"
    by (cases "poll (bitcoinlike_coin sample_adapter) (wired_manager ''rxd'' True) (sample_rpc 0)") (simp add: sample_pool_def)
  have ji: "su_job_id sample_submit = ''1''" by (simp add: sample_submit_def)
  obtain e2 v where two: "submit_share (bitcoinlike_coin sample_adapter) sample_pool 0 sample_submit = (claimed_pool, e2, Inr v)"
    using sample_accepted by blast
  show ?thesis using p two no_replies_accepted [OF poll_no_replies [OF p]] no_replies_accepted [OF submit_no_replies [OF two]]
    by (simp add: ji)
qed

theorem remembered_jobs_witness:
  "\<exists>fl lg. jobs_reach (bitcoinlike_coin sample_adapter) (wired_manager ''rxd'' True, [], []) (sample_pool, fl, lg)
    \<and> length (mg_order sample_pool) \<le> 8 \<and> dom (mg_by_id sample_pool) = set (mg_order sample_pool)"
proof -
  obtain effs r where p: "poll (bitcoinlike_coin sample_adapter) (wired_manager ''rxd'' True) (sample_rpc 0) = (sample_pool, effs, r)"
    by (cases "poll (bitcoinlike_coin sample_adapter) (wired_manager ''rxd'' True) (sample_rpc 0)") (simp add: sample_pool_def)
  have reach: "jobs_reach (bitcoinlike_coin sample_adapter) (wired_manager ''rxd'' True, [], []) (sample_pool, [], [] @ effs)"
    by (rule r_into_rtranclp) (rule step_poll [OF p])
  from remembered_jobs [OF this] reach show ?thesis by blast
qed

theorem no_share_accepted_twice_witness:
  "\<exists>m lg. jobs_run (bitcoinlike_coin sample_adapter) (wired_manager ''rxd'' True)
       [EvPoll (sample_rpc 0), EvSubmit 0 sample_submit] = (m, lg)
    \<and> distinct (accepted_keys lg) \<and> length (accepted_keys lg) = 1 \<and> dom (mg_dup_by_job m) \<subseteq> set (mg_order m)"
proof -
  obtain lg where r: "jobs_run (bitcoinlike_coin sample_adapter) (wired_manager ''rxd'' True)
       [EvPoll (sample_rpc 0), EvSubmit 0 sample_submit] = (claimed_pool, lg)"
    "accepted_keys lg = [(''1'', dup_key sample_submit)]" using sample_run by blast
  have "int (length [EvPoll (sample_rpc 0), EvSubmit 0 sample_submit]) < 2 ^ 64" by simp
  from no_share_accepted_twice [OF r(1) this] r show ?thesis by auto
qed

theorem respelled_share_accepted_again_witness:
  "\<exists>m lg. jobs_run (bitcoinlike_coin sample_adapter) sample_pool [EvSubmit 0 sample_submit, EvSubmit 0 respelled_submit] = (m, lg)
    \<and> length (accepted_keys lg) = 2"
proof -
  obtain j r where j: "get_job sample_pool ''1'' = Some j" "validate_share sample_adapter j sample_submit = Inr r" "sr_valid r"
    using sample_verdict_ok by blast
  have ji: "su_job_id sample_submit = ''1''" by (simp add: sample_submit_def)
  have w: "same_work sample_submit respelled_submit" by code_simp
  have k: "dup_key sample_submit \<noteq> dup_key respelled_submit" by code_simp
  show ?thesis
    using respelled_share_accepted_again [of sample_pool sample_submit, unfolded ji, OF j w k] sample_fresh
    by (metis empty_iff length_Cons list.size(3) numeral_2_eq_2)
qed

theorem recorded_blocks_are_served_witness:
  "\<exists>m lg. jobs_run (bitcoinlike_coin sample_adapter) (wired_manager ''rxd'' True)
      [EvPoll (sample_rpc 0), EvSubmit 0 sample_submit] = (m, lg)
    \<and> (\<forall>b. EfBlock b \<in> set lg \<longrightarrow> be_reward_sats b = 312500000)"
proof -
  let ?evs = "[EvPoll (sample_rpc 0), EvSubmit 0 sample_submit]"
  obtain m lg where r: "jobs_run (bitcoinlike_coin sample_adapter) (wired_manager ''rxd'' True) ?evs = (m, lg)"
    using sample_run by blast
  have "bt_coinbase_value tpl = 312500000" if "tpl \<in> served (bitcoinlike_coin sample_adapter) ?evs" for tpl
    using that by (auto simp: served_def bitcoinlike_coin_def sample_rpc_def get_block_template_def sample_template_def
        dest: parse_template_Inr(1) split: sum.splits)
  then have "be_reward_sats b = 312500000" if "EfBlock b \<in> set lg" for b
    using recorded_blocks_are_served [OF r] that by metis
  with r show ?thesis by blast
qed

theorem recording_complete_witness:
  "\<exists>m lg. jobs_run (bitcoinlike_coin sample_adapter) (wired_manager ''rxd'' True)
      [EvPoll (sample_rpc 0), EvSubmit 0 sample_submit] = (m, lg)
    \<and> length (share_events lg) = 1"
proof -
  obtain lg where r: "jobs_run (bitcoinlike_coin sample_adapter) (wired_manager ''rxd'' True)
      [EvPoll (sample_rpc 0), EvSubmit 0 sample_submit] = (claimed_pool, lg)"
    "accepted_keys lg = [(''1'', dup_key sample_submit)]" using sample_run by blast
  have "length (accepted es) = length (accepted_keys es)" for es by (induction es rule: accepted.induct) auto
  with recording_complete [OF r(1)] r show ?thesis by (auto dest!: list_all2_lengthD)
qed

lemma sample_evicted:
  "\<exists>m lg. jobs_run (bitcoinlike_coin sample_adapter) claimed_pool (map EvPoll (map sample_rpc [1..8])) = (m, lg)
    \<and> get_job m ''1'' = None"
proof -
  have "case jobs_run (bitcoinlike_coin sample_adapter) claimed_pool (map EvPoll (map sample_rpc [1..8])) of (m, lg) \<Rightarrow>
      mg_by_id m ''1'' = None" by code_simp
  then show ?thesis by (simp add: get_job_def split: prod.splits)
qed

theorem late_claim_accepted_twice_witness:
  "\<exists>lg0 m lg. jobs_reach (bitcoinlike_coin sample_adapter) (claimed_pool, [], lg0) (m, [], lg)
    \<and> seen_keys m ''1'' = {dup_key sample_submit} \<and> get_job m ''1'' = None \<and> \<not> distinct (accepted_keys lg)"
proof -
  obtain lg where r: "jobs_run (bitcoinlike_coin sample_adapter) (wired_manager ''rxd'' True)
       [EvPoll (sample_rpc 0), EvSubmit 0 sample_submit] = (claimed_pool, lg)"
    "accepted_keys lg = [(''1'', dup_key sample_submit)]" using sample_run by blast
  obtain j v where j: "get_job sample_pool ''1'' = Some j" "validate_share sample_adapter j sample_submit = Inr v" "sr_valid v"
    using sample_verdict_ok by blast
  obtain m' lg' where e: "jobs_run (bitcoinlike_coin sample_adapter) claimed_pool (map EvPoll (map sample_rpc [1..8])) = (m', lg')"
    "get_job m' ''1'' = None" using sample_evicted by blast
  have ji: "su_job_id sample_submit = ''1''" by (simp add: sample_submit_def)
  have v: "ca_validate (bitcoinlike_coin sample_adapter) j sample_submit = Inr v" using j(2) by (simp add: bitcoinlike_coin_def)
  have g: "get_job claimed_pool ''1'' = Some j" using j(1) by (simp add: claimed_pool_def get_job_def)
  have mem: "(''1'', dup_key sample_submit) \<in> set (accepted_keys lg)" by (simp add: r(2))
  have small: "int (length [EvPoll (sample_rpc 0), EvSubmit 0 sample_submit]) < 2 ^ 64" by simp
  from late_claim_accepted_twice [of "bitcoinlike_coin sample_adapter" "''rxd''" True, OF r(1) small, of sample_submit j v,
      unfolded ji, OF mem g v j(3) e]
  show ?thesis by blast
qed

end
