(* ===== verification/Config.thy ===== *)
theory Config
  imports Prelude GoFloat
begin

text \<open>
  \<open>internal/config\<close>: the configuration every process reads, its defaults and its validation, in the
  order of the code. Durations are nanoseconds; a decoded file is a \<open>config\<close> (JSON decoding itself and
  reading the file are not modelled). \<open>ToUpper\<close>, \<open>ToLower\<close> and \<open>EqualFold\<close> are those of
  ASCII strings. A \<open>*bool\<close> is a \<open>bool option\<close>.
\<close>

definition mode_all_in_one :: string where "mode_all_in_one = ''all-in-one''"
definition mode_master :: string where "mode_master = ''master''"
definition mode_regional :: string where "mode_regional = ''regional''"

record banning_config =
  ba_enabled :: bool
  ba_invalid_percent :: f64
  ba_check_threshold :: int
  ba_malformed_threshold :: int
  ba_failed_auth_threshold :: int
  ba_ban_duration :: int

record nats_config =
  na_enabled :: bool
  na_urls :: "string list"
  na_spool_dir :: string
  na_spool_max_bytes :: int

record api_config =
  ai_enabled :: bool
  ai_bind :: string
  ai_admin_token :: string

record logging_config =
  lo_level :: string
  lo_json :: bool

record port_config =
  pt_port :: int
  pt_pool_id :: string
  pt_vardiff :: bool
  pt_difficulty :: f64
  pt_min_diff :: f64
  pt_max_diff :: f64
  pt_tls :: bool

record stratum_config =
  sg_bind_address :: string
  sg_ports :: "port_config list"
  sg_max_conn_per_ip :: int
  sg_read_timeout :: int
  sg_max_line_bytes :: int
  sg_vardiff_target_interval :: int
  sg_vardiff_retarget_interval :: int
  sg_vardiff_variance_percent :: f64

record pool_config =
  pc_id :: string
  pc_enabled :: bool
  pc_coin_symbol :: string
  pc_payment_mode :: string
  pc_initial_state :: string
  pc_maintenance_message :: string
  pc_pool_fee_percent :: f64
  pc_address :: string
  pc_pplns_factor :: f64
  pc_reward_interval :: int
  pc_minimum_payment_sats :: int
  pc_payout_interval :: int
  pc_subtract_fee_from_miners :: "bool option"
  pc_coinbase_tag :: string
  pc_template_poll_interval :: int
  pc_error_backoff :: int

record postgres_config =
  pg_enabled :: bool
  pg_dsn :: string
  pg_share_queue_size :: int
  pg_share_batch_size :: int
  pg_share_flush_interval :: int
  pg_share_wal_path :: string
  pg_share_wal_max_bytes :: int

record coin_config =
  co_symbol :: string
  co_name :: string
  co_algo :: string
  co_rpc_url :: string
  co_rpc_user :: string
  co_rpc_password :: string
  co_network :: string
  co_maturity :: int
  co_orphan :: int
  co_randomx_epoch_duration :: int

record config =
  cf_mode :: string
  cf_region :: string
  cf_node_id :: string
  cf_logging :: logging_config
  cf_stratum :: stratum_config
  cf_pools :: "pool_config list"
  cf_coins :: "coin_config list"
  cf_postgres :: postgres_config
  cf_api :: api_config
  cf_nats :: nats_config
  cf_banning :: banning_config

fun coin_by_symbol :: "coin_config list \<Rightarrow> string \<Rightarrow> coin_config option" where
  "coin_by_symbol [] symbol = None"
| "coin_by_symbol (coin # coins) symbol =
     (if equal_fold (co_symbol coin) symbol then Some coin else coin_by_symbol coins symbol)"

fun pool_by_id :: "pool_config list \<Rightarrow> string \<Rightarrow> pool_config option" where
  "pool_by_id [] i = None"
| "pool_by_id (p # ps) i = (if pc_id p = i then Some p else pool_by_id ps i)"

subsection \<open>Defaults\<close>

definition pool_defaults :: "pool_config \<Rightarrow> pool_config" where
  "pool_defaults p =
     p\<lparr>pc_pplns_factor := (if pc_pplns_factor p \<le> 0 then 2 else pc_pplns_factor p),
       pc_reward_interval := (if pc_reward_interval p \<le> 0 then 30000000000 else pc_reward_interval p),
       pc_minimum_payment_sats := (if pc_minimum_payment_sats p \<le> 0 then 100000 else pc_minimum_payment_sats p),
       pc_payout_interval := (if pc_payout_interval p \<le> 0 then 600000000000 else pc_payout_interval p),
       pc_subtract_fee_from_miners :=
         (case pc_subtract_fee_from_miners p of None \<Rightarrow> Some True | Some b \<Rightarrow> Some b)\<rparr>"

definition pool_run_defaults :: "pool_config \<Rightarrow> pool_config" where
  "pool_run_defaults p =
     p\<lparr>pc_initial_state := (if pc_initial_state p = [] then ''active'' else pc_initial_state p),
       pc_template_poll_interval := (if pc_template_poll_interval p = 0 then 500000000 else pc_template_poll_interval p),
       pc_error_backoff := (if pc_error_backoff p = 0 then 15000000000 else pc_error_backoff p)\<rparr>"

definition coin_defaults :: "coin_config \<Rightarrow> coin_config" where
  "coin_defaults c =
     c\<lparr>co_maturity := (if co_maturity c \<le> 0 then 100 else co_maturity c),
       co_orphan := (if co_orphan c \<le> 0 then 12 else co_orphan c)\<rparr>"

definition stratum_defaults :: "stratum_config \<Rightarrow> stratum_config" where
  "stratum_defaults s =
     s\<lparr>sg_vardiff_target_interval :=
         (if sg_vardiff_target_interval s \<le> 0 then 10000000000 else sg_vardiff_target_interval s),
       sg_vardiff_retarget_interval :=
         (if sg_vardiff_retarget_interval s \<le> 0 then 60000000000 else sg_vardiff_retarget_interval s),
       sg_vardiff_variance_percent :=
         (if sg_vardiff_variance_percent s \<le> 0 then 30 else sg_vardiff_variance_percent s),
       sg_bind_address := (if sg_bind_address s = [] then ''0.0.0.0'' else sg_bind_address s),
       sg_max_line_bytes := (if sg_max_line_bytes s = 0 then 65536 else sg_max_line_bytes s),
       sg_read_timeout := (if sg_read_timeout s = 0 then 600000000000 else sg_read_timeout s)\<rparr>"

definition apply_defaults :: "config \<Rightarrow> config" where
  "apply_defaults c =
     c\<lparr>cf_stratum := stratum_defaults (cf_stratum c),
       cf_pools := map (pool_run_defaults \<circ> pool_defaults) (cf_pools c),
       cf_coins := map coin_defaults (cf_coins c),
       cf_mode := (if cf_mode c = [] then mode_all_in_one else cf_mode c),
       cf_logging := (cf_logging c)\<lparr>lo_level := (if lo_level (cf_logging c) = [] then ''info'' else lo_level (cf_logging c))\<rparr>\<rparr>"

subsection \<open>Validation\<close>

datatype config_error =
    InvalidMode string
  | RegionRequired
  | PoolEmptyId
  | DuplicatePool string
  | InvalidPaymentMode string string
  | CoinEmptySymbol
  | InvalidPort int
  | DuplicatePort int
  | PortNoPool int
  | PortUnknownPool int string
  | InvalidVardiff int
  | FixedDifficulty int
  | UnknownCoin string string
  | PostgresNoDsn
  | ApiNoBind
  | NatsNoUrls
  | MasterNeedsPostgres
  | MasterNeedsNats
  | RegionalNeedsNats

definition payment_mode_ok :: "string \<Rightarrow> bool" where
  "payment_mode_ok m \<longleftrightarrow> to_lower m \<in> {[], ''pplns'', ''prop'', ''solo''}"

fun check_pools :: "string list \<Rightarrow> pool_config list \<Rightarrow> config_error + string list" where
  "check_pools seen [] = Inr seen"
| "check_pools seen (p # ps) =
     (if pc_id p = [] then Inl PoolEmptyId
      else if pc_id p \<in> set seen then Inl (DuplicatePool (pc_id p))
      else if \<not> payment_mode_ok (pc_payment_mode p) then Inl (InvalidPaymentMode (pc_id p) (pc_payment_mode p))
      else check_pools (pc_id p # seen) ps)"

fun check_coins :: "string list \<Rightarrow> coin_config list \<Rightarrow> config_error + string list" where
  "check_coins symbols [] = Inr symbols"
| "check_coins symbols (c # cs) =
     (if co_symbol c = [] then Inl CoinEmptySymbol else check_coins (to_upper (co_symbol c) # symbols) cs)"

definition check_port :: "string list \<Rightarrow> int list \<Rightarrow> port_config \<Rightarrow> config_error option" where
  "check_port pool_ids seen p =
     (if pt_port p \<le> 0 \<or> pt_port p > 65535 then Some (InvalidPort (pt_port p))
      else if pt_port p \<in> set seen then Some (DuplicatePort (pt_port p))
      else if pt_pool_id p = [] then Some (PortNoPool (pt_port p))
      else if pt_pool_id p \<notin> set pool_ids then Some (PortUnknownPool (pt_port p) (pt_pool_id p))
      else if pt_vardiff p
           then (if pt_min_diff p \<le> 0 \<or> pt_max_diff p \<le> 0 \<or> pt_min_diff p > pt_max_diff p
                 then Some (InvalidVardiff (pt_port p)) else None)
      else if pt_difficulty p \<le> 0 then Some (FixedDifficulty (pt_port p)) else None)"

fun check_ports :: "string list \<Rightarrow> int list \<Rightarrow> port_config list \<Rightarrow> config_error + unit" where
  "check_ports pool_ids seen [] = Inr ()"
| "check_ports pool_ids seen (p # ps) =
     (case check_port pool_ids seen p of Some e \<Rightarrow> Inl e
      | None \<Rightarrow> check_ports pool_ids (pt_port p # seen) ps)"

fun check_references :: "string list \<Rightarrow> pool_config list \<Rightarrow> config_error + unit" where
  "check_references symbols [] = Inr ()"
| "check_references symbols (p # ps) =
     (if pc_coin_symbol p \<noteq> [] \<and> to_upper (pc_coin_symbol p) \<notin> set symbols
      then Inl (UnknownCoin (pc_id p) (pc_coin_symbol p)) else check_references symbols ps)"

definition check_services :: "config \<Rightarrow> config_error + unit" where
  "check_services c =
     (if pg_enabled (cf_postgres c) \<and> trim_space (pg_dsn (cf_postgres c)) = [] then Inl PostgresNoDsn
      else if ai_enabled (cf_api c) \<and> trim_space (ai_bind (cf_api c)) = [] then Inl ApiNoBind
      else if na_enabled (cf_nats c) \<and> na_urls (cf_nats c) = [] then Inl NatsNoUrls
      else if cf_mode c = mode_master \<and> \<not> pg_enabled (cf_postgres c) then Inl MasterNeedsPostgres
      else if cf_mode c = mode_master \<and> \<not> na_enabled (cf_nats c) then Inl MasterNeedsNats
      else if cf_mode c = mode_regional \<and> \<not> na_enabled (cf_nats c) then Inl RegionalNeedsNats
      else Inr ())"

definition validate :: "config \<Rightarrow> config_error + unit" where
  "validate c =
     (if cf_mode c \<notin> {mode_all_in_one, mode_master, mode_regional} then Inl (InvalidMode (cf_mode c))
      else if cf_mode c = mode_regional \<and> cf_region c = [] then Inl RegionRequired
      else case check_pools [] (cf_pools c) of Inl e \<Rightarrow> Inl e
      | Inr pool_ids \<Rightarrow>
        (case check_coins [] (cf_coins c) of Inl e \<Rightarrow> Inl e
         | Inr symbols \<Rightarrow>
           (case check_ports pool_ids [] (sg_ports (cf_stratum c)) of Inl e \<Rightarrow> Inl e
            | Inr _ \<Rightarrow>
              (case (if cf_coins c \<noteq> [] then check_references symbols (cf_pools c) else Inr ()) of Inl e \<Rightarrow> Inl e
               | Inr _ \<Rightarrow> check_services c))))"

text \<open>\<open>Load\<close>, from the decoded file.\<close>

definition load_config :: "config \<Rightarrow> config_error + config" where
  "load_config raw = (let c = apply_defaults raw in case validate c of Inl e \<Rightarrow> Inl e | Inr _ \<Rightarrow> Inr c)"

subsection \<open>What a valid configuration is\<close>

definition port_ok :: "string set \<Rightarrow> port_config \<Rightarrow> bool" where
  "port_ok ids p \<longleftrightarrow> 0 < pt_port p \<and> pt_port p \<le> 65535 \<and> pt_pool_id p \<noteq> [] \<and> pt_pool_id p \<in> ids
     \<and> (if pt_vardiff p then 0 < pt_min_diff p \<and> pt_min_diff p \<le> pt_max_diff p else 0 < pt_difficulty p)"

definition pools_ok :: "pool_config list \<Rightarrow> bool" where
  "pools_ok ps \<longleftrightarrow> distinct (map pc_id ps) \<and> (\<forall>p \<in> set ps. pc_id p \<noteq> [] \<and> payment_mode_ok (pc_payment_mode p))"

definition coins_resolve :: "config \<Rightarrow> bool" where
  "coins_resolve c \<longleftrightarrow> (\<forall>p \<in> set (cf_pools c). pc_coin_symbol p = [] \<or> coin_by_symbol (cf_coins c) (pc_coin_symbol p) \<noteq> None)"

definition services_ok :: "config \<Rightarrow> bool" where
  "services_ok c \<longleftrightarrow>
     (pg_enabled (cf_postgres c) \<longrightarrow> trim_space (pg_dsn (cf_postgres c)) \<noteq> [])
     \<and> (ai_enabled (cf_api c) \<longrightarrow> trim_space (ai_bind (cf_api c)) \<noteq> [])
     \<and> (na_enabled (cf_nats c) \<longrightarrow> na_urls (cf_nats c) \<noteq> [])
     \<and> (cf_mode c = mode_master \<longrightarrow> pg_enabled (cf_postgres c) \<and> na_enabled (cf_nats c))
     \<and> (cf_mode c = mode_regional \<longrightarrow> na_enabled (cf_nats c) \<and> cf_region c \<noteq> [])"

definition config_ok :: "config \<Rightarrow> bool" where
  "config_ok c \<longleftrightarrow> cf_mode c \<in> {mode_all_in_one, mode_master, mode_regional} \<and> pools_ok (cf_pools c)
     \<and> (\<forall>k \<in> set (cf_coins c). co_symbol k \<noteq> [])
     \<and> distinct (map pt_port (sg_ports (cf_stratum c)))
     \<and> (\<forall>p \<in> set (sg_ports (cf_stratum c)). port_ok (pc_id ` set (cf_pools c)) p)
     \<and> (cf_coins c \<noteq> [] \<longrightarrow> coins_resolve c) \<and> services_ok c"

lemma mode_distinct [simp]:
  "mode_all_in_one \<noteq> mode_master" "mode_all_in_one \<noteq> mode_regional" "mode_master \<noteq> mode_regional"
  "mode_master \<noteq> mode_all_in_one" "mode_regional \<noteq> mode_all_in_one" "mode_regional \<noteq> mode_master"
  by (simp_all add: mode_all_in_one_def mode_master_def mode_regional_def)

lemma check_pools_ok:
  "check_pools seen ps = Inr ids \<longleftrightarrow>
     pools_ok ps \<and> (\<forall>p \<in> set ps. pc_id p \<notin> set seen) \<and> ids = rev (map pc_id ps) @ seen"
proof (induction ps arbitrary: seen)
  case (Cons p ps)
  have "p' \<in> set ps \<Longrightarrow> pc_id p \<notin> pc_id ` set ps \<Longrightarrow> pc_id p' \<noteq> pc_id p" for p' by (auto simp: image_iff)
  with Cons [of "pc_id p # seen"] show ?case by (auto simp: pools_ok_def)
qed (auto simp: pools_ok_def)

lemma check_coins_ok:
  "check_coins symbols cs = Inr out \<longleftrightarrow>
     (\<forall>k \<in> set cs. co_symbol k \<noteq> []) \<and> out = rev (map (to_upper \<circ> co_symbol) cs) @ symbols"
  by (induction cs arbitrary: symbols) auto

lemma check_port_ok: "check_port ids seen p = None \<longleftrightarrow> port_ok (set ids) p \<and> pt_port p \<notin> set seen"
  by (auto simp: check_port_def port_ok_def)

lemma check_ports_ok:
  "check_ports ids seen ps = Inr () \<longleftrightarrow>
     distinct (map pt_port ps) \<and> (\<forall>p \<in> set ps. port_ok (set ids) p \<and> pt_port p \<notin> set seen)"
proof (induction ps arbitrary: seen)
  case (Cons p ps)
  have "p' \<in> set ps \<Longrightarrow> pt_port p \<notin> pt_port ` set ps \<Longrightarrow> pt_port p' \<noteq> pt_port p" for p' by (auto simp: image_iff)
  with Cons [of "pt_port p # seen"] check_port_ok [of ids seen p] show ?case
    by (cases "check_port ids seen p") auto
qed simp

lemma check_references_ok:
  "check_references symbols ps = Inr () \<longleftrightarrow>
     (\<forall>p \<in> set ps. pc_coin_symbol p = [] \<or> to_upper (pc_coin_symbol p) \<in> set symbols)"
  by (induction ps) auto

lemma check_services_ok:
  "cf_mode c = mode_regional \<longrightarrow> cf_region c \<noteq> [] \<Longrightarrow> check_services c = Inr () \<longleftrightarrow> services_ok c"
  by (auto simp: check_services_def services_ok_def)

lemma coin_by_symbol_Some:
  "coin_by_symbol cs x \<noteq> None \<longleftrightarrow> to_upper x \<in> to_upper ` co_symbol ` set cs"
  by (induction cs) (auto simp: equal_fold_upper)

lemma coin_by_symbol_in: "coin_by_symbol cs x = Some k \<Longrightarrow> k \<in> set cs \<and> equal_fold (co_symbol k) x"
  by (induction cs) (auto split: if_splits)

lemma pool_by_id_unique: "distinct (map pc_id ps) \<Longrightarrow> p \<in> set ps \<Longrightarrow> pool_by_id ps (pc_id p) = Some p"
  by (induction ps) auto

lemma validate_ok: "validate c = Inr () \<longleftrightarrow> config_ok c"
proof -
  let ?m = "cf_mode c \<in> {mode_all_in_one, mode_master, mode_regional}" and ?r = "cf_mode c = mode_regional \<longrightarrow> cf_region c \<noteq> []"
  let ?ids = "rev (map pc_id (cf_pools c)) @ []" and ?sy = "rev (map (to_upper \<circ> co_symbol) (cf_coins c)) @ []"
  have step: "validate c = Inr () \<longleftrightarrow> ?m \<and> ?r \<and> check_pools [] (cf_pools c) = Inr ?ids \<and> check_coins [] (cf_coins c) = Inr ?sy
      \<and> check_ports ?ids [] (sg_ports (cf_stratum c)) = Inr ()
      \<and> (cf_coins c \<noteq> [] \<longrightarrow> check_references ?sy (cf_pools c) = Inr ()) \<and> check_services c = Inr ()"
  proof -
    have p: "ids = ?ids" if "check_pools [] (cf_pools c) = Inr ids" for ids using that by (simp add: check_pools_ok)
    have k: "sy = ?sy" if "check_coins [] (cf_coins c) = Inr sy" for sy using that by (simp add: check_coins_ok)
    show ?thesis
      by (cases "check_pools [] (cf_pools c)"; cases "check_coins [] (cf_coins c)")
        (auto simp: validate_def dest!: p k split: sum.splits)
  qed
  have refs: "check_references ?sy (cf_pools c) = Inr () \<longleftrightarrow> coins_resolve c"
    unfolding check_references_ok coins_resolve_def coin_by_symbol_Some by (simp add: image_comp comp_def)
  show ?thesis
    unfolding step refs check_pools_ok check_coins_ok check_ports_ok
    using check_services_ok [of c] by (auto simp: config_ok_def services_ok_def)
qed

lemma apply_defaults_twice: "apply_defaults (apply_defaults c) = apply_defaults c"
  by (simp add: apply_defaults_def stratum_defaults_def pool_defaults_def pool_run_defaults_def coin_defaults_def
    mode_all_in_one_def comp_def split: option.split)

text \<open>
  C28: loading accepts exactly the well-formed configurations. After the defaults, \<open>Load\<close> succeeds if
  and only if the mode is known, pools have distinct non-empty ids and known payment modes, ports are
  distinct, in range, map to declared pools and have positive difficulties (bounds in order under
  vardiff), every coin a pool names is found by \<open>CoinBySymbol\<close> in whatever case it is written (where
  coins are declared), and each mode has the services it needs. What it returns has every default in
  place: loading it again gives the same configuration.
\<close>

theorem load_exact:
  "((\<exists>c. load_config raw = Inr c) \<longleftrightarrow> config_ok (apply_defaults raw))
   \<and> (load_config raw = Inr c \<longrightarrow> c = apply_defaults raw \<and> load_config c = Inr c)"
proof -
  have "load_config raw = Inr c \<longleftrightarrow> config_ok (apply_defaults raw) \<and> c = apply_defaults raw" for raw c
    using validate_ok [of "apply_defaults raw"] by (auto simp: load_config_def Let_def split: sum.split)
  then show ?thesis by (auto simp: apply_defaults_twice)
qed

text \<open>One pool on one vardiff port, its coin written in another case.\<close>

definition sample_pool_config :: "string \<Rightarrow> pool_config" where
  "sample_pool_config p = \<lparr>pc_id = p, pc_enabled = True, pc_coin_symbol = ''BTC'', pc_payment_mode = ''PPLNS'',
     pc_initial_state = ''active'', pc_maintenance_message = [], pc_pool_fee_percent = 1, pc_address = [],
     pc_pplns_factor = 2, pc_reward_interval = 30000000000, pc_minimum_payment_sats = 100000,
     pc_payout_interval = 600000000000, pc_subtract_fee_from_miners = Some True, pc_coinbase_tag = [],
     pc_template_poll_interval = 0, pc_error_backoff = 0\<rparr>"

definition sample_port :: port_config where
  "sample_port = \<lparr>pt_port = 3333, pt_pool_id = ''btc'', pt_vardiff = False, pt_difficulty = 64, pt_min_diff = 1,
     pt_max_diff = 1024, pt_tls = False\<rparr>"

definition sample_coin :: coin_config where
  "sample_coin = \<lparr>co_symbol = ''btc'', co_name = [], co_algo = [], co_rpc_url = ''http://127.0.0.1:8332'', co_rpc_user = [],
     co_rpc_password = [], co_network = [], co_maturity = 0, co_orphan = 0, co_randomx_epoch_duration = 0\<rparr>"

definition sample_config :: config where
  "sample_config = \<lparr>cf_mode = [], cf_region = [], cf_node_id = ''node-1'', cf_logging = \<lparr>lo_level = [], lo_json = False\<rparr>,
     cf_stratum = \<lparr>sg_bind_address = [], sg_ports = [sample_port\<lparr>pt_vardiff := True\<rparr>], sg_max_conn_per_ip = 1,
       sg_read_timeout = 0, sg_max_line_bytes = 0, sg_vardiff_target_interval = 0, sg_vardiff_retarget_interval = 0,
       sg_vardiff_variance_percent = 0\<rparr>,
     cf_pools = [sample_pool_config ''btc''], cf_coins = [sample_coin],
     cf_postgres = \<lparr>pg_enabled = True, pg_dsn = ''dsn'', pg_share_queue_size = 0, pg_share_batch_size = 0,
       pg_share_flush_interval = 0, pg_share_wal_path = [], pg_share_wal_max_bytes = 0\<rparr>,
     cf_api = \<lparr>ai_enabled = False, ai_bind = [], ai_admin_token = []\<rparr>,
     cf_nats = \<lparr>na_enabled = False, na_urls = [], na_spool_dir = [], na_spool_max_bytes = 0\<rparr>,
     cf_banning = \<lparr>ba_enabled = True, ba_invalid_percent = 0, ba_check_threshold = 0, ba_malformed_threshold = 0,
       ba_failed_auth_threshold = 0, ba_ban_duration = 0\<rparr>\<rparr>"

definition doubled_ports :: "config \<Rightarrow> config" where
  "doubled_ports c = c\<lparr>cf_stratum := (cf_stratum c)\<lparr>sg_ports := sg_ports (cf_stratum c) @ sg_ports (cf_stratum c)\<rparr>\<rparr>"

theorem load_exact_witness:
  "\<exists>c. load_config sample_config = Inr c \<and> load_config c = Inr c \<and> load_config (doubled_ports sample_config) \<noteq> Inr c"
proof -
  have "config_ok (apply_defaults sample_config)"
    by code_simp
  moreover have "\<not> config_ok (apply_defaults (doubled_ports sample_config))"
    by code_simp
  ultimately show ?thesis using load_exact [of sample_config] load_exact [of "doubled_ports sample_config"] by metis
qed

end
