(* ===== verification/Pool.thy ===== *)
theory Pool
  imports Config
begin

text \<open>
  \<open>internal/pool\<close>: the lifecycle state machine of a pool (\<open>state.go\<close>), the supervised service that
  runs it (\<open>service.go\<close>) and the manager through which operators act (\<open>lifecycle.go\<close>). Time is an
  argument of the operations. A service's goroutine is the component \<open>sv_loop\<close>: it is stopped,
  waiting for a tick (\<open>Polling\<close>), inside a poll, backing off after an error, or between the check
  and the act of its recovery (\<open>Recovering\<close>). The hook \<open>OnPoolStateChange\<close> is the list of changes an operation returns.
\<close>

datatype pool_state = Active | Draining | Maintenance | Paused | Disabled | Errored

text \<open>\<open>State\<close> is a string in the code; \<open>Valid\<close> recognises the six known ones.\<close>

definition parse_state :: "string \<Rightarrow> pool_state option" where
  "parse_state s =
     (if s = ''active'' then Some Active
      else if s = ''draining'' then Some Draining
      else if s = ''maintenance'' then Some Maintenance
      else if s = ''paused'' then Some Paused
      else if s = ''disabled'' then Some Disabled
      else if s = ''error'' then Some Errored
      else None)"

definition accepts_new_authorization :: "pool_state \<Rightarrow> bool" where
  "accepts_new_authorization s = (s = Active)"

definition sends_new_jobs :: "pool_state \<Rightarrow> bool" where
  "sends_new_jobs s = (s = Active)"

definition accepts_shares :: "pool_state \<Rightarrow> bool" where
  "accepts_shares s = (s = Active \<or> s = Draining)"

definition runs_template_polling :: "pool_state \<Rightarrow> bool" where
  "runs_template_polling s = (s = Active \<or> s = Draining)"

definition can_transition :: "pool_state \<Rightarrow> pool_state \<Rightarrow> bool" where
  "can_transition from to =
     (if from = to then True
      else case from of
        Active \<Rightarrow> to \<in> {Draining, Maintenance, Paused, Disabled, Errored}
      | Draining \<Rightarrow> to \<in> {Maintenance, Paused, Active, Disabled, Errored}
      | Maintenance \<Rightarrow> to \<in> {Active, Paused, Disabled, Errored, Draining}
      | Paused \<Rightarrow> to \<in> {Active, Maintenance, Disabled, Errored}
      | Disabled \<Rightarrow> to = Active
      | Errored \<Rightarrow> to \<in> {Active, Paused, Disabled, Maintenance})"

datatype loop_phase = Stopped | Polling | InPoll | Backoff | Recovering

record service =
  sv_cfg :: pool_config
  sv_state :: pool_state
  sv_maintenance_message :: string
  sv_last_error :: string
  sv_state_changed_at :: int
  sv_loop :: loop_phase
  sv_drain_timer :: "int option"
  sv_has_poller :: bool

record state_change =
  sc_pool_id :: string
  sc_from :: pool_state
  sc_to :: pool_state
  sc_reason :: string

datatype lifecycle_error =
    UnknownPool string
  | IllegalTransition pool_state pool_state
  | CannotApplyRemote string

definition new_service :: "int \<Rightarrow> pool_config \<Rightarrow> service" where
  "new_service now cfg =
     \<lparr>sv_cfg = cfg,
      sv_state = (case parse_state (pc_initial_state cfg) of None \<Rightarrow> Active | Some s \<Rightarrow> s),
      sv_maintenance_message = pc_maintenance_message cfg, sv_last_error = [],
      sv_state_changed_at = now, sv_loop = Stopped, sv_drain_timer = None, sv_has_poller = False\<rparr>"

definition service_set_poller :: "service \<Rightarrow> service" where
  "service_set_poller s = s\<lparr>sv_has_poller := True\<rparr>"

definition service_maintenance_message :: "service \<Rightarrow> string" where
  "service_maintenance_message s =
     (if sv_maintenance_message s \<noteq> [] then sv_maintenance_message s
      else ''Pool '' @ pc_id (sv_cfg s) @ '' is under maintenance. Please reconnect later.'')"

text \<open>
  The change of state and the report of it are one step here. The code makes the change under the lock and calls the hook after releasing it, so
  the reports of two changes that race may reach the hook in the other order.
\<close>

definition set_state ::
  "int \<Rightarrow> service \<Rightarrow> pool_state \<Rightarrow> string \<Rightarrow> lifecycle_error + (service \<times> state_change list)" where
  "set_state now s to reason =
     (let from = sv_state s in
      if \<not> can_transition from to then Inl (IllegalTransition from to)
      else
        let s1 = s\<lparr>sv_state := to, sv_state_changed_at := now\<rparr>;
            s2 = (if to = Errored then s1\<lparr>sv_last_error := reason\<rparr> else s1)
        in Inr (s2, if from \<noteq> to then [\<lparr>sc_pool_id = pc_id (sv_cfg s), sc_from = from, sc_to = to, sc_reason = reason\<rparr>]
                    else []))"

text \<open>Callers that ignore the error of \<open>setState\<close>.\<close>

definition try_state :: "int \<Rightarrow> service \<Rightarrow> pool_state \<Rightarrow> string \<Rightarrow> service \<times> state_change list" where
  "try_state now s to reason = (case set_state now s to reason of Inl _ \<Rightarrow> (s, []) | Inr x \<Rightarrow> x)"

subsection \<open>The supervised loop\<close>

definition start_service :: "service \<Rightarrow> service" where
  "start_service s = (if sv_state s = Disabled then s else s\<lparr>sv_loop := Polling\<rparr>)"

text \<open>A tick polls when the state allows it and a poller is wired.\<close>

definition polls_on_tick :: "service \<Rightarrow> bool" where
  "polls_on_tick s = (sv_loop s = Polling \<and> runs_template_polling (sv_state s) \<and> sv_has_poller s)"

definition loop_ticked :: "service \<Rightarrow> service" where
  "loop_ticked s = s\<lparr>sv_loop := InPoll\<rparr>"

definition loop_polled :: "service \<Rightarrow> service" where
  "loop_polled s = s\<lparr>sv_loop := Polling\<rparr>"

definition effective_backoff :: "service \<Rightarrow> int" where
  "effective_backoff s = (if pc_error_backoff (sv_cfg s) \<le> 0 then 15000000000 else pc_error_backoff (sv_cfg s))"

definition effective_interval :: "service \<Rightarrow> int" where
  "effective_interval s =
     (if pc_template_poll_interval (sv_cfg s) \<le> 0 then 500000000 else pc_template_poll_interval (sv_cfg s))"

text \<open>\<open>runOnce\<close> returned an error (or panicked): the supervisor sets the error state and backs off.\<close>

definition loop_failed :: "int \<Rightarrow> service \<Rightarrow> string \<Rightarrow> service \<times> state_change list" where
  "loop_failed now s err = (let (s1, chg) = try_state now s Errored err in (s1\<lparr>sv_loop := Backoff\<rparr>, chg))"

text \<open>After the back-off the state is read first and set to active afterwards, without a lock between
  the two.\<close>

definition loop_backed_off :: "service \<Rightarrow> service" where
  "loop_backed_off s = s\<lparr>sv_loop := (if sv_state s = Errored then Recovering else Polling)\<rparr>"

definition loop_recovered :: "int \<Rightarrow> service \<Rightarrow> service \<times> state_change list" where
  "loop_recovered now s =
     (let (s1, chg) = try_state now s Active ''retry after backoff'' in (s1\<lparr>sv_loop := Polling\<rparr>, chg))"

text \<open>\<open>stop\<close> cancels the drain timer and the loop's context and waits for the loop to exit: a loop that
  has already decided to recover still sets the state.\<close>

definition stop_service :: "int \<Rightarrow> service \<Rightarrow> service \<times> state_change list" where
  "stop_service now s =
     (let (s1, chg) = (if sv_loop s = Recovering then loop_recovered now s else (s, []))
      in (s1\<lparr>sv_drain_timer := None, sv_loop := Stopped\<rparr>, chg))"

definition begin_drain ::
  "int \<Rightarrow> service \<Rightarrow> int \<Rightarrow> string \<Rightarrow> lifecycle_error + (service \<times> state_change list)" where
  "begin_drain now s grace reason =
     (case set_state now s Draining reason of Inl e \<Rightarrow> Inl e
      | Inr (s1, chg) \<Rightarrow> Inr (s1\<lparr>sv_drain_timer := Some (now + grace)\<rparr>, chg))"

definition drain_timer_fired :: "int \<Rightarrow> service \<Rightarrow> service \<times> state_change list" where
  "drain_timer_fired now s =
     (let s1 = s\<lparr>sv_drain_timer := None\<rparr> in
      if sv_state s1 = Draining then try_state now s1 Maintenance ''drain grace period elapsed'' else (s1, []))"

record snapshot =
  sn_pool_id :: string
  sn_coin_symbol :: string
  sn_state :: pool_state
  sn_maintenance_message :: string
  sn_last_error :: string
  sn_state_changed_at :: int
  sn_payment_mode :: string

definition service_snapshot :: "service \<Rightarrow> snapshot" where
  "service_snapshot s =
     \<lparr>sn_pool_id = pc_id (sv_cfg s), sn_coin_symbol = pc_coin_symbol (sv_cfg s), sn_state = sv_state s,
      sn_maintenance_message = sv_maintenance_message s, sn_last_error = sv_last_error s,
      sn_state_changed_at = sv_state_changed_at s, sn_payment_mode = pc_payment_mode (sv_cfg s)\<rparr>"

subsection \<open>The lifecycle manager\<close>

record lifecycle =
  lc_pools :: "string \<Rightarrow> service option"
  lc_started :: bool

definition new_lifecycle :: "int \<Rightarrow> pool_config list \<Rightarrow> lifecycle" where
  "new_lifecycle now pools =
     \<lparr>lc_pools = foldl (\<lambda>m pc. m(pc_id pc \<mapsto>
         new_service now (if pc_enabled pc then pc else pc\<lparr>pc_initial_state := ''disabled''\<rparr>))) Map.empty pools,
      lc_started = False\<rparr>"

definition lifecycle_start :: "lifecycle \<Rightarrow> lifecycle" where
  "lifecycle_start lc = \<lparr>lc_pools = (\<lambda>p. map_option start_service (lc_pools lc p)), lc_started = True\<rparr>"

definition lifecycle_stop :: "int \<Rightarrow> lifecycle \<Rightarrow> lifecycle" where
  "lifecycle_stop now lc = lc\<lparr>lc_pools := (\<lambda>p. map_option (\<lambda>s. fst (stop_service now s)) (lc_pools lc p))\<rparr>"

type_synonym op_result = "lifecycle \<times> state_change list \<times> lifecycle_error option"

definition with_pool ::
  "lifecycle \<Rightarrow> string \<Rightarrow> (service \<Rightarrow> lifecycle_error + (service \<times> state_change list)) \<Rightarrow> op_result" where
  "with_pool lc p f =
     (case lc_pools lc p of None \<Rightarrow> (lc, [], Some (UnknownPool p))
      | Some s \<Rightarrow>
        (case f s of Inl e \<Rightarrow> (lc, [], Some e)
         | Inr (s', chg) \<Rightarrow> (lc\<lparr>lc_pools := (lc_pools lc)(p \<mapsto> s')\<rparr>, chg, None)))"

definition set_poller :: "lifecycle \<Rightarrow> string \<Rightarrow> op_result" where
  "set_poller lc p = with_pool lc p (\<lambda>s. Inr (service_set_poller s, []))"

definition start_pool :: "int \<Rightarrow> lifecycle \<Rightarrow> string \<Rightarrow> op_result" where
  "start_pool now lc p = with_pool lc p (\<lambda>s.
     if sv_state s = Disabled
     then (case set_state now s Active ''StartPool'' of Inl e \<Rightarrow> Inl e
           | Inr (s1, chg) \<Rightarrow> Inr (if lc_started lc then start_service s1 else s1, chg))
     else set_state now s Active ''StartPool'')"

definition stop_pool :: "int \<Rightarrow> lifecycle \<Rightarrow> string \<Rightarrow> op_result" where
  "stop_pool now lc p = with_pool lc p (\<lambda>s.
     case set_state now s Disabled ''StopPool'' of Inl e \<Rightarrow> Inl e
     | Inr (s1, chg) \<Rightarrow> let (s2, chg2) = stop_service now s1 in Inr (s2, chg @ chg2))"

definition pause_pool :: "int \<Rightarrow> lifecycle \<Rightarrow> string \<Rightarrow> op_result" where
  "pause_pool now lc p = with_pool lc p (\<lambda>s. set_state now s Paused ''PausePool'')"

definition resume_pool :: "int \<Rightarrow> lifecycle \<Rightarrow> string \<Rightarrow> op_result" where
  "resume_pool now lc p = with_pool lc p (\<lambda>s. set_state now s Active ''ResumePool'')"

definition drain_pool :: "int \<Rightarrow> lifecycle \<Rightarrow> string \<Rightarrow> int \<Rightarrow> op_result" where
  "drain_pool now lc p grace = with_pool lc p (\<lambda>s. begin_drain now s grace ''DrainPool'')"

definition reason_or :: "string \<Rightarrow> string \<Rightarrow> string" where
  "reason_or reason fallback = (if reason \<noteq> [] then reason else fallback)"

text \<open>The message is stored even when the transition is refused.\<close>

definition put_pool_in_maintenance :: "int \<Rightarrow> lifecycle \<Rightarrow> string \<Rightarrow> string \<Rightarrow> op_result" where
  "put_pool_in_maintenance now lc p reason =
     (case lc_pools lc p of None \<Rightarrow> (lc, [], Some (UnknownPool p))
      | Some s \<Rightarrow>
        let s1 = (if reason \<noteq> [] then s\<lparr>sv_maintenance_message := reason\<rparr> else s);
            lc1 = lc\<lparr>lc_pools := (lc_pools lc)(p \<mapsto> s1)\<rparr>
        in with_pool lc1 p (\<lambda>s. set_state now s Maintenance (reason_or reason ''PutPoolInMaintenance'')))"

definition disable_pool :: "int \<Rightarrow> lifecycle \<Rightarrow> string \<Rightarrow> op_result" where
  "disable_pool now lc p = stop_pool now lc p"

definition restart_pool :: "int \<Rightarrow> lifecycle \<Rightarrow> string \<Rightarrow> op_result" where
  "restart_pool now lc p = with_pool lc p (\<lambda>s.
     let (s1, chg1) = stop_service now s;
         (s2, chg2) = (case set_state now s1 Active ''RestartPool'' of
             Inl _ \<Rightarrow> (s1\<lparr>sv_state := Active, sv_state_changed_at := now\<rparr>, [])
           | Inr x \<Rightarrow> x)
     in Inr (if lc_started lc then start_service s2 else s2, chg1 @ chg2))"

definition get_pool_state :: "lifecycle \<Rightarrow> string \<Rightarrow> lifecycle_error + pool_state" where
  "get_pool_state lc p = (case lc_pools lc p of None \<Rightarrow> Inl (UnknownPool p) | Some s \<Rightarrow> Inr (sv_state s))"

definition pool_accepts_authorization :: "lifecycle \<Rightarrow> string \<Rightarrow> lifecycle_error + bool" where
  "pool_accepts_authorization lc p =
     (case lc_pools lc p of None \<Rightarrow> Inl (UnknownPool p) | Some s \<Rightarrow> Inr (accepts_new_authorization (sv_state s)))"

definition maintenance_message :: "lifecycle \<Rightarrow> string \<Rightarrow> string" where
  "maintenance_message lc p = (case lc_pools lc p of None \<Rightarrow> [] | Some s \<Rightarrow> service_maintenance_message s)"

definition apply_remote_state :: "int \<Rightarrow> lifecycle \<Rightarrow> string \<Rightarrow> string \<Rightarrow> string \<Rightarrow> op_result" where
  "apply_remote_state now lc p to reason =
     (case parse_state to of
        Some Paused \<Rightarrow> pause_pool now lc p
      | Some Active \<Rightarrow> resume_pool now lc p
      | Some Maintenance \<Rightarrow> put_pool_in_maintenance now lc p reason
      | Some Disabled \<Rightarrow> disable_pool now lc p
      | Some Draining \<Rightarrow> drain_pool now lc p 60000000000
      | Some Errored \<Rightarrow> (lc, [], Some (CannotApplyRemote to))
      | None \<Rightarrow> (lc, [], Some (CannotApplyRemote to)))"

definition pool_snapshot :: "lifecycle \<Rightarrow> string \<Rightarrow> lifecycle_error + snapshot" where
  "pool_snapshot lc p =
     (case lc_pools lc p of None \<Rightarrow> Inl (UnknownPool p) | Some s \<Rightarrow> Inr (service_snapshot s))"

subsection \<open>Runs of the lifecycle\<close>

datatype pool_op =
    OpPoller | OpStart | OpStop | OpPause | OpResume | OpDrain int | OpMaintain string | OpDisable | OpRestart
  | OpRemote string string

fun apply_op :: "int \<Rightarrow> lifecycle \<Rightarrow> string \<Rightarrow> pool_op \<Rightarrow> op_result" where
  "apply_op now lc p OpPoller = set_poller lc p"
| "apply_op now lc p OpStart = start_pool now lc p"
| "apply_op now lc p OpStop = stop_pool now lc p"
| "apply_op now lc p OpPause = pause_pool now lc p"
| "apply_op now lc p OpResume = resume_pool now lc p"
| "apply_op now lc p (OpDrain grace) = drain_pool now lc p grace"
| "apply_op now lc p (OpMaintain reason) = put_pool_in_maintenance now lc p reason"
| "apply_op now lc p OpDisable = disable_pool now lc p"
| "apply_op now lc p OpRestart = restart_pool now lc p"
| "apply_op now lc p (OpRemote to reason) = apply_remote_state now lc p to reason"

datatype loop_event = LoopTicked | LoopPolled | LoopFailed string | LoopBackedOff | LoopRecovered | TimerFired

text \<open>What a service's goroutine and its timer may do, and when.\<close>

fun loop_enabled :: "service \<Rightarrow> loop_event \<Rightarrow> bool" where
  "loop_enabled s LoopTicked = polls_on_tick s"
| "loop_enabled s LoopPolled = (sv_loop s = InPoll)"
| "loop_enabled s (LoopFailed err) = (sv_loop s = InPoll)"
| "loop_enabled s LoopBackedOff = (sv_loop s = Backoff)"
| "loop_enabled s LoopRecovered = (sv_loop s = Recovering)"
| "loop_enabled s TimerFired = (sv_drain_timer s \<noteq> None)"

fun loop_step :: "int \<Rightarrow> service \<Rightarrow> loop_event \<Rightarrow> service \<times> state_change list" where
  "loop_step now s LoopTicked = (loop_ticked s, [])"
| "loop_step now s LoopPolled = (loop_polled s, [])"
| "loop_step now s (LoopFailed err) = loop_failed now s err"
| "loop_step now s LoopBackedOff = (loop_backed_off s, [])"
| "loop_step now s LoopRecovered = loop_recovered now s"
| "loop_step now s TimerFired = drain_timer_fired now s"

inductive pool_step :: "lifecycle \<times> state_change list \<Rightarrow> lifecycle \<times> state_change list \<Rightarrow> bool" where
  step_op: "apply_op now lc p op = (lc', chg, err) \<Longrightarrow> pool_step (lc, lg) (lc', lg @ chg)"
| step_loop: "lc_pools lc p = Some s \<Longrightarrow> loop_enabled s ev \<Longrightarrow> loop_step now s ev = (s', chg) \<Longrightarrow>
    pool_step (lc, lg) (lc\<lparr>lc_pools := (lc_pools lc)(p \<mapsto> s')\<rparr>, lg @ chg)"

text \<open>The moves an operator expects: a disabled pool can only be re-activated, and only a pool that is up
  or in maintenance can start draining.\<close>

definition legal_move :: "pool_state \<Rightarrow> pool_state \<Rightarrow> bool" where
  "legal_move a b \<longleftrightarrow> a \<noteq> b \<and> (a = Disabled \<longrightarrow> b = Active) \<and> (b = Draining \<longrightarrow> a \<in> {Active, Maintenance})"

lemma can_transition_legal: "can_transition a b \<longleftrightarrow> a = b \<or> legal_move a b"
  by (cases a; cases b) (simp_all add: can_transition_def legal_move_def)

text \<open>A list of changes leads from one state to another by legal moves.\<close>

fun chain :: "pool_state \<Rightarrow> state_change list \<Rightarrow> pool_state \<Rightarrow> bool" where
  "chain a [] b = (a = b)"
| "chain a (c # cs) b =
     (sc_from c = a \<and> legal_move a (sc_to c) \<and> chain (sc_to c) cs b)"

lemma chain_append: "chain a (xs @ ys) c \<longleftrightarrow> (\<exists>b. chain a xs b \<and> chain b ys c)"
  by (induction xs arbitrary: a) auto

named_theorems service_moves \<open>service operations move by legal transitions\<close>

definition moves :: "service \<Rightarrow> service \<times> state_change list \<Rightarrow> bool" where
  "moves s r \<longleftrightarrow> sv_cfg (fst r) = sv_cfg s \<and> (\<forall>c \<in> set (snd r). sc_pool_id c = pc_id (sv_cfg s))
     \<and> chain (sv_state s) (snd r) (sv_state (fst r))"

lemma moves_refl: "sv_cfg s' = sv_cfg s \<Longrightarrow> sv_state s' = sv_state s \<Longrightarrow> moves s (s', [])"
  by (simp add: moves_def)

lemma moves_trans: "moves s (s1, c1) \<Longrightarrow> moves s1 (s2, c2) \<Longrightarrow> moves s (s2, c1 @ c2)"
  by (auto simp: moves_def chain_append)

lemma moves_fields: "moves s (s1, c) \<Longrightarrow> sv_cfg s2 = sv_cfg s1 \<Longrightarrow> sv_state s2 = sv_state s1 \<Longrightarrow> moves s (s2, c)"
  by (simp add: moves_def)

lemma set_state_moves [service_moves]: "set_state now s to reason = Inr r \<Longrightarrow> moves s r"
  by (auto simp: can_transition_legal set_state_def moves_def Let_def split: if_splits)

lemma try_state_moves [service_moves]: "moves s (try_state now s to reason)"
  by (auto simp: try_state_def moves_refl split: sum.splits intro: set_state_moves)

lemma loop_failed_moves [service_moves]: "moves s (loop_failed now s err)"
  unfolding loop_failed_def
  by (cases "try_state now s Errored err") (use try_state_moves [of s now Errored err] in \<open>auto intro: moves_fields\<close>)

lemma loop_recovered_moves [service_moves]: "moves s (loop_recovered now s)"
  unfolding loop_recovered_def
  by (cases "try_state now s Active ''retry after backoff''")
    (use try_state_moves [of s now Active "''retry after backoff''"] in \<open>auto intro: moves_fields\<close>)

lemma stop_service_moves [service_moves]: "moves s (stop_service now s)"
  unfolding stop_service_def
  by (cases "loop_recovered now s") (use loop_recovered_moves [of s now] in \<open>auto intro: moves_fields moves_refl\<close>)

lemma drain_timer_moves [service_moves]: "moves s (drain_timer_fired now s)"
proof -
  have "moves s (try_state now (s\<lparr>sv_drain_timer := None\<rparr>) Maintenance ''drain grace period elapsed'')"
    using try_state_moves [of "s\<lparr>sv_drain_timer := None\<rparr>" now Maintenance "''drain grace period elapsed''"]
    by (simp add: moves_def)
  then show ?thesis unfolding drain_timer_fired_def Let_def by (auto intro: moves_refl)
qed

lemma loop_step_moves: "moves s (loop_step now s ev)"
  by (cases ev) (auto simp: loop_backed_off_def loop_ticked_def loop_polled_def service_moves intro: moves_refl)

lemma can_always_activate: "can_transition s Active"
  by (cases s) (simp_all add: can_transition_def)

lemma can_always_disable: "can_transition s Disabled"
  by (cases s) (simp_all add: can_transition_def)

lemma set_state_ok: "can_transition (sv_state s) to \<Longrightarrow> \<exists>s' chg. set_state now s to reason = Inr (s', chg)
    \<and> sv_state s' = to \<and> sv_loop s' = sv_loop s \<and> sv_drain_timer s' = sv_drain_timer s \<and> sv_has_poller s' = sv_has_poller s
    \<and> sv_cfg s' = sv_cfg s"
  by (auto simp: set_state_def Let_def)

text \<open>The code of \<open>RestartPool\<close> that forces the state is dead: every state may become active.\<close>

lemma restart_never_forces: "set_state now s Active reason \<noteq> Inl e"
  using set_state_ok [OF can_always_activate, of now s reason] by auto

text \<open>Every operation is a move of the one pool it names.\<close>

definition op_moves :: "lifecycle \<Rightarrow> string \<Rightarrow> op_result \<Rightarrow> bool" where
  "op_moves lc p r \<longleftrightarrow> (case r of (lc', chg, err) \<Rightarrow>
     lc_started lc' = lc_started lc
     \<and> ((lc_pools lc' = lc_pools lc \<and> chg = [])
       \<or> (\<exists>s s'. lc_pools lc p = Some s \<and> lc_pools lc' = (lc_pools lc)(p \<mapsto> s') \<and> moves s (s', chg))))"

lemma with_pool_moves:
  assumes "\<And>s r. f s = Inr r \<Longrightarrow> moves s r"
  shows "op_moves lc p (with_pool lc p f)"
  using assms by (auto simp: op_moves_def with_pool_def split: option.splits sum.splits)

lemma start_service_same [simp]: "sv_cfg (start_service s) = sv_cfg s" "sv_state (start_service s) = sv_state s"
  by (simp_all add: start_service_def)

lemma stop_pool_moves: "op_moves lc p (stop_pool now lc p)"
  unfolding stop_pool_def
proof (rule with_pool_moves)
  fix s r assume a: "(case set_state now s Disabled ''StopPool'' of Inl e \<Rightarrow> Inl e
     | Inr (s1, chg) \<Rightarrow> let (s2, chg2) = stop_service now s1 in Inr (s2, chg @ chg2)) = Inr r"
  then obtain s1 c1 s2 c2 where x: "set_state now s Disabled ''StopPool'' = Inr (s1, c1)" "stop_service now s1 = (s2, c2)"
    and r: "r = (s2, c1 @ c2)" by (auto split: sum.splits prod.splits)
  have "moves s1 (s2, c2)" using stop_service_moves [of s1 now] x(2) by simp
  with set_state_moves [OF x(1)] show "moves s r" unfolding r by (rule moves_trans)
qed

lemma restart_pool_moves: "op_moves lc p (restart_pool now lc p)"
  unfolding restart_pool_def
proof (rule with_pool_moves)
  fix s r
  obtain s1 c1 where s1: "stop_service now s = (s1, c1)" by (cases "stop_service now s")
  obtain s2 c2 where s2: "set_state now s1 Active ''RestartPool'' = Inr (s2, c2)"
    using set_state_ok [OF can_always_activate, of now s1 "''RestartPool''"] by auto
  have "moves s (s1, c1)" using stop_service_moves [of s now] s1 by simp
  then have m: "moves s (s2, c1 @ c2)" using set_state_moves [OF s2] by (rule moves_trans)
  assume "(let (s1, chg1) = stop_service now s;
          (s2, chg2) = case set_state now s1 Active ''RestartPool'' of Inl x \<Rightarrow> (s1\<lparr>sv_state := Active, sv_state_changed_at := now\<rparr>, [])
             | Inr x \<Rightarrow> x
      in Inr (if lc_started lc then start_service s2 else s2, chg1 @ chg2)) = Inr r"
  then have "r = (if lc_started lc then start_service s2 else s2, c1 @ c2)" by (simp add: s1 s2)
  then show "moves s r" using m by (auto intro: moves_fields)
qed

lemma start_pool_moves: "op_moves lc p (start_pool now lc p)"
  unfolding start_pool_def
  by (rule with_pool_moves) (auto split: if_splits sum.splits intro: set_state_moves moves_fields)

lemma maintain_moves: "op_moves lc p (put_pool_in_maintenance now lc p reason)"
proof (cases "lc_pools lc p")
  case None
  then show ?thesis by (simp add: put_pool_in_maintenance_def op_moves_def)
next
  case (Some s)
  let ?s1 = "if reason \<noteq> [] then s\<lparr>sv_maintenance_message := reason\<rparr> else s"
  have same: "moves s (?s1, [])" by (rule moves_refl) auto
  have "moves s x" if "set_state now ?s1 Maintenance (reason_or reason ''PutPoolInMaintenance'') = Inr x" for x
    using set_state_moves [OF that] by (cases x) (auto simp: moves_def split: if_splits)
  then show ?thesis
    using same Some
    by (cases "set_state now ?s1 Maintenance (reason_or reason ''PutPoolInMaintenance'')")
      (auto simp: put_pool_in_maintenance_def with_pool_def op_moves_def Let_def)
qed

lemma apply_op_moves: "op_moves lc p (apply_op now lc p op)"
proof -
  have simple: "op_moves lc p (set_poller lc p)" "op_moves lc p (pause_pool now lc p)" "op_moves lc p (resume_pool now lc p)"
    unfolding set_poller_def pause_pool_def resume_pool_def
    by (rule with_pool_moves; auto simp: service_set_poller_def intro: moves_refl set_state_moves)+
  have drain: "op_moves lc p (drain_pool now lc p grace)" for grace
    unfolding drain_pool_def
    by (rule with_pool_moves) (auto simp: begin_drain_def split: sum.splits intro: moves_fields set_state_moves)
  have none: "op_moves lc p (lc, [], err)" for err by (simp add: op_moves_def)
  note base = simple drain start_pool_moves [of lc p now] stop_pool_moves [of lc p now] restart_pool_moves [of lc p now]
    maintain_moves [of lc p now] none
  show ?thesis
    by (cases op) (auto simp: disable_pool_def apply_remote_state_def base split: option.splits pool_state.splits)
qed

text \<open>Services are filed under their configured id, which is the one their changes are reported with.\<close>

definition named :: "lifecycle \<Rightarrow> bool" where
  "named lc \<longleftrightarrow> (\<forall>p s. lc_pools lc p = Some s \<longrightarrow> pc_id (sv_cfg s) = p)"

lemma add_services_named:
  assumes "\<forall>p s. m p = Some s \<longrightarrow> pc_id (sv_cfg s) = p"
  shows "\<forall>p s. foldl (\<lambda>m pc. m(pc_id pc \<mapsto> new_service now (if pc_enabled pc then pc else pc\<lparr>pc_initial_state := i\<rparr>))) m cfgs p
      = Some s \<longrightarrow> pc_id (sv_cfg s) = p"
  using assms
proof (induction cfgs arbitrary: m)
  case (Cons pc cfgs)
  let ?m = "m(pc_id pc \<mapsto> new_service now (if pc_enabled pc then pc else pc\<lparr>pc_initial_state := i\<rparr>))"
  have "\<forall>p s. ?m p = Some s \<longrightarrow> pc_id (sv_cfg s) = p" using Cons.prems by (simp add: new_service_def)
  from Cons.IH [OF this] show ?case unfolding foldl_Cons .
qed simp

lemma new_lifecycle_named: "named (lifecycle_start (new_lifecycle now cfgs))"
  using add_services_named [of Map.empty now "''disabled''" cfgs]
  by (auto simp: named_def lifecycle_start_def new_lifecycle_def)

text \<open>One step: one pool moves, nothing else does.\<close>

lemma pool_step_moves:
  assumes "pool_step (lc, lg) (lc', lg')"
  shows "\<exists>p chg. lg' = lg @ chg \<and> op_moves lc p (lc', chg, None)"
  using assms
proof cases
  case (step_op now p op chg err)
  then show ?thesis using apply_op_moves [of lc p now op] by (auto simp: op_moves_def)
next
  case (step_loop p s ev now s' chg)
  then show ?thesis using loop_step_moves [of s now ev] by (auto simp: op_moves_def)
qed

lemma op_moves_pool:
  assumes "named lc" and "op_moves lc p (lc', chg, err)"
  shows "named lc'" and "\<forall>c \<in> set chg. sc_pool_id c = p" and "\<And>q. q \<noteq> p \<Longrightarrow> lc_pools lc' q = lc_pools lc q"
    and "lc_pools lc q = Some s \<Longrightarrow> \<exists>s'. lc_pools lc' q = Some s' \<and> chain (sv_state s) [c \<leftarrow> chg. sc_pool_id c = q] (sv_state s')"
proof -
  consider (same) "lc_pools lc' = lc_pools lc" "chg = []"
    | (one) s0 s' where "lc_pools lc p = Some s0" "lc_pools lc' = (lc_pools lc)(p \<mapsto> s')" "moves s0 (s', chg)"
    using assms(2) by (auto simp: op_moves_def)
  then have "named lc' \<and> (\<forall>c \<in> set chg. sc_pool_id c = p) \<and> (\<forall>q. q \<noteq> p \<longrightarrow> lc_pools lc' q = lc_pools lc q)
    \<and> (\<forall>q s. lc_pools lc q = Some s \<longrightarrow>
        (\<exists>s'. lc_pools lc' q = Some s' \<and> chain (sv_state s) [c \<leftarrow> chg. sc_pool_id c = q] (sv_state s')))"
  proof cases
    case same
    then show ?thesis using assms(1) by (simp add: named_def)
  next
    case one
    have id: "pc_id (sv_cfg s0) = p" using assms(1) one(1) by (simp add: named_def)
    have ch: "\<forall>c \<in> set chg. sc_pool_id c = p" "chain (sv_state s0) chg (sv_state s')" "sv_cfg s' = sv_cfg s0"
      using one(3) id by (auto simp: moves_def)
    have "named lc'" using assms(1) one(2) ch(3) id by (simp add: named_def)
    moreover have "[c \<leftarrow> chg. sc_pool_id c = q] = (if q = p then chg else [])" for q
      using ch(1) by (auto simp: filter_id_conv filter_empty_conv)
    ultimately show ?thesis using ch one(1,2) by auto
  qed
  then show "named lc'" "\<forall>c \<in> set chg. sc_pool_id c = p" "\<And>q. q \<noteq> p \<Longrightarrow> lc_pools lc' q = lc_pools lc q"
    "lc_pools lc q = Some s \<Longrightarrow> \<exists>s'. lc_pools lc' q = Some s' \<and> chain (sv_state s) [c \<leftarrow> chg. sc_pool_id c = q] (sv_state s')"
    by blast+
qed

text \<open>
  C11: pools are isolated and their lifecycle is legal. From start-up, through any interleaving of
  operator and remote actions, poll failures, recoveries and drain timers over all pools: every pool
  is still there, and the changes reported to the hook for it form an unbroken chain of legal moves
  from its initial state to its present one: out of the disabled state only to the active one, into
  draining only from active or maintenance, and never from a state to itself. Each step changes one pool only and reports
  changes of that pool only.
\<close>

theorem lifecycle_changes_legal:
  assumes "pool_step\<^sup>*\<^sup>* (lifecycle_start (new_lifecycle now cfgs), []) (lc, lg)"
  shows "(\<forall>p s0. lc_pools (lifecycle_start (new_lifecycle now cfgs)) p = Some s0 \<longrightarrow>
      (\<exists>s. lc_pools lc p = Some s \<and> chain (sv_state s0) [c \<leftarrow> lg. sc_pool_id c = p] (sv_state s)))
    \<and> (\<forall>lc' lg'. pool_step (lc, lg) (lc', lg') \<longrightarrow>
        (\<exists>p chg. lg' = lg @ chg \<and> (\<forall>c \<in> set chg. sc_pool_id c = p) \<and> (\<forall>q. q \<noteq> p \<longrightarrow> lc_pools lc' q = lc_pools lc q)))"
proof -
  have "named (fst st) \<and> (\<forall>p s0. lc_pools lc0 p = Some s0 \<longrightarrow>
      (\<exists>s. lc_pools (fst st) p = Some s \<and> chain (sv_state s0) [c \<leftarrow> snd st. sc_pool_id c = p] (sv_state s)))"
    if "pool_step\<^sup>*\<^sup>* (lc0, []) st" "named lc0" for lc0 st
    using that
  proof (induction rule: rtranclp_induct)
    case (step st st')
    obtain p chg where p: "snd st' = snd st @ chg" "op_moves (fst st) p (fst st', chg, None)"
      using pool_step_moves [of "fst st" "snd st" "fst st'" "snd st'"] step.hyps(2) by auto
    have IH: "named (fst st)" "\<And>q s0. lc_pools lc0 q = Some s0 \<Longrightarrow>
        \<exists>s. lc_pools (fst st) q = Some s \<and> chain (sv_state s0) [c \<leftarrow> snd st. sc_pool_id c = q] (sv_state s)"
      using step.IH step.prems by blast+
    have "\<exists>s. lc_pools (fst st') q = Some s \<and> chain (sv_state s0) [c \<leftarrow> snd st'. sc_pool_id c = q] (sv_state s)"
      if q: "lc_pools lc0 q = Some s0" for q s0
    proof -
      obtain s where s: "lc_pools (fst st) q = Some s" "chain (sv_state s0) [c \<leftarrow> snd st. sc_pool_id c = q] (sv_state s)"
        using IH(2) [OF q] by blast
      from op_moves_pool(4) [OF IH(1) p(2) s(1)] s(2) show ?thesis
        unfolding p(1) filter_append chain_append by blast
    qed
    then show ?case using op_moves_pool(1) [OF IH(1) p(2)] by blast
  qed simp
  from this [OF assms new_lifecycle_named] have n: "named lc"
    and c: "\<forall>p s0. lc_pools (lifecycle_start (new_lifecycle now cfgs)) p = Some s0 \<longrightarrow>
      (\<exists>s. lc_pools lc p = Some s \<and> chain (sv_state s0) [c \<leftarrow> lg. sc_pool_id c = p] (sv_state s))"
    unfolding fst_conv snd_conv by (rule conjunct1, rule conjunct2)
  have "\<exists>p chg. lg' = lg @ chg \<and> (\<forall>c \<in> set chg. sc_pool_id c = p) \<and> (\<forall>q. q \<noteq> p \<longrightarrow> lc_pools lc' q = lc_pools lc q)"
    if st: "pool_step (lc, lg) (lc', lg')" for lc' lg'
  proof -
    obtain p chg where m: "lg' = lg @ chg" "op_moves lc p (lc', chg, None)" using pool_step_moves [OF st] by blast
    show ?thesis
    proof (intro exI conjI allI impI)
      show "lg' = lg @ chg" by (rule m(1))
      show "\<forall>c \<in> set chg. sc_pool_id c = p" by (rule op_moves_pool(2) [OF n m(2)])
      show "lc_pools lc' q = lc_pools lc q" if "q \<noteq> p" for q by (rule op_moves_pool(3) [OF n m(2) that])
    qed
  qed
  with c show ?thesis by blast
qed

text \<open>
  Resuming a disabled pool leaves it accepting miners without ever producing work. Once a pool is
  disabled its loop is stopped; \<open>ResumePool\<close> makes it active and \<open>StartPool\<close> then changes
  nothing, so the pool authorizes miners and polls no template; only \<open>RestartPool\<close> starts the loop
  again.
\<close>

theorem resume_after_disable_idle:
  assumes "lc_pools lc p = Some s" and "lc_started lc"
  shows "\<exists>s3 s4. lc_pools (fst (start_pool t (fst (resume_pool t (fst (disable_pool t lc p)) p)) p)) p = Some s3
    \<and> sv_state s3 = Active \<and> accepts_new_authorization (sv_state s3) \<and> sv_loop s3 = Stopped \<and> \<not> polls_on_tick s3
    \<and> lc_pools (fst (restart_pool t (fst (resume_pool t (fst (disable_pool t lc p)) p)) p)) p = Some s4
    \<and> sv_state s4 = Active \<and> sv_loop s4 = Polling"
proof -
  obtain s1 c1 where s1: "set_state t s Disabled ''StopPool'' = Inr (s1, c1)"
    using set_state_ok [OF can_always_disable] by blast
  obtain s2 c2 where s2: "stop_service t s1 = (s2, c2)" by (cases "stop_service t s1")
  have l2: "sv_loop s2 = Stopped" using s2 by (auto simp: stop_service_def split: prod.splits if_splits)
  obtain s3 c3 where s3: "set_state t s2 Active ''ResumePool'' = Inr (s3, c3)" "sv_state s3 = Active" "sv_loop s3 = sv_loop s2"
    using set_state_ok [OF can_always_activate] by blast
  obtain s4 c4 where s4: "set_state t s3 Active ''StartPool'' = Inr (s4, c4)" "sv_state s4 = Active" "sv_loop s4 = sv_loop s3"
    using set_state_ok [OF can_always_activate] by blast
  define s5 where "s5 = s3\<lparr>sv_drain_timer := None, sv_loop := Stopped\<rparr>"
  have st: "stop_service t s3 = (s5, [])" using s3 l2 by (simp add: stop_service_def s5_def)
  obtain s6 c6 where s6: "set_state t s5 Active ''RestartPool'' = Inr (s6, c6)" "sv_state s6 = Active"
    using set_state_ok [OF can_always_activate] by blast
  show ?thesis
    using assms s1 s2 s3 s4 st s6 l2
    by (simp add: disable_pool_def stop_pool_def resume_pool_def start_pool_def restart_pool_def with_pool_def
      accepts_new_authorization_def polls_on_tick_def start_service_def)
qed

text \<open>A stop that meets a loop which has already decided to recover leaves the pool active, stopped.\<close>

lemma disable_lost_to_recovery:
  assumes "lc_pools lc p = Some s" and "sv_loop s = Recovering"
  shows "\<exists>s'. lc_pools (fst (disable_pool t lc p)) p = Some s' \<and> sv_state s' = Active \<and> sv_loop s' = Stopped"
proof -
  obtain s1 c1 where s1: "set_state t s Disabled ''StopPool'' = Inr (s1, c1)" "sv_loop s1 = Recovering"
    using set_state_ok [OF can_always_disable, of t s "''StopPool''"] assms(2) by auto
  obtain s2 c2 where s2: "set_state t s1 Active ''retry after backoff'' = Inr (s2, c2)" "sv_state s2 = Active"
    using set_state_ok [OF can_always_activate] by blast
  show ?thesis using assms(1) s1 s2
    by (simp add: disable_pool_def stop_pool_def with_pool_def stop_service_def loop_recovered_def try_state_def)
qed

text \<open>
  A poll that fails overrides the operator. A draining pool keeps polling templates (and so
  broadcasting jobs, although \<open>SendsNewJobs\<close> denies them to it). If a poll fails after the pool was
  drained, paused or put in maintenance while the poll was in flight, the pool goes through the error
  state and after the back-off it is active again and takes new workers; the drain timer then no longer
  moves it to maintenance.
\<close>

theorem poll_error_overrides_operator:
  assumes "sv_state s \<noteq> Disabled" and "sv_loop s = InPoll"
  shows "(\<forall>s0. sv_state s0 = Draining \<longrightarrow> sv_loop s0 = Polling \<longrightarrow> sv_has_poller s0 \<longrightarrow>
        loop_enabled s0 LoopTicked \<and> \<not> sends_new_jobs (sv_state s0))
    \<and> (let s1 = fst (loop_failed t1 s err); s2 = loop_backed_off s1; s3 = fst (loop_recovered t2 s2);
           s4 = fst (drain_timer_fired t3 s3)
       in loop_enabled s (LoopFailed err) \<and> sv_state s1 = Errored \<and> sv_state s3 = Active \<and> sv_state s4 = Active
          \<and> accepts_new_authorization (sv_state s4))"
  using assms
  by (cases "sv_state s")
    (simp_all add: polls_on_tick_def runs_template_polling_def sends_new_jobs_def loop_failed_def try_state_def set_state_def
      can_transition_def loop_backed_off_def loop_recovered_def drain_timer_fired_def accepts_new_authorization_def Let_def)

text \<open>
  C31: a failing pool recovers by itself and does not override the operator. When the poll of an active
  pool fails the pool is in the error state with the error recorded; if nobody acts, the end of the
  back-off makes it active and polling again; if an operator or the master put it in any other state
  meanwhile, the loop resumes in that state and leaves it alone.
\<close>

theorem failed_pool_recovers:
  assumes "sv_state s = Active" and "sv_loop s = InPoll" and "sv_has_poller s"
  shows "let s1 = fst (loop_failed t1 s err) in
    sv_state s1 = Errored \<and> sv_last_error s1 = err \<and> sv_loop s1 = Backoff
    \<and> loop_enabled s1 LoopBackedOff \<and> loop_enabled (loop_backed_off s1) LoopRecovered
    \<and> polls_on_tick (fst (loop_recovered t2 (loop_backed_off s1)))
    \<and> sv_state (fst (loop_recovered t2 (loop_backed_off s1))) = Active
    \<and> (\<forall>to reason s2 chg. set_state t3 s1 to reason = Inr (s2, chg) \<longrightarrow> to \<noteq> Errored \<longrightarrow>
         loop_backed_off s2 = s2\<lparr>sv_loop := Polling\<rparr> \<and> sv_state (loop_backed_off s2) = to)"
  using assms
  by (auto simp: polls_on_tick_def runs_template_polling_def loop_failed_def try_state_def set_state_def
    can_transition_def loop_backed_off_def loop_recovered_def Let_def split: if_splits)

subsection \<open>The gate other components rely on\<close>

text \<open>What the stratum handler relies on of the lifecycle manager: the answer whether new workers are
  accepted agrees with the state reported.\<close>

locale pool_gate =
  fixes accepts :: "string \<Rightarrow> 'e + bool"
    and state_of :: "string \<Rightarrow> 'e + pool_state"
  assumes gate: "accepts p = (case state_of p of Inl e \<Rightarrow> Inl e | Inr st \<Rightarrow> Inr (accepts_new_authorization st))"
begin

lemma accepting_active: "accepts p = Inr True \<longleftrightarrow> state_of p = Inr Active"
  by (auto simp: gate accepts_new_authorization_def split: sum.splits)

lemma refusing_known: "accepts p = Inr False \<Longrightarrow> \<exists>st. state_of p = Inr st \<and> st \<noteq> Active"
  by (auto simp: gate accepts_new_authorization_def split: sum.splits)

end

interpretation lg: pool_gate "pool_accepts_authorization lc" "get_pool_state lc" for lc
  by unfold_locales (simp add: pool_accepts_authorization_def get_pool_state_def split: option.splits)

subsection \<open>Samples\<close>

definition sample_lifecycle :: lifecycle where
  "sample_lifecycle = lifecycle_start (new_lifecycle 0 [sample_pool_config ''btc'', sample_pool_config ''ltc''])"

definition sample_service :: "pool_state \<Rightarrow> service" where
  "sample_service st = (new_service 0 (sample_pool_config ''btc''))\<lparr>sv_state := st, sv_loop := InPoll, sv_has_poller := True\<rparr>"

theorem lifecycle_changes_legal_witness:
  "\<exists>lc lg s. pool_step\<^sup>*\<^sup>* (sample_lifecycle, []) (lc, lg) \<and> length lg = 1 \<and> lc_pools lc ''btc'' = Some s
    \<and> chain Active lg (sv_state s)"
proof -
  obtain lc lg e where r: "apply_op 7 sample_lifecycle ''btc'' (OpDrain 60) = (lc, lg, e)"
    by (cases "apply_op 7 sample_lifecycle ''btc'' (OpDrain 60)")
  have "case apply_op 7 sample_lifecycle ''btc'' (OpDrain 60) of (lc, lg, e) \<Rightarrow>
      length lg = 1 \<and> list_all (\<lambda>c. sc_pool_id c = ''btc'') lg" by code_simp
  then have l: "length lg = 1" "[c \<leftarrow> lg. sc_pool_id c = ''btc''] = lg"
    unfolding r prod.case by (simp_all add: list_all_iff filter_id_conv)
  have "map_option sv_state (lc_pools sample_lifecycle ''btc'') = Some Active" by code_simp
  then obtain s0 where s0: "lc_pools sample_lifecycle ''btc'' = Some s0" "sv_state s0 = Active" by auto
  have st: "pool_step\<^sup>*\<^sup>* (sample_lifecycle, []) (lc, lg)" using step_op [OF r, of "[]"] by simp
  from lifecycle_changes_legal [OF st [unfolded sample_lifecycle_def]] s0
  obtain s where "lc_pools lc ''btc'' = Some s" "chain (sv_state s0) [c \<leftarrow> lg. sc_pool_id c = ''btc''] (sv_state s)"
    unfolding sample_lifecycle_def by blast
  with st l s0 show ?thesis by auto
qed

theorem resume_after_disable_idle_witness:
  "\<exists>s. lc_pools (fst (start_pool 9 (fst (resume_pool 9 (fst (disable_pool 9 sample_lifecycle ''btc'')) ''btc'')) ''btc'')) ''btc'' = Some s
    \<and> sv_state s = Active \<and> sv_loop s = Stopped"
proof -
  have "lc_started sample_lifecycle \<and> lc_pools sample_lifecycle ''btc'' \<noteq> None" by code_simp
  then obtain s where "lc_pools sample_lifecycle ''btc'' = Some s" "lc_started sample_lifecycle" by auto
  from resume_after_disable_idle [OF this, of 9] show ?thesis by blast
qed

theorem poll_error_overrides_operator_witness:
  "sv_state (fst (drain_timer_fired 3 (fst (loop_recovered 2 (loop_backed_off (fst (loop_failed 1 (sample_service Paused) ''e''))))))) = Active"
  using poll_error_overrides_operator [of "sample_service Paused" 1 "''e''" 2 3] by (simp add: sample_service_def Let_def)

theorem failed_pool_recovers_witness:
  "polls_on_tick (fst (loop_recovered 2 (loop_backed_off (fst (loop_failed 1 (sample_service Active) ''e'')))))"
  using failed_pool_recovers [of "sample_service Active" 1 "''e''" 2] by (simp add: sample_service_def Let_def)

end
