(* ===== verification/Base64.thy ===== *)
theory Base64
  imports Prelude
begin

text \<open>
  The standard base64 encoding with padding, in which \<open>encoding/json\<close> writes the payload of a spool
  record (\<open>internal/spool\<close>), and its strict decoding.
\<close>

definition b64_alphabet :: string where
  "b64_alphabet = ''ABCDEFGHIJKLMNOPQRSTUVWXYZabcdefghijklmnopqrstuvwxyz0123456789+/''"

definition b64_char :: "nat \<Rightarrow> char" where
  "b64_char n = b64_alphabet ! n"

fun index_in :: "'a \<Rightarrow> 'a list \<Rightarrow> nat option" where
  "index_in c [] = None"
| "index_in c (x # xs) = (if x = c then Some 0 else map_option Suc (index_in c xs))"

definition b64_digit :: "char \<Rightarrow> nat option" where
  "b64_digit c = index_in c b64_alphabet"

definition b64_pad :: char where
  "b64_pad = CHR ''=''"

fun b64_encode :: "bytes \<Rightarrow> string" where
  "b64_encode [] = []"
| "b64_encode [a] =
     (let n = unat a * 16 in [b64_char (n div 64), b64_char (n mod 64), b64_pad, b64_pad])"
| "b64_encode [a, b] =
     (let n = unat a * 1024 + unat b * 4
      in [b64_char (n div 4096), b64_char (n div 64 mod 64), b64_char (n mod 64), b64_pad])"
| "b64_encode (a # b # c # bs) =
     (let n = unat a * 65536 + unat b * 256 + unat c
      in b64_char (n div 262144) # b64_char (n div 4096 mod 64) # b64_char (n div 64 mod 64) # b64_char (n mod 64)
         # b64_encode bs)"

definition b64_group :: "char \<Rightarrow> char \<Rightarrow> char \<Rightarrow> char \<Rightarrow> nat option" where
  "b64_group w x y z =
     (case (b64_digit w, b64_digit x, b64_digit y, b64_digit z) of
        (Some i, Some j, Some k, Some l) \<Rightarrow> Some (i * 262144 + j * 4096 + k * 64 + l)
      | _ \<Rightarrow> None)"

text \<open>The last group may be padded; a padded group is read with zero digits for the padding.\<close>

fun b64_decode :: "string \<Rightarrow> bytes option" where
  "b64_decode [] = Some []"
| "b64_decode (w # x # y # z # cs) =
     (if cs = [] \<and> y = b64_pad \<and> z = b64_pad
      then map_option (\<lambda>n. [word_of_nat (n div 65536)]) (b64_group w x (b64_char 0) (b64_char 0))
      else if cs = [] \<and> z = b64_pad
      then map_option (\<lambda>n. [word_of_nat (n div 65536), word_of_nat (n div 256 mod 256)]) (b64_group w x y (b64_char 0))
      else (case b64_group w x y z of None \<Rightarrow> None
            | Some n \<Rightarrow> map_option (\<lambda>bs. word_of_nat (n div 65536) # word_of_nat (n div 256 mod 256) # word_of_nat (n mod 256) # bs)
                         (b64_decode cs)))"
| "b64_decode _ = None"

lemma all_digits: "\<forall>i \<in> set [0..<64]. b64_digit (b64_char i) = Some i \<and> b64_char i \<noteq> b64_pad"
  by code_simp

lemma b64_digit_char [simp]: "i < 64 \<Longrightarrow> b64_digit (b64_char i) = Some i" "i < 64 \<Longrightarrow> b64_char i \<noteq> b64_pad"
  using all_digits by auto

lemma b64_group_chars:
  "i < 64 \<Longrightarrow> j < 64 \<Longrightarrow> k < 64 \<Longrightarrow> l < 64 \<Longrightarrow>
     b64_group (b64_char i) (b64_char j) (b64_char k) (b64_char l) = Some (i * 262144 + j * 4096 + k * 64 + l)"
  by (simp add: b64_group_def)

lemma unat_byte: "unat (a :: 8 word) < 256"
  using unsigned_less [of a] by simp

lemma base64_shift: "n div 4096 = n div 64 div 64" "n div 262144 = n div 64 div 64 div (64 :: nat)"
  by (simp_all add: div_mult2_eq [symmetric])

lemma base64_digits: "n div 262144 * 262144 + n div 4096 mod 64 * 4096 + n div 64 mod 64 * 64 + n mod 64 = (n :: nat)"
  unfolding base64_shift
  using div_mult_mod_eq [of n 64] div_mult_mod_eq [of "n div 64" 64] div_mult_mod_eq [of "n div 64 div 64" 64] by linarith

lemma split_bytes:
  fixes a b c :: "8 word"
  assumes "n = unat a * 65536 + unat b * 256 + unat c"
  shows "n div 65536 = unat a" "n div 256 mod 256 = unat b" "n mod 256 = unat c" "n div 262144 < 64"
proof -
  note bounds = unat_byte [of a] unat_byte [of b] unat_byte [of c]
  show "n div 65536 = unat a" by (rule div_nat_eqI) (use bounds assms in simp_all)
  have m: "n div 256 = unat a * 256 + unat b" by (rule div_nat_eqI) (use bounds assms in simp_all)
  show "n div 256 mod 256 = unat b" using bounds(2) by (simp add: m)
  have "n = unat c + (unat a * 256 + unat b) * 256" using assms by simp
  then have "n mod 256 = unat c mod 256" by (metis mod_mult_self1)
  then show "n mod 256 = unat c" using bounds(3) by simp
  show "n div 262144 < 64" using bounds assms by (intro div_less_iff_less_mult [THEN iffD2]) linarith+
qed

theorem b64_round_trip: "b64_decode (b64_encode bs) = Some bs"
proof (induction bs rule: b64_encode.induct)
  case (2 a)
  let ?n = "unat a * 65536 + unat (0 :: 8 word) * 256 + unat (0 :: 8 word)"
  have d: "unat a * 16 div 64 = ?n div 262144" "unat a * 16 mod 64 = ?n div 4096 mod 64" "?n div 64 mod 64 = 0" "?n mod 64 = 0"
    by (simp_all add: div_mult2_eq [symmetric]) presburger+
  note s = split_bytes [OF refl, of a 0 0]
  show ?case using s(1,4) base64_digits [of ?n] unfolding b64_encode.simps Let_def d(1,2)
    by (simp add: b64_group_chars d(3,4))
next
  case (3 a b)
  let ?n = "unat a * 65536 + unat b * 256 + unat (0 :: 8 word)" and ?k = "unat a * 1024 + unat b * 4"
  have "?n = ?k * 64" by simp
  then have n: "?n div 64 = ?k" "?n mod 64 = 0" by (metis nonzero_mult_div_cancel_right zero_neq_numeral, metis mod_mult_self2_is_0)
  have d: "?k div 4096 = ?n div 262144" "?k div 64 mod 64 = ?n div 4096 mod 64" "?k mod 64 = ?n div 64 mod 64" "?n mod 64 = 0"
    unfolding base64_shift n by simp_all
  note s = split_bytes [OF refl, of a b 0]
  show ?case using s(1,2,4) base64_digits [of ?n] unfolding b64_encode.simps Let_def d(1-3)
    by (simp add: b64_group_chars d(4))
next
  case (4 a b c bs)
  let ?n = "unat a * 65536 + unat b * 256 + unat c"
  show ?case using 4 split_bytes [OF refl, of a b c] base64_digits [of ?n] by (simp add: Let_def b64_group_chars)
qed simp

text \<open>What an encoded payload is made of.\<close>

lemma alphabet_chars: "\<forall>i \<in> set [0..<64]. b64_char i \<notin> {CHR 0x22, CHR 0x0A, CHR 0x5C}"
  by code_simp

lemma b64_char_plain [simp]: "i < 64 \<Longrightarrow> b64_char i \<noteq> CHR 0x22" "i < 64 \<Longrightarrow> b64_char i \<noteq> CHR 0x0A" "i < 64 \<Longrightarrow> b64_char i \<noteq> CHR 0x5C"
  using alphabet_chars by auto

lemma b64_encode_plain: "set (b64_encode bs) \<inter> {CHR 0x22, CHR 0x0A, CHR 0x5C} = {}"
proof (induction bs rule: b64_encode.induct)
  case (2 a)
  have "unat a * 16 div 64 < 64" using unat_byte [of a] by (simp add: div_less_iff_less_mult)
  then show ?case by (simp add: Let_def b64_pad_def)
next
  case (3 a b)
  have "(unat a * 1024 + unat b * 4) div 4096 < 64" using unat_byte [of a] unat_byte [of b] by (simp add: div_less_iff_less_mult)
  then show ?case by (simp add: Let_def b64_pad_def)
next
  case (4 a b c bs)
  then show ?case using split_bytes(4) [OF refl, of a b c] by (simp add: Let_def)
qed simp

end
