(* ===== verification/Protocol.thy ===== *)
theory Protocol
  imports Prelude
begin

text \<open>
  \<open>internal/stratum/protocol\<close>: the request and error shapes of Stratum V1 (\<open>message.go\<close>) and
  the line reader (\<open>codec.go\<close>). \<open>decode\<close> maps a line to the decoded request, \<open>None\<close> where
  \<open>Unmarshal\<close> fails, and is an argument here (\<open>decode_line\<close> of the \<open>Wire\<close> theory); a decoded value is a \<open>json\<close>.
\<close>

datatype json =
    JNull
  | JBool bool
  | JNumber string
  | JString string
  | JArray "json list"
  | JObject "(string \<times> json) list"

record request =
  rq_id :: "json option"
  rq_method :: string
  rq_params :: "json option"

definition method_subscribe :: string where "method_subscribe = ''mining.subscribe''"
definition method_authorize :: string where "method_authorize = ''mining.authorize''"
definition method_configure :: string where "method_configure = ''mining.configure''"
definition method_submit :: string where "method_submit = ''mining.submit''"
definition method_get_version :: string where "method_get_version = ''client.get_version''"

definition err_other :: int where "err_other = 20"
definition err_job_not_found :: int where "err_job_not_found = 21"
definition err_duplicate_share :: int where "err_duplicate_share = 22"
definition err_low_difficulty :: int where "err_low_difficulty = 23"
definition err_unauthorized :: int where "err_unauthorized = 24"
definition err_not_subscribed :: int where "err_not_subscribed = 25"

subsection \<open>Decoding positional parameters\<close>

text \<open>\<open>Unmarshal\<close> into \<open>[]json.RawMessage\<close>: an error leaves the slice nil, as does \<open>null\<close>.\<close>

definition raw_list :: "json option \<Rightarrow> json list option" where
  "raw_list p = (case p of None \<Rightarrow> None | Some JNull \<Rightarrow> Some [] | Some (JArray xs) \<Rightarrow> Some xs | Some _ \<Rightarrow> None)"

text \<open>\<open>Unmarshal\<close> into a \<open>string\<close>: \<open>null\<close> is no error and leaves it empty.\<close>

definition json_string :: "json \<Rightarrow> string option" where
  "json_string j = (case j of JString s \<Rightarrow> Some s | JNull \<Rightarrow> Some [] | _ \<Rightarrow> None)"

text \<open>\<open>Unmarshal\<close> into \<open>[]string\<close>.\<close>

fun all_strings :: "json list \<Rightarrow> string list option" where
  "all_strings [] = Some []"
| "all_strings (x # xs) =
     (case json_string x of None \<Rightarrow> None
      | Some s \<Rightarrow> (case all_strings xs of None \<Rightarrow> None | Some ss \<Rightarrow> Some (s # ss)))"

definition string_list :: "json option \<Rightarrow> string list option" where
  "string_list p = (case raw_list p of None \<Rightarrow> None | Some xs \<Rightarrow> all_strings xs)"

text \<open>The strings a failing decode still leaves in the slice.\<close>

definition some_strings :: "json \<Rightarrow> string list" where
  "some_strings p =
     (case p of JArray xs \<Rightarrow> map (\<lambda>x. case json_string x of None \<Rightarrow> [] | Some s \<Rightarrow> s) xs | _ \<Rightarrow> [])"

subsection \<open>Reading lines\<close>

definition is_line_space :: "char \<Rightarrow> bool" where
  "is_line_space c = (of_char c \<in> {32, 9, 13, 10 :: int})"

definition trim_line :: "string \<Rightarrow> string" where
  "trim_line b = rev (dropWhile is_line_space (rev (dropWhile is_line_space b)))"

text \<open>The lines still to come, without their newlines; a read error of the connection (a deadline) reads
  like its end. \<open>bufio.Scanner\<close> gives up for good on a line that does not fit its buffer, which is
  the larger of the limit plus one and the 4096 bytes it was handed: that read fails, the next one
  returns what the buffer holds as a last line, and every later one reports the error again.\<close>

record line_reader =
  lr_lines :: "string list"
  lr_max_line :: nat
  lr_failed :: bool
  lr_buffered :: "string option"

datatype read_result = RdEOF | RdTooLong | RdMalformed | RdBlank | RdRequest request

definition new_reader :: "string list \<Rightarrow> nat \<Rightarrow> line_reader" where
  "new_reader ls max_line = \<lparr>lr_lines = ls, lr_max_line = max_line, lr_failed = False, lr_buffered = None\<rparr>"

definition scan_buffer_size :: "nat \<Rightarrow> nat" where
  "scan_buffer_size max_line = max (max_line + 1) 4096"

definition drop_cr :: "string \<Rightarrow> string" where
  "drop_cr l = (if l \<noteq> [] \<and> of_char (last l) = (13 :: int) then butlast l else l)"

definition judge_line :: "(string \<Rightarrow> request option) \<Rightarrow> nat \<Rightarrow> string \<Rightarrow> read_result" where
  "judge_line decode max_line line =
     (if length line > max_line then RdTooLong
      else if trim_line line = [] then RdBlank
      else case decode line of None \<Rightarrow> RdMalformed | Some req \<Rightarrow> RdRequest req)"

definition read_line :: "(string \<Rightarrow> request option) \<Rightarrow> line_reader \<Rightarrow> line_reader \<times> read_result" where
  "read_line decode r =
     (if lr_failed r
      then (case lr_buffered r of None \<Rightarrow> (r, RdTooLong)
            | Some b \<Rightarrow> (r\<lparr>lr_buffered := None\<rparr>, judge_line decode (lr_max_line r) (drop_cr b)))
      else case lr_lines r of [] \<Rightarrow> (r, RdEOF)
      | l # ls \<Rightarrow>
        if length l \<ge> scan_buffer_size (lr_max_line r)
        then (r\<lparr>lr_failed := True, lr_buffered := Some (take (scan_buffer_size (lr_max_line r)) l)\<rparr>, RdTooLong)
        else (r\<lparr>lr_lines := ls\<rparr>, judge_line decode (lr_max_line r) (drop_cr l)))"

lemma read_line_progress:
  "\<not> lr_failed r \<Longrightarrow> read_line decode r = (r', x) \<Longrightarrow>
     lr_failed r' \<or> x = RdEOF \<or> length (lr_lines r') < length (lr_lines r)"
  by (auto simp: read_line_def split: list.splits if_splits)

text \<open>A reader that will only report over-long lines from now on.\<close>

definition spent :: "line_reader \<Rightarrow> bool" where
  "spent r \<longleftrightarrow> lr_failed r \<and> (case lr_buffered r of None \<Rightarrow> True | Some b \<Rightarrow> length (drop_cr b) > lr_max_line r)"

lemma read_line_spent:
  assumes "spent r"
  obtains r' where "read_line decode r = (r', RdTooLong)" "spent r'"
proof (cases "lr_buffered r")
  case None
  with assms show ?thesis using that [of r] by (simp add: read_line_def spent_def)
next
  case (Some b)
  with assms show ?thesis using that [of "r\<lparr>lr_buffered := None\<rparr>"] by (simp add: read_line_def spent_def judge_line_def)
qed

text \<open>An over-long line whose last buffered byte is not a carriage return.\<close>

lemma read_line_over_long:
  assumes "scan_buffer_size m \<le> length l" and "of_char (l ! (scan_buffer_size m - 1)) \<noteq> (13 :: int)"
  obtains r' where "read_line decode (new_reader (l # ls) m) = (r', RdTooLong)" "spent r'"
proof -
  let ?b = "take (scan_buffer_size m) l"
  have pos: "0 < scan_buffer_size m" "m < scan_buffer_size m" by (simp_all add: scan_buffer_size_def)
  have "last ?b = l ! (scan_buffer_size m - 1)" using assms(1) pos by (subst last_conv_nth) (auto simp: min_def)
  then have "drop_cr ?b = ?b" using assms(2) by (simp add: drop_cr_def)
  then have "spent \<lparr>lr_lines = l # ls, lr_max_line = m, lr_failed = True, lr_buffered = Some ?b\<rparr>"
    using assms(1) pos by (simp add: spent_def)
  with that show ?thesis using assms(1) by (simp add: read_line_def new_reader_def)
qed

end
