(* ===== verification/Spool.thy ===== *)
theory Spool
  imports Base64 Protocol
begin

text \<open>
  \<open>internal/spool\<close>: the append-only file that holds events while the database or the message bus is
  away. The file is a string of bytes; what the disk does to a write, a sync or a rename is an argument
  of the operation. Lines are written by \<open>json.Marshal\<close>, modelled for subjects of printable characters
  that need no escape; a line of any other shape than those it writes reads as corrupt.
\<close>

record spool_record =
  rc_subject :: string
  rc_payload :: bytes

definition newline :: char where "newline = CHR 0x0A"
definition dquote :: char where "dquote = CHR 0x22"

definition key_subject :: string where
  "key_subject = ''{'' @ [dquote] @ ''subject'' @ [dquote] @ '':'' @ [dquote]"

definition key_payload :: string where
  "key_payload = [dquote] @ '','' @ [dquote] @ ''payload'' @ [dquote] @ '':'' @ [dquote]"

definition record_end :: string where
  "record_end = [dquote] @ ''}''"

definition marshal_record :: "spool_record \<Rightarrow> string" where
  "marshal_record r = key_subject @ rc_subject r @ key_payload @ b64_encode (rc_payload r) @ record_end"

definition strip_prefix :: "string \<Rightarrow> string \<Rightarrow> string option" where
  "strip_prefix p s = (if take (length p) s = p then Some (drop (length p) s) else None)"

definition unmarshal_record :: "string \<Rightarrow> spool_record option" where
  "unmarshal_record s =
     (case strip_prefix key_subject s of None \<Rightarrow> None
      | Some s1 \<Rightarrow>
        let subject = takeWhile (\<lambda>c. c \<noteq> dquote) s1
        in case strip_prefix key_payload (dropWhile (\<lambda>c. c \<noteq> dquote) s1) of None \<Rightarrow> None
           | Some s2 \<Rightarrow>
             if dropWhile (\<lambda>c. c \<noteq> dquote) s2 \<noteq> record_end then None
             else map_option (\<lambda>p. \<lparr>rc_subject = subject, rc_payload = p\<rparr>)
                    (b64_decode (takeWhile (\<lambda>c. c \<noteq> dquote) s2)))"

text \<open>Subjects that \<open>json.Marshal\<close> writes as they are.\<close>

definition plain_char :: "char \<Rightarrow> bool" where
  "plain_char c \<longleftrightarrow> (let n = of_char c :: int in 32 \<le> n \<and> n < 127 \<and> n \<notin> {34, 38, 60, 62, 92})"

definition plain_record :: "spool_record \<Rightarrow> bool" where
  "plain_record r \<longleftrightarrow> list_all plain_char (rc_subject r)"

subsection \<open>The file\<close>

fun scan_lines :: "string \<Rightarrow> string list" where
  "scan_lines [] = []"
| "scan_lines (c # cs) =
     (if c = newline then [] # scan_lines cs
      else (case scan_lines cs of [] \<Rightarrow> [[c]] | l # ls \<Rightarrow> (c # l) # ls))"

definition scan_limit :: int where
  "scan_limit = 16777216"

definition scan_fits :: "string \<Rightarrow> bool" where
  "scan_fits file = list_all (\<lambda>l. int (length l) < scan_limit) (scan_lines file)"

definition parse_file :: "(string \<Rightarrow> 'r option) \<Rightarrow> string \<Rightarrow> 'r list" where
  "parse_file dec file = List.map_filter dec (filter (\<lambda>l. l \<noteq> []) (map drop_cr (scan_lines file)))"

definition serialize :: "('r \<Rightarrow> string) \<Rightarrow> 'r list \<Rightarrow> string" where
  "serialize enc rs = concat (map (\<lambda>r. enc r @ [newline]) rs)"

record spool =
  sp_file :: string
  sp_size :: int
  sp_max :: int
  sp_open :: bool

definition default_max_bytes :: int where
  "default_max_bytes = 268435456"

definition open_spool :: "string \<Rightarrow> int \<Rightarrow> spool" where
  "open_spool file max_bytes =
     \<lparr>sp_file = file, sp_size = int (length file),
      sp_max = (if max_bytes \<le> 0 then default_max_bytes else max_bytes), sp_open = True\<rparr>"

datatype spool_error = SpoolFull | SpoolIO | ScanTooLong | ReplayFailed

datatype write_result = WriteOk | SyncFailed | WriteTorn nat

definition spool_append :: "write_result \<Rightarrow> spool \<Rightarrow> spool_record \<Rightarrow> spool \<times> (spool_error + unit)" where
  "spool_append w sp r =
     (let line = marshal_record r @ [newline]; n = int (length line) in
      if sp_size sp + n > sp_max sp then (sp, Inl SpoolFull)
      else if \<not> sp_open sp then (sp, Inl SpoolIO)
      else
        let put = (\<lambda>l. sp\<lparr>sp_file := sp_file sp @ l, sp_size := sp_size sp + int (length l)\<rparr>) in
        case w of
          WriteOk \<Rightarrow> (put line, Inr ())
        | SyncFailed \<Rightarrow> (put line, Inl SpoolIO)
        | WriteTorn k \<Rightarrow> (put (take k line), Inl SpoolIO))"

text \<open>What goes wrong while draining: the file cannot be read, the rest cannot be rewritten (the old file
  stays), or the new file cannot be opened for appending (the size stays the old one).\<close>

datatype disk_result = DiskOk | ReadIO | RewriteIO | ReopenIO

definition spool_rewrite :: "disk_result \<Rightarrow> spool \<Rightarrow> spool_record list \<Rightarrow> spool \<times> (spool_error + unit)" where
  "spool_rewrite d sp rs =
     (let file = serialize marshal_record rs in
      case d of
        RewriteIO \<Rightarrow> (sp, Inl SpoolIO)
      | ReopenIO \<Rightarrow> (sp\<lparr>sp_file := file, sp_open := False\<rparr>, Inl SpoolIO)
      | _ \<Rightarrow> (sp\<lparr>sp_file := file, sp_size := int (length file), sp_open := True\<rparr>, Inr ()))"

text \<open>The callback is a function on a state of its own; it says whether it succeeded.\<close>

fun replay_each :: "('s \<Rightarrow> spool_record \<Rightarrow> 's \<times> bool) \<Rightarrow> 's \<Rightarrow> spool_record list \<Rightarrow> 's \<times> spool_record list \<times> bool" where
  "replay_each fn st [] = (st, [], True)"
| "replay_each fn st (r # rs) =
     (let (st', ok) = fn st r in if ok then replay_each fn st' rs else (st', r # rs, False))"

function replay_batches ::
  "nat \<Rightarrow> ('s \<Rightarrow> spool_record list \<Rightarrow> 's \<times> bool) \<Rightarrow> 's \<Rightarrow> spool_record list \<Rightarrow> 's \<times> spool_record list \<times> bool" where
  "replay_batches n fn st rs =
     (if rs = [] then (st, [], True)
      else let (st', ok) = fn st (take (Suc n) rs)
           in if ok then replay_batches n fn st' (drop (Suc n) rs) else (st', rs, False))"
  by pat_completeness auto
termination by (relation "measure (\<lambda>(n, fn, st, rs). length rs)") auto

declare replay_batches.simps [simp del]

definition finish_drain ::
  "disk_result \<Rightarrow> spool \<Rightarrow> 's \<times> spool_record list \<times> bool \<Rightarrow> 's \<times> spool \<times> (spool_error + unit)" where
  "finish_drain d sp r =
     (case r of (st, rest, ok) \<Rightarrow>
        let (sp', res) = spool_rewrite d sp rest
        in (st, sp', case res of Inl e \<Rightarrow> Inl e | Inr _ \<Rightarrow> if ok then Inr () else Inl ReplayFailed))"

definition spool_drain ::
  "disk_result \<Rightarrow> ('s \<Rightarrow> spool_record \<Rightarrow> 's \<times> bool) \<Rightarrow> 's \<Rightarrow> spool \<Rightarrow> 's \<times> spool \<times> (spool_error + unit)" where
  "spool_drain d fn st sp =
     (if sp_size sp = 0 then (st, sp, Inr ())
      else if d = ReadIO then (st, sp, Inl SpoolIO)
      else if \<not> scan_fits (sp_file sp) then (st, sp, Inl ScanTooLong)
      else finish_drain d sp (replay_each fn st (parse_file unmarshal_record (sp_file sp))))"

definition spool_drain_batch ::
  "disk_result \<Rightarrow> int \<Rightarrow> ('s \<Rightarrow> spool_record list \<Rightarrow> 's \<times> bool) \<Rightarrow> 's \<Rightarrow> spool \<Rightarrow> 's \<times> spool \<times> (spool_error + unit)" where
  "spool_drain_batch d batch_size fn st sp =
     (let n = (if batch_size \<le> 0 then 1000 else batch_size) in
      if sp_size sp = 0 then (st, sp, Inr ())
      else if d = ReadIO then (st, sp, Inl SpoolIO)
      else if \<not> scan_fits (sp_file sp) then (st, sp, Inl ScanTooLong)
      else finish_drain d sp (replay_batches (nat (n - 1)) fn st (parse_file unmarshal_record (sp_file sp))))"

subsection \<open>Line files\<close>

text \<open>What the file needs of a record's encoding.\<close>

locale line_codec =
  fixes enc :: "'r \<Rightarrow> string" and dec :: "string \<Rightarrow> 'r option" and good :: "'r \<Rightarrow> bool"
  assumes dec_enc: "good r \<Longrightarrow> dec (enc r) = Some r"
    and one_line: "good r \<Longrightarrow> newline \<notin> set (enc r)"
    and ends: "enc r \<noteq> [] \<and> of_char (last (enc r)) \<noteq> (13 :: int)"
begin

lemma scan_line: "newline \<notin> set l \<Longrightarrow> scan_lines (l @ newline # s) = l # scan_lines s"
  by (induction l) auto

lemma scan_tail: "newline \<notin> set l \<Longrightarrow> l \<noteq> [] \<Longrightarrow> scan_lines l = [l]"
proof (induction l)
  case (Cons c l)
  then show ?case by (cases l) auto
qed simp

lemma parse_line: "good r \<Longrightarrow> parse_file dec (enc r @ newline # s) = r # parse_file dec s"
  using ends [of r] by (simp add: parse_file_def scan_line one_line drop_cr_def dec_enc map_filter_simps)

theorem parse_serialize: "list_all good rs \<Longrightarrow> parse_file dec (serialize enc rs @ s) = rs @ parse_file dec s"
  by (induction rs) (simp_all add: serialize_def parse_line)

lemma parse_serialized [simp]: "list_all good rs \<Longrightarrow> parse_file dec (serialize enc rs) = rs"
  using parse_serialize [of rs "[]"] by (simp add: parse_file_def map_filter_simps)

lemma serialize_snoc: "serialize enc rs @ enc r @ [newline] = serialize enc (rs @ [r])"
  by (simp add: serialize_def)

text \<open>A line that starts with the remains of a torn write.\<close>

lemma parse_torn:
  assumes "list_all good rs" and "newline \<notin> set t" and "good r" and "dec (t @ enc r) = None"
  shows "parse_file dec (serialize enc rs @ t @ enc r @ newline # s) = rs @ parse_file dec s"
proof -
  have "scan_lines ((t @ enc r) @ newline # s) = (t @ enc r) # scan_lines s"
    by (rule scan_line) (use assms one_line in auto)
  moreover have "drop_cr (t @ enc r) = t @ enc r" using ends [of r] by (simp add: drop_cr_def)
  ultimately have "parse_file dec ((t @ enc r) @ newline # s) = parse_file dec s"
    using assms(4) ends [of r] by (simp add: parse_file_def map_filter_simps)
  then show ?thesis using parse_serialize [OF assms(1), of "(t @ enc r) @ newline # s"] by simp
qed

end

subsection \<open>The JSON lines\<close>

lemma plain_char_quote: "plain_char c \<Longrightarrow> c \<noteq> dquote \<and> c \<noteq> newline"
  by (auto simp: plain_char_def dquote_def newline_def Let_def)

lemma plain_subject: "plain_record r \<Longrightarrow> dquote \<notin> set (rc_subject r) \<and> newline \<notin> set (rc_subject r)"
  using plain_char_quote by (auto simp: plain_record_def list_all_iff)

lemma payload_chars: "dquote \<notin> set (b64_encode bs) \<and> newline \<notin> set (b64_encode bs)"
  using b64_encode_plain [of bs] by (auto simp: dquote_def newline_def)

lemma takeWhile_quote: "dquote \<notin> set s \<Longrightarrow> takeWhile (\<lambda>c. c \<noteq> dquote) (s @ dquote # t) = s"
  "dquote \<notin> set s \<Longrightarrow> dropWhile (\<lambda>c. c \<noteq> dquote) (s @ dquote # t) = dquote # t"
  by (induction s) auto

lemma unmarshal_marshal:
  assumes "plain_record r"
  shows "unmarshal_record (marshal_record r) = Some r"
proof -
  have kp: "key_payload @ x = dquote # (CHR '','' # dquote # ''payload'' @ [dquote, CHR '':'', dquote] @ x)"
    "record_end = dquote # ''}''" for x
    by (simp_all add: key_payload_def record_end_def)
  let ?s2 = "b64_encode (rc_payload r) @ record_end" and ?s1 = "rc_subject r @ key_payload @ b64_encode (rc_payload r) @ record_end"
  have s: "strip_prefix key_subject (marshal_record r) = Some ?s1" by (simp add: strip_prefix_def marshal_record_def)
  have t1: "takeWhile (\<lambda>c. c \<noteq> dquote) ?s1 = rc_subject r" "dropWhile (\<lambda>c. c \<noteq> dquote) ?s1 = key_payload @ ?s2"
    unfolding kp(1) by (rule takeWhile_quote, use plain_subject [OF assms] in blast)+
  have t2: "takeWhile (\<lambda>c. c \<noteq> dquote) ?s2 = b64_encode (rc_payload r)" "dropWhile (\<lambda>c. c \<noteq> dquote) ?s2 = record_end"
    unfolding kp(2) by (rule takeWhile_quote, use payload_chars in blast)+
  have s2: "strip_prefix key_payload (key_payload @ ?s2) = Some ?s2" by (simp add: strip_prefix_def)
  show ?thesis
    unfolding unmarshal_record_def s option.case Let_def t1 s2 t2 by (simp add: b64_round_trip)
qed

interpretation jl: line_codec marshal_record unmarshal_record plain_record
proof
  show "plain_record r \<Longrightarrow> unmarshal_record (marshal_record r) = Some r" for r by (rule unmarshal_marshal)
  show "newline \<notin> set (marshal_record r)" if "plain_record r" for r
    using plain_subject [OF that] payload_chars [of "rc_payload r"]
    by (simp add: marshal_record_def key_subject_def key_payload_def record_end_def newline_def dquote_def)
  show "marshal_record r \<noteq> [] \<and> of_char (last (marshal_record r)) \<noteq> (13 :: int)" for r
    by (simp add: marshal_record_def record_end_def)
qed

subsection \<open>Torn writes\<close>

text \<open>A line that reads as a record has eight quotes.\<close>

lemma quote_parts:
  "length (filter (\<lambda>c. c = dquote) key_subject) + length (filter (\<lambda>c. c = dquote) key_payload)
     + length (filter (\<lambda>c. c = dquote) record_end) = 8"
  by (simp add: key_subject_def key_payload_def record_end_def dquote_def)

lemma quote_count:
  assumes "unmarshal_record s = Some r"
  shows "length (filter (\<lambda>c. c = dquote) s) = 8"
proof -
  obtain s1 where s1: "strip_prefix key_subject s = Some s1" using assms by (auto simp: unmarshal_record_def split: option.splits)
  let ?a = "takeWhile (\<lambda>c. c \<noteq> dquote) s1" and ?d = "dropWhile (\<lambda>c. c \<noteq> dquote) s1"
  obtain s2 where s2: "strip_prefix key_payload ?d = Some s2"
    using assms s1 by (auto simp: unmarshal_record_def Let_def split: option.splits)
  let ?b = "takeWhile (\<lambda>c. c \<noteq> dquote) s2" and ?e = "dropWhile (\<lambda>c. c \<noteq> dquote) s2"
  have e: "?e = record_end" using assms s1 s2 by (auto simp: unmarshal_record_def Let_def split: if_splits)
  have pre: "x = p @ y" if "strip_prefix p x = Some y" for p x y
  proof -
    have "take (length p) x = p" "y = drop (length p) x" using that by (simp_all add: strip_prefix_def split: if_splits)
    then show ?thesis using append_take_drop_id [of "length p" x] by simp
  qed
  have "s = key_subject @ s1" "s1 = ?a @ ?d" "?d = key_payload @ s2" "s2 = ?b @ ?e"
    by (rule pre [OF s1], rule takeWhile_dropWhile_id [symmetric], rule pre [OF s2], rule takeWhile_dropWhile_id [symmetric])
  then have "s = key_subject @ ?a @ key_payload @ ?b @ record_end" unfolding e [symmetric] by (simp only: append_assoc)
  moreover have "filter (\<lambda>c. c = dquote) (takeWhile (\<lambda>c. c \<noteq> dquote) x) = []" for x
    by (auto simp: filter_empty_conv dest: set_takeWhileD)
  ultimately have "filter (\<lambda>c. c = dquote) s
      = filter (\<lambda>c. c = dquote) key_subject @ filter (\<lambda>c. c = dquote) key_payload @ filter (\<lambda>c. c = dquote) record_end"
    by (simp only: filter_append append_Nil)
  then show ?thesis using quote_parts by simp
qed

text \<open>Nothing a write can leave of a line joins with a whole line into a record.\<close>

lemma torn_line_corrupt:
  assumes "plain_record b" and "0 < k" and "k \<le> length (marshal_record a)"
  shows "unmarshal_record (take k (marshal_record a) @ marshal_record b) = None"
proof (rule ccontr)
  let ?t = "take k (marshal_record a)" and ?q = "\<lambda>s. length (filter (\<lambda>c. c = dquote) s)"
  assume "unmarshal_record (?t @ marshal_record b) \<noteq> None"
  then obtain r where r: "unmarshal_record (?t @ marshal_record b) = Some r" by auto
  have "?q (?t @ marshal_record b) = 8" by (rule quote_count [OF r])
  moreover have "?q (marshal_record b) = 8" by (rule quote_count [OF unmarshal_marshal [OF assms(1)]])
  ultimately have none: "filter (\<lambda>c. c = dquote) ?t = []" by simp
  obtain rest where m: "marshal_record a = CHR ''{'' # dquote # rest" by (simp add: marshal_record_def key_subject_def)
  have "k = 1"
  proof (rule ccontr)
    assume "k \<noteq> 1"
    with assms(2) obtain k' where "k = Suc (Suc k')" by (metis One_nat_def gr0_conv_Suc nat.exhaust)
    with none show False by (simp add: m split: if_splits)
  qed
  then have t: "?t = ''{''" by (simp add: m)
  obtain rest' where "marshal_record b = CHR ''{'' # dquote # rest'" by (simp add: marshal_record_def key_subject_def)
  then show False using r by (simp add: t unmarshal_record_def strip_prefix_def key_subject_def dquote_def)
qed

text \<open>
  A write that fails half-way destroys the next event as well. When an append is cut off after any
  positive number of the line's bytes (a full disk), the record appended next, whose append reports
  success, shares its line with the remains: it is on disk but no drain will ever read it, then or
  after a restart. Everything before and after that line is intact.
\<close>

theorem torn_append_loses_next:
  assumes "sp_file sp = serialize marshal_record rs" and "list_all plain_record rs" and "plain_record a" and "plain_record b" and "sp_open sp"
    and "0 < k" and "k \<le> length (marshal_record a)"
    and "sp_size sp + int (length (marshal_record a)) + 1 \<le> sp_max sp"
    and "sp_size sp + int k + int (length (marshal_record b)) + 1 \<le> sp_max sp"
  shows "\<exists>sp1 sp2. spool_append (WriteTorn k) sp a = (sp1, Inl SpoolIO) \<and> spool_append WriteOk sp1 b = (sp2, Inr ())
    \<and> parse_file unmarshal_record (sp_file sp2) = rs
    \<and> parse_file unmarshal_record (sp_file (open_spool (sp_file sp2) m)) = rs
    \<and> (\<forall>c. plain_record c \<longrightarrow> parse_file unmarshal_record (sp_file sp2 @ marshal_record c @ [newline]) = rs @ [c])"
proof -
  let ?t = "take k (marshal_record a)" and ?line = "marshal_record b @ [newline]"
  let ?sp1 = "sp\<lparr>sp_file := sp_file sp @ ?t, sp_size := sp_size sp + int k\<rparr>"
  let ?sp2 = "?sp1\<lparr>sp_file := sp_file ?sp1 @ ?line, sp_size := sp_size ?sp1 + int (length ?line)\<rparr>"
  have one: "spool_append (WriteTorn k) sp a = (?sp1, Inl SpoolIO)"
    using assms(5,7,8) by (simp add: spool_append_def Let_def min_def)
  have two: "spool_append WriteOk ?sp1 b = (?sp2, Inr ())"
    using assms(5,9) by (simp add: spool_append_def Let_def)
  have torn: "parse_file unmarshal_record (sp_file ?sp2 @ s) = rs @ parse_file unmarshal_record s" for s
  proof -
    have "newline \<notin> set ?t" using jl.one_line [OF assms(3)] set_take_subset [of k "marshal_record a"] by blast
    then show ?thesis
      using jl.parse_torn [OF assms(2) _ assms(4) torn_line_corrupt [OF assms(4,6,7)], of s] by (simp add: assms(1))
  qed
  have "parse_file unmarshal_record (sp_file ?sp2) = rs" using torn [of "[]"] by (simp add: parse_file_def map_filter_simps)
  moreover have "parse_file unmarshal_record (sp_file ?sp2 @ marshal_record c @ [newline]) = rs @ [c]" if "plain_record c" for c
    using torn [of "marshal_record c @ [newline]"] jl.parse_line [OF that, of "[]"] by (simp add: parse_file_def map_filter_simps)
  ultimately show ?thesis using one two by (intro exI [of _ ?sp1] exI [of _ ?sp2]) (simp add: open_spool_def)
qed

theorem torn_append_loses_next_witness:
  "\<exists>sp1 sp2. spool_append (WriteTorn 5) (open_spool [] 0) \<lparr>rc_subject = ''share'', rc_payload = [1]\<rparr> = (sp1, Inl SpoolIO)
    \<and> spool_append WriteOk sp1 \<lparr>rc_subject = ''share'', rc_payload = [2, 3]\<rparr> = (sp2, Inr ())
    \<and> parse_file unmarshal_record (sp_file sp2) = []"
proof -
  let ?a = "\<lparr>rc_subject = ''share'', rc_payload = [1]\<rparr>" and ?b = "\<lparr>rc_subject = ''share'', rc_payload = [2, 3]\<rparr>"
  have p: "plain_record ?a" "plain_record ?b" "length (marshal_record ?a) = 36" "length (marshal_record ?b) = 36" by code_simp+
  show ?thesis
    using torn_append_loses_next [of "open_spool [] 0" "[]" ?a ?b 5 0] p
    by (auto simp: open_spool_def default_max_bytes_def serialize_def)
qed

subsection \<open>Nothing that was written is lost\<close>

text \<open>Delivery downstream, as a log of what was confirmed and the answers still to come.\<close>

definition deliver :: "spool_record list \<times> bool list \<Rightarrow> spool_record list \<Rightarrow> (spool_record list \<times> bool list) \<times> bool" where
  "deliver st batch =
     (case snd st of [] \<Rightarrow> (st, False) | ok # oks \<Rightarrow> if ok then ((fst st @ batch, oks), True) else ((fst st, oks), False))"

datatype spool_event =
    QuAppend write_result spool_record
  | QuDrain disk_result "bool list"
  | QuDrainBatch disk_result int "bool list"
  | QuRestart

text \<open>The spool, the records that reached its file, and those confirmed downstream.\<close>

type_synonym spool_world = "spool \<times> spool_record list \<times> spool_record list"

fun spool_step :: "spool_world \<Rightarrow> spool_event \<Rightarrow> spool_world" where
  "spool_step (sp, written, dlv) (QuAppend w r) =
     (let (sp', res) = spool_append w sp r
      in (sp', if sp_file sp' = sp_file sp then written else written @ [r], dlv))"
| "spool_step (sp, written, dlv) (QuDrain d oks) =
     (let (st, sp', res) = spool_drain d (\<lambda>st r. deliver st [r]) (dlv, oks) sp in (sp', written, fst st))"
| "spool_step (sp, written, dlv) (QuDrainBatch d n oks) =
     (let (st, sp', res) = spool_drain_batch d n deliver (dlv, oks) sp in (sp', written, fst st))"
| "spool_step (sp, written, dlv) QuRestart = (open_spool (sp_file sp) (sp_max sp), written, dlv)"

fun keeps_lines :: "spool_event \<Rightarrow> bool" where
  "keeps_lines (QuAppend w r) = (plain_record r \<and> (\<forall>k. w \<noteq> WriteTorn k))"
| "keeps_lines _ = True"

fun rewrite_ok :: "spool_event \<Rightarrow> bool" where
  "rewrite_ok (QuDrain d oks) = (d \<noteq> RewriteIO)"
| "rewrite_ok (QuDrainBatch d n oks) = (d \<noteq> RewriteIO)"
| "rewrite_ok _ = True"

definition holds :: "spool \<Rightarrow> spool_record list \<Rightarrow> bool" where
  "holds sp rs \<longleftrightarrow> sp_file sp = serialize marshal_record rs \<and> list_all plain_record rs \<and> 0 \<le> sp_size sp \<and> (sp_size sp = 0 \<longrightarrow> rs = [])"

lemma holds_records: "holds sp rs \<Longrightarrow> parse_file unmarshal_record (sp_file sp) = rs"
  by (simp add: holds_def)

lemma append_holds:
  assumes "holds sp rs" and "plain_record r" and "\<And>k. w \<noteq> WriteTorn k" and "spool_append w sp r = (sp', res)"
  shows "(sp_file sp' = sp_file sp \<and> holds sp' rs \<and> res \<noteq> Inr ()) \<or> (sp_file sp' \<noteq> sp_file sp \<and> holds sp' (rs @ [r]))"
proof -
  let ?sp = "sp\<lparr>sp_file := sp_file sp @ marshal_record r @ [newline], sp_size := sp_size sp + int (length (marshal_record r @ [newline]))\<rparr>"
  have "sp' = sp \<and> res \<noteq> Inr () \<or> sp' = ?sp"
    using assms(3,4) by (cases w) (auto simp: spool_append_def Let_def split: if_splits)
  moreover have "holds ?sp (rs @ [r])" using assms(1,2) by (simp add: holds_def jl.serialize_snoc)
  moreover have "sp_file ?sp \<noteq> sp_file sp" by simp
  ultimately show ?thesis using assms(1) by auto
qed

lemma replay_each_log:
  "replay_each (\<lambda>st r. deliver st [r]) st rs = (st', rest, ok) \<Longrightarrow> \<exists>p. rs = p @ rest \<and> fst st' = fst st @ p"
proof (induction rs arbitrary: st)
  case (Cons r rs)
  obtain st1 b where d: "deliver st [r] = (st1, b)" by (cases "deliver st [r]")
  show ?case
  proof (cases b)
    case True
    then have "fst st1 = fst st @ [r]" using d by (auto simp: deliver_def split: list.splits if_splits)
    moreover obtain p where "rs = p @ rest" "fst st' = fst st1 @ p" using Cons.IH [of st1] Cons.prems d True by auto
    ultimately show ?thesis by (intro exI [of _ "r # p"]) simp
  next
    case False
    then have "fst st1 = fst st" using d by (auto simp: deliver_def split: list.splits if_splits)
    then show ?thesis using Cons.prems d False by auto
  qed
qed simp

text \<open>What each confirmed batch establishes holds of everything that was replayed.\<close>

lemma replay_batches_inv:
  assumes "replay_batches n fn st rs = (st', rest, ok)" and "P st q" and "set rs \<subseteq> B"
    and step: "\<And>st b st1 q ok1. fn st b = (st1, ok1) \<Longrightarrow> set b \<subseteq> B \<Longrightarrow> P st q \<Longrightarrow> P st1 (if ok1 then q @ b else q)"
  shows "\<exists>p. rs = p @ rest \<and> P st' (q @ p)"
  using assms(1-3)
proof (induction "length rs" arbitrary: st rs q rule: less_induct)
  case less
  show ?case
  proof (cases "rs = []")
    case True
    then show ?thesis using less.prems by (simp add: replay_batches.simps)
  next
    case False
    obtain st1 b where d: "fn st (take (Suc n) rs) = (st1, b)" by (cases "fn st (take (Suc n) rs)")
    have sub: "set (take (Suc n) rs) \<subseteq> B" "set (drop (Suc n) rs) \<subseteq> B"
      using less.prems(3) set_take_subset [of "Suc n" rs] set_drop_subset [of "Suc n" rs] by blast+
    show ?thesis
    proof (cases b)
      case True
      then have "P st1 (q @ take (Suc n) rs)" using step [OF d sub(1) less.prems(2)] by simp
      moreover have "replay_batches n fn st1 (drop (Suc n) rs) = (st', rest, ok)"
        using less.prems(1) False d True by (simp add: replay_batches.simps [of n fn st rs])
      ultimately obtain p where "drop (Suc n) rs = p @ rest" "P st' ((q @ take (Suc n) rs) @ p)"
        using less.hyps [of "drop (Suc n) rs" st1 "q @ take (Suc n) rs"] False sub(2) by auto
      then show ?thesis using append_take_drop_id [of "Suc n" rs] by (intro exI [of _ "take (Suc n) rs @ p"]) simp
    next
      case False
      then have "P st1 q" using step [OF d sub(1) less.prems(2)] by simp
      then show ?thesis using less.prems d False \<open>rs \<noteq> []\<close> by (simp add: replay_batches.simps [of n fn st rs])
    qed
  qed
qed

lemma replay_batches_log:
  assumes "replay_batches n deliver st rs = (st', rest, ok)"
  shows "\<exists>p. rs = p @ rest \<and> fst st' = fst st @ p"
proof -
  have "\<exists>p. rs = p @ rest \<and> fst st' = fst st @ [] @ p"
    by (rule replay_batches_inv [OF assms, where P = "\<lambda>st1 q. fst st1 = fst st @ q" and q = "[]" and B = UNIV])
      (auto simp: deliver_def split: list.splits if_splits)
  then show ?thesis by simp
qed

lemma finish_drain_holds:
  assumes "holds sp rs" and "sp_size sp \<noteq> 0" and "finish_drain d sp (st, rest, ok) = (st', sp', res)" and "rs = p @ rest"
  shows "st' = st \<and> (holds sp' rest \<or> (d = RewriteIO \<and> holds sp' rs))"
  using assms by (cases d) (auto simp: finish_drain_def spool_rewrite_def holds_def Let_def serialize_def)

text \<open>A batch drain, for any callback.\<close>

lemma drain_batch_holds:
  assumes "holds sp rs" and "spool_drain_batch d n fn st sp = (st', sp', res)" and "P st []"
    and step: "\<And>st b st1 q ok1. fn st b = (st1, ok1) \<Longrightarrow> set b \<subseteq> set rs \<Longrightarrow> P st q \<Longrightarrow> P st1 (if ok1 then q @ b else q)"
  shows "\<exists>p rest. rs = p @ rest \<and> P st' p \<and> (holds sp' rest \<or> holds sp' rs)"
proof (cases "sp_size sp = 0 \<or> d = ReadIO \<or> \<not> scan_fits (sp_file sp)")
  case True
  then have "st' = st \<and> sp' = sp" using assms(2) by (auto simp: spool_drain_batch_def Let_def split: if_splits)
  then show ?thesis using assms(1,3) by (intro exI [of _ "[]"] exI [of _ rs]) simp
next
  case False
  then obtain m where r: "finish_drain d sp (replay_batches m fn st rs) = (st', sp', res)"
    using assms(2) by (auto simp: spool_drain_batch_def holds_records [OF assms(1)] Let_def)
  obtain st2 rest ok where e: "replay_batches m fn st rs = (st2, rest, ok)" by (cases "replay_batches m fn st rs")
  obtain p where p: "rs = p @ rest" "P st2 p" using replay_batches_inv [where P = P and q = "[]", OF e assms(3) subset_refl] step by auto
  from finish_drain_holds [OF assms(1) _ r [unfolded e] p(1)] False p show ?thesis
    by (intro exI [of _ p] exI [of _ rest]) auto
qed

lemma replay_each_inv:
  assumes step: "\<And>st r st1 q ok1. fn st r = (st1, ok1) \<Longrightarrow> r \<in> B \<Longrightarrow> P st q \<Longrightarrow> P st1 (if ok1 then q @ [r] else q)"
  shows "replay_each fn st rs = (st', rest, ok) \<Longrightarrow> P st q \<Longrightarrow> set rs \<subseteq> B \<Longrightarrow> \<exists>p. rs = p @ rest \<and> P st' (q @ p)"
proof (induction rs arbitrary: st q)
  case (Cons r rs)
  obtain st1 ok1 where f: "fn st r = (st1, ok1)" by (cases "fn st r")
  have P1: "P st1 (if ok1 then q @ [r] else q)" using step [OF f _ Cons.prems(2)] Cons.prems(3) by simp
  show ?case
  proof (cases ok1)
    case True
    then have "\<exists>p. rs = p @ rest \<and> P st' ((q @ [r]) @ p)" using Cons.IH [of st1 "q @ [r]"] Cons.prems f P1 by auto
    then obtain p where "rs = p @ rest" "P st' ((q @ [r]) @ p)" by blast
    then show ?thesis by (intro exI [of _ "r # p"]) simp
  next
    case False
    then show ?thesis using Cons.prems f P1 by auto
  qed
qed auto

text \<open>A drain record by record, for any callback.\<close>

lemma drain_holds:
  assumes "holds sp rs" and "spool_drain d fn st sp = (st', sp', res)" and "P st []"
    and step: "\<And>st r st1 q ok1. fn st r = (st1, ok1) \<Longrightarrow> r \<in> set rs \<Longrightarrow> P st q \<Longrightarrow> P st1 (if ok1 then q @ [r] else q)"
  shows "\<exists>p rest. rs = p @ rest \<and> P st' p \<and> (holds sp' rest \<or> holds sp' rs)"
proof (cases "sp_size sp = 0 \<or> d = ReadIO \<or> \<not> scan_fits (sp_file sp)")
  case True
  then have "st' = st \<and> sp' = sp" using assms(2) by (auto simp: spool_drain_def Let_def split: if_splits)
  then show ?thesis using assms(1,3) by (intro exI [of _ "[]"] exI [of _ rs]) simp
next
  case False
  then have r: "finish_drain d sp (replay_each fn st rs) = (st', sp', res)"
    using assms(2) by (auto simp: spool_drain_def holds_records [OF assms(1)])
  obtain st2 rest ok where e: "replay_each fn st rs = (st2, rest, ok)" by (cases "replay_each fn st rs")
  have "\<exists>p. rs = p @ rest \<and> P st2 ([] @ p)"
    by (rule replay_each_inv [where fn = fn and st = st and B = "set rs"])
      (erule (2) step | rule e assms(3) subset_refl)+
  then obtain p where p: "rs = p @ rest" "P st2 p" by auto
  from finish_drain_holds [OF assms(1) _ r [unfolded e] p(1)] False p show ?thesis
    by (intro exI [of _ p] exI [of _ rest]) auto
qed

text \<open>Either drain hands on a prefix of what is on disk and keeps the rest.\<close>

lemma drain_step_holds:
  assumes "holds sp rs" and "r = spool_drain d (\<lambda>st r. deliver st [r]) (dlv, oks) sp \<or> r = spool_drain_batch d n deliver (dlv, oks) sp"
  shows "\<exists>p rest. rs = p @ rest \<and> fst (fst r) = dlv @ p
    \<and> (holds (fst (snd r)) rest \<or> (d = RewriteIO \<and> holds (fst (snd r)) rs))"
proof (cases "sp_size sp = 0 \<or> d = ReadIO \<or> \<not> scan_fits (sp_file sp)")
  case True
  then have "r = ((dlv, oks), sp, snd (snd r))" using assms(2) by (auto simp: spool_drain_def spool_drain_batch_def Let_def)
  then have "fst (fst r) = dlv" "fst (snd r) = sp" by (metis fst_conv, metis fst_conv snd_conv)
  then show ?thesis using assms(1) by (intro exI [of _ "[]"] exI [of _ rs]) simp
next
  case False
  obtain st rest ok p where x: "r = finish_drain d sp (st, rest, ok)" "rs = p @ rest" "fst st = dlv @ p"
  proof -
    from assms(2) show ?thesis
    proof
      assume "r = spool_drain d (\<lambda>st r. deliver st [r]) (dlv, oks) sp"
      then have r: "r = finish_drain d sp (replay_each (\<lambda>st r. deliver st [r]) (dlv, oks) rs)"
        using False by (simp add: spool_drain_def holds_records [OF assms(1)])
      obtain st rest ok where e: "replay_each (\<lambda>st r. deliver st [r]) (dlv, oks) rs = (st, rest, ok)"
        by (cases "replay_each (\<lambda>st r. deliver st [r]) (dlv, oks) rs")
      obtain p where "rs = p @ rest" "fst st = dlv @ p" using replay_each_log [OF e] by auto
      then show ?thesis using that [of st rest ok p] r e by simp
    next
      assume "r = spool_drain_batch d n deliver (dlv, oks) sp"
      then obtain m where r: "r = finish_drain d sp (replay_batches m deliver (dlv, oks) rs)"
        using False by (auto simp: spool_drain_batch_def holds_records [OF assms(1)] Let_def)
      obtain st rest ok where e: "replay_batches m deliver (dlv, oks) rs = (st, rest, ok)"
        by (cases "replay_batches m deliver (dlv, oks) rs")
      obtain p where "rs = p @ rest" "fst st = dlv @ p" using replay_batches_log [OF e] by auto
      then show ?thesis using that [of st rest ok p] r e by simp
    qed
  qed
  obtain st' sp' res where r: "finish_drain d sp (st, rest, ok) = (st', sp', res)" by (cases "finish_drain d sp (st, rest, ok)")
  from finish_drain_holds [OF assms(1) _ r x(2)] False x r show ?thesis by (intro exI [of _ p] exI [of _ rest]) auto
qed

definition world_ok :: "bool \<Rightarrow> spool_world \<Rightarrow> bool" where
  "world_ok exact w \<longleftrightarrow> (case w of (sp, written, dlv) \<Rightarrow>
     \<exists>p rs. holds sp rs \<and> written = p @ rs \<and> set p \<subseteq> set dlv \<and> set dlv \<subseteq> set written \<and> (exact \<longrightarrow> dlv = p))"

lemma world_okI:
  "holds sp rs \<Longrightarrow> written = p @ rs \<Longrightarrow> set p \<subseteq> set dlv \<Longrightarrow> set dlv \<subseteq> set written \<Longrightarrow> (exact \<longrightarrow> dlv = p) \<Longrightarrow>
     world_ok exact (sp, written, dlv)"
  unfolding world_ok_def by blast

lemma spool_step_ok:
  assumes "world_ok exact w" and "keeps_lines e" and "exact \<longrightarrow> rewrite_ok e"
  shows "world_ok exact (spool_step w e)"
proof -
  obtain sp written dlv where w: "w = (sp, written, dlv)" by (cases w)
  obtain p rs where i: "holds sp rs" "written = p @ rs" "set p \<subseteq> set dlv" "set dlv \<subseteq> set written" "exact \<longrightarrow> dlv = p"
    using assms(1) by (auto simp: world_ok_def w)
  have drained: "world_ok exact (fst (snd r), written, fst (fst r))"
    if r: "\<exists>q rest. rs = q @ rest \<and> fst (fst r) = dlv @ q \<and> (holds (fst (snd r)) rest \<or> (d = RewriteIO \<and> holds (fst (snd r)) rs))"
      and d: "exact \<longrightarrow> d \<noteq> RewriteIO"
    for r :: "(spool_record list \<times> bool list) \<times> spool \<times> (spool_error + unit)" and d
  proof -
    obtain q rest where q: "rs = q @ rest" "fst (fst r) = dlv @ q"
      "holds (fst (snd r)) rest \<or> (d = RewriteIO \<and> holds (fst (snd r)) rs)" using r by blast
    show ?thesis
    proof (cases "holds (fst (snd r)) rest")
      case True
      then show ?thesis by (rule world_okI [of _ _ _ "p @ q"]) (use i q(1,2) in auto)
    next
      case False
      then have "holds (fst (snd r)) rs" "\<not> exact" using q(3) d by auto
      then show ?thesis by (intro world_okI [of _ rs _ p]) (use i q(1,2) in auto)
    qed
  qed
  show ?thesis
  proof (cases e)
    case (QuAppend wr r)
    obtain sp' res where a: "spool_append wr sp r = (sp', res)" by (cases "spool_append wr sp r")
    have "(sp_file sp' = sp_file sp \<and> holds sp' rs) \<or> (sp_file sp' \<noteq> sp_file sp \<and> holds sp' (rs @ [r]))"
      using append_holds [OF i(1) _ _ a] assms(2) QuAppend by auto
    then show ?thesis
    proof
      assume s: "sp_file sp' = sp_file sp \<and> holds sp' rs"
      then have "spool_step w e = (sp', written, dlv)" by (simp add: QuAppend w a)
      then show ?thesis using world_okI [of sp' rs written p dlv exact] s i by simp
    next
      assume s: "sp_file sp' \<noteq> sp_file sp \<and> holds sp' (rs @ [r])"
      then have "spool_step w e = (sp', written @ [r], dlv)" by (simp add: QuAppend w a)
      moreover have "set dlv \<subseteq> set (written @ [r])" using i(4) by auto
      ultimately show ?thesis using world_okI [of sp' "rs @ [r]" "written @ [r]" p dlv exact] s i by simp
    qed
  next
    case (QuDrain d oks)
    let ?r = "spool_drain d (\<lambda>st r. deliver st [r]) (dlv, oks) sp"
    have "spool_step w e = (fst (snd ?r), written, fst (fst ?r))" by (simp add: QuDrain w case_prod_unfold Let_def)
    then show ?thesis using drained [OF drain_step_holds [OF i(1) disjI1 [OF refl]]] assms(3) QuDrain by simp
  next
    case (QuDrainBatch d n oks)
    let ?r = "spool_drain_batch d n deliver (dlv, oks) sp"
    have "spool_step w e = (fst (snd ?r), written, fst (fst ?r))" by (simp add: QuDrainBatch w case_prod_unfold Let_def)
    then show ?thesis using drained [OF drain_step_holds [OF i(1) disjI2 [OF refl]]] assms(3) QuDrainBatch by simp
  next
    case QuRestart
    have "holds (open_spool (sp_file sp) (sp_max sp)) rs"
      using i(1) by (auto simp: holds_def open_spool_def serialize_def)
    then show ?thesis using world_okI [of _ rs written p dlv exact] i by (simp add: QuRestart w)
  qed
qed

lemma spool_run_ok:
  "world_ok exact w \<Longrightarrow> list_all keeps_lines evs \<Longrightarrow> (exact \<longrightarrow> list_all rewrite_ok evs) \<Longrightarrow>
     world_ok exact (foldl spool_step w evs)"
proof (induction evs arbitrary: w)
  case (Cons e evs)
  have "world_ok exact (spool_step w e)" by (rule spool_step_ok) (use Cons.prems in auto)
  with Cons show ?case by simp
qed simp

text \<open>
  C23: without torn writes the spool loses nothing and, while its rewrites succeed, delivers exactly once and in order. Starting
  from an empty file, after any appends of records with plain subjects, such as the code's own, that succeed, are refused for space or fail to sync but never leave
  part of a line, after drains of either kind with any answers from downstream and any disk failure, and
  restarts: every record whose line reached the file has been confirmed downstream or is still on disk, and
  nothing else has been delivered. If no rewrite of the file failed, what was confirmed followed by
  what is on disk is exactly what was written, in the order it was written. The condition on the appends is needed: a write that is cut off
  half-way loses the next record too (\<open>torn_append_loses_next\<close>).
\<close>

theorem spool_lossless:
  assumes "list_all keeps_lines evs" and "foldl spool_step (open_spool [] m, [], []) evs = (sp, written, dlv)"
  shows "set written \<subseteq> set dlv \<union> set (parse_file unmarshal_record (sp_file sp)) \<and> set dlv \<subseteq> set written
    \<and> (list_all rewrite_ok evs \<longrightarrow> written = dlv @ parse_file unmarshal_record (sp_file sp))"
proof -
  have start: "world_ok exact (open_spool [] m, [], [])" for exact
    by (simp add: world_ok_def holds_def open_spool_def serialize_def)
  have "world_ok (list_all rewrite_ok evs) (sp, written, dlv)"
    using spool_run_ok [OF start assms(1), of "list_all rewrite_ok evs"] assms(2) by simp
  then obtain p rs where "holds sp rs" "written = p @ rs" "set p \<subseteq> set dlv" "set dlv \<subseteq> set written"
    "list_all rewrite_ok evs \<longrightarrow> dlv = p" by (auto simp: world_ok_def)
  then show ?thesis using holds_records [of sp rs] by auto
qed

definition sample_record :: "byte \<Rightarrow> spool_record" where
  "sample_record b = \<lparr>rc_subject = ''share'', rc_payload = [b]\<rparr>"

theorem spool_lossless_witness:
  "\<exists>sp. foldl spool_step (open_spool [] 0, [], [])
      [QuAppend WriteOk (sample_record 1), QuAppend SyncFailed (sample_record 2), QuDrainBatch DiskOk 1 [True, False]]
    = (sp, [sample_record 1, sample_record 2], [sample_record 1]) \<and> parse_file unmarshal_record (sp_file sp) = [sample_record 2]"
proof -
  let ?evs = "[QuAppend WriteOk (sample_record 1), QuAppend SyncFailed (sample_record 2), QuDrainBatch DiskOk 1 [True, False]]"
  let ?rs = "[sample_record 1, sample_record 2]"
  let ?w = "foldl spool_step (open_spool [] 0, [], []) [QuAppend WriteOk (sample_record 1), QuAppend SyncFailed (sample_record 2)]"
  have two: "sp_file (fst ?w) = serialize marshal_record ?rs \<and> sp_size (fst ?w) \<noteq> 0 \<and> snd ?w = (?rs, [])"
    by (simp add: sample_record_def spool_append_def open_spool_def default_max_bytes_def serialize_def marshal_record_def
      key_subject_def key_payload_def record_end_def Let_def)
  have fits: "scan_fits (serialize marshal_record ?rs)" by code_simp
  have good: "list_all plain_record ?rs" by (simp add: sample_record_def plain_record_def plain_char_def)
  obtain sp1 where w: "?w = (sp1, ?rs, [])" using two by (cases ?w) auto
  have drain: "replay_batches 0 deliver ([], [True, False]) ?rs = (([sample_record 1], []), [sample_record 2], False)"
    by (simp add: replay_batches.simps deliver_def)
  obtain st sp2 res where f: "finish_drain DiskOk sp1 (([sample_record 1], [] :: bool list), [sample_record 2], False) = (st, sp2, res)"
    by (cases "finish_drain DiskOk sp1 (([sample_record 1], [] :: bool list), [sample_record 2], False)")
  then have st: "st = ([sample_record 1], [])" by (simp add: finish_drain_def Let_def split: prod.splits)
  have "foldl spool_step (open_spool [] 0, [], []) ?evs = spool_step ?w (QuDrainBatch DiskOk 1 [True, False])" by simp
  also have "\<dots> = (sp2, ?rs, [sample_record 1])"
    using two fits f unfolding w by (simp add: spool_drain_batch_def jl.parse_serialized [OF good] drain st)
  finally have r: "foldl spool_step (open_spool [] 0, [], []) ?evs = (sp2, ?rs, [sample_record 1])" .
  have "list_all keeps_lines ?evs" using good by simp
  from spool_lossless [OF this r] r show ?thesis by auto
qed

end
