(* ===== verification/Messaging.thy ===== *)
theory Messaging
  imports Jobs Pool Spool
begin

text \<open>
  \<open>internal/messaging/nats\<close>: the publisher of a regional node, which sends recorded shares, blocks and
  state changes to JetStream and spools what it cannot send; the consumer of the master; and the
  lifecycle commands. NATS itself is the environment: what a publish returned, whether and when it was
  acknowledged and which message is delivered are arguments, the stream is the list of messages it has
  stored, and delivery may repeat (at least once). \<open>encoding/json\<close> on the four messages is \<open>msg_codec\<close>.
\<close>

definition subject_share_prefix :: string where "subject_share_prefix = ''shares.''"
definition subject_block_prefix :: string where "subject_block_prefix = ''blocks.''"
definition subject_state_prefix :: string where "subject_state_prefix = ''poolstate.''"
definition subject_cmd_prefix :: string where "subject_cmd_prefix = ''commands.pool.''"

definition share_subject :: "string \<Rightarrow> string \<Rightarrow> string" where
  "share_subject region pool_id = subject_share_prefix @ region @ ''.'' @ pool_id"

definition block_subject :: "string \<Rightarrow> string \<Rightarrow> string" where
  "block_subject region pool_id = subject_block_prefix @ region @ ''.'' @ pool_id"

definition state_subject :: "string \<Rightarrow> string \<Rightarrow> string" where
  "state_subject region pool_id = subject_state_prefix @ region @ ''.'' @ pool_id"

definition command_subject :: "string \<Rightarrow> string" where
  "command_subject pool_id = subject_cmd_prefix @ pool_id"

record share_msg =
  hm_pool_id :: string
  hm_region :: string
  hm_block_height :: int
  hm_share_diff :: f64
  hm_worker_diff :: f64
  hm_network_difficulty :: f64
  hm_miner :: string
  hm_worker :: string
  hm_user_agent :: string
  hm_ip_address :: string
  hm_created :: int
  hm_is_block_candidate :: bool

record block_msg =
  bk_pool_id :: string
  bk_region :: string
  bk_block_height :: int
  bk_network_difficulty :: f64
  bk_miner :: string
  bk_worker :: string
  bk_hash :: string
  bk_reward_sats :: int
  bk_created :: int

record state_msg =
  tm_pool_id :: string
  tm_region :: string
  tm_node_id :: string
  tm_from :: string
  tm_to :: string
  tm_reason :: string
  tm_created :: int

record command_msg =
  km_pool_id :: string
  km_action :: string
  km_message :: string
  km_grace_seconds :: int
  km_origin :: string

record msg_codec =
  mc_share :: "share_msg \<Rightarrow> bytes option"
  mc_read_share :: "bytes \<Rightarrow> share_msg option"
  mc_block :: "block_msg \<Rightarrow> bytes option"
  mc_read_block :: "bytes \<Rightarrow> block_msg option"
  mc_state :: "state_msg \<Rightarrow> bytes option"
  mc_read_state :: "bytes \<Rightarrow> state_msg option"
  mc_command :: "command_msg \<Rightarrow> bytes option"
  mc_read_command :: "bytes \<Rightarrow> command_msg option"

definition state_string :: "pool_state \<Rightarrow> string" where
  "state_string s =
     (case s of Active \<Rightarrow> ''active'' | Draining \<Rightarrow> ''draining'' | Maintenance \<Rightarrow> ''maintenance''
      | Paused \<Rightarrow> ''paused'' | Disabled \<Rightarrow> ''disabled'' | Errored \<Rightarrow> ''error'')"

lemma parse_state_string: "parse_state (state_string s) = Some s"
  by (cases s) (simp_all add: parse_state_def state_string_def)

subsection \<open>Publishing\<close>

type_synonym message = "string \<times> bytes"

text \<open>The last two components are the environment's: publishes that have not been acknowledged yet, and the
  events a log line calls lost.\<close>

record publisher =
  pb_region :: string
  pb_node_id :: string
  pb_spool :: "spool option"
  pb_pending :: "message list"
  pb_lost :: "message list"

datatype async_outcome = PubRefused | PubPending

definition spool_or_lose :: "write_result \<Rightarrow> publisher \<Rightarrow> message \<Rightarrow> publisher" where
  "spool_or_lose w pb m =
     (case pb_spool pb of None \<Rightarrow> pb\<lparr>pb_lost := pb_lost pb @ [m]\<rparr>
      | Some sp \<Rightarrow>
        let (sp', res) = spool_append w sp \<lparr>rc_subject = fst m, rc_payload = snd m\<rparr>; pb1 = pb\<lparr>pb_spool := Some sp'\<rparr>
        in case res of Inl _ \<Rightarrow> pb1\<lparr>pb_lost := pb_lost pb @ [m]\<rparr> | Inr _ \<Rightarrow> pb1)"

definition publish :: "async_outcome \<Rightarrow> write_result \<Rightarrow> publisher \<Rightarrow> message \<Rightarrow> publisher" where
  "publish out w pb m =
     (case out of PubPending \<Rightarrow> pb\<lparr>pb_pending := pb_pending pb @ [m]\<rparr> | PubRefused \<Rightarrow> spool_or_lose w pb m)"

definition share_msg_of :: "string \<Rightarrow> share_event \<Rightarrow> share_msg" where
  "share_msg_of region ev =
     \<lparr>hm_pool_id = se_pool_id ev, hm_region = region, hm_block_height = se_block_height ev,
      hm_share_diff = se_share_diff ev, hm_worker_diff = se_worker_diff ev,
      hm_network_difficulty = se_network_difficulty ev, hm_miner = se_miner ev, hm_worker = se_worker ev,
      hm_user_agent = se_user_agent ev, hm_ip_address = se_ip_address ev, hm_created = se_created ev,
      hm_is_block_candidate = se_is_block_candidate ev\<rparr>"

definition block_msg_of :: "string \<Rightarrow> block_event \<Rightarrow> block_msg" where
  "block_msg_of region ev =
     \<lparr>bk_pool_id = be_pool_id ev, bk_region = region, bk_block_height = be_block_height ev,
      bk_network_difficulty = be_network_difficulty ev, bk_miner = be_miner ev, bk_worker = be_worker ev,
      bk_hash = be_hash ev, bk_reward_sats = be_reward_sats ev, bk_created = be_created ev\<rparr>"

definition state_msg_of :: "int \<Rightarrow> publisher \<Rightarrow> state_change \<Rightarrow> state_msg" where
  "state_msg_of now pb chg =
     \<lparr>tm_pool_id = sc_pool_id chg, tm_region = pb_region pb, tm_node_id = pb_node_id pb,
      tm_from = state_string (sc_from chg), tm_to = state_string (sc_to chg), tm_reason = sc_reason chg, tm_created = now\<rparr>"

definition record_share_msg :: "msg_codec \<Rightarrow> async_outcome \<Rightarrow> write_result \<Rightarrow> publisher \<Rightarrow> share_event \<Rightarrow> publisher" where
  "record_share_msg c out w pb ev =
     (case mc_share c (share_msg_of (pb_region pb) ev) of None \<Rightarrow> pb
      | Some p \<Rightarrow> publish out w pb (share_subject (pb_region pb) (se_pool_id ev), p))"

definition record_block_msg :: "msg_codec \<Rightarrow> async_outcome \<Rightarrow> write_result \<Rightarrow> publisher \<Rightarrow> block_event \<Rightarrow> publisher" where
  "record_block_msg c out w pb ev =
     (case mc_block c (block_msg_of (pb_region pb) ev) of None \<Rightarrow> pb
      | Some p \<Rightarrow> publish out w pb (block_subject (pb_region pb) (be_pool_id ev), p))"

definition on_pool_state_change ::
  "msg_codec \<Rightarrow> async_outcome \<Rightarrow> write_result \<Rightarrow> int \<Rightarrow> publisher \<Rightarrow> state_change \<Rightarrow> publisher" where
  "on_pool_state_change c out w now pb chg =
     (case mc_state c (state_msg_of now pb chg) of None \<Rightarrow> pb
      | Some p \<Rightarrow> publish out w pb (state_subject (pb_region pb) (sc_pool_id chg), p))"

text \<open>What becomes of a pending publish: acknowledged, or failed (the client hands it to the spool), in
  which case the server may still have stored it.\<close>

datatype ack_outcome = AckStored | AckFailed bool

definition settle_publish ::
  "ack_outcome \<Rightarrow> write_result \<Rightarrow> nat \<Rightarrow> publisher \<times> message list \<Rightarrow> publisher \<times> message list" where
  "settle_publish out w i st =
     (case st of (pb, stream) \<Rightarrow>
        if i \<ge> length (pb_pending pb) then (pb, stream)
        else
          let m = pb_pending pb ! i; pb1 = pb\<lparr>pb_pending := take i (pb_pending pb) @ drop (Suc i) (pb_pending pb)\<rparr>
          in case out of AckStored \<Rightarrow> (pb1, stream @ [m])
             | AckFailed stored \<Rightarrow> (spool_or_lose w pb1 m, if stored then stream @ [m] else stream))"

text \<open>Republishing a spooled record, synchronously.\<close>

datatype sync_outcome = SyncOk | SyncFails | SyncStoredFails

definition republish :: "message list \<times> sync_outcome list \<Rightarrow> spool_record \<Rightarrow> (message list \<times> sync_outcome list) \<times> bool" where
  "republish st r =
     (let m = (rc_subject r, rc_payload r) in
      case snd st of [] \<Rightarrow> (st, False)
      | SyncOk # outs \<Rightarrow> ((fst st @ [m], outs), True)
      | SyncFails # outs \<Rightarrow> ((fst st, outs), False)
      | SyncStoredFails # outs \<Rightarrow> ((fst st @ [m], outs), False))"

definition flush_spool ::
  "disk_result \<Rightarrow> sync_outcome list \<Rightarrow> publisher \<times> message list \<Rightarrow> publisher \<times> message list" where
  "flush_spool d outs st =
     (case st of (pb, stream) \<Rightarrow>
        case pb_spool pb of None \<Rightarrow> (pb, stream)
        | Some sp \<Rightarrow>
          if sp_size sp = 0 then (pb, stream)
          else let (st', sp', res) = spool_drain d republish (stream, outs) sp in (pb\<lparr>pb_spool := Some sp'\<rparr>, fst st'))"

definition drain_tick ::
  "bool \<Rightarrow> disk_result \<Rightarrow> sync_outcome list \<Rightarrow> publisher \<times> message list \<Rightarrow> publisher \<times> message list" where
  "drain_tick online d outs st = (if \<not> online then st else flush_spool d outs st)"

subsection \<open>Consuming\<close>

datatype sink_effect = SinkShare share_msg | SinkBlock block_msg | SinkStateChange state_msg

definition consume :: "msg_codec \<Rightarrow> message \<Rightarrow> sink_effect option" where
  "consume c m =
     (let subject = fst m; data = snd m in
      if has_prefix subject subject_share_prefix then map_option SinkShare (mc_read_share c data)
      else if has_prefix subject subject_block_prefix then map_option SinkBlock (mc_read_block c data)
      else if has_prefix subject subject_state_prefix then map_option SinkStateChange (mc_read_state c data)
      else None)"

subsection \<open>Commands\<close>

datatype command_error = CmdIncomplete | CmdMarshal | CmdPublish | CmdUnknownAction string | CmdLifecycle lifecycle_error

definition publish_command :: "msg_codec \<Rightarrow> bool \<Rightarrow> command_msg \<Rightarrow> command_error + message" where
  "publish_command c published cmd =
     (if km_pool_id cmd = [] \<or> km_action cmd = [] then Inl CmdIncomplete
      else case mc_command c cmd of None \<Rightarrow> Inl CmdMarshal
      | Some p \<Rightarrow> if published then Inr (command_subject (km_pool_id cmd), p) else Inl CmdPublish)"

text \<open>\<open>time.Duration(n) * time.Second\<close> in 64 bits.\<close>

definition duration_of_seconds :: "int \<Rightarrow> int" where
  "duration_of_seconds n = sint (word_of_int (n * 1000000000) :: 64 word)"

definition drain_grace :: "int \<Rightarrow> int" where
  "drain_grace n = (let grace = duration_of_seconds n in if grace \<le> 0 then 60000000000 else grace)"

definition default_maintenance :: string where
  "default_maintenance = ''pool is under maintenance''"

definition command_op :: "command_msg \<Rightarrow> pool_op option" where
  "command_op cmd =
     (if km_action cmd = ''pause'' then Some OpPause
      else if km_action cmd = ''resume'' then Some OpResume
      else if km_action cmd = ''drain'' then Some (OpDrain (drain_grace (km_grace_seconds cmd)))
      else if km_action cmd = ''maintenance''
           then Some (OpMaintain (if km_message cmd = [] then default_maintenance else km_message cmd))
      else if km_action cmd = ''restart'' then Some OpRestart
      else if km_action cmd = ''disable'' then Some OpDisable
      else None)"

definition lifecycle_applier :: "int \<Rightarrow> lifecycle \<Rightarrow> command_msg \<Rightarrow> lifecycle \<times> state_change list \<times> command_error option" where
  "lifecycle_applier now lc cmd =
     (case command_op cmd of None \<Rightarrow> (lc, [], Some (CmdUnknownAction (km_action cmd)))
      | Some op \<Rightarrow>
        let (lc', chg, err) = apply_op now lc (km_pool_id cmd) op
        in (lc', chg, case err of None \<Rightarrow> None | Some (UnknownPool _) \<Rightarrow> None | Some e \<Rightarrow> Some (CmdLifecycle e)))"

definition on_command :: "msg_codec \<Rightarrow> int \<Rightarrow> lifecycle \<Rightarrow> bytes \<Rightarrow> lifecycle \<times> state_change list" where
  "on_command c now lc data =
     (case mc_read_command c data of None \<Rightarrow> (lc, [])
      | Some cmd \<Rightarrow> let (lc', chg, err) = lifecycle_applier now lc cmd in (lc', chg))"

subsection \<open>Where a message is\<close>

definition message_of_record :: "spool_record \<Rightarrow> message" where
  "message_of_record r = (rc_subject r, rc_payload r)"

definition spooled :: "publisher \<Rightarrow> message set" where
  "spooled pb =
     (case pb_spool pb of None \<Rightarrow> {}
      | Some sp \<Rightarrow> message_of_record ` set (parse_file unmarshal_record (sp_file sp)))"

text \<open>What the node still has: the publishes without an answer and the records of its spool.\<close>

definition held_at :: "publisher \<Rightarrow> message set" where
  "held_at pb = set (pb_pending pb) \<union> spooled pb"

text \<open>Those and the events a log line called lost.\<close>

definition known_at :: "publisher \<Rightarrow> message set" where
  "known_at pb = set (pb_pending pb) \<union> set (pb_lost pb) \<union> spooled pb"

definition spool_good :: "publisher \<Rightarrow> bool" where
  "spool_good pb \<longleftrightarrow> (case pb_spool pb of None \<Rightarrow> True | Some sp \<Rightarrow> \<exists>rs. holds sp rs)"

definition same_node :: "publisher \<Rightarrow> publisher \<Rightarrow> bool" where
  "same_node pb pb' \<longleftrightarrow> pb_region pb' = pb_region pb \<and> pb_node_id pb' = pb_node_id pb"

definition whole_write :: "write_result \<Rightarrow> bool" where
  "whole_write w \<longleftrightarrow> (case w of WriteTorn _ \<Rightarrow> False | _ \<Rightarrow> True)"

lemma spooled_holds: "pb_spool pb = Some sp \<Longrightarrow> holds sp rs \<Longrightarrow> spooled pb = message_of_record ` set rs"
  by (simp add: spooled_def holds_records)

lemma spool_or_lose_at:
  assumes "spool_good pb" and "list_all plain_char (fst m)" and "whole_write w"
  shows "spool_good (spool_or_lose w pb m)" and "known_at (spool_or_lose w pb m) = insert m (known_at pb)"
    and "same_node pb (spool_or_lose w pb m)"
proof -
  let ?pb = "spool_or_lose w pb m" and ?r = "\<lparr>rc_subject = fst m, rc_payload = snd m\<rparr>"
  have "spool_good ?pb \<and> known_at ?pb = insert m (known_at pb) \<and> same_node pb ?pb"
  proof (cases "pb_spool pb")
    case None
    then show ?thesis by (simp add: spool_or_lose_def spool_good_def known_at_def spooled_def same_node_def)
  next
    case (Some sp)
    obtain rs where rs: "holds sp rs" using assms(1) Some by (auto simp: spool_good_def)
    obtain sp' res where a: "spool_append w sp ?r = (sp', res)" by (cases "spool_append w sp ?r")
    have "plain_record ?r" using assms(2) by (simp add: plain_record_def)
    moreover have "w \<noteq> WriteTorn k" for k using assms(3) by (auto simp: whole_write_def)
    ultimately have cases: "(holds sp' rs \<and> res \<noteq> Inr ()) \<or> holds sp' (rs @ [?r])"
      using append_holds [OF rs _ _ a] by blast
    have pb: "pb_spool ?pb = Some sp'" "pb_pending ?pb = pb_pending pb" "same_node pb ?pb"
      "set (pb_lost ?pb) = set (pb_lost pb) \<union> (if res = Inr () then {} else {m})"
      using Some a by (auto simp: spool_or_lose_def same_node_def Let_def split: sum.splits)
    show ?thesis
      using cases pb by (auto simp: spool_good_def known_at_def spooled_holds [OF Some rs] message_of_record_def dest: spooled_holds)
  qed
  then show "spool_good ?pb" "known_at ?pb = insert m (known_at pb)" "same_node pb ?pb" by auto
qed

lemma publish_at:
  assumes "spool_good pb" and "list_all plain_char (fst m)" and "whole_write w"
  shows "spool_good (publish out w pb m)" and "known_at (publish out w pb m) = insert m (known_at pb)"
    and "same_node pb (publish out w pb m)"
  using spool_or_lose_at [OF assms] assms(1)
  by (cases out; auto simp: publish_def spool_good_def known_at_def spooled_def same_node_def)+

text \<open>A step of a node and the stream that neither creates nor loses a message.\<close>

definition moves :: "publisher \<times> message list \<Rightarrow> publisher \<times> message list \<Rightarrow> bool" where
  "moves st st' \<longleftrightarrow>
     spool_good (fst st') \<and> same_node (fst st) (fst st') \<and> set (snd st) \<subseteq> set (snd st')
     \<and> known_at (fst st') \<subseteq> known_at (fst st) \<and> set (snd st') \<subseteq> set (snd st) \<union> known_at (fst st)
     \<and> known_at (fst st) \<subseteq> known_at (fst st') \<union> set (snd st')"

lemma relay_moves_refl: "spool_good (fst st) \<Longrightarrow> moves st st"
  by (simp add: moves_def same_node_def)

lemma settle_moves:
  assumes "spool_good pb" and "\<forall>m \<in> known_at pb. list_all plain_char (fst m)" and "whole_write w"
  shows "moves (pb, stream) (settle_publish out w i (pb, stream))"
proof (cases "i < length (pb_pending pb)")
  case True
  let ?m = "pb_pending pb ! i" and ?pb = "pb\<lparr>pb_pending := take i (pb_pending pb) @ drop (Suc i) (pb_pending pb)\<rparr>"
  have "set (pb_pending pb) = insert ?m (set (take i (pb_pending pb) @ drop (Suc i) (pb_pending pb)))"
    using id_take_nth_drop [OF True] by (metis Un_insert_right list.simps(15) set_append)
  then have at: "known_at pb = insert ?m (known_at ?pb)" by (auto simp: known_at_def spooled_def)
  have g: "spool_good ?pb" "same_node pb ?pb" using assms(1) by (simp_all add: spool_good_def same_node_def)
  have p: "list_all plain_char (fst ?m)" using assms(2) at by blast
  show ?thesis
  proof (cases out)
    case AckStored
    then show ?thesis using True at g by (auto simp: moves_def settle_publish_def Let_def)
  next
    case (AckFailed stored)
    then show ?thesis using True at g spool_or_lose_at [OF g(1) p assms(3)]
      by (auto simp: moves_def settle_publish_def Let_def same_node_def)
  qed
qed (use assms(1) in \<open>simp add: settle_publish_def relay_moves_refl\<close>)

lemma flush_moves:
  assumes "spool_good pb"
  shows "moves (pb, stream) (flush_spool d outs (pb, stream))"
proof (cases "case pb_spool pb of None \<Rightarrow> True | Some sp \<Rightarrow> sp_size sp = 0")
  case True
  then show ?thesis using assms by (auto simp: flush_spool_def relay_moves_refl split: option.splits)
next
  case False
  then obtain sp where sp: "pb_spool pb = Some sp" "sp_size sp \<noteq> 0" by (auto split: option.splits)
  obtain rs where rs: "holds sp rs" using assms sp(1) by (auto simp: spool_good_def)
  obtain st' sp' res where dr: "spool_drain d republish (stream, outs) sp = (st', sp', res)"
    by (cases "spool_drain d republish (stream, outs) sp")
  let ?P = "\<lambda>st q. set stream \<subseteq> set (fst st) \<and> set (fst st) \<subseteq> set stream \<union> message_of_record ` set rs
    \<and> message_of_record ` set q \<subseteq> set (fst st)"
  have step: "?P st1 (if ok1 then q @ [r] else q)"
    if "republish st r = (st1, ok1)" "r \<in> set rs" "?P st q" for st r st1 q and ok1 :: bool
  proof -
    have "(set (fst st1) = set (fst st) \<and> \<not> ok1) \<or> set (fst st1) = insert (message_of_record r) (set (fst st))"
      using that(1) by (auto simp: republish_def message_of_record_def Let_def split: list.splits sync_outcome.splits)
    with that(2,3) show ?thesis by auto
  qed
  have "\<exists>p rest. rs = p @ rest \<and> ?P st' p \<and> (holds sp' rest \<or> holds sp' rs)"
    by (rule drain_holds [where P = ?P, OF rs dr]) (simp, erule (2) step)
  then obtain p rest where p: "rs = p @ rest" "?P st' p" "holds sp' rest \<or> holds sp' rs" by blast
  let ?pb = "pb\<lparr>pb_spool := Some sp'\<rparr>"
  have "spooled ?pb = message_of_record ` set rest \<or> spooled ?pb = message_of_record ` set rs"
    using p(3) spooled_holds [of ?pb sp'] by auto
  moreover have "spooled pb = message_of_record ` set rs" by (rule spooled_holds [OF sp(1) rs])
  moreover have "flush_spool d outs (pb, stream) = (?pb, fst st')" using sp dr by (simp add: flush_spool_def)
  ultimately show ?thesis using p by (auto simp: moves_def known_at_def spool_good_def same_node_def)
qed

subsection \<open>The relay\<close>

text \<open>The nodes by name, the stream they share and what the master's sink was given.\<close>

datatype recorded = RecShare share_event | RecBlock block_event | RecState int state_change

record relay =
  rl_nodes :: "string \<Rightarrow> publisher"
  rl_stream :: "message list"
  rl_sunk :: "sink_effect list"

datatype relay_event =
    RlRecord string async_outcome write_result recorded
  | RlSettle string ack_outcome write_result nat
  | RlDrain string bool disk_result "sync_outcome list"
  | RlDeliver nat

definition record_any :: "msg_codec \<Rightarrow> async_outcome \<Rightarrow> write_result \<Rightarrow> publisher \<Rightarrow> recorded \<Rightarrow> publisher" where
  "record_any c out w pb r =
     (case r of RecShare ev \<Rightarrow> record_share_msg c out w pb ev
      | RecBlock ev \<Rightarrow> record_block_msg c out w pb ev
      | RecState now chg \<Rightarrow> on_pool_state_change c out w now pb chg)"

definition at_relay :: "relay \<Rightarrow> string \<Rightarrow> publisher \<times> message list \<Rightarrow> relay" where
  "at_relay w n st = w\<lparr>rl_nodes := (rl_nodes w)(n := fst st), rl_stream := snd st\<rparr>"

fun relay_step :: "msg_codec \<Rightarrow> relay \<Rightarrow> relay_event \<Rightarrow> relay" where
  "relay_step c w (RlRecord n out wr r) = at_relay w n (record_any c out wr (rl_nodes w n) r, rl_stream w)"
| "relay_step c w (RlSettle n out wr i) = at_relay w n (settle_publish out wr i (rl_nodes w n, rl_stream w))"
| "relay_step c w (RlDrain n online d outs) = at_relay w n (drain_tick online d outs (rl_nodes w n, rl_stream w))"
| "relay_step c w (RlDeliver i) =
     (if i < length (rl_stream w)
      then w\<lparr>rl_sunk := rl_sunk w @ (case consume c (rl_stream w ! i) of None \<Rightarrow> [] | Some e \<Rightarrow> [e])\<rparr> else w)"

text \<open>The message a node sends of a record, and what the sink should make of it.\<close>

definition message_of :: "msg_codec \<Rightarrow> publisher \<Rightarrow> recorded \<Rightarrow> message option" where
  "message_of c pb r =
     (case r of
        RecShare ev \<Rightarrow> map_option (Pair (share_subject (pb_region pb) (se_pool_id ev))) (mc_share c (share_msg_of (pb_region pb) ev))
      | RecBlock ev \<Rightarrow> map_option (Pair (block_subject (pb_region pb) (be_pool_id ev))) (mc_block c (block_msg_of (pb_region pb) ev))
      | RecState now chg \<Rightarrow> map_option (Pair (state_subject (pb_region pb) (sc_pool_id chg))) (mc_state c (state_msg_of now pb chg)))"

definition effect_of :: "publisher \<Rightarrow> recorded \<Rightarrow> sink_effect" where
  "effect_of pb r =
     (case r of RecShare ev \<Rightarrow> SinkShare (share_msg_of (pb_region pb) ev)
      | RecBlock ev \<Rightarrow> SinkBlock (block_msg_of (pb_region pb) ev)
      | RecState now chg \<Rightarrow> SinkStateChange (state_msg_of now pb chg))"

definition recorded_pool :: "recorded \<Rightarrow> string" where
  "recorded_pool r = (case r of RecShare ev \<Rightarrow> se_pool_id ev | RecBlock ev \<Rightarrow> be_pool_id ev | RecState now chg \<Rightarrow> sc_pool_id chg)"

definition readable :: "msg_codec \<Rightarrow> bool" where
  "readable c \<longleftrightarrow> (\<forall>m p. mc_share c m = Some p \<longrightarrow> mc_read_share c p = Some m)
     \<and> (\<forall>m p. mc_block c m = Some p \<longrightarrow> mc_read_block c p = Some m)
     \<and> (\<forall>m p. mc_state c m = Some p \<longrightarrow> mc_read_state c p = Some m)"

definition plain_name :: "string \<Rightarrow> bool" where "plain_name s = list_all plain_char s"

lemma record_any_publish:
  "record_any c out w pb r = (case message_of c pb r of None \<Rightarrow> pb | Some m \<Rightarrow> publish out w pb m)"
  by (cases r) (auto simp: record_any_def message_of_def record_share_msg_def record_block_msg_def on_pool_state_change_def
    split: option.splits)

lemma message_same_node: "same_node pb pb' \<Longrightarrow> message_of c pb' r = message_of c pb r \<and> effect_of pb' r = effect_of pb r"
  by (cases r) (simp_all add: same_node_def message_of_def effect_of_def state_msg_of_def)

text \<open>Routing by prefix finds the decoder of what was encoded.\<close>

lemma consume_message: "readable c \<Longrightarrow> message_of c pb r = Some m \<Longrightarrow> consume c m = Some (effect_of pb r)"
  by (cases r) (auto simp: message_of_def effect_of_def consume_def readable_def has_prefix_def share_subject_def
    block_subject_def state_subject_def subject_share_prefix_def subject_block_prefix_def subject_state_prefix_def)

lemma message_plain:
  "message_of c pb r = Some m \<Longrightarrow> plain_name (pb_region pb) \<Longrightarrow> plain_name (recorded_pool r) \<Longrightarrow> list_all plain_char (fst m)"
  by (cases r) (auto simp: message_of_def share_subject_def block_subject_def state_subject_def subject_share_prefix_def
    subject_block_prefix_def subject_state_prefix_def plain_name_def recorded_pool_def plain_char_def)

definition recorded_by :: "relay_event list \<Rightarrow> string \<Rightarrow> recorded set" where
  "recorded_by evs n = {r. \<exists>out wr. RlRecord n out wr r \<in> set evs}"

definition sent_by :: "msg_codec \<Rightarrow> publisher \<Rightarrow> recorded set \<Rightarrow> message set" where
  "sent_by c pb R = {m. \<exists>r \<in> R. message_of c pb r = Some m}"

fun event_ok :: "relay_event \<Rightarrow> bool" where
  "event_ok (RlRecord n out wr r) = (whole_write wr \<and> plain_name (recorded_pool r))"
| "event_ok (RlSettle n out wr i) = whole_write wr"
| "event_ok _ = True"

definition fresh_node :: "publisher \<Rightarrow> bool" where
  "fresh_node pb \<longleftrightarrow> pb_pending pb = [] \<and> pb_lost pb = [] \<and> plain_name (pb_region pb)
     \<and> (case pb_spool pb of None \<Rightarrow> True | Some sp \<Rightarrow> sp = open_spool [] (sp_max sp))"

definition relay_inv :: "msg_codec \<Rightarrow> (string \<Rightarrow> publisher) \<Rightarrow> (string \<Rightarrow> recorded set) \<Rightarrow> relay \<Rightarrow> bool" where
  "relay_inv c nodes R w \<longleftrightarrow>
     (\<forall>n. spool_good (rl_nodes w n) \<and> same_node (nodes n) (rl_nodes w n)
        \<and> known_at (rl_nodes w n) \<subseteq> sent_by c (nodes n) (R n)
        \<and> sent_by c (nodes n) (R n) \<subseteq> known_at (rl_nodes w n) \<union> set (rl_stream w))
     \<and> set (rl_stream w) \<subseteq> (\<Union>n. sent_by c (nodes n) (R n))
     \<and> set (rl_sunk w) \<subseteq> (\<Union>n. effect_of (nodes n) ` R n)"

lemma relay_invD:
  assumes "relay_inv c nodes R w"
  shows "spool_good (rl_nodes w n)" "same_node (nodes n) (rl_nodes w n)"
    "known_at (rl_nodes w n) \<subseteq> sent_by c (nodes n) (R n)"
    "sent_by c (nodes n) (R n) \<subseteq> known_at (rl_nodes w n) \<union> set (rl_stream w)"
    "set (rl_stream w) \<subseteq> (\<Union>n. sent_by c (nodes n) (R n))" "set (rl_sunk w) \<subseteq> (\<Union>n. effect_of (nodes n) ` R n)"
  using assms unfolding relay_inv_def by auto

lemma same_node_trans: "same_node a b \<Longrightarrow> same_node b d \<Longrightarrow> same_node a d"
  by (simp add: same_node_def)

lemma relay_moves:
  assumes "relay_inv c nodes R w" and m: "moves (rl_nodes w n, rl_stream w) st"
  shows "relay_inv c nodes R (at_relay w n st)"
proof -
  have mv: "spool_good (fst st)" "same_node (rl_nodes w n) (fst st)" "set (rl_stream w) \<subseteq> set (snd st)"
    "known_at (fst st) \<subseteq> known_at (rl_nodes w n)" "set (snd st) \<subseteq> set (rl_stream w) \<union> known_at (rl_nodes w n)"
    "known_at (rl_nodes w n) \<subseteq> known_at (fst st) \<union> set (snd st)" using m by (simp_all add: moves_def)
  note D = relay_invD [OF assms(1)]
  have "spool_good (rl_nodes (at_relay w n st) k) \<and> same_node (nodes k) (rl_nodes (at_relay w n st) k)
      \<and> known_at (rl_nodes (at_relay w n st) k) \<subseteq> sent_by c (nodes k) (R k)
      \<and> sent_by c (nodes k) (R k) \<subseteq> known_at (rl_nodes (at_relay w n st) k) \<union> set (rl_stream (at_relay w n st))" for k
  proof (cases "k = n")
    case True
    have "same_node (nodes n) (fst st)" by (rule same_node_trans [OF D(2) mv(2)])
    moreover have "known_at (fst st) \<subseteq> sent_by c (nodes n) (R n)" using mv(4) D(3) [of n] by blast
    moreover have "sent_by c (nodes n) (R n) \<subseteq> known_at (fst st) \<union> set (snd st)" using mv(3,6) D(4) [of n] by blast
    ultimately show ?thesis using mv(1) True by (simp add: at_relay_def)
  next
    case False
    have "sent_by c (nodes k) (R k) \<subseteq> known_at (rl_nodes w k) \<union> set (snd st)" using mv(3) D(4) [of k] by blast
    then show ?thesis using False D(1-3) [of k] by (simp add: at_relay_def)
  qed
  moreover have "set (snd st) \<subseteq> (\<Union>n. sent_by c (nodes n) (R n))" using mv(5) D(5) D(3) [of n] by blast
  ultimately show ?thesis using relay_invD(6) [OF assms(1)] by (simp add: relay_inv_def at_relay_def)
qed

lemma relay_invI:
  assumes "\<And>k. spool_good (rl_nodes w k)" and "\<And>k. same_node (nodes k) (rl_nodes w k)"
    and "\<And>k. known_at (rl_nodes w k) \<subseteq> sent_by c (nodes k) (R k)"
    and "\<And>k. sent_by c (nodes k) (R k) \<subseteq> known_at (rl_nodes w k) \<union> set (rl_stream w)"
    and "set (rl_stream w) \<subseteq> (\<Union>n. sent_by c (nodes n) (R n))" and "set (rl_sunk w) \<subseteq> (\<Union>n. effect_of (nodes n) ` R n)"
  shows "relay_inv c nodes R w"
  using assms unfolding relay_inv_def by blast

lemma record_any_at:
  assumes "spool_good pb" and "same_node pb0 pb" and "whole_write wr" and "plain_name (recorded_pool r)" and "plain_name (pb_region pb0)"
  shows "spool_good (record_any c out wr pb r)" and "same_node pb0 (record_any c out wr pb r)"
    and "known_at (record_any c out wr pb r) = known_at pb \<union> set_option (message_of c pb0 r)"
proof -
  have msg: "message_of c pb r = message_of c pb0 r" using message_same_node [OF assms(2)] by blast
  let ?pb = "record_any c out wr pb r"
  have "spool_good ?pb \<and> same_node pb0 ?pb \<and> known_at ?pb = known_at pb \<union> set_option (message_of c pb0 r)"
  proof (cases "message_of c pb0 r")
    case None
    then show ?thesis using assms(1,2) by (simp add: record_any_publish msg)
  next
    case (Some m)
    have pb: "?pb = publish out wr pb m" by (simp add: record_any_publish msg Some)
    have p: "list_all plain_char (fst m)" by (rule message_plain [OF Some assms(5,4)])
    show ?thesis unfolding pb publish_at(2) [OF assms(1) p assms(3)]
      using publish_at(1,3) [OF assms(1) p assms(3), of out] same_node_trans [OF assms(2)] Some by simp
  qed
  then show "spool_good ?pb" "same_node pb0 ?pb" "known_at ?pb = known_at pb \<union> set_option (message_of c pb0 r)" by auto
qed

lemma sent_by_insert: "sent_by c pb (insert r R) = sent_by c pb R \<union> set_option (message_of c pb r)"
  by (auto simp: sent_by_def)

lemma relay_record:
  assumes inv: "relay_inv c nodes R w" and ok: "whole_write wr" "plain_name (recorded_pool r)" "plain_name (pb_region (nodes n))"
  shows "relay_inv c nodes (R(n := insert r (R n))) (at_relay w n (record_any c out wr (rl_nodes w n) r, rl_stream w))"
    (is "relay_inv c nodes ?R ?w")
proof -
  note D = relay_invD [OF inv]
  note pb = record_any_at [OF D(1) [of n] D(2) [of n] ok, of c out]
  have node: "rl_nodes ?w k = (if k = n then record_any c out wr (rl_nodes w n) r else rl_nodes w k)"
    "rl_stream ?w = rl_stream w" "rl_sunk ?w = rl_sunk w" for k by (simp_all add: at_relay_def)
  have R: "R k \<subseteq> ?R k" "sent_by c (nodes k) (R k) \<subseteq> sent_by c (nodes k) (?R k)" for k by (auto simp: sent_by_def)
  show ?thesis
  proof (rule relay_invI)
    fix k
    show "spool_good (rl_nodes ?w k)" "same_node (nodes k) (rl_nodes ?w k)" using D(1,2) [of k] pb(1,2) unfolding node by simp_all
    show "known_at (rl_nodes ?w k) \<subseteq> sent_by c (nodes k) (?R k)"
      using D(3) [of k] unfolding node by (cases "k = n") (simp_all add: pb(3) sent_by_insert, blast)
    show "sent_by c (nodes k) (?R k) \<subseteq> known_at (rl_nodes ?w k) \<union> set (rl_stream ?w)"
      using D(4) [of k] unfolding node by (cases "k = n") (simp_all add: pb(3) sent_by_insert, blast)
  next
    show "set (rl_stream ?w) \<subseteq> (\<Union>k. sent_by c (nodes k) (?R k))" unfolding node
      by (rule order_trans [OF D(5)]) (intro UN_mono order_refl R(2))
    show "set (rl_sunk ?w) \<subseteq> (\<Union>k. effect_of (nodes k) ` ?R k)" unfolding node
      by (rule order_trans [OF D(6)]) (intro UN_mono order_refl image_mono R(1))
  qed
qed

lemma recorded_by_snoc:
  "recorded_by (evs @ [RlRecord n out wr r]) = (recorded_by evs)(n := insert r (recorded_by evs n))"
  "recorded_by (evs @ [RlSettle n o1 wr i]) = recorded_by evs" "recorded_by (evs @ [RlDrain n online d outs]) = recorded_by evs"
  "recorded_by (evs @ [RlDeliver i]) = recorded_by evs"
  by (auto simp: recorded_by_def fun_eq_iff)

lemma relay_deliver:
  assumes inv: "relay_inv c nodes R w" and "readable c"
  shows "relay_inv c nodes R (relay_step c w (RlDeliver i))"
proof (cases "i < length (rl_stream w)")
  case True
  then have "rl_stream w ! i \<in> (\<Union>n. sent_by c (nodes n) (R n))" using relay_invD(5) [OF inv] nth_mem by blast
  then obtain n r where r: "r \<in> R n" "message_of c (nodes n) r = Some (rl_stream w ! i)" by (auto simp: sent_by_def)
  then have "consume c (rl_stream w ! i) = Some (effect_of (nodes n) r)" by (intro consume_message assms(2))
  then show ?thesis using inv True r(1) by (auto simp: relay_inv_def)
qed (use inv in simp)

lemma fresh_node_at: "fresh_node pb \<Longrightarrow> spool_good pb \<and> known_at pb = {}"
proof (cases "pb_spool pb")
  case (Some sp)
  assume f: "fresh_node pb"
  with Some have sp: "sp = open_spool [] (sp_max sp)" by (simp add: fresh_node_def)
  have "holds sp []" by (subst sp) (simp add: holds_def open_spool_def serialize_def)
  with f Some show ?thesis by (auto simp: fresh_node_def spool_good_def known_at_def spooled_holds)
qed (simp add: fresh_node_def spool_good_def known_at_def spooled_def)

lemma relay_run:
  assumes "\<forall>n. fresh_node (nodes n)" and "readable c"
  shows "list_all event_ok evs \<Longrightarrow>
    relay_inv c nodes (recorded_by evs) (foldl (relay_step c) \<lparr>rl_nodes = nodes, rl_stream = [], rl_sunk = []\<rparr> evs)"
proof (induction evs rule: rev_induct)
  case Nil
  have "spool_good (nodes n) \<and> known_at (nodes n) = {}" for n using assms(1) fresh_node_at by blast
  then show ?case by (simp add: relay_inv_def recorded_by_def sent_by_def same_node_def)
next
  case (snoc e evs)
  let ?w = "foldl (relay_step c) \<lparr>rl_nodes = nodes, rl_stream = [], rl_sunk = []\<rparr> evs"
  have inv: "relay_inv c nodes (recorded_by evs) ?w" using snoc by simp
  have ok: "event_ok e" using snoc.prems by simp
  have plain: "\<forall>m \<in> known_at (rl_nodes ?w n). list_all plain_char (fst m)" for n
  proof -
    have "plain_name (recorded_pool r)" if "r \<in> recorded_by evs n" for r
      using that snoc.prems by (auto simp: recorded_by_def list_all_iff)
    moreover have "plain_name (pb_region (nodes n))" using assms(1) by (simp add: fresh_node_def)
    ultimately have "\<forall>m \<in> sent_by c (nodes n) (recorded_by evs n). list_all plain_char (fst m)"
      using message_plain unfolding sent_by_def by blast
    then show ?thesis using relay_invD(3) [OF inv, of n] by blast
  qed
  have "relay_inv c nodes (recorded_by (evs @ [e])) (relay_step c ?w e)"
  proof (cases e)
    case (RlRecord n out wr r)
    then show ?thesis using relay_record [OF inv, of wr r n out] ok assms(1) by (simp add: recorded_by_snoc fresh_node_def)
  next
    case (RlSettle n out wr i)
    then show ?thesis using relay_moves [OF inv settle_moves [OF relay_invD(1) [OF inv] plain]] ok by (simp add: RlSettle recorded_by_snoc)
  next
    case (RlDrain n online d outs)
    have "moves (rl_nodes ?w n, rl_stream ?w) (drain_tick online d outs (rl_nodes ?w n, rl_stream ?w))"
      using flush_moves [OF relay_invD(1) [OF inv]] relay_moves_refl relay_invD(1) [OF inv] by (simp add: drain_tick_def)
    then show ?thesis using relay_moves [OF inv] by (simp add: RlDrain recorded_by_snoc)
  next
    case (RlDeliver i)
    then show ?thesis using relay_deliver [OF inv assms(2), of i] by (simp add: RlDeliver recorded_by_snoc del: relay_step.simps)
  qed
  then show ?case by simp
qed

subsection \<open>Room in the spool\<close>

definition line_length :: "message \<Rightarrow> int" where
  "line_length m = int (length (marshal_record \<lparr>rc_subject = fst m, rc_payload = snd m\<rparr> @ [newline]))"

definition lines_of :: "message list \<Rightarrow> int" where
  "lines_of ms = sum_list (map line_length ms)"

definition event_lines :: "msg_codec \<Rightarrow> publisher \<Rightarrow> string \<Rightarrow> relay_event \<Rightarrow> int" where
  "event_lines c pb n e =
     (case e of RlRecord k out wr r \<Rightarrow> if k = n then lines_of (case message_of c pb r of None \<Rightarrow> [] | Some m \<Rightarrow> [m]) else 0 | _ \<Rightarrow> 0)"

definition recorded_lines :: "msg_codec \<Rightarrow> publisher \<Rightarrow> string \<Rightarrow> relay_event list \<Rightarrow> int" where
  "recorded_lines c pb n evs = sum_list (map (event_lines c pb n) evs)"

text \<open>The disk of the node does its work: every write and sync succeeds, and the file can be opened again after a drain has rewritten it.\<close>

fun disk_works :: "string \<Rightarrow> relay_event \<Rightarrow> bool" where
  "disk_works n (RlRecord k out wr r) = (k = n \<longrightarrow> wr = WriteOk)"
| "disk_works n (RlSettle k out wr i) = (k = n \<longrightarrow> wr = WriteOk)"
| "disk_works n (RlDrain k online d outs) = (k = n \<longrightarrow> d \<noteq> ReopenIO)"
| "disk_works n (RlDeliver i) = True"

text \<open>The node has a spool with room for everything it records, on such a disk.\<close>

definition spool_suffices :: "msg_codec \<Rightarrow> publisher \<Rightarrow> string \<Rightarrow> relay_event list \<Rightarrow> bool" where
  "spool_suffices c pb n evs \<longleftrightarrow>
     (case pb_spool pb of None \<Rightarrow> False | Some sp \<Rightarrow> recorded_lines c pb n evs \<le> sp_max sp) \<and> list_all (disk_works n) evs"

definition roomy :: "int \<Rightarrow> int \<Rightarrow> publisher \<Rightarrow> bool" where
  "roomy mx bound pb \<longleftrightarrow> pb_lost pb = []
     \<and> (\<exists>sp. pb_spool pb = Some sp \<and> sp_max sp = mx \<and> sp_open sp \<and> sp_size sp = int (length (sp_file sp))
          \<and> sp_size sp + lines_of (pb_pending pb) \<le> bound)"

lemma lines_nonneg: "0 \<le> lines_of ms"
  unfolding lines_of_def by (induction ms) (simp_all add: line_length_def)

lemma lines_append: "lines_of (xs @ ys) = lines_of xs + lines_of ys"
  by (simp add: lines_of_def)

lemma event_lines_nonneg: "0 \<le> event_lines c pb n e"
  by (cases e) (simp_all add: event_lines_def lines_nonneg)

lemma roomy_spool:
  assumes "roomy mx bound pb" and "bound + line_length m \<le> mx"
  shows "roomy mx (bound + line_length m) (spool_or_lose WriteOk pb m)"
proof -
  obtain sp where sp: "pb_spool pb = Some sp" "sp_max sp = mx" "sp_open sp" "sp_size sp = int (length (sp_file sp))"
    "sp_size sp + lines_of (pb_pending pb) \<le> bound" "pb_lost pb = []" using assms(1) by (auto simp: roomy_def)
  have "sp_size sp + line_length m \<le> mx" using sp(5) assms(2) lines_nonneg [of "pb_pending pb"] by simp
  then show ?thesis using sp by (simp add: roomy_def spool_or_lose_def spool_append_def Let_def line_length_def)
qed

lemma roomy_record:
  assumes "roomy mx bound pb" and "bound + line_length m \<le> mx"
  shows "roomy mx (bound + line_length m) (publish out WriteOk pb m)"
proof (cases out)
  case PubPending
  then show ?thesis using assms(1) by (auto simp: publish_def roomy_def lines_append) (simp add: lines_of_def)
qed (simp add: publish_def roomy_spool [OF assms])

lemma roomy_settle:
  assumes "roomy mx bound pb" and "bound \<le> mx"
  shows "roomy mx bound (fst (settle_publish out WriteOk i (pb, stream)))"
proof (cases "i < length (pb_pending pb)")
  case True
  let ?m = "pb_pending pb ! i" and ?pb = "pb\<lparr>pb_pending := take i (pb_pending pb) @ drop (Suc i) (pb_pending pb)\<rparr>"
  have "lines_of (pb_pending pb) = lines_of (take i (pb_pending pb) @ ?m # drop (Suc i) (pb_pending pb))"
    using id_take_nth_drop [OF True] by simp
  then have "lines_of (pb_pending pb) = lines_of (pb_pending ?pb) + line_length ?m" by (simp add: lines_append) (simp add: lines_of_def)
  then have r: "roomy mx (bound - line_length ?m) ?pb" using assms(1) by (auto simp: roomy_def)
  have "roomy mx bound (spool_or_lose WriteOk ?pb ?m)" using roomy_spool [OF r, of ?m] assms(2) by simp
  moreover have "roomy mx bound ?pb" using r by (auto simp: roomy_def line_length_def)
  ultimately show ?thesis using True by (cases out) (simp_all add: settle_publish_def Let_def)
qed (use assms(1) in \<open>simp add: settle_publish_def\<close>)

lemma serialize_suffix: "length (serialize marshal_record rest) \<le> length (serialize marshal_record (p @ rest))"
  by (simp add: serialize_def)

lemma drain_exact:
  assumes "spool_drain d f st sp = (st', sp', res)" and "d \<noteq> ReopenIO" and "sp_open sp" and "sp_size sp = int (length (sp_file sp))"
  shows "sp_open sp' \<and> sp_size sp' = int (length (sp_file sp')) \<and> sp_max sp' = sp_max sp"
  using assms by (cases d) (auto simp: spool_drain_def finish_drain_def spool_rewrite_def Let_def split: if_splits prod.splits)

lemma roomy_drain:
  assumes "roomy mx bound pb" and "spool_good pb" and "d \<noteq> ReopenIO"
  shows "roomy mx bound (fst (drain_tick online d outs (pb, stream)))"
proof -
  obtain sp where sp: "pb_spool pb = Some sp" "sp_max sp = mx" "sp_open sp" "sp_size sp = int (length (sp_file sp))"
    "sp_size sp + lines_of (pb_pending pb) \<le> bound" "pb_lost pb = []" using assms(1) by (auto simp: roomy_def)
  obtain rs where rs: "holds sp rs" using assms(2) sp(1) by (auto simp: spool_good_def)
  obtain st' sp' res where dr: "spool_drain d republish (stream, outs) sp = (st', sp', res)"
    by (cases "spool_drain d republish (stream, outs) sp")
  have "\<exists>p rest. rs = p @ rest \<and> True \<and> (holds sp' rest \<or> holds sp' rs)"
    by (rule drain_holds [where P = "\<lambda>_ _. True", OF rs dr]) simp_all
  then obtain p rest where "rs = p @ rest" "holds sp' rest \<or> holds sp' rs" by blast
  then have "sp_file sp' = serialize marshal_record rest \<or> sp_file sp' = serialize marshal_record rs" "rs = p @ rest"
    by (auto simp: holds_def)
  then have "length (sp_file sp') \<le> length (sp_file sp)" using rs serialize_suffix [of rest p] by (auto simp: holds_def)
  then have "roomy mx bound (pb\<lparr>pb_spool := Some sp'\<rparr>)" using drain_exact [OF dr assms(3) sp(3,4)] sp by (simp add: roomy_def)
  moreover have "fst (drain_tick online d outs (pb, stream)) \<in> {pb, pb\<lparr>pb_spool := Some sp'\<rparr>}"
    using sp(1) dr by (simp add: drain_tick_def flush_spool_def)
  ultimately show ?thesis using assms(1) by auto
qed

lemma recorded_lines_snoc: "recorded_lines c pb n (evs @ [e]) = recorded_lines c pb n evs + event_lines c pb n e"
  by (simp add: recorded_lines_def)

lemma fresh_roomy: "fresh_node pb \<Longrightarrow> pb_spool pb = Some sp \<Longrightarrow> roomy (sp_max sp) 0 pb"
proof -
  assume f: "fresh_node pb" "pb_spool pb = Some sp"
  then have sp: "sp = open_spool [] (sp_max sp)" by (simp add: fresh_node_def)
  have "sp_open sp \<and> sp_size sp = 0 \<and> sp_file sp = []" by (subst sp, subst (2) sp, subst (3) sp) (simp add: open_spool_def)
  then show ?thesis using f by (simp add: roomy_def fresh_node_def lines_of_def)
qed

lemma relay_room:
  assumes "\<forall>n. fresh_node (nodes n)" and "readable c" and "pb_spool (nodes n) = Some sp"
  shows "list_all event_ok evs \<Longrightarrow> recorded_lines c (nodes n) n evs \<le> sp_max sp \<Longrightarrow> list_all (disk_works n) evs \<Longrightarrow>
    roomy (sp_max sp) (recorded_lines c (nodes n) n evs)
      (rl_nodes (foldl (relay_step c) \<lparr>rl_nodes = nodes, rl_stream = [], rl_sunk = []\<rparr> evs) n)"
proof (induction evs rule: rev_induct)
  case Nil
  then show ?case using fresh_roomy assms(1,3) by (simp add: recorded_lines_def)
next
  case (snoc e evs)
  let ?w = "foldl (relay_step c) \<lparr>rl_nodes = nodes, rl_stream = [], rl_sunk = []\<rparr> evs"
  let ?t = "recorded_lines c (nodes n) n evs"
  have inv: "relay_inv c nodes (recorded_by evs) ?w" using relay_run [OF assms(1,2)] snoc.prems(1) by simp
  have t: "?t + event_lines c (nodes n) n e \<le> sp_max sp" using snoc.prems(2) by (simp only: recorded_lines_snoc)
  then have t0: "?t \<le> sp_max sp" using event_lines_nonneg [of c "nodes n" n e] by simp
  have r: "roomy (sp_max sp) ?t (rl_nodes ?w n)" using snoc t0 by simp
  have w: "disk_works n e" using snoc.prems(3) by simp
  have "roomy (sp_max sp) (?t + event_lines c (nodes n) n e) (rl_nodes (relay_step c ?w e) n)"
  proof (cases e)
    case (RlRecord k out wr x)
    show ?thesis
    proof (cases "k = n")
      case True
      have m: "message_of c (rl_nodes ?w n) x = message_of c (nodes n) x" using message_same_node [OF relay_invD(2) [OF inv]] by blast
      show ?thesis
      proof (cases "message_of c (nodes n) x")
        case None
        then show ?thesis using r by (simp add: RlRecord True at_relay_def record_any_publish m event_lines_def lines_of_def)
      next
        case (Some y)
        have e: "event_lines c (nodes n) n e = line_length y" by (simp add: RlRecord True event_lines_def Some lines_of_def)
        show ?thesis using roomy_record [OF r t [unfolded e]] w unfolding e
          by (simp add: RlRecord True at_relay_def record_any_publish m Some)
      qed
    qed (use r in \<open>simp add: RlRecord at_relay_def event_lines_def\<close>)
  next
    case (RlSettle k out wr i)
    then show ?thesis using r roomy_settle [OF r t0] w by (cases "k = n") (simp_all add: at_relay_def event_lines_def)
  next
    case (RlDrain k online d outs)
    then show ?thesis using r roomy_drain [OF r relay_invD(1) [OF inv]] w by (cases "k = n") (simp_all add: at_relay_def event_lines_def)
  next
    case (RlDeliver i)
    then show ?thesis using r by (simp add: event_lines_def)
  qed
  then show ?case by (simp only: recorded_lines_snoc foldl_append foldl_Cons foldl_Nil)
qed

text \<open>
  C8: regional events reach the master unaltered or stay at their node. Take any nodes, each with an
  empty spool or none, and any interleaving of recorded shares, blocks and state changes, refused,
  acknowledged and failed publishes (including failures after the server had stored the message), drains with any
  outcome, disk failures short of torn writes, and deliveries, repeated ones too. Then every recorded
  event's message is in the stream, or held at its node, unacknowledged or spooled, or it is among those that the node
  had to log as lost; and a node loses nothing as long as its spool suffices: it has one, with room for the lines of everything the
  node records, and its disk works. The sink has only been given events some node recorded, each with the fields
  and region it was recorded with and by the method of its kind; and delivering the message of any
  recorded event gives the sink exactly that event.
\<close>

theorem relay_faithful:
  assumes "\<forall>n. fresh_node (nodes n)" and "readable c" and "list_all event_ok evs"
    and "w = foldl (relay_step c) \<lparr>rl_nodes = nodes, rl_stream = [], rl_sunk = []\<rparr> evs"
  shows "(\<forall>n. \<forall>r \<in> recorded_by evs n. \<forall>m. message_of c (nodes n) r = Some m \<longrightarrow>
        m \<in> set (rl_stream w) \<union> held_at (rl_nodes w n) \<union> set (pb_lost (rl_nodes w n)) \<and> consume c m = Some (effect_of (nodes n) r))
    \<and> (\<forall>n. spool_suffices c (nodes n) n evs \<longrightarrow> pb_lost (rl_nodes w n) = [])
    \<and> (\<forall>e \<in> set (rl_sunk w). \<exists>n. \<exists>r \<in> recorded_by evs n. e = effect_of (nodes n) r)"
proof -
  have inv: "relay_inv c nodes (recorded_by evs) w" unfolding assms(4) by (rule relay_run [OF assms(1-3)])
  have "m \<in> set (rl_stream w) \<union> held_at (rl_nodes w n) \<union> set (pb_lost (rl_nodes w n)) \<and> consume c m = Some (effect_of (nodes n) r)"
    if "r \<in> recorded_by evs n" "message_of c (nodes n) r = Some m" for n r m
    using relay_invD(4) [OF inv, of n] that consume_message [OF assms(2) that(2)] by (auto simp: sent_by_def known_at_def held_at_def)
  moreover have "pb_lost (rl_nodes w n) = []" if "spool_suffices c (nodes n) n evs" for n
    using relay_room [OF assms(1,2) _ assms(3)] that unfolding assms(4)
    by (auto simp: spool_suffices_def roomy_def split: option.splits)
  moreover have "\<exists>n. \<exists>r \<in> recorded_by evs n. e = effect_of (nodes n) r" if "e \<in> set (rl_sunk w)" for e
    using relay_invD(6) [OF inv] that by blast
  ultimately show ?thesis by blast
qed

definition sample_share_event :: share_event where
  "sample_share_event = \<lparr>se_pool_id = ''btc'', se_block_height = 7, se_share_diff = 9, se_worker_diff = 8,
     se_network_difficulty = 100, se_miner = ''bc1q'', se_worker = ''rig'', se_user_agent = [], se_ip_address = [], se_created = 5,
     se_is_block_candidate = False\<rparr>"

definition sample_codec :: msg_codec where
  "sample_codec =
     (let m = share_msg_of ''eu'' sample_share_event in
      \<lparr>mc_share = (\<lambda>x. if x = m then Some [1] else None), mc_read_share = (\<lambda>p. if p = [1] then Some m else None),
       mc_block = (\<lambda>_. None), mc_read_block = (\<lambda>_. None), mc_state = (\<lambda>_. None), mc_read_state = (\<lambda>_. None),
       mc_command = (\<lambda>_. None), mc_read_command = (\<lambda>_. None)\<rparr>)"

definition sample_node :: publisher where
  "sample_node = \<lparr>pb_region = ''eu'', pb_node_id = ''n1'', pb_spool = Some (open_spool [] 0), pb_pending = [], pb_lost = []\<rparr>"

definition sample_relay_events :: "relay_event list" where
  "sample_relay_events = [RlRecord ''n1'' PubPending WriteOk (RecShare sample_share_event), RlSettle ''n1'' AckStored WriteOk 0,
     RlDeliver 0, RlDeliver 0, RlRecord ''n2'' PubRefused WriteOk (RecShare sample_share_event)]"

text \<open>One share sent, stored and delivered twice; another node's publish is refused, and its share is in that node's spool.\<close>

theorem relay_faithful_witness:
  "let w = foldl (relay_step sample_codec) \<lparr>rl_nodes = (\<lambda>_. sample_node), rl_stream = [], rl_sunk = []\<rparr> sample_relay_events;
       m = (''shares.eu.btc'', [1])
   in m \<in> set (rl_stream w) \<union> held_at (rl_nodes w ''n2'') \<and> pb_lost (rl_nodes w ''n2'') = []
     \<and> consume sample_codec m = Some (effect_of sample_node (RecShare sample_share_event))
     \<and> length (rl_sunk w) = 2"
proof -
  let ?w = "foldl (relay_step sample_codec) \<lparr>rl_nodes = (\<lambda>_. sample_node), rl_stream = [], rl_sunk = []\<rparr> sample_relay_events"
  have h: "fresh_node sample_node" "readable sample_codec" "list_all event_ok sample_relay_events"
    by (simp_all add: fresh_node_def sample_node_def plain_name_def plain_char_def open_spool_def default_max_bytes_def readable_def
      sample_codec_def sample_relay_events_def whole_write_def recorded_pool_def sample_share_event_def Let_def)
  have r: "RecShare sample_share_event \<in> recorded_by sample_relay_events ''n2''"
    by (auto simp: recorded_by_def sample_relay_events_def)
  have m: "message_of sample_codec sample_node (RecShare sample_share_event) = Some (''shares.eu.btc'', [1])"
    by (simp add: message_of_def sample_codec_def sample_node_def share_subject_def subject_share_prefix_def sample_share_event_def Let_def)
  have pend: "pb_pending sample_node = []" by (simp add: sample_node_def)
  have sunk: "length (rl_sunk ?w) = 2"
    by (simp add: sample_relay_events_def record_any_publish m publish_def settle_publish_def at_relay_def Let_def pend
      consume_message [OF h(2) m])
  have sp: "pb_spool sample_node = Some (open_spool [] 0)" "sp_max (open_spool [] 0) = default_max_bytes"
    by (simp_all add: sample_node_def open_spool_def)
  have "line_length (''shares.eu.btc'', [1]) \<le> default_max_bytes" by code_simp
  then have room: "spool_suffices sample_codec sample_node ''n2'' sample_relay_events"
    unfolding spool_suffices_def sample_relay_events_def
    by (simp add: recorded_lines_def event_lines_def m lines_of_def sp)
  have f: "\<forall>n. fresh_node ((\<lambda>_. sample_node) n)" using h(1) by simp
  note faithful = relay_faithful [OF f h(2,3) refl]
  have lost: "pb_lost (rl_nodes ?w ''n2'') = []" using conjunct1 [OF conjunct2 [OF faithful]] room by blast
  have "(''shares.eu.btc'', [1]) \<in> set (rl_stream ?w) \<union> held_at (rl_nodes ?w ''n2'') \<union> set (pb_lost (rl_nodes ?w ''n2''))
      \<and> consume sample_codec (''shares.eu.btc'', [1]) = Some (effect_of sample_node (RecShare sample_share_event))"
    using conjunct1 [OF faithful] r m by blast
  with lost sunk show ?thesis by (simp add: Let_def)
qed

end
