(* ===== verification/Rewards.thy ===== *)
theory Rewards
  imports GoFloat "HOL-Library.Multiset" "HOL-Library.Char_ord" "HOL-Library.List_Lexorder"
begin

text \<open>
  \<open>internal/rewards/rewards.go\<close>: the fee, the proportional split and the SOLO, PROP and PPLNS
  calculators over an abstract share source. Amounts are base units (\<open>int64\<close> in the code, \<open>int\<close>
  here: every bound proved keeps them far inside the range); share difficulties are \<open>f64\<close>.
  Go compares strings byte by byte, which is the list order on characters.
\<close>

record credit =
  cr_miner :: string
  cr_amount :: int

record reward_block =
  rb_id :: int
  rb_pool :: string
  rb_height :: int
  rb_miner :: string
  rb_hash :: string
  rb_reward :: int
  rb_net_diff :: f64
  rb_created :: int

record miner_work =
  mw_miner :: string
  mw_diff :: f64

subsection \<open>The pool fee\<close>

definition apply_fee :: "int \<Rightarrow> f64 \<Rightarrow> int \<times> int" where
  "apply_fee reward fee_percent =
     (if fee_percent \<le> 0 \<or> reward \<le> 0 then (reward, 0)
      else if fee_percent \<ge> 100 then (0, reward)
      else let fee = int_of_f64 (fdiv (fmul (f64_of_int reward) fee_percent) 100)
           in (reward - fee, fee))"

lemma apply_fee_split: "fst (apply_fee reward fp) + snd (apply_fee reward fp) = reward"
  by (simp add: apply_fee_def Let_def)

lemma apply_fee_bounds:
  assumes "0 \<le> reward" and "reward \<le> 2 ^ 51"
  shows "0 \<le> snd (apply_fee reward fp) \<and> snd (apply_fee reward fp) \<le> reward"
proof (cases "fp \<le> 0 \<or> reward \<le> 0 \<or> 100 \<le> fp")
  case True
  with assms show ?thesis by (auto simp: apply_fee_def)
next
  case False
  define r :: rat where "r = of_int reward"
  have r: "0 \<le> r" "r \<le> 2 ^ 51" "f64_of_int reward = r"
    using assms by (simp_all add: r_def)
  have x: "0 \<le> r * fp / 100" "r * fp \<le> r * 100" using False r(1) by (auto intro: mult_left_mono)
  have a0: "0 \<le> fmul r fp" using False r(1) by (simp add: fmul_def f64.rnd_nonneg)
  have "fmul r fp \<le> r * fp * (1 + 1 / 2 ^ 53)"
    unfolding fmul_def using False r(1) by (intro f64.rnd_upper) simp
  also have "\<dots> \<le> r * 100 * (1 + 1 / 2 ^ 53)" using x(2) by (intro mult_right_mono) simp_all
  finally have a: "fmul r fp / 100 \<le> r * (1 + 1 / 2 ^ 53)" by simp
  have "fdiv (fmul r fp) 100 \<le> fmul r fp / 100 * (1 + 1 / 2 ^ 53)"
    unfolding fdiv_def using a0 by (intro f64.rnd_upper) simp
  also have "\<dots> \<le> r * (1 + 1 / 2 ^ 53) * (1 + 1 / 2 ^ 53)" using a by (intro mult_right_mono) simp_all
  also have "\<dots> < r + 1" using r(2) by (simp add: field_simps)
  finally have lt: "fdiv (fmul r fp) 100 < r + 1" .
  have nn: "0 \<le> fdiv (fmul r fp) 100" unfolding fdiv_def using a0 by (intro f64.rnd_nonneg) simp
  have "of_int (int_of_f64 (fdiv (fmul r fp) 100)) < (of_int (reward + 1) :: rat)"
    using int_of_f64_le [OF nn] lt by (simp add: r_def)
  then have "int_of_f64 (fdiv (fmul r fp) 100) \<le> reward" by (simp only: of_int_less_iff)
  then show ?thesis using False int_of_f64_nonneg [OF nn] by (simp add: apply_fee_def r(3) Let_def)
qed

text \<open>
  The fee neither creates nor loses money: what is distributed and the fee add up to the block
  reward, and for rewards up to \<open>2 ^ 51\<close> base units, at any fee percentage, neither part is
  negative in spite of the float multiplication.
\<close>

theorem fee_conserves_reward:
  assumes "0 \<le> reward" and "reward \<le> 2 ^ 51" and "apply_fee reward fp = (paid, fee)"
  shows "paid + fee = reward \<and> 0 \<le> paid \<and> 0 \<le> fee"
  using apply_fee_split [of reward fp] apply_fee_bounds [OF assms(1,2), of fp] assms(3) by simp

theorem fee_conserves_reward_witness:
  "309375000 + 3125000 = (312500000 :: int) \<and> apply_fee 312500000 1 = (309375000, 3125000)"
proof -
  have a: "apply_fee 312500000 1 = (309375000, 3125000)" by code_simp
  have "(309375000 :: int) + 3125000 = 312500000 \<and> (0 :: int) \<le> 309375000 \<and> (0 :: int) \<le> 3125000"
    by (rule fee_conserves_reward [OF _ _ a]) simp_all
  with a show ?thesis by simp
qed

subsection \<open>The proportional split\<close>

definition work_before :: "miner_work \<Rightarrow> miner_work \<Rightarrow> bool" where
  "work_before a b =
     (if mw_diff a \<noteq> mw_diff b then mw_diff a > mw_diff b else mw_miner a < mw_miner b)"

text \<open>\<open>sort.Slice\<close> under a strict order in which ties are equal records: insertion sort.\<close>

fun insert_work :: "miner_work \<Rightarrow> miner_work list \<Rightarrow> miner_work list" where
  "insert_work w [] = [w]"
| "insert_work w (v # vs) = (if work_before v w then v # insert_work w vs else w # v # vs)"

definition sort_work :: "miner_work list \<Rightarrow> miner_work list" where
  "sort_work ws = foldr insert_work ws []"

function hand_out :: "int \<Rightarrow> nat \<Rightarrow> int \<Rightarrow> credit list \<Rightarrow> credit list" where
  "hand_out amount i assigned cs =
     (if assigned < amount
      then hand_out amount ((i + 1) mod length cs) (assigned + 1)
             (cs[i := (cs ! i)\<lparr>cr_amount := cr_amount (cs ! i) + 1\<rparr>])
      else cs)"
  by pat_completeness auto
termination by (relation "measure (\<lambda>(amount, i, assigned, cs). nat (amount - assigned))") auto

declare hand_out.simps [simp del]

definition positive_total :: "miner_work list \<Rightarrow> f64" where
  "positive_total work = foldl (\<lambda>t w. if 0 < mw_diff w then fadd t (mw_diff w) else t) 0 work"

definition share_of :: "int \<Rightarrow> f64 \<Rightarrow> miner_work \<Rightarrow> credit" where
  "share_of amount diff_total w =
     \<lparr>cr_miner = mw_miner w,
      cr_amount = int_of_f64 (fmul (f64_of_int amount) (fdiv (mw_diff w) diff_total))\<rparr>"

definition distribute :: "int \<Rightarrow> miner_work list \<Rightarrow> credit list" where
  "distribute amount work =
     (if amount \<le> 0 \<or> work = [] then []
      else let diff_total = positive_total work
           in if diff_total \<le> 0 then []
              else let credits = map (share_of amount diff_total)
                                   (sort_work (filter (\<lambda>w. 0 < mw_diff w) work));
                       assigned = sum_list (map cr_amount credits)
                   in filter (\<lambda>c. 0 < cr_amount c) (hand_out amount 0 assigned credits))"

lemma mset_insert_work: "mset (insert_work w ws) = {#w#} + mset ws"
  by (induction ws) auto

lemma mset_sort_work [simp]: "mset (sort_work ws) = mset ws"
  unfolding sort_work_def by (induction ws) (simp_all add: mset_insert_work)

lemma set_sort_work [simp]: "set (sort_work ws) = set ws"
  by (metis mset_sort_work set_mset_mset)

lemma length_sort_work [simp]: "length (sort_work ws) = length ws"
  by (metis mset_sort_work size_mset)

lemma sum_map_sort_work: "sum_list (map f (sort_work ws)) = (\<Sum>w\<leftarrow>ws. f w)" for f :: "_ \<Rightarrow> rat"
  by (metis mset_map mset_sort_work sum_mset_sum_list)

lemma sum_list_bump:
  "i < length cs \<Longrightarrow>
   sum_list (map cr_amount (cs[i := (cs ! i)\<lparr>cr_amount := cr_amount (cs ! i) + 1\<rparr>]))
     = sum_list (map cr_amount cs) + 1"
proof (induction cs arbitrary: i)
  case (Cons c cs)
  then show ?case by (cases i) simp_all
qed simp

lemma hand_out_sum:
  assumes "i < length cs" and "sum_list (map cr_amount cs) = assigned"
  shows "sum_list (map cr_amount (hand_out amount i assigned cs)) = max amount assigned"
  using assms
proof (induction amount i assigned cs rule: hand_out.induct)
  case (1 amount i assigned cs)
  show ?case
  proof (cases "assigned < amount")
    case True
    have l: "0 < length cs" using "1.prems" by linarith
    show ?thesis
      using True l "1.IH" [OF True] "1.prems" by (subst hand_out.simps) (simp add: sum_list_bump)
  next
    case False
    then show ?thesis using "1.prems" by (subst hand_out.simps) simp
  qed
qed

text \<open>With a remainder of at most one unit per remaining credit, one pass hands it all out.\<close>

lemma hand_out_one_pass:
  assumes "i + nat (amount - assigned) \<le> length cs"
  shows "hand_out amount i assigned cs =
    map (\<lambda>j. if i \<le> j \<and> j < i + nat (amount - assigned)
             then (cs ! j)\<lparr>cr_amount := cr_amount (cs ! j) + 1\<rparr> else cs ! j) [0..<length cs]"
  using assms
proof (induction amount i assigned cs rule: hand_out.induct)
  case (1 amount i assigned cs)
  show ?case
  proof (cases "assigned < amount")
    case False
    then have "nat (amount - assigned) = 0" by simp
    then show ?thesis using False
      by (subst hand_out.simps) (auto intro: nth_equalityI)
  next
    case True
    define cs' where "cs' = cs[i := (cs ! i)\<lparr>cr_amount := cr_amount (cs ! i) + 1\<rparr>]"
    have n: "nat (amount - assigned) = Suc (nat (amount - (assigned + 1)))" using True by simp
    show ?thesis
    proof (cases "nat (amount - (assigned + 1)) = 0")
      case last: True
      then have "\<not> assigned + 1 < amount" by simp
      then have "hand_out amount i assigned cs = cs'"
        using True by (subst hand_out.simps, subst hand_out.simps) (simp add: cs'_def)
      then show ?thesis using n last "1.prems"
        by (auto simp: cs'_def intro!: nth_equalityI simp: nth_list_update)
    next
      case more: False
      then have i: "(i + 1) mod length cs = i + 1" using n "1.prems" by simp
      have "hand_out amount i assigned cs = hand_out amount (i + 1) (assigned + 1) cs'"
        using True by (subst hand_out.simps) (simp only: cs'_def i if_True)
      also have "\<dots> = map (\<lambda>j. if i + 1 \<le> j \<and> j < i + 1 + nat (amount - (assigned + 1))
             then (cs' ! j)\<lparr>cr_amount := cr_amount (cs' ! j) + 1\<rparr> else cs' ! j) [0..<length cs']"
        using "1.IH" [OF True] "1.prems" n by (simp only: i cs'_def [symmetric]) (simp add: cs'_def)
      finally show ?thesis using n "1.prems"
        by (auto simp: cs'_def intro!: nth_equalityI simp: nth_list_update)
    qed
  qed
qed


text \<open>The float total of \<open>k\<close> positive sums is the exact total up to \<open>k\<close> roundings.\<close>

definition unit_err :: rat where
  "unit_err = 1 / 2 ^ 53"

lemma unit_err_range [simp]: "0 < unit_err" "unit_err < 1" "0 \<le> unit_err" "unit_err \<le> 1"
  "0 < 1 + unit_err" "0 \<le> 1 + unit_err"
  by (simp_all add: unit_err_def)

lemma fadd_bounds:
  assumes "0 \<le> x"
  shows "x * (1 - unit_err) \<le> round64 x" and "round64 x \<le> x * (1 + unit_err)"
  using f64.rnd_lower [OF assms] f64.rnd_upper [OF assms] by (simp_all add: unit_err_def)

lemma total_bounds:
  assumes "\<And>w. w \<in> set ws \<Longrightarrow> 0 < mw_diff w" and "0 \<le> acc"
  shows "(acc + (\<Sum>w\<leftarrow>ws. mw_diff w)) * (1 - unit_err) ^ length ws \<le> foldl (\<lambda>t w. fadd t (mw_diff w)) acc ws
    \<and> foldl (\<lambda>t w. fadd t (mw_diff w)) acc ws \<le> (acc + (\<Sum>w\<leftarrow>ws. mw_diff w)) * (1 + unit_err) ^ length ws"
  using assms
proof (induction ws arbitrary: acc)
  case (Cons w ws)
  define s where "s = acc + mw_diff w"
  define S where "S = (\<Sum>v\<leftarrow>ws. mw_diff v)"
  define a where "a = fadd acc (mw_diff w)"
  have s: "0 \<le> s" using Cons.prems(1) [of w] Cons.prems(2) by (simp add: s_def)
  have S: "0 \<le> S" unfolding S_def using Cons.prems(1) by (intro sum_list_nonneg) (auto simp: less_imp_le)
  have a: "s * (1 - unit_err) \<le> a" "a \<le> s * (1 + unit_err)"
    using fadd_bounds [OF s] by (simp_all only: a_def fadd_def s_def)
  have a0: "0 \<le> a" using f64.rnd_nonneg [OF s] by (simp add: a_def fadd_def s_def)
  have IH: "(a + S) * (1 - unit_err) ^ length ws \<le> foldl (\<lambda>t w. fadd t (mw_diff w)) a ws"
    "foldl (\<lambda>t w. fadd t (mw_diff w)) a ws \<le> (a + S) * (1 + unit_err) ^ length ws"
    using Cons.IH [OF _ a0] Cons.prems(1) unfolding S_def by auto
  have "0 \<le> S * unit_err" using S by simp
  with a have lo: "(s + S) * (1 - unit_err) \<le> a + S" and hi: "a + S \<le> (s + S) * (1 + unit_err)"
    by (simp_all add: algebra_simps)
  have "(s + S) * (1 - unit_err) * (1 - unit_err) ^ length ws \<le> (a + S) * (1 - unit_err) ^ length ws"
    using lo by (intro mult_right_mono) simp_all
  moreover have "(a + S) * (1 + unit_err) ^ length ws \<le> (s + S) * (1 + unit_err) * (1 + unit_err) ^ length ws"
    using hi by (intro mult_right_mono) simp_all
  moreover have "acc + (\<Sum>v\<leftarrow>w # ws. mw_diff v) = s + S" by (simp add: s_def S_def)
  moreover have "foldl (\<lambda>t w. fadd t (mw_diff w)) acc (w # ws) = foldl (\<lambda>t w. fadd t (mw_diff w)) a ws"
    by (simp add: a_def)
  ultimately show ?case using IH by (simp only: list.size power_Suc add_Suc_right add_0_right mult.assoc) linarith
qed simp

lemma foldl_filter_positive:
  "foldl (\<lambda>t w. if 0 < mw_diff w then fadd t (mw_diff w) else t) acc ws
    = foldl (\<lambda>t w. fadd t (mw_diff w)) acc (filter (\<lambda>w. 0 < mw_diff w) ws)"
  by (induction ws arbitrary: acc) simp_all

definition positive_work :: "miner_work list \<Rightarrow> miner_work list" where
  "positive_work ws = filter (\<lambda>w. 0 < mw_diff w) ws"

definition exact_total :: "miner_work list \<Rightarrow> rat" where
  "exact_total ws = (\<Sum>w\<leftarrow>positive_work ws. mw_diff w)"

lemma positive_total_bounds:
  "exact_total ws * (1 - unit_err) ^ length (positive_work ws) \<le> positive_total ws"
  "positive_total ws \<le> exact_total ws * (1 + unit_err) ^ length (positive_work ws)"
  using total_bounds [of "positive_work ws" 0]
  by (simp_all add: positive_total_def foldl_filter_positive exact_total_def positive_work_def)

lemma exact_total_pos:
  assumes "positive_work ws \<noteq> []"
  shows "0 < exact_total ws"
proof -
  obtain v vs where v: "positive_work ws = v # vs" using assms by (cases "positive_work ws") auto
  then have "\<forall>w \<in> set (v # vs). 0 < mw_diff w" by (auto simp: positive_work_def simp flip: v)
  moreover from this have "0 \<le> (\<Sum>w\<leftarrow>vs. mw_diff w)" by (intro sum_list_nonneg) (auto simp: less_imp_le)
  ultimately show ?thesis by (simp add: exact_total_def v add_pos_nonneg)
qed

lemma bernoulli_lower: "1 - of_nat k * unit_err \<le> (1 - unit_err) ^ k"
  using Bernoulli_inequality [of "- unit_err" k]
  by simp

text \<open>What the roundings do to the whole amount: less than one base unit up, at most half a unit
  down, as long as the amount times the number of miners stays under \<open>2 ^ 52\<close>.\<close>

definition scale_up :: "nat \<Rightarrow> rat" where
  "scale_up k = (1 + unit_err) ^ 2 / (1 - unit_err) ^ k"

definition scale_down :: "nat \<Rightarrow> rat" where
  "scale_down k = (1 - unit_err) ^ 2 / (1 + unit_err) ^ k"

lemma scale_up_bound:
  fixes a :: rat
  assumes "1 \<le> a" and "a * (of_nat k + 3) \<le> 2 ^ 52"
  shows "a * scale_up k < a + 1"
proof -
  define x :: rat where "x = of_nat k"
  have x0: "0 \<le> x" by (simp add: x_def)
  have ax: "a * x \<le> 2 ^ 52 - 3 * a" using assms(2) by (simp add: x_def algebra_simps)
  have x1: "x \<le> a * x" using assms(1) x0 by (simp add: mult_le_cancel_right1)
  have q: "1 - x * unit_err \<le> (1 - unit_err) ^ k" using bernoulli_lower [of k] by (simp add: x_def)
  have q0: "0 < (1 - unit_err) ^ k" by simp
  have u: "unit_err * 2 ^ 53 = 1" by (simp add: unit_err_def)
  have "unit_err ^ 2 \<le> unit_err * 1" unfolding power2_eq_square by (intro mult_left_mono) simp_all
  then have "a * (2 * unit_err + unit_err ^ 2) \<le> a * (3 * unit_err)"
    using assms(1) by (intro mult_left_mono) simp_all
  moreover have "a * (1 + unit_err) ^ 2 = a + a * (2 * unit_err + unit_err ^ 2)"
    by (simp add: power2_eq_square algebra_simps)
  ultimately have "a * (1 + unit_err) ^ 2 \<le> a + a * (3 * unit_err)" by simp
  also have "a + a * (3 * unit_err) < (a + 1) * (1 - x * unit_err)"
  proof -
    have "3 * a + a * x + x < 2 ^ 53" using ax x1 assms(1) by simp
    then have "(3 * a + a * x + x) * unit_err < 2 ^ 53 * unit_err" by (intro mult_strict_right_mono) simp_all
    then show ?thesis using u by (simp add: algebra_simps)
  qed
  also have "(a + 1) * (1 - x * unit_err) \<le> (a + 1) * (1 - unit_err) ^ k"
    using q assms(1) by (intro mult_left_mono) simp_all
  finally have "a * (1 + unit_err) ^ 2 < (a + 1) * (1 - unit_err) ^ k" by simp
  then show ?thesis using q0 by (simp add: scale_up_def divide_less_eq)
qed

lemma scale_down_bound:
  fixes a :: rat
  assumes "1 \<le> a" and "a * (of_nat k + 3) \<le> 2 ^ 52"
  shows "a - 1 / 2 \<le> a * scale_down k"
proof -
  have "(1 - unit_err) ^ k * (1 + unit_err) ^ k = ((1 - unit_err) * (1 + unit_err)) ^ k"
    by (simp only: power_mult_distrib)
  also have "\<dots> \<le> 1" by (intro power_le_one mult_nonneg_nonneg) (simp_all add: algebra_simps)
  finally have "(1 - unit_err) ^ k \<le> 1 / (1 + unit_err) ^ k" by (simp add: le_divide_eq)
  then have "(1 - unit_err) ^ 2 * (1 - unit_err) ^ k \<le> scale_down k"
    unfolding scale_down_def using mult_left_mono [of "(1 - unit_err) ^ k" "1 / (1 + unit_err) ^ k" "(1 - unit_err) ^ 2"]
    by simp
  then have "1 - of_nat (2 + k) * unit_err \<le> scale_down k"
    using bernoulli_lower [of "2 + k"] by (simp only: power_add)
  then have "a * (1 - of_nat (2 + k) * unit_err) \<le> a * scale_down k"
    using assms(1) by (intro mult_left_mono) simp_all
  moreover have "a - 1 / 2 \<le> a * (1 - of_nat (2 + k) * unit_err)"
    using assms by (simp add: algebra_simps unit_err_def)
  ultimately show ?thesis by linarith
qed

lemma share_of_bounds:
  fixes a :: int and w :: miner_work
  assumes a: "0 < a" "a \<le> 2 ^ 53" and w: "0 < mw_diff w" and W: "0 < W"
    and t: "W * (1 - unit_err) ^ k \<le> t" "t \<le> W * (1 + unit_err) ^ k"
  shows "0 \<le> cr_amount (share_of a t w)"
    and "of_int (cr_amount (share_of a t w)) \<le> of_int a * scale_up k * (mw_diff w / W)"
    and "of_int a * scale_down k * (mw_diff w / W) - 1 < of_int (cr_amount (share_of a t w))"
proof -
  define A :: rat where "A = of_int a"
  define d where "d = mw_diff w"
  have A: "0 < A" "f64_of_int a = A" using a by (simp_all add: A_def)
  have d: "0 < d" using w by (simp add: d_def)
  have p0: "0 < (1 - unit_err) ^ k" "0 < (1 + unit_err) ^ k" by simp_all
  have t0: "0 < t" using t(1) W p0(1) by (meson less_le_trans mult_pos_pos)
  define x where "x = fdiv d t"
  define v where "v = fmul A x"
  have dt: "0 \<le> d / t" using d t0 by simp
  have x: "d / t * (1 - unit_err) \<le> x" "x \<le> d / t * (1 + unit_err)"
    using fadd_bounds [OF dt] by (simp_all only: x_def fdiv_def)
  have x0: "0 \<le> x" unfolding x_def fdiv_def by (rule f64.rnd_nonneg [OF dt])
  have Ax: "0 \<le> A * x" using A x0 by simp
  have v: "A * x * (1 - unit_err) \<le> v" "v \<le> A * x * (1 + unit_err)"
    using fadd_bounds [OF Ax] by (simp_all only: v_def fmul_def)
  have v0: "0 \<le> v" unfolding v_def fmul_def by (rule f64.rnd_nonneg [OF Ax])
  have c: "cr_amount (share_of a t w) = \<lfloor>v\<rfloor>"
    using v0 by (simp add: share_of_def int_of_f64_def v_def x_def A(2) d_def)
  show "0 \<le> cr_amount (share_of a t w)" using v0 by (simp add: c)
  have "d / t \<le> d / (W * (1 - unit_err) ^ k)"
    using t(1) d W p0 t0 by (intro divide_left_mono) simp_all
  then have "d / t * (1 + unit_err) \<le> d / (W * (1 - unit_err) ^ k) * (1 + unit_err)"
    by (intro mult_right_mono) simp_all
  then have "x \<le> d / (W * (1 - unit_err) ^ k) * (1 + unit_err)"
    using x(2) by (rule order_trans [rotated])
  then have "A * x * (1 + unit_err) \<le> A * (d / (W * (1 - unit_err) ^ k) * (1 + unit_err)) * (1 + unit_err)"
    using A(1) by (intro mult_right_mono mult_left_mono) simp_all
  also have "\<dots> = A * scale_up k * (d / W)"
    by (simp add: scale_up_def power2_eq_square ac_simps)
  finally have "v \<le> A * scale_up k * (d / W)" using v(2) by linarith
  then show "of_int (cr_amount (share_of a t w)) \<le> of_int a * scale_up k * (mw_diff w / W)"
    unfolding c A_def d_def using of_int_floor_le [of v] by (rule order_trans [rotated])
  have "d / (W * (1 + unit_err) ^ k) \<le> d / t"
    using t(2) d W p0 t0 by (intro divide_left_mono) simp_all
  then have "d / (W * (1 + unit_err) ^ k) * (1 - unit_err) \<le> d / t * (1 - unit_err)"
    by (intro mult_right_mono) simp_all
  then have "d / (W * (1 + unit_err) ^ k) * (1 - unit_err) \<le> x" using x(1) by linarith
  then have "A * (d / (W * (1 + unit_err) ^ k) * (1 - unit_err)) * (1 - unit_err) \<le> A * x * (1 - unit_err)"
    using A(1) by (intro mult_right_mono mult_left_mono) simp_all
  moreover have "A * (d / (W * (1 + unit_err) ^ k) * (1 - unit_err)) * (1 - unit_err) = A * scale_down k * (d / W)"
    by (simp add: scale_down_def power2_eq_square ac_simps)
  ultimately have "A * scale_down k * (d / W) \<le> v" using v(1) by linarith
  moreover have "v - 1 < of_int \<lfloor>v\<rfloor>" by linarith
  ultimately show "of_int a * scale_down k * (mw_diff w / W) - 1 < of_int (cr_amount (share_of a t w))"
    by (simp add: c A_def d_def)
qed

lemma sum_list_scale: "(\<Sum>w\<leftarrow>ws. c * (f w / (W :: rat))) = c * ((\<Sum>w\<leftarrow>ws. f w) / W)"
  by (induction ws) (simp_all add: add_divide_distrib distrib_left)

lemma sum_list_le_map:
  "(\<And>w. w \<in> set ws \<Longrightarrow> f w \<le> g w) \<Longrightarrow> (\<Sum>w\<leftarrow>ws. f w) \<le> (\<Sum>w\<leftarrow>ws. g w)" for f g :: "_ \<Rightarrow> rat"
  by (induction ws) (simp_all add: add_mono)

text \<open>The floored shares add up to the amount, short of at most one unit per miner.\<close>

lemma floored_shares:
  assumes a: "0 < a" "a * (int (length (positive_work ws)) + 3) \<le> 2 ^ 52" and ne: "positive_work ws \<noteq> []"
  defines "shares \<equiv> map (share_of a (positive_total ws)) (sort_work (positive_work ws))"
  shows "sum_list (map cr_amount shares) \<le> a"
    and "a - sum_list (map cr_amount shares) \<le> int (length shares)"
    and "\<forall>w \<in> set (positive_work ws). 0 \<le> cr_amount (share_of a (positive_total ws) w)
          \<and> of_int (cr_amount (share_of a (positive_total ws) w)) \<le> of_int a * mw_diff w / exact_total ws + 1
          \<and> of_int a * mw_diff w / exact_total ws - 3 / 2 < of_int (cr_amount (share_of a (positive_total ws) w))"
proof -
  define k where "k = length (positive_work ws)"
  define W where "W = exact_total ws"
  define t where "t = positive_total ws"
  have W: "0 < W" unfolding W_def by (rule exact_total_pos [OF ne])
  have tb: "W * (1 - unit_err) ^ k \<le> t" "t \<le> W * (1 + unit_err) ^ k"
    using positive_total_bounds [of ws] by (simp_all add: W_def t_def k_def)
  have ak: "(of_int a :: rat) * (of_nat k + 3) \<le> 2 ^ 52"
  proof -
    have "(of_int (a * (int k + 3)) :: rat) \<le> of_int (2 ^ 52)" using a(2) by (simp only: of_int_le_iff k_def)
    then show ?thesis by simp
  qed
  have a1: "(1 :: rat) \<le> of_int a" using a(1) by simp
  have "a * 3 \<le> a * (int k + 3)" using a(1) by (intro mult_left_mono) simp_all
  also have "\<dots> \<le> 2 ^ 52" using a(2) by (simp add: k_def)
  finally have a53: "a \<le> 2 ^ 53" by simp
  note up = scale_up_bound [OF a1 ak] and down = scale_down_bound [OF a1 ak]
  have pos: "0 < mw_diff w" if "w \<in> set (positive_work ws)" for w
    using that by (simp add: positive_work_def)
  note b = share_of_bounds [OF a(1) a53 pos W tb]
  have one: "mw_diff w / W \<le> 1 \<and> 0 \<le> mw_diff w / W" if "w \<in> set (positive_work ws)" for w
  proof -
    have "mw_diff w \<le> sum_list (map mw_diff (positive_work ws))"
      using that pos by (intro member_le_sum_list) (auto simp: less_imp_le)
    then have "mw_diff w \<le> W" by (simp add: W_def exact_total_def)
    then show ?thesis using W pos [OF that] by simp
  qed
  have total: "(\<Sum>w\<leftarrow>sort_work (positive_work ws). c * (mw_diff w / W)) = c" for c
    unfolding sum_list_scale sum_map_sort_work using W
    by (simp only: exact_total_def [symmetric] W_def) simp
  have sum: "(of_int (sum_list (map cr_amount shares)) :: rat)
      = (\<Sum>w\<leftarrow>sort_work (positive_work ws). of_int (cr_amount (share_of a t w)))"
    by (simp add: of_int_sum_list shares_def t_def o_def)
  also have "\<dots> \<le> (\<Sum>w\<leftarrow>sort_work (positive_work ws). of_int a * scale_up k * (mw_diff w / W))"
    by (rule sum_list_le_map) (use b(2) in simp)
  also have "\<dots> < of_int a + 1" unfolding total by (rule up)
  finally have "of_int (sum_list (map cr_amount shares)) < (of_int (a + 1) :: rat)" by simp
  then show "sum_list (map cr_amount shares) \<le> a" by (simp only: of_int_less_iff)
  have "(\<Sum>w\<leftarrow>sort_work (positive_work ws). of_int a * scale_down k * (mw_diff w / W) - 1)
      \<le> (of_int (sum_list (map cr_amount shares)) :: rat)"
    unfolding sum by (rule sum_list_le_map) (use b(3) in \<open>simp add: less_imp_le\<close>)
  moreover have "(\<Sum>w\<leftarrow>sort_work (positive_work ws). of_int a * scale_down k * (mw_diff w / W) - 1)
      = of_int a * scale_down k - of_nat k"
    unfolding sum_list_subtractf total by (simp add: sum_list_triv k_def)
  ultimately have "(of_int (a - sum_list (map cr_amount shares)) :: rat) < of_int (int k + 1)"
    using down by simp
  then show "a - sum_list (map cr_amount shares) \<le> int (length shares)"
    unfolding of_int_less_iff by (simp add: shares_def k_def)
  show "\<forall>w \<in> set (positive_work ws). 0 \<le> cr_amount (share_of a (positive_total ws) w)
          \<and> of_int (cr_amount (share_of a (positive_total ws) w)) \<le> of_int a * mw_diff w / exact_total ws + 1
          \<and> of_int a * mw_diff w / exact_total ws - 3 / 2 < of_int (cr_amount (share_of a (positive_total ws) w))"
  proof (intro ballI conjI)
    fix w assume w: "w \<in> set (positive_work ws)"
    define p where "p = mw_diff w / W"
    have p: "0 \<le> p" "p \<le> 1" using one [OF w] by (simp_all add: p_def)
    show "0 \<le> cr_amount (share_of a (positive_total ws) w)" using b(1) [OF w] by (simp add: t_def)
    have "(of_int a * scale_up k - of_int a) * p \<le> 1 * p" using up p by (intro mult_right_mono) simp_all
    then have "of_int a * scale_up k * p \<le> of_int a * p + p" by (simp add: algebra_simps)
    then show "of_int (cr_amount (share_of a (positive_total ws) w)) \<le> of_int a * mw_diff w / exact_total ws + 1"
      using b(2) [OF w] p by (simp add: t_def W_def p_def)
    have "(of_int a - of_int a * scale_down k) * p \<le> 1 / 2 * p" using down p by (intro mult_right_mono) simp_all
    then have "of_int a * p - 1 / 2 \<le> of_int a * scale_down k * p" using p by (simp add: algebra_simps)
    then show "of_int a * mw_diff w / exact_total ws - 3 / 2 < of_int (cr_amount (share_of a (positive_total ws) w))"
      using b(3) [OF w] by (simp add: t_def W_def p_def)
  qed
qed

lemma sum_positive_credits:
  "(\<And>c. c \<in> set cs \<Longrightarrow> 0 \<le> cr_amount c) \<Longrightarrow>
   sum_list (map cr_amount (filter (\<lambda>c. 0 < cr_amount c) cs)) = sum_list (map cr_amount cs)"
proof (induction cs)
  case (Cons c cs)
  have "0 < cr_amount c \<or> cr_amount c = 0" using Cons.prems [of c] by auto
  with Cons show ?case by auto
qed simp

lemma positive_total_pos:
  assumes "positive_work ws \<noteq> []"
  shows "0 < positive_total ws"
proof -
  have "0 < exact_total ws * (1 - unit_err) ^ length (positive_work ws)"
    using exact_total_pos [OF assms] by (intro mult_pos_pos) simp_all
  with positive_total_bounds(1) [of ws] show ?thesis by linarith
qed

lemma distribute_split:
  assumes "0 < amount" and "positive_work work \<noteq> []"
    and "amount * (int (length (positive_work work)) + 3) \<le> 2 ^ 52"
  shows "sum_list (map cr_amount (distribute amount work)) = amount
    \<and> (\<forall>c \<in> set (distribute amount work). 0 < cr_amount c \<and>
        (\<exists>w \<in> set (positive_work work). mw_miner w = cr_miner c
          \<and> \<bar>of_int (cr_amount c) - of_int amount * mw_diff w / exact_total work\<bar> \<le> 2))
    \<and> (\<forall>w \<in> set (positive_work work).
        (\<exists>c \<in> set (distribute amount work). cr_miner c = mw_miner w
          \<and> \<bar>of_int (cr_amount c) - of_int amount * mw_diff w / exact_total work\<bar> \<le> 2)
        \<or> of_int amount * mw_diff w / exact_total work \<le> 2)"
proof -
  define ws where "ws = sort_work (positive_work work)"
  define cs where "cs = map (share_of amount (positive_total work)) ws"
  define r where "r = nat (amount - sum_list (map cr_amount cs))"
  define out where "out = hand_out amount 0 (sum_list (map cr_amount cs)) cs"
  define err where "err = (\<lambda>(w :: miner_work) (c :: credit). \<bar>of_int (cr_amount c) - of_int amount * mw_diff w / exact_total work\<bar>)"
  note f = floored_shares [OF assms(1,3,2), folded ws_def, folded cs_def]
  have "length ws \<noteq> 0" using assms(2) by (simp add: ws_def)
  then have ne: "ws \<noteq> []" "cs \<noteq> []" by (auto simp: cs_def)
  have d: "distribute amount work = filter (\<lambda>c. 0 < cr_amount c) out"
  proof -
    have "\<not> (amount \<le> 0 \<or> work = [])" using assms(1,2) by (auto simp: positive_work_def)
    moreover have "\<not> positive_total work \<le> 0" using positive_total_pos [OF assms(2)] by simp
    ultimately show ?thesis
      unfolding distribute_def Let_def out_def cs_def ws_def positive_work_def by (simp only: if_False)
  qed
  have l: "length out = length ws" "length cs = length ws"
    and out: "\<And>j. j < length ws \<Longrightarrow> cr_miner (out ! j) = mw_miner (ws ! j)
        \<and> cr_amount (out ! j) = cr_amount (share_of amount (positive_total work) (ws ! j)) + (if j < r then 1 else 0)"
    using hand_out_one_pass [of 0 amount "sum_list (map cr_amount cs)" cs] f(2)
    by (simp_all add: out_def r_def cs_def share_of_def)
  have at: "cr_miner (out ! j) = mw_miner (ws ! j) \<and> 0 \<le> cr_amount (out ! j) \<and> err (ws ! j) (out ! j) \<le> 2"
    if "j < length ws" for j
  proof -
    have "ws ! j \<in> set (positive_work work)" using nth_mem [OF that] by (simp add: ws_def)
    with f(3) out [OF that] show ?thesis by (auto simp: err_def abs_le_iff)
  qed
  have nonneg: "0 \<le> cr_amount c" if "c \<in> set out" for c
    using that at l(1) by (auto simp: in_set_conv_nth)
  have "sum_list (map cr_amount out) = amount"
    using hand_out_sum [of 0 cs "sum_list (map cr_amount cs)" amount] ne(2) f(1) by (simp add: out_def)
  then have sum: "sum_list (map cr_amount (distribute amount work)) = amount"
    using sum_positive_credits [OF nonneg] by (simp add: d)
  have fwd: "\<exists>w \<in> set (positive_work work). mw_miner w = cr_miner c \<and> err w c \<le> 2"
    if c: "c \<in> set (distribute amount work)" for c
  proof -
    obtain j where j: "j < length ws" "c = out ! j" using c l(1) by (auto simp: d in_set_conv_nth)
    then have "ws ! j \<in> set (positive_work work)" using nth_mem [OF j(1)] by (simp add: ws_def)
    then show ?thesis using at [OF j(1)] j(2) by auto
  qed
  have bwd: "(\<exists>c \<in> set (distribute amount work). cr_miner c = mw_miner w \<and> err w c \<le> 2)
      \<or> of_int amount * mw_diff w / exact_total work \<le> 2"
    if "w \<in> set (positive_work work)" for w
  proof -
    have "w \<in> set ws" using that by (simp add: ws_def)
    then obtain j where j: "j < length ws" "w = ws ! j" by (auto simp: in_set_conv_nth)
    show ?thesis
    proof (cases "0 < cr_amount (out ! j)")
      case True
      then have "out ! j \<in> set (distribute amount work)" using j l(1) by (simp add: d)
      then show ?thesis using at [OF j(1)] j(2) by auto
    next
      case False
      with at [OF j(1)] have z: "cr_amount (out ! j) = 0" by linarith
      have "err w (out ! j) \<le> 2" using at [OF j(1)] j(2) by simp
      then have "of_int amount * mw_diff w / exact_total work \<le> 2" unfolding err_def z by linarith
      then show ?thesis ..
    qed
  qed
  have "0 < cr_amount c" if "c \<in> set (distribute amount work)" for c
    using that by (simp add: d)
  with sum fwd bwd show ?thesis unfolding err_def by blast
qed

text \<open>
  C2: a block reward is divided exactly and fairly. With at least one miner of positive work and
  the amount times the number of such miners (plus three) at most \<open>2 ^ 52\<close>, the credits add up to
  the amount to the last base unit, every credit is positive and goes to a miner of the window,
  and every miner's part is within two units of the exact proportional part: a miner left out was
  owed at most two.
\<close>

theorem distribute_exact:
  assumes "0 < amount" and "positive_work work \<noteq> []"
    and "amount * (int (length (positive_work work)) + 3) \<le> 2 ^ 52"
  shows "sum_list (map cr_amount (distribute amount work)) = amount
    \<and> (\<forall>c \<in> set (distribute amount work). 0 < cr_amount c \<and>
        (\<exists>w \<in> set (positive_work work). mw_miner w = cr_miner c
          \<and> \<bar>of_int (cr_amount c) - of_int amount * mw_diff w / exact_total work\<bar> \<le> 2))
    \<and> (\<forall>w \<in> set (positive_work work).
        (\<exists>c \<in> set (distribute amount work). cr_miner c = mw_miner w
          \<and> \<bar>of_int (cr_amount c) - of_int amount * mw_diff w / exact_total work\<bar> \<le> 2)
        \<or> of_int amount * mw_diff w / exact_total work \<le> 2)"
  by (rule distribute_split [OF assms])

text \<open>Three miners share 100 units in the ratio 1 : 1 : 1: the first in name order gets the odd
  unit.\<close>

definition sample_work :: "miner_work list" where
  "sample_work = [\<lparr>mw_miner = ''c'', mw_diff = 8\<rparr>, \<lparr>mw_miner = ''a'', mw_diff = 8\<rparr>,
     \<lparr>mw_miner = ''b'', mw_diff = 8\<rparr>]"

theorem distribute_exact_witness:
  "distribute 100 sample_work =
     [\<lparr>cr_miner = ''a'', cr_amount = 34\<rparr>, \<lparr>cr_miner = ''b'', cr_amount = 33\<rparr>, \<lparr>cr_miner = ''c'', cr_amount = 33\<rparr>]
   \<and> sum_list (map cr_amount (distribute 100 sample_work)) = 100"
proof -
  have "distribute 100 sample_work =
     [\<lparr>cr_miner = ''a'', cr_amount = 34\<rparr>, \<lparr>cr_miner = ''b'', cr_amount = 33\<rparr>, \<lparr>cr_miner = ''c'', cr_amount = 33\<rparr>]"
    by code_simp
  moreover have "sum_list (map cr_amount (distribute 100 sample_work)) = 100"
    using distribute_exact [of 100 sample_work] by (simp add: sample_work_def positive_work_def)
  ultimately show ?thesis by blast
qed

end
