(* ===== verification/Calculators.thy ===== *)
theory Calculators
  imports Rewards
begin

text \<open>
  The reward calculators of \<open>internal/rewards/rewards.go\<close> over a share source, and the
  confirmation check of \<open>internal/rewards/confirm.go\<close>. A share source is a record of its three
  queries, each of which may fail with an error \<open>'e\<close>; what the calculators rely on is the locale
  \<open>share_source\<close>, interpreted by the store theory on the database queries.
\<close>

record 'e source =
  so_work_between :: "string \<Rightarrow> int \<Rightarrow> int \<Rightarrow> 'e + miner_work list"
  so_work_backward :: "string \<Rightarrow> int \<Rightarrow> f64 \<Rightarrow> 'e + miner_work list"
  so_previous_block_time :: "string \<Rightarrow> int \<Rightarrow> 'e + int option"

datatype calculator = Solo | Prop | Pplns f64

datatype 'e calc_error =
    SoloNoFinder int
  | PropPreviousBlock 'e
  | PropWork 'e
  | PplnsNoNetworkDifficulty int
  | PplnsWork 'e

text \<open>The zero \<open>time.Time\<close>, January 1 of year 1, in nanoseconds of the Unix epoch.\<close>

definition zero_time :: int where
  "zero_time = - 62135596800000000000"

definition solo_calculate :: "reward_block \<Rightarrow> int \<Rightarrow> 'e calc_error + credit list" where
  "solo_calculate b distributable =
     (if rb_miner b = [] then Inl (SoloNoFinder (rb_height b))
      else if distributable \<le> 0 then Inr []
      else Inr [\<lparr>cr_miner = rb_miner b, cr_amount = distributable\<rparr>])"

definition prop_calculate :: "'e source \<Rightarrow> reward_block \<Rightarrow> int \<Rightarrow> 'e calc_error + credit list" where
  "prop_calculate src b distributable =
     (case so_previous_block_time src (rb_pool b) (rb_created b) of
        Inl e \<Rightarrow> Inl (PropPreviousBlock e)
      | Inr prev \<Rightarrow>
        let from_time = (case prev of None \<Rightarrow> zero_time | Some t \<Rightarrow> t) in
        (case so_work_between src (rb_pool b) from_time (rb_created b) of
           Inl e \<Rightarrow> Inl (PropWork e)
         | Inr work \<Rightarrow>
           let credits = distribute distributable work in
           if credits = [] \<and> 0 < distributable then solo_calculate b distributable
           else Inr credits))"

definition pplns_calculate :: "f64 \<Rightarrow> 'e source \<Rightarrow> reward_block \<Rightarrow> int \<Rightarrow> 'e calc_error + credit list" where
  "pplns_calculate factor0 src b distributable =
     (let factor = (if factor0 \<le> 0 then 2 else factor0);
          target_diff = fmul factor (rb_net_diff b)
      in if target_diff \<le> 0 then Inl (PplnsNoNetworkDifficulty (rb_height b))
         else case so_work_backward src (rb_pool b) (rb_created b) target_diff of
           Inl e \<Rightarrow> Inl (PplnsWork e)
         | Inr work \<Rightarrow>
           let credits = distribute distributable work in
           if credits = [] \<and> 0 < distributable then solo_calculate b distributable
           else Inr credits)"

definition calculate :: "calculator \<Rightarrow> 'e source \<Rightarrow> reward_block \<Rightarrow> int \<Rightarrow> 'e calc_error + credit list" where
  "calculate calc src b distributable =
     (case calc of Solo \<Rightarrow> solo_calculate b distributable
      | Prop \<Rightarrow> prop_calculate src b distributable
      | Pplns factor \<Rightarrow> pplns_calculate factor src b distributable)"

definition calculator_name :: "calculator \<Rightarrow> string" where
  "calculator_name calc = (case calc of Solo \<Rightarrow> ''solo'' | Prop \<Rightarrow> ''prop'' | Pplns _ \<Rightarrow> ''pplns'')"

definition for_payment_mode :: "string \<Rightarrow> f64 \<Rightarrow> string + calculator" where
  "for_payment_mode mode pplns_factor =
     (if mode = ''solo'' then Inr Solo
      else if mode = ''prop'' then Inr Prop
      else if mode = ''pplns'' then Inr (Pplns pplns_factor)
      else Inl mode)"

subsection \<open>The share source interface\<close>

text \<open>The work a source reports is grouped by miner, and every miner is one of \<open>members\<close>.\<close>

locale share_source =
  fixes src :: "'e source" and members :: "string set"
  assumes finite_members: "finite members"
    and between_grouped: "so_work_between src p a b = Inr ws \<Longrightarrow>
      distinct (map mw_miner ws) \<and> mw_miner ` set ws \<subseteq> members"
    and backward_grouped: "so_work_backward src p t d = Inr ws \<Longrightarrow>
      distinct (map mw_miner ws) \<and> mw_miner ` set ws \<subseteq> members"
begin

definition grouped :: "miner_work list \<Rightarrow> bool" where
  "grouped ws = (distinct (map mw_miner ws) \<and> mw_miner ` set ws \<subseteq> members)"

lemma grouped_length:
  assumes "grouped ws"
  shows "length ws \<le> card members"
proof -
  have "length ws = card (mw_miner ` set ws)"
    using distinct_card [of "map mw_miner ws"] assms by (simp add: grouped_def)
  also have "\<dots> \<le> card members"
    using assms finite_members by (intro card_mono) (simp_all add: grouped_def)
  finally show ?thesis .
qed

lemma positive_work_length: "length (positive_work ws) \<le> length ws"
  by (simp add: positive_work_def)

lemma distribute_sum:
  assumes "grouped ws" and "0 < d" and "d * (int (card members) + 3) \<le> 2 ^ 52"
    and "distribute d ws \<noteq> []"
  shows "sum_list (map cr_amount (distribute d ws)) = d \<and> (\<forall>c \<in> set (distribute d ws). 0 < cr_amount c)"
proof -
  have "positive_work ws \<noteq> []"
  proof
    assume e: "positive_work ws = []"
    then have "exact_total ws = 0" by (simp add: exact_total_def)
    with e have "positive_total ws \<le> 0" using positive_total_bounds(2) [of ws] by simp
    with assms(4) show False by (auto simp: distribute_def Let_def split: if_splits)
  qed
  moreover have "d * (int (length (positive_work ws)) + 3) \<le> d * (int (card members) + 3)"
    using assms(2) grouped_length [OF assms(1)] positive_work_length [of ws]
    by (intro mult_left_mono) simp_all
  moreover note assms(3)
  ultimately show ?thesis using distribute_split [OF assms(2)] by (meson order_trans)
qed

lemma solo_sum:
  "solo_calculate b d = Inr cs \<Longrightarrow> 0 < d \<Longrightarrow> sum_list (map cr_amount cs) = d \<and> (\<forall>c \<in> set cs. 0 < cr_amount c)"
  by (auto simp: solo_calculate_def split: if_splits)

text \<open>Whatever the scheme, the credits of a block add up to the distributable reward.\<close>

lemma calculate_exact:
  assumes c: "calculate calc src b d = Inr cs" and d: "0 < d" "d * (int (card members) + 3) \<le> 2 ^ 52"
  shows "sum_list (map cr_amount cs) = d \<and> (\<forall>c \<in> set cs. 0 < cr_amount c)"
proof -
  have split: "sum_list (map cr_amount cs) = d \<and> (\<forall>c \<in> set cs. 0 < cr_amount c)"
    if "grouped ws" and "(if distribute d ws = [] \<and> 0 < d then solo_calculate b d else Inr (distribute d ws)) = (Inr cs :: 'e calc_error + credit list)" for ws
    using that distribute_sum [OF that(1) d] solo_sum [of b d cs] d by (auto split: if_splits)
  show ?thesis
  proof (cases calc)
    case Solo
    then show ?thesis using c d solo_sum by (simp add: calculate_def)
  next
    case Prop
    from c Prop obtain prev where p: "so_previous_block_time src (rb_pool b) (rb_created b) = Inr prev"
      by (auto simp: calculate_def prop_calculate_def split: sum.splits)
    define t where "t = (case prev of None \<Rightarrow> zero_time | Some t \<Rightarrow> t)"
    from c Prop p obtain ws where w: "so_work_between src (rb_pool b) t (rb_created b) = Inr ws"
      by (cases "so_work_between src (rb_pool b) t (rb_created b)")
        (auto simp: calculate_def prop_calculate_def t_def Let_def split: if_split_asm)
    from c Prop p w have "(if distribute d ws = [] \<and> 0 < d then solo_calculate b d else Inr (distribute d ws)) = (Inr cs :: 'e calc_error + credit list)"
      by (simp add: calculate_def prop_calculate_def t_def Let_def)
    with w show ?thesis using between_grouped by (intro split) (simp_all add: grouped_def)
  next
    case (Pplns f)
    define t where "t = fmul (if f \<le> 0 then 2 else f) (rb_net_diff b)"
    from c Pplns obtain ws where w: "so_work_backward src (rb_pool b) (rb_created b) t = Inr ws"
      by (cases "so_work_backward src (rb_pool b) (rb_created b) t")
        (auto simp: calculate_def pplns_calculate_def t_def Let_def split: if_split_asm)
    from c Pplns w have "(if distribute d ws = [] \<and> 0 < d then solo_calculate b d else Inr (distribute d ws)) = (Inr cs :: 'e calc_error + credit list)"
      by (auto simp: calculate_def pplns_calculate_def t_def Let_def split: if_split_asm)
    with w show ?thesis using backward_grouped by (intro split) (simp_all add: grouped_def)
  qed
qed

lemma calculate_nothing: "calculate calc src b d = Inr cs \<Longrightarrow> d \<le> 0 \<Longrightarrow> cs = []"
  by (auto simp: calculate_def prop_calculate_def pplns_calculate_def solo_calculate_def distribute_def Let_def
    split: calculator.splits sum.splits if_splits)

end

subsection \<open>Confirmation\<close>

record confirm_options =
  co_maturity_depth :: int
  co_orphan_depth :: int

definition confirm_defaults :: "confirm_options \<Rightarrow> confirm_options" where
  "confirm_defaults o0 =
     (let o1 = (if co_maturity_depth o0 \<le> 0 then o0\<lparr>co_maturity_depth := 100\<rparr> else o0)
      in if co_orphan_depth o1 \<le> 0 then o1\<lparr>co_orphan_depth := 12\<rparr> else o1)"

datatype block_status = Pending | Confirmed | Orphaned

record confirmation =
  cf_status :: block_status
  cf_confirmations :: int
  cf_progress :: f64

text \<open>The chain as one check sees it: the tip and the hash at a height, \<open>None\<close> beyond the tip.\<close>

record 'e chain_view =
  cv_tip_height :: "'e + int"
  cv_block_hash_at :: "int \<Rightarrow> 'e + string option"

datatype 'e confirm_error = ConfirmTip 'e | ConfirmHash int 'e

definition check_block ::
  "'e chain_view \<Rightarrow> int \<Rightarrow> string \<Rightarrow> confirm_options \<Rightarrow> 'e confirm_error + confirmation" where
  "check_block chain height our_hash opts0 =
     (let opts = confirm_defaults opts0;
          still_pending = \<lparr>cf_status = Pending, cf_confirmations = 0, cf_progress = 0\<rparr>
      in case cv_tip_height chain of Inl e \<Rightarrow> Inl (ConfirmTip e)
         | Inr tip \<Rightarrow>
           if tip < height then Inr still_pending
           else case cv_block_hash_at chain height of Inl e \<Rightarrow> Inl (ConfirmHash height e)
           | Inr None \<Rightarrow> Inr still_pending
           | Inr (Some chain_hash) \<Rightarrow>
             if \<not> equal_fold chain_hash our_hash
             then if tip - height \<ge> co_orphan_depth opts
                  then Inr \<lparr>cf_status = Orphaned, cf_confirmations = 0, cf_progress = 0\<rparr>
                  else Inr still_pending
             else let conf = tip - height + 1;
                      progress0 = fdiv (f64_of_int conf) (f64_of_int (co_maturity_depth opts));
                      progress = (if progress0 > 1 then 1 else progress0)
                  in if conf \<ge> co_maturity_depth opts
                     then Inr \<lparr>cf_status = Confirmed, cf_confirmations = conf, cf_progress = 1\<rparr>
                     else Inr \<lparr>cf_status = Pending, cf_confirmations = conf, cf_progress = progress\<rparr>)"

text \<open>\<open>strings.Contains\<close> and the JSON-RPC chain view over the two calls' results.\<close>

fun is_prefix :: "string \<Rightarrow> string \<Rightarrow> bool" where
  "is_prefix [] s = True"
| "is_prefix (c # cs) [] = False"
| "is_prefix (c # cs) (d # ds) = (c = d \<and> is_prefix cs ds)"

fun contains :: "string \<Rightarrow> string \<Rightarrow> bool" where
  "contains [] sub = is_prefix sub []"
| "contains (c # cs) sub = (is_prefix sub (c # cs) \<or> contains cs sub)"

definition bitcoinlike_chain ::
  "string + int \<Rightarrow> (int \<Rightarrow> string + string) \<Rightarrow> string chain_view" where
  "bitcoinlike_chain getblockcount getblockhash =
     \<lparr>cv_tip_height = getblockcount,
      cv_block_hash_at = (\<lambda>height.
        case getblockhash height of
          Inl e \<Rightarrow> if contains e ''out of range'' then Inr None else Inl e
        | Inr h \<Rightarrow> Inr (Some h))\<rparr>"

lemma confirm_defaults_pos:
  "0 < co_maturity_depth (confirm_defaults o0)" "0 < co_orphan_depth (confirm_defaults o0)"
  by (auto simp: confirm_defaults_def Let_def)

text \<open>
  A block is confirmed exactly when the best chain has its hash at its height under at least
  the maturity depth of blocks, and orphaned exactly when the chain has another hash there and has
  moved on by the orphan depth. In particular a block on the best chain is never orphaned, a block
  off it never confirmed, a shallow mismatch leaves it pending, and an RPC failure decides nothing.
\<close>

theorem check_block_verdict:
  "((\<exists>c. check_block chain height h opts = Inr c \<and> cf_status c = Confirmed) \<longleftrightarrow>
     (\<exists>tip h'. cv_tip_height chain = Inr tip \<and> cv_block_hash_at chain height = Inr (Some h') \<and> height \<le> tip
       \<and> equal_fold h' h \<and> co_maturity_depth (confirm_defaults opts) \<le> tip - height + 1))
   \<and> ((\<exists>c. check_block chain height h opts = Inr c \<and> cf_status c = Orphaned) \<longleftrightarrow>
     (\<exists>tip h'. cv_tip_height chain = Inr tip \<and> cv_block_hash_at chain height = Inr (Some h')
       \<and> \<not> equal_fold h' h \<and> co_orphan_depth (confirm_defaults opts) \<le> tip - height))
   \<and> (isl (check_block chain height h opts) \<longleftrightarrow>
     isl (cv_tip_height chain)
     \<or> (\<exists>tip. cv_tip_height chain = Inr tip \<and> height \<le> tip \<and> isl (cv_block_hash_at chain height)))"
proof (cases "cv_tip_height chain")
  case Inl
  then show ?thesis by (simp add: check_block_def Let_def)
next
  case (Inr tip)
  note t = this
  show ?thesis
  proof (cases "cv_block_hash_at chain height")
    case Inl
    with t confirm_defaults_pos [of opts] show ?thesis by (auto simp: check_block_def Let_def)
  next
    case (Inr r)
    with t confirm_defaults_pos [of opts] show ?thesis
      by (cases r) (auto simp: check_block_def Let_def)
  qed
qed

text \<open>
  The chain view over JSON-RPC turns exactly the daemon's \<open>out of range\<close> error into a block
  that is not there yet: any other failure of \<open>getblockhash\<close> stays an error and stops the pass.
\<close>

theorem block_hash_errors:
  "(cv_block_hash_at (bitcoinlike_chain tip_call hash_call) height = Inr None \<longleftrightarrow>
     (\<exists>e. hash_call height = Inl e \<and> contains e ''out of range''))
   \<and> (cv_block_hash_at (bitcoinlike_chain tip_call hash_call) height = Inr (Some h) \<longleftrightarrow> hash_call height = Inr h)"
  by (auto simp: bitcoinlike_chain_def split: sum.splits)

end
