(* ===== verification/Store.thy ===== *)
theory Store
  imports Calculators "HOL-Library.Sublist"
begin

text \<open>
  The database of \<open>internal/storage/postgres\<close>: the tables of \<open>store.go\<close> as lists of rows, and the
  read side of \<open>rewards.go\<close>: the block queries and the three share queries the calculators use.
  A query lists the rows in table order where SQL leaves the order open; a Go map is listed in
  order of first insertion (the splits proved hold for every order). Whether a statement fails is
  an argument of the operation.
\<close>

subsection \<open>Tables\<close>

record share_row =
  sh_id :: string
  sh_pool :: string
  sh_height :: int
  sh_diff :: f64
  sh_net_diff :: f64
  sh_miner :: string
  sh_worker :: string
  sh_user_agent :: string
  sh_ip :: string
  sh_source :: string
  sh_created :: int

record block_row =
  br_id :: int
  br_pool :: string
  br_height :: int
  br_net_diff :: f64
  br_status :: block_status
  br_progress :: f64
  br_confirmations :: int
  br_miner :: string
  br_worker :: string
  br_hash :: string
  br_source :: string
  br_reward_sats :: int
  br_rewarded :: bool
  br_created :: int

record balance_row =
  bl_pool :: string
  bl_miner :: string
  bl_amount :: int

datatype change_usage = BlockReward | PoolFee | Payout | PayoutRefund

record change_row =
  ch_pool :: string
  ch_miner :: string
  ch_amount :: int
  ch_usage :: change_usage
  ch_height :: int

datatype payment_status = Sending | Sent | Failed

record payment_row =
  pm_id :: int
  pm_pool :: string
  pm_miner :: string
  pm_address :: string
  pm_amount :: int
  pm_txid :: string
  pm_status :: payment_status
  pm_batch :: string
  pm_created :: int

record db =
  db_shares :: "share_row list"
  db_blocks :: "block_row list"
  db_balances :: "balance_row list"
  db_changes :: "change_row list"
  db_payments :: "payment_row list"

datatype db_error = QueryFailed | BlockNotFound int | NoSendingRows string | CommitFailed

subsection \<open>Block queries\<close>

definition to_reward_block :: "block_row \<Rightarrow> reward_block" where
  "to_reward_block r =
     \<lparr>rb_id = br_id r, rb_pool = br_pool r, rb_height = br_height r, rb_miner = br_miner r,
      rb_hash = br_hash r, rb_reward = br_reward_sats r, rb_net_diff = br_net_diff r,
      rb_created = br_created r\<rparr>"

definition unconfirmed_blocks :: "db \<Rightarrow> string \<Rightarrow> reward_block list" where
  "unconfirmed_blocks d pool =
     map to_reward_block (sort_key br_height
       (filter (\<lambda>r. br_pool r = pool \<and> br_status r = Pending) (db_blocks d)))"

definition confirmed_unrewarded :: "db \<Rightarrow> string \<Rightarrow> reward_block list" where
  "confirmed_unrewarded d pool =
     map to_reward_block (sort_key br_height
       (filter (\<lambda>r. br_pool r = pool \<and> br_status r = Confirmed \<and> \<not> br_rewarded r) (db_blocks d)))"

definition update_block_confirmation :: "db \<Rightarrow> int \<Rightarrow> block_status \<Rightarrow> int \<Rightarrow> f64 \<Rightarrow> db" where
  "update_block_confirmation d block_id status confs progress =
     d\<lparr>db_blocks := map (\<lambda>r. if br_id r = block_id
          then r\<lparr>br_status := status, br_confirmations := confs, br_progress := progress\<rparr> else r)
        (db_blocks d)\<rparr>"

subsection \<open>Share queries\<close>

fun add_work :: "miner_work list \<Rightarrow> string \<Rightarrow> f64 \<Rightarrow> miner_work list" where
  "add_work [] m d = [\<lparr>mw_miner = m, mw_diff = d\<rparr>]"
| "add_work (w # ws) m d =
     (if mw_miner w = m then w\<lparr>mw_diff := fadd (mw_diff w) d\<rparr> # ws else w # add_work ws m d)"

definition sum_work :: "miner_work list \<Rightarrow> share_row list \<Rightarrow> miner_work list" where
  "sum_work ws rows = foldl (\<lambda>acc s. add_work acc (sh_miner s) (sh_diff s)) ws rows"

definition work_between :: "db \<Rightarrow> string \<Rightarrow> int \<Rightarrow> int \<Rightarrow> miner_work list" where
  "work_between d pool from_time to_time =
     sum_work [] (filter (\<lambda>s. sh_pool s = pool \<and> from_time < sh_created s \<and> sh_created s \<le> to_time)
                    (db_shares d))"

definition work_backward_page :: nat where
  "work_backward_page = 10000"

definition shares_query :: "nat \<Rightarrow> share_row list \<Rightarrow> string \<Rightarrow> bool \<Rightarrow> int \<Rightarrow> share_row list" where
  "shares_query page shares pool strict cursor =
     take page (sort_key (\<lambda>s. - sh_created s)
       (filter (\<lambda>s. sh_pool s = pool \<and> (if strict then sh_created s < cursor else sh_created s \<le> cursor))
          shares))"

definition count_share :: "f64 \<Rightarrow> miner_work list \<times> f64 \<Rightarrow> share_row \<Rightarrow> miner_work list \<times> f64" where
  "count_share target_diff acc s =
     (if target_diff \<le> snd acc then acc
      else (add_work (fst acc) (sh_miner s) (sh_diff s), fadd (snd acc) (sh_diff s)))"

definition older :: "share_row list \<Rightarrow> string \<Rightarrow> bool \<Rightarrow> int \<Rightarrow> nat" where
  "older shares pool strict cursor =
     length (filter (\<lambda>s. sh_pool s = pool \<and> (if strict then sh_created s < cursor else sh_created s \<le> cursor)) shares)"

lemma older_decreases:
  assumes "shares_query page shares pool strict cursor \<noteq> []"
  shows "older shares pool True (sh_created (last (shares_query page shares pool strict cursor)))
       < older shares pool strict cursor"
proof -
  define l where "l = last (shares_query page shares pool strict cursor)"
  have "l \<in> set (shares_query page shares pool strict cursor)" using assms by (simp add: l_def)
  then have l: "l \<in> set shares" "sh_pool l = pool"
      "if strict then sh_created l < cursor else sh_created l \<le> cursor"
    by (auto simp: shares_query_def dest!: in_set_takeD)
  let ?P = "\<lambda>s. sh_pool s = pool \<and> sh_created s < sh_created l"
  let ?Q = "\<lambda>s. sh_pool s = pool \<and> (if strict then sh_created s < cursor else sh_created s \<le> cursor)"
  have PQ: "filter ?P shares = filter ?P (filter ?Q shares)"
    unfolding filter_filter using l(3) by (intro filter_cong) auto
  have "l \<in> set (filter ?Q shares)" using l by simp
  then have "length (filter ?P (filter ?Q shares)) < length (filter ?Q shares)"
    by (rule length_filter_less) simp
  then show ?thesis using PQ by (simp add: older_def l_def)
qed

function backward_loop ::
  "nat \<Rightarrow> share_row list \<Rightarrow> string \<Rightarrow> f64 \<Rightarrow> bool \<Rightarrow> int \<Rightarrow> miner_work list \<times> f64 \<Rightarrow> miner_work list" where
  "backward_loop page shares pool target_diff cursor_set cursor acc =
     (if snd acc < target_diff then
        let rows = shares_query page shares pool cursor_set cursor;
            acc' = foldl (count_share target_diff) acc rows
        in if rows = [] then fst acc'
           else if length rows < page \<and> snd acc' < target_diff then fst acc'
           else backward_loop page shares pool target_diff True (sh_created (last rows)) acc'
      else fst acc)"
  by pat_completeness auto
termination
  by (relation "measure (\<lambda>(page, shares, pool, target_diff, cursor_set, cursor, acc).
        older shares pool cursor_set cursor)")
    (auto simp: older_decreases)

declare backward_loop.simps [simp del]

definition work_backward :: "db \<Rightarrow> string \<Rightarrow> int \<Rightarrow> f64 \<Rightarrow> miner_work list" where
  "work_backward d pool before target_diff =
     backward_loop work_backward_page (db_shares d) pool target_diff False before ([], 0)"

definition previous_block_time :: "db \<Rightarrow> string \<Rightarrow> int \<Rightarrow> int option" where
  "previous_block_time d pool before =
     (case sort_key (\<lambda>t. - t)
        (map br_created (filter (\<lambda>r. br_pool r = pool \<and> br_created r < before) (db_blocks d))) of
        [] \<Rightarrow> None | t # _ \<Rightarrow> Some t)"

text \<open>The database as a share source; \<open>fails q\<close> says that query \<open>q\<close> returns an error.\<close>

datatype share_query = QBetween | QBackward | QPrevious

definition db_source :: "(share_query \<Rightarrow> bool) \<Rightarrow> db \<Rightarrow> db_error source" where
  "db_source fails d =
     \<lparr>so_work_between = (\<lambda>pool a b. if fails QBetween then Inl QueryFailed else Inr (work_between d pool a b)),
      so_work_backward = (\<lambda>pool t x. if fails QBackward then Inl QueryFailed else Inr (work_backward d pool t x)),
      so_previous_block_time = (\<lambda>pool t. if fails QPrevious then Inl QueryFailed
                                         else Inr (previous_block_time d pool t))\<rparr>"

definition share_miners :: "db \<Rightarrow> string set" where
  "share_miners d = sh_miner ` set (db_shares d)"

lemma add_work_miners: "mw_miner ` set (add_work ws m d) = insert m (mw_miner ` set ws)"
  by (induction ws) auto

lemma add_work_distinct: "distinct (map mw_miner ws) \<Longrightarrow> distinct (map mw_miner (add_work ws m d))"
proof (induction ws)
  case (Cons w ws)
  then show ?case using add_work_miners [of ws m d] by auto
qed simp

definition grouped_by :: "string set \<Rightarrow> miner_work list \<Rightarrow> bool" where
  "grouped_by M ws \<longleftrightarrow> distinct (map mw_miner ws) \<and> mw_miner ` set ws \<subseteq> M"

lemma grouped_add_work: "grouped_by M ws \<Longrightarrow> m \<in> M \<Longrightarrow> grouped_by M (add_work ws m d)"
  by (simp add: grouped_by_def add_work_distinct add_work_miners)

lemma grouped_sum_work:
  "grouped_by M ws \<Longrightarrow> sh_miner ` set rows \<subseteq> M \<Longrightarrow> grouped_by M (sum_work ws rows)"
  unfolding sum_work_def by (induction rows arbitrary: ws) (simp_all add: grouped_add_work)

lemma grouped_count_shares:
  "grouped_by M (fst acc) \<Longrightarrow> sh_miner ` set rows \<subseteq> M \<Longrightarrow>
   grouped_by M (fst (foldl (count_share t) acc rows))"
  by (induction rows arbitrary: acc) (auto simp: count_share_def grouped_add_work)

lemma set_shares_query: "set (shares_query page shares pool strict cursor) \<subseteq> set shares"
  using set_take_subset by (fastforce simp: shares_query_def)

lemma grouped_backward_loop:
  "grouped_by M (fst acc) \<Longrightarrow> sh_miner ` set shares \<subseteq> M \<Longrightarrow>
   grouped_by M (backward_loop page shares pool t cs c acc)"
proof (induction page shares pool t cs c acc rule: backward_loop.induct)
  case (1 page shares pool t cs c acc)
  have "sh_miner ` set (shares_query page shares pool cs c) \<subseteq> M"
    using set_shares_query [of page shares pool cs c] "1.prems"(2) by blast
  then have "grouped_by M (fst (foldl (count_share t) acc (shares_query page shares pool cs c)))"
    using "1.prems"(1) by (rule grouped_count_shares [rotated])
  with 1 show ?case by (subst backward_loop.simps) (auto simp: Let_def)
qed

interpretation db_src: share_source "db_source fails d" "share_miners d" for fails d
proof
  show "finite (share_miners d)" by (simp add: share_miners_def)
next
  fix p a b ws
  assume "so_work_between (db_source fails d) p a b = Inr ws"
  then have "ws = work_between d p a b" by (simp add: db_source_def split: if_splits)
  moreover have "grouped_by (share_miners d) (work_between d p a b)"
    unfolding work_between_def by (intro grouped_sum_work) (auto simp: grouped_by_def share_miners_def)
  ultimately show "distinct (map mw_miner ws) \<and> mw_miner ` set ws \<subseteq> share_miners d"
    by (simp add: grouped_by_def)
next
  fix p t x ws
  assume "so_work_backward (db_source fails d) p t x = Inr ws"
  then have "ws = work_backward d p t x" by (simp add: db_source_def split: if_splits)
  moreover have "grouped_by (share_miners d) (work_backward d p t x)"
    unfolding work_backward_def by (intro grouped_backward_loop) (auto simp: grouped_by_def share_miners_def)
  ultimately show "distinct (map mw_miner ws) \<and> mw_miner ` set ws \<subseteq> share_miners d"
    by (simp add: grouped_by_def)
qed


subsection \<open>The PPLNS window\<close>

definition newest_first :: "share_row list \<Rightarrow> string \<Rightarrow> bool \<Rightarrow> int \<Rightarrow> share_row list" where
  "newest_first shares pool strict cursor =
     sort_key (\<lambda>s. - sh_created s)
       (filter (\<lambda>s. sh_pool s = pool \<and> (if strict then sh_created s < cursor else sh_created s \<le> cursor)) shares)"

fun pplns_window :: "f64 \<Rightarrow> f64 \<Rightarrow> share_row list \<Rightarrow> share_row list" where
  "pplns_window t c [] = []"
| "pplns_window t c (s # ss) = (if t \<le> c then [] else s # pplns_window t (fadd c (sh_diff s)) ss)"

definition diff_sum :: "share_row list \<Rightarrow> f64" where
  "diff_sum rows = foldl (\<lambda>c s. fadd c (sh_diff s)) 0 rows"

lemma fold_count_full: "t \<le> snd acc \<Longrightarrow> foldl (count_share t) acc rows = acc"
  by (induction rows) (simp_all add: count_share_def)

lemma fold_count_window:
  "fst (foldl (count_share t) (ws, c) rows) = sum_work ws (pplns_window t c rows)"
proof (induction rows arbitrary: ws c)
  case (Cons s rows)
  have step: "count_share t (ws, c) s
      = (if t \<le> c then (ws, c) else (add_work ws (sh_miner s) (sh_diff s), fadd c (sh_diff s)))"
    by (simp add: count_share_def)
  show ?case unfolding foldl.simps step using Cons by (simp add: fold_count_full sum_work_def)
qed (simp add: sum_work_def)

lemma sort_key_desc_strict:
  assumes "inj_on sh_created (set rows)" and "distinct rows"
  shows "sorted_wrt (\<lambda>a b. sh_created b < sh_created a) (sort_key (\<lambda>s. - sh_created s) rows)"
proof -
  let ?r = "sort_key (\<lambda>s. - sh_created s) rows"
  have "inj_on sh_created (set ?r)" "distinct ?r" using assms by simp_all
  then have d: "distinct (map sh_created ?r)" by (simp add: distinct_map)
  have "sorted (map (\<lambda>s. - sh_created s) ?r)" by simp
  then have "sorted_wrt (\<lambda>a b. sh_created b \<le> sh_created a) ?r" by (simp add: sorted_map)
  with d show ?thesis
    by (auto simp: sorted_wrt_iff_nth_less distinct_conv_nth less_le)
qed

text \<open>
  The rows the walk sees: pages of the newest rows, each page starting strictly before the time of the last row of the page before it, so
  rows that share that time and did not fit on the page are passed over.
\<close>

function walked :: "nat \<Rightarrow> share_row list \<Rightarrow> share_row list" where
  "walked page rows =
     (if take page rows = [] then []
      else take page rows @ walked page (filter (\<lambda>s. sh_created s < sh_created (last (take page rows))) (drop page rows)))"
  by pat_completeness auto
termination
  by (relation "measure (\<lambda>(page, rows). length rows)") (auto intro: le_less_trans [OF length_filter_le])

declare walked.simps [simp del]

text \<open>No two rows of the same time stand on both sides of the end of a page.\<close>

definition no_tie_at_page_end :: "nat \<Rightarrow> share_row list \<Rightarrow> bool" where
  "no_tie_at_page_end page rows \<longleftrightarrow>
     (\<forall>i. Suc i < length rows \<and> Suc i mod page = 0 \<longrightarrow> sh_created (rows ! Suc i) < sh_created (rows ! i))"

lemma newest_first_sorted: "sorted_wrt (\<lambda>a b. sh_created b \<le> sh_created a) (newest_first shares pool cs c)"
proof -
  have "sorted (map (\<lambda>s. - sh_created s) (newest_first shares pool cs c))" by (simp add: newest_first_def)
  then show ?thesis by (simp add: sorted_map)
qed

lemma desc_filter_last:
  assumes "sorted_wrt (\<lambda>a b. sh_created b \<le> sh_created a) r" and "take n r \<noteq> []"
  shows "filter (\<lambda>s. sh_created s < sh_created (last (take n r))) r
       = filter (\<lambda>s. sh_created s < sh_created (last (take n r))) (drop n r)"
proof -
  define xs where "xs = take n r"
  define l where "l = last xs"
  have xs: "xs = butlast xs @ [l]" using assms(2) by (simp add: xs_def l_def)
  have "sorted_wrt (\<lambda>a b. sh_created b \<le> sh_created a) (butlast xs @ [l])"
    using assms(1) xs by (metis sorted_wrt_take xs_def)
  then have "\<forall>x \<in> set (butlast xs @ [l]). \<not> sh_created x < sh_created l" by (auto simp: sorted_wrt_append)
  then have "filter (\<lambda>s. sh_created s < sh_created l) xs = []" using xs by (simp add: filter_empty_conv)
  then have "filter (\<lambda>s. sh_created s < sh_created l) (xs @ drop n r) = filter (\<lambda>s. sh_created s < sh_created l) (drop n r)" by simp
  then show ?thesis by (simp add: xs_def l_def)
qed

lemma newest_first_next:
  assumes "take n (newest_first shares pool cs c) \<noteq> []"
  shows "newest_first shares pool True (sh_created (last (take n (newest_first shares pool cs c))))
       = filter (\<lambda>s. sh_created s < sh_created (last (take n (newest_first shares pool cs c)))) (drop n (newest_first shares pool cs c))"
proof -
  let ?r = "newest_first shares pool cs c"
  define l where "l = last (take n ?r)"
  have "l \<in> set ?r" using assms last_in_set in_set_takeD by (metis l_def)
  then have l: "sh_pool l = pool \<and> (if cs then sh_created l < c else sh_created l \<le> c)" by (auto simp: newest_first_def)
  have "newest_first shares pool True (sh_created l) = filter (\<lambda>s. sh_created s < sh_created l) ?r"
    unfolding newest_first_def filter_sort filter_filter using l
    by (intro arg_cong [where f = "sort_key _"] filter_cong) auto
  then show ?thesis using desc_filter_last [OF newest_first_sorted assms] by (simp add: l_def)
qed

lemma backward_loop_reference:
  assumes "0 < page"
  shows "backward_loop page shares pool t cs c acc
       = fst (foldl (count_share t) acc (walked page (newest_first shares pool cs c)))"
  using assms
proof (induction page shares pool t cs c acc rule: backward_loop.induct)
  case (1 page shares pool t cs c acc)
  let ?r = "newest_first shares pool cs c"
  let ?next = "filter (\<lambda>s. sh_created s < sh_created (last (take page ?r))) (drop page ?r)"
  have rows: "shares_query page shares pool cs c = take page ?r"
    by (simp add: shares_query_def newest_first_def)
  define acc' where "acc' = foldl (count_share t) acc (take page ?r)"
  have split: "foldl (count_share t) acc (walked page ?r) = foldl (count_share t) acc' (walked page ?next)" if "take page ?r \<noteq> []"
    using that by (subst walked.simps) (simp add: acc'_def)
  show ?case
  proof (cases "snd acc < t")
    case False
    then show ?thesis by (subst backward_loop.simps) (simp add: fold_count_full)
  next
    case more: True
    show ?thesis
    proof (cases "take page ?r = []")
      case True
      then have "walked page ?r = []" by (subst walked.simps) simp
      then show ?thesis using more by (subst backward_loop.simps) (simp only: rows True, simp)
    next
      case ne: False
      show ?thesis
      proof (cases "length (take page ?r) < page \<and> snd acc' < t")
        case True
        then have d: "drop page ?r = []" by (simp add: min_def split: if_splits)
        have "walked page ?next = []" unfolding d by (subst walked.simps) simp
        then show ?thesis using more ne True
          by (subst backward_loop.simps) (simp add: rows split [OF ne] acc'_def [symmetric] Let_def)
      next
        case False
        have "backward_loop page shares pool t cs c acc
            = backward_loop page shares pool t True (sh_created (last (take page ?r))) acc'"
          using more ne False
          by (subst backward_loop.simps) (simp only: rows acc'_def [symmetric] Let_def if_True if_False)
        also have "\<dots> = fst (foldl (count_share t) acc'
            (walked page (newest_first shares pool True (sh_created (last (take page ?r))))))"
          using "1.IH" [OF more refl refl] ne False "1.prems" by (simp only: rows acc'_def [symmetric]) simp
        finally show ?thesis using newest_first_next [OF ne] by (simp only: split [OF ne])
      qed
    qed
  qed
qed

lemma walked_subseq: "subseq (walked page rows) rows"
proof (induction page rows rule: walked.induct)
  case (1 page rows)
  let ?next = "filter (\<lambda>s. sh_created s < sh_created (last (take page rows))) (drop page rows)"
  show ?case
  proof (cases "take page rows = []")
    case False
    have "subseq (walked page ?next) (drop page rows)" using "1.IH" [OF False] subseq_filter_left subseq_order.trans by blast
    then have "subseq (take page rows @ walked page ?next) (take page rows @ drop page rows)"
      by (rule list_emb_append_mono [OF subseq_order.refl])
    then show ?thesis using False by (subst walked.simps) simp
  qed (subst walked.simps, simp)
qed

lemma walked_all:
  assumes "0 < page" and "sorted_wrt (\<lambda>a b. sh_created b \<le> sh_created a) rows" and "no_tie_at_page_end page rows"
  shows "walked page rows = rows"
  using assms
proof (induction page rows rule: walked.induct)
  case (1 page rows)
  show ?case
  proof (cases "page < length rows")
    case False
    then have "drop page rows = []" "take page rows = rows" by simp_all
    moreover have "walked page [] = []" by (subst walked.simps) simp
    ultimately show ?thesis by (subst walked.simps) simp
  next
    case True
    then have ne: "take page rows \<noteq> []" using "1.prems"(1) by auto
    have l: "last (take page rows) = rows ! (page - 1)" using True "1.prems"(1) ne by (simp add: last_conv_nth)
    have h: "sh_created (rows ! page) < sh_created (rows ! (page - 1))"
      using "1.prems"(1,3) True unfolding no_tie_at_page_end_def by (metis Suc_diff_1 mod_self)
    have "sh_created s < sh_created (rows ! (page - 1))" if s: "s \<in> set (drop page rows)" for s
    proof -
      obtain j where j: "j < length rows - page" "s = rows ! (page + j)" using s by (auto simp: in_set_conv_nth)
      have "j = 0 \<or> sh_created (rows ! (page + j)) \<le> sh_created (rows ! page)"
        using sorted_wrt_nth_less [OF "1.prems"(2), of page "page + j"] j(1) by (cases "j = 0") simp_all
      then show ?thesis using h j(2) by auto
    qed
    then have f: "filter (\<lambda>s. sh_created s < sh_created (last (take page rows))) (drop page rows) = drop page rows"
      unfolding l by simp
    have "no_tie_at_page_end page (drop page rows)"
      unfolding no_tie_at_page_end_def
    proof (intro allI impI)
      fix i assume i: "Suc i < length (drop page rows) \<and> Suc i mod page = 0"
      have "Suc (page + i) < length rows" using i unfolding length_drop by linarith
      moreover have "Suc (page + i) mod page = 0" using i by (simp flip: add_Suc_right)
      ultimately have "sh_created (rows ! Suc (page + i)) < sh_created (rows ! (page + i))"
        using "1.prems"(3) by (simp add: no_tie_at_page_end_def)
      then show "sh_created (drop page rows ! Suc i) < sh_created (drop page rows ! i)" using True by simp
    qed
    moreover have "sorted_wrt (\<lambda>a b. sh_created b \<le> sh_created a) (drop page rows)" by (rule sorted_wrt_drop [OF "1.prems"(2)])
    ultimately have "walked page (drop page rows) = drop page rows" using "1.IH" [OF ne] "1.prems"(1) unfolding f by simp
    then show ?thesis using ne by (subst walked.simps) (simp add: f)
  qed
qed

lemma distinct_times_no_tie:
  assumes "inj_on sh_created (set (filter (\<lambda>s. sh_pool s = pool) shares))" and "distinct shares"
  shows "no_tie_at_page_end page (newest_first shares pool cs c)"
proof -
  have "inj_on sh_created (set (filter (\<lambda>s. sh_pool s = pool \<and> (if cs then sh_created s < c else sh_created s \<le> c)) shares))"
    using assms(1) by (rule inj_on_subset) auto
  then have "sorted_wrt (\<lambda>a b. sh_created b < sh_created a) (newest_first shares pool cs c)"
    unfolding newest_first_def using assms(2) by (intro sort_key_desc_strict) simp_all
  then show ?thesis by (simp add: no_tie_at_page_end_def sorted_wrt_iff_nth_less)
qed

lemma pplns_window_prefix:
  "\<exists>k \<le> length rows. pplns_window t c rows = take k rows
    \<and> (\<forall>j < k. foldl (\<lambda>c s. fadd c (sh_diff s)) c (take j rows) < t)
    \<and> (k = length rows \<or> t \<le> foldl (\<lambda>c s. fadd c (sh_diff s)) c (take k rows))"
proof (induction rows arbitrary: c)
  case (Cons s rows)
  show ?case
  proof (cases "t \<le> c")
    case True
    then show ?thesis by (intro exI [of _ 0]) simp
  next
    case False
    obtain k where k: "k \<le> length rows" "pplns_window t (fadd c (sh_diff s)) rows = take k rows"
      "\<forall>j < k. foldl (\<lambda>c s. fadd c (sh_diff s)) (fadd c (sh_diff s)) (take j rows) < t"
      "k = length rows \<or> t \<le> foldl (\<lambda>c s. fadd c (sh_diff s)) (fadd c (sh_diff s)) (take k rows)"
      using Cons.IH by blast
    have "\<forall>j < Suc k. foldl (\<lambda>c s. fadd c (sh_diff s)) c (take j (s # rows)) < t"
    proof (intro allI impI)
      fix j assume "j < Suc k"
      then show "foldl (\<lambda>c s. fadd c (sh_diff s)) c (take j (s # rows)) < t"
        using False k(3) by (cases j) simp_all
    qed
    with k False show ?thesis by (intro exI [of _ "Suc k"]) simp
  qed
qed simp

text \<open>
  C15: what the paged PPLNS walk counts. Of the pool's shares up to the block, newest first, the walk sees pages of 10000 rows, each
  page starting strictly before the time of the last row of the page before: no share twice, and all of them unless a row has
  the very time of the last row of a page before it, in which case the rows of that time that did not fit on the page are passed over. Of the shares it sees, it counts
  the shortest run from the newest on whose difficulty, summed as the code sums it, reaches the target, and every one when they fall short. So
  when no such tie stands at the end of a page, in particular when the shares have distinct times, PPLNS pays exactly the last N of difficulty.
\<close>

theorem pplns_counts_window:
  shows "(\<exists>k. work_backward d pool before t = sum_work [] (take k (walked 10000 (newest_first (db_shares d) pool False before)))
      \<and> k \<le> length (walked 10000 (newest_first (db_shares d) pool False before))
      \<and> (\<forall>j < k. diff_sum (take j (walked 10000 (newest_first (db_shares d) pool False before))) < t)
      \<and> (k = length (walked 10000 (newest_first (db_shares d) pool False before))
         \<or> t \<le> diff_sum (take k (walked 10000 (newest_first (db_shares d) pool False before)))))
    \<and> subseq (walked 10000 (newest_first (db_shares d) pool False before)) (newest_first (db_shares d) pool False before)
    \<and> (no_tie_at_page_end 10000 (newest_first (db_shares d) pool False before) \<longrightarrow>
         walked 10000 (newest_first (db_shares d) pool False before) = newest_first (db_shares d) pool False before)"
proof -
  define w where "w = walked 10000 (newest_first (db_shares d) pool False before)"
  have "work_backward d pool before t = sum_work [] (pplns_window t 0 w)"
    unfolding work_backward_def w_def
    using backward_loop_reference [of work_backward_page] by (simp add: work_backward_page_def fold_count_window)
  moreover obtain k where "k \<le> length w" "pplns_window t 0 w = take k w" "\<forall>j < k. diff_sum (take j w) < t"
    "k = length w \<or> t \<le> diff_sum (take k w)"
    using pplns_window_prefix [of w t 0] unfolding diff_sum_def by blast
  ultimately have "\<exists>k. work_backward d pool before t = sum_work [] (take k w) \<and> k \<le> length w
      \<and> (\<forall>j < k. diff_sum (take j w) < t) \<and> (k = length w \<or> t \<le> diff_sum (take k w))"
    by (intro exI [of _ k]) simp
  moreover have "no_tie_at_page_end 10000 (newest_first (db_shares d) pool False before) \<longrightarrow> w = newest_first (db_shares d) pool False before"
    unfolding w_def by (intro impI walked_all) (simp_all add: newest_first_sorted)
  ultimately show ?thesis unfolding w_def [symmetric] by (simp add: w_def walked_subseq)
qed

definition sample_share :: "string \<Rightarrow> string \<Rightarrow> int \<Rightarrow> int \<Rightarrow> share_row" where
  "sample_share sid miner t diff =
     \<lparr>sh_id = sid, sh_pool = ''btc'', sh_height = 840000, sh_diff = of_int diff, sh_net_diff = 16,
      sh_miner = miner, sh_worker = [], sh_user_agent = [], sh_ip = [], sh_source = [], sh_created = t\<rparr>"

definition sample_shares :: "share_row list" where
  "sample_shares =
     [sample_share ''1'' ''a'' 10 8, sample_share ''2'' ''b'' 20 8, sample_share ''3'' ''a'' 30 4]"

definition sample_db :: db where
  "sample_db = \<lparr>db_shares = sample_shares, db_blocks = [], db_balances = [], db_changes = [], db_payments = []\<rparr>"

text \<open>One share more than a page, a second apart and of difficulty one, and a target beyond them.\<close>

definition paged_db :: db where
  "paged_db = sample_db\<lparr>db_shares := map (\<lambda>i. sample_share [] ''a'' (int i) 1) [0..<10001]\<rparr>"

lemma diff_sum_units: "\<forall>s \<in> set rows. sh_diff s = 1 \<Longrightarrow> length rows \<le> 2 ^ 53 \<Longrightarrow> diff_sum rows = of_int (int (length rows))"
proof (induction rows rule: rev_induct)
  case (snoc s rows)
  then have "diff_sum rows = of_int (int (length rows))" by simp
  then have "diff_sum (rows @ [s]) = fadd (of_int (int (length rows))) 1" using snoc.prems(1) by (simp add: diff_sum_def)
  moreover have "round64 (of_int (int (length rows) + 1)) = of_int (int (length rows) + 1)"
    using snoc.prems(2) by (intro f64.rnd_of_int) simp
  ultimately show ?case by (simp add: fadd_def)
qed (simp add: diff_sum_def)

theorem pplns_counts_window_witness:
  "work_backward paged_db ''btc'' 20000 20000 = sum_work [] (newest_first (db_shares paged_db) ''btc'' False 20000)
   \<and> length (newest_first (db_shares paged_db) ''btc'' False 20000) = 10001"
proof -
  let ?r = "newest_first (db_shares paged_db) ''btc'' False 20000"
  have i: "inj_on sh_created (set (filter (\<lambda>s. sh_pool s = ''btc'') (db_shares paged_db)))" "distinct (db_shares paged_db)"
    by (auto simp: paged_db_def sample_share_def inj_on_def distinct_map)
  have f: "filter (\<lambda>s. sh_pool s = ''btc'' \<and> sh_created s \<le> 20000) (db_shares paged_db) = db_shares paged_db"
    by (rule filter_True) (auto simp: paged_db_def sample_share_def)
  have r: "set ?r = set (db_shares paged_db)" "length ?r = 10001" by (simp_all add: newest_first_def f) (simp add: paged_db_def)
  have u: "\<forall>s \<in> set ?r. sh_diff s = 1" unfolding r by (auto simp: paged_db_def sample_share_def)
  have "walked 10000 ?r = ?r" using pplns_counts_window [of paged_db "''btc''" 20000 20000] distinct_times_no_tie [OF i] by blast
  then obtain k where k: "work_backward paged_db ''btc'' 20000 20000 = sum_work [] (take k ?r)"
      "k \<le> length ?r" "k = length ?r \<or> 20000 \<le> diff_sum (take k ?r)"
    using pplns_counts_window [of paged_db "''btc''" 20000 20000] by auto
  have "diff_sum (take k ?r) = of_int (int (length (take k ?r)))"
    using u r(2) by (intro diff_sum_units) (auto dest: in_set_takeD)
  also have "\<dots> \<le> 10001" using r(2) by simp
  finally have "k = length ?r" using k(3) by auto
  then show ?thesis using k(1) r(2) by simp
qed

end
