(* ===== verification/Ledger.thy ===== *)
theory Ledger
  imports Store
begin

text \<open>
  The write side of the accounting: \<open>CreditBlockRewards\<close> of \<open>internal/storage/postgres/rewards.go\<close>
  and the payout transactions of \<open>payouts.go\<close>. A transaction ends in one of three ways: committed,
  rolled back with an error, or committed although the client saw an error (the connection broke
  during the commit). The theorems follow the money through every sequence of these operations.
\<close>

datatype tx_outcome = TxCommitted | TxRolledBack | TxUnknown

definition finish_tx :: "tx_outcome \<Rightarrow> db \<Rightarrow> 'a \<Rightarrow> db \<Rightarrow> db \<times> (db_error + 'a)" where
  "finish_tx out d' x d =
     (case out of TxCommitted \<Rightarrow> (d', Inr x) | TxRolledBack \<Rightarrow> (d, Inl QueryFailed)
      | TxUnknown \<Rightarrow> (d', Inl CommitFailed))"

subsection \<open>Balance rows\<close>

fun upsert_balance :: "balance_row list \<Rightarrow> string \<Rightarrow> string \<Rightarrow> int \<Rightarrow> balance_row list" where
  "upsert_balance [] p m x = [\<lparr>bl_pool = p, bl_miner = m, bl_amount = x\<rparr>]"
| "upsert_balance (r # rs) p m x =
     (if bl_pool r = p \<and> bl_miner r = m then r\<lparr>bl_amount := bl_amount r + x\<rparr> # rs
      else r # upsert_balance rs p m x)"

definition deduct_balance :: "balance_row list \<Rightarrow> string \<Rightarrow> string \<Rightarrow> int \<Rightarrow> balance_row list" where
  "deduct_balance rs p m x =
     map (\<lambda>r. if bl_pool r = p \<and> bl_miner r = m then r\<lparr>bl_amount := bl_amount r - x\<rparr> else r) rs"

definition add_change :: "db \<Rightarrow> string \<Rightarrow> string \<Rightarrow> int \<Rightarrow> change_usage \<Rightarrow> int \<Rightarrow> db" where
  "add_change d p m x u h =
     d\<lparr>db_changes := db_changes d @
         [\<lparr>ch_pool = p, ch_miner = m, ch_amount = x, ch_usage = u, ch_height = h\<rparr>]\<rparr>"

definition upsert :: "db \<Rightarrow> string \<Rightarrow> string \<Rightarrow> int \<Rightarrow> db" where
  "upsert d p m x = d\<lparr>db_balances := upsert_balance (db_balances d) p m x\<rparr>"

definition deduct :: "db \<Rightarrow> string \<Rightarrow> string \<Rightarrow> int \<Rightarrow> db" where
  "deduct d p m x = d\<lparr>db_balances := deduct_balance (db_balances d) p m x\<rparr>"

definition miner_balance :: "db \<Rightarrow> string \<Rightarrow> string \<Rightarrow> int" where
  "miner_balance d p m =
     (case filter (\<lambda>r. bl_pool r = p \<and> bl_miner r = m) (db_balances d) of
        [] \<Rightarrow> 0 | r # _ \<Rightarrow> bl_amount r)"

subsection \<open>Crediting a block\<close>

definition credit_miner :: "reward_block \<Rightarrow> db \<Rightarrow> credit \<Rightarrow> db" where
  "credit_miner b d c =
     upsert (add_change d (rb_pool b) (cr_miner c) (cr_amount c) BlockReward (rb_height b))
       (rb_pool b) (cr_miner c) (cr_amount c)"

definition mark_rewarded :: "int \<Rightarrow> db \<Rightarrow> db" where
  "mark_rewarded bid d =
     d\<lparr>db_blocks := map (\<lambda>r. if br_id r = bid then r\<lparr>br_rewarded := True\<rparr> else r) (db_blocks d)\<rparr>"

definition credit_block_rewards ::
  "tx_outcome \<Rightarrow> db \<Rightarrow> reward_block \<Rightarrow> credit list \<Rightarrow> int \<Rightarrow> db \<times> (db_error + unit)" where
  "credit_block_rewards out d b credits fee =
     (if out = TxRolledBack then (d, Inl QueryFailed)
      else case filter (\<lambda>r. br_id r = rb_id b) (db_blocks d) of
        [] \<Rightarrow> (d, Inl (BlockNotFound (rb_id b)))
      | r # _ \<Rightarrow>
        if br_rewarded r then (d, Inr ())
        else let d1 = foldl (credit_miner b) d credits;
                 d2 = (if 0 < fee then add_change d1 (rb_pool b) [] fee PoolFee (rb_height b) else d1)
             in finish_tx out (mark_rewarded (rb_id b) d2) () d)"

subsection \<open>Payouts\<close>

record payment =
  py_id :: int
  py_pool :: string
  py_miner :: string
  py_address :: string
  py_amount :: int
  py_batch :: string

definition payable :: "db \<Rightarrow> string \<Rightarrow> int \<Rightarrow> (string \<times> int) list" where
  "payable d pool min_sats =
     map (\<lambda>r. (bl_miner r, bl_amount r))
       (sort_key bl_miner (filter (\<lambda>r. bl_pool r = pool \<and> min_sats \<le> bl_amount r) (db_balances d)))"

text \<open>One candidate of \<open>BeginPayout\<close>. Payment ids come from a sequence; the number of rows so far
  serves as one.\<close>

definition pay_one ::
  "(string \<Rightarrow> string option) \<Rightarrow> string \<Rightarrow> string \<Rightarrow> int \<Rightarrow> db \<times> payment list \<Rightarrow> string \<times> int \<Rightarrow> db \<times> payment list" where
  "pay_one validate pool batch_id now st cand =
     (case (st, cand) of ((d, batch), (m, sats)) \<Rightarrow>
       (case validate m of None \<Rightarrow> (d, batch)
        | Some address \<Rightarrow>
          let d1 = add_change (deduct d pool m sats) pool m (- sats) Payout 0;
              pid = int (length (db_payments d1)) + 1
          in (d1\<lparr>db_payments := db_payments d1 @
                [\<lparr>pm_id = pid, pm_pool = pool, pm_miner = m, pm_address = address, pm_amount = sats,
                  pm_txid = [], pm_status = Sending, pm_batch = batch_id, pm_created = now\<rparr>]\<rparr>,
              batch @ [\<lparr>py_id = pid, py_pool = pool, py_miner = m, py_address = address,
                        py_amount = sats, py_batch = batch_id\<rparr>])))"

definition begin_payout ::
  "tx_outcome \<Rightarrow> db \<Rightarrow> string \<Rightarrow> int \<Rightarrow> string \<Rightarrow> int \<Rightarrow> (string \<Rightarrow> string option) \<Rightarrow> db \<times> (db_error + payment list)" where
  "begin_payout out d pool min_sats batch_id now validate =
     (if out = TxRolledBack then (d, Inl QueryFailed)
      else let (d', batch) = foldl (pay_one validate pool batch_id now) (d, []) (payable d pool min_sats)
           in if batch = [] then (d, Inr []) else finish_tx out d' batch d)"

definition in_flight :: "string \<Rightarrow> payment_row \<Rightarrow> bool" where
  "in_flight batch_id p = (pm_batch p = batch_id \<and> pm_status p = Sending)"

definition mark_payments_sent :: "tx_outcome \<Rightarrow> db \<Rightarrow> string \<Rightarrow> string \<Rightarrow> db \<times> (db_error + unit)" where
  "mark_payments_sent out d batch_id txid =
     (if out = TxRolledBack then (d, Inl QueryFailed)
      else if filter (in_flight batch_id) (db_payments d) = [] then (d, Inl (NoSendingRows batch_id))
      else finish_tx out
        (d\<lparr>db_payments := map (\<lambda>p. if in_flight batch_id p
              then p\<lparr>pm_status := Sent, pm_txid := txid\<rparr> else p) (db_payments d)\<rparr>) () d)"

definition refund_one :: "db \<Rightarrow> payment_row \<Rightarrow> db" where
  "refund_one d p =
     add_change (upsert d (pm_pool p) (pm_miner p) (pm_amount p))
       (pm_pool p) (pm_miner p) (pm_amount p) PayoutRefund 0"

definition fail_batch :: "string \<Rightarrow> db \<Rightarrow> db" where
  "fail_batch batch_id d =
     d\<lparr>db_payments := map (\<lambda>p. if in_flight batch_id p then p\<lparr>pm_status := Failed\<rparr> else p) (db_payments d)\<rparr>"

definition refund_batch :: "tx_outcome \<Rightarrow> db \<Rightarrow> string \<Rightarrow> db \<times> (db_error + unit)" where
  "refund_batch out d batch_id =
     (if out = TxRolledBack then (d, Inl QueryFailed)
      else let rows = filter (in_flight batch_id) (db_payments d)
           in if rows = [] then (d, Inr ())
              else finish_tx out (fail_batch batch_id (foldl refund_one d rows)) () d)"

definition stuck_grace :: int where
  "stuck_grace = 300000000000"

definition stuck_batches :: "db \<Rightarrow> string \<Rightarrow> int \<Rightarrow> string list" where
  "stuck_batches d pool now =
     sort (remdups (map pm_batch
       (filter (\<lambda>p. pm_pool p = pool \<and> pm_status p = Sending \<and> pm_created p < now - stuck_grace)
         (db_payments d))))"

subsection \<open>Where the money is\<close>

definition balances_total :: "db \<Rightarrow> int" where
  "balances_total d = (\<Sum>r\<leftarrow>db_balances d. bl_amount r)"

definition paid_total :: "db \<Rightarrow> int" where
  "paid_total d = (\<Sum>p\<leftarrow>db_payments d. if pm_status p = Failed then 0 else pm_amount p)"

definition fee_total :: "db \<Rightarrow> int" where
  "fee_total d = (\<Sum>c\<leftarrow>db_changes d. if ch_usage c = PoolFee then ch_amount c else 0)"

definition rewarded_total :: "db \<Rightarrow> int" where
  "rewarded_total d = (\<Sum>r\<leftarrow>db_blocks d. if br_rewarded r then br_reward_sats r else 0)"

definition accounted :: "db \<Rightarrow> int" where
  "accounted d = balances_total d + paid_total d + fee_total d"

text \<open>A miner's audit trail: every change of its balance, fees of the pool aside.\<close>

definition audit_trail :: "db \<Rightarrow> string \<Rightarrow> string \<Rightarrow> int" where
  "audit_trail d p m =
     (\<Sum>c\<leftarrow>db_changes d. if ch_usage c \<noteq> PoolFee \<and> ch_pool c = p \<and> ch_miner c = m then ch_amount c else 0)"

lemmas money_defs = balances_total_def paid_total_def fee_total_def rewarded_total_def accounted_def audit_trail_def

definition keys :: "db \<Rightarrow> (string \<times> string) list" where
  "keys d = map (\<lambda>r. (bl_pool r, bl_miner r)) (db_balances d)"

lemma upsert_balance_sum:
  "(\<Sum>r\<leftarrow>upsert_balance rs p m x. bl_amount r) = (\<Sum>r\<leftarrow>rs. bl_amount r) + x"
  by (induction rs) auto

lemma upsert_balance_keys:
  "map (\<lambda>r. (bl_pool r, bl_miner r)) (upsert_balance rs p m x) =
    (let ks = map (\<lambda>r. (bl_pool r, bl_miner r)) rs in if (p, m) \<in> set ks then ks else ks @ [(p, m)])"
  by (induction rs) (auto simp: Let_def)

lemma deduct_balance_keys:
  "map (\<lambda>r. (bl_pool r, bl_miner r)) (deduct_balance rs p m x) = map (\<lambda>r. (bl_pool r, bl_miner r)) rs"
  by (induction rs) (auto simp: deduct_balance_def)

lemma deduct_balance_other:
  "(p, m) \<notin> set (map (\<lambda>r. (bl_pool r, bl_miner r)) rs) \<Longrightarrow> deduct_balance rs p m x = rs"
  by (induction rs) (auto simp: deduct_balance_def)

lemma deduct_balance_sum:
  "distinct (map (\<lambda>r. (bl_pool r, bl_miner r)) rs) \<Longrightarrow>
   (p, m) \<in> set (map (\<lambda>r. (bl_pool r, bl_miner r)) rs) \<Longrightarrow>
   (\<Sum>r\<leftarrow>deduct_balance rs p m x. bl_amount r) = (\<Sum>r\<leftarrow>rs. bl_amount r) - x"
proof (induction rs)
  case (Cons r rs)
  show ?case
  proof (cases "bl_pool r = p \<and> bl_miner r = m")
    case True
    then have "deduct_balance rs p m x = rs" using Cons.prems(1) by (intro deduct_balance_other) auto
    with True show ?thesis by (simp add: deduct_balance_def)
  next
    case False
    then have "(p, m) \<in> set (map (\<lambda>r. (bl_pool r, bl_miner r)) rs)" using Cons.prems(2) by auto
    with False Cons show ?thesis by (auto simp: deduct_balance_def)
  qed
qed simp

text \<open>The balance as a function of the rows.\<close>

fun row_balance :: "balance_row list \<Rightarrow> string \<Rightarrow> string \<Rightarrow> int" where
  "row_balance [] p m = 0"
| "row_balance (r # rs) p m = (if bl_pool r = p \<and> bl_miner r = m then bl_amount r else row_balance rs p m)"

lemma miner_balance_rows: "miner_balance d p m = row_balance (db_balances d) p m"
proof -
  have "(case filter (\<lambda>r. bl_pool r = p \<and> bl_miner r = m) rs of [] \<Rightarrow> 0 | r # _ \<Rightarrow> bl_amount r)
      = row_balance rs p m" for rs :: "balance_row list"
    by (induction rs) auto
  then show ?thesis by (simp add: miner_balance_def)
qed

lemma row_balance_upsert:
  "row_balance (upsert_balance rs p m x) p' m' = row_balance rs p' m' + (if p' = p \<and> m' = m then x else 0)"
  by (induction rs) auto

lemma row_balance_deduct:
  "(p, m) \<in> set (map (\<lambda>r. (bl_pool r, bl_miner r)) rs) \<Longrightarrow>
   row_balance (deduct_balance rs p m x) p' m' = row_balance rs p' m' - (if p' = p \<and> m' = m then x else 0)"
proof (induction rs)
  case (Cons r rs)
  have "deduct_balance (r # rs) p m x
      = (if bl_pool r = p \<and> bl_miner r = m then r\<lparr>bl_amount := bl_amount r - x\<rparr> else r) # deduct_balance rs p m x"
    by (simp add: deduct_balance_def)
  moreover have "row_balance (deduct_balance rs p m x) p' m' = row_balance rs p' m'"
    if "p' \<noteq> p \<or> m' \<noteq> m"
    using that by (induction rs) (auto simp: deduct_balance_def)
  ultimately show ?case using Cons by auto
qed simp


subsection \<open>What each primitive moves\<close>

lemma upsert_frame [simp]:
  "db_blocks (upsert d p m x) = db_blocks d" "db_payments (upsert d p m x) = db_payments d"
  "db_changes (upsert d p m x) = db_changes d" "db_shares (upsert d p m x) = db_shares d"
  by (simp_all add: upsert_def)

lemma add_change_frame [simp]:
  "db_blocks (add_change d p m x u h) = db_blocks d" "db_payments (add_change d p m x u h) = db_payments d"
  "db_balances (add_change d p m x u h) = db_balances d" "db_shares (add_change d p m x u h) = db_shares d"
  by (simp_all add: add_change_def)

lemma deduct_frame [simp]:
  "db_blocks (deduct d p m x) = db_blocks d" "db_payments (deduct d p m x) = db_payments d"
  "db_changes (deduct d p m x) = db_changes d" "db_shares (deduct d p m x) = db_shares d"
  by (simp_all add: deduct_def)

lemma mark_rewarded_frame [simp]:
  "db_balances (mark_rewarded b d) = db_balances d" "db_payments (mark_rewarded b d) = db_payments d"
  "db_changes (mark_rewarded b d) = db_changes d" "db_shares (mark_rewarded b d) = db_shares d"
  by (simp_all add: mark_rewarded_def)

lemma fail_batch_frame [simp]:
  "db_balances (fail_batch b d) = db_balances d" "db_blocks (fail_batch b d) = db_blocks d"
  "db_changes (fail_batch b d) = db_changes d" "db_shares (fail_batch b d) = db_shares d"
  by (simp_all add: fail_batch_def)

lemma accounted_upsert: "accounted (upsert d p m x) = accounted d + x"
  by (simp add: money_defs upsert_def upsert_balance_sum)

lemma accounted_add_change: "accounted (add_change d p m x u h) = accounted d + (if u = PoolFee then x else 0)"
  by (simp add: money_defs add_change_def)

lemma keys_upsert: "keys (upsert d p m x) = (if (p, m) \<in> set (keys d) then keys d else keys d @ [(p, m)])"
  by (simp add: keys_def upsert_def upsert_balance_keys Let_def)

lemma keys_deduct [simp]: "keys (deduct d p m x) = keys d"
  by (simp add: keys_def deduct_def deduct_balance_keys)

lemma keys_add_change [simp]: "keys (add_change d p m x u h) = keys d"
  by (simp add: keys_def)

lemma miner_balance_upsert:
  "miner_balance (upsert d p m x) p' m' = miner_balance d p' m' + (if p' = p \<and> m' = m then x else 0)"
  by (simp add: miner_balance_rows upsert_def row_balance_upsert)

lemma audit_add_change:
  "audit_trail (add_change d p m x u h) p' m'
     = audit_trail d p' m' + (if u \<noteq> PoolFee \<and> p' = p \<and> m' = m then x else 0)"
  by (auto simp: audit_trail_def add_change_def)

lemma accounted_deduct:
  "distinct (keys d) \<Longrightarrow> (p, m) \<in> set (keys d) \<Longrightarrow> accounted (deduct d p m x) = accounted d - x"
  by (simp add: money_defs deduct_def keys_def deduct_balance_sum)

lemma miner_balance_deduct:
  "(p, m) \<in> set (keys d) \<Longrightarrow>
   miner_balance (deduct d p m x) p' m' = miner_balance d p' m' - (if p' = p \<and> m' = m then x else 0)"
  by (simp add: miner_balance_rows deduct_def keys_def row_balance_deduct)

subsection \<open>The books\<close>

text \<open>The bookkeeping invariant: one row per miner, no negative balance, and every balance the sum
  of its audit trail.\<close>

definition books :: "db \<Rightarrow> bool" where
  "books d \<longleftrightarrow> distinct (keys d) \<and> (\<forall>r \<in> set (db_balances d). 0 \<le> bl_amount r)
     \<and> (\<forall>p m. miner_balance d p m = audit_trail d p m)"

lemma upsert_nonneg:
  "(\<forall>r \<in> set rs. 0 \<le> bl_amount r) \<Longrightarrow> 0 \<le> x \<Longrightarrow> \<forall>r \<in> set (upsert_balance rs p m x). 0 \<le> bl_amount r"
  by (induction rs) auto

lemma books_credit:
  assumes "books d" and "0 \<le> x" and "u \<noteq> PoolFee"
  shows "books (upsert (add_change d p m x u h) p m x)"
    and "books (add_change (upsert d p m x) p m x u h)"
  using assms upsert_nonneg [of "db_balances d" x p m]
  by (auto simp: books_def keys_upsert miner_balance_upsert audit_add_change)
    (auto simp: upsert_def miner_balance_rows row_balance_upsert audit_trail_def add_change_def)

lemma credits_fold:
  assumes "books d" and "\<And>c. c \<in> set cs \<Longrightarrow> 0 \<le> cr_amount c"
  shows "books (foldl (credit_miner b) d cs)
    \<and> accounted (foldl (credit_miner b) d cs) = accounted d + (\<Sum>c\<leftarrow>cs. cr_amount c)
    \<and> db_blocks (foldl (credit_miner b) d cs) = db_blocks d
    \<and> db_shares (foldl (credit_miner b) d cs) = db_shares d
    \<and> db_payments (foldl (credit_miner b) d cs) = db_payments d"
  using assms
proof (induction cs arbitrary: d)
  case (Cons c cs)
  have "books (credit_miner b d c)" using Cons.prems by (simp add: credit_miner_def books_credit)
  moreover have "accounted (credit_miner b d c) = accounted d + cr_amount c"
    by (simp add: credit_miner_def accounted_upsert accounted_add_change)
  ultimately show ?case using Cons.IH [of "credit_miner b d c"] Cons.prems(2)
    by (simp add: credit_miner_def)
qed simp


lemma row_balance_mem:
  "distinct (map (\<lambda>r. (bl_pool r, bl_miner r)) rs) \<Longrightarrow> r \<in> set rs \<Longrightarrow>
   row_balance rs (bl_pool r) (bl_miner r) = bl_amount r"
proof (induction rs)
  case (Cons a rs)
  show ?case
  proof (cases "r = a")
    case False
    then have "r \<in> set rs" using Cons.prems(2) by simp
    then have "(bl_pool r, bl_miner r) \<in> set (map (\<lambda>r. (bl_pool r, bl_miner r)) rs)" by auto
    then have "\<not> (bl_pool a = bl_pool r \<and> bl_miner a = bl_miner r)" using Cons.prems(1) by auto
    with \<open>r \<in> set rs\<close> Cons show ?thesis by auto
  qed simp
qed simp

lemma rows_nonneg:
  "distinct (map (\<lambda>r. (bl_pool r, bl_miner r)) rs) \<Longrightarrow>
   (\<forall>r \<in> set rs. 0 \<le> bl_amount r) \<longleftrightarrow> (\<forall>p m. 0 \<le> row_balance rs p m)"
proof
  assume "\<forall>r \<in> set rs. 0 \<le> bl_amount r"
  then show "\<forall>p m. 0 \<le> row_balance rs p m" by (induction rs) auto
next
  assume "distinct (map (\<lambda>r. (bl_pool r, bl_miner r)) rs)" and "\<forall>p m. 0 \<le> row_balance rs p m"
  then show "\<forall>r \<in> set rs. 0 \<le> bl_amount r" by (metis row_balance_mem)
qed

lemma books_balances:
  "books d \<longleftrightarrow> distinct (keys d) \<and> (\<forall>p m. 0 \<le> miner_balance d p m)
     \<and> (\<forall>p m. miner_balance d p m = audit_trail d p m)"
  using rows_nonneg [of "db_balances d"] by (auto simp: books_def keys_def miner_balance_rows)

lemma books_payout:
  assumes "books d" and "(p, m) \<in> set (keys d)" and "miner_balance d p m = x"
  shows "books (add_change (deduct d p m x) p m (- x) Payout 0)"
proof -
  have "miner_balance (add_change (deduct d p m x) p m (- x) Payout 0) p' m' = miner_balance (deduct d p m x) p' m'"
    for p' m' by (simp add: miner_balance_rows)
  moreover have "audit_trail (deduct d p m x) p' m' = audit_trail d p' m'" for p' m'
    by (simp add: audit_trail_def)
  ultimately show ?thesis using assms
    by (auto simp: books_balances miner_balance_deduct audit_add_change)
qed

subsection \<open>Crediting\<close>

lemma rewarded_total_mark:
  assumes "distinct (map br_id (db_blocks d))" and "r \<in> set (db_blocks d)" and "\<not> br_rewarded r"
  shows "rewarded_total (mark_rewarded (br_id r) d) = rewarded_total d + br_reward_sats r"
proof -
  have other: "map (\<lambda>b. if br_id b = i then b\<lparr>br_rewarded := True\<rparr> else b) bs = bs"
    if "i \<notin> br_id ` set bs" for i and bs :: "block_row list"
    using that by (induction bs) auto
  have "(\<Sum>b\<leftarrow>map (\<lambda>b. if br_id b = br_id r then b\<lparr>br_rewarded := True\<rparr> else b) bs.
            if br_rewarded b then br_reward_sats b else 0)
        = (\<Sum>b\<leftarrow>bs. if br_rewarded b then br_reward_sats b else 0) + br_reward_sats r"
    if "distinct (map br_id bs)" and "r \<in> set bs" for bs
    using that
  proof (induction bs)
    case (Cons b bs)
    show ?case
    proof (cases "br_id b = br_id r")
      case True
      then have "br_id r \<notin> br_id ` set bs" using Cons.prems(1) by auto
      moreover from this have "b = r" using Cons.prems(2) by auto
      ultimately show ?thesis using assms(3) by (simp add: other)
    next
      case False
      then have "r \<in> set bs" using Cons.prems(2) by auto
      with False Cons show ?thesis by auto
    qed
  qed simp
  then show ?thesis using assms(1,2) by (simp add: rewarded_total_def mark_rewarded_def)
qed

lemma accounted_mark [simp]: "accounted (mark_rewarded b d) = accounted d"
  by (simp add: money_defs mark_rewarded_def)

lemma books_frame:
  "db_balances d' = db_balances d \<Longrightarrow> db_changes d' = db_changes d \<Longrightarrow> books d \<Longrightarrow> books d'"
  by (auto simp: books_def keys_def miner_balance_def audit_trail_def)

lemma filter_id_found:
  assumes "distinct (map br_id bs)" and "r \<in> set bs"
  shows "filter (\<lambda>x. br_id x = br_id r) bs = [r]"
  using assms
proof (induction bs)
  case (Cons b bs)
  show ?case
  proof (cases "br_id b = br_id r")
    case True
    with Cons.prems(1) have "br_id r \<notin> set (map br_id bs)" by simp
    then have n: "\<forall>x \<in> set bs. br_id x \<noteq> br_id r" by (metis image_eqI set_map)
    moreover from n have "b = r" using Cons.prems(2) by auto
    ultimately show ?thesis by (simp add: filter_empty_conv)
  next
    case False
    with Cons show ?thesis by auto
  qed
qed simp

definition same_blocks :: "db \<Rightarrow> db \<Rightarrow> bool" where
  "same_blocks d d' \<longleftrightarrow>
     map (\<lambda>r. (br_id r, br_reward_sats r)) (db_blocks d') = map (\<lambda>r. (br_id r, br_reward_sats r)) (db_blocks d)"

lemma credit_block_rewards_moves:
  assumes d: "books d" "distinct (map br_id (db_blocks d))" and r: "r \<in> set (db_blocks d)" "rb_id b = br_id r"
    and cs: "\<And>c. c \<in> set cs \<Longrightarrow> 0 \<le> cr_amount c" "0 \<le> fee" "(\<Sum>c\<leftarrow>cs. cr_amount c) + fee = br_reward_sats r"
  shows "books (fst (credit_block_rewards out d b cs fee))
    \<and> accounted (fst (credit_block_rewards out d b cs fee)) - rewarded_total (fst (credit_block_rewards out d b cs fee))
      = accounted d - rewarded_total d
    \<and> same_blocks d (fst (credit_block_rewards out d b cs fee))
    \<and> db_shares (fst (credit_block_rewards out d b cs fee)) = db_shares d"
proof (cases "out = TxRolledBack \<or> br_rewarded r")
  case True
  then show ?thesis
    using filter_id_found [OF d(2) r(1)] d(1)
    by (auto simp: credit_block_rewards_def r(2) same_blocks_def)
next
  case False
  define d1 where "d1 = foldl (credit_miner b) d cs"
  define d2 where "d2 = (if 0 < fee then add_change d1 (rb_pool b) [] fee PoolFee (rb_height b) else d1)"
  note f = credits_fold [OF d(1), of cs b, OF cs(1), folded d1_def]
  have bl2: "db_blocks d2 = db_blocks d" using f by (simp add: d2_def)
  have "books d2" using f by (auto simp: d2_def books_def audit_add_change miner_balance_rows)
  moreover have "accounted d2 = accounted d + br_reward_sats r"
    using f cs by (auto simp: d2_def accounted_add_change)
  moreover have "rewarded_total (mark_rewarded (br_id r) d2) = rewarded_total d + br_reward_sats r"
    using rewarded_total_mark [of d2 r] d(2) r(1) False by (simp add: bl2 rewarded_total_def)
  moreover have "fst (credit_block_rewards out d b cs fee) = mark_rewarded (br_id r) d2"
    using False filter_id_found [OF d(2) r(1)]
    by (cases out) (simp_all add: credit_block_rewards_def r(2) finish_tx_def d2_def d1_def Let_def)
  moreover have "same_blocks d (mark_rewarded (br_id r) d2)"
    by (auto simp: same_blocks_def mark_rewarded_def bl2)
  moreover have "books (mark_rewarded (br_id r) d2)" using calculation(1) by (rule books_frame [rotated 2]) simp_all
  ultimately show ?thesis using f by (simp add: d2_def)
qed


subsection \<open>Paying out\<close>

lemma pay_one_moves:
  assumes "books d" and "(pool, m) \<in> set (keys d)" and "miner_balance d pool m = s"
    and "pay_one validate pool batch_id now (d, batch) (m, s) = (d', batch')"
  shows "books d' \<and> accounted d' = accounted d \<and> db_blocks d' = db_blocks d \<and> db_shares d' = db_shares d
    \<and> keys d' = keys d \<and> (\<forall>m'. m' \<noteq> m \<longrightarrow> miner_balance d' pool m' = miner_balance d pool m')
    \<and> length (db_payments d) \<le> length (db_payments d')"
proof (cases "validate m")
  case None
  then show ?thesis using assms by (simp add: pay_one_def)
next
  case (Some address)
  define d1 where "d1 = add_change (deduct d pool m s) pool m (- s) Payout 0"
  obtain p where d': "d' = d1\<lparr>db_payments := db_payments d1 @ [p]\<rparr>" and p: "pm_amount p = s" "pm_status p = Sending"
    using assms(4) Some by (auto simp: pay_one_def Let_def d1_def)
  have "books d1" unfolding d1_def by (rule books_payout [OF assms(1-3)])
  then have "books d'" by (rule books_frame [rotated 2]) (simp_all add: d')
  moreover have "accounted d' = accounted d1 + s" by (simp add: d' money_defs p)
  moreover have "accounted d1 = accounted d - s"
    using assms(1,2) by (simp add: d1_def accounted_add_change accounted_deduct books_def)
  moreover have "miner_balance d' pool m' = miner_balance d pool m'" if "m' \<noteq> m" for m'
  proof -
    have "miner_balance d' pool m' = miner_balance (deduct d pool m s) pool m'"
      by (simp add: d' d1_def miner_balance_rows)
    then show ?thesis using that assms(2) by (simp add: miner_balance_deduct)
  qed
  moreover have "keys d' = keys d" by (simp add: d' d1_def keys_def) (simp add: deduct_def deduct_balance_keys)
  ultimately show ?thesis by (simp add: d' d1_def)
qed

lemma pay_fold_moves:
  assumes "books d" and "distinct (map fst cs)"
    and "\<And>m s. (m, s) \<in> set cs \<Longrightarrow> (pool, m) \<in> set (keys d) \<and> miner_balance d pool m = s"
    and "foldl (pay_one validate pool batch_id now) (d, batch) cs = (d', batch')"
  shows "books d' \<and> accounted d' = accounted d \<and> db_blocks d' = db_blocks d \<and> db_shares d' = db_shares d"
  using assms
proof (induction cs arbitrary: d batch)
  case (Cons c cs)
  obtain m s where c: "c = (m, s)" by (cases c)
  obtain d1 b1 where p: "pay_one validate pool batch_id now (d, batch) (m, s) = (d1, b1)"
    by (cases "pay_one validate pool batch_id now (d, batch) (m, s)")
  have ms: "(pool, m) \<in> set (keys d)" "miner_balance d pool m = s" using Cons.prems(3) [of m s] by (auto simp: c)
  note one = pay_one_moves [OF Cons.prems(1) ms p]
  have "(pool, m') \<in> set (keys d1) \<and> miner_balance d1 pool m' = s'" if "(m', s') \<in> set cs" for m' s'
  proof -
    have "m' \<noteq> m" using that Cons.prems(2) by (force simp: c)
    then show ?thesis using one Cons.prems(3) [of m' s'] that by simp
  qed
  then show ?case using Cons.IH [of d1 b1] one Cons.prems(2,4) by (simp add: c p)
qed simp

lemma payable_candidates:
  assumes "books d"
  shows "distinct (map fst (payable d pool min_sats))"
    and "(m, s) \<in> set (payable d pool min_sats) \<Longrightarrow>
      (pool, m) \<in> set (keys d) \<and> miner_balance d pool m = s \<and> min_sats \<le> s"
proof -
  let ?rs = "filter (\<lambda>r. bl_pool r = pool \<and> min_sats \<le> bl_amount r) (db_balances d)"
  have k: "distinct (map (\<lambda>r. (bl_pool r, bl_miner r)) (db_balances d))"
    using assms by (simp add: books_def keys_def)
  then have "distinct ?rs \<and> inj_on bl_miner (set ?rs)"
    by (auto simp: distinct_map inj_on_def)
  then show "distinct (map fst (payable d pool min_sats))"
    by (simp add: payable_def distinct_map comp_def inj_on_def)
  show "(pool, m) \<in> set (keys d) \<and> miner_balance d pool m = s \<and> min_sats \<le> s"
    if "(m, s) \<in> set (payable d pool min_sats)"
    using that row_balance_mem [OF k] by (auto simp: payable_def keys_def miner_balance_rows)
qed

lemma begin_payout_moves:
  assumes "books d"
  shows "books (fst (begin_payout out d pool min_sats batch_id now validate))
    \<and> accounted (fst (begin_payout out d pool min_sats batch_id now validate)) = accounted d
    \<and> db_blocks (fst (begin_payout out d pool min_sats batch_id now validate)) = db_blocks d
    \<and> db_shares (fst (begin_payout out d pool min_sats batch_id now validate)) = db_shares d"
proof -
  obtain d' batch where f: "foldl (pay_one validate pool batch_id now) (d, []) (payable d pool min_sats) = (d', batch)"
    by (cases "foldl (pay_one validate pool batch_id now) (d, []) (payable d pool min_sats)")
  have "fst (begin_payout out d pool min_sats batch_id now validate) \<in> {d, d'}"
    by (cases out) (auto simp: begin_payout_def f finish_tx_def)
  moreover have "books d' \<and> accounted d' = accounted d \<and> db_blocks d' = db_blocks d \<and> db_shares d' = db_shares d"
    using pay_fold_moves [OF assms payable_candidates(1) [OF assms] _ f] payable_candidates(2) [OF assms] by blast
  ultimately show ?thesis using assms by auto
qed

lemma mark_sent_moves:
  "books d \<Longrightarrow> books (fst (mark_payments_sent out d batch_id txid))
    \<and> accounted (fst (mark_payments_sent out d batch_id txid)) = accounted d
    \<and> db_blocks (fst (mark_payments_sent out d batch_id txid)) = db_blocks d
    \<and> db_shares (fst (mark_payments_sent out d batch_id txid)) = db_shares d"
proof -
  assume b: "books d"
  define d' where "d' = d\<lparr>db_payments := map (\<lambda>p. if in_flight batch_id p
              then p\<lparr>pm_status := Sent, pm_txid := txid\<rparr> else p) (db_payments d)\<rparr>"
  have "(\<Sum>p\<leftarrow>map (\<lambda>p. if in_flight batch_id p then p\<lparr>pm_status := Sent, pm_txid := txid\<rparr> else p) ps.
          if pm_status p = Failed then 0 else pm_amount p)
      = (\<Sum>p\<leftarrow>ps. if pm_status p = Failed then 0 else pm_amount p)" for ps
    by (induction ps) (auto simp: in_flight_def)
  then have "accounted d' = accounted d" by (simp add: money_defs d'_def)
  moreover have "books d'" using b by (rule books_frame [rotated 2]) (simp_all add: d'_def)
  moreover have "fst (mark_payments_sent out d batch_id txid) \<in> {d, d'}"
    by (cases out) (auto simp: mark_payments_sent_def finish_tx_def d'_def)
  ultimately show ?thesis using b by (auto simp: d'_def)
qed

lemma refund_fold:
  assumes "books d" and "\<And>p. p \<in> set ps \<Longrightarrow> 0 \<le> pm_amount p"
  shows "books (foldl refund_one d ps)
    \<and> accounted (foldl refund_one d ps) = accounted d + (\<Sum>p\<leftarrow>ps. pm_amount p)
    \<and> db_blocks (foldl refund_one d ps) = db_blocks d \<and> db_shares (foldl refund_one d ps) = db_shares d
    \<and> db_payments (foldl refund_one d ps) = db_payments d"
  using assms
proof (induction ps arbitrary: d)
  case (Cons p ps)
  have "books (refund_one d p)" using Cons.prems by (simp add: refund_one_def books_credit)
  moreover have "accounted (refund_one d p) = accounted d + pm_amount p"
    by (simp add: refund_one_def accounted_upsert accounted_add_change)
  ultimately show ?case using Cons.IH [of "refund_one d p"] Cons.prems(2) by (simp add: refund_one_def)
qed simp

lemma accounted_fail_batch:
  "accounted (fail_batch batch_id d) = accounted d - (\<Sum>p\<leftarrow>filter (in_flight batch_id) (db_payments d). pm_amount p)"
proof -
  have "(\<Sum>p\<leftarrow>map (\<lambda>p. if in_flight batch_id p then p\<lparr>pm_status := Failed\<rparr> else p) ps.
          if pm_status p = Failed then 0 else pm_amount p)
      = (\<Sum>p\<leftarrow>ps. if pm_status p = Failed then 0 else pm_amount p)
        - (\<Sum>p\<leftarrow>filter (in_flight batch_id) ps. pm_amount p)" for ps
    by (induction ps) (auto simp: in_flight_def)
  then show ?thesis by (simp add: money_defs fail_batch_def)
qed

definition payments_nonneg :: "db \<Rightarrow> bool" where
  "payments_nonneg d \<longleftrightarrow> (\<forall>p \<in> set (db_payments d). 0 \<le> pm_amount p)"

lemma refund_batch_moves:
  assumes "books d" and "payments_nonneg d"
  shows "books (fst (refund_batch out d batch_id)) \<and> accounted (fst (refund_batch out d batch_id)) = accounted d
    \<and> db_blocks (fst (refund_batch out d batch_id)) = db_blocks d
    \<and> db_shares (fst (refund_batch out d batch_id)) = db_shares d"
proof -
  define rows where "rows = filter (in_flight batch_id) (db_payments d)"
  define d' where "d' = fail_batch batch_id (foldl refund_one d rows)"
  have nn: "\<And>p. p \<in> set rows \<Longrightarrow> 0 \<le> pm_amount p" using assms(2) by (simp add: rows_def payments_nonneg_def)
  note f = refund_fold [OF assms(1), of rows, OF nn]
  have "books d'" using f by (auto simp: d'_def intro: books_frame [rotated 2])
  moreover have "accounted d' = accounted d" using f by (simp add: d'_def accounted_fail_batch rows_def)
  moreover have "fst (refund_batch out d batch_id) \<in> {d, d'}"
    by (cases out) (auto simp: refund_batch_def finish_tx_def d'_def rows_def Let_def)
  ultimately show ?thesis using f assms by (auto simp: d'_def)
qed


lemma pay_fold_payments:
  "payments_nonneg (fst st) \<Longrightarrow> (\<And>m s. (m, s) \<in> set cs \<Longrightarrow> 0 \<le> s) \<Longrightarrow>
   payments_nonneg (fst (foldl (pay_one validate pool batch_id now) st cs))"
proof (induction cs arbitrary: st)
  case (Cons c cs)
  have "0 \<le> snd c" using Cons.prems(2) [of "fst c" "snd c"] by simp
  then have "payments_nonneg (fst (pay_one validate pool batch_id now st c))"
    using Cons.prems(1)
    by (cases st; cases c)
      (auto simp: pay_one_def payments_nonneg_def Let_def add_change_def deduct_def split: option.splits)
  then show ?case by (auto intro!: Cons.IH Cons.prems(2))
qed simp

lemma payments_nonneg_steps:
  assumes "books d" and "payments_nonneg d"
  shows "payments_nonneg (fst (begin_payout out d pool min_sats batch_id now validate))"
    and "payments_nonneg (fst (mark_payments_sent out d batch_id txid))"
    and "payments_nonneg (fst (refund_batch out d batch_id))"
proof -
  have "0 \<le> s" if "(m, s) \<in> set (payable d pool min_sats)" for m s
    using payable_candidates(2) [OF assms(1) that] assms(1) by (auto simp: books_balances)
  then have "payments_nonneg (fst (foldl (pay_one validate pool batch_id now) (d, []) (payable d pool min_sats)))"
    using assms(2) by (intro pay_fold_payments) auto
  moreover have "fst (begin_payout out d pool min_sats batch_id now validate)
      \<in> {d, fst (foldl (pay_one validate pool batch_id now) (d, []) (payable d pool min_sats))}"
    by (cases out) (auto simp: begin_payout_def finish_tx_def split: prod.splits)
  ultimately show "payments_nonneg (fst (begin_payout out d pool min_sats batch_id now validate))"
    using assms(2) by auto
  show "payments_nonneg (fst (mark_payments_sent out d batch_id txid))"
    using assms(2) by (cases out) (auto simp: mark_payments_sent_def finish_tx_def payments_nonneg_def)
  have "db_payments (foldl refund_one d (filter (in_flight batch_id) (db_payments d))) = db_payments d"
    using refund_fold [OF assms(1), of "filter (in_flight batch_id) (db_payments d)"] assms(2)
    by (simp add: payments_nonneg_def)
  then show "payments_nonneg (fst (refund_batch out d batch_id))"
    using assms(2)
    by (cases out) (auto simp: refund_batch_def finish_tx_def payments_nonneg_def fail_batch_def Let_def)
qed

subsection \<open>Every history of the accounting\<close>

text \<open>The operations the share writer, the reward processor and the payout processor apply to the
  database, for any pool, in any order and with any transaction outcome.\<close>

inductive ledger_step :: "db \<Rightarrow> db \<Rightarrow> bool" where
  SharesArrive: "ledger_step d (d\<lparr>db_shares := db_shares d @ rows\<rparr>)"
| BlockFound: "br_id r \<notin> br_id ` set (db_blocks d) \<Longrightarrow> \<not> br_rewarded r \<Longrightarrow> 0 \<le> br_reward_sats r \<Longrightarrow>
    ledger_step d (d\<lparr>db_blocks := db_blocks d @ [r]\<rparr>)"
| ConfirmationUpdated: "ledger_step d (update_block_confirmation d bid status confs progress)"
| BlockCredited: "r \<in> set (db_blocks d) \<Longrightarrow> apply_fee (br_reward_sats r) fee_percent = (paid, fee) \<Longrightarrow>
    calculate calc (db_source fails d) (to_reward_block r) paid = Inr credits \<Longrightarrow>
    ledger_step d (fst (credit_block_rewards out d (to_reward_block r) credits fee))"
| PayoutBegun: "ledger_step d (fst (begin_payout out d pool min_sats batch_id now validate))"
| PayoutSent: "ledger_step d (fst (mark_payments_sent out d batch_id txid))"
| PayoutRefunded: "ledger_step d (fst (refund_batch out d batch_id))"

definition empty_db :: db where
  "empty_db = \<lparr>db_shares = [], db_blocks = [], db_balances = [], db_changes = [], db_payments = []\<rparr>"

text \<open>Every reward is small enough, against the number of miners, for the float split to be exact:
  \<open>2 ^ 52\<close> base units bound reward times miners.\<close>

definition rewards_bounded :: "db \<Rightarrow> bool" where
  "rewards_bounded d \<longleftrightarrow>
     (\<forall>r \<in> set (db_blocks d). br_reward_sats r * (int (card (share_miners d)) + 3) \<le> 2 ^ 52)"

definition ledger_inv :: "db \<Rightarrow> bool" where
  "ledger_inv d \<longleftrightarrow> books d \<and> payments_nonneg d \<and> distinct (map br_id (db_blocks d))
     \<and> (\<forall>r \<in> set (db_blocks d). 0 \<le> br_reward_sats r) \<and> accounted d = rewarded_total d"

lemma same_blocks_facts:
  assumes "same_blocks d d'"
  shows "map br_id (db_blocks d') = map br_id (db_blocks d)"
    and "(\<forall>r \<in> set (db_blocks d'). P (br_reward_sats r)) \<longleftrightarrow> (\<forall>r \<in> set (db_blocks d). P (br_reward_sats r))"
proof -
  have e: "map (\<lambda>r. (br_id r, br_reward_sats r)) (db_blocks d') = map (\<lambda>r. (br_id r, br_reward_sats r)) (db_blocks d)"
    using assms by (simp add: same_blocks_def)
  have "map fst (map (\<lambda>r. (br_id r, br_reward_sats r)) (db_blocks d')) = map br_id (db_blocks d')" for d'
    by simp
  with e show "map br_id (db_blocks d') = map br_id (db_blocks d)" by metis
  have "(\<forall>r \<in> set (db_blocks d). P (br_reward_sats r))
      \<longleftrightarrow> (\<forall>x \<in> set (map (\<lambda>r. (br_id r, br_reward_sats r)) (db_blocks d)). P (snd x))" for d
    by auto
  with e show "(\<forall>r \<in> set (db_blocks d'). P (br_reward_sats r)) \<longleftrightarrow> (\<forall>r \<in> set (db_blocks d). P (br_reward_sats r))"
    by metis
qed

lemma update_confirmation_same:
  "same_blocks d (update_block_confirmation d bid status confs progress)"
  "rewarded_total (update_block_confirmation d bid status confs progress) = rewarded_total d"
proof -
  show "same_blocks d (update_block_confirmation d bid status confs progress)"
    by (auto simp: same_blocks_def update_block_confirmation_def)
  have "(\<Sum>r\<leftarrow>map (\<lambda>r. if br_id r = bid
          then r\<lparr>br_status := status, br_confirmations := confs, br_progress := progress\<rparr> else r) rs.
          if br_rewarded r then br_reward_sats r else 0)
      = (\<Sum>r\<leftarrow>rs. if br_rewarded r then br_reward_sats r else 0)" for rs
    by (induction rs) auto
  then show "rewarded_total (update_block_confirmation d bid status confs progress) = rewarded_total d"
    by (simp add: rewarded_total_def update_block_confirmation_def)
qed

lemma rewards_bounded_same:
  assumes "same_blocks d d'" and "db_shares d' = db_shares d"
  shows "rewards_bounded d' \<longleftrightarrow> rewards_bounded d"
  using same_blocks_facts(2) [OF assms(1), of "\<lambda>x. x * (int (card (share_miners d)) + 3) \<le> 2 ^ 52"] assms(2)
  by (simp add: rewards_bounded_def share_miners_def)


lemma credit_step_amounts:
  assumes inv: "ledger_inv d" "rewards_bounded d" and r: "r \<in> set (db_blocks d)"
    and f: "apply_fee (br_reward_sats r) fee_percent = (paid, fee)"
    and c: "calculate calc (db_source fails d) (to_reward_block r) paid = Inr credits"
  shows "(\<Sum>c\<leftarrow>credits. cr_amount c) + fee = br_reward_sats r" and "0 \<le> fee"
    and "\<forall>c \<in> set credits. 0 \<le> cr_amount c"
proof -
  define n where "n = int (card (share_miners d)) + 3"
  have n: "3 \<le> n" by (simp add: n_def)
  have r0: "0 \<le> br_reward_sats r" and rn: "br_reward_sats r * n \<le> 2 ^ 52"
    using inv r by (simp_all add: ledger_inv_def rewards_bounded_def n_def)
  have "br_reward_sats r * 3 \<le> br_reward_sats r * n" using r0 n by (intro mult_left_mono) simp_all
  with rn have r51: "br_reward_sats r \<le> 2 ^ 51" by simp
  have fee: "paid + fee = br_reward_sats r" "0 \<le> paid" "0 \<le> fee"
    using apply_fee_split [of "br_reward_sats r" fee_percent] apply_fee_bounds [OF r0 r51, of fee_percent] f
    by simp_all
  show "0 \<le> fee" by (rule fee(3))
  have "paid * n \<le> br_reward_sats r * n" using fee n by (intro mult_right_mono) simp_all
  with rn have pn: "paid * n \<le> 2 ^ 52" by simp
  have "(\<Sum>c\<leftarrow>credits. cr_amount c) = paid \<and> (\<forall>c \<in> set credits. 0 \<le> cr_amount c)"
  proof (cases "0 < paid")
    case True
    then show ?thesis using db_src.calculate_exact [OF c True] pn by (auto simp: n_def less_imp_le)
  next
    case False
    then show ?thesis using db_src.calculate_nothing [OF c] fee(2) by simp
  qed
  then show "(\<Sum>c\<leftarrow>credits. cr_amount c) + fee = br_reward_sats r" and "\<forall>c \<in> set credits. 0 \<le> cr_amount c"
    using fee(1) by simp_all
qed

lemma ledger_inv_same:
  assumes "ledger_inv d" and "books d'" and "payments_nonneg d'" and "same_blocks d d'"
    and "accounted d' - rewarded_total d' = accounted d - rewarded_total d"
  shows "ledger_inv d'"
  using assms same_blocks_facts [OF assms(4)] by (auto simp: ledger_inv_def)

lemma same_blocks_refl: "db_blocks d' = db_blocks d \<Longrightarrow> same_blocks d d'"
  by (simp add: same_blocks_def)

lemma credit_frame:
  "same_blocks d (fst (credit_block_rewards out d b cs fee))
   \<and> db_shares (fst (credit_block_rewards out d b cs fee)) = db_shares d
   \<and> db_payments (fst (credit_block_rewards out d b cs fee)) = db_payments d"
proof -
  have f: "db_blocks (foldl (credit_miner b) d cs) = db_blocks d \<and> db_shares (foldl (credit_miner b) d cs) = db_shares d
      \<and> db_payments (foldl (credit_miner b) d cs) = db_payments d"
    by (induction cs arbitrary: d) (simp_all add: credit_miner_def)
  define d2 where "d2 = (if 0 < fee then add_change (foldl (credit_miner b) d cs) (rb_pool b) [] fee PoolFee (rb_height b)
      else foldl (credit_miner b) d cs)"
  have "same_blocks d (mark_rewarded (rb_id b) d2)" "db_shares d2 = db_shares d" "db_payments d2 = db_payments d"
    using f by (auto simp: same_blocks_def mark_rewarded_def d2_def)
  moreover have "fst (credit_block_rewards out d b cs fee) \<in> {d, mark_rewarded (rb_id b) d2}"
    by (cases out) (auto simp: credit_block_rewards_def finish_tx_def d2_def Let_def split: list.splits)
  ultimately show ?thesis by (auto simp: same_blocks_def)
qed

lemma payout_frame:
  "db_blocks (fst (begin_payout out d pool min_sats batch_id now validate)) = db_blocks d
   \<and> db_shares (fst (begin_payout out d pool min_sats batch_id now validate)) = db_shares d"
proof -
  have "db_blocks (fst (foldl (pay_one validate pool batch_id now) st cs)) = db_blocks (fst st)
      \<and> db_shares (fst (foldl (pay_one validate pool batch_id now) st cs)) = db_shares (fst st)" for st cs
  proof (induction cs arbitrary: st)
    case (Cons c cs)
    have "db_blocks (fst (pay_one validate pool batch_id now st c)) = db_blocks (fst st)
        \<and> db_shares (fst (pay_one validate pool batch_id now st c)) = db_shares (fst st)"
      by (auto simp: pay_one_def Let_def split: prod.split option.split)
    then show ?case using Cons.IH by simp
  qed simp
  note f = this [of "(d, [])" "payable d pool min_sats"]
  show ?thesis using f by (cases out) (auto simp: begin_payout_def finish_tx_def split: prod.splits)
qed

lemma mark_sent_frame:
  "db_blocks (fst (mark_payments_sent out d batch_id txid)) = db_blocks d
   \<and> db_shares (fst (mark_payments_sent out d batch_id txid)) = db_shares d"
  by (cases out) (auto simp: mark_payments_sent_def finish_tx_def)

lemma refund_frame:
  "db_blocks (fst (refund_batch out d batch_id)) = db_blocks d
   \<and> db_shares (fst (refund_batch out d batch_id)) = db_shares d"
proof -
  have "db_blocks (foldl refund_one d ps) = db_blocks d \<and> db_shares (foldl refund_one d ps) = db_shares d" for ps
    by (induction ps arbitrary: d) (simp_all add: refund_one_def)
  then show ?thesis by (cases out) (auto simp: refund_batch_def finish_tx_def Let_def)
qed

lemma ledger_step_frame:
  assumes "ledger_step d d'"
  shows "(same_blocks d d' \<and> db_shares d' = db_shares d)
    \<or> (\<exists>rows. d' = d\<lparr>db_shares := db_shares d @ rows\<rparr>)
    \<or> (\<exists>r. d' = d\<lparr>db_blocks := db_blocks d @ [r]\<rparr> \<and> 0 \<le> br_reward_sats r)"
  using assms
proof cases
  case (ConfirmationUpdated bid status confs progress)
  then show ?thesis using update_confirmation_same(1) by (simp add: update_block_confirmation_def)
next
  case (BlockCredited r fee_percent paid fee calc fails credits out)
  then show ?thesis using credit_frame by blast
next
  case (PayoutBegun out pool min_sats batch_id now validate)
  then show ?thesis using payout_frame same_blocks_refl by blast
next
  case (PayoutSent out batch_id txid)
  then show ?thesis using mark_sent_frame same_blocks_refl by blast
next
  case (PayoutRefunded out batch_id)
  then show ?thesis using refund_frame same_blocks_refl by blast
qed blast+

definition rewards_nonneg :: "db \<Rightarrow> bool" where
  "rewards_nonneg d \<longleftrightarrow> (\<forall>r \<in> set (db_blocks d). 0 \<le> br_reward_sats r)"

lemma rewards_nonneg_step: "ledger_step d d' \<Longrightarrow> rewards_nonneg d \<Longrightarrow> rewards_nonneg d'"
  using ledger_step_frame [of d d'] same_blocks_facts(2) [of d d' "\<lambda>x. 0 \<le> x"]
  by (auto simp: rewards_nonneg_def)

lemma rewards_bounded_back:
  assumes "ledger_step d d'" and "rewards_bounded d'" and inv: "rewards_nonneg d"
  shows "rewards_bounded d"
proof -
  from ledger_step_frame [OF assms(1)] consider (same) "same_blocks d d'" "db_shares d' = db_shares d"
    | (shares) rows where "d' = d\<lparr>db_shares := db_shares d @ rows\<rparr>"
    | (block) r where "d' = d\<lparr>db_blocks := db_blocks d @ [r]\<rparr>"
    by blast
  then show ?thesis
  proof cases
    case same
    then show ?thesis using rewards_bounded_same assms(2) by blast
  next
    case shares
    have "share_miners d \<subseteq> share_miners d'" by (auto simp: share_miners_def shares)
    then have c: "card (share_miners d) \<le> card (share_miners d')"
      by (rule card_mono [rotated]) (simp add: share_miners_def)
    show ?thesis unfolding rewards_bounded_def
    proof
      fix r assume r: "r \<in> set (db_blocks d)"
      then have "br_reward_sats r * (int (card (share_miners d)) + 3) \<le> br_reward_sats r * (int (card (share_miners d')) + 3)"
        using inv c by (intro mult_left_mono) (auto simp: rewards_nonneg_def)
      also have "\<dots> \<le> 2 ^ 52" using assms(2) r by (simp add: rewards_bounded_def shares)
      finally show "br_reward_sats r * (int (card (share_miners d)) + 3) \<le> 2 ^ 52" .
    qed
  next
    case block
    then show ?thesis using assms(2) by (auto simp: rewards_bounded_def share_miners_def)
  qed
qed

lemma ledger_inv_unrewarding:
  assumes "ledger_inv d" and "books d'" and "payments_nonneg d'" and "db_blocks d' = db_blocks d"
    and "accounted d' = accounted d"
  shows "ledger_inv d'"
  using assms by (simp add: ledger_inv_def rewarded_total_def)

lemma ledger_step_inv:
  assumes "ledger_step d d'" and inv: "ledger_inv d" and "rewards_bounded d'"
  shows "ledger_inv d'"
proof -
  have b: "books d" "payments_nonneg d" "distinct (map br_id (db_blocks d))" using inv by (simp_all add: ledger_inv_def)
  have rb: "rewards_bounded d"
    using inv by (intro rewards_bounded_back [OF assms(1,3)]) (simp add: ledger_inv_def rewards_nonneg_def)
  from assms(1) show ?thesis
  proof cases
    case (SharesArrive rows)
    then show ?thesis using inv
      by (auto simp: ledger_inv_def money_defs payments_nonneg_def intro: books_frame)
  next
    case (BlockFound r)
    then show ?thesis using inv
      by (auto simp: ledger_inv_def money_defs payments_nonneg_def intro: books_frame)
  next
    case (ConfirmationUpdated bid status confs progress)
    have "books d'" using b(1) by (rule books_frame [rotated 2]) (simp_all add: ConfirmationUpdated update_block_confirmation_def)
    moreover have "accounted d' = accounted d"
      by (simp add: money_defs ConfirmationUpdated update_block_confirmation_def)
    moreover have "payments_nonneg d'" using b(2)
      by (simp add: payments_nonneg_def ConfirmationUpdated update_block_confirmation_def)
    moreover have "same_blocks d d'" "rewarded_total d' = rewarded_total d"
      unfolding ConfirmationUpdated by (rule update_confirmation_same)+
    ultimately show ?thesis using ledger_inv_same [OF inv, of d'] by simp
  next
    case (BlockCredited r fee_percent paid fee calc fails credits out)
    have id: "rb_id (to_reward_block r) = br_id r" by (simp add: to_reward_block_def)
    note a = credit_step_amounts [OF inv rb BlockCredited(2-4)]
    note m = credit_block_rewards_moves [OF b(1,3) BlockCredited(2) id a(3) [rule_format] a(2,1), of out,
        folded BlockCredited(1)]
    have "payments_nonneg d'" unfolding BlockCredited(1) payments_nonneg_def
      using credit_frame [of d out "to_reward_block r" credits fee] b(2) by (simp add: payments_nonneg_def)
    with m show ?thesis using ledger_inv_same [OF inv, of d'] by blast
  next
    case (PayoutBegun out pool min_sats batch_id now validate)
    note m = begin_payout_moves [OF b(1), of out pool min_sats batch_id now validate, folded PayoutBegun]
    show ?thesis
      using ledger_inv_unrewarding [OF inv, of d'] m payments_nonneg_steps(1) [OF b(1,2)] by (simp add: PayoutBegun)
  next
    case (PayoutSent out batch_id txid)
    note m = mark_sent_moves [OF b(1), of out batch_id txid, folded PayoutSent]
    show ?thesis
      using ledger_inv_unrewarding [OF inv, of d'] m payments_nonneg_steps(2) [OF b(1,2)] by (simp add: PayoutSent)
  next
    case (PayoutRefunded out batch_id)
    note m = refund_batch_moves [OF b(1,2), of out batch_id, folded PayoutRefunded]
    show ?thesis
      using ledger_inv_unrewarding [OF inv, of d'] m payments_nonneg_steps(3) [OF b(1,2)] by (simp add: PayoutRefunded)
  qed
qed

lemma ledger_inv_reachable:
  "ledger_step\<^sup>*\<^sup>* empty_db d \<Longrightarrow> rewards_nonneg d \<and> (rewards_bounded d \<longrightarrow> ledger_inv d)"
proof (induction rule: rtranclp_induct)
  case base
  show ?case
    by (simp add: ledger_inv_def empty_db_def books_def keys_def miner_balance_def money_defs payments_nonneg_def
      rewards_nonneg_def)
next
  case (step d d')
  then show ?case using rewards_nonneg_step rewards_bounded_back ledger_step_inv by blast
qed

text \<open>
  C1: no money is created or lost. After any history of shares, blocks, confirmations, reward
  credits with any scheme and fee, payouts, sends and refunds, over any pools, with any
  transaction failing or committing unseen: the rewards of the credited blocks are exactly the
  miners' balances plus the payments sent or in flight plus the pool fees.
\<close>

theorem money_conserved:
  assumes "ledger_step\<^sup>*\<^sup>* empty_db d" and "rewards_bounded d"
  shows "balances_total d + paid_total d + fee_total d = rewarded_total d"
  using ledger_inv_reachable [OF assms(1)] assms(2) by (simp add: ledger_inv_def accounted_def)

text \<open>
  C14: the balance sheet is sound after any such history: no balance is negative, a miner has one
  balance row per pool, and every balance is the sum of that miner's rows in the audit trail.
\<close>

theorem balances_audited:
  assumes "ledger_step\<^sup>*\<^sup>* empty_db d" and "rewards_bounded d"
  shows "0 \<le> miner_balance d p m \<and> miner_balance d p m = audit_trail d p m
    \<and> distinct (map (\<lambda>r. (bl_pool r, bl_miner r)) (db_balances d))"
proof -
  have "books d" using ledger_inv_reachable [OF assms(1)] assms(2) by (simp add: ledger_inv_def)
  then show ?thesis unfolding books_balances keys_def by blast
qed

text \<open>One block of 1000 units at 1 percent, found by \<open>a\<close>: credited, paid out and sent.\<close>

definition sample_block :: block_row where
  "sample_block = \<lparr>br_id = 1, br_pool = ''btc'', br_height = 840000, br_net_diff = 5, br_status = Confirmed,
     br_progress = 1, br_confirmations = 100, br_miner = ''a'', br_worker = [], br_hash = [], br_source = [], br_reward_sats = 1000,
     br_rewarded = False, br_created = 40\<rparr>"

definition history1 :: db where
  "history1 = empty_db\<lparr>db_blocks := db_blocks empty_db @ [sample_block]\<rparr>"

definition history2 :: db where
  "history2 = fst (credit_block_rewards TxCommitted history1 (to_reward_block sample_block)
     [\<lparr>cr_miner = ''a'', cr_amount = 990\<rparr>] 10)"

definition history3 :: db where
  "history3 = fst (begin_payout TxCommitted history2 ''btc'' 500 ''b1'' 50 Some)"

lemma history_begins: "ledger_step empty_db history1" and history_credits: "ledger_step history1 history2"
proof -
  show "ledger_step empty_db history1"
    unfolding history1_def by (rule BlockFound) (simp_all add: empty_db_def sample_block_def)
  show "ledger_step history1 history2"
    unfolding history2_def
  proof (rule BlockCredited [of sample_block history1 1 990 10 Solo "\<lambda>q. False"])
    show "apply_fee (br_reward_sats sample_block) 1 = (990, 10)" by code_simp
  qed (simp_all add: history1_def sample_block_def calculate_def solo_calculate_def to_reward_block_def)
qed

lemma history_prefix: "ledger_step\<^sup>*\<^sup>* empty_db history2"
  using history_begins history_credits by (meson rtranclp.rtrancl_into_rtrancl rtranclp.rtrancl_refl)

lemma history_steps: "ledger_step\<^sup>*\<^sup>* empty_db history3"
  using history_prefix PayoutBegun unfolding history3_def by (rule rtranclp.rtrancl_into_rtrancl)

lemma history2_books: "books history2"
proof -
  have "rewards_bounded history2" by code_simp
  then show ?thesis using ledger_inv_reachable [OF history_prefix] by (simp add: ledger_inv_def)
qed

lemma history_bounded: "rewards_bounded history3"
  by code_simp

theorem money_conserved_witness:
  "balances_total history3 + paid_total history3 + fee_total history3 = 1000 \<and> paid_total history3 = 990"
proof -
  have "rewarded_total history3 = 1000" "paid_total history3 = 990" by code_simp+
  with money_conserved [OF history_steps history_bounded] show ?thesis by simp
qed

theorem balances_audited_witness:
  "miner_balance history3 ''btc'' ''a'' = 0 \<and> audit_trail history3 ''btc'' ''a'' = 0"
proof -
  have "miner_balance history3 ''btc'' ''a'' = 0" by code_simp
  with balances_audited [OF history_steps history_bounded, of "''btc''" "''a''"] show ?thesis by simp
qed

end
