(* ===== verification/Queries.thy ===== *)
theory Queries
  imports Ledger
begin

text \<open>
  The remaining statements of \<open>internal/storage/postgres\<close>: the insert of a found block
  (\<open>sharewriter.go\<close>) and the reads of the API (\<open>queries.go\<close>, \<open>ListPayments\<close> of \<open>payouts.go\<close>). Ties of an
  \<open>ORDER BY\<close> keep the order of the table. That a statement may fail is left to the callers.
\<close>

text \<open>The row's id is the next value of the table's sequence.\<close>

definition insert_block :: "int \<Rightarrow> block_row \<Rightarrow> db \<Rightarrow> db" where
  "insert_block next_id b d =
     (if (br_pool b, br_height b, br_hash b) \<in> set (map (\<lambda>r. (br_pool r, br_height r, br_hash r)) (db_blocks d)) then d
      else d\<lparr>db_blocks := db_blocks d @
        [b\<lparr>br_id := next_id, br_status := Pending, br_progress := 0, br_confirmations := 0, br_rewarded := False\<rparr>]\<rparr>)"

definition clamp_limit :: "int \<Rightarrow> nat" where
  "clamp_limit limit = nat (if limit \<le> 0 \<or> limit > 500 then 50 else limit)"

definition clamp_offset :: "int \<Rightarrow> nat" where
  "clamp_offset offset = nat (if offset < 0 then 0 else offset)"

text \<open>The columns the API shows.\<close>

record block_view =
  bw_id :: int
  bw_pool :: string
  bw_height :: int
  bw_net_diff :: f64
  bw_status :: block_status
  bw_miner :: string
  bw_worker :: string
  bw_hash :: string
  bw_source :: string
  bw_created :: int

definition block_view_of :: "block_row \<Rightarrow> block_view" where
  "block_view_of b =
     \<lparr>bw_id = br_id b, bw_pool = br_pool b, bw_height = br_height b, bw_net_diff = br_net_diff b, bw_status = br_status b,
      bw_miner = br_miner b, bw_worker = br_worker b, bw_hash = br_hash b, bw_source = br_source b, bw_created = br_created b\<rparr>"

record payment_view =
  mw_id :: int
  mw_miner :: string
  mw_address :: string
  mw_amount :: int
  mw_txid :: string
  mw_status :: payment_status
  mw_created :: int

definition payment_view_of :: "payment_row \<Rightarrow> payment_view" where
  "payment_view_of p =
     \<lparr>mw_id = pm_id p, mw_miner = pm_miner p, mw_address = pm_address p, mw_amount = pm_amount p, mw_txid = pm_txid p,
      mw_status = pm_status p, mw_created = pm_created p\<rparr>"

definition list_blocks :: "db \<Rightarrow> string \<Rightarrow> int \<Rightarrow> int \<Rightarrow> block_view list" where
  "list_blocks d pool limit offset =
     map block_view_of (take (clamp_limit limit) (drop (clamp_offset offset)
       (sort_key (\<lambda>r. - br_created r) (filter (\<lambda>r. br_pool r = pool) (db_blocks d)))))"

definition list_payments :: "db \<Rightarrow> string \<Rightarrow> string \<Rightarrow> int \<Rightarrow> int \<Rightarrow> payment_view list" where
  "list_payments d pool miner limit offset =
     map payment_view_of (take (clamp_limit limit) (drop (clamp_offset offset)
       (sort_key (\<lambda>r. - pm_created r)
         (filter (\<lambda>r. pm_pool r = pool \<and> (miner \<noteq> [] \<longrightarrow> pm_miner r = miner)) (db_payments d)))))"

record work_row =
  wr_name :: string
  wr_shares :: nat
  wr_diff_sum :: f64
  wr_hashrate :: f64
  wr_last_share :: int

definition effective_window :: "int \<Rightarrow> int" where
  "effective_window window = (if window \<le> 0 then 3600000000000 else window)"

definition group_row :: "(share_row \<Rightarrow> string) \<Rightarrow> int \<Rightarrow> share_row list \<Rightarrow> string \<Rightarrow> work_row" where
  "group_row by_name window rows x =
     (let mine = filter (\<lambda>s. by_name s = x) rows; diffs = foldl fadd 0 (map sh_diff mine)
      in \<lparr>wr_name = x, wr_shares = length mine, wr_diff_sum = diffs,
          wr_hashrate = fdiv (fmul diffs 4294967296) (seconds window),
          wr_last_share = Max (set (map sh_created mine))\<rparr>)"

text \<open>\<open>GROUP BY ... ORDER BY SUM(difficulty) DESC\<close>.\<close>

definition grouped_rows :: "(share_row \<Rightarrow> string) \<Rightarrow> int \<Rightarrow> share_row list \<Rightarrow> work_row list" where
  "grouped_rows by_name window rows =
     sort_key (\<lambda>w. - wr_diff_sum w) (map (group_row by_name window rows) (remdups (map by_name rows)))"

definition top_miners :: "int \<Rightarrow> db \<Rightarrow> string \<Rightarrow> int \<Rightarrow> int \<Rightarrow> work_row list" where
  "top_miners now d pool window0 limit =
     (let window = effective_window window0
      in take (clamp_limit limit) (grouped_rows sh_miner window
           (filter (\<lambda>s. sh_pool s = pool \<and> sh_created s \<ge> now - window) (db_shares d))))"

definition miner_workers :: "int \<Rightarrow> db \<Rightarrow> string \<Rightarrow> string \<Rightarrow> int \<Rightarrow> work_row list" where
  "miner_workers now d pool miner window0 =
     (let window = effective_window window0
      in grouped_rows sh_worker window
           (filter (\<lambda>s. sh_pool s = pool \<and> sh_miner s = miner \<and> sh_created s \<ge> now - window) (db_shares d)))"

lemma clamp_limit_bounds: "1 \<le> clamp_limit limit \<and> clamp_limit limit \<le> 500"
  by (auto simp: clamp_limit_def)

text \<open>A found block is one the ledger knows how to receive, once.\<close>

lemma insert_block_step:
  assumes "next_id \<notin> br_id ` set (db_blocks d)" and "0 \<le> br_reward_sats b"
  shows "insert_block next_id b d = d \<or> ledger_step d (insert_block next_id b d)"
  using assms by (auto simp: insert_block_def intro: BlockFound)

lemma insert_block_again: "insert_block i b (insert_block j b d) = insert_block j b d"
  by (auto simp: insert_block_def)

lemma grouped_rows_names:
  "distinct (map wr_name (grouped_rows by_name window rows))"
  "set (map wr_name (grouped_rows by_name window rows)) = by_name ` set rows"
proof -
  let ?g = "map (group_row by_name window rows) (remdups (map by_name rows))"
  have n: "map wr_name ?g = remdups (map by_name rows)" by (simp add: group_row_def comp_def Let_def)
  have m: "mset (map wr_name (grouped_rows by_name window rows)) = mset (map wr_name ?g)"
    by (simp only: grouped_rows_def mset_map mset_sort)
  have "distinct (map wr_name ?g)" unfolding n by simp
  then show "distinct (map wr_name (grouped_rows by_name window rows))"
    using m by (metis mset_eq_imp_distinct_iff)
  show "set (map wr_name (grouped_rows by_name window rows)) = by_name ` set rows"
    using mset_eq_setD [OF m] unfolding n by simp
qed

lemma grouped_rows_row: "w \<in> set (grouped_rows by_name window rows) \<Longrightarrow> w = group_row by_name window rows (wr_name w)"
  by (auto simp: grouped_rows_def group_row_def Let_def)

lemma grouped_rows_sorted: "sorted (map (\<lambda>w. - wr_diff_sum w) (grouped_rows by_name window rows))"
  by (simp add: grouped_rows_def)

text \<open>
  The miner ranking is the ranking. \<open>TopMiners\<close> lists at most 500 miners, each once and each with the number,
  the float sum and the latest of exactly its shares of the pool in the window, the largest sums first;
  a miner that has shares in the window and is not listed has no larger a sum than any that is.
\<close>

theorem top_miners_ranked:
  fixes now window limit :: int and d :: db and pool :: string
  defines "rows \<equiv> filter (\<lambda>s. sh_pool s = pool \<and> sh_created s \<ge> now - effective_window window) (db_shares d)"
    and "ws \<equiv> top_miners now d pool window limit"
  shows "length ws \<le> 500 \<and> distinct (map wr_name ws)
    \<and> (\<forall>w \<in> set ws. wr_name w \<in> sh_miner ` set rows \<and> w = group_row sh_miner (effective_window window) rows (wr_name w))
    \<and> (\<forall>i j. i < j \<and> j < length ws \<longrightarrow> wr_diff_sum (ws ! j) \<le> wr_diff_sum (ws ! i))
    \<and> (\<forall>m \<in> sh_miner ` set rows. m \<notin> wr_name ` set ws \<longrightarrow>
         (\<forall>w \<in> set ws. wr_diff_sum (group_row sh_miner (effective_window window) rows m) \<le> wr_diff_sum w))"
proof -
  let ?g = "grouped_rows sh_miner (effective_window window) rows" and ?n = "clamp_limit limit"
  have ws: "ws = take ?n ?g" by (simp add: ws_def top_miners_def rows_def Let_def)
  have sub: "set ws \<subseteq> set ?g" unfolding ws by (rule set_take_subset)
  have sorted: "wr_diff_sum (?g ! j) \<le> wr_diff_sum (?g ! i)" if "i < j" "j < length ?g" for i j
    using sorted_nth_mono [OF grouped_rows_sorted, of i j sh_miner "effective_window window" rows] that by simp
  have "wr_diff_sum (group_row sh_miner (effective_window window) rows m) \<le> wr_diff_sum w"
    if m: "m \<in> sh_miner ` set rows" "m \<notin> wr_name ` set ws" and w: "w \<in> set ws" for m w
  proof -
    have "m \<in> wr_name ` set ?g" using m(1) grouped_rows_names(2) [of sh_miner "effective_window window" rows] by simp
    then obtain v where v: "v \<in> set ?g" "wr_name v = m" by blast
    then obtain j where j: "j < length ?g" "?g ! j = v" by (auto simp: in_set_conv_nth)
    obtain i where i: "i < length ws" "ws ! i = w" using w by (auto simp: in_set_conv_nth)
    have "?n \<le> j" using m(2) v(2) j by (force simp: ws in_set_conv_nth)
    then have "i < j" "?g ! i = w" using i by (auto simp: ws)
    then show ?thesis using sorted [of i j] j grouped_rows_row [OF v(1)] v(2) by simp
  qed
  moreover have "length ws \<le> 500" using clamp_limit_bounds [of limit] by (simp add: ws min_le_iff_disj)
  moreover have "distinct (map wr_name ws)"
    using grouped_rows_names(1) [of sh_miner "effective_window window" rows] by (simp add: ws take_map [symmetric] distinct_take)
  moreover have "wr_name w \<in> sh_miner ` set rows \<and> w = group_row sh_miner (effective_window window) rows (wr_name w)"
    if "w \<in> set ws" for w
  proof -
    have "w \<in> set ?g" using that sub by blast
    moreover have "wr_name ` set ?g = sh_miner ` set rows"
      using grouped_rows_names(2) [of sh_miner "effective_window window" rows] by simp
    ultimately show ?thesis using grouped_rows_row by blast
  qed
  ultimately show ?thesis using sorted by (auto simp: ws)
qed

theorem top_miners_ranked_witness:
  "map wr_name (top_miners 40 sample_db ''btc'' 0 500) = [''a'', ''b''] \<and> length (top_miners 40 sample_db ''btc'' 0 500) \<le> 500
    \<and> wr_diff_sum (top_miners 40 sample_db ''btc'' 0 500 ! 1) \<le> wr_diff_sum (top_miners 40 sample_db ''btc'' 0 500 ! 0)"
proof -
  have f: "fadd 0 8 = 8" "fadd 8 4 = 12"
    using f64.rnd_of_int [of 8] f64.rnd_of_int [of 12] by (simp_all add: fadd_def)
  have n: "map wr_name (top_miners 40 sample_db ''btc'' 0 500) = [''a'', ''b'']"
    by (simp add: top_miners_def grouped_rows_def group_row_def sample_db_def sample_shares_def Store.sample_share_def
      effective_window_def clamp_limit_def f Let_def)
  then have "length (top_miners 40 sample_db ''btc'' 0 500) = 2" by (metis length_map length_Cons list.size(3) Suc_1 One_nat_def)
  then show ?thesis using n top_miners_ranked [of 40 sample_db "''btc''" 0 500] by simp
qed

end
