(* ===== verification/Stats.thy ===== *)
theory Stats
  imports Jobs "HOL-Library.AList"
begin

text \<open>
  \<open>internal/stats\<close>: the live counters behind the API, fed with every recorded share and block. A Go map
  is an association list with distinct keys; instants are nanoseconds since 1970, after which the clock
  is assumed to be, so that \<open>/\<close> and \<open>%\<close> are \<open>div\<close> and \<open>mod\<close>. Snapshots list workers in the order they
  came, where the code's order is that of a Go map.
\<close>

definition window_minutes :: nat where "window_minutes = 15"
definition max_tracked_miners :: nat where "max_tracked_miners = 10000"

record minute_ring =
  mr_buckets :: "f64 list"
  mr_stamps :: "int list"

definition empty_ring :: minute_ring where
  "empty_ring = \<lparr>mr_buckets = replicate window_minutes 0, mr_stamps = replicate window_minutes 0\<rparr>"

definition unix_minute :: "int \<Rightarrow> int" where
  "unix_minute now = now div 1000000000 div 60"

definition ring_index :: "int \<Rightarrow> nat" where
  "ring_index minute = nat (minute mod int window_minutes)"

definition ring_add :: "minute_ring \<Rightarrow> f64 \<Rightarrow> int \<Rightarrow> minute_ring" where
  "ring_add r diff now =
     (let minute = unix_minute now; idx = ring_index minute;
          r1 = (if mr_stamps r ! idx \<noteq> minute
                then r\<lparr>mr_buckets := (mr_buckets r)[idx := 0], mr_stamps := (mr_stamps r)[idx := minute]\<rparr> else r)
      in r1\<lparr>mr_buckets := (mr_buckets r1)[idx := fadd (mr_buckets r1 ! idx) diff]\<rparr>)"

definition ring_sum :: "minute_ring \<Rightarrow> nat \<Rightarrow> int \<Rightarrow> f64" where
  "ring_sum r n0 now =
     (let n = (if n0 > window_minutes then window_minutes else n0); minute = unix_minute now
      in foldl (\<lambda>acc i. let m = minute - int i; idx = ring_index m
                        in if mr_stamps r ! idx = m then fadd acc (mr_buckets r ! idx) else acc) 0 [0..<n])"

definition pow2x32 :: f64 where "pow2x32 = 4294967296"

definition hashrate :: "f64 \<Rightarrow> int \<Rightarrow> f64" where
  "hashrate diff_sum window = (if window \<le> 0 then 0 else fdiv (fmul diff_sum pow2x32) (seconds window))"

record miner_entry =
  me_ring :: minute_ring
  me_shares :: "64 word"
  me_last_share :: int
  me_workers :: "(string \<times> int) list"

record pool_entry =
  pe_ring :: minute_ring
  pe_shares :: "64 word"
  pe_blocks :: "64 word"
  pe_miners :: "(string \<times> miner_entry) list"

type_synonym collector = "string \<Rightarrow> pool_entry option"

definition new_collector :: collector where "new_collector = Map.empty"

definition empty_pool :: pool_entry where
  "empty_pool = \<lparr>pe_ring = empty_ring, pe_shares = 0, pe_blocks = 0, pe_miners = []\<rparr>"

definition empty_miner :: miner_entry where
  "empty_miner = \<lparr>me_ring = empty_ring, me_shares = 0, me_last_share = 0, me_workers = []\<rparr>"

definition collector_pool :: "collector \<Rightarrow> string \<Rightarrow> pool_entry" where
  "collector_pool c p = (case c p of None \<Rightarrow> empty_pool | Some e \<Rightarrow> e)"

definition cleanup :: "int \<Rightarrow> pool_entry \<Rightarrow> pool_entry" where
  "cleanup now p =
     (let cutoff = now - 2 * int window_minutes * 60000000000
      in p\<lparr>pe_miners := filter (\<lambda>(_, m). \<not> me_last_share m < cutoff) (pe_miners p)\<rparr>)"

definition note_miner :: "int \<Rightarrow> f64 \<Rightarrow> string \<Rightarrow> miner_entry \<Rightarrow> miner_entry" where
  "note_miner now diff worker m =
     m\<lparr>me_shares := me_shares m + 1, me_last_share := now, me_ring := ring_add (me_ring m) diff now,
       me_workers := AList.update worker now (me_workers m)\<rparr>"

definition stats_share :: "int \<Rightarrow> pool_entry \<Rightarrow> string \<Rightarrow> string \<Rightarrow> f64 \<Rightarrow> pool_entry" where
  "stats_share now p0 miner worker diff =
     (let p = p0\<lparr>pe_shares := pe_shares p0 + 1, pe_ring := ring_add (pe_ring p0) diff now\<rparr>
      in case map_of (pe_miners p) miner of
           Some m \<Rightarrow> p\<lparr>pe_miners := AList.update miner (note_miner now diff worker m) (pe_miners p)\<rparr>
         | None \<Rightarrow>
           let p1 = (if length (pe_miners p) \<ge> max_tracked_miners then cleanup now p else p)
           in if length (pe_miners p1) \<ge> max_tracked_miners then p1
              else p1\<lparr>pe_miners := AList.update miner (note_miner now diff worker empty_miner) (pe_miners p1)\<rparr>)"

definition collect_share :: "int \<Rightarrow> collector \<Rightarrow> share_event \<Rightarrow> collector" where
  "collect_share now c ev =
     c(se_pool_id ev \<mapsto> stats_share now (collector_pool c (se_pool_id ev)) (se_miner ev) (se_worker ev) (se_worker_diff ev))"

definition collect_block :: "collector \<Rightarrow> block_event \<Rightarrow> collector" where
  "collect_block c ev =
     (let p = collector_pool c (be_pool_id ev) in c(be_pool_id ev \<mapsto> p\<lparr>pe_blocks := pe_blocks p + 1\<rparr>))"

record pool_stats =
  ps_shares :: "64 word"
  ps_blocks :: "64 word"
  ps_miners :: nat
  ps_hashrate_1m :: f64
  ps_hashrate_15m :: f64

definition pool_stats_of :: "int \<Rightarrow> collector \<Rightarrow> string \<Rightarrow> pool_stats" where
  "pool_stats_of now c i =
     (case c i of None \<Rightarrow> \<lparr>ps_shares = 0, ps_blocks = 0, ps_miners = 0, ps_hashrate_1m = 0, ps_hashrate_15m = 0\<rparr>
      | Some p \<Rightarrow>
        \<lparr>ps_shares = pe_shares p, ps_blocks = pe_blocks p, ps_miners = length (pe_miners p),
         ps_hashrate_1m = hashrate (ring_sum (pe_ring p) 1 now) 60000000000,
         ps_hashrate_15m = hashrate (ring_sum (pe_ring p) window_minutes now) (int window_minutes * 60000000000)\<rparr>)"

record miner_stats =
  ms_shares :: "64 word"
  ms_hashrate_1m :: f64
  ms_hashrate_15m :: f64
  ms_last_share :: int
  ms_workers :: "(string \<times> int) list"

definition miner_stats_of :: "int \<Rightarrow> collector \<Rightarrow> string \<Rightarrow> string \<Rightarrow> miner_stats option" where
  "miner_stats_of now c i miner =
     (case c i of None \<Rightarrow> None
      | Some p \<Rightarrow>
        map_option (\<lambda>m. \<lparr>ms_shares = me_shares m, ms_hashrate_1m = hashrate (ring_sum (me_ring m) 1 now) 60000000000,
            ms_hashrate_15m = hashrate (ring_sum (me_ring m) window_minutes now) (int window_minutes * 60000000000),
            ms_last_share = me_last_share m, ms_workers = me_workers m\<rparr>)
          (map_of (pe_miners p) miner))"

subsection \<open>The ring is a sliding window\<close>

text \<open>The shares of a minute, and what the ring should hold: one float sum per minute.\<close>

definition minute_diffs :: "(int \<times> f64) list \<Rightarrow> int \<Rightarrow> f64 list" where
  "minute_diffs xs m = map snd (filter (\<lambda>(t, d). unix_minute t = m) xs)"

definition ring_of :: "(int \<times> f64) list \<Rightarrow> minute_ring" where
  "ring_of xs = foldl (\<lambda>r (t, d). ring_add r d t) empty_ring xs"

definition ring_ok :: "int \<Rightarrow> (int \<times> f64) list \<Rightarrow> minute_ring \<Rightarrow> bool" where
  "ring_ok L xs r \<longleftrightarrow>
     length (mr_buckets r) = window_minutes \<and> length (mr_stamps r) = window_minutes
     \<and> (\<forall>(t, d) \<in> set xs. unix_minute t \<le> L)
     \<and> (\<forall>m. L - int window_minutes < m \<and> 0 < m \<longrightarrow>
          (if minute_diffs xs m = [] then mr_stamps r ! ring_index m \<noteq> m
           else mr_stamps r ! ring_index m = m \<and> mr_buckets r ! ring_index m = foldl fadd 0 (minute_diffs xs m)))"

lemma ring_index_less [simp]: "ring_index m < window_minutes"
  by (simp add: ring_index_def window_minutes_def nat_less_iff)

lemma ring_index_eq: "ring_index m = ring_index m' \<Longrightarrow> \<bar>m - m'\<bar> < int window_minutes \<Longrightarrow> m = m'"
proof -
  assume i: "ring_index m = ring_index m'" and d: "\<bar>m - m'\<bar> < int window_minutes"
  have "m mod 15 = m' mod 15"
    using i nat_eq_iff [of "m mod 15" "nat (m' mod 15)"] by (simp add: ring_index_def window_minutes_def)
  then have "15 dvd m - m'" by (simp add: mod_eq_dvd_iff)
  then obtain q where "m - m' = 15 * q" by (elim dvdE)
  with d show "m = m'" by (simp add: window_minutes_def abs_if split: if_splits)
qed

lemma minute_diffs_snoc:
  "minute_diffs (xs @ [(t, d)]) m = minute_diffs xs m @ (if unix_minute t = m then [d] else [])"
  by (simp add: minute_diffs_def)

lemma ring_ok_empty: "0 \<le> L \<Longrightarrow> ring_ok L [] empty_ring"
  by (auto simp: ring_ok_def empty_ring_def minute_diffs_def)

lemma ring_ok_add:
  assumes ok: "ring_ok L xs r" and "L \<le> unix_minute t" and "0 < unix_minute t"
  shows "ring_ok (unix_minute t) (xs @ [(t, d)]) (ring_add r d t)"
proof -
  let ?M = "unix_minute t" and ?i = "ring_index (unix_minute t)" and ?r = "ring_add r d t"
  have len: "length (mr_buckets r) = window_minutes" "length (mr_stamps r) = window_minutes"
    using ok by (simp_all add: ring_ok_def)
  have stamps: "mr_stamps ?r = (mr_stamps r)[?i := ?M]"
    using list_update_id [of "mr_stamps r" ?i] by (cases "mr_stamps r ! ?i = ?M") (auto simp: ring_add_def Let_def)
  have other: "mr_buckets ?r ! ring_index m = mr_buckets r ! ring_index m" if "ring_index m \<noteq> ?i" for m
    using that by (simp add: ring_add_def Let_def)
  have here: "mr_buckets ?r ! ?i = (if mr_stamps r ! ?i = ?M then fadd (mr_buckets r ! ?i) d else fadd 0 d)"
    using len by (simp add: ring_add_def Let_def)
  have "if minute_diffs (xs @ [(t, d)]) m = [] then mr_stamps ?r ! ring_index m \<noteq> m
      else mr_stamps ?r ! ring_index m = m \<and> mr_buckets ?r ! ring_index m = foldl fadd 0 (minute_diffs (xs @ [(t, d)]) m)"
    if m: "?M - int window_minutes < m" "0 < m" for m
  proof (cases "m = ?M")
    case True
    have "if minute_diffs xs m = [] then mr_stamps r ! ?i \<noteq> m
      else mr_stamps r ! ?i = m \<and> mr_buckets r ! ?i = foldl fadd 0 (minute_diffs xs m)"
      using ok m assms(2) True by (auto simp: ring_ok_def)
    then show ?thesis using True stamps here len by (auto simp: minute_diffs_snoc split: if_splits)
  next
    case False
    have same: "minute_diffs (xs @ [(t, d)]) m = minute_diffs xs m" using False by (simp add: minute_diffs_snoc)
    have old: "if minute_diffs xs m = [] then mr_stamps r ! ring_index m \<noteq> m
      else mr_stamps r ! ring_index m = m \<and> mr_buckets r ! ring_index m = foldl fadd 0 (minute_diffs xs m)"
      using ok m assms(2) by (auto simp: ring_ok_def)
    show ?thesis
    proof (cases "ring_index m = ?i")
      case True
      then have "\<bar>m - ?M\<bar> \<ge> int window_minutes" using False ring_index_eq [of m ?M] by linarith
      then have "?M < m" using m by linarith
      then have "minute_diffs xs m = []"
        using ok assms(2) by (auto simp: ring_ok_def minute_diffs_def filter_empty_conv)
      then show ?thesis using True False same stamps len by simp
    next
      case neq: False
      then show ?thesis using old same stamps other [OF neq] by simp
    qed
  qed
  moreover have "length (mr_buckets ?r) = window_minutes" "length (mr_stamps ?r) = window_minutes"
    using len by (simp_all add: ring_add_def Let_def)
  moreover have "\<forall>(t', d') \<in> set (xs @ [(t, d)]). unix_minute t' \<le> ?M"
    using ok assms(2) by (auto simp: ring_ok_def)
  ultimately show ?thesis unfolding ring_ok_def by blast
qed

lemma ring_ok_mono: "ring_ok L xs r \<Longrightarrow> L \<le> L' \<Longrightarrow> ring_ok L' xs r"
  by (fastforce simp: ring_ok_def)

lemma ring_of_ok:
  "sorted (map fst xs) \<Longrightarrow> \<forall>(t, d) \<in> set xs. 0 < unix_minute t \<and> unix_minute t \<le> L \<Longrightarrow> 0 \<le> L \<Longrightarrow>
   ring_ok L xs (ring_of xs)"
proof (induction xs arbitrary: L rule: rev_induct)
  case Nil
  then show ?case using ring_ok_empty by (simp add: ring_of_def)
next
  case (snoc x xs)
  obtain t d where x: "x = (t, d)" by (cases x)
  have "unix_minute t' \<le> unix_minute t" if "(t', d') \<in> set xs" for t' d'
    using snoc.prems(1) that by (force simp: x sorted_append unix_minute_def intro: zdiv_mono1)
  then have "ring_ok (unix_minute t) xs (ring_of xs)"
    using snoc.prems by (intro snoc.IH) (auto simp: x sorted_append)
  then have "ring_ok (unix_minute t) (xs @ [x]) (ring_add (ring_of xs) d t)"
    unfolding x by (rule ring_ok_add) (use snoc.prems(2) x in auto)
  then have "ring_ok L (xs @ [x]) (ring_add (ring_of xs) d t)" by (rule ring_ok_mono) (use snoc.prems(2) x in auto)
  then show ?case by (simp add: ring_of_def x)
qed

text \<open>The sum it should give, with one rounding per addition, and without rounding.\<close>

definition window_sum :: "(int \<times> f64) list \<Rightarrow> nat \<Rightarrow> int \<Rightarrow> f64" where
  "window_sum xs n now =
     foldl (\<lambda>acc i. let ds = minute_diffs xs (unix_minute now - int i) in if ds = [] then acc else fadd acc (foldl fadd 0 ds))
       0 [0..<n]"

definition in_window :: "nat \<Rightarrow> int \<Rightarrow> int \<Rightarrow> bool" where
  "in_window n now t \<longleftrightarrow> unix_minute now - int n < unix_minute t \<and> unix_minute t \<le> unix_minute now"

lemma ring_sum_window:
  assumes "ring_ok (unix_minute now) xs r" and "int window_minutes \<le> unix_minute now" and "n \<le> window_minutes"
  shows "ring_sum r n now = window_sum xs n now"
proof -
  have "(let m = unix_minute now - int i; idx = ring_index m in if mr_stamps r ! idx = m then fadd acc (mr_buckets r ! idx) else acc)
      = (let ds = minute_diffs xs (unix_minute now - int i) in if ds = [] then acc else fadd acc (foldl fadd 0 ds))"
    if "i < n" for i acc
  proof -
    let ?m = "unix_minute now - int i"
    have "unix_minute now - int window_minutes < ?m" "0 < ?m" using that assms(2,3) by linarith+
    then have "if minute_diffs xs ?m = [] then mr_stamps r ! ring_index ?m \<noteq> ?m
      else mr_stamps r ! ring_index ?m = ?m \<and> mr_buckets r ! ring_index ?m = foldl fadd 0 (minute_diffs xs ?m)"
      using assms(1) by (auto simp: ring_ok_def)
    then show ?thesis by (auto simp: Let_def split: if_splits)
  qed
  then show ?thesis unfolding ring_sum_def window_sum_def
    using assms(3) by (auto simp: Let_def intro!: foldl_cong)
qed

subsection \<open>Whole difficulties are summed exactly\<close>

lemma fold_fadd_exact:
  "0 \<le> a \<Longrightarrow> \<forall>k \<in> set ks. 0 \<le> k \<Longrightarrow> a + sum_list ks \<le> 2 ^ 53 \<Longrightarrow>
   foldl fadd (of_int a) (map of_int ks) = of_int (a + sum_list ks)"
proof (induction ks arbitrary: a)
  case (Cons k ks)
  have "0 \<le> sum_list ks" using Cons.prems(2) by (simp add: sum_list_nonneg)
  then have "\<bar>a + k\<bar> \<le> 2 ^ 53" using Cons.prems by simp
  then have "fadd (of_int a) (of_int k) = of_int (a + k)"
    unfolding fadd_def of_int_add [symmetric] by (rule f64.rnd_of_int)
  moreover have "foldl fadd (of_int (a + k)) (map of_int ks) = of_int (a + k + sum_list ks)"
    by (rule Cons.IH) (use Cons.prems in auto)
  ultimately show ?case by (simp only: list.map foldl_Cons sum_list.Cons add.assoc)
qed simp

definition whole :: "f64 \<Rightarrow> bool" where
  "whole d \<longleftrightarrow> (\<exists>k. d = of_int k \<and> 0 \<le> k)"

definition recent_total :: "(int \<times> f64) list \<Rightarrow> nat \<Rightarrow> int \<Rightarrow> rat" where
  "recent_total xs n now = (\<Sum>(t, d)\<leftarrow>xs. if in_window n now t then d else 0)"

lemma whole_list: "\<forall>d \<in> set ds. whole d \<Longrightarrow> \<exists>ks. ds = map of_int ks \<and> (\<forall>k \<in> set ks. 0 \<le> k)"
proof (induction ds)
  case (Cons d ds)
  then obtain ks k where "ds = map of_int ks" "\<forall>k \<in> set ks. 0 \<le> k" "d = of_int k" "0 \<le> k" by (auto simp: whole_def)
  then show ?case by (intro exI [of _ "k # ks"]) simp
qed simp

lemma recent_total_Suc: "recent_total xs (Suc n) now = recent_total xs n now + sum_list (minute_diffs xs (unix_minute now - int n))"
  by (induction xs) (auto simp: recent_total_def minute_diffs_def in_window_def)

lemma recent_total_0: "recent_total xs 0 now = 0"
  by (induction xs) (auto simp: recent_total_def in_window_def)

lemma window_sum_whole:
  "\<forall>(t, d) \<in> set xs. whole d \<Longrightarrow> recent_total xs n now \<le> 2 ^ 53 \<Longrightarrow>
   window_sum xs n now = recent_total xs n now \<and> whole (recent_total xs n now)"
proof (induction n)
  case 0
  then show ?case by (simp add: window_sum_def recent_total_0 whole_def)
next
  case (Suc n)
  let ?ds = "minute_diffs xs (unix_minute now - int n)"
  obtain ks where ks: "?ds = map of_int ks" "\<forall>k \<in> set ks. 0 \<le> k"
    using whole_list [of ?ds] Suc.prems(1) by (auto simp: minute_diffs_def)
  have s: "recent_total xs (Suc n) now = recent_total xs n now + of_int (sum_list ks)" "0 \<le> sum_list ks"
    using ks by (simp_all add: recent_total_Suc of_int_sum_list [where f = "\<lambda>x. x", simplified, symmetric] sum_list_nonneg)
  have "recent_total xs n now \<le> 2 ^ 53" using Suc.prems(2) s by linarith
  with Suc obtain a where a: "window_sum xs n now = of_int a" "recent_total xs n now = of_int a" "0 \<le> a"
    by (auto simp: whole_def)
  have "rat_of_int (a + sum_list ks) \<le> of_int (2 ^ 53)" using Suc.prems(2) s(1) a(2) by simp
  then have le: "a + sum_list ks \<le> 2 ^ 53" by (simp only: of_int_le_iff)
  then have "foldl fadd 0 ?ds = of_int (sum_list ks)"
    using fold_fadd_exact [of 0 ks] ks a(3) by simp
  moreover have "fadd (of_int a) (of_int (sum_list ks)) = of_int (a + sum_list ks)"
    unfolding fadd_def of_int_add [symmetric] by (rule f64.rnd_of_int) (use le a(3) s(2) in linarith)
  moreover have "window_sum xs (Suc n) now = (if ?ds = [] then window_sum xs n now else fadd (window_sum xs n now) (foldl fadd 0 ?ds))"
    by (simp add: window_sum_def Let_def)
  ultimately have "window_sum xs (Suc n) now = of_int (a + sum_list ks)"
    using a(1) ks(1) by (cases "ks = []") auto
  then show ?case using s a by (auto simp: whole_def intro!: exI [of _ "a + sum_list ks"])
qed

subsection \<open>The collector\<close>

datatype stats_event = StShare share_event | StBlock block_event

fun collect :: "collector \<Rightarrow> int \<times> stats_event \<Rightarrow> collector" where
  "collect c (now, StShare ev) = collect_share now c ev"
| "collect c (now, StBlock ev) = collect_block c ev"

definition pool_shares :: "string \<Rightarrow> (int \<times> stats_event) list \<Rightarrow> (int \<times> f64) list" where
  "pool_shares i evs = List.map_filter
     (\<lambda>(t, e). case e of StShare ev \<Rightarrow> if se_pool_id ev = i then Some (t, se_worker_diff ev) else None | _ \<Rightarrow> None) evs"

definition pool_blocks :: "string \<Rightarrow> (int \<times> stats_event) list \<Rightarrow> nat" where
  "pool_blocks i evs = length (filter (\<lambda>(t, e). case e of StBlock ev \<Rightarrow> be_pool_id ev = i | _ \<Rightarrow> False) evs)"

definition stats_ok :: "string \<Rightarrow> (int \<times> stats_event) list \<Rightarrow> pool_entry \<Rightarrow> bool" where
  "stats_ok i evs p \<longleftrightarrow>
     pe_ring p = ring_of (pool_shares i evs) \<and> pe_shares p = of_nat (length (pool_shares i evs))
     \<and> pe_blocks p = of_nat (pool_blocks i evs)
     \<and> length (pe_miners p) \<le> max_tracked_miners \<and> distinct (map fst (pe_miners p))"

lemma pool_shares_Cons [simp]:
  "pool_shares i [] = []"
  "pool_shares i ((t, StShare ev) # evs) = (if se_pool_id ev = i then [(t, se_worker_diff ev)] else []) @ pool_shares i evs"
  "pool_shares i ((t, StBlock b) # evs) = pool_shares i evs"
  by (simp_all add: pool_shares_def map_filter_simps)

lemma pool_shares_append: "pool_shares i (evs @ evs') = pool_shares i evs @ pool_shares i evs'"
  by (simp add: pool_shares_def map_filter_def)

lemma pool_shares_times: "(t, d) \<in> set (pool_shares i evs) \<Longrightarrow> \<exists>e. (t, e) \<in> set evs"
proof (induction evs)
  case (Cons x evs)
  then show ?case by (cases x; cases "snd x") (auto split: if_splits)
qed simp

lemma pool_shares_sorted: "sorted (map fst evs) \<Longrightarrow> sorted (map fst (pool_shares i evs))"
proof (induction evs)
  case (Cons x evs)
  obtain t e where x: "x = (t, e)" by (cases x)
  have "\<forall>t' \<in> fst ` set (pool_shares i evs). t \<le> t'"
    using Cons.prems by (force simp: x dest: pool_shares_times)
  with Cons show ?case by (cases e) (auto simp: x)
qed simp

lemma pool_blocks_snoc:
  "pool_blocks i (evs @ [(t, StShare ev)]) = pool_blocks i evs"
  "pool_blocks i (evs @ [(t, StBlock b)]) = pool_blocks i evs + (if be_pool_id b = i then 1 else 0)"
  by (simp_all add: pool_blocks_def)

lemma stats_share_parts:
  "pe_ring (stats_share now p miner worker diff) = ring_add (pe_ring p) diff now"
  "pe_shares (stats_share now p miner worker diff) = pe_shares p + 1"
  "pe_blocks (stats_share now p miner worker diff) = pe_blocks p"
  by (simp_all add: stats_share_def cleanup_def Let_def split: option.split)

lemma cleanup_parts:
  "length (pe_miners (cleanup now p)) \<le> length (pe_miners p)"
  "distinct (map fst (pe_miners p)) \<Longrightarrow> distinct (map fst (pe_miners (cleanup now p)))"
  "set (pe_miners (cleanup now p)) \<subseteq> set (pe_miners p)"
  by (auto simp: cleanup_def Let_def distinct_map_filter)

lemma update_length: "length (AList.update k v xs) = (if k \<in> fst ` set xs then length xs else length xs + 1)"
  by (induction xs) auto

lemma stats_share_miners:
  assumes "length (pe_miners p) \<le> max_tracked_miners" and "distinct (map fst (pe_miners p))"
  shows "length (pe_miners (stats_share now p miner worker diff)) \<le> max_tracked_miners"
    and "distinct (map fst (pe_miners (stats_share now p miner worker diff)))"
proof -
  let ?p = "p\<lparr>pe_shares := pe_shares p + 1, pe_ring := ring_add (pe_ring p) diff now\<rparr>"
  have c: "length (pe_miners (cleanup now ?p)) \<le> max_tracked_miners" "distinct (map fst (pe_miners (cleanup now ?p)))"
    using cleanup_parts [where now = now and p = ?p] assms by auto
  show "length (pe_miners (stats_share now p miner worker diff)) \<le> max_tracked_miners"
  proof (cases "map_of (pe_miners p) miner")
    case None
    then show ?thesis using assms c by (simp add: stats_share_def Let_def update_length)
  next
    case (Some m)
    then have "miner \<in> fst ` set (pe_miners p)" by (auto dest!: map_of_SomeD intro: rev_image_eqI)
    with Some show ?thesis using assms by (simp add: stats_share_def Let_def update_length)
  qed
  show "distinct (map fst (pe_miners (stats_share now p miner worker diff)))"
    using assms c by (auto simp: stats_share_def Let_def distinct_update split: option.split)
qed

lemma stats_run_ok: "stats_ok i evs (collector_pool (foldl collect new_collector evs) i)"
proof (induction evs rule: rev_induct)
  case Nil
  show ?case by (simp add: stats_ok_def new_collector_def collector_pool_def empty_pool_def ring_of_def pool_shares_def
    pool_blocks_def map_filter_simps)
next
  case (snoc x evs)
  obtain t e where x: "x = (t, e)" by (cases x)
  let ?c = "foldl collect new_collector evs"
  show ?case
  proof (cases e)
    case (StShare ev)
    have "collector_pool (collect ?c (t, e)) i =
        (if se_pool_id ev = i then stats_share t (collector_pool ?c i) (se_miner ev) (se_worker ev) (se_worker_diff ev)
         else collector_pool ?c i)" by (simp add: StShare collect_share_def collector_pool_def)
    then show ?thesis using snoc stats_share_miners [of "collector_pool ?c i"]
      by (simp add: x StShare stats_ok_def stats_share_parts pool_shares_append pool_blocks_snoc ring_of_def)
  next
    case (StBlock b)
    then show ?thesis using snoc
      by (auto simp: x stats_ok_def collect_block_def collector_pool_def pool_shares_append pool_blocks_snoc Let_def)
  qed
qed

text \<open>
  C37: what the live statistics count. After any shares and blocks recorded in the order of
  the clock, a pool's counters are the numbers of its shares and blocks (modulo \<open>2 ^ 64\<close>), it tracks at
  most \<open>max_tracked_miners\<close> miners, and the difficulty behind its hashrate over \<open>n\<close> minutes is that of the shares of
  the running minute and the \<open>n - 1\<close> minutes before it, not of the last \<open>n\<close> whole minutes as the comment on \<open>sum\<close> has it. The shares of a minute are added up
  in \<open>float64\<close>, and then the minutes are; only for whole difficulties of at most \<open>2 ^ 53\<close> together is that the exact total. In particular the
  one-minute rate counts the running minute alone.
\<close>

theorem live_stats_exact:
  fixes i :: string
  assumes "sorted (map fst evs)" and "\<forall>(t, e) \<in> set evs. 0 < unix_minute t \<and> unix_minute t \<le> unix_minute now"
    and "int window_minutes \<le> unix_minute now" and "n \<le> window_minutes"
  defines "p \<equiv> collector_pool (foldl collect new_collector evs) i" and "xs \<equiv> pool_shares i evs"
  shows "pe_shares p = of_nat (length xs) \<and> pe_blocks p = of_nat (pool_blocks i evs)
    \<and> length (pe_miners p) \<le> max_tracked_miners \<and> distinct (map fst (pe_miners p))
    \<and> ring_sum (pe_ring p) n now = window_sum xs n now
    \<and> ((\<forall>(t, d) \<in> set xs. whole d) \<and> recent_total xs n now \<le> 2 ^ 53 \<longrightarrow>
         ring_sum (pe_ring p) n now = (\<Sum>(t, d)\<leftarrow>xs. if unix_minute now - int n < unix_minute t then d else 0))"
proof -
  have ok: "stats_ok i evs p" unfolding p_def by (rule stats_run_ok)
  have range: "\<forall>(t, d) \<in> set xs. 0 < unix_minute t \<and> unix_minute t \<le> unix_minute now"
    using assms(2) unfolding xs_def by (fastforce dest: pool_shares_times)
  have "sorted (map fst xs)" unfolding xs_def using assms(1) by (rule pool_shares_sorted)
  then have "ring_ok (unix_minute now) xs (ring_of xs)" using range assms(3) by (intro ring_of_ok) auto
  then have sum: "ring_sum (pe_ring p) n now = window_sum xs n now"
    using ok assms(3,4) by (simp add: stats_ok_def xs_def ring_sum_window)
  have "recent_total xs n now = (\<Sum>(t, d)\<leftarrow>xs. if unix_minute now - int n < unix_minute t then d else 0)"
    using range unfolding recent_total_def in_window_def by (intro arg_cong [where f = sum_list] map_cong) auto
  then show ?thesis using ok sum window_sum_whole [of xs n now] by (auto simp: stats_ok_def xs_def)
qed

text \<open>Three shares, one of which has left the window of two minutes; at the turn of a minute the rate of
  the last one is zero.\<close>

definition sample_event :: "string \<Rightarrow> f64 \<Rightarrow> stats_event" where
  "sample_event miner diff = StShare \<lparr>se_pool_id = ''btc'', se_block_height = 1, se_share_diff = diff, se_worker_diff = diff,
     se_network_difficulty = 1, se_miner = miner, se_worker = ''rig'', se_user_agent = [], se_ip_address = [], se_created = 0,
     se_is_block_candidate = False\<rparr>"

definition at_minute :: "int \<Rightarrow> int" where "at_minute m = m * 60000000000"

theorem live_stats_exact_witness:
  "let evs = [(at_minute 100, sample_event ''a'' 8), (at_minute 118, sample_event ''a'' 2), (at_minute 119, sample_event ''b'' 4)];
       p = collector_pool (foldl collect new_collector evs) ''btc''
   in pe_shares p = 3 \<and> ring_sum (pe_ring p) 3 (at_minute 120) = 6 \<and> ring_sum (pe_ring p) 1 (at_minute 120) = 0"
proof -
  let ?evs = "[(at_minute 100, sample_event ''a'' 8), (at_minute 118, sample_event ''a'' 2), (at_minute 119, sample_event ''b'' 4)]"
  have m: "unix_minute (at_minute k) = k" for k by (simp add: unix_minute_def at_minute_def)
  have xs: "pool_shares ''btc'' ?evs = [(at_minute 100, 8), (at_minute 118, 2), (at_minute 119, 4)]"
    by (simp add: pool_shares_def sample_event_def map_filter_simps)
  have w: "whole 8" "whole 2" "whole 4" unfolding whole_def by (metis of_int_numeral zero_le_numeral)+
  have s: "sorted (map fst ?evs)" by (simp add: at_minute_def)
  have t3: "recent_total (pool_shares ''btc'' ?evs) n (at_minute 120) \<le> 2 ^ 53" if "n \<le> 3" for n
    unfolding xs using that by (simp add: recent_total_def in_window_def m)
  show ?thesis
    using live_stats_exact [of ?evs "at_minute 120" 3 "''btc''"] live_stats_exact [of ?evs "at_minute 120" 1 "''btc''"]
      s t3 [of 1] t3 [of 3] w
    by (simp add: xs m window_minutes_def Let_def)
qed

end
