(* ===== verification/Durations.thy ===== *)
theory Durations
  imports Prelude GoFloat
begin

text \<open>
  The JSON form of the configuration's durations (\<open>Duration\<close> in \<open>internal/config\<close>): \<open>time.Duration\<close>'s
  \<open>String\<close> and \<open>time.ParseDuration\<close>, which also reads the window parameters of the API. A duration is
  a number of nanoseconds in the range of \<open>int64\<close>; the parser computes in \<open>uint64\<close> and checks every
  step against \<open>2 ^ 63\<close>, so plain integers with those checks are exact.
\<close>

definition is_digit :: "char \<Rightarrow> bool" where
  "is_digit c \<longleftrightarrow> 48 \<le> (of_char c :: int) \<and> (of_char c :: int) \<le> 57"

fun leading_int :: "int \<Rightarrow> string \<Rightarrow> (int \<times> string) option" where
  "leading_int x [] = Some (x, [])"
| "leading_int x (c # cs) =
     (if \<not> is_digit c then Some (x, c # cs)
      else if x > 2 ^ 63 div 10 then None
      else let y = 10 * x + (of_char c - 48) in if y > 2 ^ 63 then None else leading_int y cs)"

fun leading_fraction :: "int \<Rightarrow> f64 \<Rightarrow> bool \<Rightarrow> string \<Rightarrow> int \<times> f64 \<times> string" where
  "leading_fraction x scale over [] = (x, scale, [])"
| "leading_fraction x scale over (c # cs) =
     (if \<not> is_digit c then (x, scale, c # cs)
      else if over then leading_fraction x scale over cs
      else if x > (2 ^ 63 - 1) div 10 then leading_fraction x scale True cs
      else let y = 10 * x + (of_char c - 48) in
           if y > 2 ^ 63 then leading_fraction x scale True cs else leading_fraction y (fmul scale 10) over cs)"

definition micro_sign :: string where "micro_sign = [CHR 0xC2, CHR 0xB5]"
definition micro_greek :: string where "micro_greek = [CHR 0xCE, CHR 0xBC]"

definition duration_unit :: "string \<Rightarrow> int option" where
  "duration_unit u =
     (if u = ''ns'' then Some 1
      else if u = ''us'' \<or> u = micro_sign @ ''s'' \<or> u = micro_greek @ ''s'' then Some 1000
      else if u = ''ms'' then Some 1000000
      else if u = ''s'' then Some 1000000000
      else if u = ''m'' then Some 60000000000
      else if u = ''h'' then Some 3600000000000
      else None)"

definition unit_char :: "char \<Rightarrow> bool" where
  "unit_char c \<longleftrightarrow> c \<noteq> CHR ''.'' \<and> \<not> is_digit c"

text \<open>One number with its unit: its value and what follows.\<close>

definition parse_term :: "string \<Rightarrow> (int \<times> string) option" where
  "parse_term s =
     (if s = [] \<or> \<not> (hd s = CHR ''.'' \<or> is_digit (hd s)) then None
      else case leading_int 0 s of None \<Rightarrow> None
      | Some (v, s1) \<Rightarrow>
        let pre = (length s \<noteq> length s1);
            (f, scale, s2, post) =
              (if s1 \<noteq> [] \<and> hd s1 = CHR ''.''
               then (case leading_fraction 0 1 False (tl s1) of (f, scale, r) \<Rightarrow> (f, scale, r, length (tl s1) \<noteq> length r))
               else (0, 1, s1, False))
        in if \<not> pre \<and> \<not> post then None
           else case duration_unit (takeWhile unit_char s2) of None \<Rightarrow> None
           | Some u \<Rightarrow>
             if v > 2 ^ 63 div u then None
             else let w = v * u + (if f > 0 then int_of_f64 (fmul (f64_of_int f) (fdiv (f64_of_int u) scale)) else 0)
                  in if w > 2 ^ 63 then None else Some (w, dropWhile unit_char s2))"

text \<open>Every term takes at least one character, so as many rounds as there are characters are enough.\<close>

fun parse_terms :: "nat \<Rightarrow> int \<Rightarrow> string \<Rightarrow> int option" where
  "parse_terms n d [] = Some d"
| "parse_terms 0 d (c # cs) = None"
| "parse_terms (Suc n) d (c # cs) =
     (case parse_term (c # cs) of None \<Rightarrow> None
      | Some (w, s') \<Rightarrow> if d + w > 2 ^ 63 then None else parse_terms n (d + w) s')"

definition parse_duration :: "string \<Rightarrow> int option" where
  "parse_duration s0 =
     (let neg = (s0 \<noteq> [] \<and> hd s0 = CHR ''-'');
          s = (if s0 \<noteq> [] \<and> (hd s0 = CHR ''-'' \<or> hd s0 = CHR ''+'') then tl s0 else s0)
      in if s = ''0'' then Some 0
         else if s = [] then None
         else case parse_terms (length s) 0 s of None \<Rightarrow> None
         | Some d \<Rightarrow> if neg then Some (- d) else if d > 2 ^ 63 - 1 then None else Some d)"

subsection \<open>Rendering\<close>

text \<open>The fraction digits of \<open>v / 10 ^ k\<close> without trailing zeros, with the point in front of them.\<close>

definition drop_zeros :: "string \<Rightarrow> string" where
  "drop_zeros s = rev (dropWhile (\<lambda>c. c = CHR ''0'') (rev s))"

definition fmt_frac :: "nat \<Rightarrow> int \<Rightarrow> string" where
  "fmt_frac k v =
     (let ds = drop_zeros (fixed_digits k (v mod 10 ^ k)) in if ds = [] then [] else CHR ''.'' # ds)"

definition duration_text :: "int \<Rightarrow> string" where
  "duration_text d =
     (let u = \<bar>d\<bar>; sign = (if d < 0 then ''-'' else []);
          decimal = (\<lambda>k unit. dec_digits (u div 10 ^ k) @ fmt_frac k u @ unit)
      in if u = 0 then ''0s''
         else if u < 1000 then sign @ decimal 0 ''ns''
         else if u < 1000000 then sign @ decimal 3 (micro_sign @ ''s'')
         else if u < 1000000000 then sign @ decimal 6 ''ms''
         else
           let total = u div 1000000000; secs = dec_digits (total mod 60) @ fmt_frac 9 u @ ''s'';
               mins = dec_digits (total div 60 mod 60) @ ''m''; hours = dec_digits (total div 3600) @ ''h''
           in sign @ (if total div 60 = 0 then secs
                      else if total div 3600 = 0 then mins @ secs
                      else hours @ mins @ secs))"

text \<open>\<open>UnmarshalJSON\<close> after the decoding of the value: a string or a number of nanoseconds.\<close>

datatype duration_json = DurString string | DurNumber f64 | DurOther

definition unmarshal_duration :: "duration_json \<Rightarrow> string + int" where
  "unmarshal_duration v =
     (case v of
        DurNumber x \<Rightarrow> Inr (int_of_f64 x)
      | DurString s \<Rightarrow> (case parse_duration s of None \<Rightarrow> Inl ''invalid duration'' | Some d \<Rightarrow> Inr d)
      | DurOther \<Rightarrow> Inl ''invalid duration value'')"

definition marshal_duration :: "int \<Rightarrow> duration_json" where
  "marshal_duration d = DurString (duration_text d)"

subsection \<open>Reading back what was rendered\<close>

lemma is_digit_char: "0 \<le> n \<Longrightarrow> n < 10 \<Longrightarrow> is_digit (char_of (48 + n :: int))"
  by (simp add: is_digit_def)

lemma fixed_digits_are: "0 \<le> n \<Longrightarrow> list_all is_digit (fixed_digits k n) \<and> length (fixed_digits k n) = k"
proof (induction k arbitrary: n)
  case (Suc k)
  then show ?case using is_digit_char [of "n mod 10"] by (simp add: pos_imp_zdiv_nonneg_iff)
qed simp

lemma dec_digits_are: "0 \<le> n \<Longrightarrow> list_all is_digit (dec_digits n) \<and> dec_digits n \<noteq> []"
proof (induction n rule: dec_digits.induct)
  case (1 n)
  show ?case
  proof (cases "n < 10")
    case True
    with "1.prems" show ?thesis by (subst (1 2) dec_digits.simps) (simp add: is_digit_char)
  next
    case False
    with 1 is_digit_char [of "n mod 10"] show ?thesis
      by (subst (1 2) dec_digits.simps) (simp add: pos_imp_zdiv_nonneg_iff)
  qed
qed

definition digits_from :: "int \<Rightarrow> string \<Rightarrow> int" where
  "digits_from x ds = foldl (\<lambda>n c. 10 * n + (of_char c - 48)) x ds"

lemma digits_from_ge: "0 \<le> x \<Longrightarrow> list_all is_digit ds \<Longrightarrow> x \<le> digits_from x ds"
proof (induction ds arbitrary: x)
  case (Cons c ds)
  then have "48 \<le> (of_char c :: int)" by (simp add: is_digit_def)
  then show ?case using Cons.IH [of "10 * x + (of_char c - 48)"] Cons.prems by (simp add: digits_from_def)
qed (simp add: digits_from_def)

lemma digits_value_from: "digits_value ds = digits_from 0 ds"
  by (simp add: digits_value_def digits_from_def)

lemma digits_from_Cons: "digits_from x (c # ds) = digits_from (10 * x + (of_char c - 48)) ds"
  by (simp add: digits_from_def)

lemma digits_value_nonneg: "list_all is_digit ds \<Longrightarrow> 0 \<le> digits_value ds"
  using digits_from_ge [of 0 ds] by (simp add: digits_value_from)

text \<open>What follows a number must not continue it.\<close>

definition no_digit :: "string \<Rightarrow> bool" where
  "no_digit t \<longleftrightarrow> t = [] \<or> \<not> is_digit (hd t)"

lemma leading_int_digits:
  "0 \<le> x \<Longrightarrow> list_all is_digit ds \<Longrightarrow> digits_from x ds \<le> 2 ^ 63 \<Longrightarrow> no_digit t \<Longrightarrow>
   leading_int x (ds @ t) = Some (digits_from x ds, t)"
proof (induction ds arbitrary: x)
  case Nil
  then show ?case by (cases t) (auto simp: no_digit_def digits_from_def)
next
  case (Cons c ds)
  let ?y = "10 * x + (of_char c - 48) :: int"
  have c: "is_digit c" "0 \<le> ?y" using Cons.prems by (simp_all add: is_digit_def)
  have y: "?y \<le> 2 ^ 63" using digits_from_ge [OF c(2), of ds] Cons.prems by (simp add: digits_from_Cons)
  then have "\<not> x > 2 ^ 63 div 10" using c by (simp add: is_digit_def)
  then show ?case using Cons.IH [OF c(2)] Cons.prems c y by (simp add: digits_from_Cons Let_def)
qed

lemma scale_step: "p < 15 \<Longrightarrow> fmul (of_int (10 ^ p)) 10 = of_int (10 ^ Suc p)"
proof -
  assume "p < 15"
  then have "(10 :: int) ^ Suc p \<le> 10 ^ 15" by (intro power_increasing) auto
  then have "\<bar>(10 :: int) ^ Suc p\<bar> \<le> 2 ^ 53" by simp
  from f64.rnd_of_int [OF this] show ?thesis by (simp add: fmul_def mult.commute)
qed

lemma leading_fraction_digits:
  "0 \<le> x \<Longrightarrow> list_all is_digit ds \<Longrightarrow> digits_from x ds \<le> 10 ^ 15 \<Longrightarrow> p + length ds \<le> 15 \<Longrightarrow> no_digit t \<Longrightarrow>
   leading_fraction x (of_int (10 ^ p)) False (ds @ t) = (digits_from x ds, of_int (10 ^ (p + length ds)), t)"
proof (induction ds arbitrary: x p)
  case Nil
  then show ?case by (cases t) (auto simp: no_digit_def digits_from_def)
next
  case (Cons c ds)
  let ?y = "10 * x + (of_char c - 48) :: int"
  have c: "is_digit c" "0 \<le> ?y" using Cons.prems by (simp_all add: is_digit_def)
  have y: "?y \<le> 10 ^ 15" using digits_from_ge [OF c(2), of ds] Cons.prems by (simp add: digits_from_Cons)
  have lim: "\<not> x > (2 ^ 63 - 1) div 10" "\<not> ?y > 2 ^ 63" using y c Cons.prems(1) by (simp_all add: is_digit_def)
  have "p < 15" using Cons.prems(4) by simp
  from scale_step [OF this] have "leading_fraction x (of_int (10 ^ p)) False ((c # ds) @ t)
      = leading_fraction ?y (of_int (10 ^ Suc p)) False (ds @ t)" using c lim by (simp add: Let_def)
  also have "\<dots> = (digits_from ?y ds, of_int (10 ^ (Suc p + length ds)), t)"
    using Cons.prems c by (intro Cons.IH) (simp_all add: digits_from_Cons)
  finally show ?case by (simp add: digits_from_Cons)
qed

lemma drop_zeros_split: "s = drop_zeros s @ replicate (length s - length (drop_zeros s)) (CHR ''0'')"
proof -
  let ?p = "\<lambda>c. c = CHR ''0''"
  have "takeWhile ?p (rev s) = replicate (length (takeWhile ?p (rev s))) (CHR ''0'')"
    by (metis (full_types) replicate_length_same set_takeWhileD)
  moreover have "rev s = takeWhile ?p (rev s) @ dropWhile ?p (rev s)" by simp
  ultimately have "s = rev (dropWhile ?p (rev s)) @ replicate (length (takeWhile ?p (rev s))) (CHR ''0'')"
    by (metis rev_append rev_replicate rev_rev_ident)
  moreover from this have "length (takeWhile ?p (rev s)) = length s - length (drop_zeros s)"
    unfolding drop_zeros_def by (metis add_diff_cancel_left' length_append length_replicate)
  ultimately show ?thesis unfolding drop_zeros_def by simp
qed

lemma digits_value_zeros: "digits_value (ds @ replicate j (CHR ''0'')) = digits_value ds * 10 ^ j"
proof (induction j)
  case (Suc j)
  have "digits_value (ds @ replicate (Suc j) (CHR ''0'')) = 10 * digits_value (ds @ replicate j (CHR ''0''))"
    unfolding replicate_Suc replicate_append_same [symmetric] append_assoc [symmetric] digits_value_snoc by simp
  then show ?case using Suc by simp
qed simp

text \<open>The digits of a rendered fraction: none for zero, else with the value of the fraction.\<close>

lemma fmt_frac_cases:
  assumes "0 \<le> v"
  shows "(fmt_frac k v = [] \<and> v mod 10 ^ k = 0) \<or>
    (\<exists>ds. fmt_frac k v = CHR ''.'' # ds \<and> ds \<noteq> [] \<and> list_all is_digit ds \<and> length ds \<le> k
       \<and> digits_value ds * 10 ^ (k - length ds) = v mod 10 ^ k)"
proof -
  let ?s = "fixed_digits k (v mod 10 ^ k)" and ?ds = "drop_zeros (fixed_digits k (v mod 10 ^ k))"
  have n: "0 \<le> v mod 10 ^ k" "v mod 10 ^ k < 10 ^ k" by simp_all
  have len: "list_all is_digit ?s" "length ?s = k" using fixed_digits_are [OF n(1), of k] by simp_all
  have split: "?s = ?ds @ replicate (k - length ?ds) (CHR ''0'')" using drop_zeros_split [of ?s] len(2) by simp
  have "digits_value ?s = v mod 10 ^ k" by (rule digits_value_fixed [OF n])
  then have val: "digits_value ?ds * 10 ^ (k - length ?ds) = v mod 10 ^ k"
    using digits_value_zeros [of ?ds "k - length ?ds"] split by simp
  have "list_all is_digit ?ds" using len(1) split by (metis list_all_append)
  moreover have "length ?ds \<le> k" using split len(2) by (metis le_add1 length_append)
  ultimately show ?thesis using val by (cases "?ds = []") (auto simp: fmt_frac_def Let_def digits_value_def)
qed

subsection \<open>One term\<close>

definition good_unit :: "string \<Rightarrow> int \<Rightarrow> bool" where
  "good_unit un u \<longleftrightarrow> duration_unit un = Some u \<and> un \<noteq> [] \<and> list_all unit_char un \<and> 0 < u"

lemma good_units:
  "good_unit ''ns'' 1" "good_unit (micro_sign @ ''s'') 1000" "good_unit ''ms'' 1000000" "good_unit ''s'' 1000000000"
  "good_unit ''m'' 60000000000" "good_unit ''h'' 3600000000000"
  by (simp_all add: good_unit_def duration_unit_def micro_sign_def micro_greek_def unit_char_def is_digit_def)

lemma good_unit_last: "good_unit un u \<Longrightarrow> last un \<noteq> CHR ''0''"
proof -
  assume "good_unit un u"
  then have "unit_char (last un)" by (simp add: good_unit_def list_all_iff)
  then show ?thesis by (auto simp: unit_char_def is_digit_def)
qed

lemma take_unit:
  assumes "list_all unit_char un" and "rest = [] \<or> is_digit (hd rest)"
  shows "takeWhile unit_char (un @ rest) = un" and "dropWhile unit_char (un @ rest) = rest"
proof -
  have "takeWhile unit_char rest = []" "dropWhile unit_char rest = rest" using assms(2) by (cases rest; simp add: unit_char_def)+
  then show "takeWhile unit_char (un @ rest) = un" "dropWhile unit_char (un @ rest) = rest"
    using assms(1) by (simp_all add: list_all_iff takeWhile_append2 dropWhile_append2)
qed

lemma good_unit_hd: "good_unit un u \<Longrightarrow> no_digit (un @ rest) \<and> hd (un @ rest) \<noteq> CHR ''.''"
  by (cases un) (auto simp: good_unit_def no_digit_def unit_char_def)

lemma parse_term_int:
  assumes "0 \<le> v" and "v * u \<le> 2 ^ 63" and un: "good_unit un u" and rest: "rest = [] \<or> is_digit (hd rest)"
  shows "parse_term (dec_digits v @ un @ rest) = Some (v * u, rest)"
proof -
  let ?s = "dec_digits v @ un @ rest"
  have u: "0 < u" "duration_unit un = Some u" "list_all unit_char un" "un \<noteq> []" using un by (simp_all add: good_unit_def)
  have d: "list_all is_digit (dec_digits v)" "dec_digits v \<noteq> []" using dec_digits_are [OF assms(1)] by simp_all
  have "v \<le> v * u" using u(1) assms(1) by (simp add: mult_le_cancel_left1)
  then have v: "v \<le> 2 ^ 63" using assms(2) by linarith
  have li: "leading_int 0 ?s = Some (v, un @ rest)"
    using leading_int_digits [of 0 "dec_digits v" "un @ rest"] d(1) v good_unit_hd [OF un] digits_value_dec [OF assms(1)]
    by (simp add: digits_value_from)
  have h: "is_digit (hd ?s)" using d by (cases "dec_digits v") auto
  have nd: "hd (un @ rest) \<noteq> CHR ''.''" using good_unit_hd [OF un] by blast
  have div: "v \<le> 2 ^ 63 div u" using zdiv_mono1 [of "v * u" "2 ^ 63" u] u(1) assms(2) by simp
  have pre: "length ?s \<noteq> length (un @ rest)" "?s \<noteq> []" using d(2) by simp_all
  show ?thesis
    unfolding parse_term_def li option.case prod.case Let_def
    using pre h nd div take_unit [OF u(3) rest] u(2) assms(2) by simp
qed

lemma frac_value:
  assumes "list_all is_digit ds" and "length ds \<le> k" and "k \<le> 9"
  shows "int_of_f64 (fmul (f64_of_int (digits_value ds)) (fdiv (f64_of_int (10 ^ k)) (of_int (10 ^ length ds))))
    = digits_value ds * 10 ^ (k - length ds)"
    and "digits_value ds < 10 ^ length ds"
proof -
  show b: "digits_value ds < 10 ^ length ds" using assms(1)
  proof (induction ds rule: rev_induct)
    case (snoc c ds)
    then have "(of_char c :: int) - 48 \<le> 9" by (simp add: is_digit_def)
    moreover have "digits_value ds \<le> 10 ^ length ds - 1" using snoc by simp
    ultimately show ?case by (simp add: digits_value_snoc)
  qed (simp add: digits_value_def)
  let ?f = "digits_value ds" and ?e = "10 ^ (k - length ds) :: int"
  have pk: "(10 :: int) ^ j \<le> 10 ^ 9" if "j \<le> 9" for j using that by (intro power_increasing) auto
  have f0: "0 \<le> ?f" by (rule digits_value_nonneg [OF assms(1)])
  have "?f * ?e \<le> 10 ^ length ds * ?e" using b by (intro mult_right_mono) auto
  also have "\<dots> = 10 ^ k" using assms(2) by (simp add: power_add [symmetric])
  also have "\<dots> \<le> 10 ^ 9" by (rule pk [OF assms(3)])
  finally have fe: "?f * ?e \<le> 10 ^ 9" .
  have exact: "f64_of_int m = of_int m" if "0 \<le> m" "m \<le> 10 ^ 9" for m using that by simp
  have "?f \<le> 10 ^ 9" using b pk [of "length ds"] assms(2,3) by simp
  then have 1: "f64_of_int ?f = of_int ?f" using exact f0 by blast
  have 2: "f64_of_int (10 ^ k) = of_int (10 ^ k)" using exact pk [OF assms(3)] by simp
  have pw: "(10 :: int) ^ k = ?e * 10 ^ length ds" using assms(2) by (simp add: power_add [symmetric])
  have q: "(of_int (10 ^ k) :: rat) / of_int (10 ^ length ds) = of_int ?e"
    by (subst pw) (simp only: of_int_mult nonzero_mult_div_cancel_right of_int_power of_int_numeral power_not_zero zero_neq_numeral [symmetric] not_False_eq_True)
  have 3: "fdiv (of_int (10 ^ k)) (of_int (10 ^ length ds)) = of_int ?e"
  proof -
    have "?e \<le> 10 ^ 9" by (rule pk) (use assms(3) in simp)
    then show ?thesis unfolding fdiv_def q by (intro f64.rnd_of_int) simp
  qed
  have 4: "fmul (of_int ?f) (of_int ?e) = of_int (?f * ?e)"
    unfolding fmul_def of_int_mult [symmetric] using fe f0 by (intro f64.rnd_of_int) simp
  show "int_of_f64 (fmul (f64_of_int ?f) (fdiv (f64_of_int (10 ^ k)) (of_int (10 ^ length ds)))) = ?f * ?e"
    unfolding 1 2 3 4 by (rule int_of_f64_of_int)
qed

lemma parse_term_decimal:
  assumes "0 \<le> w" and "w \<le> 2 ^ 63" and un: "good_unit un (10 ^ k)" and "k \<le> 9" and rest: "rest = [] \<or> is_digit (hd rest)"
    and v: "0 \<le> v" "v * 10 ^ k + w mod 10 ^ k \<le> 2 ^ 63"
  shows "parse_term (dec_digits v @ fmt_frac k w @ un @ rest) = Some (v * 10 ^ k + w mod 10 ^ k, rest)"
proof (cases "fmt_frac k w = []")
  case True
  then have "w mod 10 ^ k = 0" using fmt_frac_cases [OF assms(1), of k] by auto
  then show ?thesis using parse_term_int [OF v(1) _ un rest] v(2) True by simp
next
  case False
  then obtain ds where ds: "fmt_frac k w = CHR ''.'' # ds" "ds \<noteq> []" "list_all is_digit ds" "length ds \<le> k"
    "digits_value ds * 10 ^ (k - length ds) = w mod 10 ^ k" using fmt_frac_cases [OF assms(1), of k] by blast
  let ?s = "dec_digits v @ fmt_frac k w @ un @ rest" and ?s1 = "CHR ''.'' # ds @ un @ rest"
  have s: "?s = dec_digits v @ ?s1" by (simp add: ds(1))
  have d: "list_all is_digit (dec_digits v)" "dec_digits v \<noteq> []" using dec_digits_are [OF v(1)] by simp_all
  have "v \<le> v * 10 ^ k" using v(1) by (simp add: mult_le_cancel_left1)
  moreover have n0: "0 \<le> w mod 10 ^ k" by simp
  ultimately have v63: "v \<le> 2 ^ 63" using v(2) by linarith
  have li: "leading_int 0 ?s = Some (v, ?s1)"
    unfolding s using leading_int_digits [of 0 "dec_digits v" ?s1] d(1) v63 digits_value_dec [OF v(1)]
    by (simp add: digits_value_from no_digit_def is_digit_def)
  have fv: "digits_value ds < 10 ^ length ds" by (rule frac_value(2) [OF ds(3,4) assms(4)])
  have "(10 :: int) ^ length ds \<le> 10 ^ 15" using ds(4) assms(4) by (intro power_increasing) auto
  then have lf: "leading_fraction 0 1 False (ds @ un @ rest) = (digits_value ds, of_int (10 ^ length ds), un @ rest)"
    using leading_fraction_digits [of 0 ds 0 "un @ rest"] ds(3,4) assms(4) fv good_unit_hd [OF un]
    by (simp add: digits_value_from)
  have u: "duration_unit un = Some (10 ^ k)" "list_all unit_char un" using un by (simp_all add: good_unit_def)
  have "v * 10 ^ k \<le> 2 ^ 63" using v(2) n0 by linarith
  then have div: "v \<le> 2 ^ 63 div 10 ^ k"
    using zdiv_mono1 [of "v * 10 ^ k" "2 ^ 63" "10 ^ k"] by simp
  have val: "(if digits_value ds > 0 then int_of_f64 (fmul (f64_of_int (digits_value ds)) (fdiv (f64_of_int (10 ^ k)) (of_int (10 ^ length ds))))
      else 0) = w mod 10 ^ k"
    using frac_value(1) [OF ds(3,4) assms(4)] ds(5) digits_value_nonneg [OF ds(3)] by auto
  have cond: "\<not> (?s = [] \<or> \<not> (hd ?s = CHR ''.'' \<or> is_digit (hd ?s)))" using d by (cases "dec_digits v") (auto simp: s)
  have part: "(if ?s1 \<noteq> [] \<and> hd ?s1 = CHR ''.''
      then (case leading_fraction 0 1 False (tl ?s1) of (f, scale, r) \<Rightarrow> (f, scale, r, length (tl ?s1) \<noteq> length r))
      else (0, 1, ?s1, False)) = (digits_value ds, of_int (10 ^ length ds), un @ rest, True)"
    using ds(2) by (simp add: lf)
  have "parse_term ?s = (if v > 2 ^ 63 div 10 ^ k then None
      else if v * 10 ^ k + w mod 10 ^ k > 2 ^ 63 then None else Some (v * 10 ^ k + w mod 10 ^ k, rest))"
    unfolding parse_term_def if_not_P [OF cond] li option.case prod.case Let_def part
    unfolding take_unit [OF u(2) rest] u(1) option.case val by (simp only: not_True_eq_False simp_thms if_False)
  then show ?thesis using div v(2) by (simp only: not_less [symmetric] if_False)
qed

subsection \<open>The whole duration\<close>

lemma parse_terms_step:
  "s \<noteq> [] \<Longrightarrow> parse_term s = Some (w, s') \<Longrightarrow> d + w \<le> 2 ^ 63 \<Longrightarrow> parse_terms (Suc n) d s = parse_terms n (d + w) s'"
  by (cases s) auto

lemma dec_digits_text: "0 \<le> n \<Longrightarrow> dec_digits n @ t \<noteq> [] \<and> is_digit (hd (dec_digits n @ t))"
  using dec_digits_are [of n] by (cases "dec_digits n") auto

lemma split_int: "0 < k \<Longrightarrow> w div k * k + w mod k = w" for w k :: int
  by simp

lemma parse_decimal:
  assumes "0 \<le> w" and "w \<le> 2 ^ 63" and "good_unit un (10 ^ k)" and "k \<le> 9"
  shows "parse_terms (Suc n) 0 (dec_digits (w div 10 ^ k) @ fmt_frac k w @ un) = Some w"
proof -
  have v: "0 \<le> w div 10 ^ k" using assms(1) by (simp add: pos_imp_zdiv_nonneg_iff)
  have s: "w div 10 ^ k * 10 ^ k + w mod 10 ^ k = w" by (rule split_int) simp
  have "parse_term (dec_digits (w div 10 ^ k) @ fmt_frac k w @ un) = Some (w, [])"
    using parse_term_decimal [OF assms(1-4) _ v, of "[]"] s assms(2) by simp
  from parse_terms_step [OF _ this, of 0 n] dec_digits_text [OF v] assms(2) show ?thesis by simp
qed

text \<open>Seconds below a minute with their fraction, after what has been read.\<close>

lemma parse_seconds:
  assumes "0 \<le> d" and "d + (w div 1000000000 mod 60) * 1000000000 + w mod 1000000000 \<le> 2 ^ 63" and "0 \<le> w" and "w \<le> 2 ^ 63"
  shows "parse_terms (Suc n) d (dec_digits (w div 1000000000 mod 60) @ fmt_frac 9 w @ ''s'')
    = Some (d + (w div 1000000000 mod 60) * 1000000000 + w mod 1000000000)"
proof -
  let ?v = "w div 1000000000 mod 60" and ?t = "dec_digits (w div 1000000000 mod 60) @ fmt_frac 9 w @ ''s''"
  have u: "good_unit ''s'' (10 ^ 9)" using good_units(4) by simp
  have "?v * 10 ^ 9 + w mod 10 ^ 9 \<le> 2 ^ 63" using assms(1,2) by simp
  then have t: "parse_term ?t = Some (?v * 10 ^ 9 + w mod 10 ^ 9, [])"
    using parse_term_decimal [OF assms(3,4) u _ _ _, of "[]" ?v] by simp
  from parse_terms_step [OF _ this, of d n] dec_digits_text [of ?v] assms(2) show ?thesis by (simp add: add.assoc)
qed

lemma parse_whole:
  assumes "0 \<le> d" and "0 \<le> v" and "d + v * u \<le> 2 ^ 63" and un: "good_unit un u" and "rest = [] \<or> is_digit (hd rest)"
  shows "parse_terms (Suc n) d (dec_digits v @ un @ rest) = parse_terms n (d + v * u) rest"
proof -
  have "v * u \<le> 2 ^ 63" using assms(1,3) by linarith
  from parse_terms_step [OF _ parse_term_int [OF assms(2) this un assms(5)] assms(3)] dec_digits_text [OF assms(2)]
  show ?thesis by simp
qed

definition unsigned_text :: "int \<Rightarrow> string" where
  "unsigned_text u =
     (if u < 1000 then dec_digits (u div 10 ^ 0) @ fmt_frac 0 u @ ''ns''
      else if u < 1000000 then dec_digits (u div 10 ^ 3) @ fmt_frac 3 u @ micro_sign @ ''s''
      else if u < 1000000000 then dec_digits (u div 10 ^ 6) @ fmt_frac 6 u @ ''ms''
      else
        let total = u div 1000000000; secs = dec_digits (total mod 60) @ fmt_frac 9 u @ ''s'';
            mins = dec_digits (total div 60 mod 60) @ ''m''; hours = dec_digits (total div 3600) @ ''h''
        in if total div 60 = 0 then secs else if total div 3600 = 0 then mins @ secs else hours @ mins @ secs)"

lemma duration_text_unsigned: "d \<noteq> 0 \<Longrightarrow> duration_text d = (if d < 0 then ''-'' else []) @ unsigned_text \<bar>d\<bar>"
  by (simp add: duration_text_def unsigned_text_def Let_def)

lemma parse_unsigned:
  assumes "0 < u" and "u \<le> 2 ^ 63"
  shows "parse_terms (Suc (Suc (Suc n))) 0 (unsigned_text u) = Some u" and "is_digit (hd (unsigned_text u))"
    and "unsigned_text u \<noteq> []" and "unsigned_text u \<noteq> ''0''"
proof -
  define total where "total = u div 1000000000"
  define secs where "secs = dec_digits (total mod 60) @ fmt_frac 9 u @ ''s''"
  define mins where "mins = dec_digits (total div 60 mod 60) @ ''m''"
  have u0: "0 \<le> u" "0 \<le> total" using assms(1) by (simp_all add: total_def pos_imp_zdiv_nonneg_iff)
  have whole: "total * 1000000000 + u mod 1000000000 = u" by (simp add: total_def)
  have hd_secs: "is_digit (hd (secs @ t))" "secs @ t \<noteq> []" and hd_mins: "is_digit (hd (mins @ t))" "mins @ t \<noteq> []" for t
    using dec_digits_text [of "total mod 60" "fmt_frac 9 u @ ''s'' @ t"] dec_digits_text [of "total div 60 mod 60" "''m'' @ t"]
    by (simp_all add: secs_def mins_def)
  have secs: "parse_terms (Suc k) d secs = Some (d + total mod 60 * 1000000000 + u mod 1000000000)"
    if "0 \<le> d" "d + total mod 60 * 1000000000 + u mod 1000000000 \<le> 2 ^ 63" for k d
    using parse_seconds [OF that(1) _ u0(1) assms(2)] that(2) by (simp add: secs_def total_def)
  have mins: "parse_terms (Suc (Suc k)) d (mins @ secs) = Some (d + total div 60 mod 60 * 60000000000 + total mod 60 * 1000000000 + u mod 1000000000)"
    if "0 \<le> d" "d + total div 60 mod 60 * 60000000000 + total mod 60 * 1000000000 + u mod 1000000000 \<le> 2 ^ 63" for k d
  proof -
    have n: "0 \<le> total mod 60 * 1000000000 + u mod 1000000000" by simp
    have "parse_terms (Suc (Suc k)) d (mins @ secs) = parse_terms (Suc k) (d + total div 60 mod 60 * 60000000000) secs"
      unfolding mins_def append_assoc using that n hd_secs(1) [of "[]"] by (intro parse_whole [OF _ _ _ good_units(5)]) auto
    then show ?thesis using secs [of "d + total div 60 mod 60 * 60000000000" k] that by simp
  qed
  have hm: "total div 3600 * 3600 + total div 60 mod 60 * 60 + total mod 60 = total"
  proof -
    have "total div 3600 = total div 60 div 60" by (simp add: zdiv_zmult2_eq [symmetric])
    then show ?thesis using split_int [of 60 "total div 60"] split_int [of 60 total] by linarith
  qed
  let ?goal = "\<lambda>s. parse_terms (Suc (Suc (Suc n))) 0 s = Some u \<and> is_digit (hd s) \<and> s \<noteq> [] \<and> s \<noteq> ''0''"
  have small: "?goal (dec_digits (u div 10 ^ k) @ fmt_frac k u @ un)" if "good_unit un (10 ^ k)" "k \<le> 9" for un k
  proof -
    have "0 \<le> u div 10 ^ k" using u0(1) by (simp add: pos_imp_zdiv_nonneg_iff)
    moreover have "last (dec_digits (u div 10 ^ k) @ fmt_frac k u @ un) \<noteq> CHR ''0''"
      using good_unit_last [OF that(1)] that(1) by (simp add: good_unit_def)
    then have "dec_digits (u div 10 ^ k) @ fmt_frac k u @ un \<noteq> ''0''" by (auto dest: arg_cong [where f = last])
    ultimately show ?thesis using parse_decimal [OF u0(1) assms(2) that] dec_digits_text [of "u div 10 ^ k" "fmt_frac k u @ un"]
      by simp
  qed
  have zero: "secs \<noteq> ''0''" "mins @ secs \<noteq> ''0''" "x @ mins @ secs \<noteq> ''0''" for x
  proof -
    have "last secs = CHR ''s''" by (simp add: secs_def)
    then have "last (y @ secs) \<noteq> CHR ''0''" for y using hd_secs(2) [of "[]"] by simp
    from this [of "[]"] this [of mins] this [of "x @ mins"] show "secs \<noteq> ''0''" "mins @ secs \<noteq> ''0''" "x @ mins @ secs \<noteq> ''0''"
      by (auto dest: arg_cong [where f = last])
  qed
  have "?goal (unsigned_text u)"
  proof (cases "u < 1000000000")
    case True
    then show ?thesis using small [of "''ns''" 0] small [of "micro_sign @ ''s''" 3] small [of "''ms''" 6] good_units
      by (simp add: unsigned_text_def)
  next
    case False
    have txt_eq: "unsigned_text u = (if total div 60 = 0 then secs else if total div 3600 = 0 then mins @ secs
        else dec_digits (total div 3600) @ ''h'' @ mins @ secs)"
      using False by (simp add: unsigned_text_def secs_def mins_def total_def Let_def)
    consider "total div 60 = 0" | "total div 60 \<noteq> 0" "total div 3600 = 0" | "total div 60 \<noteq> 0" "total div 3600 \<noteq> 0" by blast
    then show ?thesis
    proof cases
      case 1
      then have "total mod 60 = total" using split_int [of 60 total] by simp
      then show ?thesis using 1 secs [of 0 "Suc (Suc n)"] whole assms(2) hd_secs [of "[]"] zero(1) by (simp add: txt_eq)
    next
      case 2
      then have "total div 60 mod 60 * 60 + total mod 60 = total" using hm by simp
      then have "total div 60 mod 60 * 60000000000 + total mod 60 * 1000000000 + u mod 1000000000 = u" using whole by linarith
      then show ?thesis using 2 mins [of 0 "Suc n"] assms(2) hd_mins [of secs] zero(2) by (simp add: txt_eq)
    next
      case 3
      let ?h = "total div 3600"
      have h: "0 \<le> ?h" using u0(2) by (simp add: pos_imp_zdiv_nonneg_iff)
      have sum: "?h * 3600000000000 + total div 60 mod 60 * 60000000000 + total mod 60 * 1000000000 + u mod 1000000000 = u"
        using hm whole by linarith
      have n: "0 \<le> total div 60 mod 60 * 60000000000 + total mod 60 * 1000000000 + u mod 1000000000" by simp
      have le: "0 + ?h * 3600000000000 \<le> 2 ^ 63" using sum n assms(2) by linarith
      have pos: "0 \<le> 0 + ?h * 3600000000000" using h by simp
      have "parse_terms (Suc (Suc (Suc n))) 0 (dec_digits ?h @ ''h'' @ mins @ secs)
          = parse_terms (Suc (Suc n)) (0 + ?h * 3600000000000) (mins @ secs)"
        by (rule parse_whole [OF order_refl h le good_units(6) disjI2 [OF hd_mins(1)]])
      also have "\<dots> = Some u" using mins [OF pos, of n] unfolding add_0 sum using assms(2) by simp
      finally have p: "parse_terms (Suc (Suc (Suc n))) 0 (dec_digits ?h @ ''h'' @ mins @ secs) = Some u" .
      have t: "unsigned_text u = dec_digits ?h @ ''h'' @ mins @ secs" using 3 by (simp only: txt_eq if_False)
      have d: "is_digit (hd (dec_digits ?h @ ''h'' @ mins @ secs))" "dec_digits ?h @ ''h'' @ mins @ secs \<noteq> []"
        using dec_digits_text [OF h, of "''h'' @ mins @ secs"] by blast+
      have "dec_digits ?h @ ''h'' @ mins @ secs \<noteq> ''0''" using zero(3) [of "dec_digits ?h @ ''h''"] by simp
      then show ?thesis unfolding t using p d by blast
    qed
  qed
  then show "parse_terms (Suc (Suc (Suc n))) 0 (unsigned_text u) = Some u" "is_digit (hd (unsigned_text u))"
    "unsigned_text u \<noteq> []" "unsigned_text u \<noteq> ''0''" by blast+
qed

text \<open>The rounds are enough: a term is never empty.\<close>

lemma leading_int_shorter: "leading_int x s = Some (v, t) \<Longrightarrow> length t \<le> length s"
  by (induction x s rule: leading_int.induct) (auto simp: Let_def split: if_splits)

lemma leading_fraction_shorter: "leading_fraction x sc b s = (f, sc', t) \<Longrightarrow> length t \<le> length s"
  by (induction x sc b s rule: leading_fraction.induct) (auto simp: Let_def split: if_splits)

lemma drop_unit_shorter: "duration_unit (takeWhile unit_char s) = Some u \<Longrightarrow> length (dropWhile unit_char s) < length s"
proof -
  assume "duration_unit (takeWhile unit_char s) = Some u"
  then have "takeWhile unit_char s \<noteq> []" by (auto simp: duration_unit_def micro_sign_def micro_greek_def)
  moreover have "length s = length (takeWhile unit_char s) + length (dropWhile unit_char s)"
    by (metis length_append takeWhile_dropWhile_id)
  ultimately show ?thesis by simp
qed

lemma parse_term_shorter:
  assumes "parse_term s = Some (w, t)"
  shows "length t < length s"
proof -
  obtain v s1 where li: "leading_int 0 s = Some (v, s1)" using assms by (auto simp: parse_term_def split: if_splits option.splits)
  obtain f sc r where lf: "leading_fraction 0 1 False (tl s1) = (f, sc, r)" by (cases "leading_fraction 0 1 False (tl s1)")
  let ?s2 = "if s1 \<noteq> [] \<and> hd s1 = CHR ''.'' then r else s1"
  have none: "duration_unit [] = None" by (simp add: duration_unit_def micro_sign_def micro_greek_def)
  have "t = dropWhile unit_char ?s2 \<and> duration_unit (takeWhile unit_char ?s2) \<noteq> None"
    using assms li lf none by (auto simp: parse_term_def Let_def split: if_splits option.splits)
  then obtain u where t: "t = dropWhile unit_char ?s2" "duration_unit (takeWhile unit_char ?s2) = Some u" by blast
  then have "length t < length ?s2" using drop_unit_shorter [OF t(2)] by simp
  moreover have "length ?s2 \<le> length s1" using leading_fraction_shorter [OF lf] by auto
  ultimately show ?thesis using leading_int_shorter [OF li] by linarith
qed

lemma parse_terms_enough: "parse_terms n d s = Some r \<Longrightarrow> length s \<le> m \<Longrightarrow> parse_terms m d s = Some r"
proof (induction n d s arbitrary: m rule: parse_terms.induct)
  case (3 n d c cs)
  then obtain k where m: "m = Suc k" by (cases m) auto
  from 3 show ?case
    by (auto simp: m split: option.splits if_splits dest: parse_term_shorter)
qed (auto split: option.splits)

text \<open>
  Durations survive the configuration's JSON. For every duration, \<open>UnmarshalJSON\<close> of what
  \<open>MarshalJSON\<close> writes is that duration: the text of hours, minutes and decimal seconds or of the smaller units, with its
  trimmed fraction, is read back without a rounding error in spite of the float arithmetic on fractions, the
  sign included and the least \<open>int64\<close> too.
\<close>

theorem duration_round_trip:
  assumes "- (2 ^ 63) \<le> d" and "d < 2 ^ 63"
  shows "unmarshal_duration (marshal_duration d) = Inr d"
proof (cases "d = 0")
  case True
  have "parse_duration ''0s'' = Some 0" by code_simp
  then show ?thesis using True by (simp add: unmarshal_duration_def marshal_duration_def duration_text_def)
next
  case False
  let ?t = "unsigned_text \<bar>d\<bar>"
  have u: "0 < \<bar>d\<bar>" "\<bar>d\<bar> \<le> 2 ^ 63" using False assms by linarith+
  note p = parse_unsigned [OF u]
  have pt: "parse_terms (length ?t) 0 ?t = Some \<bar>d\<bar>" by (rule parse_terms_enough [OF p(1) order_refl])
  have hd: "hd ?t \<noteq> CHR ''-''" "hd ?t \<noteq> CHR ''+''" using p(2) by (auto simp: is_digit_def)
  have "parse_duration (duration_text d) = Some d"
  proof (cases "d < 0")
    case True
    then show ?thesis using pt p(3,4) by (simp add: duration_text_unsigned [OF False] parse_duration_def Let_def)
  next
    case nonneg: False
    have "\<not> \<bar>d\<bar> > 2 ^ 63 - 1" using nonneg assms(2) by simp
    then show ?thesis using nonneg pt p(3,4) hd by (simp add: duration_text_unsigned [OF False] parse_duration_def Let_def)
  qed
  then show ?thesis by (simp add: unmarshal_duration_def marshal_duration_def)
qed

theorem duration_round_trip_witness:
  "unmarshal_duration (marshal_duration 3661500000000) = Inr 3661500000000
    \<and> unmarshal_duration (marshal_duration (- (2 ^ 63))) = Inr (- (2 ^ 63))"
  using duration_round_trip [of 3661500000000] duration_round_trip [of "- (2 ^ 63)"] by simp

end
