(* ===== verification/Api.thy ===== *)
theory Api
  imports Messaging Queries Stats Durations
begin

text \<open>
  \<open>internal/api\<close>: the HTTP interface. A request is its method, the segments of its clean path, its first
  value for each query parameter, its \<open>Authorization\<close> header and what \<open>Decode\<close> left in the admin body (the
  zero value when the body is missing or malformed). A response is its status and its body before JSON.
  Routing is that of \<open>http.ServeMux\<close> for the registered patterns; listening and serving are not modelled.
\<close>

definition second :: int where "second = 1000000000"
definition hour :: int where "hour = 3600 * second"

text \<open>\<open>strconv.Atoi\<close> with its error ignored: zero when the text is not a number, the nearest \<open>int\<close> when it is
  out of range. \<open>ParseUint\<close> stops at the first digit that overflows, whatever follows.\<close>

datatype uint_scan = ScanOk int | ScanSyntax | ScanRange

fun scan_uint :: "int \<Rightarrow> string \<Rightarrow> uint_scan" where
  "scan_uint n [] = ScanOk n"
| "scan_uint n (c # cs) =
     (if \<not> is_digit c then ScanSyntax
      else let m = 10 * n + (of_char c - 48) in if m > 2 ^ 64 - 1 then ScanRange else scan_uint m cs)"

definition atoi :: "string \<Rightarrow> int" where
  "atoi s =
     (let neg = (s \<noteq> [] \<and> hd s = CHR ''-'');
          ds = (if s \<noteq> [] \<and> (hd s = CHR ''-'' \<or> hd s = CHR ''+'') then tl s else s)
      in if ds = [] then 0
         else case scan_uint 0 ds of ScanSyntax \<Rightarrow> 0
         | ScanRange \<Rightarrow> if neg then - (2 ^ 63) else 2 ^ 63 - 1
         | ScanOk n \<Rightarrow> if neg then (if n > 2 ^ 63 then - (2 ^ 63) else - n) else (if n \<ge> 2 ^ 63 then 2 ^ 63 - 1 else n))"

definition parse_window :: "string \<Rightarrow> int \<Rightarrow> int" where
  "parse_window s def =
     (if s = [] then def
      else case parse_duration s of None \<Rightarrow> def
      | Some d \<Rightarrow> if d \<le> 0 \<or> d > 30 * 24 * hour then def else d)"

subsection \<open>Requests, routes and responses\<close>

datatype admin_act = ActPause | ActResume | ActDrain | ActMaintenance | ActRestart | ActDisable

definition action_name :: "admin_act \<Rightarrow> string" where
  "action_name k =
     (case k of ActPause \<Rightarrow> ''pause'' | ActResume \<Rightarrow> ''resume'' | ActDrain \<Rightarrow> ''drain'' | ActMaintenance \<Rightarrow> ''maintenance''
      | ActRestart \<Rightarrow> ''restart'' | ActDisable \<Rightarrow> ''disable'')"

record admin_body =
  ab_grace_seconds :: int
  ab_message :: string

record request =
  rq_method :: string
  rq_path :: "string list"
  rq_query :: "string \<Rightarrow> string"
  rq_authorization :: string
  rq_body :: admin_body

datatype route =
    RHealth
  | RMetrics
  | RPools
  | RPool string
  | RBlocks string
  | RMiners string
  | RMiner string string
  | RPayments string
  | RAdmin admin_act string
  | RState string

record port_view =
  pv_port :: int
  pv_vardiff :: bool
  pv_difficulty :: f64

record pool_view =
  vw_id :: string
  vw_coin_symbol :: string
  vw_payment_mode :: string
  vw_pool_fee_percent :: f64
  vw_state :: string
  vw_maintenance_message :: string
  vw_ports :: "port_view list"
  vw_live :: pool_stats

record health_view =
  hv_uptime_seconds :: int
  hv_region :: string
  hv_node_id :: string
  hv_pools :: nat
  hv_pool_states :: "string \<Rightarrow> string option"
  hv_sessions :: int
  hv_database :: bool

datatype api_error = Unauthorized | UnknownPoolId | NoDatabase | QueryFailure | LifecycleError lifecycle_error

datatype api_body =
    ErrBody api_error
  | MetricsBody
  | HealthBody health_view
  | PoolsBody "pool_view list"
  | PoolBody pool_view
  | BlocksBody "block_view list"
  | MinersBody "work_row list"
  | MinerBody string "miner_stats option" "work_row list option"
  | PaymentsBody "payment_view list"
  | StateBody string string "string option"
  | PublishedBody string string lifecycle_error
  | NoBody

record response =
  rs_status :: int
  rs_body :: api_body

definition reply :: "int \<Rightarrow> api_body \<Rightarrow> response" where
  "reply status body = \<lparr>rs_status = status, rs_body = body\<rparr>"

text \<open>The fixed options, and the collaborators' state: absent ones are \<open>None\<close>. \<open>as_commands\<close> is what
  \<open>PublishCommand\<close> has sent, when it is set; \<open>as_changes\<close> is what the lifecycle's hook was told.\<close>

record api_options =
  aop_config :: config
  aop_has_metrics :: bool
  aop_admin_token :: string
  aop_codec :: msg_codec
  aop_started :: int

record api_state =
  as_lifecycle :: lifecycle
  as_stats :: "collector option"
  as_store :: "db option"
  as_sessions :: "int option"
  as_commands :: "message list option"
  as_changes :: "state_change list"

text \<open>What the environment decides: the clock, whether a query succeeds and whether a publish does.\<close>

record api_env =
  en_now :: int
  en_query_ok :: bool
  en_publish_ok :: bool

definition admin_suffix :: "string \<Rightarrow> admin_act option" where
  "admin_suffix s =
     (if s = ''pause'' then Some ActPause else if s = ''resume'' then Some ActResume else if s = ''drain'' then Some ActDrain
      else if s = ''maintenance'' then Some ActMaintenance else if s = ''restart'' then Some ActRestart
      else if s = ''disable'' then Some ActDisable else None)"

text \<open>The registered patterns that match a path, with their method. A wildcard matches one segment that is
  not empty.\<close>

definition pool_route :: "string list \<Rightarrow> (string \<times> route) option" where
  "pool_route path =
     (case path of
        [] \<Rightarrow> Some (''GET'', RPools)
      | i # rest \<Rightarrow>
        if i = [] then None
        else if rest = [] then Some (''GET'', RPool i)
        else if rest = [''blocks''] then Some (''GET'', RBlocks i)
        else if rest = [''miners''] then Some (''GET'', RMiners i)
        else if rest = [''payments''] then Some (''GET'', RPayments i)
        else if length rest = 2 \<and> hd rest = ''miners'' \<and> rest ! 1 \<noteq> [] then Some (''GET'', RMiner i (rest ! 1))
        else None)"

definition admin_route :: "string list \<Rightarrow> (string \<times> route) option" where
  "admin_route path =
     (if length path = 2 \<and> hd path \<noteq> []
      then (if path ! 1 = ''state'' then Some (''GET'', RState (hd path))
            else map_option (\<lambda>k. (''POST'', RAdmin k (hd path))) (admin_suffix (path ! 1)))
      else None)"

definition routes :: "api_options \<Rightarrow> string list \<Rightarrow> (string \<times> route) option" where
  "routes opts path =
     (if path = [''api'', ''health''] then Some (''GET'', RHealth)
      else if path = [''metrics''] \<and> aop_has_metrics opts then Some (''GET'', RMetrics)
      else if take 2 path = [''api'', ''pools''] then pool_route (drop 2 path)
      else if take 3 path = [''api'', ''admin'', ''pools''] \<and> aop_admin_token opts \<noteq> [] then admin_route (drop 3 path)
      else None)"

text \<open>A \<open>GET\<close> pattern also serves \<open>HEAD\<close>.\<close>

definition method_matches :: "string \<Rightarrow> string \<Rightarrow> bool" where
  "method_matches pattern m \<longleftrightarrow> m = pattern \<or> (pattern = ''GET'' \<and> m = ''HEAD'')"

subsection \<open>The public handlers\<close>

definition handle_health :: "api_options \<Rightarrow> api_env \<Rightarrow> api_state \<Rightarrow> response" where
  "handle_health opts e st =
     reply 200 (HealthBody
       \<lparr>hv_uptime_seconds = int_of_f64 (seconds (en_now e - aop_started opts)),
        hv_region = cf_region (aop_config opts), hv_node_id = cf_node_id (aop_config opts),
        hv_pools = length (cf_pools (aop_config opts)),
        hv_pool_states = foldl (\<lambda>m p. case get_pool_state (as_lifecycle st) (pc_id p) of
            Inr s \<Rightarrow> m(pc_id p \<mapsto> state_string s) | Inl _ \<Rightarrow> m) Map.empty (cf_pools (aop_config opts)),
        hv_sessions = (case as_sessions st of None \<Rightarrow> 0 | Some n \<Rightarrow> n),
        hv_database = (as_store st \<noteq> None)\<rparr>)"

definition zero_stats :: pool_stats where
  "zero_stats = \<lparr>ps_shares = 0, ps_blocks = 0, ps_miners = 0, ps_hashrate_1m = 0, ps_hashrate_15m = 0\<rparr>"

definition view_pool :: "api_options \<Rightarrow> api_env \<Rightarrow> api_state \<Rightarrow> pool_config \<Rightarrow> pool_view" where
  "view_pool opts e st p =
     \<lparr>vw_id = pc_id p, vw_coin_symbol = pc_coin_symbol p, vw_payment_mode = pc_payment_mode p,
      vw_pool_fee_percent = pc_pool_fee_percent p,
      vw_state = (case get_pool_state (as_lifecycle st) (pc_id p) of Inr s \<Rightarrow> state_string s | Inl _ \<Rightarrow> []),
      vw_maintenance_message = (if get_pool_state (as_lifecycle st) (pc_id p) = Inr Maintenance
        then maintenance_message (as_lifecycle st) (pc_id p) else []),
      vw_ports = map (\<lambda>q. \<lparr>pv_port = pt_port q, pv_vardiff = pt_vardiff q, pv_difficulty = pt_difficulty q\<rparr>)
        (filter (\<lambda>q. pt_pool_id q = pc_id p) (sg_ports (cf_stratum (aop_config opts)))),
      vw_live = (case as_stats st of None \<Rightarrow> zero_stats | Some c \<Rightarrow> pool_stats_of (en_now e) c (pc_id p))\<rparr>"

definition handle_pools :: "api_options \<Rightarrow> api_env \<Rightarrow> api_state \<Rightarrow> response" where
  "handle_pools opts e st = reply 200 (PoolsBody (map (view_pool opts e st) (cf_pools (aop_config opts))))"

definition find_pool :: "api_options \<Rightarrow> string \<Rightarrow> pool_config option" where
  "find_pool opts i = pool_by_id (cf_pools (aop_config opts)) i"

definition handle_pool :: "api_options \<Rightarrow> api_env \<Rightarrow> api_state \<Rightarrow> string \<Rightarrow> response" where
  "handle_pool opts e st i =
     (case find_pool opts i of None \<Rightarrow> reply 404 (ErrBody UnknownPoolId)
      | Some p \<Rightarrow> reply 200 (PoolBody (view_pool opts e st p)))"

text \<open>The frame the three database handlers share.\<close>

definition from_store :: "api_options \<Rightarrow> api_env \<Rightarrow> api_state \<Rightarrow> string \<Rightarrow> (db \<Rightarrow> api_body) \<Rightarrow> response" where
  "from_store opts e st i query =
     (case find_pool opts i of None \<Rightarrow> reply 404 (ErrBody UnknownPoolId)
      | Some p \<Rightarrow>
        (case as_store st of None \<Rightarrow> reply 503 (ErrBody NoDatabase)
         | Some d \<Rightarrow> if \<not> en_query_ok e then reply 500 (ErrBody QueryFailure) else reply 200 (query d)))"

definition handle_pool_blocks :: "api_options \<Rightarrow> api_env \<Rightarrow> api_state \<Rightarrow> request \<Rightarrow> string \<Rightarrow> response" where
  "handle_pool_blocks opts e st r i =
     from_store opts e st i (\<lambda>d. BlocksBody (list_blocks d i (atoi (rq_query r ''limit'')) (atoi (rq_query r ''offset''))))"

definition handle_pool_miners :: "api_options \<Rightarrow> api_env \<Rightarrow> api_state \<Rightarrow> request \<Rightarrow> string \<Rightarrow> response" where
  "handle_pool_miners opts e st r i =
     from_store opts e st i (\<lambda>d. MinersBody
       (top_miners (en_now e) d i (parse_window (rq_query r ''window'') hour) (atoi (rq_query r ''limit''))))"

definition handle_pool_miner :: "api_options \<Rightarrow> api_env \<Rightarrow> api_state \<Rightarrow> request \<Rightarrow> string \<Rightarrow> string \<Rightarrow> response" where
  "handle_pool_miner opts e st r i miner =
     (case find_pool opts i of None \<Rightarrow> reply 404 (ErrBody UnknownPoolId)
      | Some p \<Rightarrow>
        let live = (case as_stats st of None \<Rightarrow> None | Some c \<Rightarrow> miner_stats_of (en_now e) c i miner)
        in case as_store st of None \<Rightarrow> reply 200 (MinerBody miner live None)
           | Some d \<Rightarrow>
             if \<not> en_query_ok e then reply 500 (ErrBody QueryFailure)
             else reply 200 (MinerBody miner live
               (Some (miner_workers (en_now e) d i miner (parse_window (rq_query r ''window'') hour)))))"

definition handle_pool_payments :: "api_options \<Rightarrow> api_env \<Rightarrow> api_state \<Rightarrow> request \<Rightarrow> string \<Rightarrow> response" where
  "handle_pool_payments opts e st r i =
     from_store opts e st i (\<lambda>d. PaymentsBody
       (list_payments d i (rq_query r ''miner'') (atoi (rq_query r ''limit'')) (atoi (rq_query r ''offset''))))"

subsection \<open>The admin handlers\<close>

definition require_admin :: "api_options \<Rightarrow> request \<Rightarrow> bool" where
  "require_admin opts r \<longleftrightarrow> rq_authorization r = ''Bearer '' @ aop_admin_token opts"

definition admin_state_reply :: "api_state \<Rightarrow> string \<Rightarrow> response" where
  "admin_state_reply st i =
     (case get_pool_state (as_lifecycle st) i of Inl err \<Rightarrow> reply 404 (ErrBody (LifecycleError err))
      | Inr s \<Rightarrow> reply 200 (StateBody i (state_string s)
          (if s = Maintenance then Some (maintenance_message (as_lifecycle st) i) else None)))"

definition admin_op :: "admin_act \<Rightarrow> admin_body \<Rightarrow> pool_op" where
  "admin_op k b =
     (case k of
        ActPause \<Rightarrow> OpPause
      | ActResume \<Rightarrow> OpResume
      | ActDrain \<Rightarrow> OpDrain (drain_grace (ab_grace_seconds b))
      | ActMaintenance \<Rightarrow>
        (let msg = trim_space (ab_message b) in OpMaintain (if msg = [] then ''pool is under maintenance'' else msg))
      | ActRestart \<Rightarrow> OpRestart
      | ActDisable \<Rightarrow> OpDisable)"

text \<open>The closure \<open>main\<close> gives as \<open>PublishCommand\<close>.\<close>

definition admin_command :: "api_options \<Rightarrow> admin_act \<Rightarrow> string \<Rightarrow> admin_body \<Rightarrow> command_msg" where
  "admin_command opts k i b =
     \<lparr>km_pool_id = i, km_action = action_name k, km_message = ab_message b, km_grace_seconds = ab_grace_seconds b,
      km_origin = cf_node_id (aop_config opts)\<rparr>"

definition admin_action :: "api_options \<Rightarrow> api_env \<Rightarrow> api_state \<Rightarrow> request \<Rightarrow> admin_act \<Rightarrow> string \<Rightarrow> api_state \<times> response" where
  "admin_action opts e st r k i =
     (let (lc, chg, err) = apply_op (en_now e) (as_lifecycle st) i (admin_op k (rq_body r));
          sent = (case as_commands st of None \<Rightarrow> None
            | Some out \<Rightarrow>
              (case publish_command (aop_codec opts) (en_publish_ok e) (admin_command opts k i (rq_body r)) of
                 Inl _ \<Rightarrow> None | Inr m \<Rightarrow> Some (out @ [m])));
          st' = st\<lparr>as_lifecycle := lc, as_changes := as_changes st @ chg,
                   as_commands := (if sent = None then as_commands st else sent)\<rparr>
      in (st', case err of None \<Rightarrow> admin_state_reply st' i
               | Some x \<Rightarrow>
                 if sent \<noteq> None then reply 202 (PublishedBody i (action_name k) x)
                 else reply (case x of UnknownPool _ \<Rightarrow> 404 | _ \<Rightarrow> 409) (ErrBody (LifecycleError x))))"

definition dispatch :: "api_options \<Rightarrow> api_env \<Rightarrow> api_state \<Rightarrow> request \<Rightarrow> route \<Rightarrow> api_state \<times> response" where
  "dispatch opts e st r rt =
     (case rt of
        RHealth \<Rightarrow> (st, handle_health opts e st)
      | RMetrics \<Rightarrow> (st, reply 200 MetricsBody)
      | RPools \<Rightarrow> (st, handle_pools opts e st)
      | RPool i \<Rightarrow> (st, handle_pool opts e st i)
      | RBlocks i \<Rightarrow> (st, handle_pool_blocks opts e st r i)
      | RMiners i \<Rightarrow> (st, handle_pool_miners opts e st r i)
      | RMiner i m \<Rightarrow> (st, handle_pool_miner opts e st r i m)
      | RPayments i \<Rightarrow> (st, handle_pool_payments opts e st r i)
      | RAdmin k i \<Rightarrow> if \<not> require_admin opts r then (st, reply 401 (ErrBody Unauthorized)) else admin_action opts e st r k i
      | RState i \<Rightarrow> (st, if \<not> require_admin opts r then reply 401 (ErrBody Unauthorized) else admin_state_reply st i))"

definition serve_request :: "api_options \<Rightarrow> api_env \<Rightarrow> api_state \<Rightarrow> request \<Rightarrow> api_state \<times> response" where
  "serve_request opts e st r =
     (case routes opts (rq_path r) of None \<Rightarrow> (st, reply 404 NoBody)
      | Some (m, rt) \<Rightarrow> if \<not> method_matches m (rq_method r) then (st, reply 405 NoBody) else dispatch opts e st r rt)"

subsection \<open>Who may act\<close>

lemma admin_suffix_name: "admin_suffix s = Some k \<longleftrightarrow> s = action_name k"
  by (cases k) (auto simp: admin_suffix_def action_name_def)

lemma pool_route_reads: "pool_route path = Some (m, rt) \<Longrightarrow> rt \<noteq> RAdmin k i"
  by (auto simp: pool_route_def split: list.splits if_splits)

lemma admin_route_action: "admin_route rest = Some (m, RAdmin k i) \<longleftrightarrow> m = ''POST'' \<and> i \<noteq> [] \<and> rest = [i, action_name k]"
proof (cases "length rest = 2")
  case True
  then obtain a b where r: "rest = [a, b]" by (auto simp: numeral_2_eq_2 length_Suc_conv)
  have n: "action_name k \<noteq> ''state''" by (cases k) (simp_all add: action_name_def)
  show ?thesis
    using n by (auto simp: r admin_route_def admin_suffix_name)
qed (auto simp: admin_route_def)

lemma routes_admin:
  "routes opts path = Some (m, RAdmin k i) \<longleftrightarrow>
     m = ''POST'' \<and> aop_admin_token opts \<noteq> [] \<and> i \<noteq> [] \<and> path = [''api'', ''admin'', ''pools'', i, action_name k]"
  (is "?l \<longleftrightarrow> ?r")
proof
  assume l: ?l
  then have a: "take 3 path = [''api'', ''admin'', ''pools'']" "aop_admin_token opts \<noteq> []" "admin_route (drop 3 path) = Some (m, RAdmin k i)"
    by (auto simp: routes_def split: if_splits dest: pool_route_reads)
  have "path = take 3 path @ drop 3 path" by simp
  then have "path = [''api'', ''admin'', ''pools''] @ drop 3 path" unfolding a(1) .
  then show ?r using a(2,3) by (simp add: admin_route_action)
next
  assume ?r
  then show ?l by (auto simp: routes_def admin_route_action numeral_eq_Suc)
qed

lemma dispatch_reads: "(\<And>k i. rt \<noteq> RAdmin k i) \<Longrightarrow> fst (dispatch opts e st r rt) = st"
  by (cases rt) (auto simp: dispatch_def)

text \<open>A request that changes anything is an authorised action on one pool.\<close>

lemma serve_changes:
  assumes "serve_request opts e st r = (st', resp)" and "st' \<noteq> st"
  obtains k i where "rq_method r = ''POST''" and "aop_admin_token opts \<noteq> []" and "require_admin opts r"
    and "rq_path r = [''api'', ''admin'', ''pools'', i, action_name k]" and "(st', resp) = admin_action opts e st r k i"
proof -
  obtain m rt where rt: "routes opts (rq_path r) = Some (m, rt)" "method_matches m (rq_method r)" "dispatch opts e st r rt = (st', resp)"
    using assms by (auto simp: serve_request_def split: option.splits if_splits)
  then obtain k i where k: "rt = RAdmin k i" using dispatch_reads [of rt opts e st r] assms(2) by auto
  have "m = ''POST''" "aop_admin_token opts \<noteq> []" "rq_path r = [''api'', ''admin'', ''pools'', i, action_name k]"
    using rt(1) by (simp_all add: k routes_admin)
  moreover have "require_admin opts r" "(st', resp) = admin_action opts e st r k i"
    using rt(3) assms(2) by (auto simp: k dispatch_def split: if_splits)
  ultimately show ?thesis using that rt(2) by (simp add: method_matches_def)
qed

lemma publish_command_subject: "publish_command c ok cmd = Inr m \<Longrightarrow> fst m = command_subject (km_pool_id cmd)"
  by (auto simp: publish_command_def split: if_splits option.splits)

lemma admin_action_frame:
  assumes "named (as_lifecycle st)" and "admin_action opts e st r k i = (st', resp)"
  shows "as_stats st' = as_stats st \<and> as_store st' = as_store st \<and> as_sessions st' = as_sessions st
    \<and> (\<forall>j. j \<noteq> i \<longrightarrow> lc_pools (as_lifecycle st') j = lc_pools (as_lifecycle st) j)
    \<and> (\<exists>chg. as_changes st' = as_changes st @ chg \<and> (\<forall>c \<in> set chg. sc_pool_id c = i))
    \<and> (\<exists>ms. as_commands st' = map_option (\<lambda>out. out @ ms) (as_commands st) \<and> (\<forall>m \<in> set ms. fst m = command_subject i))"
proof -
  obtain lc chg err where a: "apply_op (en_now e) (as_lifecycle st) i (admin_op k (rq_body r)) = (lc, chg, err)"
    by (cases "apply_op (en_now e) (as_lifecycle st) i (admin_op k (rq_body r))")
  have m: "op_moves (as_lifecycle st) i (lc, chg, err)"
    using apply_op_moves [of "as_lifecycle st" i "en_now e" "admin_op k (rq_body r)"] unfolding a .
  note one = op_moves_pool(2,3) [OF assms(1) m]
  have id: "km_pool_id (admin_command opts k i (rq_body r)) = i" by (simp add: admin_command_def)
  have "\<exists>ms. as_commands st' = map_option (\<lambda>out. out @ ms) (as_commands st) \<and> (\<forall>m \<in> set ms. fst m = command_subject i)"
  proof (cases "as_commands st")
    case None
    then show ?thesis using assms(2) by (intro exI [of _ "[]"]) (auto simp: admin_action_def a Let_def)
  next
    case (Some out)
    show ?thesis
    proof (cases "publish_command (aop_codec opts) (en_publish_ok e) (admin_command opts k i (rq_body r))")
      case (Inl x)
      then have "as_commands st' = Some (out @ [])" using assms(2) Some by (auto simp: admin_action_def a Let_def)
      then show ?thesis using Some by (intro exI [of _ "[]"]) simp
    next
      case (Inr msg)
      then have "as_commands st' = Some (out @ [msg])" using assms(2) Some by (auto simp: admin_action_def a Let_def)
      then show ?thesis using Some publish_command_subject [OF Inr] id by (intro exI [of _ "[msg]"]) simp
    qed
  qed
  then show ?thesis using assms(2) one by (auto simp: admin_action_def a Let_def)
qed

text \<open>
  C13: only the operator changes a pool, and one pool at a time. If serving any request changes the
  lifecycle, reports a change to the hook or publishes a command, then an admin token is configured, the
  request is a \<open>POST\<close> to an admin action of one pool with exactly that bearer token, every other
  pool's service is as it was, the changes and the commands are about that pool alone, and the statistics and the
  database are untouched. Without the token such a request is answered 401 and changes nothing.
\<close>

theorem admin_authority:
  assumes "named (as_lifecycle st)"
  shows "(serve_request opts e st r = (st', resp) \<and> st' \<noteq> st \<longrightarrow>
      aop_admin_token opts \<noteq> [] \<and> rq_method r = ''POST'' \<and> rq_authorization r = ''Bearer '' @ aop_admin_token opts
      \<and> (\<exists>k i chg ms. rq_path r = [''api'', ''admin'', ''pools'', i, action_name k]
          \<and> as_stats st' = as_stats st \<and> as_store st' = as_store st \<and> as_sessions st' = as_sessions st
          \<and> (\<forall>j. j \<noteq> i \<longrightarrow> lc_pools (as_lifecycle st') j = lc_pools (as_lifecycle st) j)
          \<and> as_changes st' = as_changes st @ chg \<and> (\<forall>c \<in> set chg. sc_pool_id c = i)
          \<and> as_commands st' = map_option (\<lambda>out. out @ ms) (as_commands st) \<and> (\<forall>m \<in> set ms. fst m = command_subject i)))
    \<and> (\<forall>k i. rq_method r = ''POST'' \<and> rq_path r = [''api'', ''admin'', ''pools'', i, action_name k] \<and> i \<noteq> []
        \<and> aop_admin_token opts \<noteq> [] \<and> rq_authorization r \<noteq> ''Bearer '' @ aop_admin_token opts
        \<longrightarrow> serve_request opts e st r = (st, reply 401 (ErrBody Unauthorized)))"
proof (intro conjI impI allI)
  assume c: "serve_request opts e st r = (st', resp) \<and> st' \<noteq> st"
  then obtain k i where k: "rq_method r = ''POST''" "aop_admin_token opts \<noteq> []" "require_admin opts r"
    "rq_path r = [''api'', ''admin'', ''pools'', i, action_name k]" "admin_action opts e st r k i = (st', resp)"
    by (metis serve_changes)
  from admin_action_frame [OF assms k(5)] show "\<exists>k i chg ms. rq_path r = [''api'', ''admin'', ''pools'', i, action_name k]
          \<and> as_stats st' = as_stats st \<and> as_store st' = as_store st \<and> as_sessions st' = as_sessions st
          \<and> (\<forall>j. j \<noteq> i \<longrightarrow> lc_pools (as_lifecycle st') j = lc_pools (as_lifecycle st) j)
          \<and> as_changes st' = as_changes st @ chg \<and> (\<forall>c \<in> set chg. sc_pool_id c = i)
          \<and> as_commands st' = map_option (\<lambda>out. out @ ms) (as_commands st) \<and> (\<forall>m \<in> set ms. fst m = command_subject i)"
    using k(4) by blast
  show "aop_admin_token opts \<noteq> []" "rq_method r = ''POST''" "rq_authorization r = ''Bearer '' @ aop_admin_token opts"
    using k by (simp_all add: require_admin_def)
next
  fix k i
  assume h: "rq_method r = ''POST'' \<and> rq_path r = [''api'', ''admin'', ''pools'', i, action_name k] \<and> i \<noteq> []
        \<and> aop_admin_token opts \<noteq> [] \<and> rq_authorization r \<noteq> ''Bearer '' @ aop_admin_token opts"
  then have "routes opts (rq_path r) = Some (''POST'', RAdmin k i)" using routes_admin [of opts "rq_path r" "''POST''" k i] by simp
  then show "serve_request opts e st r = (st, reply 401 (ErrBody Unauthorized))"
    using h by (simp add: serve_request_def method_matches_def dispatch_def require_admin_def)
qed

definition sample_opts :: api_options where
  "sample_opts =
     \<lparr>aop_config = sample_config, aop_has_metrics = False, aop_admin_token = ''t0k'',
      aop_codec = Messaging.sample_codec, aop_started = 0\<rparr>"

definition sample_state :: api_state where
  "sample_state =
     \<lparr>as_lifecycle = sample_lifecycle, as_stats = None, as_store = Some sample_db, as_sessions = Some 3,
      as_commands = Some [], as_changes = []\<rparr>"

definition sample_env :: api_env where
  "sample_env = \<lparr>en_now = 7, en_query_ok = True, en_publish_ok = True\<rparr>"

definition sample_request :: "string \<Rightarrow> string \<Rightarrow> string list \<Rightarrow> request" where
  "sample_request token m path =
     \<lparr>rq_method = m, rq_path = path, rq_query = (\<lambda>_. []), rq_authorization = ''Bearer '' @ token,
      rq_body = \<lparr>ab_grace_seconds = 0, ab_message = '' closed ''\<rparr>\<rparr>"

lemma sample_named: "named sample_lifecycle"
  unfolding sample_lifecycle_def by (rule new_lifecycle_named)

theorem admin_authority_witness:
  "let path = [''api'', ''admin'', ''pools'', ''btc'', ''pause''];
       st' = fst (serve_request sample_opts sample_env sample_state (sample_request ''t0k'' ''POST'' path))
   in length (as_changes st') = 1 \<and> lc_pools (as_lifecycle st') ''ltc'' = lc_pools sample_lifecycle ''ltc''
      \<and> serve_request sample_opts sample_env sample_state (sample_request ''guess'' ''POST'' path)
          = (sample_state, reply 401 (ErrBody Unauthorized))"
proof -
  let ?path = "[''api'', ''admin'', ''pools'', ''btc'', ''pause'']"
  let ?r = "sample_request ''t0k'' ''POST'' ?path" and ?g = "sample_request ''guess'' ''POST'' ?path"
  obtain st' resp where s: "serve_request sample_opts sample_env sample_state ?r = (st', resp)"
    by (cases "serve_request sample_opts sample_env sample_state ?r")
  have n: "named (as_lifecycle sample_state)" using sample_named by (simp add: sample_state_def)
  have l: "length (as_changes (fst (serve_request sample_opts sample_env sample_state ?r))) = 1" by code_simp
  have "as_changes sample_state = []" by (simp add: sample_state_def)
  then have ne: "st' \<noteq> sample_state" using l unfolding s by auto
  have p: "rq_path ?r = ?path" by (simp add: sample_request_def)
  have "lc_pools (as_lifecycle st') ''ltc'' = lc_pools (as_lifecycle sample_state) ''ltc''"
    using admin_authority [OF n, of sample_opts sample_env ?r st' resp] s ne unfolding p by auto
  moreover have "serve_request sample_opts sample_env sample_state ?g = (sample_state, reply 401 (ErrBody Unauthorized))"
  proof -
    have "rq_method ?g = ''POST''" "rq_path ?g = [''api'', ''admin'', ''pools'', ''btc'', action_name ActPause]"
      "aop_admin_token sample_opts \<noteq> []" "rq_authorization ?g \<noteq> ''Bearer '' @ aop_admin_token sample_opts"
      by (simp_all add: sample_request_def action_name_def sample_opts_def)
    then show ?thesis using admin_authority [OF n, of sample_opts sample_env ?g] by blast
  qed
  ultimately show ?thesis using l s by (simp add: Let_def sample_state_def)
qed

subsection \<open>The cluster follows\<close>

lemma trim_space_default: "trim_space '' '' = []" "trim_space default_maintenance = default_maintenance"
  by code_simp+

text \<open>The operation a remote node takes from the command is the one applied here, unless the maintenance
  message has white space around it, which is removed here only.\<close>

lemma admin_op_command:
  "command_op (admin_command opts k i b) = Some (admin_op k b) \<longleftrightarrow> k \<noteq> ActMaintenance \<or> trim_space (ab_message b) = ab_message b"
proof (cases "k = ActMaintenance")
  case True
  have "trim_space default_maintenance \<noteq> []" by (simp add: trim_space_default) (simp add: default_maintenance_def)
  then show ?thesis
    using True by (auto simp: command_op_def admin_command_def action_name_def admin_op_def Let_def default_maintenance_def)
qed (cases k; simp add: command_op_def admin_command_def action_name_def admin_op_def)

lemma maintain_message:
  "lc_pools lc i = Some s \<Longrightarrow> reason \<noteq> [] \<Longrightarrow>
   maintenance_message (fst (put_pool_in_maintenance now lc i reason)) i = reason"
  by (auto simp: put_pool_in_maintenance_def with_pool_def set_state_def maintenance_message_def
      service_maintenance_message_def Let_def split: sum.splits prod.splits if_splits)

lemma applier_op:
  "command_op cmd = Some op \<Longrightarrow> apply_op now lc (km_pool_id cmd) op = (lc', chg, err) \<Longrightarrow>
   \<exists>err'. lifecycle_applier now lc cmd = (lc', chg, err')"
  by (auto simp: lifecycle_applier_def)

text \<open>
  C27: what the operator does here the cluster does. An admin action on a node that publishes commands
  sends exactly one command, addressed to the pool; a node with the same lifecycle that receives it makes the same
  changes to the same pool and ends in the same lifecycle, also when the action is refused or the pool unknown. The exception
  is a maintenance message with white space around it, which is trimmed here and not in the command: then the two
  nodes show their miners different messages.
\<close>

theorem cluster_follows:
  assumes codec: "\<forall>cmd p. mc_command (aop_codec opts) cmd = Some p \<longrightarrow> mc_read_command (aop_codec opts) p = Some cmd"
    and pub: "as_commands st = Some out" "en_publish_ok e" "i \<noteq> []"
    and p: "mc_command (aop_codec opts) (admin_command opts k i (rq_body r)) = Some p"
    and act: "admin_action opts e st r k i = (st', resp)"
  defines "remote \<equiv> on_command (aop_codec opts) (en_now e) (as_lifecycle st) p"
  shows "as_commands st' = Some (out @ [(command_subject i, p)])
    \<and> (k \<noteq> ActMaintenance \<or> trim_space (ab_message (rq_body r)) = ab_message (rq_body r) \<longrightarrow>
        fst remote = as_lifecycle st' \<and> as_changes st' = as_changes st @ snd remote)
    \<and> (k = ActMaintenance \<and> trim_space (ab_message (rq_body r)) \<noteq> ab_message (rq_body r) \<and> lc_pools (as_lifecycle st) i \<noteq> None \<longrightarrow>
        maintenance_message (fst remote) i \<noteq> maintenance_message (as_lifecycle st') i)"
proof -
  let ?cmd = "admin_command opts k i (rq_body r)" and ?msg = "ab_message (rq_body r)"
  obtain lc chg err where a: "apply_op (en_now e) (as_lifecycle st) i (admin_op k (rq_body r)) = (lc, chg, err)"
    by (cases "apply_op (en_now e) (as_lifecycle st) i (admin_op k (rq_body r))")
  have cmd: "km_pool_id ?cmd = i" "km_action ?cmd \<noteq> []" by (cases k; simp add: admin_command_def action_name_def)+
  have pb: "publish_command (aop_codec opts) (en_publish_ok e) ?cmd = Inr (command_subject i, p)"
    using pub(2,3) cmd p by (simp add: publish_command_def)
  have st': "as_commands st' = Some (out @ [(command_subject i, p)])" "as_lifecycle st' = lc" "as_changes st' = as_changes st @ chg"
    using act pub(1) pb by (auto simp: admin_action_def a Let_def)
  have "mc_read_command (aop_codec opts) p = Some ?cmd" using codec p by blast
  then have rem: "remote = (case lifecycle_applier (en_now e) (as_lifecycle st) ?cmd of (lc', chg, err) \<Rightarrow> (lc', chg))"
    by (simp add: remote_def on_command_def)
  have same: "remote = (lc, chg)" if "command_op ?cmd = Some (admin_op k (rq_body r))"
    using applier_op [OF that, of "en_now e" "as_lifecycle st" lc chg err] a cmd(1) by (auto simp: rem)
  have differ: "maintenance_message (fst remote) i \<noteq> maintenance_message lc i"
    if k: "k = ActMaintenance" and t: "trim_space ?msg \<noteq> ?msg" and s: "lc_pools (as_lifecycle st) i = Some s" for s
  proof -
    define here where "here = (if trim_space ?msg = [] then default_maintenance else trim_space ?msg)"
    have m: "?msg \<noteq> []" using t by auto
    have h: "here \<noteq> []" "here \<noteq> ?msg"
      using t trim_space_default(2) by (auto simp: here_def default_maintenance_def)
    have "command_op ?cmd = Some (OpMaintain ?msg)" using m by (simp add: k command_op_def admin_command_def action_name_def)
    then have "fst remote = fst (put_pool_in_maintenance (en_now e) (as_lifecycle st) i ?msg)"
      using cmd(1) by (simp add: rem lifecycle_applier_def split: prod.splits)
    moreover have "lc = fst (put_pool_in_maintenance (en_now e) (as_lifecycle st) i here)"
      using a by (auto simp: k admin_op_def here_def default_maintenance_def Let_def split: if_splits)
    ultimately show ?thesis using maintain_message [OF s] m h by simp
  qed
  show ?thesis
    using st' same differ admin_op_command [of opts k i "rq_body r"] by auto
qed

definition two_commands :: msg_codec where
  "two_commands =
     (let cmd = (\<lambda>k. admin_command sample_opts k ''btc'' \<lparr>ab_grace_seconds = 0, ab_message = '' closed ''\<rparr>) in
      Messaging.sample_codec
        \<lparr>mc_command := (\<lambda>x. if x = cmd ActPause then Some [1] else if x = cmd ActMaintenance then Some [2] else None),
         mc_read_command := (\<lambda>p. if p = [1] then Some (cmd ActPause) else if p = [2] then Some (cmd ActMaintenance) else None)\<rparr>)"

theorem cluster_follows_witness:
  "let opts = sample_opts\<lparr>aop_codec := two_commands\<rparr>; r = sample_request ''t0k'' ''POST'' [];
       here = (\<lambda>k. fst (admin_action opts sample_env sample_state r k ''btc''));
       there = (\<lambda>p. fst (on_command two_commands 7 sample_lifecycle p))
   in as_commands (here ActPause) = Some [(''commands.pool.btc'', [1])] \<and> there [1] = as_lifecycle (here ActPause)
      \<and> maintenance_message (there [2]) ''btc'' \<noteq> maintenance_message (as_lifecycle (here ActMaintenance)) ''btc''"
proof -
  let ?opts = "sample_opts\<lparr>aop_codec := two_commands\<rparr>" and ?r = "sample_request ''t0k'' ''POST'' []"
  have c: "\<forall>cmd p. mc_command (aop_codec ?opts) cmd = Some p \<longrightarrow> mc_read_command (aop_codec ?opts) p = Some cmd"
    by (simp add: two_commands_def Let_def)
  have m: "mc_command (aop_codec ?opts) (admin_command ?opts ActPause ''btc'' (rq_body ?r)) = Some [1]"
    "mc_command (aop_codec ?opts) (admin_command ?opts ActMaintenance ''btc'' (rq_body ?r)) = Some [2]"
    by (simp_all add: admin_command_def action_name_def two_commands_def sample_request_def Let_def)
  have st: "as_commands sample_state = Some []" "as_lifecycle sample_state = sample_lifecycle" "en_publish_ok sample_env" "en_now sample_env = 7"
    by (simp_all add: sample_state_def sample_env_def)
  have t: "trim_space (ab_message (rq_body ?r)) \<noteq> ab_message (rq_body ?r)"
    by code_simp
  have k: "lc_pools sample_lifecycle ''btc'' \<noteq> None" by code_simp
  note inst = cluster_follows [OF c st(1,3) _ _ surjective_pairing]
  show ?thesis
    using inst [OF _ m(1)] inst [OF _ m(2)] t k by (simp add: st Let_def command_subject_def subject_cmd_prefix_def)
qed

subsection \<open>What a pool's pages show\<close>

definition pool_rows :: "string \<Rightarrow> db \<Rightarrow> block_row list \<times> share_row list \<times> payment_row list" where
  "pool_rows i d =
     (filter (\<lambda>b. br_pool b = i) (db_blocks d), filter (\<lambda>s. sh_pool s = i) (db_shares d), filter (\<lambda>m. pm_pool m = i) (db_payments d))"

definition same_pool :: "string \<Rightarrow> api_state \<Rightarrow> api_state \<Rightarrow> bool" where
  "same_pool i st1 st2 \<longleftrightarrow>
     lc_pools (as_lifecycle st1) i = lc_pools (as_lifecycle st2) i
     \<and> map_option (\<lambda>c. c i) (as_stats st1) = map_option (\<lambda>c. c i) (as_stats st2)
     \<and> map_option (pool_rows i) (as_store st1) = map_option (pool_rows i) (as_store st2)"

definition page_of :: "route \<Rightarrow> string option" where
  "page_of rt =
     (case rt of RPool i \<Rightarrow> Some i | RBlocks i \<Rightarrow> Some i | RMiners i \<Rightarrow> Some i | RMiner i _ \<Rightarrow> Some i
      | RPayments i \<Rightarrow> Some i | RState i \<Rightarrow> Some i | _ \<Rightarrow> None)"

lemma rows_only:
  assumes "pool_rows i d1 = pool_rows i d2"
  shows "list_blocks d1 i limit offset = list_blocks d2 i limit offset"
    and "list_payments d1 i miner limit offset = list_payments d2 i miner limit offset"
    and "top_miners now d1 i window limit = top_miners now d2 i window limit"
    and "miner_workers now d1 i miner window = miner_workers now d2 i miner window"
proof -
  have b: "filter (\<lambda>b. br_pool b = i) (db_blocks d1) = filter (\<lambda>b. br_pool b = i) (db_blocks d2)"
    and s: "filter (\<lambda>s. sh_pool s = i) (db_shares d1) = filter (\<lambda>s. sh_pool s = i) (db_shares d2)"
    and p: "filter (\<lambda>m. pm_pool m = i) (db_payments d1) = filter (\<lambda>m. pm_pool m = i) (db_payments d2)"
    using assms by (simp_all add: pool_rows_def)
  have conj: "filter (\<lambda>x. P x \<and> Q x) xs = filter Q (filter P xs)" for P Q and xs :: "'x list" by (simp add: conj_commute)
  show "list_blocks d1 i limit offset = list_blocks d2 i limit offset" by (simp add: list_blocks_def b)
  show "list_payments d1 i miner limit offset = list_payments d2 i miner limit offset"
    unfolding list_payments_def conj p ..
  show "top_miners now d1 i window limit = top_miners now d2 i window limit"
    unfolding top_miners_def conj s ..
  show "miner_workers now d1 i miner window = miner_workers now d2 i miner window"
    unfolding miner_workers_def conj s ..
qed

lemma pool_by_id_Some: "pool_by_id ps i = Some p \<Longrightarrow> pc_id p = i \<and> p \<in> set ps"
  by (induction ps) (auto split: if_splits)

lemma same_pool_view:
  assumes "same_pool i st1 st2"
  shows "get_pool_state (as_lifecycle st1) i = get_pool_state (as_lifecycle st2) i"
    and "maintenance_message (as_lifecycle st1) i = maintenance_message (as_lifecycle st2) i"
    and "as_store st1 = None \<longleftrightarrow> as_store st2 = None"
    and "as_store st1 = Some d1 \<Longrightarrow> as_store st2 = Some d2 \<Longrightarrow> pool_rows i d1 = pool_rows i d2"
  using assms by (cases "as_store st1"; cases "as_store st2"; simp add: same_pool_def get_pool_state_def maintenance_message_def)+

lemma same_pool_live:
  assumes "same_pool i st1 st2"
  shows "(case as_stats st1 of None \<Rightarrow> z | Some c \<Rightarrow> pool_stats_of now c i)
      = (case as_stats st2 of None \<Rightarrow> z | Some c \<Rightarrow> pool_stats_of now c i)"
    and "(case as_stats st1 of None \<Rightarrow> y | Some c \<Rightarrow> miner_stats_of now c i x)
      = (case as_stats st2 of None \<Rightarrow> y | Some c \<Rightarrow> miner_stats_of now c i x)"
proof -
  have "map_option (\<lambda>c. c i) (as_stats st1) = map_option (\<lambda>c. c i) (as_stats st2)" using assms by (simp add: same_pool_def)
  then show "(case as_stats st1 of None \<Rightarrow> z | Some c \<Rightarrow> pool_stats_of now c i)
      = (case as_stats st2 of None \<Rightarrow> z | Some c \<Rightarrow> pool_stats_of now c i)"
    and "(case as_stats st1 of None \<Rightarrow> y | Some c \<Rightarrow> miner_stats_of now c i x)
      = (case as_stats st2 of None \<Rightarrow> y | Some c \<Rightarrow> miner_stats_of now c i x)"
    by (cases "as_stats st1"; cases "as_stats st2"; simp add: pool_stats_of_def miner_stats_of_def)+
qed

lemma same_pool_store:
  assumes "same_pool i st1 st2" and q: "\<And>d1 d2. pool_rows i d1 = pool_rows i d2 \<Longrightarrow> q d1 = q d2"
  shows "from_store opts e st1 i q = from_store opts e st2 i q"
proof (cases "as_store st1")
  case None
  then have n2: "as_store st2 = None" using same_pool_view(3) [OF assms(1)] by simp
  show ?thesis unfolding from_store_def None n2 option.case ..
next
  case (Some d1)
  then obtain d2 where d2: "as_store st2 = Some d2" using same_pool_view(3) [OF assms(1)] by (cases "as_store st2") auto
  show ?thesis unfolding from_store_def Some d2 option.case q [OF same_pool_view(4) [OF assms(1) Some d2]] ..
qed

lemma same_pool_miner:
  assumes "same_pool i st1 st2"
  shows "handle_pool_miner opts e st1 r i x = handle_pool_miner opts e st2 r i x"
proof (cases "as_store st1")
  case None
  then have n2: "as_store st2 = None" using same_pool_view(3) [OF assms] by simp
  show ?thesis unfolding handle_pool_miner_def same_pool_live(2) [OF assms] None n2 option.case ..
next
  case (Some d1)
  then obtain d2 where d2: "as_store st2 = Some d2" using same_pool_view(3) [OF assms] by (cases "as_store st2") auto
  show ?thesis
    unfolding handle_pool_miner_def same_pool_live(2) [OF assms] Some d2 option.case
      rows_only(4) [OF same_pool_view(4) [OF assms Some d2]] ..
qed

text \<open>
  A pool's pages show that pool. For every request to a page of a pool, its overview, blocks, miners,
  payments or state, the status and the body are a function of the configuration and of that pool's own service,
  statistics and rows: whatever the other pools did, the answer is the same.
\<close>

theorem pool_pages_isolated:
  assumes "routes opts (rq_path r) = Some (m, rt)" and "page_of rt = Some i" and "same_pool i st1 st2"
  shows "snd (serve_request opts e st1 r) = snd (serve_request opts e st2 r)"
proof -
  note v = same_pool_view [OF assms(3)]
  have view: "view_pool opts e st1 p = view_pool opts e st2 p" if "pc_id p = i" for p
    unfolding view_pool_def that v(1,2) same_pool_live(1) [OF assms(3)] ..
  have found: "pc_id p = i" if "find_pool opts i = Some p" for p
    using pool_by_id_Some that by (simp add: find_pool_def)
  note store = same_pool_store [OF assms(3)] and miner = same_pool_miner [OF assms(3)]
  have blocks: "handle_pool_blocks opts e st1 r i = handle_pool_blocks opts e st2 r i"
    unfolding handle_pool_blocks_def by (rule store) (rule arg_cong [where f = BlocksBody], erule rows_only(1))
  have miners: "handle_pool_miners opts e st1 r i = handle_pool_miners opts e st2 r i"
    unfolding handle_pool_miners_def by (rule store) (rule arg_cong [where f = MinersBody], erule rows_only(3))
  have payments: "handle_pool_payments opts e st1 r i = handle_pool_payments opts e st2 r i"
    unfolding handle_pool_payments_def by (rule store) (rule arg_cong [where f = PaymentsBody], erule rows_only(2))
  have overview: "handle_pool opts e st1 i = handle_pool opts e st2 i"
  proof (cases "find_pool opts i")
    case (Some p)
    show ?thesis unfolding handle_pool_def Some option.case view [OF found [OF Some]] ..
  qed (simp add: handle_pool_def)
  have state: "admin_state_reply st1 i = admin_state_reply st2 i"
    unfolding admin_state_reply_def v(1,2) ..
  have "snd (dispatch opts e st1 r rt) = snd (dispatch opts e st2 r rt)"
    using assms(2) by (cases rt) (simp_all add: page_of_def dispatch_def blocks miners payments overview state miner)
  then show ?thesis using assms(1) by (simp add: serve_request_def)
qed

theorem pool_pages_isolated_witness:
  "let other = sample_state\<lparr>as_lifecycle := fst (pause_pool 9 sample_lifecycle ''ltc''),
                             as_store := Some (sample_db\<lparr>db_shares := (Store.sample_share ''s9'' ''c'' 9 1)\<lparr>sh_pool := ''ltc''\<rparr> # db_shares sample_db\<rparr>)\<rparr>;
       r = sample_request [] ''GET'' [''api'', ''pools'', ''btc'', ''blocks'']
   in get_pool_state (as_lifecycle other) ''ltc'' = Inr Paused
      \<and> snd (serve_request sample_opts sample_env sample_state r) = snd (serve_request sample_opts sample_env other r)"
proof -
  let ?other = "sample_state\<lparr>as_lifecycle := fst (pause_pool 9 sample_lifecycle ''ltc''),
      as_store := Some (sample_db\<lparr>db_shares := (Store.sample_share ''s9'' ''c'' 9 1)\<lparr>sh_pool := ''ltc''\<rparr> # db_shares sample_db\<rparr>)\<rparr>"
  let ?r = "sample_request [] ''GET'' [''api'', ''pools'', ''btc'', ''blocks'']"
  have paused: "get_pool_state (fst (pause_pool 9 sample_lifecycle ''ltc'')) ''ltc'' = Inr Paused" by code_simp
  have rt: "routes sample_opts (rq_path ?r) = Some (''GET'', RBlocks ''btc'')"
    by (simp add: routes_def pool_route_def sample_request_def)
  have "lc_pools (fst (pause_pool 9 sample_lifecycle ''ltc'')) ''btc'' = lc_pools sample_lifecycle ''btc''"
    by (simp add: pause_pool_def with_pool_def split: option.splits sum.splits prod.splits)
  then have "same_pool ''btc'' sample_state ?other" by (simp add: same_pool_def sample_state_def pool_rows_def)
  from pool_pages_isolated [OF rt _ this] have "snd (serve_request sample_opts sample_env sample_state ?r) = snd (serve_request sample_opts sample_env ?other ?r)"
    by (simp add: page_of_def)
  moreover have "get_pool_state (as_lifecycle ?other) ''ltc'' = Inr Paused" using paused by simp
  ultimately show ?thesis unfolding Let_def by blast
qed

end
