(* ===== verification/Session.thy ===== *)
theory Session
  imports VarDiff "HOL-Library.AList"
begin

text \<open>
  \<open>internal/stratum/session\<close>: the extranonce1 allocator, the state of one miner connection and
  the table of live sessions with its per-IP cap. Times are nanoseconds and are arguments. The
  connection itself (sockets, write locks) is not modelled: what is written is an output of the
  handler. The table is an association list by session id; Go iterates its map in no fixed order.
\<close>

subsection \<open>Extranonce1 allocation\<close>

record allocator =
  al_prefix :: bytes
  al_counter :: "32 word"
  al_size :: nat

definition new_allocator :: "int \<Rightarrow> bytes \<Rightarrow> allocator" where
  "new_allocator size0 prefix0 =
     (let width = (if size0 < 4 then 4 else size0);
          n = nat (width - 4)
      in \<lparr>al_prefix = take n (prefix0 @ replicate n 0), al_counter = 0, al_size = nat width\<rparr>)"

text \<open>\<open>counter.Add(1)\<close> wraps; the buffer is the prefix, zeros up to the last four bytes, the
  counter.\<close>

definition alloc_next :: "allocator \<Rightarrow> allocator \<times> string" where
  "alloc_next a =
     (let n = al_counter a + 1;
          buf = take (al_size a - 4) (al_prefix a @ replicate (al_size a) 0) @ put_u32_be n
      in (a\<lparr>al_counter := n\<rparr>, hex_encode buf))"

definition extra_nonce2_size :: nat where
  "extra_nonce2_size = 4"

subsection \<open>Sessions\<close>

record session =
  ss_id :: string
  ss_pool_id :: string
  ss_remote_ip :: string
  ss_subscribed :: bool
  ss_extra_nonce1 :: string
  ss_difficulty :: f64
  ss_prev_difficulty :: f64
  ss_diff_changed_at :: int
  ss_auth_workers :: "string set"
  ss_user_agent :: string
  ss_connected_at :: int
  ss_last_activity :: int
  ss_vardiff :: "controller option"

definition new_session :: "int \<Rightarrow> string \<Rightarrow> string \<Rightarrow> string \<Rightarrow> session" where
  "new_session now sid pool_id host =
     \<lparr>ss_id = sid, ss_pool_id = pool_id, ss_remote_ip = host, ss_subscribed = False,
      ss_extra_nonce1 = [], ss_difficulty = 0, ss_prev_difficulty = 0, ss_diff_changed_at = 0,
      ss_auth_workers = {}, ss_user_agent = [], ss_connected_at = now, ss_last_activity = now,
      ss_vardiff = None\<rparr>"

definition subscribe :: "session \<Rightarrow> string \<Rightarrow> session" where
  "subscribe s en1 = s\<lparr>ss_subscribed := True, ss_extra_nonce1 := en1\<rparr>"

definition is_subscribed :: "session \<Rightarrow> bool" where
  "is_subscribed s = ss_subscribed s"

definition authorize :: "session \<Rightarrow> string \<Rightarrow> session" where
  "authorize s worker = s\<lparr>ss_auth_workers := insert worker (ss_auth_workers s)\<rparr>"

definition is_authorized :: "session \<Rightarrow> string \<Rightarrow> bool" where
  "is_authorized s worker = (worker \<in> ss_auth_workers s)"

definition has_any_authorized :: "session \<Rightarrow> bool" where
  "has_any_authorized s = (ss_auth_workers s \<noteq> {})"

definition update_difficulty :: "int \<Rightarrow> session \<Rightarrow> f64 \<Rightarrow> session" where
  "update_difficulty now s d =
     s\<lparr>ss_prev_difficulty := ss_difficulty s, ss_diff_changed_at := now, ss_difficulty := d\<rparr>"

definition effective_difficulty :: "int \<Rightarrow> session \<Rightarrow> int \<Rightarrow> f64" where
  "effective_difficulty now s grace_window =
     (if ss_prev_difficulty s > 0 \<and> ss_prev_difficulty s < ss_difficulty s
         \<and> now - ss_diff_changed_at s < grace_window
      then ss_prev_difficulty s else ss_difficulty s)"

definition set_difficulty :: "session \<Rightarrow> f64 \<Rightarrow> session" where
  "set_difficulty s d = s\<lparr>ss_difficulty := d\<rparr>"

definition set_user_agent :: "session \<Rightarrow> string \<Rightarrow> session" where
  "set_user_agent s ua = s\<lparr>ss_user_agent := ua\<rparr>"

definition touch :: "int \<Rightarrow> session \<Rightarrow> session" where
  "touch now s = s\<lparr>ss_last_activity := now\<rparr>"

subsection \<open>The session table\<close>

record session_manager =
  sm_sessions :: "(string \<times> session) list"
  sm_per_ip :: "string \<Rightarrow> int option"
  sm_max_conn_per_ip :: int

definition new_session_manager :: "int \<Rightarrow> session_manager" where
  "new_session_manager max_conn =
     \<lparr>sm_sessions = [], sm_per_ip = Map.empty, sm_max_conn_per_ip = max_conn\<rparr>"

definition ip_count :: "session_manager \<Rightarrow> string \<Rightarrow> int" where
  "ip_count m ip = (case sm_per_ip m ip of None \<Rightarrow> 0 | Some n \<Rightarrow> n)"

definition sessions_add :: "session_manager \<Rightarrow> session \<Rightarrow> session_manager \<times> bool" where
  "sessions_add m s =
     (if sm_max_conn_per_ip m > 0 \<and> ip_count m (ss_remote_ip s) \<ge> sm_max_conn_per_ip m then (m, False)
      else (m\<lparr>sm_sessions := AList.update (ss_id s) s (sm_sessions m),
              sm_per_ip := (sm_per_ip m)(ss_remote_ip s \<mapsto> ip_count m (ss_remote_ip s) + 1)\<rparr>, True))"

definition sessions_remove :: "session_manager \<Rightarrow> session \<Rightarrow> session_manager" where
  "sessions_remove m s =
     (if map_of (sm_sessions m) (ss_id s) = None then m
      else
        let n = ip_count m (ss_remote_ip s)
        in m\<lparr>sm_sessions := AList.delete (ss_id s) (sm_sessions m),
             sm_per_ip := (if n \<le> 1 then (sm_per_ip m)(ss_remote_ip s := None)
                           else (sm_per_ip m)(ss_remote_ip s \<mapsto> n - 1))\<rparr>)"

definition session_count :: "session_manager \<Rightarrow> nat" where
  "session_count m = length (sm_sessions m)"

definition sessions_of_pool :: "session_manager \<Rightarrow> string \<Rightarrow> session list" where
  "sessions_of_pool m pool_id = filter (\<lambda>s. ss_pool_id s = pool_id) (map snd (sm_sessions m))"

definition session_count_for_pool :: "session_manager \<Rightarrow> string \<Rightarrow> nat" where
  "session_count_for_pool m pool_id = length (sessions_of_pool m pool_id)"

text \<open>Sessions are shared by pointer: a method called on a live session changes the table's entry.\<close>

definition session_update :: "session_manager \<Rightarrow> string \<Rightarrow> (session \<Rightarrow> session) \<Rightarrow> session_manager" where
  "session_update m sid f =
     m\<lparr>sm_sessions := map (\<lambda>(k, s). (k, if k = sid then f s else s)) (sm_sessions m)\<rparr>"

subsection \<open>Allocated values\<close>

definition alloc_wf :: "allocator \<Rightarrow> bool" where
  "alloc_wf a \<longleftrightarrow> 4 \<le> al_size a \<and> length (al_prefix a) = al_size a - 4"

lemma new_allocator_wf [simp]: "alloc_wf (new_allocator width pre)"
  by (cases "width < 4") (auto simp: alloc_wf_def new_allocator_def Let_def nat_diff_distrib min_def)

lemma alloc_next_value:
  "alloc_wf a \<Longrightarrow> alloc_next a = (a\<lparr>al_counter := al_counter a + 1\<rparr>, hex_encode (al_prefix a @ put_u32_be (al_counter a + 1)))"
  by (simp add: alloc_next_def alloc_wf_def Let_def)

lemma alloc_next_wf: "alloc_wf a \<Longrightarrow> alloc_wf (fst (alloc_next a))"
  by (simp add: alloc_next_value) (simp add: alloc_wf_def)

text \<open>The first \<open>n\<close> values an allocator hands out.\<close>

fun alloc_many :: "nat \<Rightarrow> allocator \<Rightarrow> string list" where
  "alloc_many 0 a = []"
| "alloc_many (Suc n) a = (let (a', v) = alloc_next a in v # alloc_many n a')"

definition en1_of :: "allocator \<Rightarrow> nat \<Rightarrow> string" where
  "en1_of a k = hex_encode (al_prefix a @ put_u32_be (al_counter a + word_of_nat (Suc k)))"

lemma alloc_many_values: "alloc_wf a \<Longrightarrow> alloc_many n a = map (en1_of a) [0..<n]"
proof (induction n arbitrary: a)
  case (Suc n)
  let ?a = "a\<lparr>al_counter := al_counter a + 1\<rparr>"
  have "alloc_wf ?a" using Suc.prems by (simp add: alloc_wf_def)
  moreover have "en1_of ?a k = en1_of a (Suc k)" for k by (simp add: en1_of_def algebra_simps)
  ultimately have "alloc_many n ?a = map (en1_of a) (map Suc [0..<n])" using Suc.IH [of ?a] by (simp add: comp_def)
  then show ?case using Suc.prems
    by (simp add: alloc_next_value map_Suc_upt en1_of_def upt_conv_Cons del: upt_Suc)
qed simp

lemma word_of_nat_inj_32:
  assumes "i < 2 ^ 32" "j < 2 ^ 32" "(word_of_nat i :: 32 word) = word_of_nat j"
  shows "i = j"
proof -
  have "take_bit 32 i = take_bit 32 j"
    using arg_cong [OF assms(3), of unat] by (simp add: unsigned_of_nat)
  then show ?thesis using assms(1,2) by (simp add: take_bit_nat_eq_self)
qed

lemma en1_of_inj: "i < 2 ^ 32 - 1 \<Longrightarrow> j < 2 ^ 32 - 1 \<Longrightarrow> en1_of a i = en1_of a j \<Longrightarrow> i = j"
  using word_of_nat_inj_32 [of "Suc i" "Suc j"]
  by (auto simp: en1_of_def dest!: hex_encode_inj put_u32_be_inj simp del: of_nat_Suc)

text \<open>
  Within a node every subscription gets its own search space: the first 2^32 - 1 values of an
  allocator are pairwise distinct hexadecimal strings of twice its width. Across nodes they are not
  kept apart: at the width of four bytes that \<open>NewServer\<close> asks for the node prefix is dropped, and
  any two nodes hand out the same values in the same order.
\<close>

theorem extranonce1_distinct:
  assumes "n < 2 ^ 32"
  shows "distinct (alloc_many n (new_allocator width pre))
    \<and> (\<forall>v \<in> set (alloc_many n (new_allocator width pre)). length v = 2 * nat (max 4 width))
    \<and> alloc_many n (new_allocator 4 p) = alloc_many n (new_allocator 4 q)"
proof -
  let ?a = "new_allocator width pre"
  have "inj_on (en1_of ?a) (set [0..<n])"
    using assms by (auto intro!: inj_onI en1_of_inj)
  then have "distinct (alloc_many n ?a)" by (simp add: alloc_many_values distinct_map)
  moreover have "\<forall>v \<in> set (alloc_many n ?a). length v = 2 * nat (max 4 width)"
    by (auto simp: alloc_many_values en1_of_def) (auto simp: new_allocator_def Let_def nat_diff_distrib max_def)
  moreover have "new_allocator 4 p = new_allocator 4 q" by (simp add: new_allocator_def)
  ultimately show ?thesis by simp
qed

theorem extranonce1_distinct_witness:
  "distinct (alloc_many 3 (new_allocator 6 [0xde, 0xad]))
   \<and> alloc_many 2 (new_allocator 4 [1]) = alloc_many 2 (new_allocator 4 [2])"
  using extranonce1_distinct [of 3 6 "[0xde, 0xad]" "[]" "[]"] extranonce1_distinct [of 2 4 "[]" "[1]" "[2]"] by simp

subsection \<open>Difficulty in flight\<close>

text \<open>
  A retarget is fair to work in flight. After the difficulty is raised, submissions are judged and
  credited at the old one until the grace window has passed and at the new one from then on; after it
  is lowered the new one applies at once; and a miner is never judged at more than the difficulty it
  was told last.
\<close>

theorem retarget_grace:
  assumes "0 < ss_difficulty s" and "0 < w"
  shows "effective_difficulty now (update_difficulty t s d) w
      = (if ss_difficulty s < d \<and> now < t + w then ss_difficulty s else d)
    \<and> effective_difficulty now (update_difficulty t s d) w \<le> d
    \<and> effective_difficulty now s w \<le> ss_difficulty s"
  using assms by (auto simp: effective_difficulty_def update_difficulty_def)

theorem retarget_grace_witness:
  "effective_difficulty 5 (update_difficulty 0 (set_difficulty (new_session 0 ''s'' ''btc'' ''ip'') 64) 128) 8 = 64"
  using retarget_grace [of "set_difficulty (new_session 0 ''s'' ''btc'' ''ip'') 64" 8 5 0 128]
  by (simp add: set_difficulty_def new_session_def)

subsection \<open>The per-IP counts\<close>

definition sessions_from :: "session_manager \<Rightarrow> string \<Rightarrow> session list" where
  "sessions_from m ip = filter (\<lambda>s. ss_remote_ip s = ip) (map snd (sm_sessions m))"

definition sessions_inv :: "session_manager \<Rightarrow> bool" where
  "sessions_inv m \<longleftrightarrow>
     distinct (map fst (sm_sessions m))
     \<and> (\<forall>(k, s) \<in> set (sm_sessions m). ss_id s = k)
     \<and> (\<forall>ip. ip_count m ip = int (length (sessions_from m ip)))
     \<and> (\<forall>ip. sm_max_conn_per_ip m > 0 \<longrightarrow> ip_count m ip \<le> sm_max_conn_per_ip m)"

lemma new_sessions_inv: "sessions_inv (new_session_manager n)"
  by (simp add: sessions_inv_def new_session_manager_def ip_count_def sessions_from_def)

lemma sessions_add_fresh:
  assumes "map_of (sm_sessions m) (ss_id s) = None" and "sessions_add m s = (m', True)"
  shows "sm_sessions m' = sm_sessions m @ [(ss_id s, s)]"
    and "sm_max_conn_per_ip m' = sm_max_conn_per_ip m"
    and "ip_count m' ip = ip_count m ip + (if ip = ss_remote_ip s then 1 else 0)"
    and "sm_max_conn_per_ip m > 0 \<Longrightarrow> ip_count m (ss_remote_ip s) < sm_max_conn_per_ip m"
proof -
  have "AList.update k v xs = xs @ [(k, v)]" if "map_of xs k = None" for k :: string and v :: session and xs
    using that by (induction xs) (auto split: if_splits)
  then show "sm_sessions m' = sm_sessions m @ [(ss_id s, s)]"
    using assms by (auto simp: sessions_add_def split: if_splits)
  show "sm_max_conn_per_ip m' = sm_max_conn_per_ip m"
    "ip_count m' ip = ip_count m ip + (if ip = ss_remote_ip s then 1 else 0)"
    "sm_max_conn_per_ip m > 0 \<Longrightarrow> ip_count m (ss_remote_ip s) < sm_max_conn_per_ip m"
    using assms(2) by (auto simp: sessions_add_def ip_count_def split: if_splits)
qed

lemma sessions_add_inv:
  assumes "sessions_inv m" and "map_of (sm_sessions m) (ss_id s) = None" and "sessions_add m s = (m', ok)"
  shows "sessions_inv m'"
proof (cases ok)
  case False
  then show ?thesis using assms by (auto simp: sessions_add_def split: if_splits)
next
  case True
  with assms(3) have "sessions_add m s = (m', True)" by simp
  note add = sessions_add_fresh [OF assms(2) this]
  have "ss_id s \<notin> set (map fst (sm_sessions m))" using assms(2) by (simp add: map_of_eq_None_iff)
  then show ?thesis
    using assms(1) add(4) unfolding sessions_inv_def sessions_from_def add(1,2) add(3)
    by (auto split: if_splits)
qed

lemma filter_delete:
  assumes "distinct (map fst xs)" and "map_of xs k = Some s"
  shows "int (length (filter P (map snd (AList.delete k xs)))) = int (length (filter P (map snd xs))) - (if P s then 1 else 0)"
  using assms
proof (induction xs)
  case (Cons x xs)
  obtain a v where x: "x = (a, v)" by (cases x)
  show ?case
  proof (cases "a = k")
    case True
    with Cons.prems x have "k \<notin> fst ` set xs" "v = s" by auto
    then have "AList.delete k xs = xs" by (simp add: AList.delete_id)
    with True x \<open>v = s\<close> show ?thesis by simp
  next
    case False
    with Cons x show ?thesis by auto
  qed
qed simp

lemma sessions_remove_inv:
  assumes "sessions_inv m" and "map_of (sm_sessions m) (ss_id s) = Some s0" and "ss_remote_ip s0 = ss_remote_ip s"
  shows "sessions_inv (sessions_remove m s)"
proof -
  let ?m = "sessions_remove m s"
  have d: "distinct (map fst (sm_sessions m))" and ids: "\<forall>(k, x) \<in> set (sm_sessions m). ss_id x = k"
    and c: "\<And>ip. ip_count m ip = int (length (sessions_from m ip))"
    and cap: "\<And>ip. sm_max_conn_per_ip m > 0 \<Longrightarrow> ip_count m ip \<le> sm_max_conn_per_ip m"
    using assms(1) by (auto simp: sessions_inv_def)
  have del: "sm_sessions ?m = AList.delete (ss_id s) (sm_sessions m)" "sm_max_conn_per_ip ?m = sm_max_conn_per_ip m"
    using assms(2) by (simp_all add: sessions_remove_def Let_def)
  have len: "int (length (sessions_from ?m ip)) = int (length (sessions_from m ip)) - (if ss_remote_ip s = ip then 1 else 0)" for ip
    using filter_delete [OF d assms(2), of "\<lambda>x. ss_remote_ip x = ip"] assms(3) by (simp add: sessions_from_def del)
  have "s0 \<in> set (sessions_from m (ss_remote_ip s))"
    using map_of_SomeD [OF assms(2)] assms(3) by (force simp: sessions_from_def)
  then have pos: "1 \<le> ip_count m (ss_remote_ip s)" using c by (cases "sessions_from m (ss_remote_ip s)") auto
  have cnt: "ip_count ?m ip = ip_count m ip - (if ss_remote_ip s = ip then 1 else 0)" for ip
    using assms(2) pos by (auto simp: sessions_remove_def Let_def ip_count_def)
  show ?thesis
    unfolding sessions_inv_def
  proof (intro conjI allI impI)
    show "distinct (map fst (sm_sessions ?m))" unfolding del by (rule distinct_delete [OF d])
    show "\<forall>(k, x) \<in> set (sm_sessions ?m). ss_id x = k"
      using ids unfolding del by (auto simp: AList.delete_eq)
    show "ip_count ?m ip = int (length (sessions_from ?m ip))" for ip using cnt len c by simp
    show "ip_count ?m ip \<le> sm_max_conn_per_ip ?m" if "0 < sm_max_conn_per_ip ?m" for ip
      using cap [of ip] that cnt [of ip] unfolding del by (auto split: if_splits)
  qed
qed

lemma session_update_keys [simp]:
  "map fst (sm_sessions (session_update m sid f)) = map fst (sm_sessions m)"
  by (simp add: session_update_def case_prod_unfold comp_def)

lemma filter_update_length:
  "(\<And>s. (sid, s) \<in> set xs \<Longrightarrow> P (f s) = P s) \<Longrightarrow>
   length (filter P (map snd (map (\<lambda>(k, s). (k, if k = sid then f s else s)) xs))) = length (filter P (map snd xs))"
proof (induction xs)
  case (Cons x xs)
  obtain k v where x: "x = (k, v)" by (cases x)
  have "length (filter P (map snd (map (\<lambda>(k, s). (k, if k = sid then f s else s)) xs))) = length (filter P (map snd xs))"
    using Cons by simp
  moreover have "k = sid \<Longrightarrow> P (f v) = P v" using Cons.prems x by simp
  ultimately show ?case by (simp add: x)
qed simp

lemma session_update_inv:
  assumes "sessions_inv m"
    and "\<And>s. (sid, s) \<in> set (sm_sessions m) \<Longrightarrow> ss_id (f s) = ss_id s \<and> ss_remote_ip (f s) = ss_remote_ip s"
  shows "sessions_inv (session_update m sid f)"
proof -
  let ?m = "session_update m sid f"
  have len: "length (sessions_from ?m ip) = length (sessions_from m ip)" for ip
    using filter_update_length [of sid "sm_sessions m" "\<lambda>s. ss_remote_ip s = ip" f] assms(2)
    by (simp add: sessions_from_def session_update_def)
  have same: "sm_max_conn_per_ip ?m = sm_max_conn_per_ip m" "ip_count ?m ip = ip_count m ip" for ip
    by (simp_all add: session_update_def ip_count_def)
  have "\<forall>(k, s) \<in> set (sm_sessions ?m). ss_id s = k"
    using assms by (fastforce simp: sessions_inv_def session_update_def)
  with assms(1) show ?thesis unfolding sessions_inv_def session_update_keys same len by blast
qed

lemma session_update_entries:
  assumes "(k, s) \<in> set (sm_sessions (session_update m sid f))"
  obtains "k \<noteq> sid" "(k, s) \<in> set (sm_sessions m)" | s0 where "k = sid" "(k, s0) \<in> set (sm_sessions m)" "s = f s0"
  using assms by (auto simp: session_update_def split: if_splits)

end
