(* ===== verification/Bans.thy ===== *)
theory Bans
  imports GoFloat "HOL-Library.AList"
begin

text \<open>
  \<open>internal/bans\<close>: per-IP misbehaviour counters and time-limited bans. Times are nanoseconds and are
  arguments. The counters are an association list because their number is bounded by the code.
\<close>

record ban_config =
  bc_enabled :: bool
  bc_invalid_percent :: f64
  bc_check_threshold :: int
  bc_malformed_threshold :: int
  bc_failed_auth_threshold :: int
  bc_ban_duration :: int

definition ban_defaults :: "ban_config \<Rightarrow> ban_config" where
  "ban_defaults c =
     \<lparr>bc_enabled = bc_enabled c,
      bc_invalid_percent = (if bc_invalid_percent c \<le> 0 then 50 else bc_invalid_percent c),
      bc_check_threshold = (if bc_check_threshold c \<le> 0 then 50 else bc_check_threshold c),
      bc_malformed_threshold = (if bc_malformed_threshold c \<le> 0 then 5 else bc_malformed_threshold c),
      bc_failed_auth_threshold = (if bc_failed_auth_threshold c \<le> 0 then 10 else bc_failed_auth_threshold c),
      bc_ban_duration = (if bc_ban_duration c \<le> 0 then 600000000000 else bc_ban_duration c)\<rparr>"

record counters =
  cn_valid :: int
  cn_invalid :: int
  cn_malformed :: int
  cn_failed_auth :: int

definition max_tracked_ips :: nat where
  "max_tracked_ips = 100000"

record ban_manager =
  bm_cfg :: ban_config
  bm_banned :: "string \<Rightarrow> int option"
  bm_stats :: "(string \<times> counters) list"

definition new_ban_manager :: "ban_config \<Rightarrow> ban_manager" where
  "new_ban_manager cfg = \<lparr>bm_cfg = ban_defaults cfg, bm_banned = Map.empty, bm_stats = []\<rparr>"

definition is_banned :: "int \<Rightarrow> ban_manager \<Rightarrow> string \<Rightarrow> ban_manager \<times> bool" where
  "is_banned now m ip =
     (if \<not> bc_enabled (bm_cfg m) then (m, False)
      else case bm_banned m ip of None \<Rightarrow> (m, False)
      | Some expiry \<Rightarrow>
        if now > expiry then (m\<lparr>bm_banned := (bm_banned m)(ip := None)\<rparr>, False) else (m, True))"

definition ban :: "int \<Rightarrow> ban_manager \<Rightarrow> string \<Rightarrow> ban_manager" where
  "ban now m ip =
     (if \<not> bc_enabled (bm_cfg m) then m
      else m\<lparr>bm_banned := (bm_banned m)(ip \<mapsto> now + bc_ban_duration (bm_cfg m)),
             bm_stats := AList.delete ip (bm_stats m)\<rparr>)"

text \<open>The counters of an IP; a newcomer beyond the bound is not tracked.\<close>

definition get_counters :: "ban_manager \<Rightarrow> string \<Rightarrow> counters option" where
  "get_counters m ip =
     (case map_of (bm_stats m) ip of Some c \<Rightarrow> Some c
      | None \<Rightarrow> if length (bm_stats m) \<ge> max_tracked_ips then None
               else Some \<lparr>cn_valid = 0, cn_invalid = 0, cn_malformed = 0, cn_failed_auth = 0\<rparr>)"

definition put_counters :: "ban_manager \<Rightarrow> string \<Rightarrow> counters \<Rightarrow> ban_manager" where
  "put_counters m ip c = m\<lparr>bm_stats := AList.update ip c (bm_stats m)\<rparr>"

definition invalid_ratio :: "int \<Rightarrow> int \<Rightarrow> f64" where
  "invalid_ratio invalid seen = fmul (fdiv (f64_of_int invalid) (f64_of_int seen)) 100"

definition record_share :: "int \<Rightarrow> ban_manager \<Rightarrow> string \<Rightarrow> bool \<Rightarrow> ban_manager" where
  "record_share now m ip valid =
     (if \<not> bc_enabled (bm_cfg m) then m
      else case get_counters m ip of None \<Rightarrow> m
      | Some c0 \<Rightarrow>
        let c = (if valid then c0\<lparr>cn_valid := cn_valid c0 + 1\<rparr> else c0\<lparr>cn_invalid := cn_invalid c0 + 1\<rparr>);
            seen = cn_valid c + cn_invalid c
        in if seen \<ge> bc_check_threshold (bm_cfg m)
           then if invalid_ratio (cn_invalid c) seen \<ge> bc_invalid_percent (bm_cfg m)
                then ban now (put_counters m ip c) ip
                else put_counters m ip (c\<lparr>cn_valid := 0, cn_invalid := 0\<rparr>)
           else put_counters m ip c)"

definition record_malformed :: "int \<Rightarrow> ban_manager \<Rightarrow> string \<Rightarrow> ban_manager \<times> bool" where
  "record_malformed now m ip =
     (if \<not> bc_enabled (bm_cfg m) then (m, False)
      else case get_counters m ip of None \<Rightarrow> (m, False)
      | Some c0 \<Rightarrow>
        let c = c0\<lparr>cn_malformed := cn_malformed c0 + 1\<rparr>; m1 = put_counters m ip c
        in if cn_malformed c \<ge> bc_malformed_threshold (bm_cfg m) then (ban now m1 ip, True) else (m1, False))"

definition record_failed_auth :: "int \<Rightarrow> ban_manager \<Rightarrow> string \<Rightarrow> ban_manager \<times> bool" where
  "record_failed_auth now m ip =
     (if \<not> bc_enabled (bm_cfg m) then (m, False)
      else case get_counters m ip of None \<Rightarrow> (m, False)
      | Some c0 \<Rightarrow>
        let c = c0\<lparr>cn_failed_auth := cn_failed_auth c0 + 1\<rparr>; m1 = put_counters m ip c
        in if cn_failed_auth c \<ge> bc_failed_auth_threshold (bm_cfg m) then (ban now m1 ip, True) else (m1, False))"

subsection \<open>Counters stay below their thresholds\<close>

definition counters_ok :: "ban_config \<Rightarrow> counters \<Rightarrow> bool" where
  "counters_ok cfg c \<longleftrightarrow>
     0 \<le> cn_valid c \<and> 0 \<le> cn_invalid c \<and> cn_valid c + cn_invalid c < bc_check_threshold cfg
     \<and> 0 \<le> cn_malformed c \<and> cn_malformed c < bc_malformed_threshold cfg
     \<and> 0 \<le> cn_failed_auth c \<and> cn_failed_auth c < bc_failed_auth_threshold cfg"

definition bans_inv :: "ban_manager \<Rightarrow> bool" where
  "bans_inv m \<longleftrightarrow>
     bm_cfg m = ban_defaults (bm_cfg m) \<and> distinct (map fst (bm_stats m)) \<and> length (bm_stats m) \<le> max_tracked_ips
     \<and> (\<forall>(ip, c) \<in> set (bm_stats m). counters_ok (bm_cfg m) c)"

lemma new_bans_inv [simp]: "bans_inv (new_ban_manager cfg)"
  by (simp add: bans_inv_def new_ban_manager_def ban_defaults_def)

lemma defaults_positive:
  "bans_inv m \<Longrightarrow> 0 < bc_check_threshold (bm_cfg m) \<and> 0 < bc_malformed_threshold (bm_cfg m)
     \<and> 0 < bc_failed_auth_threshold (bm_cfg m) \<and> 0 < bc_ban_duration (bm_cfg m)"
  by (auto simp: bans_inv_def ban_defaults_def dest: arg_cong [of _ _ bc_check_threshold]
      arg_cong [of _ _ bc_malformed_threshold] arg_cong [of _ _ bc_failed_auth_threshold] arg_cong [of _ _ bc_ban_duration]
      split: if_splits)

lemma get_counters_ok:
  assumes "bans_inv m" and "get_counters m ip = Some c"
  shows "counters_ok (bm_cfg m) c" and "map_of (bm_stats m) ip = None \<Longrightarrow> length (bm_stats m) < max_tracked_ips"
proof -
  show "counters_ok (bm_cfg m) c"
    using assms defaults_positive [OF assms(1)]
    by (auto simp: get_counters_def bans_inv_def counters_ok_def dest!: map_of_SomeD split: option.splits if_splits)
  show "map_of (bm_stats m) ip = None \<Longrightarrow> length (bm_stats m) < max_tracked_ips"
    using assms(2) by (auto simp: get_counters_def split: if_splits)
qed

lemma length_update: "length (AList.update k v xs) = (if map_of xs k = None then Suc (length xs) else length xs)"
  by (induction xs) auto

lemma set_update: "distinct (map fst xs) \<Longrightarrow> (k', v') \<in> set (AList.update k v xs) \<Longrightarrow> (k' = k \<and> v' = v) \<or> (k', v') \<in> set xs"
  by (induction xs) (auto split: if_splits)

lemma put_counters_inv:
  assumes "bans_inv m" and "get_counters m ip = Some c0" and "counters_ok (bm_cfg m) c"
  shows "bans_inv (put_counters m ip c)"
proof -
  have "length (AList.update ip c (bm_stats m)) \<le> max_tracked_ips"
    using assms(1) get_counters_ok(2) [OF assms(1,2)] by (auto simp: length_update bans_inv_def)
  moreover have "distinct (map fst (AList.update ip c (bm_stats m)))"
    using assms(1) by (intro distinct_update) (simp add: bans_inv_def)
  moreover have "\<forall>(i, x) \<in> set (AList.update ip c (bm_stats m)). counters_ok (bm_cfg m) x"
    using assms(1,3) by (auto simp: bans_inv_def dest!: set_update)
  ultimately show ?thesis using assms(1) by (simp add: bans_inv_def put_counters_def)
qed

text \<open>A ban drops the counters that caused it, so they need not be in range.\<close>

lemma ban_put_inv:
  assumes "bans_inv m" and "bc_enabled (bm_cfg m)"
  shows "bans_inv (ban now (put_counters m ip c) ip)"
proof -
  have "AList.delete ip (AList.update ip c (bm_stats m)) = AList.delete ip (bm_stats m)"
    by (rule delete_update_same)
  moreover have "length (AList.delete ip (bm_stats m)) \<le> max_tracked_ips"
    using assms length_delete_le [of ip "bm_stats m"] by (simp add: bans_inv_def)
  moreover have "distinct (map fst (AList.delete ip (bm_stats m)))"
    using assms by (intro distinct_delete) (simp add: bans_inv_def)
  moreover have "\<forall>(i, x) \<in> set (AList.delete ip (bm_stats m)). counters_ok (bm_cfg m) x"
    using assms by (auto simp: bans_inv_def AList.delete_eq)
  ultimately show ?thesis using assms by (simp add: bans_inv_def ban_def put_counters_def)
qed

lemma is_banned_inv: "bans_inv m \<Longrightarrow> bans_inv (fst (is_banned now m ip))"
  by (simp add: is_banned_def bans_inv_def split: option.splits)

lemma record_share_inv:
  assumes "bans_inv m"
  shows "bans_inv (record_share now m ip valid)"
proof (cases "bc_enabled (bm_cfg m)")
  case True
  show ?thesis
  proof (cases "get_counters m ip")
    case (Some c0)
    define c where "c = (if valid then c0\<lparr>cn_valid := cn_valid c0 + 1\<rparr> else c0\<lparr>cn_invalid := cn_invalid c0 + 1\<rparr>)"
    note ok0 = get_counters_ok(1) [OF assms Some]
    have ok: "counters_ok (bm_cfg m) (c\<lparr>cn_valid := 0, cn_invalid := 0\<rparr>)"
      "cn_valid c + cn_invalid c < bc_check_threshold (bm_cfg m) \<Longrightarrow> counters_ok (bm_cfg m) c"
      using ok0 defaults_positive [OF assms] by (auto simp: counters_ok_def c_def)
    have "record_share now m ip valid =
       (if cn_valid c + cn_invalid c \<ge> bc_check_threshold (bm_cfg m)
           then if invalid_ratio (cn_invalid c) (cn_valid c + cn_invalid c) \<ge> bc_invalid_percent (bm_cfg m)
                then ban now (put_counters m ip c) ip
                else put_counters m ip (c\<lparr>cn_valid := 0, cn_invalid := 0\<rparr>)
           else put_counters m ip c)"
      using True Some unfolding record_share_def c_def Let_def by simp
    then show ?thesis
      using ban_put_inv [OF assms True] put_counters_inv [OF assms Some] ok by simp
  qed (use assms in \<open>simp add: record_share_def\<close>)
qed (use assms in \<open>simp add: record_share_def\<close>)

lemma record_malformed_inv:
  assumes "bans_inv m"
  shows "bans_inv (fst (record_malformed now m ip))"
proof (cases "bc_enabled (bm_cfg m) \<and> get_counters m ip \<noteq> None")
  case True
  then obtain c0 where c0: "get_counters m ip = Some c0" by blast
  have "counters_ok (bm_cfg m) (c0\<lparr>cn_malformed := cn_malformed c0 + 1\<rparr>)"
    if "cn_malformed c0 + 1 < bc_malformed_threshold (bm_cfg m)"
    using get_counters_ok(1) [OF assms c0] that by (simp add: counters_ok_def)
  then show ?thesis
    using True c0 ban_put_inv [OF assms] put_counters_inv [OF assms c0] by (simp add: record_malformed_def Let_def)
qed (use assms in \<open>auto simp: record_malformed_def\<close>)

lemma record_failed_auth_inv:
  assumes "bans_inv m"
  shows "bans_inv (fst (record_failed_auth now m ip))"
proof (cases "bc_enabled (bm_cfg m) \<and> get_counters m ip \<noteq> None")
  case True
  then obtain c0 where c0: "get_counters m ip = Some c0" by blast
  have "counters_ok (bm_cfg m) (c0\<lparr>cn_failed_auth := cn_failed_auth c0 + 1\<rparr>)"
    if "cn_failed_auth c0 + 1 < bc_failed_auth_threshold (bm_cfg m)"
    using get_counters_ok(1) [OF assms c0] that by (simp add: counters_ok_def)
  then show ?thesis
    using True c0 ban_put_inv [OF assms] put_counters_inv [OF assms c0] by (simp add: record_failed_auth_def Let_def)
qed (use assms in \<open>auto simp: record_failed_auth_def\<close>)

datatype ban_event = BeShare string bool | BeMalformed string | BeFailedAuth string | BeCheck string

fun ban_step :: "ban_manager \<Rightarrow> int \<times> ban_event \<Rightarrow> ban_manager" where
  "ban_step m (now, BeShare ip valid) = record_share now m ip valid"
| "ban_step m (now, BeMalformed ip) = fst (record_malformed now m ip)"
| "ban_step m (now, BeFailedAuth ip) = fst (record_failed_auth now m ip)"
| "ban_step m (now, BeCheck ip) = fst (is_banned now m ip)"

lemma ban_step_inv: "bans_inv m \<Longrightarrow> bans_inv (ban_step m e)"
  by (cases "(m, e)" rule: ban_step.cases)
    (auto intro: record_share_inv record_malformed_inv record_failed_auth_inv is_banned_inv)

lemma ban_run_inv: "bans_inv m \<Longrightarrow> bans_inv (foldl ban_step m evs)"
  by (induction evs arbitrary: m) (auto intro: ban_step_inv)

text \<open>
  The ban manager is bounded and bans when it should. After any events it tracks at most 100000
  IPs, and every tracked IP is strictly below all three thresholds. In such a state a share bans its IP
  exactly when it completes a window of \<open>CheckThreshold\<close> shares whose invalid ratio reaches the limit
  (any other complete window is forgotten), a malformed line exactly when it is the
  \<open>MalformedThreshold\<close>-th since the last ban, however old the others are; and a banned IP is refused
  for the ban duration, not longer.
\<close>

theorem ban_discipline:
  assumes "m = foldl ban_step (new_ban_manager cfg) evs" and "bc_enabled (bm_cfg m)" and "get_counters m ip = Some c"
    and "bm_banned m ip = None"
  shows "length (bm_stats m) \<le> 100000 \<and> counters_ok (bm_cfg m) c
    \<and> (bm_banned (record_share now m ip valid) ip \<noteq> None \<longleftrightarrow>
         cn_valid c + cn_invalid c + 1 = bc_check_threshold (bm_cfg m)
         \<and> bc_invalid_percent (bm_cfg m)
             \<le> invalid_ratio (cn_invalid c + (if valid then 0 else 1)) (bc_check_threshold (bm_cfg m)))
    \<and> (snd (record_malformed now m ip) \<longleftrightarrow> cn_malformed c + 1 = bc_malformed_threshold (bm_cfg m))
    \<and> (snd (record_malformed now m ip) \<longrightarrow>
         (\<forall>t. snd (is_banned t (fst (record_malformed now m ip)) ip) \<longleftrightarrow> t \<le> now + bc_ban_duration (bm_cfg m)))"
proof -
  have inv: "bans_inv m" unfolding assms(1) by (rule ban_run_inv) simp
  note ok = get_counters_ok(1) [OF inv assms(3)]
  have len: "length (bm_stats m) \<le> 100000" using inv by (simp add: bans_inv_def max_tracked_ips_def)
  have share: "bm_banned (record_share now m ip valid) ip \<noteq> None \<longleftrightarrow>
         cn_valid c + cn_invalid c + 1 = bc_check_threshold (bm_cfg m)
         \<and> bc_invalid_percent (bm_cfg m)
             \<le> invalid_ratio (cn_invalid c + (if valid then 0 else 1)) (bc_check_threshold (bm_cfg m))"
  proof (cases "cn_valid c + cn_invalid c + 1 = bc_check_threshold (bm_cfg m)")
    case True
    then have e: "cn_valid c + 1 + cn_invalid c = bc_check_threshold (bm_cfg m)"
      "cn_valid c + (cn_invalid c + 1) = bc_check_threshold (bm_cfg m)" by simp_all
    show ?thesis using assms(2-4) True
      by (cases valid) (simp_all add: record_share_def Let_def ban_def put_counters_def e)
  next
    case False
    then have "\<not> cn_valid c + 1 + cn_invalid c \<ge> bc_check_threshold (bm_cfg m)"
      "\<not> cn_valid c + (cn_invalid c + 1) \<ge> bc_check_threshold (bm_cfg m)" using ok by (auto simp: counters_ok_def)
    with False show ?thesis using assms(2-4)
      by (cases valid) (simp_all add: record_share_def Let_def put_counters_def)
  qed
  have mal: "snd (record_malformed now m ip) \<longleftrightarrow> cn_malformed c + 1 = bc_malformed_threshold (bm_cfg m)"
    using assms(2,3) ok by (auto simp: record_malformed_def Let_def counters_ok_def)
  have until: "snd (is_banned t (fst (record_malformed now m ip)) ip) \<longleftrightarrow> t \<le> now + bc_ban_duration (bm_cfg m)"
    if "snd (record_malformed now m ip)" for t
    using that assms(2,3) by (auto simp: record_malformed_def is_banned_def ban_def put_counters_def Let_def split: if_splits)
  show ?thesis using len ok share mal until by blast
qed

definition sample_bans :: ban_config where
  "sample_bans = \<lparr>bc_enabled = True, bc_invalid_percent = 0, bc_check_threshold = 0, bc_malformed_threshold = 0,
     bc_failed_auth_threshold = 0, bc_ban_duration = 0\<rparr>"

theorem ban_discipline_witness:
  "let m = foldl ban_step (new_ban_manager sample_bans) (replicate 4 (0, BeMalformed ''ip''))
   in snd (record_malformed 7 m ''ip'') \<and> snd (is_banned 600000000007 (fst (record_malformed 7 m ''ip'')) ''ip'')
      \<and> \<not> snd (is_banned 600000000008 (fst (record_malformed 7 m ''ip'')) ''ip'')"
proof -
  let ?m = "foldl ban_step (new_ban_manager sample_bans) (replicate 4 (0, BeMalformed ''ip''))"
  have r: "replicate 4 (0, BeMalformed ''ip'') = [(0, BeMalformed ''ip''), (0, BeMalformed ''ip''), (0, BeMalformed ''ip''), (0, BeMalformed ''ip'')]"
    by (simp add: eval_nat_numeral)
  have m: "?m = \<lparr>bm_cfg = ban_defaults sample_bans, bm_banned = Map.empty,
      bm_stats = [(''ip'', \<lparr>cn_valid = 0, cn_invalid = 0, cn_malformed = 4, cn_failed_auth = 0\<rparr>)]\<rparr>"
    unfolding r by (simp add: new_ban_manager_def record_malformed_def get_counters_def put_counters_def max_tracked_ips_def
      ban_defaults_def sample_bans_def Let_def)
  have e: "bc_enabled (bm_cfg ?m)" "bm_banned ?m ''ip'' = None" "bc_malformed_threshold (bm_cfg ?m) = 5"
    "bc_ban_duration (bm_cfg ?m) = 600000000000" unfolding m by (simp_all add: ban_defaults_def sample_bans_def)
  have c: "get_counters ?m ''ip'' = Some \<lparr>cn_valid = 0, cn_invalid = 0, cn_malformed = 4, cn_failed_auth = 0\<rparr>"
    unfolding m by (simp add: get_counters_def)
  from ban_discipline [OF refl e(1) c e(2), of 7] show ?thesis unfolding Let_def e(3,4) by simp
qed

end
