(* ===== verification/Handler.thy ===== *)
theory Handler
  imports Jobs Pool Session Bans Protocol
begin

text \<open>
  \<open>internal/stratum/handler.go\<close>: the request handler of the stratum front-end, over the whole
  state of a node (\<open>node\<close>): the extranonce allocator, the lifecycle manager, the job registry (absent
  on a handshake-only server), the coins, and the ban manager (absent when banning is off). A request
  is handled on one session; the handler returns the new node and session, what it writes to the
  connection, and its other effects. A failing write ends the connection and is not modelled.
\<close>

datatype err_text = TMsg string | TSubmit submit_error

datatype reply =
    ReTrue
  | ReVersion string
  | ReSubscribed string string nat
  | ReConfigured bool

datatype out_msg =
    OutOk "json option" reply
  | OutErr "json option" int err_text
  | OutSetDifficulty f64
  | OutNotify "notify_param list"

datatype node_effect =
    NeJobs string jobs_effect
  | NeAccepted string
  | NeRejected string
  | NeBlockFound string

record node =
  nd_alloc :: allocator
  nd_lifecycle :: lifecycle
  nd_registry :: "registry option"
  nd_coins :: "string \<Rightarrow> coin_adapter"
  nd_bans :: "ban_manager option"

type_synonym handled = "node \<times> session \<times> out_msg list \<times> node_effect list"

definition version :: string where
  "version = ''GoStratumPool/0.1.0''"

definition diff_grace_window :: int where
  "diff_grace_window = 8000000000"

definition reject_message :: "node \<Rightarrow> string \<Rightarrow> pool_state \<Rightarrow> string" where
  "reject_message nd p st =
     (case st of
        Maintenance \<Rightarrow> maintenance_message (nd_lifecycle nd) p
      | Paused \<Rightarrow> ''Pool '' @ p @ '' is temporarily paused. Please reconnect later.''
      | Disabled \<Rightarrow> ''Pool '' @ p @ '' is disabled.''
      | Draining \<Rightarrow> ''Pool '' @ p @ '' is draining and not accepting new workers.''
      | Errored \<Rightarrow> ''Pool '' @ p @ '' is temporarily unavailable.''
      | Active \<Rightarrow> ''Pool '' @ p @ '' is not accepting connections.'')"

definition handle_subscribe :: "node \<Rightarrow> session \<Rightarrow> request \<Rightarrow> handled" where
  "handle_subscribe nd s req =
     (let params = (case raw_list (rq_params req) of None \<Rightarrow> [] | Some xs \<Rightarrow> xs);
          s1 = (case params of [] \<Rightarrow> s
                | p # _ \<Rightarrow> (case json_string p of None \<Rightarrow> s | Some ua \<Rightarrow> set_user_agent s ua));
          (al, en1) = alloc_next (nd_alloc nd);
          s2 = subscribe s1 en1
      in (nd\<lparr>nd_alloc := al\<rparr>, s2, [OutOk (rq_id req) (ReSubscribed (ss_id s) en1 extra_nonce2_size)], []))"

definition send_set_difficulty :: "session \<Rightarrow> f64 \<Rightarrow> session \<times> out_msg" where
  "send_set_difficulty s d = (set_difficulty s d, OutSetDifficulty d)"

definition node_current_notify :: "node \<Rightarrow> string \<Rightarrow> notify_param list option" where
  "node_current_notify nd p = (case nd_registry nd of None \<Rightarrow> None | Some r \<Rightarrow> registry_current_notify r p)"

definition handle_authorize :: "node \<Rightarrow> session \<Rightarrow> request \<Rightarrow> handled" where
  "handle_authorize nd s req =
     (let fail = (\<lambda>code msg. (nd, s, [OutErr (rq_id req) code (TMsg msg)], [])) in
      if \<not> is_subscribed s then fail err_not_subscribed ''not subscribed''
      else case string_list (rq_params req) of
        None \<Rightarrow> fail err_other ''invalid authorize params''
      | Some [] \<Rightarrow> fail err_other ''invalid authorize params''
      | Some (p # _) \<Rightarrow>
        let worker = trim_space p in
        if worker = [] then fail err_unauthorized ''empty worker''
        else case pool_accepts_authorization (nd_lifecycle nd) (ss_pool_id s) of
          Inl _ \<Rightarrow> fail err_other ''unknown pool''
        | Inr ok \<Rightarrow>
          if \<not> ok
          then (case get_pool_state (nd_lifecycle nd) (ss_pool_id s) of
                  Inl _ \<Rightarrow> fail err_unauthorized (''Pool '' @ ss_pool_id s @ '' is not accepting connections.'')
                | Inr st \<Rightarrow> fail err_unauthorized (reject_message nd (ss_pool_id s) st))
          else
            let s1 = authorize s worker;
                (s2, diff) = send_set_difficulty s1 (ss_difficulty s1);
                job = (case node_current_notify nd (ss_pool_id s) of None \<Rightarrow> [] | Some ps \<Rightarrow> [OutNotify ps])
            in (nd, s2, OutOk (rq_id req) ReTrue # diff # job, []))"

text \<open>The version-rolling mask 1fffe000 is announced whatever the coin.\<close>

definition handle_configure :: "node \<Rightarrow> session \<Rightarrow> request \<Rightarrow> handled" where
  "handle_configure nd s req =
     (case raw_list (rq_params req) of
        Some (p # _) \<Rightarrow>
          (nd, s, [OutOk (rq_id req) (ReConfigured (''version-rolling'' \<in> set (some_strings p)))], [])
      | _ \<Rightarrow> (nd, s, [OutOk (rq_id req) (ReConfigured False)], []))"

definition error_code :: "submit_error \<Rightarrow> int" where
  "error_code e =
     (case e of
        SeJobNotFound _ \<Rightarrow> err_job_not_found
      | SeNoManager _ \<Rightarrow> err_job_not_found
      | SeDuplicate \<Rightarrow> err_duplicate_share
      | SeLowDifficulty _ \<Rightarrow> err_low_difficulty
      | SeAdapter _ \<Rightarrow> err_other)"

definition build_submit :: "int \<Rightarrow> session \<Rightarrow> string \<Rightarrow> string list \<Rightarrow> share_submit" where
  "build_submit now s worker params =
     \<lparr>su_worker = worker, su_job_id = params ! 1, su_extra_nonce2 = params ! 2, su_ntime = params ! 3,
      su_nonce = params ! 4, su_version_bits = (if length params \<ge> 6 then params ! 5 else []),
      su_extra_nonce1 = ss_extra_nonce1 s, su_worker_diff = effective_difficulty now s diff_grace_window,
      su_user_agent = ss_user_agent s, su_remote_ip = ss_remote_ip s\<rparr>"

definition note_share :: "int \<Rightarrow> node \<Rightarrow> string \<Rightarrow> bool \<Rightarrow> node" where
  "note_share now nd ip valid =
     nd\<lparr>nd_bans := map_option (\<lambda>b. Bans.record_share now b ip valid) (nd_bans nd)\<rparr>"

text \<open>From the call of the share sink to the reply.\<close>

definition settle_submit :: "int \<Rightarrow> node \<Rightarrow> session \<Rightarrow> request \<Rightarrow> registry \<Rightarrow> share_submit \<Rightarrow> handled" where
  "settle_submit now nd s req r submit =
     (let p = ss_pool_id s;
          (r', effects, result) = registry_submit_share (nd_coins nd) r p now submit;
          nd1 = nd\<lparr>nd_registry := Some r'\<rparr>;
          jobs_effects = map (NeJobs p) effects
      in case result of
           Inl e \<Rightarrow>
             (note_share now nd1 (ss_remote_ip s) False, s,
              [OutErr (rq_id req) (error_code e) (TSubmit e)], jobs_effects @ [NeRejected p])
         | Inr res \<Rightarrow>
             (note_share now nd1 (ss_remote_ip s) True, s\<lparr>ss_vardiff := map_option on_share (ss_vardiff s)\<rparr>,
              [OutOk (rq_id req) ReTrue],
              jobs_effects @ NeAccepted p # (if sr_block_candidate res then [NeBlockFound p] else [])))"

definition handle_submit :: "int \<Rightarrow> node \<Rightarrow> session \<Rightarrow> request \<Rightarrow> handled" where
  "handle_submit now nd s req =
     (let fail = (\<lambda>code msg. (nd, s, [OutErr (rq_id req) code (TMsg msg)], [])) in
      if \<not> is_subscribed s then fail err_not_subscribed ''not subscribed''
      else case string_list (rq_params req) of
        None \<Rightarrow> fail err_other ''invalid submit params''
      | Some params \<Rightarrow>
        if length params < 5 then fail err_other ''invalid submit params''
        else
          let worker = trim_space (params ! 0) in
          if \<not> is_authorized s worker then fail err_unauthorized ''worker not authorized''
          else case get_pool_state (nd_lifecycle nd) (ss_pool_id s) of
            Inl _ \<Rightarrow> fail err_other ''unknown pool''
          | Inr st \<Rightarrow>
            if \<not> accepts_shares st then fail err_other (reject_message nd (ss_pool_id s) st)
            else case nd_registry nd of
              None \<Rightarrow> fail err_job_not_found ''no job source wired for this pool''
            | Some r \<Rightarrow> settle_submit now nd s req r (build_submit now s worker params))"

definition handle :: "int \<Rightarrow> node \<Rightarrow> session \<Rightarrow> request \<Rightarrow> handled" where
  "handle now nd s req =
     (if rq_method req = method_subscribe then handle_subscribe nd s req
      else if rq_method req = method_authorize then handle_authorize nd s req
      else if rq_method req = method_configure then handle_configure nd s req
      else if rq_method req = method_get_version then (nd, s, [OutOk (rq_id req) (ReVersion version)], [])
      else if rq_method req = method_submit then handle_submit now nd s req
      else (nd, s, [OutErr (rq_id req) err_other (TMsg (''unknown method '' @ rq_method req))], []))"

subsection \<open>Submissions\<close>

text \<open>The guards of a submission, in the order of the code.\<close>

lemma handle_submit_cases:
  assumes "handle_submit now nd s req = (nd', s', out, effs)"
  obtains (refused) code msg where "nd' = nd" "s' = s" "out = [OutErr (rq_id req) code (TMsg msg)]" "effs = []"
    | (judged) params r st where "is_subscribed s" "string_list (rq_params req) = Some params" "5 \<le> length params"
        "is_authorized s (trim_space (params ! 0))" "get_pool_state (nd_lifecycle nd) (ss_pool_id s) = Inr st"
        "accepts_shares st" "nd_registry nd = Some r"
        "settle_submit now nd s req r (build_submit now s (trim_space (params ! 0)) params) = (nd', s', out, effs)"
  using assms unfolding handle_submit_def Let_def
  by (auto split: if_splits option.splits sum.splits)

lemma settle_submit_cases:
  assumes "settle_submit now nd s req r submit = (nd', s', out, effs)"
  obtains (rejected) e r' jeffs where "registry_submit_share (nd_coins nd) r (ss_pool_id s) now submit = (r', jeffs, Inl e)"
      "s' = s" "out = [OutErr (rq_id req) (error_code e) (TSubmit e)]" "nd_registry nd' = Some r'"
      "effs = map (NeJobs (ss_pool_id s)) jeffs @ [NeRejected (ss_pool_id s)]"
    | (accepted) res r' jeffs where "registry_submit_share (nd_coins nd) r (ss_pool_id s) now submit = (r', jeffs, Inr res)"
      "s' = s\<lparr>ss_vardiff := map_option on_share (ss_vardiff s)\<rparr>" "out = [OutOk (rq_id req) ReTrue]" "nd_registry nd' = Some r'"
      "effs = map (NeJobs (ss_pool_id s)) jeffs @ NeAccepted (ss_pool_id s)
         # (if sr_block_candidate res then [NeBlockFound (ss_pool_id s)] else [])"
  using assms by (auto simp: settle_submit_def note_share_def Let_def split: prod.splits sum.splits)

text \<open>The submissions that come before the pool's job manager, and the share that is built from them.\<close>

definition judged_by :: "node \<Rightarrow> session \<Rightarrow> request \<Rightarrow> string list \<Rightarrow> registry \<Rightarrow> bool" where
  "judged_by nd s req params r \<longleftrightarrow>
     is_subscribed s \<and> string_list (rq_params req) = Some params \<and> 5 \<le> length params \<and> trim_space (params ! 0) \<in> ss_auth_workers s
     \<and> get_pool_state (nd_lifecycle nd) (ss_pool_id s) \<in> {Inr Active, Inr Draining} \<and> nd_registry nd = Some r"

definition verdict_on :: "int \<Rightarrow> node \<Rightarrow> session \<Rightarrow> string list \<Rightarrow> registry \<Rightarrow> registry \<times> jobs_effect list \<times> (submit_error + share_result)" where
  "verdict_on now nd s params r =
     registry_submit_share (nd_coins nd) r (ss_pool_id s) now
       \<lparr>su_worker = trim_space (params ! 0), su_job_id = params ! 1, su_extra_nonce2 = params ! 2, su_ntime = params ! 3,
        su_nonce = params ! 4, su_version_bits = (if length params \<ge> 6 then params ! 5 else []),
        su_extra_nonce1 = ss_extra_nonce1 s, su_worker_diff = effective_difficulty now s diff_grace_window,
        su_user_agent = ss_user_agent s, su_remote_ip = ss_remote_ip s\<rparr>"

text \<open>The codes of the protocol for a submission that is refused before it is judged, by the first guard that fails.\<close>

definition guard_code :: "node \<Rightarrow> session \<Rightarrow> request \<Rightarrow> int" where
  "guard_code nd s req =
     (if \<not> is_subscribed s then 25
      else case string_list (rq_params req) of
        None \<Rightarrow> 20
      | Some params \<Rightarrow>
        if length params < 5 then 20
        else if trim_space (params ! 0) \<notin> ss_auth_workers s then 24
        else if get_pool_state (nd_lifecycle nd) (ss_pool_id s) \<notin> {Inr Active, Inr Draining} then 20
        else 21)"

lemmas error_codes = err_other_def err_job_not_found_def err_duplicate_share_def err_low_difficulty_def err_unauthorized_def err_not_subscribed_def

lemma submit_judged: "judged_by nd s req params r \<Longrightarrow>
  handle_submit now nd s req = settle_submit now nd s req r (build_submit now s (trim_space (params ! 0)) params)"
  by (auto simp: judged_by_def handle_submit_def Let_def is_authorized_def accepts_shares_def)

lemma submit_refused: "\<nexists>params r. judged_by nd s req params r \<Longrightarrow>
  \<exists>msg. handle_submit now nd s req = (nd, s, [OutErr (rq_id req) (guard_code nd s req) (TMsg msg)], [])"
  by (auto simp: judged_by_def handle_submit_def guard_code_def Let_def is_authorized_def accepts_shares_def error_codes
    split: option.splits sum.splits)

text \<open>
  C32: what a miner is told of a submission is what happened to it. A submission is judged by the pool's job manager exactly when
  the session is subscribed, the request has its five strings, the worker was authorized on this very session, the pool is active or
  draining and the node has a job source; the share judged is built from the submitted fields, the session's own extranonce1 and its
  effective difficulty. It is answered by one message: success exactly when the manager accepted it, and otherwise the code
  of the refusal, 21 for an unknown or evicted job or a pool without a manager, 22 for a duplicate, 23 for a low difficulty and 20 for a
  share the coin cannot read, and the share is counted as rejected. Every other submission changes nothing and is answered with the code
  of the first guard it fails: 25 when not subscribed, 20 for its parameters, 24 when the worker is not authorized, 20 for an unknown pool
  or one in another state, 21 without a job source.
\<close>

theorem submission_answered:
  assumes "handle_submit now nd s req = (nd', s', out, effs)"
  shows "(\<forall>params r. judged_by nd s req params r \<longrightarrow>
        (case verdict_on now nd s params r of (r', jeffs, result) \<Rightarrow> nd_registry nd' = Some r'
          \<and> (case result of
               Inr res \<Rightarrow> out = [OutOk (rq_id req) ReTrue] \<and> NeAccepted (ss_pool_id s) \<in> set effs
             | Inl e \<Rightarrow> s' = s \<and> NeRejected (ss_pool_id s) \<in> set effs
                 \<and> out = [OutErr (rq_id req)
                     (case e of SeJobNotFound _ \<Rightarrow> 21 | SeNoManager _ \<Rightarrow> 21 | SeDuplicate \<Rightarrow> 22 | SeLowDifficulty _ \<Rightarrow> 23 | SeAdapter _ \<Rightarrow> 20)
                     (TSubmit e)])))
    \<and> ((\<nexists>params r. judged_by nd s req params r) \<longrightarrow>
         (\<exists>msg. out = [OutErr (rq_id req) (guard_code nd s req) (TMsg msg)]) \<and> nd' = nd \<and> s' = s \<and> effs = [])
    \<and> (out = [OutOk (rq_id req) ReTrue] \<longleftrightarrow>
         (\<exists>params r r' jeffs res. judged_by nd s req params r \<and> verdict_on now nd s params r = (r', jeffs, Inr res)))"
proof -
  have code: "error_code e = (case e of SeJobNotFound _ \<Rightarrow> 21 | SeNoManager _ \<Rightarrow> 21 | SeDuplicate \<Rightarrow> 22 | SeLowDifficulty _ \<Rightarrow> 23 | SeAdapter _ \<Rightarrow> 20)" for e
    by (cases e) (simp_all add: error_code_def error_codes)
  have judged: "case verdict_on now nd s params r of (r', jeffs, result) \<Rightarrow> nd_registry nd' = Some r'
          \<and> (case result of
               Inr res \<Rightarrow> out = [OutOk (rq_id req) ReTrue] \<and> NeAccepted (ss_pool_id s) \<in> set effs
             | Inl e \<Rightarrow> s' = s \<and> NeRejected (ss_pool_id s) \<in> set effs \<and> out = [OutErr (rq_id req) (error_code e) (TSubmit e)])"
    if j: "judged_by nd s req params r" for params r
  proof -
    have v: "verdict_on now nd s params r
        = registry_submit_share (nd_coins nd) r (ss_pool_id s) now (build_submit now s (trim_space (params ! 0)) params)"
      by (simp add: verdict_on_def build_submit_def)
    have "settle_submit now nd s req r (build_submit now s (trim_space (params ! 0)) params) = (nd', s', out, effs)"
      using assms submit_judged [OF j] by simp
    then show ?thesis by (cases rule: settle_submit_cases) (simp_all add: v)
  qed
  have refused: "(\<exists>msg. out = [OutErr (rq_id req) (guard_code nd s req) (TMsg msg)]) \<and> nd' = nd \<and> s' = s \<and> effs = []"
    if "\<nexists>params r. judged_by nd s req params r"
    using submit_refused [OF that, of now] assms by auto
  have "out = [OutOk (rq_id req) ReTrue] \<longleftrightarrow>
      (\<exists>params r r' jeffs res. judged_by nd s req params r \<and> verdict_on now nd s params r = (r', jeffs, Inr res))"
  proof (cases "\<exists>params r. judged_by nd s req params r")
    case True
    then obtain params r where j: "judged_by nd s req params r" by blast
    have unique: "params' = params \<and> q = r" if "judged_by nd s req params' q" for params' q using that j by (simp add: judged_by_def)
    obtain r' jeffs result where v: "verdict_on now nd s params r = (r', jeffs, result)" by (cases "verdict_on now nd s params r")
    have "(\<exists>params r r' jeffs res. judged_by nd s req params r \<and> verdict_on now nd s params r = (r', jeffs, Inr res)) \<longleftrightarrow> (\<exists>res. result = Inr res)"
      using j unique v by (metis prod.inject)
    moreover have "out = [OutOk (rq_id req) ReTrue] \<longleftrightarrow> (\<exists>res. result = Inr res)"
      using judged [OF j] v by (cases result) simp_all
    ultimately show ?thesis by simp
  next
    case False
    then show ?thesis using refused by auto
  qed
  with judged [unfolded code] refused show ?thesis by (intro conjI allI impI) simp_all
qed

subsection \<open>Authorization\<close>

lemma handle_authorize_cases:
  assumes "handle_authorize nd s req = (nd', s', out, effs)"
  obtains (refused) code msg where "nd' = nd" "s' = s" "out = [OutErr (rq_id req) code (TMsg msg)]" "effs = []"
    | (granted) p ps where "is_subscribed s" "string_list (rq_params req) = Some (p # ps)" "trim_space p \<noteq> []"
        "pool_accepts_authorization (nd_lifecycle nd) (ss_pool_id s) = Inr True" "nd' = nd" "effs = []"
        "s' = set_difficulty (authorize s (trim_space p)) (ss_difficulty s)"
        "out = OutOk (rq_id req) ReTrue # OutSetDifficulty (ss_difficulty s)
           # (case node_current_notify nd (ss_pool_id s) of None \<Rightarrow> [] | Some n \<Rightarrow> [OutNotify n])"
  using assms unfolding handle_authorize_def Let_def send_set_difficulty_def
  by (auto simp: authorize_def split: if_splits option.splits sum.splits list.splits)

lemma handle_other_workers:
  assumes "handle now nd s req = (nd', s', out, effs)" and "rq_method req \<noteq> method_authorize"
  shows "ss_auth_workers s' = ss_auth_workers s"
proof -
  have sub: "ss_auth_workers s' = ss_auth_workers s" if "handle_submit now nd s req = (nd', s', out, effs)"
    using that
  proof (cases rule: handle_submit_cases)
    case (judged params r st)
    from judged(8) show ?thesis by (cases rule: settle_submit_cases) simp_all
  qed simp
  show ?thesis
    using assms sub
    by (auto simp: handle_def handle_subscribe_def handle_configure_def subscribe_def set_user_agent_def Let_def
      split: if_splits prod.splits list.splits option.splits json.splits)
qed

text \<open>
  C25: workers are admitted by their own pool only. Whatever the request, a worker becomes authorized on
  a session only if the session is subscribed, the worker's name is not blank and the session's pool
  exists and is active at that moment; the miner is then told its difficulty and, when the pool has a
  job, that job with the clean flag set. Otherwise no worker is added.
\<close>

theorem authorization_gate:
  assumes "handle now nd s req = (nd', s', out, effs)" and "w \<in> ss_auth_workers s'" and "w \<notin> ss_auth_workers s"
  shows "is_subscribed s \<and> w \<noteq> [] \<and> get_pool_state (nd_lifecycle nd) (ss_pool_id s) = Inr Active
    \<and> ss_auth_workers s' = insert w (ss_auth_workers s) \<and> nd' = nd
    \<and> out = OutOk (rq_id req) ReTrue # OutSetDifficulty (ss_difficulty s)
        # (case node_current_notify nd (ss_pool_id s) of None \<Rightarrow> [] | Some n \<Rightarrow> [OutNotify n])"
proof -
  have m: "rq_method req = method_authorize" using handle_other_workers [OF assms(1)] assms(2,3) by blast
  then have "handle_authorize nd s req = (nd', s', out, effs)"
    using assms(1) by (simp add: handle_def method_authorize_def method_subscribe_def)
  then show ?thesis
  proof (cases rule: handle_authorize_cases)
    case refused
    with assms(2,3) show ?thesis by simp
  next
    case (granted p ps)
    have w: "w = trim_space p" using assms(2,3) granted(7) by (simp add: set_difficulty_def authorize_def)
    show ?thesis
      using granted w lg.accepting_active [of "nd_lifecycle nd" "ss_pool_id s"]
      by (simp add: set_difficulty_def authorize_def)
  qed
qed

subsection \<open>Witnesses\<close>

text \<open>A node whose pool has the first job of \<open>sample_pool\<close>.\<close>

definition sample_node :: node where
  "sample_node = \<lparr>nd_alloc = new_allocator 4 [], nd_lifecycle = sample_lifecycle, nd_registry = Some [''btc'' \<mapsto> sample_pool],
     nd_coins = (\<lambda>_. bitcoinlike_coin sample_adapter), nd_bans = None\<rparr>"

definition sample_session :: session where
  "sample_session = subscribe (set_difficulty (new_session 0 ''s1'' ''btc'' []) 1) ''00000001''"

definition sample_request :: "string \<Rightarrow> string list \<Rightarrow> request" where
  "sample_request method params = \<lparr>rq_id = None, rq_method = method, rq_params = Some (JArray (map JString params))\<rparr>"

lemma sample_pool_active: "get_pool_state sample_lifecycle ''btc'' = Inr Active"
  "pool_accepts_authorization sample_lifecycle ''btc'' = Inr True"
  by code_simp+

theorem submission_answered_witness:
  "\<exists>nd' s' out effs. handle_submit 0 sample_node (authorize sample_session ''a.rig'')
       (sample_request method_submit [''a.rig'', ''1'', ''0000002a'', ''6553f358'', ''00000007'']) = (nd', s', out, effs)
     \<and> out = [OutOk None ReTrue] \<and> NeAccepted ''btc'' \<in> set effs"
proof -
  let ?s = "authorize sample_session ''a.rig''"
    and ?ps = "[''a.rig'', ''1'', ''0000002a'', ''6553f358'', ''00000007'']"
    and ?r = "[''btc'' \<mapsto> sample_pool]"
  let ?req = "sample_request method_submit ?ps"
  obtain nd' s' out effs where h: "handle_submit 0 sample_node ?s ?req = (nd', s', out, effs)"
    by (cases "handle_submit 0 sample_node ?s ?req")
  have b: "build_submit 0 ?s ''a.rig'' ?ps = sample_submit"
    by (simp add: build_submit_def sample_submit_def sample_session_def authorize_def subscribe_def set_difficulty_def
      new_session_def effective_difficulty_def)
  have sess: "is_subscribed ?s" "is_authorized ?s ''a.rig''" "ss_pool_id ?s = ''btc''" "trim_space ''a.rig'' = ''a.rig''"
    "string_list (rq_params ?req) = Some ?ps"
    by code_simp+
  obtain e v where acc: "registry_submit_share (nd_coins sample_node) ?r ''btc'' 0 sample_submit
      = (?r(''btc'' \<mapsto> claimed_pool), e, Inr v)"
    using sample_accepted by (auto simp: registry_submit_share_def sample_node_def)
  have "nd_lifecycle sample_node = sample_lifecycle" "nd_registry sample_node = Some ?r" by (simp_all add: sample_node_def)
  then have j: "judged_by sample_node ?s ?req ?ps ?r"
    using sess(1-4) sess(5) sample_pool_active(1) by (simp add: judged_by_def is_authorized_def)
  have "verdict_on 0 sample_node ?s ?ps ?r = (?r(''btc'' \<mapsto> claimed_pool), e, Inr v)"
    using acc b by (simp add: verdict_on_def build_submit_def sess(3,4))
  with conjunct1 [OF submission_answered [OF h], THEN spec, THEN spec, THEN mp, OF j] have "out = [OutOk (rq_id ?req) ReTrue]" "NeAccepted ''btc'' \<in> set effs"
    by (auto simp: sess(3))
  with h show ?thesis by (auto simp: sample_request_def)
qed

theorem authorization_gate_witness:
  "\<exists>nd' s' out effs. handle 0 sample_node sample_session (sample_request method_authorize [''a.rig'', ''x'']) = (nd', s', out, effs)
     \<and> ss_auth_workers s' = {''a.rig''} \<and> get_pool_state (nd_lifecycle sample_node) ''btc'' = Inr Active"
proof -
  let ?req = "sample_request method_authorize [''a.rig'', ''x'']"
  obtain nd' s' out effs where h: "handle 0 sample_node sample_session ?req = (nd', s', out, effs)"
    by (cases "handle 0 sample_node sample_session ?req")
  have p: "ss_pool_id sample_session = ''btc''" "is_subscribed sample_session" "ss_auth_workers sample_session = {}"
    by (simp_all add: sample_session_def subscribe_def set_difficulty_def new_session_def is_subscribed_def)
  have l: "string_list (rq_params ?req) = Some [''a.rig'', ''x'']" "trim_space ''a.rig'' = ''a.rig''" by code_simp+
  have "pool_accepts_authorization (nd_lifecycle sample_node) ''btc'' = Inr True" by (simp add: sample_node_def sample_pool_active)
  moreover have "handle 0 sample_node sample_session ?req = handle_authorize sample_node sample_session ?req"
    by (simp add: handle_def sample_request_def method_authorize_def method_subscribe_def)
  ultimately have "''a.rig'' \<in> ss_auth_workers s'"
    using h unfolding handle_authorize_def Let_def by (auto simp: p l send_set_difficulty_def set_difficulty_def authorize_def)
  from authorization_gate [OF h this] h p show ?thesis by auto
qed

end
