(* ===== verification/Server.thy ===== *)
theory Server
  imports Handler
begin

text \<open>
  \<open>internal/stratum/server.go\<close>: accepting connections, the loop of a connection, the vardiff loop
  and the broadcast of jobs, over the state of the whole front-end. Each iteration of a goroutine's
  loop is one operation; \<open>stratum_step\<close> runs them in any order together with polls and lifecycle
  actions. Sockets, listeners and timeouts are the environment: what arrives is an argument, what is
  written is the list of messages with the session they go to. A session id that is already in use
  (they are 64 random bits) is not accepted.
\<close>

record stratum =
  st_cfg :: stratum_config
  st_sessions :: session_manager
  st_node :: node
  st_malformed :: "string \<Rightarrow> nat"

definition max_malformed_per_conn :: nat where
  "max_malformed_per_conn = 5"

definition new_stratum ::
  "stratum_config \<Rightarrow> lifecycle \<Rightarrow> bytes \<Rightarrow> registry option \<Rightarrow> (string \<Rightarrow> coin_adapter) \<Rightarrow> stratum" where
  "new_stratum cfg lc node_prefix registry coins =
     \<lparr>st_cfg = cfg, st_sessions = new_session_manager (sg_max_conn_per_ip cfg),
      st_node = \<lparr>nd_alloc = new_allocator 4 node_prefix, nd_lifecycle = lc, nd_registry = registry,
                 nd_coins = coins, nd_bans = None\<rparr>,
      st_malformed = (\<lambda>_. 0)\<rparr>"

definition set_ban_manager :: "stratum \<Rightarrow> ban_manager \<Rightarrow> stratum" where
  "set_ban_manager st b = st\<lparr>st_node := (st_node st)\<lparr>nd_bans := Some b\<rparr>\<rparr>"

subsection \<open>Accepting\<close>

definition check_ban :: "int \<Rightarrow> node \<Rightarrow> string \<Rightarrow> node \<times> bool" where
  "check_ban now nd host =
     (case nd_bans nd of None \<Rightarrow> (nd, False)
      | Some b \<Rightarrow> let (b', banned) = is_banned now b host in (nd\<lparr>nd_bans := Some b'\<rparr>, banned))"

definition start_session :: "int \<Rightarrow> stratum_config \<Rightarrow> string \<Rightarrow> string \<Rightarrow> port_config \<Rightarrow> session" where
  "start_session now cfg sid host port =
     (let s = new_session now sid (pt_pool_id port) host;
          start_diff = (if pt_vardiff port \<and> pt_difficulty port \<le> 0 then pt_min_diff port else pt_difficulty port);
          s1 = set_difficulty s start_diff
      in if pt_vardiff port
         then s1\<lparr>ss_vardiff := Some (new_controller
                \<lparr>cc_min_diff = pt_min_diff port, cc_max_diff = pt_max_diff port,
                 cc_target_interval = sg_vardiff_target_interval cfg,
                 cc_retarget_interval = sg_vardiff_retarget_interval cfg,
                 cc_variance_percent = sg_vardiff_variance_percent cfg, cc_max_adjust_factor = 0\<rparr> now)\<rparr>
         else s1)"

definition accept_conn :: "int \<Rightarrow> stratum \<Rightarrow> string \<Rightarrow> string \<Rightarrow> port_config \<Rightarrow> stratum \<times> bool" where
  "accept_conn now st sid host port =
     (let (nd, banned) = check_ban now (st_node st) host; st1 = st\<lparr>st_node := nd\<rparr>
      in if banned then (st1, False)
         else case get_pool_state (nd_lifecycle nd) (pt_pool_id port) of
           Inl _ \<Rightarrow> (st1, False)
         | Inr ps \<Rightarrow>
           if ps = Disabled then (st1, False)
           else
             let (sm, ok) = sessions_add (st_sessions st) (start_session now (st_cfg st) sid host port)
             in (st1\<lparr>st_sessions := sm, st_malformed := (st_malformed st)(sid := 0)\<rparr>, ok))"

subsection \<open>A connection\<close>

definition close_conn :: "stratum \<Rightarrow> session \<Rightarrow> stratum" where
  "close_conn st s = st\<lparr>st_sessions := sessions_remove (st_sessions st) s\<rparr>"

definition note_malformed :: "int \<Rightarrow> node \<Rightarrow> string \<Rightarrow> node \<times> bool" where
  "note_malformed now nd ip =
     (case nd_bans nd of None \<Rightarrow> (nd, False)
      | Some b \<Rightarrow> let (b', banned) = record_malformed now b ip in (nd\<lparr>nd_bans := Some b'\<rparr>, banned))"

type_synonym sent = "(string \<times> out_msg) list"

text \<open>One iteration of \<open>handleConn\<close> after the read; the flag says whether the connection goes on.\<close>

definition conn_input ::
  "int \<Rightarrow> stratum \<Rightarrow> session \<Rightarrow> read_result \<Rightarrow> stratum \<times> sent \<times> node_effect list \<times> bool" where
  "conn_input now st s rd =
     (case rd of
        RdEOF \<Rightarrow> (close_conn st s, [], [], False)
      | RdBlank \<Rightarrow> (st, [], [], True)
      | RdRequest req \<Rightarrow>
        let s1 = touch now s;
            (nd, s2, out, effs) = handle now (st_node st) s1 req
        in (st\<lparr>st_node := nd, st_sessions := session_update (st_sessions st) (ss_id s) (\<lambda>_. s2)\<rparr>,
            map (\<lambda>m. (ss_id s, m)) out, effs, True)
      | _ \<Rightarrow>
        let n = st_malformed st (ss_id s) + 1;
            (nd, banned) = note_malformed now (st_node st) (ss_remote_ip s);
            st1 = st\<lparr>st_node := nd, st_malformed := (st_malformed st)(ss_id s := n)\<rparr>
        in if banned \<or> n \<ge> max_malformed_per_conn then (close_conn st1 s, [], [], False) else (st1, [], [], True))"

text \<open>The loop, for at most \<open>fuel\<close> reads.\<close>

fun serve_conn ::
  "nat \<Rightarrow> (string \<Rightarrow> request option) \<Rightarrow> int \<Rightarrow> stratum \<Rightarrow> string \<Rightarrow> line_reader \<Rightarrow> stratum \<times> sent \<times> bool" where
  "serve_conn 0 decode now st sid rd = (st, [], True)"
| "serve_conn (Suc fuel) decode now st sid rd =
     (case map_of (sm_sessions (st_sessions st)) sid of None \<Rightarrow> (st, [], False)
      | Some s \<Rightarrow>
        let (rd', x) = read_line decode rd;
            (st1, out1, effs, go) = conn_input now st s x
        in if \<not> go then (st1, out1, False)
           else let (st2, out2, open) = serve_conn fuel decode now st1 sid rd' in (st2, out1 @ out2, open))"

subsection \<open>The server's own loops\<close>

definition vardiff_session :: "int \<Rightarrow> session \<Rightarrow> session \<times> out_msg list" where
  "vardiff_session now s =
     (case ss_vardiff s of None \<Rightarrow> (s, [])
      | Some c \<Rightarrow>
        let (c', d, changed) = retarget c now (ss_difficulty s); s1 = s\<lparr>ss_vardiff := Some c'\<rparr>
        in if \<not> changed then (s1, []) else (update_difficulty now s1 d, [OutSetDifficulty d]))"

definition vardiff_tick :: "int \<Rightarrow> stratum \<Rightarrow> stratum \<times> sent" where
  "vardiff_tick now st =
     (let xs = sm_sessions (st_sessions st)
      in (st\<lparr>st_sessions := (st_sessions st)\<lparr>sm_sessions := map (\<lambda>(k, s). (k, fst (vardiff_session now s))) xs\<rparr>\<rparr>,
          concat (map (\<lambda>(k, s). map (\<lambda>m. (k, m)) (snd (vardiff_session now s))) xs)))"

definition broadcast_notify :: "stratum \<Rightarrow> string \<Rightarrow> notify_param list \<Rightarrow> sent" where
  "broadcast_notify st p params =
     map (\<lambda>s. (ss_id s, OutNotify params)) (filter is_subscribed (sessions_of_pool (st_sessions st) p))"

text \<open>A pool's poll, with the broadcast it causes.\<close>

definition poll_pool :: "stratum \<Rightarrow> string \<Rightarrow> string + template option \<Rightarrow> stratum \<times> sent \<times> (poll_error + unit)" where
  "poll_pool st p rpc =
     (case nd_registry (st_node st) of None \<Rightarrow> (st, [], Inr ())
      | Some r \<Rightarrow>
        (case r p of None \<Rightarrow> (st, [], Inr ())
         | Some m \<Rightarrow>
           let (m', effs, res) = poll (nd_coins (st_node st) p) m rpc;
               st1 = st\<lparr>st_node := (st_node st)\<lparr>nd_registry := Some (r(p \<mapsto> m'))\<rparr>\<rparr>
           in (st1, concat (map (\<lambda>e. case e of EfNotify q ps \<Rightarrow> broadcast_notify st1 q ps | _ \<Rightarrow> []) effs), res)))"

subsection \<open>Runs of the front-end\<close>

datatype server_event =
    SvAccept int string string port_config
  | SvInput int string read_result
  | SvTick int
  | SvPoll string "string + template option"
  | SvOp int string pool_op

fun stratum_step :: "stratum \<Rightarrow> server_event \<Rightarrow> stratum \<times> sent" where
  "stratum_step st (SvAccept now sid host port) =
     (if map_of (sm_sessions (st_sessions st)) sid \<noteq> None then (st, [])
      else (fst (accept_conn now st sid host port), []))"
| "stratum_step st (SvInput now sid rd) =
     (case map_of (sm_sessions (st_sessions st)) sid of None \<Rightarrow> (st, [])
      | Some s \<Rightarrow> let (st', out, effs, go) = conn_input now st s rd in (st', out))"
| "stratum_step st (SvTick now) = vardiff_tick now st"
| "stratum_step st (SvPoll p rpc) = (let (st', out, res) = poll_pool st p rpc in (st', out))"
| "stratum_step st (SvOp now p op) =
     (let (lc, chg, err) = apply_op now (nd_lifecycle (st_node st)) p op
      in (st\<lparr>st_node := (st_node st)\<lparr>nd_lifecycle := lc\<rparr>\<rparr>, []))"

definition stratum_run :: "stratum \<Rightarrow> server_event list \<Rightarrow> stratum" where
  "stratum_run st evs = foldl (\<lambda>st e. fst (stratum_step st e)) st evs"

subsection \<open>The table of live sessions\<close>

text \<open>What a request does to its session and to the allocator.\<close>

definition same_session :: "session \<Rightarrow> session \<Rightarrow> bool" where
  "same_session s s' \<longleftrightarrow> ss_id s' = ss_id s \<and> ss_remote_ip s' = ss_remote_ip s \<and> ss_pool_id s' = ss_pool_id s"

definition keeps_en1 :: "node \<Rightarrow> session \<Rightarrow> node \<Rightarrow> session \<Rightarrow> bool" where
  "keeps_en1 nd s nd' s' \<longleftrightarrow>
     nd_alloc nd' = nd_alloc nd \<and> ss_subscribed s' = ss_subscribed s \<and> ss_extra_nonce1 s' = ss_extra_nonce1 s
     \<and> (ss_auth_workers s' = ss_auth_workers s \<or> ss_subscribed s)"

definition takes_en1 :: "node \<Rightarrow> session \<Rightarrow> node \<Rightarrow> session \<Rightarrow> bool" where
  "takes_en1 nd s nd' s' \<longleftrightarrow>
     nd_alloc nd' = fst (alloc_next (nd_alloc nd)) \<and> ss_subscribed s'
     \<and> ss_extra_nonce1 s' = snd (alloc_next (nd_alloc nd)) \<and> ss_auth_workers s' = ss_auth_workers s"

lemma subscribe_session:
  assumes "handle_subscribe nd s req = (nd', s', out, effs)"
  shows "same_session s s' \<and> takes_en1 nd s nd' s'"
proof -
  obtain al en1 where an: "alloc_next (nd_alloc nd) = (al, en1)" by (cases "alloc_next (nd_alloc nd)")
  obtain p where p: "p = (case raw_list (rq_params req) of None \<Rightarrow> [] | Some xs \<Rightarrow> xs)" by blast
  obtain s1 where s1: "s1 = (case p of [] \<Rightarrow> s | j # _ \<Rightarrow> (case json_string j of None \<Rightarrow> s | Some ua \<Rightarrow> set_user_agent s ua))" by blast
  have keep: "same_session s s1 \<and> ss_auth_workers s1 = ss_auth_workers s"
    unfolding s1 set_user_agent_def same_session_def by (simp split: list.split option.split)
  have "(nd\<lparr>nd_alloc := al\<rparr>, subscribe s1 en1, [OutOk (rq_id req) (ReSubscribed (ss_id s) en1 extra_nonce2_size)], []) = (nd', s', out, effs)"
    using assms unfolding handle_subscribe_def Let_def an prod.case p [symmetric] s1 [symmetric] .
  then have "nd' = nd\<lparr>nd_alloc := al\<rparr>" "s' = subscribe s1 en1" by simp_all
  then show ?thesis using keep by (simp add: subscribe_def same_session_def takes_en1_def an)
qed

lemma submit_session:
  assumes "handle_submit now nd s req = (nd', s', out, effs)"
  shows "same_session s s' \<and> keeps_en1 nd s nd' s'"
  using assms
proof (cases rule: handle_submit_cases)
  case refused
  then show ?thesis by (simp add: same_session_def keeps_en1_def)
next
  case (judged params r st)
  obtain submit where submit: "settle_submit now nd s req r submit = (nd', s', out, effs)" using judged(8) by blast
  obtain r' jeffs result where run: "registry_submit_share (nd_coins nd) r (ss_pool_id s) now submit = (r', jeffs, result)"
    by (cases "registry_submit_share (nd_coins nd) r (ss_pool_id s) now submit")
  have "nd_alloc nd' = nd_alloc nd"
    using submit unfolding settle_submit_def Let_def run prod.case note_share_def by (cases result) auto
  with submit show ?thesis by (cases rule: settle_submit_cases) (simp_all add: same_session_def keeps_en1_def)
qed

lemma authorize_session:
  assumes "handle_authorize nd s req = (nd', s', out, effs)"
  shows "same_session s s' \<and> keeps_en1 nd s nd' s'"
  using assms
proof (cases rule: handle_authorize_cases)
  case (granted p ps)
  have "ss_subscribed s" using granted(1) by (simp add: is_subscribed_def)
  with granted(5,7) show ?thesis by (simp add: set_difficulty_def authorize_def same_session_def keeps_en1_def)
qed (simp add: same_session_def keeps_en1_def)

lemma configure_session:
  assumes "handle_configure nd s req = (nd', s', out, effs)"
  shows "nd' = nd \<and> s' = s"
  using assms by (simp add: handle_configure_def split: option.splits list.splits)

lemma handle_session:
  assumes "handle now nd s req = (nd', s', out, effs)"
  shows "same_session s s' \<and> (keeps_en1 nd s nd' s' \<or> takes_en1 nd s nd' s')"
proof -
  have idle: "same_session s s \<and> keeps_en1 nd s nd s" by (simp add: same_session_def keeps_en1_def)
  consider "handle_subscribe nd s req = (nd', s', out, effs)" | "handle_authorize nd s req = (nd', s', out, effs)"
    | "handle_configure nd s req = (nd', s', out, effs)" | "handle_submit now nd s req = (nd', s', out, effs)"
    | "nd' = nd" "s' = s"
    using assms unfolding handle_def by (simp split: if_split_asm)
  then show ?thesis
  proof cases
    case 1 from subscribe_session [OF this] show ?thesis by blast
  next
    case 2 from authorize_session [OF this] show ?thesis by blast
  next
    case 3 from configure_session [OF this] show ?thesis using idle by simp
  next
    case 4 from submit_session [OF this] show ?thesis by blast
  next
    case 5 then show ?thesis using idle by simp
  qed
qed

definition en1_issued :: "allocator \<Rightarrow> string \<Rightarrow> bool" where
  "en1_issued a v \<longleftrightarrow> (\<exists>w. w \<le> al_counter a \<and> v = hex_encode (al_prefix a @ put_u32_be w))"

lemma alloc_next_counter:
  assumes "alloc_wf a" and "unat (al_counter a) + 1 < 2 ^ 32"
  shows "unat (al_counter (fst (alloc_next a))) = unat (al_counter a) + 1"
proof -
  have "unat (al_counter a + 1) = unat (al_counter a) + 1"
    using assms(2) by (simp add: unat_plus_if')
  then show ?thesis using assms(1) by (simp add: alloc_next_value)
qed

lemma alloc_next_issued:
  assumes "alloc_wf a" and "unat (al_counter a) + 1 < 2 ^ 32"
  shows "en1_issued (fst (alloc_next a)) (snd (alloc_next a))" and "\<not> en1_issued a (snd (alloc_next a))"
    and "en1_issued a v \<Longrightarrow> en1_issued (fst (alloc_next a)) v"
proof -
  obtain c where c: "c = al_counter a + 1" by blast
  have u: "unat c = unat (al_counter a) + 1"
    using alloc_next_counter [OF assms] assms(1) by (simp add: alloc_next_value c)
  then have lt: "al_counter a < c" by (simp add: word_less_nat_alt)
  have val: "alloc_next a = (a\<lparr>al_counter := c\<rparr>, hex_encode (al_prefix a @ put_u32_be c))"
    using assms(1) by (simp add: alloc_next_value c)
  show "en1_issued (fst (alloc_next a)) (snd (alloc_next a))" unfolding val en1_issued_def by auto
  show "en1_issued a v \<Longrightarrow> en1_issued (fst (alloc_next a)) v"
    unfolding val en1_issued_def using lt by (auto intro: order_trans less_imp_le)
  show "\<not> en1_issued a (snd (alloc_next a))"
  proof
    assume "en1_issued a (snd (alloc_next a))"
    then obtain w where w: "w \<le> al_counter a"
      "hex_encode (al_prefix a @ put_u32_be c) = hex_encode (al_prefix a @ put_u32_be w)"
      unfolding val en1_issued_def by auto
    then have "c = w" using hex_encode_inj [OF w(2)] put_u32_be_inj by auto
    with w(1) lt show False by simp
  qed
qed

text \<open>The table and the allocator, as they are tied together.\<close>

definition en1_ok :: "allocator \<Rightarrow> session \<Rightarrow> bool" where
  "en1_ok a s \<longleftrightarrow>
     (ss_subscribed s \<longrightarrow> en1_issued a (ss_extra_nonce1 s)) \<and> (ss_auth_workers s \<noteq> {} \<longrightarrow> ss_subscribed s)"

definition apart :: "session \<Rightarrow> session \<Rightarrow> bool" where
  "apart s s' \<longleftrightarrow> (ss_subscribed s \<longrightarrow> ss_subscribed s' \<longrightarrow> ss_extra_nonce1 s \<noteq> ss_extra_nonce1 s')"

definition table_ok :: "session_manager \<Rightarrow> allocator \<Rightarrow> bool" where
  "table_ok m a \<longleftrightarrow>
     sessions_inv m \<and> alloc_wf a \<and> (\<forall>(k, s) \<in> set (sm_sessions m). en1_ok a s)
     \<and> (\<forall>(k, s) \<in> set (sm_sessions m). \<forall>(k', s') \<in> set (sm_sessions m). k \<noteq> k' \<longrightarrow> apart s s')"

lemma table_okI:
  assumes "sessions_inv m" and "alloc_wf a" and "\<And>k s. (k, s) \<in> set (sm_sessions m) \<Longrightarrow> en1_ok a s"
    and "\<And>k s k' s'. (k, s) \<in> set (sm_sessions m) \<Longrightarrow> (k', s') \<in> set (sm_sessions m) \<Longrightarrow> k \<noteq> k' \<Longrightarrow> apart s s'"
  shows "table_ok m a"
  using assms unfolding table_ok_def by blast

lemma table_okD:
  assumes "table_ok m a"
  shows "sessions_inv m" and "alloc_wf a" and "(k, s) \<in> set (sm_sessions m) \<Longrightarrow> en1_ok a s"
    and "(k, s) \<in> set (sm_sessions m) \<Longrightarrow> (k', s') \<in> set (sm_sessions m) \<Longrightarrow> k \<noteq> k' \<Longrightarrow> apart s s'"
  using assms unfolding table_ok_def by blast+

lemma new_table_ok: "table_ok (new_session_manager n) (new_allocator width pre)"
  by (rule table_okI) (simp_all add: new_sessions_inv, simp_all add: new_session_manager_def)

lemma table_ok_add:
  assumes "table_ok m a" and "map_of (sm_sessions m) (ss_id s) = None" and "sessions_add m s = (m', ok)"
    and "\<not> ss_subscribed s" and "ss_auth_workers s = {}"
  shows "table_ok m' a"
proof (rule table_okI)
  have entries: "set (sm_sessions m') \<subseteq> insert (ss_id s, s) (set (sm_sessions m))"
  proof (cases ok)
    case True
    then show ?thesis using sessions_add_fresh(1) [OF assms(2)] assms(3) by simp
  next
    case False
    then show ?thesis using assms(3) by (auto simp: sessions_add_def split: if_splits)
  qed
  show "sessions_inv m'" by (rule sessions_add_inv [OF table_okD(1) [OF assms(1)] assms(2,3)])
  show "alloc_wf a" by (rule table_okD(2) [OF assms(1)])
  have new: "en1_ok a s" "apart s x" "apart x s" for x using assms(4,5) by (simp_all add: en1_ok_def apart_def)
  show "en1_ok a x" if "(k, x) \<in> set (sm_sessions m')" for k x
    using entries that new(1) table_okD(3) [OF assms(1)] by blast
  show "apart x x'" if "(k, x) \<in> set (sm_sessions m')" "(k', x') \<in> set (sm_sessions m')" "k \<noteq> k'" for k x k' x'
    using entries that new(2,3) table_okD(4) [OF assms(1)] by blast
qed

lemma table_ok_remove:
  assumes "table_ok m a" and "map_of (sm_sessions m) (ss_id s) = Some s"
  shows "table_ok (sessions_remove m s) a"
proof (rule table_okI)
  have entries: "set (sm_sessions (sessions_remove m s)) \<subseteq> set (sm_sessions m)"
    using assms(2) by (auto simp: sessions_remove_def Let_def AList.delete_eq)
  show "sessions_inv (sessions_remove m s)" by (rule sessions_remove_inv [OF table_okD(1) [OF assms(1)] assms(2) refl])
  show "alloc_wf a" by (rule table_okD(2) [OF assms(1)])
  show "en1_ok a x" if "(k, x) \<in> set (sm_sessions (sessions_remove m s))" for k x
    using entries that table_okD(3) [OF assms(1)] by blast
  show "apart x x'" if "(k, x) \<in> set (sm_sessions (sessions_remove m s))" "(k', x') \<in> set (sm_sessions (sessions_remove m s))"
    "k \<noteq> k'" for k x k' x'
    using entries that table_okD(4) [OF assms(1)] by blast
qed

text \<open>One session's request: at most one value is drawn, and it is new.\<close>

lemma table_ok_request:
  assumes "table_ok m (nd_alloc nd)" and "map_of (sm_sessions m) sid = Some s0" and "same_session s0 s'"
    and "keeps_en1 nd s0 nd' s' \<or> takes_en1 nd s0 nd' s'" and "unat (al_counter (nd_alloc nd)) + 1 < 2 ^ 32"
  shows "table_ok (session_update m sid (\<lambda>_. s')) (nd_alloc nd')"
    and "unat (al_counter (nd_alloc nd')) \<le> unat (al_counter (nd_alloc nd)) + 1"
proof -
  let ?a = "nd_alloc nd" and ?a' = "nd_alloc nd'" and ?m = "session_update m sid (\<lambda>_. s')"
  note D = table_okD [OF assms(1)]
  have mem: "(sid, s0) \<in> set (sm_sessions m)" by (rule map_of_SomeD [OF assms(2)])
  have dist: "distinct (map fst (sm_sessions m))" using D(1) by (simp add: sessions_inv_def)
  have only: "s = s0" if "(sid, s) \<in> set (sm_sessions m)" for s
    using that assms(2) map_of_is_SomeI [OF dist] by fastforce
  have grow: "en1_issued ?a v \<Longrightarrow> en1_issued ?a' v" for v
    using assms(4) alloc_next_issued(3) [OF D(2) assms(5)] by (auto simp: keeps_en1_def takes_en1_def)
  have ok': "en1_ok ?a' s'" using assms(4)
  proof
    assume "keeps_en1 nd s0 nd' s'"
    then show ?thesis using D(3) [OF mem] by (auto simp: keeps_en1_def en1_ok_def)
  next
    assume "takes_en1 nd s0 nd' s'"
    then show ?thesis using alloc_next_issued(1) [OF D(2) assms(5)] by (simp add: takes_en1_def en1_ok_def)
  qed
  have fresh: "apart s' x \<and> apart x s'" if x: "(k, x) \<in> set (sm_sessions m)" "k \<noteq> sid" for k x
    using assms(4)
  proof
    assume "keeps_en1 nd s0 nd' s'"
    then show ?thesis using D(4) [OF mem x(1)] D(4) [OF x(1) mem] x(2) by (auto simp: keeps_en1_def apart_def)
  next
    assume t: "takes_en1 nd s0 nd' s'"
    have "ss_extra_nonce1 x \<noteq> ss_extra_nonce1 s'" if "ss_subscribed x"
      using D(3) [OF x(1)] that t alloc_next_issued(2) [OF D(2) assms(5)] by (auto simp: en1_ok_def takes_en1_def)
    then show ?thesis by (auto simp: apart_def)
  qed
  show "table_ok ?m ?a'"
  proof (rule table_okI)
    show "sessions_inv ?m"
      by (rule session_update_inv [OF D(1)]) (use only assms(3) in \<open>auto simp: same_session_def\<close>)
    show "alloc_wf ?a'" using assms(4) D(2) alloc_next_wf by (auto simp: keeps_en1_def takes_en1_def)
    have entry: "(k = sid \<and> s = s') \<or> (k \<noteq> sid \<and> (k, s) \<in> set (sm_sessions m))" if "(k, s) \<in> set (sm_sessions ?m)" for k s
      using that by (rule session_update_entries) auto
    show "en1_ok ?a' s" if "(k, s) \<in> set (sm_sessions ?m)" for k s
      using entry [OF that] ok' D(3) [of k s] grow by (auto simp: en1_ok_def)
    show "apart s t" if "(k, s) \<in> set (sm_sessions ?m)" "(k', t) \<in> set (sm_sessions ?m)" "k \<noteq> k'" for k s k' t
      using entry [OF that(1)] entry [OF that(2)] that(3) fresh D(4) [of k s k' t] by blast
  qed
  show "unat (al_counter ?a') \<le> unat (al_counter ?a) + 1"
    using assms(4) alloc_next_counter [OF D(2) assms(5)] by (auto simp: keeps_en1_def takes_en1_def)
qed

text \<open>A whole-table update that leaves identity, subscription and workers alone.\<close>

definition same_login :: "session \<Rightarrow> session \<Rightarrow> bool" where
  "same_login s s' \<longleftrightarrow> same_session s s' \<and> ss_subscribed s' = ss_subscribed s
     \<and> ss_extra_nonce1 s' = ss_extra_nonce1 s \<and> ss_auth_workers s' = ss_auth_workers s"

lemma table_ok_map:
  assumes "table_ok m a" and "\<And>s. same_login s (g s)"
  shows "table_ok (m\<lparr>sm_sessions := map (\<lambda>(k, s). (k, g s)) (sm_sessions m)\<rparr>) a"
proof (rule table_okI)
  let ?m = "m\<lparr>sm_sessions := map (\<lambda>(k, s). (k, g s)) (sm_sessions m)\<rparr>"
  note D = table_okD [OF assms(1)]
  have g: "ss_id (g s) = ss_id s" "ss_remote_ip (g s) = ss_remote_ip s" for s
    using assms(2) [of s] by (simp_all add: same_login_def same_session_def)
  have len: "length (sessions_from ?m ip) = length (sessions_from m ip)" for ip
  proof -
    have "length (filter (\<lambda>s. ss_remote_ip s = ip) (map snd (map (\<lambda>(k, s). (k, g s)) xs)))
        = length (filter (\<lambda>s. ss_remote_ip s = ip) (map snd xs))" for xs :: "(string \<times> session) list"
      by (induction xs) (auto simp: g)
    from this [of "sm_sessions m"] show ?thesis by (simp add: sessions_from_def)
  qed
  have same: "sm_max_conn_per_ip ?m = sm_max_conn_per_ip m" "ip_count ?m ip = ip_count m ip"
    "map fst (sm_sessions ?m) = map fst (sm_sessions m)" for ip
    by (simp_all add: ip_count_def case_prod_unfold comp_def)
  have entry: "\<exists>s0. (k, s0) \<in> set (sm_sessions m) \<and> s = g s0" if "(k, s) \<in> set (sm_sessions ?m)" for k s
    using that by auto
  have "ss_id s = k" if "(k, s) \<in> set (sm_sessions ?m)" for k s
    using entry [OF that] D(1) g(1) by (auto simp: sessions_inv_def)
  then show "sessions_inv ?m" using D(1) unfolding sessions_inv_def same len by blast
  show "alloc_wf a" by (rule D(2))
  show "en1_ok a s" if "(k, s) \<in> set (sm_sessions ?m)" for k s
  proof -
    from entry [OF that] obtain s0 where s0: "(k, s0) \<in> set (sm_sessions m)" "s = g s0" by (elim exE conjE)
    then show ?thesis using D(3) [OF s0(1)] assms(2) [of s0] by (simp add: en1_ok_def same_login_def)
  qed
  show "apart s t" if "(k, s) \<in> set (sm_sessions ?m)" "(k', t) \<in> set (sm_sessions ?m)" "k \<noteq> k'" for k s k' t
  proof -
    from entry [OF that(1)] obtain s0 where s0: "(k, s0) \<in> set (sm_sessions m)" "s = g s0" by (elim exE conjE)
    from entry [OF that(2)] obtain t0 where t0: "(k', t0) \<in> set (sm_sessions m)" "t = g t0" by (elim exE conjE)
    show ?thesis unfolding s0(2) t0(2)
      using D(4) [OF s0(1) t0(1) that(3)] assms(2) [of s0] assms(2) [of t0] by (simp add: apart_def same_login_def)
  qed
qed

definition front_inv :: "stratum \<Rightarrow> bool" where
  "front_inv st \<longleftrightarrow> table_ok (st_sessions st) (nd_alloc (st_node st))
     \<and> sm_max_conn_per_ip (st_sessions st) = sg_max_conn_per_ip (st_cfg st)"

definition issued :: "stratum \<Rightarrow> nat" where
  "issued st = unat (al_counter (nd_alloc (st_node st)))"

lemma accept_front:
  assumes "front_inv st" and "map_of (sm_sessions (st_sessions st)) sid = None"
  shows "front_inv (fst (accept_conn now st sid host port))"
    and "issued (fst (accept_conn now st sid host port)) = issued st"
    and "st_cfg (fst (accept_conn now st sid host port)) = st_cfg st"
proof -
  obtain nd banned where cb: "check_ban now (st_node st) host = (nd, banned)" by (cases "check_ban now (st_node st) host")
  have al: "nd_alloc nd = nd_alloc (st_node st)"
    using cb by (auto simp: check_ban_def Let_def split: option.splits prod.splits)
  let ?s = "start_session now (st_cfg st) sid host port"
  have s: "ss_id ?s = sid" "\<not> ss_subscribed ?s" "ss_auth_workers ?s = {}"
    by (simp_all add: start_session_def new_session_def set_difficulty_def Let_def)
  obtain sm ok where add: "sessions_add (st_sessions st) ?s = (sm, ok)" by (cases "sessions_add (st_sessions st) ?s")
  have t: "table_ok sm (nd_alloc nd)"
    using table_ok_add [OF _ _ add s(2,3)] assms by (simp add: al s(1) front_inv_def)
  have cap: "sm_max_conn_per_ip sm = sg_max_conn_per_ip (st_cfg st)"
    using add assms(1) by (auto simp: sessions_add_def front_inv_def split: if_splits)
  define r where "r = accept_conn now st sid host port"
  have r: "r = (if banned then (st\<lparr>st_node := nd\<rparr>, False)
     else case get_pool_state (nd_lifecycle nd) (pt_pool_id port) of Inl _ \<Rightarrow> (st\<lparr>st_node := nd\<rparr>, False)
       | Inr ps \<Rightarrow> if ps = Disabled then (st\<lparr>st_node := nd\<rparr>, False)
         else (st\<lparr>st_node := nd, st_sessions := sm, st_malformed := (st_malformed st)(sid := 0)\<rparr>, ok))"
    unfolding r_def accept_conn_def Let_def cb prod.case add by simp
  have old: "front_inv (st\<lparr>st_node := nd\<rparr>)" using assms(1) by (simp add: front_inv_def al)
  have new: "front_inv (st\<lparr>st_node := nd, st_sessions := sm, st_malformed := f\<rparr>)" for f
    using t cap by (simp add: front_inv_def)
  have "fst r = st\<lparr>st_node := nd\<rparr> \<or> (\<exists>f. fst r = st\<lparr>st_node := nd, st_sessions := sm, st_malformed := f\<rparr>)"
    unfolding r by (auto split: sum.split)
  then show "front_inv (fst (accept_conn now st sid host port))"
    "issued (fst (accept_conn now st sid host port)) = issued st"
    "st_cfg (fst (accept_conn now st sid host port)) = st_cfg st"
    using old new unfolding r_def [symmetric] by (auto simp: issued_def al)
qed

lemma vardiff_session_login: "same_login s (fst (vardiff_session now s))"
  by (simp add: vardiff_session_def same_login_def same_session_def update_difficulty_def Let_def split: option.split prod.split)

lemma tick_front:
  "front_inv st \<Longrightarrow> front_inv (fst (vardiff_tick now st))"
  "issued (fst (vardiff_tick now st)) = issued st" "st_cfg (fst (vardiff_tick now st)) = st_cfg st"
  using table_ok_map [of "st_sessions st" _ "\<lambda>s. fst (vardiff_session now s)"] vardiff_session_login
  by (simp_all add: vardiff_tick_def front_inv_def issued_def Let_def)

lemma poll_front:
  "front_inv st \<Longrightarrow> front_inv (fst (poll_pool st p rpc))"
  "issued (fst (poll_pool st p rpc)) = issued st" "st_cfg (fst (poll_pool st p rpc)) = st_cfg st"
  by (simp_all add: poll_pool_def front_inv_def issued_def Let_def split: option.split prod.split)

lemma input_front:
  assumes "front_inv st" and "map_of (sm_sessions (st_sessions st)) sid = Some s" and "issued st + 1 < 2 ^ 32"
    and "conn_input now st s rd = (st', out, effs, go)"
  shows "front_inv st' \<and> issued st' \<le> issued st + 1 \<and> st_cfg st' = st_cfg st"
proof -
  note D = table_okD [of "st_sessions st" "nd_alloc (st_node st)"]
  have t: "table_ok (st_sessions st) (nd_alloc (st_node st))" using assms(1) by (simp add: front_inv_def)
  have sid: "ss_id s = sid" using D(1) [OF t] map_of_SomeD [OF assms(2)] by (auto simp: sessions_inv_def)
  have lk: "map_of (sm_sessions (st_sessions st)) (ss_id s) = Some s" using assms(2) sid by simp
  have closed: "table_ok (sessions_remove (st_sessions st) s) (nd_alloc (st_node st))" by (rule table_ok_remove [OF t lk])
  have cap: "sm_max_conn_per_ip (sessions_remove (st_sessions st) s) = sg_max_conn_per_ip (st_cfg st)"
    using assms(1) by (simp add: sessions_remove_def Let_def front_inv_def)
  obtain nd banned where nm: "note_malformed now (st_node st) (ss_remote_ip s) = (nd, banned)"
    by (cases "note_malformed now (st_node st) (ss_remote_ip s)")
  have al: "nd_alloc nd = nd_alloc (st_node st)"
    using nm by (auto simp: note_malformed_def Let_def split: option.splits prod.splits)
  define bad where "bad = (if banned \<or> st_malformed st (ss_id s) + 1 \<ge> max_malformed_per_conn
     then (close_conn (st\<lparr>st_node := nd, st_malformed := (st_malformed st)(ss_id s := st_malformed st (ss_id s) + 1)\<rparr>) s, []::sent, []::node_effect list, False)
     else (st\<lparr>st_node := nd, st_malformed := (st_malformed st)(ss_id s := st_malformed st (ss_id s) + 1)\<rparr>, [], [], True))"
  have bad: "front_inv (fst bad) \<and> issued (fst bad) = issued st \<and> st_cfg (fst bad) = st_cfg st"
    unfolding bad_def using assms(1) closed cap t by (simp add: front_inv_def issued_def close_conn_def al)
  show ?thesis
  proof (cases rd)
    case RdEOF
    then show ?thesis using assms(4) closed cap by (auto simp: conn_input_def close_conn_def front_inv_def issued_def)
  next
    case RdTooLong
    then have "bad = (st', out, effs, go)" using assms(4) unfolding bad_def conn_input_def Let_def nm by simp
    then show ?thesis using bad by simp
  next
    case RdMalformed
    then have "bad = (st', out, effs, go)" using assms(4) unfolding bad_def conn_input_def Let_def nm by simp
    then show ?thesis using bad by simp
  next
    case RdBlank
    then show ?thesis using assms(1,4) by (simp add: conn_input_def)
  next
    case (RdRequest req)
    obtain nd' s2 o2 e2 where h: "handle now (st_node st) (touch now s) req = (nd', s2, o2, e2)"
      by (cases "handle now (st_node st) (touch now s) req")
    have st': "st' = st\<lparr>st_node := nd', st_sessions := session_update (st_sessions st) (ss_id s) (\<lambda>_. s2)\<rparr>"
      using assms(4) RdRequest unfolding conn_input_def Let_def by (simp add: h)
    have k: "same_session s s2" "keeps_en1 (st_node st) s nd' s2 \<or> takes_en1 (st_node st) s nd' s2"
      using handle_session [OF h] by (auto simp: touch_def same_session_def keeps_en1_def takes_en1_def)
    from table_ok_request [OF t lk k] assms(1,3) show ?thesis
      by (simp add: st' front_inv_def issued_def session_update_def)
  qed
qed

lemma stratum_step_front:
  assumes "front_inv st" and "issued st + 1 < 2 ^ 32"
  shows "front_inv (fst (stratum_step st e)) \<and> issued (fst (stratum_step st e)) \<le> issued st + 1
    \<and> st_cfg (fst (stratum_step st e)) = st_cfg st"
proof (cases e)
  case (SvAccept now sid host port)
  then show ?thesis using accept_front [OF assms(1)] assms(1) by simp
next
  case (SvInput now sid rd)
  show ?thesis
  proof (cases "map_of (sm_sessions (st_sessions st)) sid")
    case (Some s)
    obtain st' out effs go where c: "conn_input now st s rd = (st', out, effs, go)" by (cases "conn_input now st s rd")
    show ?thesis using input_front [OF assms(1) Some assms(2) c] by (simp add: SvInput Some c)
  qed (use assms SvInput in simp)
next
  case (SvTick now)
  then show ?thesis using tick_front assms(1) by simp
next
  case (SvPoll p rpc)
  then show ?thesis using poll_front [of st p rpc] assms(1) by (simp add: Let_def case_prod_unfold)
next
  case (SvOp now p op)
  then show ?thesis using assms(1) by (simp add: front_inv_def issued_def split: prod.split)
qed

lemma stratum_run_front:
  "front_inv st \<Longrightarrow> issued st + length evs < 2 ^ 32 \<Longrightarrow>
     front_inv (stratum_run st evs) \<and> st_cfg (stratum_run st evs) = st_cfg st"
proof (induction evs arbitrary: st)
  case (Cons e evs)
  have "front_inv (fst (stratum_step st e)) \<and> issued (fst (stratum_step st e)) \<le> issued st + 1
    \<and> st_cfg (fst (stratum_step st e)) = st_cfg st"
    by (rule stratum_step_front) (use Cons.prems in simp_all)
  with Cons show ?case by (simp add: stratum_run_def)
qed (simp add: stratum_run_def)

lemma apart_distinct:
  assumes "distinct (map fst xs)"
    and "\<And>k s k' s'. (k, s) \<in> set xs \<Longrightarrow> (k', s') \<in> set xs \<Longrightarrow> k \<noteq> k' \<Longrightarrow> apart s s'"
  shows "distinct (map ss_extra_nonce1 (filter is_subscribed (map snd xs)))"
  using assms
proof (induction xs)
  case (Cons x xs)
  obtain k s where x: "x = (k, s)" by (cases x)
  have ih: "distinct (map ss_extra_nonce1 (filter is_subscribed (map snd xs)))"
    by (rule Cons.IH) (use Cons.prems in \<open>auto intro: Cons.prems(2)\<close>)
  have "ss_extra_nonce1 s \<noteq> ss_extra_nonce1 s'" if "(k', s') \<in> set xs" "is_subscribed s" "is_subscribed s'" for k' s'
  proof -
    have "k \<noteq> k'" using Cons.prems(1) that(1) x by force
    with Cons.prems(2) [of k s k' s'] that show ?thesis by (simp add: x apart_def is_subscribed_def)
  qed
  with ih show ?case by (fastforce simp: x)
qed simp

text \<open>
  C24: the table of live sessions is sound whatever arrives. After any interleaving of accepts, lines of
  any sort, vardiff ticks, polls and lifecycle actions (fewer than 2^32 of them) on a new server, with or
  without a ban manager: session ids are unique; no IP has more live sessions than the configured cap;
  subscribed sessions have pairwise different extranonce1 values, so no two of them search the same
  space; and a session with authorized workers is subscribed.
\<close>

theorem live_sessions_sound:
  assumes "st0 = new_stratum cfg lc pre reg coins \<or> st0 = set_ban_manager (new_stratum cfg lc pre reg coins) b"
    and "length evs < 2 ^ 32" and "m = st_sessions (stratum_run st0 evs)"
  shows "distinct (map fst (sm_sessions m))
    \<and> (0 < sg_max_conn_per_ip cfg \<longrightarrow> int (length (sessions_from m ip)) \<le> sg_max_conn_per_ip cfg)
    \<and> distinct (map ss_extra_nonce1 (filter is_subscribed (map snd (sm_sessions m))))
    \<and> (\<forall>s \<in> set (map snd (sm_sessions m)). has_any_authorized s \<longrightarrow> is_subscribed s)"
proof -
  have "front_inv st0" "issued st0 = 0" "st_cfg st0 = cfg"
    using assms(1) new_table_ok [of "sg_max_conn_per_ip cfg" 4 pre]
    by (auto simp: front_inv_def new_stratum_def set_ban_manager_def issued_def)
      (auto simp: new_session_manager_def new_allocator_def Let_def)
  with stratum_run_front [of st0 evs] assms(2) have "front_inv (stratum_run st0 evs)" "st_cfg (stratum_run st0 evs) = cfg"
    by simp_all
  then have t: "table_ok m (nd_alloc (st_node (stratum_run st0 evs)))" and cap: "sm_max_conn_per_ip m = sg_max_conn_per_ip cfg"
    by (simp_all add: front_inv_def assms(3))
  have inv: "distinct (map fst (sm_sessions m))" "ip_count m ip = int (length (sessions_from m ip))"
    "0 < sm_max_conn_per_ip m \<Longrightarrow> ip_count m ip \<le> sm_max_conn_per_ip m"
    using table_okD(1) [OF t] unfolding sessions_inv_def by blast+
  have "distinct (map ss_extra_nonce1 (filter is_subscribed (map snd (sm_sessions m))))"
    by (rule apart_distinct [OF inv(1)]) (rule table_okD(4) [OF t])
  moreover have "\<forall>s \<in> set (map snd (sm_sessions m)). has_any_authorized s \<longrightarrow> is_subscribed s"
  proof
    fix s assume "s \<in> set (map snd (sm_sessions m))"
    then obtain k where "(k, s) \<in> set (sm_sessions m)" by auto
    from table_okD(3) [OF t this] show "has_any_authorized s \<longrightarrow> is_subscribed s"
      by (simp add: en1_ok_def has_any_authorized_def is_subscribed_def)
  qed
  ultimately show ?thesis using inv cap by simp
qed

text \<open>Two connections from one IP to a server that allows one, the first of which subscribes.\<close>

definition sample_cfg :: stratum_config where
  "sample_cfg = \<lparr>sg_bind_address = ''0.0.0.0'', sg_ports = [], sg_max_conn_per_ip = 1, sg_read_timeout = 0, sg_max_line_bytes = 4096, sg_vardiff_target_interval = 0,
     sg_vardiff_retarget_interval = 0, sg_vardiff_variance_percent = 0\<rparr>"

definition sample_events :: "server_event list" where
  "sample_events = [SvAccept 0 ''s1'' ''ip'' sample_port, SvAccept 0 ''s2'' ''ip'' sample_port,
     SvInput 1 ''s1'' (RdRequest (sample_request method_subscribe []))]"

theorem live_sessions_sound_witness:
  "let m = st_sessions (stratum_run (new_stratum sample_cfg sample_lifecycle [] None (\<lambda>_. bitcoinlike_coin sample_adapter)) sample_events)
   in length (sessions_from m ''ip'') = 1 \<and> map ss_extra_nonce1 (filter is_subscribed (map snd (sm_sessions m))) = [''00000001'']"
proof -
  let ?m = "st_sessions (stratum_run (new_stratum sample_cfg sample_lifecycle [] None (\<lambda>_. bitcoinlike_coin sample_adapter)) sample_events)"
  have "int (length (sessions_from ?m ''ip'')) \<le> 1"
    using live_sessions_sound [OF disjI1 [OF refl], of sample_events ?m sample_cfg sample_lifecycle "[]" None
        "\<lambda>_. bitcoinlike_coin sample_adapter" "''ip''"]
    by (simp add: sample_cfg_def sample_events_def)
  moreover have "map ss_extra_nonce1 (filter is_subscribed (map snd (sm_sessions ?m))) = [''00000001''] \<and> sessions_from ?m ''ip'' \<noteq> []"
    by code_simp
  ultimately show ?thesis by (cases "sessions_from ?m ''ip''") simp_all
qed

subsection \<open>Over-long lines\<close>

lemma spent_reader_banned:
  assumes "read_line decode rd = (rd0, RdTooLong) \<and> spent rd0" and "map_of (sm_sessions (st_sessions st)) sid = Some s" and "ss_id s = sid"
    and "nd_bans (st_node st) = Some b" and "bc_enabled (bm_cfg b)" and "get_counters b (ss_remote_ip s) = Some c"
    and "st_malformed st sid < 5" and "5 \<le> fuel + st_malformed st sid"
    and "bc_malformed_threshold (bm_cfg b) + int (st_malformed st sid) \<le> cn_malformed c + 5" and "0 < bc_ban_duration (bm_cfg b)"
  shows "\<exists>st' b'. serve_conn fuel decode now st sid rd = (st', [], False) \<and> st_sessions st' = sessions_remove (st_sessions st) s
    \<and> nd_bans (st_node st') = Some b' \<and> snd (is_banned now b' (ss_remote_ip s))"
  using assms
proof (induction fuel arbitrary: st rd rd0 b c)
  case (Suc fuel)
  have rd: "read_line decode rd = (rd0, RdTooLong)" using Suc.prems(1) by simp
  obtain rd1 where rd1: "read_line decode rd0 = (rd1, RdTooLong) \<and> spent rd1"
    using read_line_spent [of rd0] Suc.prems(1) by blast
  let ?n = "st_malformed st sid + 1" and ?ip = "ss_remote_ip s" and ?c = "c\<lparr>cn_malformed := cn_malformed c + 1\<rparr>"
  let ?m = "(st_malformed st)(sid := ?n)" and ?b1 = "put_counters b (ss_remote_ip s) (c\<lparr>cn_malformed := cn_malformed c + 1\<rparr>)"
  show ?case
  proof (cases "cn_malformed c + 1 \<ge> bc_malformed_threshold (bm_cfg b)")
    case True
    let ?b = "ban now ?b1 ?ip"
    have "note_malformed now (st_node st) ?ip = ((st_node st)\<lparr>nd_bans := Some ?b\<rparr>, True)"
      using Suc.prems(4-6) True by (simp add: note_malformed_def record_malformed_def Let_def)
    then have "serve_conn (Suc fuel) decode now st sid rd =
        (close_conn (st\<lparr>st_node := (st_node st)\<lparr>nd_bans := Some ?b\<rparr>, st_malformed := ?m\<rparr>) s, [], False)"
      by (simp add: Suc.prems(2,3) rd conn_input_def)
    moreover have "snd (is_banned now ?b ?ip)"
      using Suc.prems(5,10) by (simp add: is_banned_def ban_def put_counters_def)
    ultimately show ?thesis by (simp add: close_conn_def)
  next
    case False
    let ?st = "st\<lparr>st_node := (st_node st)\<lparr>nd_bans := Some ?b1\<rparr>, st_malformed := ?m\<rparr>"
    have n: "?n < 5" using False Suc.prems(7,9) by linarith
    have "note_malformed now (st_node st) ?ip = ((st_node st)\<lparr>nd_bans := Some ?b1\<rparr>, False)"
      using Suc.prems(4-6) False by (simp add: note_malformed_def record_malformed_def Let_def)
    then have step: "serve_conn (Suc fuel) decode now st sid rd = serve_conn fuel decode now ?st sid rd0"
      using n by (simp add: Suc.prems(2,3) rd conn_input_def max_malformed_per_conn_def split: prod.split)
    have "get_counters ?b1 ?ip = Some ?c" by (simp add: get_counters_def put_counters_def update_conv)
    then have "\<exists>st' b'. serve_conn fuel decode now ?st sid rd0 = (st', [], False) \<and> st_sessions st' = sessions_remove (st_sessions ?st) s
        \<and> nd_bans (st_node st') = Some b' \<and> snd (is_banned now b' ?ip)"
      by (intro Suc.IH [OF rd1, of _ ?b1 ?c]) (use Suc.prems n in \<open>simp_all add: put_counters_def\<close>)
    then show ?thesis unfolding step by simp
  qed
qed simp

text \<open>
  One over-long line costs a miner its connection and its address. When banning is on with the
  default malformed threshold of five or a lower one, a fresh connection that sends a single line that
  does not fit the reader's buffer is closed within five reads, nothing is answered, and its IP is
  banned, whatever follows on the connection: the reader reports the same line again at every read.
\<close>

theorem one_long_line_bans:
  assumes "map_of (sm_sessions (st_sessions st)) sid = Some s" and "ss_id s = sid" and "st_malformed st sid = 0"
    and "nd_bans (st_node st) = Some b" and "bc_enabled (bm_cfg b)" and "get_counters b (ss_remote_ip s) = Some c"
    and "0 \<le> cn_malformed c" and "bc_malformed_threshold (bm_cfg b) \<le> 5" and "0 < bc_ban_duration (bm_cfg b)"
    and "scan_buffer_size m \<le> length l" and "of_char (l ! (scan_buffer_size m - 1)) \<noteq> (13 :: int)"
  shows "\<exists>st' b'. serve_conn 5 decode now st sid (new_reader (l # ls) m) = (st', [], False)
    \<and> map_of (sm_sessions (st_sessions st')) sid = None
    \<and> nd_bans (st_node st') = Some b' \<and> snd (is_banned now b' (ss_remote_ip s))"
proof -
  obtain rd where rd: "read_line decode (new_reader (l # ls) m) = (rd, RdTooLong) \<and> spent rd"
    using read_line_over_long [OF assms(10,11)] by blast
  from spent_reader_banned [OF rd assms(1,2,4,5,6), of 5] assms(3,7,8,9)
  obtain st' b' where st': "serve_conn 5 decode now st sid (new_reader (l # ls) m) = (st', [], False)"
    "st_sessions st' = sessions_remove (st_sessions st) s" "nd_bans (st_node st') = Some b'"
    "snd (is_banned now b' (ss_remote_ip s))" by (elim exE conjE meta_allE [of _ now]) auto
  have "map_of (sm_sessions (sessions_remove (st_sessions st) s)) sid = None"
    using assms(1,2) by (simp add: sessions_remove_def Let_def delete_conv)
  with st' show ?thesis by auto
qed

text \<open>A server with one live session and a ban manager.\<close>

definition sample_front :: stratum where
  "sample_front =
     (let st = set_ban_manager (new_stratum sample_cfg sample_lifecycle [] None (\<lambda>_. bitcoinlike_coin sample_adapter))
                (new_ban_manager sample_bans)
      in st\<lparr>st_sessions := fst (sessions_add (st_sessions st) (new_session 0 ''s1'' ''rxd'' ''ip''))\<rparr>)"

theorem one_long_line_bans_witness:
  "\<exists>st' b'. serve_conn 5 (\<lambda>_. None) 0 sample_front ''s1'' (new_reader [replicate 4096 CHR ''x''] 1024) = (st', [], False)
    \<and> map_of (sm_sessions (st_sessions st')) ''s1'' = None
    \<and> nd_bans (st_node st') = Some b' \<and> snd (is_banned 0 b' ''ip'')"
proof -
  let ?st = sample_front and ?s = "new_session 0 ''s1'' ''rxd'' ''ip''" and ?b = "new_ban_manager sample_bans"
  have st: "map_of (sm_sessions (st_sessions ?st)) ''s1'' = Some ?s" "st_malformed ?st ''s1'' = 0" "nd_bans (st_node ?st) = Some ?b"
    by (simp_all add: sample_front_def set_ban_manager_def new_stratum_def sessions_add_def new_session_manager_def
      new_session_def ip_count_def Let_def)
  have b: "bc_enabled (bm_cfg ?b)" "get_counters ?b ''ip'' = Some \<lparr>cn_valid = 0, cn_invalid = 0, cn_malformed = 0, cn_failed_auth = 0\<rparr>"
    "bc_malformed_threshold (bm_cfg ?b) \<le> 5" "0 < bc_ban_duration (bm_cfg ?b)"
    by (simp_all add: new_ban_manager_def sample_bans_def ban_defaults_def get_counters_def max_tracked_ips_def)
  have s: "ss_id ?s = ''s1''" "ss_remote_ip ?s = ''ip''" by (simp_all add: new_session_def)
  show ?thesis
    using one_long_line_bans [OF st(1) s(1) st(2,3) b(1), unfolded s(2), OF b(2) _ b(3,4),
        of 1024 "replicate 4096 CHR ''x''" "\<lambda>_. None" 0 "[]"]
    by (simp add: scan_buffer_size_def)
qed

subsection \<open>Connections end\<close>

text \<open>An upper bound on the reads left.\<close>

definition reads_left :: "stratum \<Rightarrow> string \<Rightarrow> line_reader \<Rightarrow> nat" where
  "reads_left st sid rd =
     (if \<not> lr_failed rd then length (lr_lines rd) + 7
      else (case lr_buffered rd of None \<Rightarrow> 0 | Some b \<Rightarrow> 1) + (5 - min 5 (st_malformed st sid)))"

lemma read_line_cases:
  assumes "read_line decode rd = (rd', x)"
  obtains (ended) "x = RdEOF"
    | (line) l where "\<not> lr_failed rd" "lr_lines rd = l # lr_lines rd'" "\<not> lr_failed rd'"
    | (full) "\<not> lr_failed rd" "lr_failed rd'"
    | (buffered) b where "lr_failed rd" "lr_buffered rd = Some b" "lr_failed rd'" "lr_buffered rd' = None"
    | (stuck) "lr_failed rd" "lr_buffered rd = None" "rd' = rd" "x = RdTooLong"
  using assms by (auto simp: read_line_def split: if_splits list.splits option.splits)

lemma conn_input_malformed:
  assumes "conn_input now st s x = (st', out, effs, go)" and "go" and "ss_id s = sid"
  shows "st_malformed st sid \<le> st_malformed st' sid"
    and "x = RdTooLong \<Longrightarrow> st_malformed st' sid = st_malformed st sid + 1 \<and> st_malformed st' sid < 5"
  using assms by (auto simp: conn_input_def close_conn_def max_malformed_per_conn_def Let_def
    split: read_result.splits prod.splits if_splits)

lemma conn_input_eof: "conn_input now st s RdEOF = (close_conn st s, [], [], False)"
  by (simp add: conn_input_def)

definition ids_ok :: "stratum \<Rightarrow> bool" where
  "ids_ok st \<longleftrightarrow> (\<forall>(k, s) \<in> set (sm_sessions (st_sessions st)). ss_id s = k)"

lemma conn_input_ids:
  assumes "conn_input now st s x = (st', out, effs, go)" and "go" and "ids_ok st"
  shows "ids_ok st'"
proof (cases x)
  case (RdRequest req)
  obtain nd' s2 o2 e2 where h: "handle now (st_node st) (touch now s) req = (nd', s2, o2, e2)"
    by (cases "handle now (st_node st) (touch now s) req")
  have "ss_id s2 = ss_id s" using handle_session [OF h] by (simp add: same_session_def touch_def)
  moreover have "st_sessions st' = session_update (st_sessions st) (ss_id s) (\<lambda>_. s2)"
    using assms(1) RdRequest unfolding conn_input_def Let_def by (auto simp: h)
  ultimately show ?thesis using assms(3) by (auto simp: ids_ok_def session_update_def)
qed (use assms in \<open>auto simp: conn_input_def ids_ok_def Let_def split: prod.splits if_splits\<close>)

lemma serve_conn_ends:
  "ids_ok st \<Longrightarrow> reads_left st sid rd < fuel \<Longrightarrow> \<not> snd (snd (serve_conn fuel decode now st sid rd))"
proof (induction fuel arbitrary: st rd)
  case (Suc fuel)
  show ?case
  proof (cases "map_of (sm_sessions (st_sessions st)) sid")
    case (Some s)
    have sid: "ss_id s = sid" using map_of_SomeD [OF Some] Suc.prems(1) by (auto simp: ids_ok_def)
    obtain rd' x where r: "read_line decode rd = (rd', x)" by (cases "read_line decode rd")
    obtain st' out effs go where c: "conn_input now st s x = (st', out, effs, go)" by (cases "conn_input now st s x")
    have step: "snd (snd (serve_conn (Suc fuel) decode now st sid rd)) = (go \<and> snd (snd (serve_conn fuel decode now st' sid rd')))"
      by (simp add: Some r c split: prod.split)
    show ?thesis
    proof (cases go)
      case True
      note mal = conn_input_malformed [OF c True sid]
      have "reads_left st' sid rd' < reads_left st sid rd"
        using r
      proof (cases rule: read_line_cases)
        case ended
        with c True show ?thesis by (simp add: conn_input_eof)
      next
        case stuck
        then show ?thesis using mal(2) by (simp add: reads_left_def) linarith
      next
        case full
        have "reads_left st' sid rd' \<le> 6" using full unfolding reads_left_def by (cases "lr_buffered rd'"; simp; linarith)
        then show ?thesis using full by (simp add: reads_left_def)
      qed (use mal(1) in \<open>simp_all add: reads_left_def\<close>)
      then have "\<not> snd (snd (serve_conn fuel decode now st' sid rd'))"
        by (intro Suc.IH) (use conn_input_ids [OF c True] Suc.prems in simp_all)
      then show ?thesis unfolding step by simp
    qed (simp add: Some r c)
  qed simp
qed simp

text \<open>
  C33: a connection always ends. Whatever the client sends, the loop of its connection stops after at
  most eight reads more than there are lines; in particular a reader that has given up on an over-long
  line, and reports it at every read, cannot keep the loop spinning.
\<close>

theorem connection_ends:
  assumes "\<forall>(k, s) \<in> set (sm_sessions (st_sessions st)). ss_id s = k" and "length ls + 7 < fuel"
  shows "\<not> snd (snd (serve_conn fuel decode now st sid (new_reader ls m)))"
  using assms by (intro serve_conn_ends) (simp_all add: ids_ok_def reads_left_def new_reader_def)

theorem connection_ends_witness:
  "\<not> snd (snd (serve_conn 10 (\<lambda>_. None) 0 sample_front ''s1'' (new_reader [''a'', ''b''] 1024)))"
  by (rule connection_ends)
    (simp_all add: sample_front_def set_ban_manager_def new_stratum_def sessions_add_def new_session_manager_def
      new_session_def ip_count_def Let_def)

end
