(* ===== verification/ShareWriter.thy ===== *)
theory ShareWriter
  imports Spool GoFloat
begin

text \<open>
  \<open>internal/storage/postgres/sharewriter.go\<close> and \<open>sharewal.go\<close>: the asynchronous writer of accepted
  shares and its write-ahead log on a spool. The shares table is a list of rows with the unique index on
  (id, created) over non-empty ids. What the database does to a statement, what the disk does to the
  log, and \<open>encoding/json\<close> on a share (\<open>wal_codec\<close>) are arguments. Timers, goroutines and contexts are
  the order of the operations; partitions are created outside the model.
\<close>

record share_record =
  hr_id :: string
  hr_pool :: string
  hr_height :: int
  hr_difficulty :: f64
  hr_network_difficulty :: f64
  hr_miner :: string
  hr_worker :: string
  hr_user_agent :: string
  hr_ip :: string
  hr_source :: string
  hr_created :: int

record writer_options =
  wo_queue_size :: int
  wo_batch_size :: int
  wo_flush_interval :: int
  wo_wal_max_bytes :: int
  wo_wal_drain_interval :: int

definition writer_defaults :: "writer_options \<Rightarrow> writer_options" where
  "writer_defaults o1 =
     \<lparr>wo_queue_size = (if wo_queue_size o1 \<le> 0 then 65536 else wo_queue_size o1),
      wo_batch_size = (if wo_batch_size o1 \<le> 0 then 500 else wo_batch_size o1),
      wo_flush_interval = (if wo_flush_interval o1 \<le> 0 then 2000000000 else wo_flush_interval o1),
      wo_wal_max_bytes = (if wo_wal_max_bytes o1 \<le> 0 then 1073741824 else wo_wal_max_bytes o1),
      wo_wal_drain_interval = (if wo_wal_drain_interval o1 \<le> 0 then 5000000000 else wo_wal_drain_interval o1)\<rparr>"

record share_writer =
  sw_opts :: writer_options
  sw_queue :: "share_record list"
  sw_batch :: "share_record list"
  sw_pending :: "share_record list"
  sw_wal :: "spool option"
  sw_written :: nat
  sw_dropped :: nat
  sw_to_wal :: nat

text \<open>The log's file is what an earlier run left; \<open>None\<close> without a log, or when it cannot be opened.\<close>

definition new_share_writer :: "writer_options \<Rightarrow> string option \<Rightarrow> share_writer" where
  "new_share_writer opts wal_file =
     (let o1 = writer_defaults opts
      in \<lparr>sw_opts = o1, sw_queue = [], sw_batch = [], sw_pending = [],
          sw_wal = map_option (\<lambda>f. open_spool f (wo_wal_max_bytes o1)) wal_file,
          sw_written = 0, sw_dropped = 0, sw_to_wal = 0\<rparr>)"

definition max_retained_shares :: int where
  "max_retained_shares = 250000"

subsection \<open>The table\<close>

definition share_key :: "share_record \<Rightarrow> string \<times> int" where
  "share_key r = (hr_id r, hr_created r)"

datatype db_result = DbOk | DbFails | DbCommitsThenFails

definition finish_insert :: "db_result \<Rightarrow> share_record list \<Rightarrow> share_record list \<Rightarrow> share_record list \<times> bool" where
  "finish_insert out old new =
     (case out of DbOk \<Rightarrow> (new, True) | DbFails \<Rightarrow> (old, False) | DbCommitsThenFails \<Rightarrow> (new, False))"

fun indexed_ok :: "(string \<times> int) list \<Rightarrow> share_record list \<Rightarrow> bool" where
  "indexed_ok keys [] = True"
| "indexed_ok keys (r # rs) =
     (if hr_id r = [] then indexed_ok keys rs
      else share_key r \<notin> set keys \<and> indexed_ok (share_key r # keys) rs)"

text \<open>The plain COPY: the unique index rejects the whole statement.\<close>

definition copy_shares :: "db_result \<Rightarrow> share_record list \<Rightarrow> share_record list \<Rightarrow> share_record list \<times> bool" where
  "copy_shares out tbl recs =
     (if recs = [] then (tbl, True)
      else if \<not> indexed_ok (map share_key tbl) recs then (tbl, False)
      else finish_insert out tbl (tbl @ recs))"

fun insert_new :: "share_record list \<Rightarrow> share_record list \<Rightarrow> share_record list" where
  "insert_new tbl [] = tbl"
| "insert_new tbl (r # rs) =
     (if hr_id r \<noteq> [] \<and> share_key r \<in> set (map share_key tbl) then insert_new tbl rs else insert_new (tbl @ [r]) rs)"

text \<open>COPY into a staging table, then \<open>INSERT ... ON CONFLICT DO NOTHING\<close>.\<close>

definition copy_shares_idempotent :: "db_result \<Rightarrow> share_record list \<Rightarrow> share_record list \<Rightarrow> share_record list \<times> bool" where
  "copy_shares_idempotent out tbl recs =
     (if recs = [] then (tbl, True) else finish_insert out tbl (insert_new tbl recs))"

subsection \<open>The write-ahead log\<close>

record wal_codec =
  wc_marshal :: "share_record \<Rightarrow> bytes option"
  wc_unmarshal :: "bytes \<Rightarrow> share_record option"

definition share_wal_subject :: string where
  "share_wal_subject = ''share''"

definition wal_append :: "wal_codec \<Rightarrow> write_result \<Rightarrow> spool \<Rightarrow> share_record \<Rightarrow> spool \<times> bool" where
  "wal_append c w sp r =
     (case wc_marshal c r of None \<Rightarrow> (sp, False)
      | Some payload \<Rightarrow>
        let (sp', res) = spool_append w sp \<lparr>rc_subject = share_wal_subject, rc_payload = payload\<rparr>
        in (sp', res = Inr ()))"

definition wal_drain_batch_size :: int where
  "wal_drain_batch_size = 1000"

definition wal_shares :: "wal_codec \<Rightarrow> spool_record list \<Rightarrow> share_record list" where
  "wal_shares c rs = List.map_filter (\<lambda>r. wc_unmarshal c (rc_payload r)) rs"

text \<open>The callback of the drain: the table and what the database will do to the next inserts.\<close>

definition wal_insert ::
  "wal_codec \<Rightarrow> share_record list \<times> db_result list \<Rightarrow> spool_record list \<Rightarrow> (share_record list \<times> db_result list) \<times> bool" where
  "wal_insert c st records =
     (let recs = wal_shares c records in
      if recs = [] then (st, True)
      else case snd st of [] \<Rightarrow> (st, False)
      | out # outs \<Rightarrow> let (tbl, ok) = copy_shares_idempotent out (fst st) recs in ((tbl, outs), ok))"

definition wal_drain ::
  "wal_codec \<Rightarrow> disk_result \<Rightarrow> db_result list \<Rightarrow> share_record list \<Rightarrow> spool \<Rightarrow> share_record list \<times> spool \<times> bool" where
  "wal_drain c d outs tbl sp =
     (let (st, sp', res) = spool_drain_batch d wal_drain_batch_size (wal_insert c) (tbl, outs) sp
      in (fst st, sp', res = Inr ()))"

subsection \<open>The writer\<close>

definition divert :: "wal_codec \<Rightarrow> write_result \<Rightarrow> share_writer \<Rightarrow> share_record \<Rightarrow> share_writer" where
  "divert c w sw r =
     (case sw_wal sw of None \<Rightarrow> sw\<lparr>sw_dropped := sw_dropped sw + 1\<rparr>
      | Some sp \<Rightarrow>
        let (sp', ok) = wal_append c w sp r; sw1 = sw\<lparr>sw_wal := Some sp'\<rparr>
        in if ok then sw1\<lparr>sw_to_wal := sw_to_wal sw + 1\<rparr> else sw1\<lparr>sw_dropped := sw_dropped sw + 1\<rparr>)"

definition with_id :: "string \<Rightarrow> share_record \<Rightarrow> share_record" where
  "with_id new_id r = (if hr_id r = [] then r\<lparr>hr_id := new_id\<rparr> else r)"

definition enqueue :: "wal_codec \<Rightarrow> string \<Rightarrow> write_result \<Rightarrow> share_writer \<Rightarrow> share_record \<Rightarrow> share_writer" where
  "enqueue c new_id w sw r =
     (let r1 = with_id new_id r in
      if int (length (sw_queue sw)) < wo_queue_size (sw_opts sw)
      then sw\<lparr>sw_queue := sw_queue sw @ [r1]\<rparr> else divert c w sw r1)"

fun divert_all :: "wal_codec \<Rightarrow> (nat \<Rightarrow> write_result) \<Rightarrow> share_writer \<Rightarrow> share_record list \<Rightarrow> share_writer" where
  "divert_all c ws sw [] = sw"
| "divert_all c ws sw (r # rs) = divert_all c (\<lambda>i. ws (Suc i)) (divert c (ws 0) sw r) rs"

definition retain :: "wal_codec \<Rightarrow> (nat \<Rightarrow> write_result) \<Rightarrow> share_writer \<Rightarrow> share_record list \<Rightarrow> share_writer" where
  "retain c ws sw recs =
     (let pending = sw_pending sw @ recs;
          over = nat (int (length pending) - max_retained_shares)
      in divert_all c ws (sw\<lparr>sw_pending := drop over pending\<rparr>) (take over pending))"

definition flush ::
  "wal_codec \<Rightarrow> db_result \<Rightarrow> (nat \<Rightarrow> write_result) \<Rightarrow> share_record list \<Rightarrow> share_writer \<Rightarrow> share_record list \<times> share_writer" where
  "flush c out ws tbl sw =
     (if sw_batch sw = [] \<and> sw_pending sw = [] then (tbl, sw)
      else
        let had_retained = sw_pending sw \<noteq> [];
            to_write = sw_pending sw @ sw_batch sw;
            sw1 = sw\<lparr>sw_pending := [], sw_batch := []\<rparr>;
            (tbl', ok) = (if had_retained then copy_shares_idempotent out tbl to_write else copy_shares out tbl to_write)
        in if \<not> ok then (tbl', retain c ws sw1 to_write)
           else (tbl', sw1\<lparr>sw_written := sw_written sw + length to_write\<rparr>))"

definition receive_share ::
  "wal_codec \<Rightarrow> db_result \<Rightarrow> (nat \<Rightarrow> write_result) \<Rightarrow> share_record list \<Rightarrow> share_writer \<Rightarrow> share_record list \<times> share_writer" where
  "receive_share c out ws tbl sw =
     (case sw_queue sw of [] \<Rightarrow> (tbl, sw)
      | r # q \<Rightarrow>
        let sw1 = sw\<lparr>sw_queue := q, sw_batch := sw_batch sw @ [r]\<rparr>
        in if int (length (sw_batch sw1)) \<ge> wo_batch_size (sw_opts sw) then flush c out ws tbl sw1 else (tbl, sw1))"

definition recover ::
  "wal_codec \<Rightarrow> disk_result \<Rightarrow> db_result list \<Rightarrow> share_record list \<Rightarrow> share_writer \<Rightarrow> share_record list \<times> share_writer" where
  "recover c d outs tbl sw =
     (case sw_wal sw of None \<Rightarrow> (tbl, sw)
      | Some sp \<Rightarrow>
        if sp_size sp = 0 then (tbl, sw)
        else let (tbl', sp', ok) = wal_drain c d outs tbl sp in (tbl', sw\<lparr>sw_wal := Some sp'\<rparr>))"

text \<open>The loop's exit, then the last drain of the log.\<close>

definition final_flush :: "db_result \<Rightarrow> share_record list \<Rightarrow> share_writer \<Rightarrow> share_record list \<times> share_writer" where
  "final_flush out tbl sw =
     (let to_write = sw_pending sw @ sw_batch sw @ sw_queue sw;
          sw1 = sw\<lparr>sw_pending := [], sw_batch := [], sw_queue := []\<rparr>
      in if to_write = [] then (tbl, sw1)
         else let (tbl', ok) = copy_shares out tbl to_write
              in (tbl', if ok then sw1\<lparr>sw_written := sw_written sw + length to_write\<rparr> else sw1))"

definition close_writer ::
  "wal_codec \<Rightarrow> db_result \<Rightarrow> disk_result \<Rightarrow> db_result list \<Rightarrow> share_record list \<Rightarrow> share_writer \<Rightarrow> share_record list \<times> share_writer" where
  "close_writer c out d outs tbl sw =
     (let (tbl1, sw1) = final_flush out tbl sw in recover c d outs tbl1 sw1)"

subsection \<open>Where a share is\<close>

definition logged :: "wal_codec \<Rightarrow> share_writer \<Rightarrow> share_record set" where
  "logged c sw =
     (case sw_wal sw of None \<Rightarrow> {} | Some sp \<Rightarrow> set (wal_shares c (parse_file unmarshal_record (sp_file sp))))"

definition held :: "wal_codec \<Rightarrow> share_writer \<Rightarrow> share_record set" where
  "held c sw = set (sw_queue sw) \<union> set (sw_batch sw) \<union> set (sw_pending sw) \<union> logged c sw"

definition stored :: "share_record list \<Rightarrow> share_record \<Rightarrow> bool" where
  "stored tbl r \<longleftrightarrow> share_key r \<in> share_key ` set tbl"

definition safe :: "wal_codec \<Rightarrow> share_record list \<times> share_writer \<Rightarrow> share_record \<Rightarrow> bool" where
  "safe c w r \<longleftrightarrow> r \<in> held c (snd w) \<or> stored (fst w) r"

text \<open>From one state to another, shares in flight before (\<open>F\<close>) and after (\<open>G\<close>): what is no longer anywhere
  has been counted as dropped.\<close>

definition loses ::
  "wal_codec \<Rightarrow> share_record set \<Rightarrow> share_record list \<times> share_writer \<Rightarrow> share_record set \<Rightarrow> share_record list \<times> share_writer \<Rightarrow> bool" where
  "loses c F w G w' \<longleftrightarrow>
     (\<exists>X. finite X \<and> card X + sw_dropped (snd w) \<le> sw_dropped (snd w')
        \<and> (\<forall>r. safe c w r \<or> r \<in> F \<longrightarrow> safe c w' r \<or> r \<in> G \<or> r \<in> X))"

lemma loses_none:
  assumes "sw_dropped (snd w) \<le> sw_dropped (snd w')" and "\<And>r. safe c w r \<or> r \<in> F \<Longrightarrow> safe c w' r \<or> r \<in> G"
  shows "loses c F w G w'"
  unfolding loses_def using assms by (intro exI [of _ "{}"]) auto

lemma loses_trans:
  assumes "loses c F w G w1" and "loses c G w1 H w2"
  shows "loses c F w H w2"
proof -
  obtain X where X: "finite X" "card X + sw_dropped (snd w) \<le> sw_dropped (snd w1)"
    "\<And>r. safe c w r \<or> r \<in> F \<Longrightarrow> safe c w1 r \<or> r \<in> G \<or> r \<in> X" using assms(1) by (auto simp: loses_def)
  obtain Y where Y: "finite Y" "card Y + sw_dropped (snd w1) \<le> sw_dropped (snd w2)"
    "\<And>r. safe c w1 r \<or> r \<in> G \<Longrightarrow> safe c w2 r \<or> r \<in> H \<or> r \<in> Y" using assms(2) by (auto simp: loses_def)
  have "card (X \<union> Y) + sw_dropped (snd w) \<le> sw_dropped (snd w2)" using X(2) Y(2) card_Un_le [of X Y] by linarith
  moreover have "\<forall>r. safe c w r \<or> r \<in> F \<longrightarrow> safe c w2 r \<or> r \<in> H \<or> r \<in> X \<union> Y" using X(3) Y(3) by blast
  ultimately show ?thesis unfolding loses_def using X(1) Y(1) by (intro exI [of _ "X \<union> Y"]) simp
qed

subsection \<open>Statements and the log\<close>

definition codec_ok :: "wal_codec \<Rightarrow> bool" where
  "codec_ok c \<longleftrightarrow> (\<forall>r p. wc_marshal c r = Some p \<longrightarrow> wc_unmarshal c p = Some r)"

definition wal_ok :: "share_writer \<Rightarrow> bool" where
  "wal_ok sw \<longleftrightarrow> (case sw_wal sw of None \<Rightarrow> True | Some sp \<Rightarrow> \<exists>rs. holds sp rs)"

lemma stored_mono: "set tbl \<subseteq> set tbl' \<Longrightarrow> stored tbl r \<Longrightarrow> stored tbl' r"
  by (auto simp: stored_def)

lemma stored_self: "r \<in> set tbl \<Longrightarrow> stored tbl r"
  by (simp add: stored_def)

lemma insert_new_sets: "set tbl \<subseteq> set (insert_new tbl rs) \<and> set (insert_new tbl rs) \<subseteq> set tbl \<union> set rs"
proof (induction rs arbitrary: tbl)
  case (Cons r rs)
  show ?case using Cons.IH [of tbl] Cons.IH [of "tbl @ [r]"] by auto
qed simp

lemma insert_new_stored: "r \<in> set rs \<Longrightarrow> stored (insert_new tbl rs) r"
proof (induction rs arbitrary: tbl)
  case (Cons x rs)
  show ?case
  proof (cases "r \<in> set rs")
    case True
    then show ?thesis using Cons.IH by simp
  next
    case False
    then have "r = x" using Cons.prems by simp
    show ?thesis
    proof (cases "hr_id x \<noteq> [] \<and> share_key x \<in> set (map share_key tbl)")
      case True
      then have "stored tbl r" using \<open>r = x\<close> by (simp add: stored_def)
      then show ?thesis using True insert_new_sets [of tbl rs] stored_mono by fastforce
    next
      case False
      have "stored (tbl @ [x]) r" using \<open>r = x\<close> by (simp add: stored_def)
      then show ?thesis using False insert_new_sets [of "tbl @ [x]" rs] stored_mono [of "tbl @ [x]"] by auto
    qed
  qed
qed simp

definition keyed :: "share_record list \<Rightarrow> bool" where
  "keyed tbl \<longleftrightarrow> distinct (map share_key tbl) \<and> (\<forall>r \<in> set tbl. hr_id r \<noteq> [])"

lemma insert_new_keyed: "keyed tbl \<Longrightarrow> \<forall>r \<in> set rs. hr_id r \<noteq> [] \<Longrightarrow> keyed (insert_new tbl rs)"
proof (induction rs arbitrary: tbl)
  case (Cons r rs)
  show ?case
  proof (cases "share_key r \<in> set (map share_key tbl)")
    case True
    then show ?thesis using Cons by simp
  next
    case False
    then have "keyed (tbl @ [r])" using Cons.prems by (auto simp: keyed_def)
    then show ?thesis using Cons False by simp
  qed
qed simp

lemma indexed_distinct:
  "indexed_ok keys rs \<Longrightarrow> \<forall>r \<in> set rs. hr_id r \<noteq> [] \<Longrightarrow>
     distinct (map share_key rs) \<and> (\<forall>r \<in> set rs. share_key r \<notin> set keys)"
proof (induction rs arbitrary: keys)
  case (Cons r rs)
  from Cons.IH [of "share_key r # keys"] Cons.prems show ?case by auto
qed simp

text \<open>What either statement guarantees.\<close>

definition inserts :: "share_record list \<Rightarrow> share_record list \<Rightarrow> share_record list \<times> bool \<Rightarrow> bool" where
  "inserts tbl recs res \<longleftrightarrow>
     set tbl \<subseteq> set (fst res) \<and> set (fst res) \<subseteq> set tbl \<union> set recs
     \<and> (snd res \<longrightarrow> (\<forall>r \<in> set recs. stored (fst res) r))
     \<and> (keyed tbl \<and> (\<forall>r \<in> set recs. hr_id r \<noteq> []) \<longrightarrow> keyed (fst res))"

lemma copy_shares_inserts: "inserts tbl recs (copy_shares out tbl recs)"
proof (cases "recs = [] \<or> \<not> indexed_ok (map share_key tbl) recs")
  case True
  then show ?thesis by (auto simp: copy_shares_def inserts_def)
next
  case False
  have "keyed (tbl @ recs)" if "keyed tbl" "\<forall>r \<in> set recs. hr_id r \<noteq> []"
    using that indexed_distinct [of "map share_key tbl" recs] False by (auto simp: keyed_def)
  then show ?thesis using False
    by (cases out) (auto simp: copy_shares_def finish_insert_def inserts_def stored_def)
qed

lemma copy_shares_idempotent_inserts: "inserts tbl recs (copy_shares_idempotent out tbl recs)"
  using insert_new_sets [of tbl recs] insert_new_stored [of _ recs tbl] insert_new_keyed [of tbl recs]
  by (cases out; cases "recs = []") (simp_all add: copy_shares_idempotent_def finish_insert_def inserts_def)

lemma wal_shares_append [simp]: "wal_shares c (rs @ rs') = wal_shares c rs @ wal_shares c rs'"
  by (simp add: wal_shares_def map_filter_def)

lemma logged_holds: "sw_wal sw = Some sp \<Longrightarrow> holds sp rs \<Longrightarrow> logged c sw = set (wal_shares c rs)"
  by (simp add: logged_def holds_records)

lemma wal_append_holds:
  assumes "codec_ok c" and "holds sp rs" and "\<And>k. w \<noteq> WriteTorn k" and "wal_append c w sp r = (sp', ok)"
  shows "\<exists>rs'. holds sp' rs' \<and> set (wal_shares c rs) \<subseteq> set (wal_shares c rs')
    \<and> set (wal_shares c rs') \<subseteq> insert r (set (wal_shares c rs)) \<and> (ok \<longrightarrow> r \<in> set (wal_shares c rs'))"
proof (cases "wc_marshal c r")
  case None
  then show ?thesis using assms(2,4) by (intro exI [of _ rs]) (auto simp: wal_append_def)
next
  case (Some payload)
  let ?x = "\<lparr>rc_subject = share_wal_subject, rc_payload = payload\<rparr>"
  obtain res where a: "spool_append w sp ?x = (sp', res)" and ok: "ok = (res = Inr ())"
    using assms(4) Some by (auto simp: wal_append_def split: prod.splits)
  have "plain_record ?x" by (simp add: plain_record_def share_wal_subject_def plain_char_def)
  from append_holds [OF assms(2) this assms(3) a]
  have "(holds sp' rs \<and> res \<noteq> Inr ()) \<or> holds sp' (rs @ [?x])" by blast
  moreover have "wal_shares c [?x] = [r]" using assms(1) Some by (simp add: codec_ok_def wal_shares_def map_filter_simps)
  ultimately show ?thesis using ok by (metis (no_types, lifting) Un_insert_right append_Nil2 dual_order.refl insertI1
    list.set(1) list.simps(15) set_append subset_insertI wal_shares_append)
qed

subsection \<open>No step loses a share uncounted\<close>

text \<open>The parts of the writer a diversion leaves alone.\<close>

lemma divert_same [simp]:
  "sw_queue (divert c w sw r) = sw_queue sw" "sw_batch (divert c w sw r) = sw_batch sw"
  "sw_pending (divert c w sw r) = sw_pending sw" "sw_opts (divert c w sw r) = sw_opts sw"
  by (simp_all add: divert_def Let_def split: option.split prod.split)

lemma divert_step:
  assumes "codec_ok c" and "wal_ok sw" and "\<And>k. w \<noteq> WriteTorn k"
  shows "wal_ok (divert c w sw r)" and "held c (divert c w sw r) \<subseteq> insert r (held c sw)"
    and "loses c (insert r F) (tbl, sw) F (tbl, divert c w sw r)"
proof -
  let ?sw = "divert c w sw r"
  have "wal_ok ?sw \<and> logged c sw \<subseteq> logged c ?sw \<and> logged c ?sw \<subseteq> insert r (logged c sw)
    \<and> sw_dropped sw \<le> sw_dropped ?sw \<and> (r \<in> logged c ?sw \<or> sw_dropped ?sw = sw_dropped sw + 1)"
  proof (cases "sw_wal sw")
    case None
    then show ?thesis by (simp add: divert_def wal_ok_def logged_def)
  next
    case (Some sp)
    obtain rs where rs: "holds sp rs" using assms(2) Some by (auto simp: wal_ok_def)
    obtain sp' ok where a: "wal_append c w sp r = (sp', ok)" by (cases "wal_append c w sp r")
    obtain rs' where rs': "holds sp' rs'" "set (wal_shares c rs) \<subseteq> set (wal_shares c rs')"
      "set (wal_shares c rs') \<subseteq> insert r (set (wal_shares c rs))" "ok \<Longrightarrow> r \<in> set (wal_shares c rs')"
      using wal_append_holds [OF assms(1) rs assms(3) a] by blast
    have sw: "sw_wal ?sw = Some sp'" "sw_dropped ?sw = sw_dropped sw + (if ok then 0 else 1)"
      using Some a by (simp_all add: divert_def Let_def)
    have l: "logged c sw = set (wal_shares c rs)" "logged c ?sw = set (wal_shares c rs')"
      using logged_holds [OF Some rs] logged_holds [OF sw(1) rs'(1)] by simp_all
    show ?thesis unfolding l using rs' sw by (auto simp: wal_ok_def)
  qed
  note D = this [THEN conjunct1] this [THEN conjunct2]
  show "wal_ok ?sw" by (rule D(1))
  show "held c ?sw \<subseteq> insert r (held c sw)" using D(2) by (auto simp: held_def)
  have keep: "safe c (tbl, sw) x \<Longrightarrow> safe c (tbl, ?sw) x" for x using D(2) by (auto simp: safe_def held_def)
  show "loses c (insert r F) (tbl, sw) F (tbl, ?sw)"
  proof (cases "r \<in> logged c ?sw")
    case True
    then have "safe c (tbl, ?sw) r" by (simp add: safe_def held_def)
    then show ?thesis using keep D(2) by (intro loses_none) auto
  next
    case False
    then have "card {r} + sw_dropped sw \<le> sw_dropped ?sw" using D(2) by simp
    then show ?thesis unfolding loses_def using keep by (intro exI [of _ "{r}"]) auto
  qed
qed

lemma divert_all_step:
  assumes "codec_ok c" and "wal_ok sw" and "\<And>i k. ws i \<noteq> WriteTorn k"
  shows "wal_ok (divert_all c ws sw rs) \<and> held c (divert_all c ws sw rs) \<subseteq> set rs \<union> held c sw
    \<and> loses c (set rs \<union> F) (tbl, sw) F (tbl, divert_all c ws sw rs)"
  using assms(2,3)
proof (induction rs arbitrary: ws sw)
  case Nil
  then show ?case by (auto intro: loses_none)
next
  case (Cons r rs)
  let ?sw = "divert c (ws 0) sw r" and ?ws = "\<lambda>i. ws (Suc i)"
  note d = divert_step [OF assms(1) Cons.prems(1), of "ws 0" r, OF Cons.prems(2)]
  have rest: "wal_ok (divert_all c ?ws ?sw rs)" "held c (divert_all c ?ws ?sw rs) \<subseteq> set rs \<union> held c ?sw"
    "loses c (set rs \<union> F) (tbl, ?sw) F (tbl, divert_all c ?ws ?sw rs)"
    using Cons.IH [OF d(1), of ?ws] Cons.prems(2) by blast+
  have "loses c (set (r # rs) \<union> F) (tbl, sw) F (tbl, divert_all c ?ws ?sw rs)"
    using loses_trans [OF d(3) [of "set rs \<union> F" tbl] rest(3)] by simp
  with rest d(2) show ?case by auto
qed

lemma divert_all_same [simp]:
  "sw_queue (divert_all c ws sw rs) = sw_queue sw" "sw_batch (divert_all c ws sw rs) = sw_batch sw"
  "sw_pending (divert_all c ws sw rs) = sw_pending sw" "sw_opts (divert_all c ws sw rs) = sw_opts sw"
  by (induction rs arbitrary: ws sw) simp_all

lemma retain_step:
  assumes "codec_ok c" and "wal_ok sw" and "\<And>i k. ws i \<noteq> WriteTorn k"
  shows "wal_ok (retain c ws sw recs) \<and> held c (retain c ws sw recs) \<subseteq> set recs \<union> held c sw
    \<and> loses c (set recs) (tbl, sw) {} (tbl, retain c ws sw recs)"
proof -
  obtain over kept where split: "sw_pending sw @ recs = over @ kept"
    and r: "retain c ws sw recs = divert_all c ws (sw\<lparr>sw_pending := kept\<rparr>) over"
    unfolding retain_def Let_def by (metis append_take_drop_id)
  let ?sw = "sw\<lparr>sw_pending := kept\<rparr>"
  have sets: "set (sw_pending sw) \<union> set recs = set over \<union> set kept" using arg_cong [OF split, of set] by simp
  have lg: "logged c ?sw = logged c sw" by (simp add: logged_def)
  have "wal_ok ?sw" using assms(2) by (simp add: wal_ok_def)
  note d = divert_all_step [OF assms(1) this, of ws over "{}" tbl, OF assms(3)]
  have held: "held c ?sw \<subseteq> set recs \<union> held c sw" "held c sw \<union> set recs \<subseteq> set over \<union> held c ?sw" "set over \<subseteq> set recs \<union> held c sw"
    unfolding held_def lg using sets by auto
  have start: "loses c (set recs) (tbl, sw) (set over \<union> {}) (tbl, ?sw)"
    by (rule loses_none) (use held(2) in \<open>auto simp: safe_def\<close>)
  have "loses c (set recs) (tbl, sw) {} (tbl, divert_all c ws ?sw over)" by (rule loses_trans [OF start d [THEN conjunct2, THEN conjunct2]])
  moreover have "wal_ok (divert_all c ws ?sw over)" "held c (divert_all c ws ?sw over) \<subseteq> set over \<union> held c ?sw"
    using d by simp_all
  ultimately show ?thesis using held(1,3) unfolding r by blast
qed

text \<open>What each operation of the writer guarantees; \<open>N\<close> are the shares it was handed.\<close>

definition step_ok ::
  "wal_codec \<Rightarrow> share_record set \<Rightarrow> share_record list \<times> share_writer \<Rightarrow> share_record list \<times> share_writer \<Rightarrow> bool" where
  "step_ok c N w w' \<longleftrightarrow>
     wal_ok (snd w') \<and> loses c N w {} w'
     \<and> held c (snd w') \<union> set (fst w') \<subseteq> N \<union> held c (snd w) \<union> set (fst w)
     \<and> (keyed (fst w) \<and> (\<forall>r \<in> held c (snd w). hr_id r \<noteq> []) \<longrightarrow> keyed (fst w'))"

lemma step_ok_idle: "wal_ok sw \<Longrightarrow> step_ok c {} (tbl, sw) (tbl, sw)"
  by (auto simp: step_ok_def intro: loses_none)

lemma enqueue_step:
  assumes "codec_ok c" and "wal_ok sw" and "\<And>k. w \<noteq> WriteTorn k"
  shows "step_ok c {with_id i r} (tbl, sw) (tbl, enqueue c i w sw r)"
proof (cases "int (length (sw_queue sw)) < wo_queue_size (sw_opts sw)")
  case True
  let ?sw = "sw\<lparr>sw_queue := sw_queue sw @ [with_id i r]\<rparr>"
  have h: "held c ?sw = insert (with_id i r) (held c sw)" by (auto simp: held_def logged_def)
  have "loses c {with_id i r} (tbl, sw) {} (tbl, ?sw)" by (rule loses_none) (auto simp: safe_def h)
  moreover have "wal_ok ?sw" using assms(2) by (simp add: wal_ok_def)
  ultimately show ?thesis using True by (simp add: enqueue_def step_ok_def h Let_def)
next
  case False
  note d = divert_step [OF assms, of "with_id i r"]
  show ?thesis using False d(1,2) d(3) [of "{}" tbl] by (simp add: enqueue_def step_ok_def Let_def) blast
qed

lemma flush_step:
  assumes "codec_ok c" and "wal_ok sw" and "\<And>i k. ws i \<noteq> WriteTorn k"
  shows "step_ok c {} (tbl, sw) (flush c out ws tbl sw)"
proof (cases "sw_batch sw = [] \<and> sw_pending sw = []")
  case True
  then show ?thesis using step_ok_idle [OF assms(2)] by (simp add: flush_def)
next
  case False
  let ?recs = "sw_pending sw @ sw_batch sw" and ?sw1 = "sw\<lparr>sw_pending := [], sw_batch := []\<rparr>"
  obtain tbl' ok where ins: "(if sw_pending sw \<noteq> [] then copy_shares_idempotent out tbl ?recs else copy_shares out tbl ?recs) = (tbl', ok)"
    by (cases "if sw_pending sw \<noteq> [] then copy_shares_idempotent out tbl ?recs else copy_shares out tbl ?recs")
  have "inserts tbl ?recs (tbl', ok)"
    unfolding ins [symmetric] by (simp add: copy_shares_inserts copy_shares_idempotent_inserts)
  then have I: "set tbl \<subseteq> set tbl'" "set tbl' \<subseteq> set tbl \<union> set ?recs" "ok \<Longrightarrow> \<forall>r \<in> set ?recs. stored tbl' r"
    "keyed tbl \<and> (\<forall>r \<in> set ?recs. hr_id r \<noteq> []) \<Longrightarrow> keyed tbl'" unfolding inserts_def fst_conv snd_conv by blast+
  have f: "flush c out ws tbl sw = (tbl', if ok then ?sw1\<lparr>sw_written := sw_written sw + length ?recs\<rparr> else retain c ws ?sw1 ?recs)"
    unfolding flush_def Let_def ins if_not_P [OF False] by simp
  have h: "held c sw = held c ?sw1 \<union> set ?recs" by (auto simp: held_def logged_def)
  have ids: "\<forall>r \<in> set ?recs. hr_id r \<noteq> []" if "\<forall>r \<in> held c sw. hr_id r \<noteq> []" using that h by blast
  have st: "stored tbl x \<Longrightarrow> stored tbl' x" for x using stored_mono [OF I(1)] .
  have ok1: "wal_ok ?sw1" using assms(2) by (simp add: wal_ok_def)
  show ?thesis
  proof (cases ok)
    case True
    let ?sw2 = "?sw1\<lparr>sw_written := sw_written sw + length ?recs\<rparr>"
    have h2: "held c (?sw1\<lparr>sw_written := n\<rparr>) = held c ?sw1" for n by (simp add: held_def logged_def)
    have "safe c (tbl', ?sw2) x" if "safe c (tbl, sw) x" for x
      using that I(3) [OF True] st unfolding safe_def fst_conv snd_conv h2 h by blast
    then have "loses c {} (tbl, sw) {} (tbl', ?sw2)" by (intro loses_none) simp_all
    moreover have "held c ?sw2 \<union> set tbl' \<subseteq> held c sw \<union> set tbl" using I(2) unfolding h h2 by blast
    moreover have "wal_ok ?sw2" using ok1 by (simp add: wal_ok_def)
    ultimately show ?thesis unfolding f if_P [OF True] step_ok_def fst_conv snd_conv using I(4) ids by blast
  next
    case False
    note rt = retain_step [OF assms(1) ok1, of ws ?recs tbl', OF assms(3)]
    have "safe c (tbl', ?sw1) x \<or> x \<in> set ?recs" if "safe c (tbl, sw) x" for x
      using that st unfolding safe_def fst_conv snd_conv h by blast
    then have "loses c {} (tbl, sw) (set ?recs) (tbl', ?sw1)" by (intro loses_none) simp_all
    then have l: "loses c {} (tbl, sw) {} (tbl', retain c ws ?sw1 ?recs)"
      by (rule loses_trans) (rule rt [THEN conjunct2, THEN conjunct2])
    have "held c (retain c ws ?sw1 ?recs) \<union> set tbl' \<subseteq> held c sw \<union> set tbl"
      using rt [THEN conjunct2, THEN conjunct1] I(2) unfolding h by blast
    then show ?thesis unfolding f if_not_P [OF False] step_ok_def fst_conv snd_conv using rt [THEN conjunct1] l I(4) ids by blast
  qed
qed

lemma receive_step:
  assumes "codec_ok c" and "wal_ok sw" and "\<And>i k. ws i \<noteq> WriteTorn k"
  shows "step_ok c {} (tbl, sw) (receive_share c out ws tbl sw)"
proof (cases "sw_queue sw")
  case Nil
  then show ?thesis using step_ok_idle [OF assms(2)] by (simp add: receive_share_def)
next
  case (Cons r q)
  let ?sw1 = "sw\<lparr>sw_queue := q, sw_batch := sw_batch sw @ [r]\<rparr>"
  have h: "held c ?sw1 = held c sw" using Cons by (auto simp: held_def logged_def)
  have ok1: "wal_ok ?sw1" using assms(2) by (simp add: wal_ok_def)
  have eq: "step_ok c {} (tbl, ?sw1) w \<Longrightarrow> step_ok c {} (tbl, sw) w" for w
    by (simp add: step_ok_def loses_def safe_def h)
  show ?thesis
    using eq [OF flush_step [OF assms(1) ok1 assms(3), of tbl out]] eq [OF step_ok_idle [OF ok1, of c tbl]] Cons
    by (simp add: receive_share_def Let_def)
qed

text \<open>A drain hands a prefix of the log to the table.\<close>

lemma wal_insert_step:
  assumes "wal_insert c st b = (st1, ok1)"
  shows "inserts (fst st) (wal_shares c b) (fst st1, ok1)"
proof (cases "wal_shares c b = [] \<or> snd st = []")
  case True
  then show ?thesis using assms by (auto simp: wal_insert_def inserts_def Let_def split: if_splits list.splits)
next
  case False
  then obtain out outs where "snd st = out # outs" by (cases "snd st") auto
  then have "(fst st1, ok1) = copy_shares_idempotent out (fst st) (wal_shares c b)"
    using assms False by (auto simp: wal_insert_def Let_def split: prod.splits)
  then show ?thesis using copy_shares_idempotent_inserts by simp
qed

lemma recover_step:
  assumes "codec_ok c" and "wal_ok sw"
  shows "step_ok c {} (tbl, sw) (recover c d outs tbl sw)"
proof (cases "sw_wal sw")
  case None
  then show ?thesis using step_ok_idle [OF assms(2)] by (simp add: recover_def)
next
  case (Some sp)
  show ?thesis
  proof (cases "sp_size sp = 0")
    case True
    then show ?thesis using step_ok_idle [OF assms(2)] Some by (simp add: recover_def)
  next
    case False
    obtain rs where rs: "holds sp rs" using assms(2) Some by (auto simp: wal_ok_def)
    obtain st sp' res where dr: "spool_drain_batch d wal_drain_batch_size (wal_insert c) (tbl, outs) sp = (st, sp', res)"
      by (cases "spool_drain_batch d wal_drain_batch_size (wal_insert c) (tbl, outs) sp")
    define P where "P = (\<lambda>(st :: share_record list \<times> db_result list) q.
       set tbl \<subseteq> set (fst st) \<and> set (fst st) \<subseteq> set tbl \<union> set (wal_shares c rs)
       \<and> (\<forall>r \<in> set (wal_shares c q). stored (fst st) r)
       \<and> (keyed tbl \<and> (\<forall>r \<in> set (wal_shares c rs). hr_id r \<noteq> []) \<longrightarrow> keyed (fst st)))"
    have P0: "P (tbl, outs) []" by (auto simp: P_def wal_shares_def map_filter_simps)
    have sub: "set (wal_shares c b) \<subseteq> set (wal_shares c q)" if "set b \<subseteq> set q" for b q
      using that by (auto simp: wal_shares_def map_filter_def)
    have step: "P st1 (if ok1 then q @ b else q)"
      if "wal_insert c st b = (st1, ok1)" "set b \<subseteq> set rs" "P st q" for st b st1 q ok1
    proof -
      note ins = wal_insert_step [OF that(1), unfolded inserts_def fst_conv snd_conv] and b = sub [OF that(2)]
      have st: "stored (fst st) x \<Longrightarrow> stored (fst st1) x" for x using stored_mono ins by blast
      show ?thesis using ins b that(3) st unfolding P_def by auto
    qed
    obtain p rest where pr: "rs = p @ rest" "P st p" "holds sp' rest \<or> holds sp' rs"
      using drain_batch_holds [OF rs dr, of P] P0 step by blast
    let ?sw = "sw\<lparr>sw_wal := Some sp'\<rparr>"
    have r: "recover c d outs tbl sw = (fst st, ?sw)" using Some False dr by (simp add: recover_def wal_drain_def)
    have split: "set (wal_shares c rs) = set (wal_shares c p) \<union> set (wal_shares c rest)" by (simp add: pr(1))
    obtain L where L: "holds sp' L" "L = rest \<or> L = rs" using pr(3) by blast
    have lg: "logged c sw = set (wal_shares c rs)" "logged c ?sw = set (wal_shares c L)"
      using logged_holds [OF Some rs] logged_holds [OF _ L(1), of ?sw] by simp_all
    have Lsub: "set (wal_shares c L) \<subseteq> set (wal_shares c rs)" "set (wal_shares c rs) \<subseteq> set (wal_shares c p) \<union> set (wal_shares c L)"
      using L(2) split by auto
    note PD = pr(2) [unfolded P_def prod.case]
    have st: "stored tbl x \<Longrightarrow> stored (fst st) x" for x using stored_mono PD by blast
    have keep: "safe c (tbl, sw) x \<Longrightarrow> safe c (fst st, ?sw) x" for x
      using PD st Lsub lg unfolding safe_def held_def by auto
    have "loses c {} (tbl, sw) {} (fst st, ?sw)" by (rule loses_none) (use keep in auto)
    moreover have "wal_ok ?sw" using L(1) by (auto simp: wal_ok_def)
    moreover have "held c ?sw \<union> set (fst st) \<subseteq> held c sw \<union> set tbl"
      using PD Lsub lg unfolding held_def by auto
    moreover have "keyed tbl \<and> (\<forall>r \<in> held c sw. hr_id r \<noteq> []) \<longrightarrow> keyed (fst st)"
      using PD lg(1) unfolding held_def by auto
    ultimately show ?thesis by (simp add: r step_ok_def)
  qed
qed

subsection \<open>Runs of the writer\<close>

datatype writer_event =
    SwEnqueue string write_result share_record
  | SwReceive db_result "nat \<Rightarrow> write_result"
  | SwTick db_result "nat \<Rightarrow> write_result"
  | SwRecover disk_result "db_result list"

type_synonym writer_world = "(share_record list \<times> share_writer) \<times> share_record list"

text \<open>The table, the writer and the shares handed to it so far.\<close>

fun writer_step :: "wal_codec \<Rightarrow> writer_world \<Rightarrow> writer_event \<Rightarrow> writer_world" where
  "writer_step c ((tbl, sw), acc) (SwEnqueue i w r) = ((tbl, enqueue c i w sw r), acc @ [with_id i r])"
| "writer_step c ((tbl, sw), acc) (SwReceive out ws) = (receive_share c out ws tbl sw, acc)"
| "writer_step c ((tbl, sw), acc) (SwTick out ws) = (flush c out ws tbl sw, acc)"
| "writer_step c ((tbl, sw), acc) (SwRecover d outs) = (recover c d outs tbl sw, acc)"

fun clean_event :: "writer_event \<Rightarrow> bool" where
  "clean_event (SwEnqueue i w r) = (i \<noteq> [] \<and> (\<forall>k. w \<noteq> WriteTorn k))"
| "clean_event (SwReceive out ws) = (\<forall>i k. ws i \<noteq> WriteTorn k)"
| "clean_event (SwTick out ws) = (\<forall>i k. ws i \<noteq> WriteTorn k)"
| "clean_event (SwRecover d outs) = True"

definition world_inv :: "wal_codec \<Rightarrow> share_record set \<Rightarrow> share_record list \<Rightarrow> writer_world \<Rightarrow> bool" where
  "world_inv c B tbl0 x \<longleftrightarrow> (case x of (w, acc) \<Rightarrow>
     wal_ok (snd w) \<and> card {r \<in> B \<union> set acc. \<not> safe c w r} \<le> sw_dropped (snd w)
     \<and> held c (snd w) \<union> set (fst w) \<subseteq> set tbl0 \<union> B \<union> set acc
     \<and> (\<forall>r \<in> set tbl0 \<union> B \<union> set acc. hr_id r \<noteq> []) \<and> keyed (fst w))"

lemma world_inv_step:
  assumes "world_inv c B tbl0 (w, acc)" and "finite B" and "step_ok c (set new) w w'" and "\<forall>r \<in> set new. hr_id r \<noteq> []"
  shows "world_inv c B tbl0 (w', acc @ new)"
proof -
  let ?U = "{r \<in> B \<union> set acc. \<not> safe c w r}" and ?U' = "{r \<in> B \<union> set (acc @ new). \<not> safe c w' r}"
  have i: "card ?U \<le> sw_dropped (snd w)" "held c (snd w) \<union> set (fst w) \<subseteq> set tbl0 \<union> B \<union> set acc"
    "\<forall>r \<in> set tbl0 \<union> B \<union> set acc. hr_id r \<noteq> []" "keyed (fst w)" using assms(1) by (simp_all add: world_inv_def)
  have s: "wal_ok (snd w')" "loses c (set new) w {} w'"
    "held c (snd w') \<union> set (fst w') \<subseteq> set new \<union> held c (snd w) \<union> set (fst w)"
    "keyed (fst w) \<and> (\<forall>r \<in> held c (snd w). hr_id r \<noteq> []) \<longrightarrow> keyed (fst w')"
    using assms(3) unfolding step_ok_def by blast+
  obtain X where X: "finite X" "card X + sw_dropped (snd w) \<le> sw_dropped (snd w')"
    "\<And>r. safe c w r \<or> r \<in> set new \<Longrightarrow> safe c w' r \<or> r \<in> X" using s(2) unfolding loses_def by blast
  have "?U' \<subseteq> ?U \<union> X" using X(3) by auto
  moreover have "finite ?U" using assms(2) by simp
  ultimately have "card ?U' \<le> card ?U + card X"
    using X(1) card_mono [of "?U \<union> X" ?U'] card_Un_le [of ?U X] by (meson finite_UnI le_trans)
  then have "card ?U' \<le> sw_dropped (snd w')" using i(1) X(2) by linarith
  moreover have "keyed (fst w')" using s(4) i(2-4) by blast
  moreover have "held c (snd w') \<union> set (fst w') \<subseteq> set tbl0 \<union> B \<union> set (acc @ new)" using s(3) i(2) by auto
  moreover have "\<forall>r \<in> set tbl0 \<union> B \<union> set (acc @ new). hr_id r \<noteq> []" using i(3) assms(4) by auto
  ultimately show ?thesis using s(1) unfolding world_inv_def prod.case by blast
qed

lemma writer_step_inv:
  assumes "codec_ok c" and "world_inv c B tbl0 x" and "finite B" and "clean_event e"
  shows "world_inv c B tbl0 (writer_step c x e)"
proof -
  obtain tbl sw acc where x: "x = ((tbl, sw), acc)" by (cases x) auto
  have ok: "wal_ok sw" using assms(2) by (simp add: world_inv_def x)
  have idle: "world_inv c B tbl0 (w', acc)" if "step_ok c {} (tbl, sw) w'" for w'
    using world_inv_step [OF assms(2) [unfolded x] assms(3), of "[]" w'] that by simp
  show ?thesis
  proof (cases e)
    case (SwEnqueue i w r)
    then have w: "\<And>k. w \<noteq> WriteTorn k" "i \<noteq> []" using assms(4) by simp_all
    have "step_ok c (set [with_id i r]) (tbl, sw) (tbl, enqueue c i w sw r)" using enqueue_step [OF assms(1) ok w(1)] by simp
    moreover have "\<forall>y \<in> set [with_id i r]. hr_id y \<noteq> []" using w(2) by (simp add: with_id_def)
    ultimately show ?thesis
      unfolding SwEnqueue x writer_step.simps by (rule world_inv_step [OF assms(2) [unfolded x] assms(3)])
  next
    case (SwReceive out ws)
    then have w: "\<And>i k. ws i \<noteq> WriteTorn k" using assms(4) by simp
    show ?thesis unfolding SwReceive x writer_step.simps by (rule idle, rule receive_step [OF assms(1) ok w])
  next
    case (SwTick out ws)
    then have w: "\<And>i k. ws i \<noteq> WriteTorn k" using assms(4) by simp
    show ?thesis unfolding SwTick x writer_step.simps by (rule idle, rule flush_step [OF assms(1) ok w])
  next
    case (SwRecover d outs)
    show ?thesis unfolding SwRecover x writer_step.simps by (rule idle, rule recover_step [OF assms(1) ok])
  qed
qed

lemma writer_run_inv:
  "codec_ok c \<Longrightarrow> finite B \<Longrightarrow> world_inv c B tbl0 x \<Longrightarrow> list_all clean_event evs \<Longrightarrow>
     world_inv c B tbl0 (foldl (writer_step c) x evs)"
proof (induction evs arbitrary: x)
  case (Cons e evs)
  have "world_inv c B tbl0 (writer_step c x e)" by (rule writer_step_inv) (use Cons.prems in auto)
  with Cons show ?case by simp
qed simp

text \<open>
  C7: an accepted share is stored exactly once, unless the writer says otherwise. From a new writer with
  or without a log (which may hold shares of an earlier run), over any table, after any enqueues,
  receives, timer flushes and recovery drains, with any database outcome for every statement
  (including a commit reported as an error) and any disk failure short of a torn write: no two rows of
  the table share an id and time; every row was there before or is a share the writer was given; and
  of the shares it was given no more than its drop counter are neither in the table nor held in the
  queue, the batch, the retained list or the log. In particular, while the counter is zero, none is lost.
\<close>

theorem no_share_lost:
  assumes "codec_ok c" and "keyed tbl0" and "list_all plain_record prev"
    and "\<forall>r \<in> set (wal_shares c prev). hr_id r \<noteq> []" and "list_all clean_event evs"
    and "wal_file = None \<and> prev = [] \<or> wal_file = Some (serialize marshal_record prev)"
    and "foldl (writer_step c) ((tbl0, new_share_writer opts wal_file), []) evs = ((tbl, sw), acc)"
  shows "card {r \<in> set (wal_shares c prev) \<union> set acc. \<not> (r \<in> held c sw \<or> stored tbl r)} \<le> sw_dropped sw
    \<and> keyed tbl \<and> set tbl \<subseteq> set tbl0 \<union> set (wal_shares c prev) \<union> set acc"
proof -
  let ?B = "set (wal_shares c prev)" and ?sw0 = "new_share_writer opts wal_file"
  have h: "holds (open_spool (serialize marshal_record prev) m) prev" for m
    using assms(3) by (auto simp: holds_def open_spool_def serialize_def)
  have lg: "logged c ?sw0 = ?B" and ok: "wal_ok ?sw0"
  proof -
    have none: "logged c ?sw0 = {} \<and> wal_ok ?sw0" if "wal_file = None"
      using that by (simp add: new_share_writer_def logged_def wal_ok_def Let_def)
    have some: "logged c ?sw0 = ?B \<and> wal_ok ?sw0" if f: "wal_file = Some (serialize marshal_record prev)"
    proof -
      let ?sp = "open_spool (serialize marshal_record prev) (wo_wal_max_bytes (writer_defaults opts))"
      have w: "sw_wal ?sw0 = Some ?sp" using f by (simp add: new_share_writer_def Let_def)
      then show ?thesis using logged_holds [OF w h] h unfolding wal_ok_def by auto
    qed
    show "logged c ?sw0 = ?B" "wal_ok ?sw0"
      using assms(6) none some by (auto simp: wal_shares_def map_filter_simps)
  qed
  have held: "held c ?sw0 = ?B" using lg by (simp add: held_def new_share_writer_def Let_def)
  have none: "{r \<in> ?B \<union> set []. \<not> safe c (tbl0, ?sw0) r} = {}" by (auto simp: safe_def held)
  have "world_inv c ?B tbl0 ((tbl0, ?sw0), [])"
    unfolding world_inv_def prod.case fst_conv snd_conv held none using ok assms(2,4) by (auto simp: keyed_def)
  from writer_run_inv [OF assms(1) _ this assms(5)] assms(7)
  show ?thesis by (simp add: world_inv_def safe_def)
qed

text \<open>A codec for one share.\<close>

definition sample_share :: "string \<Rightarrow> share_record" where
  "sample_share i = \<lparr>hr_id = i, hr_pool = ''btc'', hr_height = 1, hr_difficulty = 64, hr_network_difficulty = 1000,
     hr_miner = ''a'', hr_worker = ''a.rig'', hr_user_agent = [], hr_ip = ''ip'', hr_source = ''eu'', hr_created = 7\<rparr>"

definition sample_codec :: wal_codec where
  "sample_codec = \<lparr>wc_marshal = (\<lambda>r. if r = sample_share ''x'' then Some [1] else None),
     wc_unmarshal = (\<lambda>b. if b = [1] then Some (sample_share ''x'') else None)\<rparr>"

lemma sample_codec_ok: "codec_ok sample_codec"
  by (simp add: codec_ok_def sample_codec_def)

text \<open>A share whose COPY commits but reports an error is retained, and written again without effect.\<close>

definition sample_writer_events :: "writer_event list" where
  "sample_writer_events = [SwEnqueue ''x'' WriteOk (sample_share []), SwReceive DbOk (\<lambda>_. WriteOk),
     SwTick DbCommitsThenFails (\<lambda>_. WriteOk)]"

definition sample_options :: writer_options where
  "sample_options = \<lparr>wo_queue_size = 0, wo_batch_size = 0, wo_flush_interval = 0, wo_wal_max_bytes = 0, wo_wal_drain_interval = 0\<rparr>"

lemma sample_writer_run:
  "foldl (writer_step sample_codec) (([], new_share_writer sample_options None), []) sample_writer_events
   = (([sample_share ''x''], (new_share_writer sample_options None)\<lparr>sw_pending := [sample_share ''x'']\<rparr>), [sample_share ''x''])"
  by (simp add: sample_writer_events_def sample_options_def new_share_writer_def writer_defaults_def enqueue_def with_id_def
    sample_share_def receive_share_def flush_def copy_shares_def finish_insert_def retain_def max_retained_shares_def Let_def)

lemma sample_second_flush:
  "flush sample_codec DbOk (\<lambda>_. WriteOk) [sample_share ''x''] ((new_share_writer sample_options None)\<lparr>sw_pending := [sample_share ''x'']\<rparr>)
   = ([sample_share ''x''], (new_share_writer sample_options None)\<lparr>sw_written := 1\<rparr>)"
  by (simp add: flush_def new_share_writer_def copy_shares_idempotent_def finish_insert_def sample_share_def share_key_def Let_def)

theorem no_share_lost_witness:
  "\<exists>tbl sw. foldl (writer_step sample_codec) (([], new_share_writer sample_options None), [])
       (sample_writer_events @ [SwTick DbOk (\<lambda>_. WriteOk)]) = ((tbl, sw), [sample_share ''x''])
     \<and> tbl = [sample_share ''x''] \<and> keyed tbl \<and> sw_dropped sw = 0"
proof -
  let ?evs = "sample_writer_events @ [SwTick DbOk (\<lambda>_. WriteOk)]"
  have r: "foldl (writer_step sample_codec) (([], new_share_writer sample_options None), []) ?evs
      = (([sample_share ''x''], (new_share_writer sample_options None)\<lparr>sw_written := 1\<rparr>), [sample_share ''x''])"
    unfolding foldl_append sample_writer_run by (simp add: sample_second_flush)
  have "keyed [sample_share ''x'']"
    using no_share_lost [OF sample_codec_ok _ _ _ _ _ r, of "[]"]
    by (simp add: keyed_def wal_shares_def map_filter_simps sample_writer_events_def)
  then show ?thesis using r by (simp add: new_share_writer_def Let_def)
qed

subsection \<open>Shutting down\<close>

lemma indexed_clash: "indexed_ok keys rs \<Longrightarrow> r \<in> set rs \<Longrightarrow> hr_id r \<noteq> [] \<Longrightarrow> share_key r \<notin> set keys"
proof (induction rs arbitrary: keys)
  case (Cons x rs)
  then show ?case using Cons.IH [of "share_key x # keys"] Cons.IH [of keys] by (auto split: if_splits)
qed simp

text \<open>
  Shutting down can lose accepted shares without a trace. The last flush is a plain COPY whose
  failure is only logged: when it fails, or when one retained share is already in the table because
  its COPY committed and then reported an error (so that even a healthy database rejects the whole
  statement), every share that is in the queue, the batch or the retained list and not in the table or
  the log is gone after \<open>Close\<close>: it is not stored, not held, not in the log even where there is one, and
  the drop counter has not moved.
\<close>

theorem shutdown_loses:
  assumes "out = DbFails \<or> (\<exists>r \<in> set (sw_pending sw). hr_id r \<noteq> [] \<and> stored tbl r)"
    and "s \<in> set (sw_pending sw @ sw_batch sw @ sw_queue sw)" and "\<not> stored tbl s"
    and "\<not> stored (wal_shares c rs) s" and "codec_ok c"
    and "sw_wal sw = None \<or> (\<exists>sp. sw_wal sw = Some sp \<and> holds sp rs)"
    and "close_writer c out d outs tbl sw = (tbl', sw')"
  shows "\<not> stored tbl' s \<and> s \<notin> held c sw' \<and> sw_dropped sw' = sw_dropped sw"
proof -
  let ?recs = "sw_pending sw @ sw_batch sw @ sw_queue sw" and ?sw1 = "sw\<lparr>sw_pending := [], sw_batch := [], sw_queue := []\<rparr>"
  have ne: "?recs \<noteq> []" using assms(2) by (metis empty_iff empty_set)
  have "copy_shares out tbl ?recs = (tbl, False)"
  proof (cases "indexed_ok (map share_key tbl) ?recs")
    case True
    have "out = DbFails" using assms(1) indexed_clash [OF True] by (auto simp: stored_def)
    then show ?thesis using True ne unfolding copy_shares_def by (simp add: finish_insert_def)
  next
    case False
    then show ?thesis using ne unfolding copy_shares_def by simp
  qed
  then have ff: "final_flush out tbl sw = (tbl, ?sw1)" using ne unfolding final_flush_def Let_def by simp
  have rec: "recover c d outs tbl ?sw1 = (tbl', sw')" using assms(7) by (simp add: close_writer_def ff)
  have h: "held c ?sw1 = logged c sw" by (simp add: held_def logged_def)
  have lg: "logged c sw \<subseteq> set (wal_shares c rs)"
    using assms(6) logged_holds [of sw _ rs c] by (auto simp: logged_def)
  have ok: "wal_ok ?sw1" using assms(6) by (auto simp: wal_ok_def)
  have "held c sw' \<union> set tbl' \<subseteq> logged c sw \<union> set tbl"
    using recover_step [OF assms(5) ok, of tbl d outs] unfolding rec step_ok_def fst_conv snd_conv h by blast
  moreover have "share_key s \<notin> share_key ` (logged c sw \<union> set tbl)" using assms(3,4) lg by (auto simp: stored_def)
  moreover have "sw_dropped sw' = sw_dropped sw"
    using rec by (auto simp: recover_def Let_def split: option.splits if_splits prod.splits)
  ultimately show ?thesis unfolding stored_def by blast
qed

theorem shutdown_loses_witness:
  "\<exists>tbl sw tbl' sw'. foldl (writer_step sample_codec) (([], new_share_writer sample_options None), [])
        (sample_writer_events @ [SwEnqueue ''y'' WriteOk (sample_share [])]) = ((tbl, sw), [sample_share ''x'', sample_share ''y''])
     \<and> close_writer sample_codec DbOk DiskOk [] tbl sw = (tbl', sw')
     \<and> \<not> stored tbl' (sample_share ''y'') \<and> sw_dropped sw' = 0"
proof -
  let ?sw = "(new_share_writer sample_options None)\<lparr>sw_pending := [sample_share ''x''], sw_queue := [sample_share ''y'']\<rparr>"
  have r: "foldl (writer_step sample_codec) (([], new_share_writer sample_options None), [])
        (sample_writer_events @ [SwEnqueue ''y'' WriteOk (sample_share [])]) = (([sample_share ''x''], ?sw), [sample_share ''x'', sample_share ''y''])"
    unfolding foldl_append sample_writer_run
    by (simp add: enqueue_def new_share_writer_def writer_defaults_def sample_options_def with_id_def sample_share_def Let_def)
  obtain tbl' sw' where c: "close_writer sample_codec DbOk DiskOk [] [sample_share ''x''] ?sw = (tbl', sw')"
    by (cases "close_writer sample_codec DbOk DiskOk [] [sample_share ''x''] ?sw")
  have "\<not> stored tbl' (sample_share ''y'') \<and> sw_dropped sw' = sw_dropped ?sw"
    using shutdown_loses [OF _ _ _ _ sample_codec_ok _ c, of "sample_share ''y''" "[]"]
    by (simp add: stored_def sample_share_def share_key_def new_share_writer_def wal_shares_def map_filter_simps Let_def)
  then show ?thesis using r c by (simp add: new_share_writer_def Let_def)
qed


subsection \<open>A share the database refuses\<close>

text \<open>A database that refuses every statement with a row in \<open>bad\<close> (a text with a zero byte, say, which
  a JSON string can carry and PostgreSQL does not store) and otherwise answers as it likes.\<close>

definition db_answer :: "(share_record \<Rightarrow> bool) \<Rightarrow> share_record list \<Rightarrow> db_result \<Rightarrow> db_result" where
  "db_answer bad recs out = (if list_ex bad recs then DbFails else out)"

fun refusing_step :: "(share_record \<Rightarrow> bool) \<Rightarrow> wal_codec \<Rightarrow> writer_world \<Rightarrow> writer_event \<Rightarrow> writer_world" where
  "refusing_step bad c ((tbl, sw), acc) (SwReceive out ws) =
     writer_step c ((tbl, sw), acc) (SwReceive (db_answer bad (sw_pending sw @ sw_batch sw @ take 1 (sw_queue sw)) out) ws)"
| "refusing_step bad c ((tbl, sw), acc) (SwTick out ws) =
     writer_step c ((tbl, sw), acc) (SwTick (db_answer bad (sw_pending sw @ sw_batch sw) out) ws)"
| "refusing_step bad c w e = writer_step c w e"

definition in_memory :: "share_writer \<Rightarrow> share_record list" where
  "in_memory sw = sw_pending sw @ sw_batch sw @ sw_queue sw"

text \<open>No share reaches the log in the next \<open>n\<close> events: there is none, or it is empty and the queue has room for them.\<close>

definition log_unused :: "nat \<Rightarrow> share_writer \<Rightarrow> bool" where
  "log_unused n sw \<longleftrightarrow>
     (case sw_wal sw of None \<Rightarrow> True
      | Some sp \<Rightarrow> sp_size sp = 0 \<and> int (length (sw_queue sw) + n) \<le> wo_queue_size (sw_opts sw))"

text \<open>The writer behind a retained share that is refused, with room for \<open>n\<close> more.\<close>

definition stalled :: "(share_record \<Rightarrow> bool) \<Rightarrow> nat \<Rightarrow> share_record list \<Rightarrow> nat \<Rightarrow> writer_world \<Rightarrow> bool" where
  "stalled bad n tbl k x \<longleftrightarrow> (case x of ((tbl', sw), acc) \<Rightarrow>
     tbl' = tbl \<and> sw_written sw = k \<and> log_unused n sw \<and> list_ex bad (sw_pending sw)
     \<and> int (length (in_memory sw) + n) \<le> max_retained_shares)"

lemma list_ex_append_left: "list_ex p xs \<Longrightarrow> list_ex p (xs @ ys)"
  by simp

lemma flush_refused:
  assumes "list_ex bad (sw_pending sw)" and "int (length (in_memory sw)) \<le> max_retained_shares"
  shows "flush c DbFails ws tbl sw = (tbl, sw\<lparr>sw_pending := sw_pending sw @ sw_batch sw, sw_batch := []\<rparr>)"
proof -
  have ne: "sw_pending sw \<noteq> []" using assms(1) by auto
  have "nat (int (length (sw_pending sw @ sw_batch sw)) - max_retained_shares) = 0"
    using assms(2) by (simp add: in_memory_def)
  then show ?thesis using ne
    by (simp add: flush_def copy_shares_idempotent_def finish_insert_def retain_def Let_def)
qed

lemma stalled_step:
  assumes "stalled bad (Suc n) tbl k x"
  shows "stalled bad n tbl k (refusing_step bad c x e)"
proof -
  obtain sw acc where x: "x = ((tbl, sw), acc)" and w: "sw_written sw = k" "log_unused (Suc n) sw" "list_ex bad (sw_pending sw)"
    "int (length (in_memory sw) + Suc n) \<le> max_retained_shares" using assms by (auto simp: stalled_def)
  have ans: "db_answer bad (sw_pending sw @ ys) out = DbFails" for ys out using w(3) by (simp add: db_answer_def)
  have lu: "log_unused n sw" using w(2) by (auto simp: log_unused_def split: option.splits)
  show ?thesis
  proof (cases e)
    case (SwEnqueue i wr r)
    then show ?thesis using w
      by (auto simp: x stalled_def enqueue_def divert_def in_memory_def log_unused_def Let_def split: option.splits)
  next
    case (SwReceive out ws)
    show ?thesis
    proof (cases "sw_queue sw")
      case Nil
      then show ?thesis using w lu by (simp add: x SwReceive receive_share_def stalled_def)
    next
      case (Cons r q)
      let ?sw = "sw\<lparr>sw_queue := q, sw_batch := sw_batch sw @ [r]\<rparr>"
      have "in_memory ?sw = in_memory sw" by (simp add: in_memory_def Cons)
      then have fl: "flush c DbFails ws tbl ?sw = (tbl, ?sw\<lparr>sw_pending := sw_pending ?sw @ sw_batch ?sw, sw_batch := []\<rparr>)"
        using flush_refused [of bad ?sw c ws tbl] w by simp
      have lq: "log_unused n (sw\<lparr>sw_queue := q, sw_pending := p, sw_batch := b\<rparr>)" "log_unused n ?sw" for p b
        using lu by (auto simp: log_unused_def Cons split: option.splits)
      show ?thesis using w fl ans lq by (simp add: x SwReceive receive_share_def Cons stalled_def in_memory_def Let_def)
    qed
  next
    case (SwTick out ws)
    have "log_unused n (sw\<lparr>sw_pending := p, sw_batch := b\<rparr>)" for p b using lu by (auto simp: log_unused_def split: option.splits)
    then show ?thesis using w flush_refused [of bad sw c ws tbl] ans SwTick by (simp add: x stalled_def in_memory_def)
  next
    case (SwRecover d outs)
    have "recover c d outs tbl sw = (tbl, sw)" using w(2) by (auto simp: log_unused_def recover_def split: option.splits)
    then show ?thesis using w lu SwRecover by (simp add: x stalled_def)
  qed
qed

lemma stalled_run: "stalled bad (length evs) tbl k x \<Longrightarrow> stalled bad 0 tbl k (foldl (refusing_step bad c) x evs)"
proof (induction evs arbitrary: x)
  case (Cons e evs)
  then show ?case using stalled_step [of bad "length evs" tbl k x c e] by simp
qed simp

text \<open>
  C19: one share the database refuses stops the shares behind it from being stored. Retained shares are put in
  front of every later batch, so once such a share has been retained no flush of any pool's shares succeeds on a database that
  is otherwise healthy: the table and the written counter stay as they are, whatever is enqueued, received and
  flushed, and closing the writer stores nothing either. This lasts for as long as the shares in memory and the events to come are at most the
  250000 shares the writer retains, and no share passes by the queue: there is no write-ahead log, or it is empty and the queue has room. Beyond the
  one bound the oldest retained shares are dropped or logged; beyond the other, shares that find the queue full are stored through the log.
\<close>

theorem refused_share_stalls:
  assumes "list_ex bad (sw_pending sw)" and "log_unused (length evs) sw"
    and "int (length (in_memory sw) + length evs) \<le> max_retained_shares"
    and "foldl (refusing_step bad c) ((tbl, sw), acc) evs = ((tbl', sw'), acc')"
  shows "tbl' = tbl \<and> sw_written sw' = sw_written sw \<and> list_ex bad (sw_pending sw')
    \<and> fst (close_writer c (db_answer bad (in_memory sw') out) d outs tbl' sw') = tbl"
proof -
  have "stalled bad (length evs) tbl (sw_written sw) ((tbl, sw), acc)" using assms(1-3) by (simp add: stalled_def)
  then have st: "stalled bad 0 tbl (sw_written sw) ((tbl', sw'), acc')" using stalled_run assms(4) by metis
  have "db_answer bad (in_memory sw') out = DbFails" using st by (simp add: stalled_def db_answer_def in_memory_def)
  moreover have "in_memory sw' \<noteq> []" using st by (auto simp: stalled_def in_memory_def)
  ultimately show ?thesis using st
    by (auto simp: stalled_def close_writer_def final_flush_def in_memory_def copy_shares_def finish_insert_def recover_def log_unused_def Let_def
      split: option.splits)
qed

text \<open>A share whose worker name is a zero byte, retained after its flush; the next share is never stored, though the writer has a log.\<close>

definition zero_byte :: "share_record \<Rightarrow> bool" where
  "zero_byte r = (CHR 0x00 \<in> set (hr_worker r))"

definition zero_share :: share_record where
  "zero_share = (sample_share ''z'')\<lparr>hr_worker := [CHR 0x00]\<rparr>"

theorem refused_share_stalls_witness:
  "\<exists>sw' acc'. foldl (refusing_step zero_byte sample_codec)
       (([], (new_share_writer (sample_options\<lparr>wo_queue_size := 8\<rparr>) (Some []))\<lparr>sw_pending := [zero_share]\<rparr>), [])
       [SwEnqueue ''i'' WriteOk (sample_share ''y''), SwReceive DbOk (\<lambda>_. WriteOk), SwTick DbOk (\<lambda>_. WriteOk)]
     = (([], sw'), acc') \<and> sw_written sw' = 0"
proof -
  let ?sw = "(new_share_writer (sample_options\<lparr>wo_queue_size := 8\<rparr>) (Some []))\<lparr>sw_pending := [zero_share]\<rparr>"
  let ?evs = "[SwEnqueue ''i'' WriteOk (sample_share ''y''), SwReceive DbOk (\<lambda>_. WriteOk), SwTick DbOk (\<lambda>_. WriteOk)]"
  obtain tbl' sw' acc' where r: "foldl (refusing_step zero_byte sample_codec) (([], ?sw), []) ?evs = ((tbl', sw'), acc')"
    by (metis prod.exhaust)
  have "list_ex zero_byte (sw_pending ?sw)" "log_unused (length ?evs) ?sw" "sw_written ?sw = 0"
    "int (length (in_memory ?sw) + length ?evs) \<le> max_retained_shares"
    by (simp_all add: zero_byte_def zero_share_def in_memory_def new_share_writer_def max_retained_shares_def log_unused_def
      open_spool_def writer_defaults_def Let_def)
  from refused_share_stalls [OF this(1,2,4) r] this(3) have "tbl' = [] \<and> sw_written sw' = 0" by simp
  then show ?thesis using r by simp
qed

end
