(* ===== verification/Payouts.thy ===== *)
theory Payouts
  imports Ledger
begin

text \<open>
  \<open>internal/payouts/payouts.go\<close>: the payout pass over the store and the wallet, the wallet over
  \<open>sendmany\<close>, and the rendering of amounts. The daemon's answers and the outcome of every
  transaction are arguments of the pass.
\<close>

subsection \<open>Amounts as decimal strings\<close>

text \<open>The recursion on negative amounts does not end at the least \<open>int64\<close>, whose negation is
  itself: there the function has no value.\<close>

partial_function (option) sats_to_amount_string :: "64 word \<Rightarrow> string option" where
  "sats_to_amount_string sats =
     (if sint sats < 0
      then Option.bind (sats_to_amount_string (- sats)) (\<lambda>s. Some (CHR ''-'' # s))
      else Some (dec_digits (sint sats div 100000000) @ [CHR ''.''] @ fixed_digits 8 (sint sats mod 100000000)))"

declare sats_to_amount_string.simps [code]

text \<open>The reading of such a string, exact: optional sign, whole coins, point, eight decimals.\<close>

definition parse_amount :: "string \<Rightarrow> int" where
  "parse_amount s0 =
     (let (neg, s) = (case s0 of c # cs \<Rightarrow> if c = CHR ''-'' then (True, cs) else (False, s0) | [] \<Rightarrow> (False, []));
          whole = takeWhile (\<lambda>c. c \<noteq> CHR ''.'') s;
          n = digits_value whole * 100000000 + digits_value (drop (length whole + 1) s)
      in if neg then - n else n)"

definition amount_text :: "int \<Rightarrow> string" where
  "amount_text n = dec_digits (n div 100000000) @ [CHR ''.''] @ fixed_digits 8 (n mod 100000000)"

lemma parse_amount_text:
  assumes "0 \<le> n"
  shows "parse_amount (amount_text n) = n" and "parse_amount (CHR ''-'' # amount_text n) = - n"
proof -
  define w where "w = dec_digits (n div 100000000)"
  define f where "f = fixed_digits 8 (n mod 100000000)"
  have q: "0 \<le> n div 100000000" using assms by (simp add: pos_imp_zdiv_nonneg_iff)
  have w: "w \<noteq> []" "\<forall>c \<in> set w. c \<noteq> CHR ''.'' \<and> c \<noteq> CHR ''-''" "digits_value w = n div 100000000"
    using dec_digits_chars [OF q] digits_value_dec [OF q] by (simp_all add: w_def)
  have f: "digits_value f = n mod 100000000" unfolding f_def by (rule digits_value_fixed) simp_all
  have t: "amount_text n = w @ CHR ''.'' # f" by (simp add: amount_text_def w_def f_def)
  have tw: "takeWhile (\<lambda>c. c \<noteq> CHR ''.'') (w @ CHR ''.'' # f) = w" using w(2) by (simp add: takeWhile_tail)
  have hd: "hd w \<noteq> CHR ''-''" using w by simp
  obtain c cs where c: "w = c # cs" using w(1) by (cases w) auto
  have n: "digits_value w * 100000000 + digits_value f = n" by (simp add: w(3) f)
  show "parse_amount (amount_text n) = n"
    unfolding parse_amount_def t using hd tw n by (simp add: c Let_def)
  show "parse_amount (CHR ''-'' # amount_text n) = - n"
    unfolding parse_amount_def t using tw n by (simp add: Let_def)
qed

lemma amount_string_nonneg: "0 \<le> sint v \<Longrightarrow> sats_to_amount_string v = Some (amount_text (sint v))"
  by (subst sats_to_amount_string.simps) (simp add: amount_text_def)

lemma sint_uminus: "sint v \<noteq> - (2 ^ 63) \<Longrightarrow> sint (- v) = - sint v" for v :: "64 word"
proof -
  assume ne: "sint v \<noteq> - (2 ^ 63)"
  have b: "- (2 ^ 63) \<le> sint v" "sint v < 2 ^ 63" using sint_range_size [of v] by (simp_all add: word_size)
  have "sint (- v) = signed_take_bit 63 (- sint v)"
    by (simp add: sint_word_minus)
  also have "\<dots> = - sint v" using b ne by (intro signed_take_bit_int_eq_self) simp_all
  finally show ?thesis .
qed

text \<open>
  Amounts are rendered exactly. For every \<open>int64\<close> but the least one the string given to the
  wallet reads back as the amount; at the least \<open>int64\<close> the rendering does not return.
\<close>

theorem amount_string_exact:
  "(sint v \<noteq> - (2 ^ 63) \<longrightarrow> (\<exists>s. sats_to_amount_string v = Some s \<and> parse_amount s = sint v))
   \<and> (sint v = - (2 ^ 63) \<longrightarrow> sats_to_amount_string v = None)"
proof (intro conjI impI)
  assume ne: "sint v \<noteq> - (2 ^ 63)"
  show "\<exists>s. sats_to_amount_string v = Some s \<and> parse_amount s = sint v"
  proof (cases "sint v < 0")
    case True
    then have n: "0 \<le> sint (- v)" "sint (- v) = - sint v" using sint_uminus [OF ne] by simp_all
    have "sats_to_amount_string v = Some (CHR ''-'' # amount_text (- sint v))"
      using True amount_string_nonneg [OF n(1)] by (subst sats_to_amount_string.simps) (simp add: n(2))
    then show ?thesis using parse_amount_text(2) [of "- sint v"] True by simp
  next
    case False
    then show ?thesis using amount_string_nonneg [of v] parse_amount_text(1) [of "sint v"] by simp
  qed
next
  assume m: "sint v = - (2 ^ 63)"
  have "word_of_int (sint v) = v" by simp
  then have "v = word_of_int (- (2 ^ 63))" unfolding m by (rule sym)
  then have nv: "- v = v" by simp
  have neg: "sint v < 0" by (simp add: m)
  have r: "sats_to_amount_string v = Option.bind (sats_to_amount_string v) (\<lambda>s. Some (CHR ''-'' # s))"
    by (subst (1) sats_to_amount_string.simps) (simp only: neg if_True nv)
  show "sats_to_amount_string v = None"
  proof (cases "sats_to_amount_string v")
    case (Some s)
    with r have "s = CHR ''-'' # s" by simp
    then show ?thesis by simp
  qed
qed

theorem amount_string_exact_witness:
  "\<exists>s. sats_to_amount_string 123456789 = Some s \<and> parse_amount s = 123456789"
  using amount_string_exact [of 123456789] by simp

subsection \<open>The wallet\<close>

text \<open>The outputs of a \<open>sendmany\<close>: a Go map from address to amount, as an association list.\<close>

fun add_output :: "(string \<times> int) list \<Rightarrow> string \<Rightarrow> int \<Rightarrow> (string \<times> int) list" where
  "add_output [] a x = [(a, x)]"
| "add_output ((b, y) # os) a x = (if a = b then (b, y + x) # os else (b, y) # add_output os a x)"

definition batch_outputs :: "payment list \<Rightarrow> (string \<times> int) list" where
  "batch_outputs batch = foldl (\<lambda>os y. add_output os (py_address y) (py_amount y)) [] batch"

record send_call =
  sc_amounts :: "(string \<times> string) list"
  sc_subtract :: "string list option"

datatype 'w wallet_error = EmptyOutputs | NonPositiveAmount string | Rpc 'w | EmptyTxid

text \<open>The call \<open>SendMany\<close> makes of its outputs, or its refusal to make one.\<close>

definition send_call_of :: "(string \<times> int) list \<Rightarrow> bool \<Rightarrow> 'w wallet_error + send_call" where
  "send_call_of outputs subtract_fee =
     (if outputs = [] then Inl EmptyOutputs
      else case filter (\<lambda>(a, x). x \<le> 0) outputs of
        (a, _) # _ \<Rightarrow> Inl (NonPositiveAmount a)
      | [] \<Rightarrow> Inr \<lparr>sc_amounts = map (\<lambda>(a, x). (a, the (sats_to_amount_string (word_of_int x)))) outputs,
                   sc_subtract = (if subtract_fee then Some (map fst outputs) else None)\<rparr>)"

definition settle_send :: "'w + string \<Rightarrow> 'w wallet_error + string" where
  "settle_send r = (case r of Inl e \<Rightarrow> Inl (Rpc e) | Inr txid \<Rightarrow> if trim_space txid = [] then Inl EmptyTxid else Inr txid)"

text \<open>\<open>rpc\<close> is the daemon: what it answers to the \<open>sendmany\<close> call.\<close>

definition send_many ::
  "(send_call \<Rightarrow> 'w + string) \<Rightarrow> (string \<times> int) list \<Rightarrow> bool \<Rightarrow> 'w wallet_error + string" where
  "send_many rpc outputs subtract_fee =
     (case send_call_of outputs subtract_fee of Inl e \<Rightarrow> Inl e | Inr call \<Rightarrow> settle_send (rpc call))"

lemma add_output_sum: "(\<Sum>(a, x)\<leftarrow>add_output os a y. x) = (\<Sum>(a, x)\<leftarrow>os. x) + y"
  by (induction os a y rule: add_output.induct) auto

lemma batch_outputs_sum: "(\<Sum>(a, x)\<leftarrow>batch_outputs batch. x) = (\<Sum>y\<leftarrow>batch. py_amount y)"
proof -
  have "(\<Sum>(a, x)\<leftarrow>foldl (\<lambda>os y. add_output os (py_address y) (py_amount y)) os batch. x)
      = (\<Sum>(a, x)\<leftarrow>os. x) + (\<Sum>y\<leftarrow>batch. py_amount y)" for os
    by (induction batch arbitrary: os) (simp_all add: add_output_sum)
  from this [of "[]"] show ?thesis by (simp add: batch_outputs_def)
qed

subsection \<open>The pass\<close>

record payout_options =
  yo_pool :: string
  yo_min_sats :: int
  yo_subtract_fee :: bool
  yo_validator :: "(string \<Rightarrow> string option) option"

text \<open>\<open>NewProcessor\<close> raises a missing minimum to 100000 units.\<close>

definition payout_min :: "payout_options \<Rightarrow> int" where
  "payout_min opts = (if yo_min_sats opts \<le> 0 then 100000 else yo_min_sats opts)"

definition payout_validate :: "payout_options \<Rightarrow> string \<Rightarrow> string option" where
  "payout_validate opts miner =
     (case yo_validator opts of None \<Rightarrow> Some miner | Some v \<Rightarrow> v miner)"

record 'w payout_env =
  ye_stuck_ok :: bool
  ye_batch_id :: string
  ye_now :: int
  ye_begin :: tx_outcome
  ye_wallet :: "(string \<times> int) list \<Rightarrow> bool \<Rightarrow> 'w wallet_error + string"
  ye_refund :: tx_outcome
  ye_mark :: tx_outcome

datatype 'w payout_result =
    StuckQueryFailed
  | BeginFailed db_error
  | NothingPayable
  | RefundFailed db_error "'w wallet_error"
  | SendFailedRefunded "'w wallet_error"
  | SentMarkFailed string db_error
  | PayoutSentOk string "payment list"

definition payout_pass :: "payout_options \<Rightarrow> 'w payout_env \<Rightarrow> db \<Rightarrow> db \<times> 'w payout_result" where
  "payout_pass opts env d =
     (if \<not> ye_stuck_ok env then (d, StuckQueryFailed)
      else case begin_payout (ye_begin env) d (yo_pool opts) (payout_min opts) (ye_batch_id env)
                  (ye_now env) (payout_validate opts) of
        (d1, Inl e) \<Rightarrow> (d1, BeginFailed e)
      | (d1, Inr batch) \<Rightarrow>
        if batch = [] then (d1, NothingPayable)
        else (case ye_wallet env (batch_outputs batch) (yo_subtract_fee opts) of
          Inl w \<Rightarrow>
            (case refund_batch (ye_refund env) d1 (ye_batch_id env) of
               (d2, Inl e) \<Rightarrow> (d2, RefundFailed e w)
             | (d2, Inr _) \<Rightarrow> (d2, SendFailedRefunded w))
        | Inr txid \<Rightarrow>
            (case mark_payments_sent (ye_mark env) d1 (ye_batch_id env) txid of
               (d2, Inl e) \<Rightarrow> (d2, SentMarkFailed txid e)
             | (d2, Inr _) \<Rightarrow> (d2, PayoutSentOk txid batch))))"


subsection \<open>What a pass does to one miner\<close>

text \<open>What a batch holds for a miner: its payments sent or in flight.\<close>

definition held :: "string \<Rightarrow> string \<Rightarrow> string \<Rightarrow> payment_row \<Rightarrow> int" where
  "held b p m q = (if pm_batch q = b \<and> pm_status q \<noteq> Failed \<and> pm_pool q = p \<and> pm_miner q = m then pm_amount q else 0)"

definition batch_held :: "db \<Rightarrow> string \<Rightarrow> string \<Rightarrow> string \<Rightarrow> int" where
  "batch_held d b p m = (\<Sum>q\<leftarrow>db_payments d. held b p m q)"

definition row_of :: "int \<Rightarrow> payment \<Rightarrow> payment_row" where
  "row_of now y = \<lparr>pm_id = py_id y, pm_pool = py_pool y, pm_miner = py_miner y, pm_address = py_address y,
     pm_amount = py_amount y, pm_txid = [], pm_status = Sending, pm_batch = py_batch y, pm_created = now\<rparr>"

lemma pay_one_detail:
  assumes "(pool, m) \<in> set (keys d)" and "pay_one validate pool b now (d, batch) (m, s) = (d', batch')"
  shows "keys d' = keys d \<and> (\<exists>new. batch' = batch @ new \<and> db_payments d' = db_payments d @ map (row_of now) new
    \<and> (\<forall>y \<in> set new. py_pool y = pool \<and> py_batch y = b)
    \<and> (\<forall>p m. miner_balance d' p m + batch_held d' b p m = miner_balance d p m + batch_held d b p m))"
proof (cases "validate m")
  case None
  then show ?thesis using assms by (simp add: pay_one_def)
next
  case (Some address)
  define y where "y = \<lparr>py_id = int (length (db_payments d)) + 1, py_pool = pool, py_miner = m,
    py_address = address, py_amount = s, py_batch = b\<rparr>"
  define d1 where "d1 = add_change (deduct d pool m s) pool m (- s) Payout 0"
  have b: "batch' = batch @ [y]" and d': "d' = d1\<lparr>db_payments := db_payments d @ map (row_of now) [y]\<rparr>"
    using assms(2) Some by (auto simp: pay_one_def Let_def d1_def y_def row_of_def)
  have "miner_balance d' p m' = miner_balance d p m' - (if p = pool \<and> m' = m then s else 0)" for p m'
    using miner_balance_deduct [OF assms(1), of s p m'] by (simp add: d' d1_def miner_balance_rows)
  moreover have "batch_held d' b p m' = batch_held d b p m' + (if p = pool \<and> m' = m then s else 0)" for p m'
    by (auto simp: batch_held_def d' row_of_def held_def y_def)
  moreover have "keys d' = keys d" by (simp add: d' d1_def keys_def) (simp add: deduct_def deduct_balance_keys)
  ultimately show ?thesis using b by (intro conjI exI [of _ "[y]"]) (simp_all add: d' y_def)
qed

lemma pay_fold_detail:
  assumes "\<And>m s. (m, s) \<in> set cs \<Longrightarrow> (pool, m) \<in> set (keys d)"
    and "foldl (pay_one validate pool b now) (d, batch) cs = (d', batch')"
  shows "\<exists>new. batch' = batch @ new \<and> db_payments d' = db_payments d @ map (row_of now) new
    \<and> (\<forall>y \<in> set new. py_pool y = pool \<and> py_batch y = b)
    \<and> (\<forall>p m. miner_balance d' p m + batch_held d' b p m = miner_balance d p m + batch_held d b p m)"
  using assms
proof (induction cs arbitrary: d batch)
  case (Cons c cs)
  obtain m s where c: "c = (m, s)" by (cases c)
  obtain d1 b1 where p: "pay_one validate pool b now (d, batch) (m, s) = (d1, b1)"
    by (cases "pay_one validate pool b now (d, batch) (m, s)")
  have ms: "(pool, m) \<in> set (keys d)" using Cons.prems(1) [of m s] by (simp add: c)
  obtain new1 where one: "keys d1 = keys d" "b1 = batch @ new1" "db_payments d1 = db_payments d @ map (row_of now) new1"
    "\<forall>y \<in> set new1. py_pool y = pool \<and> py_batch y = b"
    "\<forall>p m. miner_balance d1 p m + batch_held d1 b p m = miner_balance d p m + batch_held d b p m"
    using pay_one_detail [OF ms p] by blast
  obtain new2 where two: "batch' = b1 @ new2" "db_payments d' = db_payments d1 @ map (row_of now) new2"
    "\<forall>y \<in> set new2. py_pool y = pool \<and> py_batch y = b"
    "\<forall>p m. miner_balance d' p m + batch_held d' b p m = miner_balance d1 p m + batch_held d1 b p m"
    using Cons.IH [of d1 b1] Cons.prems by (auto simp: c p one(1))
  show ?case using one two by (intro exI [of _ "new1 @ new2"]) auto
qed simp

lemma begin_detail:
  assumes "books d" and "begin_payout out d pool min_sats b now validate = (d', res)"
  shows "(\<forall>p m. miner_balance d' p m + batch_held d' b p m = miner_balance d p m + batch_held d b p m)
    \<and> (\<exists>new. db_payments d' = db_payments d @ map (row_of now) new
        \<and> (\<forall>y \<in> set new. py_pool y = pool \<and> py_batch y = b) \<and> (\<forall>batch. res = Inr batch \<longrightarrow> new = batch))"
proof -
  obtain d1 new where f: "foldl (pay_one validate pool b now) (d, []) (payable d pool min_sats) = (d1, new)"
    by (cases "foldl (pay_one validate pool b now) (d, []) (payable d pool min_sats)")
  have k: "(pool, m) \<in> set (keys d)" if "(m, s) \<in> set (payable d pool min_sats)" for m s
    using payable_candidates(2) [OF assms(1) that] by blast
  note detail = pay_fold_detail [OF k f, simplified]
  have "(d', res) = (d, Inl QueryFailed) \<or> (d', res) = (d, Inr []) \<and> new = [] \<or> (d', res) = (d1, Inr new)
      \<or> (d', res) = (d1, Inl CommitFailed)"
    using assms(2) by (cases out) (auto simp: begin_payout_def f finish_tx_def split: if_splits)
  then show ?thesis using detail by (elim disjE) auto
qed

lemma mark_detail:
  assumes "mark_payments_sent out d b txid = (d', res)"
  shows "miner_balance d' p m + batch_held d' b p m = miner_balance d p m + batch_held d b p m"
    and "res = Inr () \<Longrightarrow> db_payments d' = map (\<lambda>p. if in_flight b p
              then p\<lparr>pm_status := Sent, pm_txid := txid\<rparr> else p) (db_payments d)"
proof -
  let ?ps = "map (\<lambda>p. if in_flight b p then p\<lparr>pm_status := Sent, pm_txid := txid\<rparr> else p) (db_payments d)"
  have h: "(\<Sum>q\<leftarrow>map (\<lambda>p. if in_flight b p then p\<lparr>pm_status := Sent, pm_txid := txid\<rparr> else p) ps. held b p m q)
      = (\<Sum>q\<leftarrow>ps. held b p m q)" for ps
    by (induction ps) (auto simp: held_def in_flight_def)
  have "(d', res) = (d, Inl QueryFailed) \<or> (d', res) = (d, Inl (NoSendingRows b))
      \<or> d' = d\<lparr>db_payments := ?ps\<rparr> \<and> res \<in> {Inr (), Inl CommitFailed}"
    using assms by (cases out) (auto simp: mark_payments_sent_def finish_tx_def split: if_splits)
  then show "miner_balance d' p m + batch_held d' b p m = miner_balance d p m + batch_held d b p m"
    and "res = Inr () \<Longrightarrow> db_payments d' = ?ps"
    using h by (auto simp: batch_held_def miner_balance_rows)
qed

lemma refund_balance:
  "miner_balance (foldl refund_one d ps) p m = miner_balance d p m
     + (\<Sum>q\<leftarrow>ps. if pm_pool q = p \<and> pm_miner q = m then pm_amount q else 0)"
proof (induction ps arbitrary: d)
  case (Cons q ps)
  have "miner_balance (refund_one d q) p m = miner_balance d p m
      + (if pm_pool q = p \<and> pm_miner q = m then pm_amount q else 0)"
    using miner_balance_upsert [of d "pm_pool q" "pm_miner q" "pm_amount q" p m]
    by (auto simp: refund_one_def miner_balance_rows)
  then show ?case using Cons.IH by simp
qed simp

lemma refund_detail:
  assumes "refund_batch out d b = (d', res)"
  shows "miner_balance d' p m + batch_held d' b p m = miner_balance d p m + batch_held d b p m"
    and "res = Inr () \<Longrightarrow> db_payments d' = map (\<lambda>p. if in_flight b p then p\<lparr>pm_status := Failed\<rparr> else p) (db_payments d)"
proof -
  let ?rows = "filter (in_flight b) (db_payments d)"
  let ?ps = "map (\<lambda>p. if in_flight b p then p\<lparr>pm_status := Failed\<rparr> else p) (db_payments d)"
  have pays: "db_payments (foldl refund_one d ps) = db_payments d" for ps
    by (induction ps arbitrary: d) (simp_all add: refund_one_def)
  have h: "(\<Sum>q\<leftarrow>map (\<lambda>p. if in_flight b p then p\<lparr>pm_status := Failed\<rparr> else p) ps. held b p m q)
      + (\<Sum>q\<leftarrow>filter (in_flight b) ps. if pm_pool q = p \<and> pm_miner q = m then pm_amount q else 0)
      = (\<Sum>q\<leftarrow>ps. held b p m q)" for ps
    by (induction ps) (auto simp: held_def in_flight_def)
  have none: "?rows = [] \<Longrightarrow> ?ps = db_payments d" by (simp add: filter_empty_conv map_idI)
  define d1 where "d1 = fail_batch b (foldl refund_one d ?rows)"
  have d1: "miner_balance d1 p m + batch_held d1 b p m = miner_balance d p m + batch_held d b p m"
      "db_payments d1 = ?ps"
    using h [of "db_payments d"] refund_balance [of d ?rows p m]
    by (simp_all add: d1_def batch_held_def fail_batch_def pays miner_balance_rows)
  have "(d', res) = (d, Inl QueryFailed) \<or> (d', res) = (d, Inr ()) \<and> ?rows = []
      \<or> d' = d1 \<and> res \<in> {Inr (), Inl CommitFailed}"
    using assms by (cases out) (auto simp: refund_batch_def finish_tx_def d1_def Let_def split: if_splits)
  then show "miner_balance d' p m + batch_held d' b p m = miner_balance d p m + batch_held d b p m"
    and "res = Inr () \<Longrightarrow> db_payments d' = ?ps"
    using d1 none by auto
qed


lemma in_flight_row: "py_batch y = b \<Longrightarrow> in_flight b (row_of now y)"
  by (simp add: in_flight_def row_of_def)

lemma held_fresh: "(\<And>q. q \<in> set ps \<Longrightarrow> pm_batch q \<noteq> b) \<Longrightarrow> (\<Sum>q\<leftarrow>ps. held b p m q) = 0"
  by (induction ps) (auto simp: held_def)

lemma held_failed:
  "(\<And>q. q \<in> set ps \<Longrightarrow> pm_batch q = b \<Longrightarrow> in_flight b q) \<Longrightarrow>
   (\<Sum>q\<leftarrow>map (\<lambda>p. if in_flight b p then p\<lparr>pm_status := Failed\<rparr> else p) ps. held b p m q) = 0"
  by (induction ps) (auto simp: held_def)

lemma in_flight_before:
  assumes "q \<in> set (db_payments d')" and "in_flight b q"
  shows "refund_batch out d b = (d', r) \<Longrightarrow> q \<in> set (db_payments d)"
    and "mark_payments_sent out d b txid = (d', r) \<Longrightarrow> q \<in> set (db_payments d)"
proof -
  have pays: "db_payments (foldl refund_one d ps) = db_payments d" for ps
    by (induction ps arbitrary: d) (simp_all add: refund_one_def)
  have g: "q \<in> set ps" if t: "q \<in> set (map (\<lambda>p. if in_flight b p then h p else p) ps)" "\<And>p. \<not> in_flight b (h p)" for ps h
  proof -
    obtain p where p: "p \<in> set ps" "q = (if in_flight b p then h p else p)" using t(1) by auto
    with t(2) assms(2) show ?thesis by (cases "in_flight b p") auto
  qed
  have f: "q \<in> set ps" if "q \<in> set (map (\<lambda>p. if in_flight b p then p\<lparr>pm_status := Failed\<rparr> else p) ps)" for ps
    using that by (rule g) (simp add: in_flight_def)
  have m: "q \<in> set ps" if "q \<in> set (map (\<lambda>p. if in_flight b p then p\<lparr>pm_status := Sent, pm_txid := txid\<rparr> else p) ps)" for ps
    using that by (rule g) (simp add: in_flight_def)
  show "q \<in> set (db_payments d)" if "refund_batch out d b = (d', r)"
  proof -
    have "d' \<in> {d, fail_batch b (foldl refund_one d (filter (in_flight b) (db_payments d)))}"
      using that by (cases out) (auto simp: refund_batch_def finish_tx_def Let_def split: if_splits)
    then have "d' = d \<or> db_payments d' = map (\<lambda>p. if in_flight b p then p\<lparr>pm_status := Failed\<rparr> else p) (db_payments d)"
      by (elim insertE emptyE) (simp_all add: fail_batch_def pays)
    then show ?thesis using assms(1) f [of "db_payments d"] by (elim disjE) simp_all
  qed
  show "q \<in> set (db_payments d)" if "mark_payments_sent out d b txid = (d', r)"
  proof -
    have "d' = d \<or> db_payments d' = map (\<lambda>p. if in_flight b p then p\<lparr>pm_status := Sent, pm_txid := txid\<rparr> else p) (db_payments d)"
      using that by (cases out) (auto simp: mark_payments_sent_def finish_tx_def split: if_splits)
    then show ?thesis using assms(1) m [of "db_payments d"] by (elim disjE) simp_all
  qed
qed

subsection \<open>The outcomes of a pass\<close>

text \<open>What the transaction that begins a batch leaves behind, and how a pass goes on from there.\<close>

definition batch_begun :: "payout_options \<Rightarrow> 'w payout_env \<Rightarrow> db \<Rightarrow> db \<Rightarrow> payment list \<Rightarrow> bool" where
  "batch_begun opts env d d1 new \<longleftrightarrow>
     db_payments d1 = db_payments d @ map (row_of (ye_now env)) new
     \<and> (\<forall>y \<in> set new. py_pool y = yo_pool opts \<and> py_batch y = ye_batch_id env)
     \<and> (\<forall>p m. miner_balance d1 p m + batch_held d1 (ye_batch_id env) p m = miner_balance d p m)"

lemma payout_pass_cases:
  assumes "books d" and fresh: "\<forall>q \<in> set (db_payments d). pm_batch q \<noteq> ye_batch_id env"
    and "payout_pass opts env d = (d', res)"
  obtains
    (nothing) "d' = d" "\<forall>w. res \<noteq> SendFailedRefunded w" "\<forall>t l. res \<noteq> PayoutSentOk t l"
  | (begun) new where "batch_begun opts env d d' new" "\<forall>w. res \<noteq> SendFailedRefunded w" "\<forall>t l. res \<noteq> PayoutSentOk t l"
  | (refund) d1 new r2 where "batch_begun opts env d d1 new" "refund_batch (ye_refund env) d1 (ye_batch_id env) = (d', r2)"
      "\<forall>t l. res \<noteq> PayoutSentOk t l" "\<forall>w. res = SendFailedRefunded w \<longrightarrow> r2 = Inr ()"
  | (mark) d1 new txid r2 where "batch_begun opts env d d1 new" "mark_payments_sent (ye_mark env) d1 (ye_batch_id env) txid = (d', r2)"
      "\<forall>w. res \<noteq> SendFailedRefunded w"
      "\<forall>t l. res = PayoutSentOk t l \<longrightarrow> r2 = Inr () \<and> t = txid \<and> l = new
         \<and> ye_wallet env (batch_outputs l) (yo_subtract_fee opts) = Inr txid"
proof -
  obtain d1 r1 where b: "begin_payout (ye_begin env) d (yo_pool opts) (payout_min opts) (ye_batch_id env) (ye_now env)
      (payout_validate opts) = (d1, r1)"
    by fastforce
  obtain new where new: "db_payments d1 = db_payments d @ map (row_of (ye_now env)) new"
      "\<forall>y \<in> set new. py_pool y = yo_pool opts \<and> py_batch y = ye_batch_id env" "\<forall>batch. r1 = Inr batch \<longrightarrow> new = batch"
    and sum1: "\<And>p m. miner_balance d1 p m + batch_held d1 (ye_batch_id env) p m
      = miner_balance d p m + batch_held d (ye_batch_id env) p m"
    using begin_detail [OF assms(1) b] by blast
  have z: "batch_held d (ye_batch_id env) p m = 0" for p m unfolding batch_held_def using fresh by (intro held_fresh) blast
  have bb: "batch_begun opts env d d1 new" using new(1,2) sum1 z by (simp add: batch_begun_def)
  consider "d' = d" "\<forall>w. res \<noteq> SendFailedRefunded w" "\<forall>t l. res \<noteq> PayoutSentOk t l"
    | "d' = d1" "\<forall>w. res \<noteq> SendFailedRefunded w" "\<forall>t l. res \<noteq> PayoutSentOk t l"
    | r2 where "refund_batch (ye_refund env) d1 (ye_batch_id env) = (d', r2)" "\<forall>t l. res \<noteq> PayoutSentOk t l"
        "\<forall>w. res = SendFailedRefunded w \<longrightarrow> r2 = Inr ()"
    | txid r2 where "mark_payments_sent (ye_mark env) d1 (ye_batch_id env) txid = (d', r2)"
        "\<forall>w. res \<noteq> SendFailedRefunded w"
        "\<forall>t l. res = PayoutSentOk t l \<longrightarrow> r2 = Inr () \<and> t = txid \<and> l = new
           \<and> ye_wallet env (batch_outputs l) (yo_subtract_fee opts) = Inr txid"
    using assms(3) b new(3) by (auto simp: payout_pass_def split: if_splits sum.splits prod.splits)
  then show ?thesis
  proof cases
    case 1
    then show ?thesis by (rule nothing)
  next
    case 2
    show ?thesis by (rule begun [of new]) (use 2 bb in simp_all)
  next
    case 3
    then show ?thesis by (rule refund [OF bb])
  next
    case 4
    then show ?thesis by (rule mark [OF bb])
  qed
qed

lemma pass_balance:
  assumes "books d" and fresh: "\<forall>q \<in> set (db_payments d). pm_batch q \<noteq> ye_batch_id env"
    and "payout_pass opts env d = (d', res)"
  shows "miner_balance d p m = miner_balance d' p m + batch_held d' (ye_batch_id env) p m"
  using assms(1,2,3)
proof (cases rule: payout_pass_cases)
  case nothing
  then show ?thesis using fresh held_fresh [of "db_payments d" "ye_batch_id env"] by (simp add: batch_held_def)
next
  case (refund d1 new r2)
  then show ?thesis using refund_detail(1) [OF refund(2), of p m] by (simp add: batch_begun_def)
next
  case (mark d1 new txid r2)
  then show ?thesis using mark_detail(1) [OF mark(2), of p m] by (simp add: batch_begun_def)
qed (simp add: batch_begun_def)

lemma pass_refunded:
  assumes "books d" and fresh: "\<forall>q \<in> set (db_payments d). pm_batch q \<noteq> ye_batch_id env"
    and "payout_pass opts env d = (d', SendFailedRefunded w)"
  shows "miner_balance d' p m = miner_balance d p m"
  using assms(1,2,3)
proof (cases rule: payout_pass_cases)
  case (refund d1 new r2)
  have "in_flight (ye_batch_id env) q" if "q \<in> set (db_payments d1)" "pm_batch q = ye_batch_id env" for q
    using that assms(2) refund(1) in_flight_row by (auto simp: batch_begun_def)
  then have "batch_held d' (ye_batch_id env) p m = 0"
    using refund_detail(2) [OF refund(2)] refund(4) held_failed [of "db_payments d1"] by (simp add: batch_held_def)
  then show ?thesis using pass_balance [OF assms, of p m] by simp
qed auto

lemma pass_sent:
  assumes "books d" and fresh: "\<forall>q \<in> set (db_payments d). pm_batch q \<noteq> ye_batch_id env"
    and "payout_pass opts env d = (d', PayoutSentOk txid batch)"
  shows "db_payments d' = db_payments d @ map (\<lambda>y. (row_of (ye_now env) y)\<lparr>pm_status := Sent, pm_txid := txid\<rparr>) batch
    \<and> ye_wallet env (batch_outputs batch) (yo_subtract_fee opts) = Inr txid"
  using assms(1,2,3)
proof (cases rule: payout_pass_cases)
  case (mark d1 new txid' r2)
  let ?f = "\<lambda>p. if in_flight (ye_batch_id env) p then p\<lparr>pm_status := Sent, pm_txid := txid\<rparr> else p"
  have l: "batch = new" "txid = txid'" "r2 = Inr ()" "ye_wallet env (batch_outputs batch) (yo_subtract_fee opts) = Inr txid"
    using mark(4) by auto
  have old: "map ?f (db_payments d) = db_payments d" using assms(2) by (intro map_idI) (auto simp: in_flight_def)
  have fresh: "map ?f (map (row_of (ye_now env)) new)
      = map (\<lambda>y. (row_of (ye_now env) y)\<lparr>pm_status := Sent, pm_txid := txid\<rparr>) new"
    using mark(1) by (simp add: batch_begun_def in_flight_row)
  have new: "db_payments d1 = db_payments d @ map (row_of (ye_now env)) new" using mark(1) by (simp add: batch_begun_def)
  have "db_payments d' = map ?f (db_payments d1)" using mark_detail(2) [OF mark(2)] l by simp
  then show ?thesis unfolding new map_append old fresh using l by simp
qed auto

lemma pass_stuck:
  assumes "books d" and fresh: "\<forall>q \<in> set (db_payments d). pm_batch q \<noteq> ye_batch_id env"
    and "payout_pass opts env d = (d', res)"
    and q: "q \<in> set (db_payments d')" "in_flight (ye_batch_id env) q" and now: "ye_now env + stuck_grace < now"
  shows "ye_batch_id env \<in> set (stuck_batches d' (yo_pool opts) now)"
proof -
  have row: "q \<in> set (map (row_of (ye_now env)) new)" if "batch_begun opts env d d1 new" "q \<in> set (db_payments d1)" for d1 new
    using that q(2) assms(2) by (auto simp: batch_begun_def in_flight_def)
  have "pm_pool q = yo_pool opts \<and> pm_created q = ye_now env"
    if "batch_begun opts env d d1 new" "q \<in> set (db_payments d1)" for d1 new
    using row [OF that] that(1) by (auto simp: batch_begun_def row_of_def)
  moreover obtain d1 new where "batch_begun opts env d d1 new" "q \<in> set (db_payments d1)"
    using assms(1-3)
  proof (cases rule: payout_pass_cases)
    case nothing
    then show ?thesis using q assms(2) by (auto simp: in_flight_def)
  next
    case (refund d1 new r2)
    then show ?thesis using that in_flight_before(1) [OF q] by blast
  next
    case (mark d1 new txid r2)
    then show ?thesis using that in_flight_before(2) [OF q] by blast
  qed (use q that in blast)
  ultimately have "q \<in> set (filter (\<lambda>p. pm_pool p = yo_pool opts \<and> pm_status p = Sending
      \<and> pm_created p < now - stuck_grace) (db_payments d'))"
    using q now by (auto simp: in_flight_def)
  then show ?thesis using q(2) by (force simp: stuck_batches_def in_flight_def)
qed

lemma refunded_on_error:
  "payout_pass opts env d = (d', SendFailedRefunded w) \<Longrightarrow>
   \<exists>batch. batch \<noteq> [] \<and> ye_wallet env (batch_outputs batch) (yo_subtract_fee opts) = Inl w"
  by (auto simp: payout_pass_def split: if_splits sum.splits prod.splits)


text \<open>A pass that pays the credited miner of the ledger's sample history.\<close>

definition sample_payout :: payout_options where
  "sample_payout = \<lparr>yo_pool = ''btc'', yo_min_sats = 500, yo_subtract_fee = False, yo_validator = None\<rparr>"

definition sample_payout_env :: "string payout_env" where
  "sample_payout_env = \<lparr>ye_stuck_ok = True, ye_batch_id = ''b1'', ye_now = 50, ye_begin = TxCommitted,
     ye_wallet = (\<lambda>outs sub. send_many (\<lambda>call. Inr ''tx1'') outs sub), ye_refund = TxCommitted,
     ye_mark = TxCommitted\<rparr>"



end
