(* ===== verification/Processor.thy ===== *)
theory Processor
  imports Ledger
begin

text \<open>
  The reward processor of \<open>internal/rewards/processor.go\<close>: one pass confirms a pool's pending
  blocks against the chain and credits the confirmed ones. What the daemon answers and which
  statements fail during the pass is the environment; the theorems hold for every environment.
\<close>

record processor_options =
  po_pool :: string
  po_calculator :: calculator
  po_fee_percent :: f64
  po_confirm :: confirm_options

record 'e pass_env =
  pe_unconfirmed_ok :: bool
  pe_view :: "nat \<Rightarrow> 'e chain_view"
  pe_update :: "nat \<Rightarrow> tx_outcome"
  pe_unrewarded_ok :: bool
  pe_fails :: "nat \<Rightarrow> share_query \<Rightarrow> bool"
  pe_credit :: "nat \<Rightarrow> tx_outcome"

datatype 'e pass_error =
    PassQuery
  | PassCheck "'e confirm_error"
  | PassUpdate db_error
  | PassCalculate "db_error calc_error"
  | PassCredit db_error

definition apply_verdict :: "tx_outcome \<Rightarrow> db \<Rightarrow> reward_block \<Rightarrow> confirmation \<Rightarrow> db \<times> (db_error + unit)" where
  "apply_verdict out d b c =
     (case cf_status c of
        Pending \<Rightarrow>
          if 0 < cf_confirmations c
          then finish_tx out (update_block_confirmation d (rb_id b) Pending (cf_confirmations c) (cf_progress c)) () d
          else (d, Inr ())
      | Confirmed \<Rightarrow> finish_tx out (update_block_confirmation d (rb_id b) Confirmed (cf_confirmations c) 1) () d
      | Orphaned \<Rightarrow> finish_tx out (update_block_confirmation d (rb_id b) Orphaned 0 0) () d)"

fun confirm_blocks ::
  "processor_options \<Rightarrow> 'e pass_env \<Rightarrow> nat \<Rightarrow> db \<Rightarrow> reward_block list \<Rightarrow> db \<times> ('e pass_error + unit)" where
  "confirm_blocks opts env i d [] = (d, Inr ())"
| "confirm_blocks opts env i d (b # bs) =
     (case check_block (pe_view env i) (rb_height b) (rb_hash b) (po_confirm opts) of
        Inl e \<Rightarrow> (d, Inl (PassCheck e))
      | Inr c \<Rightarrow>
        (case apply_verdict (pe_update env i) d b c of
           (d', Inl e) \<Rightarrow> (d', Inl (PassUpdate e))
         | (d', Inr _) \<Rightarrow> confirm_blocks opts env (Suc i) d' bs))"

definition confirm_pass :: "processor_options \<Rightarrow> 'e pass_env \<Rightarrow> db \<Rightarrow> db \<times> ('e pass_error + unit)" where
  "confirm_pass opts env d =
     (if pe_unconfirmed_ok env then confirm_blocks opts env 0 d (unconfirmed_blocks d (po_pool opts))
      else (d, Inl PassQuery))"

fun reward_blocks ::
  "processor_options \<Rightarrow> 'e pass_env \<Rightarrow> nat \<Rightarrow> db \<Rightarrow> reward_block list \<Rightarrow> db \<times> ('e pass_error + unit)" where
  "reward_blocks opts env i d [] = (d, Inr ())"
| "reward_blocks opts env i d (b # bs) =
     (case apply_fee (rb_reward b) (po_fee_percent opts) of (distributable, fee) \<Rightarrow>
       (case calculate (po_calculator opts) (db_source (pe_fails env i) d) b distributable of
          Inl e \<Rightarrow> (d, Inl (PassCalculate e))
        | Inr credits \<Rightarrow>
          (case credit_block_rewards (pe_credit env i) d b credits fee of
             (d', Inl e) \<Rightarrow> (d', Inl (PassCredit e))
           | (d', Inr _) \<Rightarrow> reward_blocks opts env (Suc i) d' bs)))"

definition reward_pass :: "processor_options \<Rightarrow> 'e pass_env \<Rightarrow> db \<Rightarrow> db \<times> ('e pass_error + unit)" where
  "reward_pass opts env d =
     (if pe_unrewarded_ok env then reward_blocks opts env 0 d (confirmed_unrewarded d (po_pool opts))
      else (d, Inl PassQuery))"

definition processor_pass :: "processor_options \<Rightarrow> 'e pass_env \<Rightarrow> db \<Rightarrow> db \<times> ('e pass_error + unit)" where
  "processor_pass opts env d =
     (case confirm_pass opts env d of
        (d', Inl e) \<Rightarrow> (d', Inl e)
      | (d', Inr _) \<Rightarrow> reward_pass opts env d')"

text \<open>\<open>Run\<close>: passes one after the other, an error only logged. The list is the environments of
  the passes made so far.\<close>

definition processor_run :: "processor_options \<Rightarrow> 'e pass_env list \<Rightarrow> db \<Rightarrow> db" where
  "processor_run opts envs d = foldl (\<lambda>d env. fst (processor_pass opts env d)) d envs"

subsection \<open>A pass is a run of the ledger\<close>

definition block_facts :: "db \<Rightarrow> reward_block list" where
  "block_facts d = map to_reward_block (db_blocks d)"

lemma block_facts_update [simp]:
  "block_facts (update_block_confirmation d bid status confs progress) = block_facts d"
  by (simp add: block_facts_def update_block_confirmation_def to_reward_block_def)

lemma block_facts_credit [simp]: "block_facts (fst (credit_block_rewards out d b cs fee)) = block_facts d"
proof -
  have f: "db_blocks (foldl (credit_miner b) d cs) = db_blocks d"
    by (induction cs arbitrary: d) (simp_all add: credit_miner_def)
  have m: "block_facts (mark_rewarded i d') = block_facts d'" for i d'
    by (simp add: block_facts_def mark_rewarded_def to_reward_block_def)
  define d2 where "d2 = (if 0 < fee then add_change (foldl (credit_miner b) d cs) (rb_pool b) [] fee PoolFee (rb_height b)
      else foldl (credit_miner b) d cs)"
  have "block_facts (mark_rewarded (rb_id b) d2) = block_facts d"
    unfolding m by (simp add: block_facts_def d2_def f)
  moreover have "fst (credit_block_rewards out d b cs fee) \<in> {d, mark_rewarded (rb_id b) d2}"
    by (cases out) (auto simp: credit_block_rewards_def finish_tx_def d2_def Let_def split: list.splits)
  ultimately show ?thesis by auto
qed

lemma apply_verdict_step:
  "fst (apply_verdict out d b c) = d \<or> ledger_step d (fst (apply_verdict out d b c))"
  "block_facts (fst (apply_verdict out d b c)) = block_facts d"
  by (cases out; cases "cf_status c"; simp add: apply_verdict_def finish_tx_def ConfirmationUpdated)+

lemma confirm_blocks_steps:
  "ledger_step\<^sup>*\<^sup>* d (fst (confirm_blocks opts env i d bs))
   \<and> block_facts (fst (confirm_blocks opts env i d bs)) = block_facts d"
proof (induction bs arbitrary: i d)
  case (Cons b bs)
  show ?case
  proof (cases "check_block (pe_view env i) (rb_height b) (rb_hash b) (po_confirm opts)")
    case (Inr c)
    define r where "r = apply_verdict (pe_update env i) d b c"
    have r: "ledger_step\<^sup>*\<^sup>* d (fst r)" "block_facts (fst r) = block_facts d"
      using apply_verdict_step [of "pe_update env i" d b c] by (auto simp: r_def)
    have "fst (confirm_blocks opts env i d (b # bs)) =
        (if isl (snd r) then fst r else fst (confirm_blocks opts env (Suc i) (fst r) bs))"
      by (cases r; cases "snd r") (simp_all add: Inr r_def)
    then show ?thesis using Cons.IH [of "fst r" "Suc i"] r rtranclp_trans [of ledger_step d "fst r"] by auto
  qed simp
qed simp

lemma reward_blocks_steps:
  "set bs \<subseteq> set (block_facts d) \<Longrightarrow> ledger_step\<^sup>*\<^sup>* d (fst (reward_blocks opts env i d bs))
   \<and> block_facts (fst (reward_blocks opts env i d bs)) = block_facts d"
proof (induction bs arbitrary: i d)
  case (Cons b bs)
  obtain paid fee where f: "apply_fee (rb_reward b) (po_fee_percent opts) = (paid, fee)"
    by (cases "apply_fee (rb_reward b) (po_fee_percent opts)")
  show ?case
  proof (cases "calculate (po_calculator opts) (db_source (pe_fails env i) d) b paid")
    case (Inr credits)
    define r where "r = credit_block_rewards (pe_credit env i) d b credits fee"
    obtain row where row: "row \<in> set (db_blocks d)" "b = to_reward_block row"
      using Cons.prems by (auto simp: block_facts_def)
    have "apply_fee (br_reward_sats row) (po_fee_percent opts) = (paid, fee)"
      using f row(2) by (simp add: to_reward_block_def)
    then have step: "ledger_step d (fst r)"
      using BlockCredited [OF row(1)] Inr row(2) by (simp add: r_def)
    have facts: "block_facts (fst r) = block_facts d" by (simp add: r_def)
    have "fst (reward_blocks opts env i d (b # bs)) =
        (if isl (snd r) then fst r else fst (reward_blocks opts env (Suc i) (fst r) bs))"
      by (cases r; cases "snd r") (simp_all add: Inr r_def f)
    then show ?thesis
      using Cons.IH [of "fst r" "Suc i"] Cons.prems facts step converse_rtranclp_into_rtranclp [of ledger_step d "fst r"]
      by auto
  qed (simp add: f)
qed simp

subsection \<open>What the processor may do\<close>

text \<open>
  The specification of the processor, per block row of its pool: a pending block waits, is confirmed or is orphaned according to a view of the
  chain, and only a confirmed block that has not been rewarded is credited.
\<close>

definition on_chain :: "'e chain_view \<Rightarrow> block_row \<Rightarrow> int \<Rightarrow> bool" where
  "on_chain v row tip \<longleftrightarrow> cv_tip_height v = Inr tip \<and> br_height row \<le> tip
     \<and> (\<exists>h. cv_block_hash_at v (br_height row) = Inr (Some h) \<and> equal_fold h (br_hash row))"

definition off_chain :: "'e chain_view \<Rightarrow> block_row \<Rightarrow> int \<Rightarrow> bool" where
  "off_chain v row tip \<longleftrightarrow> cv_tip_height v = Inr tip
     \<and> (\<exists>h. cv_block_hash_at v (br_height row) = Inr (Some h) \<and> \<not> equal_fold h (br_hash row))"

definition pending_in :: "db \<Rightarrow> string \<Rightarrow> block_row \<Rightarrow> bool" where
  "pending_in d pool row \<longleftrightarrow> row \<in> set (db_blocks d) \<and> br_pool row = pool \<and> br_status row = Pending"

definition creditable_in :: "db \<Rightarrow> string \<Rightarrow> block_row \<Rightarrow> bool" where
  "creditable_in d pool row \<longleftrightarrow> row \<in> set (db_blocks d) \<and> br_pool row = pool \<and> br_status row = Confirmed \<and> \<not> br_rewarded row"

inductive processor_step :: "processor_options \<Rightarrow> 'e chain_view set \<Rightarrow> db \<Rightarrow> db \<Rightarrow> bool"
  for opts :: processor_options and V :: "'e chain_view set" where
  Waits: "pending_in d (po_pool opts) row \<Longrightarrow> v \<in> V \<Longrightarrow> on_chain v row tip \<Longrightarrow>
    tip - br_height row + 1 < co_maturity_depth (confirm_defaults (po_confirm opts)) \<Longrightarrow>
    q = fdiv (f64_of_int (tip - br_height row + 1)) (f64_of_int (co_maturity_depth (confirm_defaults (po_confirm opts)))) \<Longrightarrow>
    processor_step opts V d (update_block_confirmation d (br_id row) Pending (tip - br_height row + 1) (if 1 < q then 1 else q))"
| Confirms: "pending_in d (po_pool opts) row \<Longrightarrow> v \<in> V \<Longrightarrow> on_chain v row tip \<Longrightarrow>
    co_maturity_depth (confirm_defaults (po_confirm opts)) \<le> tip - br_height row + 1 \<Longrightarrow>
    processor_step opts V d (update_block_confirmation d (br_id row) Confirmed (tip - br_height row + 1) 1)"
| Orphans: "pending_in d (po_pool opts) row \<Longrightarrow> v \<in> V \<Longrightarrow> off_chain v row tip \<Longrightarrow>
    co_orphan_depth (confirm_defaults (po_confirm opts)) \<le> tip - br_height row \<Longrightarrow>
    processor_step opts V d (update_block_confirmation d (br_id row) Orphaned 0 0)"
| Credits: "creditable_in d (po_pool opts) row \<Longrightarrow> apply_fee (br_reward_sats row) (po_fee_percent opts) = (paid, fee) \<Longrightarrow>
    calculate (po_calculator opts) (db_source fails d) (to_reward_block row) paid = Inr credits \<Longrightarrow>
    processor_step opts V d (fst (credit_block_rewards out d (to_reward_block row) credits fee))"

lemma processor_steps_mono: "V \<subseteq> W \<Longrightarrow> (processor_step opts V)\<^sup>*\<^sup>* d e \<Longrightarrow> (processor_step opts W)\<^sup>*\<^sup>* d e"
proof -
  assume V: "V \<subseteq> W"
  have "processor_step opts W x y" if "processor_step opts V x y" for x y
    using that by induction (use V in \<open>blast intro: processor_step.intros\<close>)+
  then have "processor_step opts V \<le> processor_step opts W" by blast
  then show "(processor_step opts V)\<^sup>*\<^sup>* d e \<Longrightarrow> (processor_step opts W)\<^sup>*\<^sup>* d e" using rtranclp_mono by blast
qed

definition block_ids :: "db \<Rightarrow> int list" where
  "block_ids d = map br_id (db_blocks d)"

text \<open>Only rows with the given ids change, and none of them changes its id or pool.\<close>

definition others_same :: "int set \<Rightarrow> db \<Rightarrow> db \<Rightarrow> bool" where
  "others_same I d d' \<longleftrightarrow> (\<exists>f. db_blocks d' = map f (db_blocks d)
     \<and> (\<forall>r. br_id (f r) = br_id r \<and> br_pool (f r) = br_pool r) \<and> (\<forall>r. br_id r \<notin> I \<longrightarrow> f r = r))"

lemma others_same_refl: "others_same I d d"
  unfolding others_same_def by (intro exI [of _ id]) simp

lemma others_same_trans:
  assumes "others_same I d e" and "others_same J e d'"
  shows "others_same (I \<union> J) d d'"
proof -
  obtain f where "db_blocks e = map f (db_blocks d)" "\<forall>r. br_id (f r) = br_id r \<and> br_pool (f r) = br_pool r" "\<forall>r. br_id r \<notin> I \<longrightarrow> f r = r"
    using assms(1) unfolding others_same_def by blast
  moreover obtain g where "db_blocks d' = map g (db_blocks e)" "\<forall>r. br_id (g r) = br_id r \<and> br_pool (g r) = br_pool r" "\<forall>r. br_id r \<notin> J \<longrightarrow> g r = r"
    using assms(2) unfolding others_same_def by blast
  ultimately show ?thesis unfolding others_same_def by (intro exI [of _ "g \<circ> f"]) simp
qed

lemma others_same_ids: "others_same I d d' \<Longrightarrow> block_ids d' = block_ids d"
  by (auto simp: others_same_def block_ids_def)

lemma others_same_row: "others_same I d d' \<Longrightarrow> br_id r \<notin> I \<Longrightarrow> r \<in> set (db_blocks d') \<longleftrightarrow> r \<in> set (db_blocks d)"
  by (auto simp: others_same_def image_iff) metis

lemma update_others: "others_same {i} d (update_block_confirmation d i st n p)"
  unfolding others_same_def
  by (intro exI [of _ "\<lambda>r. if br_id r = i then r\<lparr>br_status := st, br_confirmations := n, br_progress := p\<rparr> else r"])
    (auto simp: update_block_confirmation_def)

lemma credit_blocks:
  "db_blocks (fst (credit_block_rewards out d b cs fee)) = db_blocks d
   \<or> db_blocks (fst (credit_block_rewards out d b cs fee)) = map (\<lambda>r. if br_id r = rb_id b then r\<lparr>br_rewarded := True\<rparr> else r) (db_blocks d)"
proof -
  have f: "db_blocks (foldl (credit_miner b) d cs) = db_blocks d"
    by (induction cs arbitrary: d) (simp_all add: credit_miner_def)
  define d2 where "d2 = (if 0 < fee then add_change (foldl (credit_miner b) d cs) (rb_pool b) [] fee PoolFee (rb_height b)
      else foldl (credit_miner b) d cs)"
  have "db_blocks d2 = db_blocks d" by (simp add: d2_def f)
  moreover have "fst (credit_block_rewards out d b cs fee) \<in> {d, mark_rewarded (rb_id b) d2}"
    by (cases out) (auto simp: credit_block_rewards_def finish_tx_def d2_def Let_def split: list.splits)
  ultimately show ?thesis by (auto simp: mark_rewarded_def)
qed

lemma credit_others: "others_same {rb_id b} d (fst (credit_block_rewards out d b cs fee))"
proof -
  have "others_same {rb_id b} d d'" if "db_blocks d' = map (\<lambda>r. if br_id r = rb_id b then r\<lparr>br_rewarded := True\<rparr> else r) (db_blocks d)" for d'
    unfolding others_same_def using that
    by (intro exI [of _ "\<lambda>r. if br_id r = rb_id b then r\<lparr>br_rewarded := True\<rparr> else r"]) simp
  moreover have "others_same {rb_id b} d d'" if "db_blocks d' = db_blocks d" for d'
    unfolding others_same_def using that by (intro exI [of _ id]) simp
  ultimately show ?thesis using credit_blocks [of out d b cs fee] by blast
qed

lemma id_unique: "distinct (block_ids d) \<Longrightarrow> r \<in> set (db_blocks d) \<Longrightarrow> r' \<in> set (db_blocks d) \<Longrightarrow> br_id r = br_id r' \<Longrightarrow> r = r'"
  by (auto simp: block_ids_def distinct_map dest: inj_onD)

lemma verdict_step:
  assumes "pending_in d (po_pool opts) row" and "check_block v (br_height row) (br_hash row) (po_confirm opts) = Inr c" and "v \<in> V"
  shows "fst (apply_verdict out d (to_reward_block row) c) = d \<or> processor_step opts V d (fst (apply_verdict out d (to_reward_block row) c))"
proof -
  let ?o = "confirm_defaults (po_confirm opts)" and ?h = "br_height row"
  have id: "rb_id (to_reward_block row) = br_id row" by (simp add: to_reward_block_def)
  have f: "fst (finish_tx out e () d) = d \<or> processor_step opts V d (fst (finish_tx out e () d))" if "processor_step opts V d e" for e
    using that by (cases out) (simp_all add: finish_tx_def)
  consider (idle) "cf_status c = Pending" "cf_confirmations c = 0"
    | (waits) tip where "on_chain v row tip" "tip - ?h + 1 < co_maturity_depth ?o"
        "c = \<lparr>cf_status = Pending, cf_confirmations = tip - ?h + 1,
          cf_progress = (if 1 < fdiv (f64_of_int (tip - ?h + 1)) (f64_of_int (co_maturity_depth ?o)) then 1
            else fdiv (f64_of_int (tip - ?h + 1)) (f64_of_int (co_maturity_depth ?o)))\<rparr>"
    | (confirms) tip where "on_chain v row tip" "co_maturity_depth ?o \<le> tip - ?h + 1"
        "c = \<lparr>cf_status = Confirmed, cf_confirmations = tip - ?h + 1, cf_progress = 1\<rparr>"
    | (orphans) tip where "off_chain v row tip" "co_orphan_depth ?o \<le> tip - ?h" "c = \<lparr>cf_status = Orphaned, cf_confirmations = 0, cf_progress = 0\<rparr>"
    using assms(2) unfolding check_block_def on_chain_def off_chain_def Let_def
    by (auto split: sum.splits option.splits if_splits)
  then show ?thesis
  proof cases
    case idle
    then show ?thesis by (simp add: apply_verdict_def)
  next
    case (waits tip)
    then have "0 < tip - ?h + 1" by (simp add: on_chain_def)
    then show ?thesis using f [OF Waits [OF assms(1,3) waits(1,2) refl]] by (simp add: apply_verdict_def id waits(3))
  next
    case (confirms tip)
    then show ?thesis using f [OF Confirms [OF assms(1,3) confirms(1,2)]] by (simp add: apply_verdict_def id)
  next
    case (orphans tip)
    then show ?thesis using f [OF Orphans [OF assms(1,3) orphans(1,2)]] by (simp add: apply_verdict_def id)
  qed
qed

lemma verdict_others: "others_same {rb_id b} d (fst (apply_verdict out d b c))"
  by (cases out; cases "cf_status c") (simp_all add: apply_verdict_def finish_tx_def others_same_refl update_others)

lemma verdict_status:
  assumes "snd (apply_verdict out d b c) = Inr ()" and "\<forall>r \<in> set (db_blocks d). br_id r = rb_id b \<longrightarrow> br_status r = Pending"
  shows "\<forall>r \<in> set (db_blocks (fst (apply_verdict out d b c))). br_id r = rb_id b \<longrightarrow> br_status r = cf_status c"
  using assms by (cases out; cases "cf_status c") (auto simp: apply_verdict_def finish_tx_def update_block_confirmation_def split: if_splits)

lemma confirm_blocks_spec:
  assumes "distinct (map rb_id bs)" and "distinct (block_ids d)"
    and "\<forall>b \<in> set bs. \<exists>row. pending_in d (po_pool opts) row \<and> b = to_reward_block row"
  shows "(processor_step opts (range (pe_view env)))\<^sup>*\<^sup>* d (fst (confirm_blocks opts env i d bs))
    \<and> others_same (rb_id ` set bs) d (fst (confirm_blocks opts env i d bs))
    \<and> (snd (confirm_blocks opts env i d bs) = Inr () \<longrightarrow> (\<forall>k < length bs. \<exists>c.
        check_block (pe_view env (i + k)) (rb_height (bs ! k)) (rb_hash (bs ! k)) (po_confirm opts) = Inr c
        \<and> (\<forall>r \<in> set (db_blocks (fst (confirm_blocks opts env i d bs))). br_id r = rb_id (bs ! k) \<longrightarrow> br_status r = cf_status c)))"
  using assms
proof (induction bs arbitrary: i d)
  case (Cons b bs)
  obtain row where row: "pending_in d (po_pool opts) row" "b = to_reward_block row" using Cons.prems(3) by auto
  have id: "rb_id b = br_id row" "rb_height b = br_height row" "rb_hash b = br_hash row" by (simp_all add: row(2) to_reward_block_def)
  show ?case
  proof (cases "check_block (pe_view env i) (rb_height b) (rb_hash b) (po_confirm opts)")
    case (Inr c)
    define r where "r = apply_verdict (pe_update env i) d b c"
    have st: "fst r = d \<or> processor_step opts (range (pe_view env)) d (fst r)"
      using verdict_step [OF row(1) Inr [unfolded id]] unfolding r_def row(2) by blast
    then have s: "(processor_step opts (range (pe_view env)))\<^sup>*\<^sup>* d (fst r)" by auto
    have o: "others_same {rb_id b} d (fst r)" unfolding r_def by (rule verdict_others)
    have pend: "\<forall>x \<in> set (db_blocks d). br_id x = rb_id b \<longrightarrow> br_status x = Pending"
      using row(1) id_unique [OF Cons.prems(2)] unfolding id pending_in_def by blast
    have e: "confirm_blocks opts env i d (b # bs) = (if isl (snd r) then (fst r, Inl (PassUpdate (projl (snd r))))
        else confirm_blocks opts env (Suc i) (fst r) bs)"
      by (cases r; cases "snd r") (simp_all add: Inr r_def)
    have rest: "\<forall>x \<in> set bs. \<exists>row. pending_in (fst r) (po_pool opts) row \<and> x = to_reward_block row"
    proof
      fix x assume x: "x \<in> set bs"
      then obtain w where w: "pending_in d (po_pool opts) w" "x = to_reward_block w" using Cons.prems(3) by auto
      have "br_id w = rb_id x" by (simp add: w(2) to_reward_block_def)
      then have "br_id w \<notin> {rb_id b}" using Cons.prems(1) x by force
      then have "w \<in> set (db_blocks (fst r))" using others_same_row [OF o] w(1) by (simp add: pending_in_def)
      then show "\<exists>row. pending_in (fst r) (po_pool opts) row \<and> x = to_reward_block row" using w by (auto simp: pending_in_def)
    qed
    have ih: "(processor_step opts (range (pe_view env)))\<^sup>*\<^sup>* (fst r) (fst (confirm_blocks opts env (Suc i) (fst r) bs))
      \<and> others_same (rb_id ` set bs) (fst r) (fst (confirm_blocks opts env (Suc i) (fst r) bs))
      \<and> (snd (confirm_blocks opts env (Suc i) (fst r) bs) = Inr () \<longrightarrow> (\<forall>k < length bs. \<exists>c.
        check_block (pe_view env (Suc i + k)) (rb_height (bs ! k)) (rb_hash (bs ! k)) (po_confirm opts) = Inr c
        \<and> (\<forall>x \<in> set (db_blocks (fst (confirm_blocks opts env (Suc i) (fst r) bs))). br_id x = rb_id (bs ! k) \<longrightarrow> br_status x = cf_status c)))"
      by (rule Cons.IH) (use Cons.prems(1,2) others_same_ids [OF o] rest in simp_all)
    show ?thesis
    proof (cases "isl (snd r)")
      case True
      have "others_same (rb_id ` set (b # bs)) d (fst r)" using o by (auto simp: others_same_def)
      moreover have "confirm_blocks opts env i d (b # bs) = (fst r, Inl (PassUpdate (projl (snd r))))" using e True by simp
      ultimately show ?thesis using s by (simp only: fst_conv snd_conv sum.distinct) simp
    next
      case False
      let ?e = "confirm_blocks opts env (Suc i) (fst r) bs"
      have e: "confirm_blocks opts env i d (b # bs) = ?e" using e False by simp
      have "snd r = Inr ()" using False by (cases "snd r") simp_all
      then have status: "\<forall>x \<in> set (db_blocks (fst r)). br_id x = rb_id b \<longrightarrow> br_status x = cf_status c"
        using verdict_status [OF _ pend, of "pe_update env i" c] by (simp add: r_def)
      have "rb_id b \<notin> rb_id ` set bs" using Cons.prems(1) by auto
      have head: "\<forall>x \<in> set (db_blocks (fst ?e)). br_id x = rb_id b \<longrightarrow> br_status x = cf_status c"
      proof (intro ballI impI)
        fix x assume x: "x \<in> set (db_blocks (fst ?e))" "br_id x = rb_id b"
        then have "br_id x \<notin> rb_id ` set bs" using \<open>rb_id b \<notin> rb_id ` set bs\<close> by simp
        then have "x \<in> set (db_blocks (fst r))" using others_same_row [OF conjunct1 [OF conjunct2 [OF ih]]] x(1) by blast
        then show "br_status x = cf_status c" using status x(2) by blast
      qed
      have "\<forall>k < length (b # bs). \<exists>c. check_block (pe_view env (i + k)) (rb_height ((b # bs) ! k)) (rb_hash ((b # bs) ! k)) (po_confirm opts) = Inr c
        \<and> (\<forall>x \<in> set (db_blocks (fst ?e)). br_id x = rb_id ((b # bs) ! k) \<longrightarrow> br_status x = cf_status c)" if "snd ?e = Inr ()"
      proof (intro allI impI)
        fix k assume k: "k < length (b # bs)"
        show "\<exists>c. check_block (pe_view env (i + k)) (rb_height ((b # bs) ! k)) (rb_hash ((b # bs) ! k)) (po_confirm opts) = Inr c
          \<and> (\<forall>x \<in> set (db_blocks (fst ?e)). br_id x = rb_id ((b # bs) ! k) \<longrightarrow> br_status x = cf_status c)"
          using ih that head Inr k by (cases k) auto
      qed
      moreover have "others_same (rb_id ` set (b # bs)) d (fst ?e)" using others_same_trans [OF o, of "rb_id ` set bs"] ih by simp
      ultimately show ?thesis unfolding e using ih s rtranclp_trans [OF s] by blast
    qed
  qed (simp add: others_same_refl)
qed (simp add: others_same_refl)

lemma credit_rewards:
  assumes "snd (credit_block_rewards out d b cs fee) = Inr ()" and "distinct (block_ids d)"
  shows "\<forall>r \<in> set (db_blocks (fst (credit_block_rewards out d b cs fee))). br_id r = rb_id b \<longrightarrow> br_rewarded r"
proof -
  obtain x xs where x: "filter (\<lambda>r. br_id r = rb_id b) (db_blocks d) = x # xs"
    using assms(1) by (cases "filter (\<lambda>r. br_id r = rb_id b) (db_blocks d)") (auto simp: credit_block_rewards_def split: if_splits)
  then have "x \<in> set (filter (\<lambda>r. br_id r = rb_id b) (db_blocks d))" by simp
  then have mem: "x \<in> set (db_blocks d)" "br_id x = rb_id b" by simp_all
  show ?thesis
  proof (cases "br_rewarded x")
    case True
    then have "fst (credit_block_rewards out d b cs fee) = d" by (simp add: credit_block_rewards_def x)
    then show ?thesis using id_unique [OF assms(2) mem(1)] mem(2) True by auto
  next
    case False
    define e where "e = foldl (credit_miner b) d cs"
    have "db_blocks e = db_blocks d" unfolding e_def by (induction cs arbitrary: d) (simp_all add: credit_miner_def)
    then have "db_blocks (if 0 < fee then add_change e (rb_pool b) [] fee PoolFee (rb_height b) else e) = db_blocks d" by simp
    moreover have "fst (credit_block_rewards out d b cs fee)
        = mark_rewarded (rb_id b) (if 0 < fee then add_change e (rb_pool b) [] fee PoolFee (rb_height b) else e)"
      using assms(1) False by (cases out) (simp_all add: credit_block_rewards_def x finish_tx_def Let_def e_def)
    ultimately show ?thesis by (auto simp: mark_rewarded_def)
  qed
qed

lemma reward_blocks_spec:
  assumes "distinct (map rb_id bs)" and "distinct (block_ids d)"
    and "\<forall>b \<in> set bs. \<exists>row. creditable_in d (po_pool opts) row \<and> b = to_reward_block row"
  shows "(processor_step opts V)\<^sup>*\<^sup>* d (fst (reward_blocks opts env i d bs))
    \<and> others_same (rb_id ` set bs) d (fst (reward_blocks opts env i d bs))
    \<and> map br_status (db_blocks (fst (reward_blocks opts env i d bs))) = map br_status (db_blocks d)
    \<and> (snd (reward_blocks opts env i d bs) = Inr () \<longrightarrow>
        (\<forall>r \<in> set (db_blocks (fst (reward_blocks opts env i d bs))). br_id r \<in> rb_id ` set bs \<longrightarrow> br_rewarded r))"
  using assms
proof (induction bs arbitrary: i d)
  case (Cons b bs)
  obtain row where row: "creditable_in d (po_pool opts) row" "b = to_reward_block row" using Cons.prems(3) by auto
  have id: "rb_reward b = br_reward_sats row" by (simp add: row(2) to_reward_block_def)
  obtain paid fee where f: "apply_fee (rb_reward b) (po_fee_percent opts) = (paid, fee)"
    by (cases "apply_fee (rb_reward b) (po_fee_percent opts)")
  show ?case
  proof (cases "calculate (po_calculator opts) (db_source (pe_fails env i) d) b paid")
    case (Inl e)
    then show ?thesis by (simp add: f others_same_def) (auto intro: exI [of _ id])
  next
    case (Inr credits)
    define r where "r = credit_block_rewards (pe_credit env i) d b credits fee"
    have st: "processor_step opts V d (fst r)"
      using Credits [OF row(1)] f [unfolded id] Inr unfolding r_def row(2) by blast
    have o: "others_same {rb_id b} d (fst r)" unfolding r_def by (rule credit_others)
    have sm: "map br_status (db_blocks (fst r)) = map br_status (db_blocks d)"
      using credit_blocks [of "pe_credit env i" d b credits fee] unfolding r_def by auto
    have e: "reward_blocks opts env i d (b # bs) = (if isl (snd r) then (fst r, Inl (PassCredit (projl (snd r))))
        else reward_blocks opts env (Suc i) (fst r) bs)"
      by (cases r; cases "snd r") (simp_all add: Inr r_def f)
    have rest: "\<forall>x \<in> set bs. \<exists>row. creditable_in (fst r) (po_pool opts) row \<and> x = to_reward_block row"
    proof
      fix x assume x: "x \<in> set bs"
      then obtain w where w: "creditable_in d (po_pool opts) w" "x = to_reward_block w" using Cons.prems(3) by auto
      have "br_id w = rb_id x" by (simp add: w(2) to_reward_block_def)
      then have "br_id w \<notin> {rb_id b}" using Cons.prems(1) x by force
      then have "w \<in> set (db_blocks (fst r))" using others_same_row [OF o] w(1) by (simp add: creditable_in_def)
      then show "\<exists>row. creditable_in (fst r) (po_pool opts) row \<and> x = to_reward_block row" using w by (auto simp: creditable_in_def)
    qed
    let ?e = "reward_blocks opts env (Suc i) (fst r) bs"
    have ih: "(processor_step opts V)\<^sup>*\<^sup>* (fst r) (fst ?e) \<and> others_same (rb_id ` set bs) (fst r) (fst ?e)
      \<and> map br_status (db_blocks (fst ?e)) = map br_status (db_blocks (fst r))
      \<and> (snd ?e = Inr () \<longrightarrow> (\<forall>x \<in> set (db_blocks (fst ?e)). br_id x \<in> rb_id ` set bs \<longrightarrow> br_rewarded x))"
      by (rule Cons.IH) (use Cons.prems(1,2) others_same_ids [OF o] rest in simp_all)
    show ?thesis
    proof (cases "isl (snd r)")
      case True
      have "others_same (rb_id ` set (b # bs)) d (fst r)" using o by (auto simp: others_same_def)
      moreover have "reward_blocks opts env i d (b # bs) = (fst r, Inl (PassCredit (projl (snd r))))" using e True by simp
      ultimately show ?thesis using st sm by (simp only: fst_conv snd_conv sum.distinct) simp
    next
      case False
      have e: "reward_blocks opts env i d (b # bs) = ?e" using e False by simp
      have "snd r = Inr ()" using False by (cases "snd r") simp_all
      then have rewarded: "\<forall>x \<in> set (db_blocks (fst r)). br_id x = rb_id b \<longrightarrow> br_rewarded x"
        using credit_rewards Cons.prems(2) unfolding r_def by blast
      have "br_rewarded x" if "x \<in> set (db_blocks (fst ?e))" "br_id x \<in> rb_id ` set (b # bs)" "snd ?e = Inr ()" for x
      proof (cases "br_id x \<in> rb_id ` set bs")
        case True
        then show ?thesis using ih that by blast
      next
        case False
        then have "x \<in> set (db_blocks (fst r))" "br_id x = rb_id b"
          using others_same_row [OF conjunct1 [OF conjunct2 [OF ih]] False] that by auto
        then show ?thesis using rewarded by blast
      qed
      moreover have "others_same (rb_id ` set (b # bs)) d (fst ?e)" using others_same_trans [OF o, of "rb_id ` set bs"] ih by simp
      moreover have "(processor_step opts V)\<^sup>*\<^sup>* d (fst ?e)" using ih st by (meson converse_rtranclp_into_rtranclp)
      ultimately show ?thesis unfolding e using ih sm by simp
    qed
  qed
qed (simp add: others_same_refl)

lemma confirm_pass_spec:
  assumes "distinct (block_ids d)"
  shows "(processor_step opts (range (pe_view env)))\<^sup>*\<^sup>* d (fst (confirm_pass opts env d))"
    and "block_ids (fst (confirm_pass opts env d)) = block_ids d"
    and "snd (confirm_pass opts env d) = Inr () \<Longrightarrow> pending_in d (po_pool opts) row \<Longrightarrow>
      \<exists>k c. check_block (pe_view env k) (br_height row) (br_hash row) (po_confirm opts) = Inr c
        \<and> (\<forall>r \<in> set (db_blocks (fst (confirm_pass opts env d))). br_id r = br_id row \<longrightarrow> br_status r = cf_status c)"
proof -
  let ?bs = "unconfirmed_blocks d (po_pool opts)"
  have ids: "distinct (map rb_id ?bs)"
    using assms distinct_map_filter [of br_id "db_blocks d"]
    by (simp add: unconfirmed_blocks_def to_reward_block_def comp_def block_ids_def distinct_map inj_on_def)
  have rows: "\<forall>b \<in> set ?bs. \<exists>row. pending_in d (po_pool opts) row \<and> b = to_reward_block row"
    by (auto simp: unconfirmed_blocks_def pending_in_def)
  note spec = confirm_blocks_spec [OF ids assms rows, of env 0]
  show "(processor_step opts (range (pe_view env)))\<^sup>*\<^sup>* d (fst (confirm_pass opts env d))"
    using conjunct1 [OF spec] by (simp add: confirm_pass_def)
  show "block_ids (fst (confirm_pass opts env d)) = block_ids d"
    using others_same_ids [OF conjunct1 [OF conjunct2 [OF spec]]] by (simp add: confirm_pass_def)
  show "\<exists>k c. check_block (pe_view env k) (br_height row) (br_hash row) (po_confirm opts) = Inr c
      \<and> (\<forall>r \<in> set (db_blocks (fst (confirm_pass opts env d))). br_id r = br_id row \<longrightarrow> br_status r = cf_status c)"
    if ok: "snd (confirm_pass opts env d) = Inr ()" and row: "pending_in d (po_pool opts) row"
  proof -
    have e: "confirm_pass opts env d = confirm_blocks opts env 0 d ?bs" using ok by (simp add: confirm_pass_def split: if_splits)
    have "to_reward_block row \<in> set ?bs" using row by (auto simp: unconfirmed_blocks_def pending_in_def)
    then obtain k where k: "k < length ?bs" "?bs ! k = to_reward_block row" by (auto simp: in_set_conv_nth)
    have "\<forall>k < length ?bs. \<exists>c. check_block (pe_view env (0 + k)) (rb_height (?bs ! k)) (rb_hash (?bs ! k)) (po_confirm opts) = Inr c
        \<and> (\<forall>r \<in> set (db_blocks (fst (confirm_pass opts env d))). br_id r = rb_id (?bs ! k) \<longrightarrow> br_status r = cf_status c)"
      using mp [OF conjunct2 [OF conjunct2 [OF spec]]] ok unfolding e by blast
    from this [rule_format, OF k(1)] show ?thesis
      unfolding k(2) by (simp add: to_reward_block_def) blast
  qed
qed

lemma reward_pass_spec:
  assumes "distinct (block_ids d)"
  shows "(processor_step opts V)\<^sup>*\<^sup>* d (fst (reward_pass opts env d))"
    and "block_ids (fst (reward_pass opts env d)) = block_ids d"
    and "r \<in> set (db_blocks (fst (reward_pass opts env d))) \<Longrightarrow> \<exists>q \<in> set (db_blocks d). br_id q = br_id r \<and> br_status q = br_status r"
    and "snd (reward_pass opts env d) = Inr () \<Longrightarrow> r \<in> set (db_blocks (fst (reward_pass opts env d))) \<Longrightarrow>
      br_pool r = po_pool opts \<Longrightarrow> br_status r = Confirmed \<Longrightarrow> br_rewarded r"
proof -
  let ?bs = "confirmed_unrewarded d (po_pool opts)"
  define d' where "d' = fst (reward_pass opts env d)"
  have ids: "distinct (map rb_id ?bs)"
    using assms by (simp add: confirmed_unrewarded_def to_reward_block_def comp_def block_ids_def distinct_map inj_on_def)
  have rows: "\<forall>b \<in> set ?bs. \<exists>row. creditable_in d (po_pool opts) row \<and> b = to_reward_block row"
    by (auto simp: confirmed_unrewarded_def creditable_in_def)
  note spec = reward_blocks_spec [OF ids assms rows, of V env 0]
  show "(processor_step opts V)\<^sup>*\<^sup>* d (fst (reward_pass opts env d))"
    using conjunct1 [OF spec] by (simp add: reward_pass_def)
  have os: "others_same (rb_id ` set ?bs) d d'"
    using conjunct1 [OF conjunct2 [OF spec]] others_same_refl by (simp add: reward_pass_def d'_def)
  then show "block_ids (fst (reward_pass opts env d)) = block_ids d" unfolding d'_def by (rule others_same_ids)
  obtain f where f: "db_blocks d' = map f (db_blocks d)" "\<forall>r. br_id (f r) = br_id r \<and> br_pool (f r) = br_pool r"
    using os unfolding others_same_def by blast
  have sm: "map br_status (db_blocks d') = map br_status (db_blocks d)"
    using conjunct1 [OF conjunct2 [OF conjunct2 [OF spec]]] by (simp add: reward_pass_def d'_def)
  have origin: "\<exists>q \<in> set (db_blocks d). br_id q = br_id r \<and> br_pool q = br_pool r \<and> br_status q = br_status r" if r: "r \<in> set (db_blocks d')" for r
  proof -
    obtain q where "q \<in> set (db_blocks d)" "r = f q" using r f(1) by auto
    moreover have "br_status (f q) = br_status q" using sm f(1) calculation(1) by (auto simp: map_eq_conv)
    ultimately show ?thesis using f(2) by auto
  qed
  show "\<exists>q \<in> set (db_blocks d). br_id q = br_id r \<and> br_status q = br_status r" if "r \<in> set (db_blocks (fst (reward_pass opts env d)))"
    using origin that unfolding d'_def by blast
  show "br_rewarded r" if ok: "snd (reward_pass opts env d) = Inr ()" and r: "r \<in> set (db_blocks (fst (reward_pass opts env d)))"
      "br_pool r = po_pool opts" "br_status r = Confirmed"
  proof (rule ccontr)
    assume n: "\<not> br_rewarded r"
    have e: "reward_pass opts env d = reward_blocks opts env 0 d ?bs" using ok by (simp add: reward_pass_def split: if_splits)
    have out: "br_id r \<notin> rb_id ` set ?bs" using conjunct2 [OF conjunct2 [OF conjunct2 [OF spec]]] ok r(1) n unfolding e by blast
    then have "r \<in> set (db_blocks d)" using others_same_row [OF os] r(1) unfolding d'_def by blast
    then have "to_reward_block r \<in> set ?bs" using r n by (auto simp: confirmed_unrewarded_def)
    then show False using out by (force simp: to_reward_block_def)
  qed
qed

lemma pass_is_both:
  "fst (processor_pass opts env d) = (if isl (snd (confirm_pass opts env d)) then fst (confirm_pass opts env d)
     else fst (reward_pass opts env (fst (confirm_pass opts env d))))"
  by (cases "confirm_pass opts env d"; cases "snd (confirm_pass opts env d)") (simp_all add: processor_pass_def)

lemma run_Cons: "processor_run opts (env # envs) d = processor_run opts envs (fst (processor_pass opts env d))"
  by (simp add: processor_run_def)

lemma run_ledger_steps: "ledger_step\<^sup>*\<^sup>* d (processor_run opts envs d)"
proof (induction envs arbitrary: d)
  case (Cons env envs)
  have "ledger_step\<^sup>*\<^sup>* d (fst (confirm_pass opts env d))"
    using confirm_blocks_steps [of d opts env 0] by (simp add: confirm_pass_def)
  moreover have "ledger_step\<^sup>*\<^sup>* e (fst (reward_pass opts env e))" for e
    using reward_blocks_steps [of "confirmed_unrewarded e (po_pool opts)" e opts env 0]
    by (auto simp: reward_pass_def confirmed_unrewarded_def block_facts_def)
  ultimately have "ledger_step\<^sup>*\<^sup>* d (fst (processor_pass opts env d))"
    unfolding pass_is_both using rtranclp_trans [of ledger_step] by auto
  then show ?case unfolding run_Cons using rtranclp_trans [OF _ Cons.IH] by blast
qed (simp add: processor_run_def)

lemma pass_processor_steps:
  assumes "distinct (block_ids d)"
  shows "(processor_step opts (range (pe_view env)))\<^sup>*\<^sup>* d (fst (processor_pass opts env d))"
    and "block_ids (fst (processor_pass opts env d)) = block_ids d"
proof -
  have dc: "distinct (block_ids (fst (confirm_pass opts env d)))" by (simp only: confirm_pass_spec(2) [OF assms] assms)
  show "(processor_step opts (range (pe_view env)))\<^sup>*\<^sup>* d (fst (processor_pass opts env d))"
    unfolding pass_is_both using confirm_pass_spec(1) [OF assms, of opts env]
      rtranclp_trans [OF confirm_pass_spec(1) [OF assms, of opts env] reward_pass_spec(1) [OF dc, of opts "range (pe_view env)" env]]
    by simp
  show "block_ids (fst (processor_pass opts env d)) = block_ids d"
    unfolding pass_is_both by (simp add: confirm_pass_spec(2) [OF assms] reward_pass_spec(2) [OF dc])
qed

lemma run_processor_steps:
  "distinct (block_ids d) \<Longrightarrow>
   (processor_step opts (\<Union>env \<in> set envs. range (pe_view env)))\<^sup>*\<^sup>* d (processor_run opts envs d)"
proof (induction envs arbitrary: d)
  case (Cons env envs)
  let ?V = "\<Union>env \<in> set (env # envs). range (pe_view env)"
  have "(processor_step opts ?V)\<^sup>*\<^sup>* d (fst (processor_pass opts env d))"
    by (rule processor_steps_mono [OF _ pass_processor_steps(1) [OF Cons.prems]]) auto
  moreover have "distinct (block_ids (fst (processor_pass opts env d)))" by (simp only: pass_processor_steps(2) [OF Cons.prems] Cons.prems)
  then have "(processor_step opts ?V)\<^sup>*\<^sup>* (fst (processor_pass opts env d)) (processor_run opts (env # envs) d)"
    unfolding run_Cons by (intro processor_steps_mono [OF _ Cons.IH]) auto
  ultimately show ?case by (rule rtranclp_trans)
qed (simp add: processor_run_def)

text \<open>
  C5: the reward processor does what it is specified to do, and nothing else. Whatever the daemon answers and whichever statements fail or
  commit unseen, every run of passes, those cut short by an error included, is a sequence of the accounting steps whose conservation of money
  is proved; and, the ids of the block rows being distinct, as their column is the primary key, it is a sequence of the steps of the
  specification: a pending block of the pool waits, is confirmed or is orphaned exactly as a view of the chain says, at the depths of the
  options, and only blocks that are confirmed and not rewarded are credited, the miners and the pool getting what the calculator and the fee
  make of the reward. After a pass without an error, every block that was pending has the status of its check, and no confirmed block of the
  pool is left without its reward.
\<close>

theorem processor_refines_ledger:
  "ledger_step\<^sup>*\<^sup>* d (processor_run opts envs d)
   \<and> (distinct (block_ids d) \<longrightarrow>
       (processor_step opts (\<Union>env \<in> set envs. range (pe_view env)))\<^sup>*\<^sup>* d (processor_run opts envs d)
     \<and> (snd (processor_pass opts env d) = Inr () \<longrightarrow>
         (\<forall>row. pending_in d (po_pool opts) row \<longrightarrow>
            (\<exists>k c. check_block (pe_view env k) (br_height row) (br_hash row) (po_confirm opts) = Inr c
               \<and> (\<forall>r \<in> set (db_blocks (fst (processor_pass opts env d))). br_id r = br_id row \<longrightarrow> br_status r = cf_status c)))
       \<and> (\<forall>r \<in> set (db_blocks (fst (processor_pass opts env d))).
            br_pool r = po_pool opts \<and> br_status r = Confirmed \<longrightarrow> br_rewarded r)))"
proof (intro conjI impI)
  show "ledger_step\<^sup>*\<^sup>* d (processor_run opts envs d)" by (rule run_ledger_steps)
next
  assume d: "distinct (block_ids d)"
  show "(processor_step opts (\<Union>env \<in> set envs. range (pe_view env)))\<^sup>*\<^sup>* d (processor_run opts envs d)"
    by (rule run_processor_steps [OF d])
  assume ok: "snd (processor_pass opts env d) = Inr ()"
  define c where "c = fst (confirm_pass opts env d)"
  have cp: "snd (confirm_pass opts env d) = Inr ()" and rp: "snd (reward_pass opts env c) = Inr ()"
      and e: "fst (processor_pass opts env d) = fst (reward_pass opts env c)"
    using ok by (cases "confirm_pass opts env d"; cases "snd (confirm_pass opts env d)"; simp add: processor_pass_def c_def)+
  have dc: "distinct (block_ids c)" by (simp only: c_def confirm_pass_spec(2) [OF d] d)
  show "\<forall>row. pending_in d (po_pool opts) row \<longrightarrow>
      (\<exists>k x. check_block (pe_view env k) (br_height row) (br_hash row) (po_confirm opts) = Inr x
         \<and> (\<forall>r \<in> set (db_blocks (fst (processor_pass opts env d))). br_id r = br_id row \<longrightarrow> br_status r = cf_status x))"
    unfolding e using confirm_pass_spec(3) [OF d cp] reward_pass_spec(3) [OF dc] unfolding c_def by metis
  show "\<forall>r \<in> set (db_blocks (fst (processor_pass opts env d))). br_pool r = po_pool opts \<and> br_status r = Confirmed \<longrightarrow> br_rewarded r"
    unfolding e using reward_pass_spec(4) [OF dc rp] by blast
qed

text \<open>A pending block eleven deep with a required depth of ten, and a daemon that has it.\<close>

definition sample_pending :: db where
  "sample_pending = empty_db\<lparr>db_blocks := [sample_block\<lparr>br_status := Pending\<rparr>]\<rparr>"

definition solo_options :: processor_options where
  "solo_options = \<lparr>po_pool = ''btc'', po_calculator = Solo, po_fee_percent = 1,
     po_confirm = \<lparr>co_maturity_depth = 10, co_orphan_depth = 6\<rparr>\<rparr>"

definition solo_pass_env :: "unit pass_env" where
  "solo_pass_env = \<lparr>pe_unconfirmed_ok = True,
     pe_view = (\<lambda>k. \<lparr>cv_tip_height = Inr 840010, cv_block_hash_at = (\<lambda>h. Inr (Some (br_hash sample_block)))\<rparr>),
     pe_update = (\<lambda>k. TxCommitted), pe_unrewarded_ok = True, pe_fails = (\<lambda>k q. False), pe_credit = (\<lambda>k. TxCommitted)\<rparr>"

theorem processor_refines_ledger_witness:
  "\<exists>r. processor_pass solo_options solo_pass_env sample_pending = (fst (processor_pass solo_options solo_pass_env sample_pending), Inr ())
     \<and> db_blocks (fst (processor_pass solo_options solo_pass_env sample_pending)) = [r] \<and> br_status r = Confirmed \<and> br_rewarded r"
proof -
  let ?p = "processor_pass solo_options solo_pass_env sample_pending" and ?row = "sample_block\<lparr>br_status := Pending\<rparr>"
  have ok: "snd ?p = Inr ()" by code_simp
  have d: "distinct (block_ids sample_pending)" by code_simp
  have c: "check_block (pe_view solo_pass_env k) (br_height ?row) (br_hash ?row) (po_confirm solo_options)
      = Inr \<lparr>cf_status = Confirmed, cf_confirmations = 11, cf_progress = 1\<rparr>" for k
    unfolding solo_pass_env_def by code_simp
  have p: "pending_in sample_pending (po_pool solo_options) ?row"
    by (simp add: pending_in_def sample_pending_def solo_options_def sample_block_def)
  have "map (\<lambda>r. (br_id r, br_pool r)) (db_blocks (fst ?p)) = [(1, ''btc'')]" by code_simp
  then obtain r where r: "db_blocks (fst ?p) = [r]" "br_id r = br_id ?row" "br_pool r = po_pool solo_options"
    by (auto simp: sample_block_def solo_options_def)
  note spec = mp [OF conjunct2 [OF mp [OF conjunct2 [OF processor_refines_ledger [of sample_pending solo_options "[]" solo_pass_env]] d]] ok]
  have "\<exists>k x. check_block (pe_view solo_pass_env k) (br_height ?row) (br_hash ?row) (po_confirm solo_options) = Inr x
      \<and> (\<forall>r \<in> set (db_blocks (fst ?p)). br_id r = br_id ?row \<longrightarrow> br_status r = cf_status x)"
    using conjunct1 [OF spec] p by blast
  then have s: "br_status r = Confirmed" unfolding c r(1) using r(2) by auto
  have "br_rewarded r" using conjunct2 [OF spec] r s by simp
  with ok r(1) s show ?thesis by (intro exI [of _ r]) (simp add: prod_eq_iff)
qed

text \<open>
  C6: no block is credited twice. Once the credit transaction of a block has committed, even when
  the client saw an error, crediting that block again changes nothing, whatever credits and fee
  are computed the second time and however the second transaction ends.
\<close>

theorem credit_idempotent:
  assumes "r \<in> set (db_blocks d)" and "out \<noteq> TxRolledBack"
  shows "fst (credit_block_rewards out' (fst (credit_block_rewards out d (to_reward_block r) cs fee))
            (to_reward_block r) cs' fee')
       = fst (credit_block_rewards out d (to_reward_block r) cs fee)"
proof -
  define d' where "d' = fst (credit_block_rewards out d (to_reward_block r) cs fee)"
  have f: "db_blocks (foldl (credit_miner (to_reward_block r)) d cs) = db_blocks d"
    by (induction cs arbitrary: d) (simp_all add: credit_miner_def)
  have "\<exists>x xs. filter (\<lambda>x. br_id x = br_id r) (db_blocks d) = x # xs"
    using assms(1) by (metis (mono_tags, lifting) filter_empty_conv neq_Nil_conv)
  then obtain x xs where x: "filter (\<lambda>x. br_id x = br_id r) (db_blocks d) = x # xs" by blast
  have id: "rb_id (to_reward_block r) = br_id r" by (simp add: to_reward_block_def)
  have fm: "filter (\<lambda>x. br_id x = i) (map (\<lambda>x. if br_id x = i then x\<lparr>br_rewarded := True\<rparr> else x) bs)
      = map (\<lambda>x. x\<lparr>br_rewarded := True\<rparr>) (filter (\<lambda>x. br_id x = i) bs)" for i bs
    by (induction bs) auto
  define d2 where "d2 = (let d1 = foldl (credit_miner (to_reward_block r)) d cs
    in if 0 < fee then add_change d1 (rb_pool (to_reward_block r)) [] fee PoolFee (rb_height (to_reward_block r)) else d1)"
  have b2: "db_blocks d2 = db_blocks d" by (simp add: d2_def Let_def f)
  have d': "d' = (if br_rewarded x then d else mark_rewarded (br_id r) d2)"
    using assms(2) unfolding d'_def credit_block_rewards_def id x d2_def by (cases out) (simp_all add: finish_tx_def Let_def)
  have "\<exists>y ys. filter (\<lambda>x. br_id x = br_id r) (db_blocks d') = y # ys \<and> br_rewarded y"
    unfolding d' using x by (simp add: mark_rewarded_def b2 fm)
  then show ?thesis unfolding d'_def [symmetric] by (auto simp: credit_block_rewards_def id)
qed

theorem credit_idempotent_witness:
  "fst (credit_block_rewards TxCommitted history2 (to_reward_block sample_block) [\<lparr>cr_miner = ''a'', cr_amount = 990\<rparr>] 10)
     = history2"
  unfolding history2_def
  by (rule credit_idempotent) (simp_all add: history1_def)

end
