(* ===== verification/Wiring.thy ===== *)
theory Wiring
  imports Api Server ShareWriter Payouts Processor
begin

text \<open>
  The three programs under \<open>cmd\<close>: how \<open>stratumd\<close> builds a node from its configuration, which
  backends a recorded event reaches, what the master does with an event it consumes, and which pools
  \<open>rewardd\<close> and \<open>payoutd\<close> take up. The connections to PostgreSQL, NATS and
  the daemons are taken to be made; how the processes start, exit and shut down is the \<open>Daemon\<close> theory. The text of an error is an argument.
\<close>

subsection \<open>Adapters\<close>

datatype wiring_error =
    NoCoinConfig string
  | NoRpcUrl string
  | CoinNotImplemented string
  | AdapterError adapter_error
  | BadPaymentMode string

definition pool_adapter_options :: "pool_config \<Rightarrow> adapter_options" where
  "pool_adapter_options p =
     \<lparr>ao_has_rpc = True, ao_pool_address = pc_address p, ao_tag = pc_coinbase_tag p, ao_en1_size = 0, ao_en2_size = 0\<rparr>"

text \<open>\<open>randomxBackend\<close> returns nil in this build.\<close>

definition randomx_backend :: "(bytes \<Rightarrow> bytes \<Rightarrow> string + bytes) option" where
  "randomx_backend = None"

text \<open>The switch on the coin's symbol that \<open>stratumd\<close> and \<open>payoutd\<close> share.\<close>

definition coin_adapter_for ::
  "pow_hash \<Rightarrow> (bytes \<Rightarrow> bytes) \<Rightarrow> int \<Rightarrow> coin_config \<Rightarrow> pool_config \<Rightarrow> wiring_error + adapter" where
  "coin_adapter_for scrypt_hash blake2b_256 epoch coin p =
     (let symbol = to_upper (co_symbol coin); opts = pool_adapter_options p;
          wrap = (\<lambda>r. case r of Inl e \<Rightarrow> Inl (AdapterError e) | Inr a \<Rightarrow> Inr a)
      in if symbol = ''BTC'' then wrap (new_btc (co_network coin) opts)
         else if symbol = ''LTC'' then wrap (new_ltc scrypt_hash (co_network coin) opts)
         else if symbol = ''RXD'' then wrap (new_rxd (co_network coin) opts)
         else if symbol = ''SCASH'' then wrap (new_scash blake2b_256 randomx_backend epoch (co_network coin) opts)
         else Inl (CoinNotImplemented (co_symbol coin)))"

definition build_adapter :: "pow_hash \<Rightarrow> (bytes \<Rightarrow> bytes) \<Rightarrow> config \<Rightarrow> pool_config \<Rightarrow> wiring_error + adapter" where
  "build_adapter scrypt_hash blake2b_256 cfg p =
     (case coin_by_symbol (cf_coins cfg) (pc_coin_symbol p) of None \<Rightarrow> Inl (NoCoinConfig (pc_coin_symbol p))
      | Some coin \<Rightarrow>
        if co_rpc_url coin = [] then Inl (NoRpcUrl (co_symbol coin))
        else coin_adapter_for scrypt_hash blake2b_256 (co_randomx_epoch_duration coin) coin p)"

subsection \<open>Starting a node\<close>

record startup =
  su_coins :: "string \<Rightarrow> coin_adapter option"
  su_registry :: registry
  su_failures :: "(string \<times> wiring_error) list"
  su_lifecycle :: lifecycle

definition wire_pool :: "(pool_config \<Rightarrow> wiring_error + adapter) \<Rightarrow> startup \<Rightarrow> pool_config \<Rightarrow> startup" where
  "wire_pool build su p =
     (if \<not> pc_enabled p then su
      else case build p of
        Inl e \<Rightarrow> su\<lparr>su_failures := su_failures su @ [(pc_id p, e)]\<rparr>
      | Inr a \<Rightarrow>
        su\<lparr>su_coins := (su_coins su)(pc_id p \<mapsto> bitcoinlike_coin a),
           su_registry := registry_add (su_registry su) (new_manager (pc_id p)),
           su_lifecycle := fst (set_poller (su_lifecycle su) (pc_id p))\<rparr>)"

definition adapter_unavailable :: "(wiring_error \<Rightarrow> string) \<Rightarrow> wiring_error \<Rightarrow> string" where
  "adapter_unavailable err_text e = ''adapter unavailable: '' @ err_text e"

text \<open>The wiring loop, \<open>lifecycle.Start\<close>, and maintenance for the pools without an adapter. Pool ids are
  distinct, so the order in which the code visits the map of failures does not matter.\<close>

definition start_pools ::
  "(wiring_error \<Rightarrow> string) \<Rightarrow> (pool_config \<Rightarrow> wiring_error + adapter) \<Rightarrow> int \<Rightarrow> pool_config list \<Rightarrow> startup" where
  "start_pools err_text build now pools =
     (let su = foldl (wire_pool build)
            \<lparr>su_coins = Map.empty, su_registry = Map.empty, su_failures = [], su_lifecycle = new_lifecycle now pools\<rparr> pools
      in su\<lparr>su_lifecycle := foldl (\<lambda>lc (i, e). fst (put_pool_in_maintenance now lc i (adapter_unavailable err_text e)))
            (lifecycle_start (su_lifecycle su)) (su_failures su)\<rparr>)"

definition node_prefix :: "string \<Rightarrow> bytes" where
  "node_prefix node_id = (if node_id = [] then [0, 0] else take 2 (sha256 (bytes_of_string node_id)))"

definition ban_config_of :: "banning_config \<Rightarrow> ban_config" where
  "ban_config_of b =
     \<lparr>bc_enabled = ba_enabled b, bc_invalid_percent = ba_invalid_percent b, bc_check_threshold = ba_check_threshold b,
      bc_malformed_threshold = ba_malformed_threshold b, bc_failed_auth_threshold = ba_failed_auth_threshold b,
      bc_ban_duration = ba_ban_duration b\<rparr>"

text \<open>The front-end of the node, its registry with the recorder and the broadcaster wired. The adapter of a pool
  without a manager is never asked for.\<close>

definition start_node :: "startup \<Rightarrow> config \<Rightarrow> stratum" where
  "start_node su cfg =
     set_ban_manager
       (new_stratum (cf_stratum cfg) (su_lifecycle su) (node_prefix (cf_node_id cfg))
         (Some (registry_set_broadcaster (registry_set_recorder (su_registry su) True))) (\<lambda>i. the (su_coins su i)))
       (new_ban_manager (ban_config_of (cf_banning cfg)))"

definition writer_options_of :: "postgres_config \<Rightarrow> writer_options" where
  "writer_options_of pg =
     \<lparr>wo_queue_size = pg_share_queue_size pg, wo_batch_size = pg_share_batch_size pg,
      wo_flush_interval = pg_share_flush_interval pg, wo_wal_max_bytes = pg_share_wal_max_bytes pg, wo_wal_drain_interval = 0\<rparr>"

subsection \<open>Recorders\<close>

datatype recorder = RecStats | RecStorage string | RecNats

definition recorders :: "config \<Rightarrow> recorder list" where
  "recorders cfg =
     RecStats # (if pg_enabled (cf_postgres cfg) then [RecStorage (cf_region cfg)] else [])
     @ (if na_enabled (cf_nats cfg) \<and> (cf_mode cfg = mode_regional \<or> (cf_mode cfg = mode_all_in_one \<and> \<not> pg_enabled (cf_postgres cfg)))
        then [RecNats] else [])"

text \<open>What a recorded event may reach; an absent backend is \<open>None\<close>.\<close>

record backends =
  bk_stats :: collector
  bk_writer :: "share_writer option"
  bk_store :: "db option"
  bk_publisher :: "publisher option"

text \<open>What the environment decides when one event is recorded.\<close>

record record_env =
  re_now :: int
  re_new_id :: string
  re_wal :: write_result
  re_insert_ok :: bool
  re_block_id :: int
  re_publish :: async_outcome
  re_spool :: write_result

definition storage_share :: "string \<Rightarrow> share_event \<Rightarrow> share_record" where
  "storage_share region ev =
     \<lparr>hr_id = [], hr_pool = se_pool_id ev, hr_height = se_block_height ev, hr_difficulty = se_worker_diff ev,
      hr_network_difficulty = se_network_difficulty ev, hr_miner = se_miner ev, hr_worker = se_worker ev,
      hr_user_agent = se_user_agent ev, hr_ip = se_ip_address ev, hr_source = region, hr_created = se_created ev\<rparr>"

text \<open>The fields the insert sets itself have their zero value here.\<close>

definition storage_block :: "string \<Rightarrow> block_event \<Rightarrow> block_row" where
  "storage_block region ev =
     \<lparr>br_id = 0, br_pool = be_pool_id ev, br_height = be_block_height ev, br_net_diff = be_network_difficulty ev,
      br_status = Pending, br_progress = 0, br_confirmations = 0, br_miner = be_miner ev, br_worker = be_worker ev,
      br_hash = be_hash ev, br_source = region, br_reward_sats = be_reward_sats ev, br_rewarded = False, br_created = be_created ev\<rparr>"

definition store_share :: "wal_codec \<Rightarrow> record_env \<Rightarrow> backends \<Rightarrow> share_record \<Rightarrow> backends" where
  "store_share c e b r = b\<lparr>bk_writer := map_option (\<lambda>w. enqueue c (re_new_id e) (re_wal e) w r) (bk_writer b)\<rparr>"

text \<open>A failing insert is logged.\<close>

definition store_block :: "record_env \<Rightarrow> backends \<Rightarrow> block_row \<Rightarrow> backends" where
  "store_block e b r =
     (if re_insert_ok e then b\<lparr>bk_store := map_option (insert_block (re_block_id e) r) (bk_store b)\<rparr> else b)"

definition recorder_share :: "msg_codec \<Rightarrow> wal_codec \<Rightarrow> record_env \<Rightarrow> share_event \<Rightarrow> backends \<Rightarrow> recorder \<Rightarrow> backends" where
  "recorder_share mc wc e ev b rec =
     (case rec of
        RecStats \<Rightarrow> b\<lparr>bk_stats := collect_share (re_now e) (bk_stats b) ev\<rparr>
      | RecStorage region \<Rightarrow> store_share wc e b (storage_share region ev)
      | RecNats \<Rightarrow> b\<lparr>bk_publisher := map_option (\<lambda>pb. record_share_msg mc (re_publish e) (re_spool e) pb ev) (bk_publisher b)\<rparr>)"

definition recorder_block :: "msg_codec \<Rightarrow> record_env \<Rightarrow> block_event \<Rightarrow> backends \<Rightarrow> recorder \<Rightarrow> backends" where
  "recorder_block mc e ev b rec =
     (case rec of
        RecStats \<Rightarrow> b\<lparr>bk_stats := collect_block (bk_stats b) ev\<rparr>
      | RecStorage region \<Rightarrow> store_block e b (storage_block region ev)
      | RecNats \<Rightarrow> b\<lparr>bk_publisher := map_option (\<lambda>pb. record_block_msg mc (re_publish e) (re_spool e) pb ev) (bk_publisher b)\<rparr>)"

definition multi_record_share :: "msg_codec \<Rightarrow> wal_codec \<Rightarrow> record_env \<Rightarrow> recorder list \<Rightarrow> backends \<Rightarrow> share_event \<Rightarrow> backends" where
  "multi_record_share mc wc e rs b ev = foldl (recorder_share mc wc e ev) b rs"

definition multi_record_block :: "msg_codec \<Rightarrow> record_env \<Rightarrow> recorder list \<Rightarrow> backends \<Rightarrow> block_event \<Rightarrow> backends" where
  "multi_record_block mc e rs b ev = foldl (recorder_block mc e ev) b rs"

subsection \<open>The master's sink\<close>

definition sink_share_record :: "share_msg \<Rightarrow> share_record" where
  "sink_share_record m =
     \<lparr>hr_id = [], hr_pool = hm_pool_id m, hr_height = hm_block_height m, hr_difficulty = hm_worker_diff m,
      hr_network_difficulty = hm_network_difficulty m, hr_miner = hm_miner m, hr_worker = hm_worker m,
      hr_user_agent = hm_user_agent m, hr_ip = hm_ip_address m, hr_source = hm_region m, hr_created = hm_created m\<rparr>"

definition sink_block_row :: "block_msg \<Rightarrow> block_row" where
  "sink_block_row m =
     \<lparr>br_id = 0, br_pool = bk_pool_id m, br_height = bk_block_height m, br_net_diff = bk_network_difficulty m,
      br_status = Pending, br_progress = 0, br_confirmations = 0, br_miner = bk_miner m, br_worker = bk_worker m,
      br_hash = bk_hash m, br_source = bk_region m, br_reward_sats = bk_reward_sats m, br_rewarded = False, br_created = bk_created m\<rparr>"

definition sink :: "wal_codec \<Rightarrow> record_env \<Rightarrow> backends \<Rightarrow> sink_effect \<Rightarrow> backends" where
  "sink wc e b eff =
     (case eff of
        SinkShare m \<Rightarrow> store_share wc e b (sink_share_record m)
      | SinkBlock m \<Rightarrow> store_block e b (sink_block_row m)
      | SinkStateChange m \<Rightarrow> b)"

definition master_consumes :: "msg_codec \<Rightarrow> wal_codec \<Rightarrow> record_env \<Rightarrow> backends \<Rightarrow> message \<Rightarrow> backends" where
  "master_consumes mc wc e b m = (case consume mc m of None \<Rightarrow> b | Some eff \<Rightarrow> sink wc e b eff)"

subsection \<open>Commands: who sends and who follows\<close>

definition consumes_events :: "config \<Rightarrow> bool" where
  "consumes_events cfg \<longleftrightarrow> na_enabled (cf_nats cfg) \<and> cf_mode cfg = mode_master"

definition follows_commands :: "config \<Rightarrow> bool" where
  "follows_commands cfg \<longleftrightarrow> na_enabled (cf_nats cfg) \<and> cf_mode cfg \<noteq> mode_master"

definition publishes_commands :: "config \<Rightarrow> bool" where
  "publishes_commands cfg \<longleftrightarrow> ai_enabled (cf_api cfg) \<and> na_enabled (cf_nats cfg) \<and> cf_mode cfg \<noteq> mode_regional"

subsection \<open>rewardd and payoutd\<close>

definition supported_coins :: "string set" where
  "supported_coins = {''BTC'', ''LTC'', ''RXD'', ''SCASH''}"

definition reward_processor :: "config \<Rightarrow> pool_config \<Rightarrow> wiring_error + processor_options" where
  "reward_processor cfg p =
     (case coin_by_symbol (cf_coins cfg) (pc_coin_symbol p) of None \<Rightarrow> Inl (NoCoinConfig (pc_coin_symbol p))
      | Some coin \<Rightarrow>
        if to_upper (co_symbol coin) \<notin> supported_coins then Inl (CoinNotImplemented (co_symbol coin))
        else if co_rpc_url coin = [] then Inl (NoRpcUrl (co_symbol coin))
        else case for_payment_mode (pc_payment_mode p) (pc_pplns_factor p) of Inl m \<Rightarrow> Inl (BadPaymentMode m)
        | Inr calc \<Rightarrow>
          Inr \<lparr>po_pool = pc_id p, po_calculator = calc, po_fee_percent = pc_pool_fee_percent p,
               po_confirm = \<lparr>co_maturity_depth = co_maturity coin, co_orphan_depth = co_orphan coin\<rparr>\<rparr>)"

text \<open>The pools a daemon takes up; with none it exits.\<close>

definition rewarded_pools :: "config \<Rightarrow> string list" where
  "rewarded_pools cfg = map pc_id (filter (\<lambda>p. pc_enabled p \<and> (\<exists>x. reward_processor cfg p = Inr x)) (cf_pools cfg))"

definition payout_processor :: "pow_hash \<Rightarrow> (bytes \<Rightarrow> bytes) \<Rightarrow> config \<Rightarrow> pool_config \<Rightarrow> wiring_error + payout_options" where
  "payout_processor scrypt_hash blake2b_256 cfg p =
     (case coin_by_symbol (cf_coins cfg) (pc_coin_symbol p) of None \<Rightarrow> Inl (NoCoinConfig (pc_coin_symbol p))
      | Some coin \<Rightarrow>
        if co_rpc_url coin = [] then Inl (NoRpcUrl (co_symbol coin))
        else case coin_adapter_for scrypt_hash blake2b_256 0 coin p of Inl e \<Rightarrow> Inl e
        | Inr a \<Rightarrow>
          Inr \<lparr>yo_pool = pc_id p, yo_min_sats = pc_minimum_payment_sats p,
               yo_subtract_fee = (case pc_subtract_fee_from_miners p of None \<Rightarrow> True | Some b \<Rightarrow> b),
               yo_validator = Some (\<lambda>x. case normalize_address a x of Inl _ \<Rightarrow> None | Inr y \<Rightarrow> Some y)\<rparr>)"

subsection \<open>What start-up makes of every pool\<close>

definition adapter_of :: "(pool_config \<Rightarrow> wiring_error + adapter) \<Rightarrow> pool_config \<Rightarrow> adapter option" where
  "adapter_of build p = (if pc_enabled p then (case build p of Inl _ \<Rightarrow> None | Inr a \<Rightarrow> Some a) else None)"

definition failure_of :: "(pool_config \<Rightarrow> wiring_error + adapter) \<Rightarrow> pool_config \<Rightarrow> wiring_error option" where
  "failure_of build p = (if pc_enabled p then (case build p of Inl e \<Rightarrow> Some e | Inr _ \<Rightarrow> None) else None)"

definition failures :: "(pool_config \<Rightarrow> wiring_error + adapter) \<Rightarrow> pool_config list \<Rightarrow> (string \<times> wiring_error) list" where
  "failures build ps = concat (map (\<lambda>p. case failure_of build p of None \<Rightarrow> [] | Some e \<Rightarrow> [(pc_id p, e)]) ps)"

lemma wire_pool_at:
  "su_registry (wire_pool build su p) q
     = (if q = pc_id p \<and> adapter_of build p \<noteq> None then Some (new_manager q) else su_registry su q)"
  "su_coins (wire_pool build su p) q
     = (if q = pc_id p \<and> adapter_of build p \<noteq> None then Some (bitcoinlike_coin (the (adapter_of build p))) else su_coins su q)"
  "lc_pools (su_lifecycle (wire_pool build su p)) q
     = (if q = pc_id p \<and> adapter_of build p \<noteq> None then map_option service_set_poller (lc_pools (su_lifecycle su) q)
        else lc_pools (su_lifecycle su) q)"
  "su_failures (wire_pool build su p) = su_failures su @ failures build [p]"
  by (auto simp: wire_pool_def adapter_of_def failure_of_def failures_def registry_add_def new_manager_def set_poller_def
      with_pool_def split: sum.splits option.splits)

lemma wire_pools_other:
  assumes "q \<notin> pc_id ` set ps"
  shows "su_registry (foldl (wire_pool build) su ps) q = su_registry su q"
    and "su_coins (foldl (wire_pool build) su ps) q = su_coins su q"
    and "lc_pools (su_lifecycle (foldl (wire_pool build) su ps)) q = lc_pools (su_lifecycle su) q"
  using assms by (induction ps arbitrary: su) (auto simp: wire_pool_at)

lemma wire_pools_failures: "su_failures (foldl (wire_pool build) su ps) = su_failures su @ failures build ps"
  by (induction ps arbitrary: su) (simp_all add: wire_pool_at failures_def)

lemma wire_pools_at:
  assumes "distinct (map pc_id ps)" and "p \<in> set ps"
  shows "su_registry (foldl (wire_pool build) su ps) (pc_id p)
      = (if adapter_of build p = None then su_registry su (pc_id p) else Some (new_manager (pc_id p)))"
    and "su_coins (foldl (wire_pool build) su ps) (pc_id p)
      = (if adapter_of build p = None then su_coins su (pc_id p) else Some (bitcoinlike_coin (the (adapter_of build p))))"
    and "lc_pools (su_lifecycle (foldl (wire_pool build) su ps)) (pc_id p)
      = (if adapter_of build p = None then lc_pools (su_lifecycle su) (pc_id p)
         else map_option service_set_poller (lc_pools (su_lifecycle su) (pc_id p)))"
proof -
  obtain xs ys where ps: "ps = xs @ p # ys" using assms(2) by (auto dest: split_list)
  have "pc_id p \<notin> pc_id ` set xs" "pc_id p \<notin> pc_id ` set ys" using assms(1) by (auto simp: ps)
  note out = wire_pools_other [OF this(1)] wire_pools_other [OF this(2)]
  show "su_registry (foldl (wire_pool build) su ps) (pc_id p)
      = (if adapter_of build p = None then su_registry su (pc_id p) else Some (new_manager (pc_id p)))"
    "su_coins (foldl (wire_pool build) su ps) (pc_id p)
      = (if adapter_of build p = None then su_coins su (pc_id p) else Some (bitcoinlike_coin (the (adapter_of build p))))"
    "lc_pools (su_lifecycle (foldl (wire_pool build) su ps)) (pc_id p)
      = (if adapter_of build p = None then lc_pools (su_lifecycle su) (pc_id p)
         else map_option service_set_poller (lc_pools (su_lifecycle su) (pc_id p)))"
    by (simp_all add: ps out wire_pool_at)
qed

definition configured_service :: "int \<Rightarrow> pool_config \<Rightarrow> service" where
  "configured_service now p = new_service now (if pc_enabled p then p else p\<lparr>pc_initial_state := ''disabled''\<rparr>)"

lemma new_lifecycle_at:
  assumes "distinct (map pc_id ps)" and "p \<in> set ps"
  shows "lc_pools (new_lifecycle now ps) (pc_id p) = Some (configured_service now p)"
proof -
  let ?f = "\<lambda>m pc. m(pc_id pc \<mapsto> new_service now (if pc_enabled pc then pc else pc\<lparr>pc_initial_state := ''disabled''\<rparr>))"
  have out: "foldl ?f m qs i = m i" if "i \<notin> pc_id ` set qs" for m qs i
    using that by (induction qs arbitrary: m) auto
  obtain xs ys where ps: "ps = xs @ p # ys" using assms(2) by (auto dest: split_list)
  then have "pc_id p \<notin> pc_id ` set ys" using assms(1) by auto
  then show ?thesis by (simp add: new_lifecycle_def ps out configured_service_def)
qed

text \<open>Maintenance of one pool, as a function of its service.\<close>

definition maintained :: "int \<Rightarrow> string \<Rightarrow> service \<Rightarrow> service" where
  "maintained now reason s =
     (let s1 = (if reason \<noteq> [] then s\<lparr>sv_maintenance_message := reason\<rparr> else s)
      in fst (try_state now s1 Maintenance (reason_or reason ''PutPoolInMaintenance'')))"

lemma put_in_maintenance_at:
  "lc_pools (fst (put_pool_in_maintenance now lc i reason)) q
     = (if q = i then map_option (maintained now reason) (lc_pools lc q) else lc_pools lc q)"
  by (auto simp: put_pool_in_maintenance_def with_pool_def maintained_def try_state_def Let_def split: option.splits sum.splits prod.splits)

lemma maintain_all_at:
  assumes "distinct (map fst fs)"
  shows "lc_pools (foldl (\<lambda>lc (i, e). fst (put_pool_in_maintenance now lc i (txt e))) lc fs) q
    = (case map_of fs q of None \<Rightarrow> lc_pools lc q | Some e \<Rightarrow> map_option (maintained now (txt e)) (lc_pools lc q))"
  using assms
proof (induction fs arbitrary: lc)
  case (Cons f fs)
  then show ?case
    by (cases f) (auto simp: put_in_maintenance_at map_of_eq_None_iff [THEN iffD2] split: option.splits dest: map_of_SomeD)
qed simp

lemma failures_ids: "set (map fst (failures build ps)) \<subseteq> pc_id ` set ps"
  by (auto simp: failures_def split: option.splits)

lemma failures_at:
  assumes "distinct (map pc_id ps)"
  shows "distinct (map fst (failures build ps))" and "p \<in> set ps \<Longrightarrow> map_of (failures build ps) (pc_id p) = failure_of build p"
proof -
  have "distinct (map fst (failures build ps)) \<and> (\<forall>p \<in> set ps. map_of (failures build ps) (pc_id p) = failure_of build p)"
    using assms
  proof (induction ps)
    case (Cons p ps)
    have f: "failures build (p # ps) = (case failure_of build p of None \<Rightarrow> [] | Some e \<Rightarrow> [(pc_id p, e)]) @ failures build ps"
      by (simp add: failures_def)
    have new: "pc_id p \<notin> set (map fst (failures build ps))" using Cons.prems failures_ids [of build ps] by auto
    then have "map_of (failures build ps) (pc_id p) = None" by (simp add: map_of_eq_None_iff)
    moreover have "pc_id p' \<noteq> pc_id p" if "p' \<in> set ps" for p' using Cons.prems that by (auto simp: image_iff)
    ultimately show ?case using Cons new unfolding f by (auto split: option.splits)
  qed (simp add: failures_def)
  then show "distinct (map fst (failures build ps))" "p \<in> set ps \<Longrightarrow> map_of (failures build ps) (pc_id p) = failure_of build p"
    by blast+
qed

lemma start_pools_at:
  assumes "distinct (map pc_id ps)" and "p \<in> set ps"
  shows "lc_pools (su_lifecycle (start_pools err_text build now ps)) (pc_id p)
      = Some ((case failure_of build p of None \<Rightarrow> id | Some e \<Rightarrow> maintained now (adapter_unavailable err_text e))
          (start_service ((if adapter_of build p = None then id else service_set_poller) (configured_service now p))))"
    and "su_registry (start_pools err_text build now ps) (pc_id p) = (if adapter_of build p = None then None else Some (new_manager (pc_id p)))"
    and "su_coins (start_pools err_text build now ps) (pc_id p) = map_option bitcoinlike_coin (adapter_of build p)"
proof -
  let ?su0 = "\<lparr>su_coins = Map.empty, su_registry = Map.empty, su_failures = [], su_lifecycle = new_lifecycle now ps\<rparr>"
  note w = wire_pools_at [OF assms, where build = build and su = ?su0]
  note fl = failures_at [OF assms(1), where build = build]
  have "lc_pools (lifecycle_start (su_lifecycle (foldl (wire_pool build) ?su0 ps))) (pc_id p)
      = Some (start_service ((if adapter_of build p = None then id else service_set_poller) (configured_service now p)))"
    by (simp add: lifecycle_start_def w(3) new_lifecycle_at [OF assms])
  moreover have "su_failures (foldl (wire_pool build) ?su0 ps) = failures build ps" by (simp add: wire_pools_failures)
  ultimately show "lc_pools (su_lifecycle (start_pools err_text build now ps)) (pc_id p)
      = Some ((case failure_of build p of None \<Rightarrow> id | Some e \<Rightarrow> maintained now (adapter_unavailable err_text e))
          (start_service ((if adapter_of build p = None then id else service_set_poller) (configured_service now p))))"
    by (simp add: start_pools_def Let_def maintain_all_at [OF fl(1)] fl(2) [OF assms(2)] split: option.splits)
  show "su_registry (start_pools err_text build now ps) (pc_id p) = (if adapter_of build p = None then None else Some (new_manager (pc_id p)))"
    "su_coins (start_pools err_text build now ps) (pc_id p) = map_option bitcoinlike_coin (adapter_of build p)"
    using w(1,2) by (auto simp: start_pools_def Let_def)
qed

lemma load_ok:
  assumes "load_config raw = Inr cfg"
  shows "config_ok cfg" and "cfg = apply_defaults raw"
  using assms validate_ok [of "apply_defaults raw"] by (auto simp: load_config_def Let_def split: sum.splits)

lemma start_node_parts:
  "nd_lifecycle (st_node (start_node su cfg)) = su_lifecycle su"
  "nd_registry (st_node (start_node su cfg)) = Some (registry_set_broadcaster (registry_set_recorder (su_registry su) True))"
  "nd_coins (st_node (start_node su cfg)) i = the (su_coins su i)"
  by (simp_all add: start_node_def set_ban_manager_def new_stratum_def)

definition initial_state :: "pool_config \<Rightarrow> pool_state" where
  "initial_state p = (case parse_state (pc_initial_state p) of None \<Rightarrow> Active | Some s \<Rightarrow> s)"

lemma configured_service_parts:
  "sv_state (configured_service now p) = (if pc_enabled p then initial_state p else Disabled)"
  "sv_loop (configured_service now p) = Stopped" "sv_has_poller (configured_service now p) = False"
  by (simp_all add: configured_service_def new_service_def initial_state_def parse_state_def)

lemma started_parts:
  "sv_state (start_service (service_set_poller s)) = sv_state s" "sv_has_poller (start_service (service_set_poller s))"
  "sv_has_poller (start_service s) = sv_has_poller s" "sv_has_poller (service_set_poller s)"
  "sv_loop (start_service s) = (if sv_state s = Disabled then sv_loop s else Polling)"
  "sv_state (service_set_poller s) = sv_state s" "sv_loop (service_set_poller s) = sv_loop s"
  by (simp_all add: start_service_def service_set_poller_def)

lemma maintained_parts:
  "sv_state (maintained now reason s) = (if sv_state s = Disabled then Disabled else Maintenance)"
  "sv_has_poller (maintained now reason s) = sv_has_poller s" "sv_loop (maintained now reason s) = sv_loop s"
  "reason \<noteq> [] \<Longrightarrow> sv_maintenance_message (maintained now reason s) = reason"
  by (cases "sv_state s"; auto simp: maintained_def try_state_def set_state_def can_transition_def Let_def)+

text \<open>
  C12: a node starts with every pool it can serve and none it cannot. For a loaded configuration, every
  configured pool has a service. A pool that is not enabled is disabled, without a loop and without a job
  manager. An enabled pool whose adapter can be built is in its configured state (active when that is not a state), has its own
  poller, loop (unless disabled), adapter and job manager, and the manager has the recorder and the broadcaster. An enabled
  pool whose adapter cannot be built has none of these and is in maintenance (unless configured disabled) with the reason; no other pool is
  affected by it.
\<close>

theorem startup_isolated:
  fixes scrypt_hash :: pow_hash and blake2b :: "bytes \<Rightarrow> bytes" and err_text :: "wiring_error \<Rightarrow> string" and now :: int
  assumes "load_config raw = Inr cfg" and "p \<in> set (cf_pools cfg)"
  defines "build \<equiv> build_adapter scrypt_hash blake2b cfg"
    and "nd \<equiv> st_node (start_node (start_pools err_text (build_adapter scrypt_hash blake2b cfg) now (cf_pools cfg)) cfg)"
  shows "\<exists>s r. lc_pools (nd_lifecycle nd) (pc_id p) = Some s \<and> nd_registry nd = Some r
    \<and> (\<not> pc_enabled p \<longrightarrow> sv_state s = Disabled \<and> sv_loop s = Stopped \<and> r (pc_id p) = None)
    \<and> (\<forall>a. pc_enabled p \<and> build p = Inr a \<longrightarrow>
        sv_state s = initial_state p \<and> sv_has_poller s \<and> sv_loop s = (if initial_state p = Disabled then Stopped else Polling)
        \<and> nd_coins nd (pc_id p) = bitcoinlike_coin a
        \<and> (\<exists>m. r (pc_id p) = Some m \<and> mg_pool_id m = pc_id p \<and> mg_has_broadcaster m \<and> mg_has_recorder m))
    \<and> (\<forall>e. pc_enabled p \<and> build p = Inl e \<longrightarrow>
        sv_state s = (if initial_state p = Disabled then Disabled else Maintenance) \<and> \<not> polls_on_tick s
        \<and> sv_maintenance_message s = adapter_unavailable err_text e \<and> r (pc_id p) = None)"
proof -
  have dist: "distinct (map pc_id (cf_pools cfg))" using load_ok(1) [OF assms(1)] by (simp add: config_ok_def pools_ok_def)
  let ?r = "registry_set_broadcaster (registry_set_recorder (su_registry (start_pools err_text build now (cf_pools cfg))) True)"
  note at = start_pools_at [OF dist assms(2), where err_text = err_text and now = now and build = build]
  define s where "s = (case failure_of build p of None \<Rightarrow> id | Some e \<Rightarrow> maintained now (adapter_unavailable err_text e))
      (start_service ((if adapter_of build p = None then id else service_set_poller) (configured_service now p)))"
  have r: "?r (pc_id p) = (if adapter_of build p = None then None else Some (set_broadcaster (set_recorder (new_manager (pc_id p)) True)))"
    by (simp add: registry_set_broadcaster_def registry_set_recorder_def at(2))
  have reason: "adapter_unavailable err_text e \<noteq> []" for e by (simp add: adapter_unavailable_def)
  have "lc_pools (nd_lifecycle nd) (pc_id p) = Some s \<and> nd_registry nd = Some ?r"
    by (simp only: nd_def build_def [symmetric] start_node_parts at(1) s_def simp_thms)
  moreover have "\<not> pc_enabled p \<Longrightarrow> sv_state s = Disabled \<and> sv_loop s = Stopped \<and> ?r (pc_id p) = None"
    by (simp add: s_def r failure_of_def adapter_of_def started_parts configured_service_parts)
  moreover have "sv_state s = initial_state p \<and> sv_has_poller s \<and> sv_loop s = (if initial_state p = Disabled then Stopped else Polling)
      \<and> nd_coins nd (pc_id p) = bitcoinlike_coin a
      \<and> (\<exists>m. ?r (pc_id p) = Some m \<and> mg_pool_id m = pc_id p \<and> mg_has_broadcaster m \<and> mg_has_recorder m)"
    if "pc_enabled p" "build p = Inr a" for a
    using that unfolding nd_def build_def [symmetric] start_node_parts at(3) r
    by (simp add: s_def failure_of_def adapter_of_def started_parts configured_service_parts new_manager_def
        set_broadcaster_def set_recorder_def)
  moreover have "sv_state s = (if initial_state p = Disabled then Disabled else Maintenance) \<and> \<not> polls_on_tick s
      \<and> sv_maintenance_message s = adapter_unavailable err_text e \<and> ?r (pc_id p) = None"
    if "pc_enabled p" "build p = Inl e" for e
    using that reason by (simp add: s_def r failure_of_def adapter_of_def started_parts configured_service_parts maintained_parts polls_on_tick_def)
  ultimately show ?thesis by blast
qed

definition no_hash :: pow_hash where "no_hash x = Inl []"

text \<open>A pool that can be served and one without an address.\<close>

definition two_pools :: config where
  "two_pools = sample_config\<lparr>cf_pools :=
     [(sample_pool_config ''btc'')\<lparr>pc_address := ''bc1qw508d6qejxtdg4y5r3zarvary0c5xw7kv8f3t4''\<rparr>, sample_pool_config ''dead'']\<rparr>"

lemma load_config_by: "config_ok (apply_defaults raw) \<Longrightarrow> load_config raw = Inr (apply_defaults raw)"
  using validate_ok [of "apply_defaults raw"] by (simp add: load_config_def Let_def)

theorem startup_isolated_witness:
  "let cfg = apply_defaults two_pools;
       nd = st_node (start_node (start_pools (\<lambda>_. ''no address'') (build_adapter no_hash id cfg) 5 (cf_pools cfg)) cfg)
   in \<exists>s1 s2. lc_pools (nd_lifecycle nd) ''btc'' = Some s1 \<and> sv_state s1 = Active \<and> sv_loop s1 = Polling \<and> sv_has_poller s1
     \<and> lc_pools (nd_lifecycle nd) ''dead'' = Some s2 \<and> sv_state s2 = Maintenance
     \<and> sv_maintenance_message s2 = ''adapter unavailable: no address'' \<and> \<not> polls_on_tick s2"
proof -
  let ?cfg = "apply_defaults two_pools" and ?pd = "pool_run_defaults \<circ> pool_defaults"
  let ?p1 = "?pd ((sample_pool_config ''btc'')\<lparr>pc_address := ''bc1qw508d6qejxtdg4y5r3zarvary0c5xw7kv8f3t4''\<rparr>)"
    and ?p2 = "?pd (sample_pool_config ''dead'')"
  have "config_ok ?cfg" by code_simp
  note h = load_config_by [OF this]
  have ps: "cf_pools ?cfg = [?p1, ?p2]" by (simp add: two_pools_def apply_defaults_def sample_config_def)
  have id: "pc_id ?p1 = ''btc''" "pc_id ?p2 = ''dead''" "pc_enabled ?p1" "pc_enabled ?p2" "initial_state ?p1 = Active" "initial_state ?p2 = Active"
    by code_simp+
  have "\<not> isl (build_adapter no_hash id ?cfg ?p1)" "isl (build_adapter no_hash id ?cfg ?p2)" by code_simp+
  then obtain a e where b: "build_adapter no_hash id ?cfg ?p1 = Inr a" "build_adapter no_hash id ?cfg ?p2 = Inl e"
    by (cases "build_adapter no_hash id ?cfg ?p1"; cases "build_adapter no_hash id ?cfg ?p2") auto
  have m: "?p1 \<in> set (cf_pools ?cfg)" "?p2 \<in> set (cf_pools ?cfg)" by (simp_all add: ps)
  show ?thesis
    using startup_isolated [OF h m(1), where err_text = "\<lambda>_. ''no address''" and scrypt_hash = no_hash and blake2b = id and now = 5]
      startup_isolated [OF h m(2), where err_text = "\<lambda>_. ''no address''" and scrypt_hash = no_hash and blake2b = id and now = 5]
    using id(3,4) unfolding Let_def id(1,2,5,6) b by (auto simp: adapter_unavailable_def)
qed

text \<open>
  C26: the front-end only ever works with sound difficulties. For every port of a loaded
  configuration: its pool has a service; a session accepted on it belongs to that pool and starts with a positive
  difficulty; and on a vardiff port its controller runs with exactly the configured bounds and intervals, the bounds positive and in order, so that
  none of the controller's own fall-backs is ever used.
\<close>

theorem ports_sound:
  assumes "load_config raw = Inr cfg" and "port \<in> set (sg_ports (cf_stratum cfg))"
  shows "let s = start_session t (cf_stratum cfg) sid host port in
    lc_pools (su_lifecycle (start_pools err_text build now (cf_pools cfg))) (pt_pool_id port) \<noteq> None
    \<and> ss_pool_id s = pt_pool_id port \<and> 0 < ss_difficulty s
    \<and> (if pt_vardiff port
        then \<exists>c. ss_vardiff s = Some c \<and> cc_min_diff (ct_cfg c) = pt_min_diff port \<and> cc_max_diff (ct_cfg c) = pt_max_diff port
             \<and> 0 < pt_min_diff port \<and> pt_min_diff port \<le> pt_max_diff port
             \<and> cc_target_interval (ct_cfg c) = sg_vardiff_target_interval (cf_stratum cfg)
             \<and> cc_retarget_interval (ct_cfg c) = sg_vardiff_retarget_interval (cf_stratum cfg)
             \<and> cc_variance_percent (ct_cfg c) = sg_vardiff_variance_percent (cf_stratum cfg)
        else ss_vardiff s = None)"
proof -
  note ok = load_ok [OF assms(1)]
  have port: "port_ok (pc_id ` set (cf_pools cfg)) port" and dist: "distinct (map pc_id (cf_pools cfg))"
    using ok(1) assms(2) by (simp_all add: config_ok_def pools_ok_def)
  from port obtain p where p: "p \<in> set (cf_pools cfg)" "pc_id p = pt_pool_id port" by (auto simp: port_ok_def)
  have pos: "0 < sg_vardiff_target_interval (cf_stratum cfg)" "0 < sg_vardiff_retarget_interval (cf_stratum cfg)"
    "0 < sg_vardiff_variance_percent (cf_stratum cfg)"
    by (simp_all add: ok(2) apply_defaults_def stratum_defaults_def)
  have "lc_pools (su_lifecycle (start_pools err_text build now (cf_pools cfg))) (pt_pool_id port) \<noteq> None"
    using start_pools_at(1) [OF dist p(1), of err_text build now] by (simp add: p(2))
  moreover have "ss_pool_id (start_session t (cf_stratum cfg) sid host port) = pt_pool_id port"
    by (simp add: start_session_def new_session_def set_difficulty_def Let_def)
  moreover have "0 < ss_difficulty (start_session t (cf_stratum cfg) sid host port)"
    using port by (auto simp: start_session_def set_difficulty_def port_ok_def Let_def)
  ultimately show ?thesis
    using port pos by (auto simp: port_ok_def start_session_def set_difficulty_def new_session_def new_controller_def controller_defaults_def Let_def)
qed

lemma sample_config_ok: "config_ok (apply_defaults sample_config)"
  by code_simp

theorem ports_sound_witness:
  "let cfg = apply_defaults sample_config; s = start_session 5 (cf_stratum cfg) ''s'' ''10.0.0.1'' (sample_port\<lparr>pt_vardiff := True\<rparr>)
   in ss_pool_id s = ''btc'' \<and> 0 < ss_difficulty s \<and> (\<exists>c. ss_vardiff s = Some c \<and> cc_max_diff (ct_cfg c) = 1024)"
proof -
  let ?cfg = "apply_defaults sample_config" and ?port = "sample_port\<lparr>pt_vardiff := True\<rparr>"
  have p: "?port \<in> set (sg_ports (cf_stratum ?cfg))" by (simp add: apply_defaults_def stratum_defaults_def sample_config_def)
  have v: "pt_vardiff ?port" "pt_pool_id ?port = ''btc''" "pt_max_diff ?port = 1024" by (simp_all add: sample_port_def)
  from ports_sound [OF load_config_by [OF sample_config_ok] p, of 5 "''s''" "''10.0.0.1''"] show ?thesis
    unfolding Let_def if_P [OF v(1)] v(2,3) by blast
qed

subsection \<open>Where events go\<close>

lemma relayed_records:
  "sink_share_record (share_msg_of region ev) = storage_share region ev"
  "sink_block_row (block_msg_of region bev) = storage_block region bev"
  by (simp_all add: sink_share_record_def share_msg_of_def storage_share_def sink_block_row_def block_msg_of_def storage_block_def)

text \<open>
  An event that travels is recorded as if it had not. The message a regional node sends of a share or a block
  does to the master's writer and database exactly what the storage recorder of a node with its own database
  does with the event itself, the region of the sender as its source: no field is lost or changed on the way, and a
  block whose insert fails is lost in both.
\<close>

lemma relay_persists:
  assumes "readable mc"
  shows "(\<forall>ev m. message_of mc pb (RecShare ev) = Some m \<longrightarrow>
        master_consumes mc wc e b m = recorder_share mc wc e ev b (RecStorage (pb_region pb)))
    \<and> (\<forall>ev m. message_of mc pb (RecBlock ev) = Some m \<longrightarrow>
        master_consumes mc wc e b m = recorder_block mc e ev b (RecStorage (pb_region pb)))"
  by (auto simp: master_consumes_def consume_message [OF assms] effect_of_def sink_def relayed_records recorder_share_def recorder_block_def)

text \<open>
  Which events reach a database. For every loaded configuration each recorder is wired once and the live statistics always;
  a master and every node with PostgreSQL store, and a regional node publishes. Only an all-in-one node with neither keeps
  nothing, and a regional node that has PostgreSQL too does both, so that the master stores its events a second
  time. Only the master consumes events, and only an all-in-one node with NATS and the API is sent its own commands.
\<close>

lemma recorders_cover:
  assumes "load_config raw = Inr cfg"
  shows "RecStats \<in> set (recorders cfg) \<and> distinct (recorders cfg)
    \<and> (RecStorage (cf_region cfg) \<in> set (recorders cfg) \<longleftrightarrow> pg_enabled (cf_postgres cfg))
    \<and> (set (recorders cfg) = {RecStats} \<longleftrightarrow>
        cf_mode cfg = mode_all_in_one \<and> \<not> pg_enabled (cf_postgres cfg) \<and> \<not> na_enabled (cf_nats cfg))
    \<and> (RecStorage (cf_region cfg) \<in> set (recorders cfg) \<and> RecNats \<in> set (recorders cfg) \<longleftrightarrow>
        cf_mode cfg = mode_regional \<and> pg_enabled (cf_postgres cfg))
    \<and> (consumes_events cfg \<longleftrightarrow> cf_mode cfg = mode_master)
    \<and> (publishes_commands cfg \<and> follows_commands cfg \<longleftrightarrow>
        cf_mode cfg = mode_all_in_one \<and> ai_enabled (cf_api cfg) \<and> na_enabled (cf_nats cfg))"
proof -
  have m: "cf_mode cfg \<in> {mode_all_in_one, mode_master, mode_regional}" and s: "services_ok cfg"
    using load_ok(1) [OF assms] by (simp_all add: config_ok_def)
  from m consider "cf_mode cfg = mode_all_in_one" | "cf_mode cfg = mode_master" | "cf_mode cfg = mode_regional" by auto
  then show ?thesis
    by cases (use s in \<open>auto simp: recorders_def consumes_events_def publishes_commands_def follows_commands_def services_ok_def\<close>)
qed

text \<open>
  C29: rewards need the mode spelled in lower case. Of a loaded configuration's pool whose coin is configured,
  supported and has a daemon, the payment mode is one of the three or empty, in any letter case; \<open>rewardd\<close> takes the
  pool up exactly when it is one of the three in lower case. Any other spelling passes validation, mines, and is never
  credited.
\<close>

theorem reward_modes:
  assumes "load_config raw = Inr cfg" and "p \<in> set (cf_pools cfg)"
    and "coin_by_symbol (cf_coins cfg) (pc_coin_symbol p) = Some coin"
    and "to_upper (co_symbol coin) \<in> supported_coins" and "co_rpc_url coin \<noteq> []"
  shows "to_lower (pc_payment_mode p) \<in> {[], ''pplns'', ''prop'', ''solo''}
    \<and> ((\<exists>x. reward_processor cfg p = Inr x) \<longleftrightarrow> pc_payment_mode p \<in> {''pplns'', ''prop'', ''solo''})
    \<and> (\<forall>x. reward_processor cfg p = Inr x \<longrightarrow> po_pool x = pc_id p \<and> calculator_name (po_calculator x) = pc_payment_mode p
        \<and> (po_calculator x = Pplns f \<longrightarrow> f = pc_pplns_factor p \<and> 0 < f)
        \<and> 0 < co_maturity_depth (po_confirm x) \<and> 0 < co_orphan_depth (po_confirm x))"
proof -
  note ok = load_ok [OF assms(1)]
  have "payment_mode_ok (pc_payment_mode p)" using ok(1) assms(2) by (simp add: config_ok_def pools_ok_def)
  then have mode: "to_lower (pc_payment_mode p) \<in> {[], ''pplns'', ''prop'', ''solo''}" by (simp add: payment_mode_ok_def)
  have "coin \<in> set (cf_coins cfg)" using coin_by_symbol_in [OF assms(3)] by simp
  then have depth: "0 < co_maturity coin" "0 < co_orphan coin"
    by (auto simp: ok(2) apply_defaults_def coin_defaults_def)
  have factor: "0 < pc_pplns_factor p"
    using assms(2) by (auto simp: ok(2) apply_defaults_def pool_defaults_def pool_run_defaults_def)
  show ?thesis
    using mode depth factor
    by (auto simp: reward_processor_def assms(3-5) for_payment_mode_def calculator_name_def split: if_splits)
qed

definition lower_mode :: config where
  "lower_mode = sample_config\<lparr>cf_pools := [(sample_pool_config ''btc'')\<lparr>pc_payment_mode := ''pplns''\<rparr>]\<rparr>"

theorem reward_modes_witness:
  "(\<exists>p \<in> set (cf_pools (apply_defaults sample_config)). pc_payment_mode p = ''PPLNS''
      \<and> \<not> (\<exists>x. reward_processor (apply_defaults sample_config) p = Inr x))
    \<and> (\<exists>p \<in> set (cf_pools (apply_defaults lower_mode)). \<exists>x. reward_processor (apply_defaults lower_mode) p = Inr x)"
proof -
  let ?pd = "pool_run_defaults \<circ> pool_defaults" and ?coin = "coin_defaults sample_coin"
  let ?p = "?pd (sample_pool_config ''btc'')" and ?q = "?pd ((sample_pool_config ''btc'')\<lparr>pc_payment_mode := ''pplns''\<rparr>)"
  have "config_ok (apply_defaults lower_mode)" by code_simp
  note l = load_config_by [OF sample_config_ok] load_config_by [OF this]
  have m: "?p \<in> set (cf_pools (apply_defaults sample_config))" "?q \<in> set (cf_pools (apply_defaults lower_mode))"
    by (simp_all add: apply_defaults_def sample_config_def lower_mode_def)
  have c: "coin_by_symbol (cf_coins (apply_defaults sample_config)) (pc_coin_symbol ?p) = Some ?coin"
    "coin_by_symbol (cf_coins (apply_defaults lower_mode)) (pc_coin_symbol ?q) = Some ?coin"
    "to_upper (co_symbol ?coin) \<in> supported_coins" "co_rpc_url ?coin \<noteq> []" "pc_payment_mode ?p = ''PPLNS''" "pc_payment_mode ?q = ''pplns''"
    by code_simp+
  show ?thesis
    using reward_modes [OF l(1) m(1) c(1,3,4)] reward_modes [OF l(2) m(2) c(2,3,4)] m c(5,6) by (intro conjI bexI) auto
qed

end
