(* ===== verification/Partitions.thy ===== *)
theory Partitions
  imports Prelude
begin

text \<open>
  The monthly partitions of the shares table: \<open>EnsureSharePartition\<close> (\<open>store.go\<close>) and when the share
  writer calls it (\<open>sharewriter.go\<close>: at start and when a flush tick sees another month). A date is year, month and day in UTC, Gregorian;
  whether a statement succeeds is an argument. A share whose date no partition holds is refused by the
  database.
\<close>

type_synonym date = "int \<times> int \<times> int"

definition leap_year :: "int \<Rightarrow> bool" where
  "leap_year y \<longleftrightarrow> y mod 4 = 0 \<and> (y mod 100 \<noteq> 0 \<or> y mod 400 = 0)"

definition days_in_month :: "int \<Rightarrow> int \<Rightarrow> int" where
  "days_in_month y m = (if m = 2 then (if leap_year y then 29 else 28) else if m \<in> {4, 6, 9, 11} then 30 else 31)"

definition valid_date :: "date \<Rightarrow> bool" where
  "valid_date t \<longleftrightarrow> (case t of (y, m, d) \<Rightarrow> 1 \<le> m \<and> m \<le> 12 \<and> 1 \<le> d \<and> d \<le> days_in_month y m)"

definition next_month :: "int \<times> int \<Rightarrow> int \<times> int" where
  "next_month ym = (case ym of (y, m) \<Rightarrow> if m = 12 then (y + 1, 1) else (y, m + 1))"

text \<open>\<open>AddDate(0, 1, 0)\<close>: a day the next month does not have runs over into the month after it.\<close>

definition add_month :: "date \<Rightarrow> date" where
  "add_month t =
     (case t of (y, m, d) \<Rightarrow>
        let (y1, m1) = next_month (y, m)
        in if d \<le> days_in_month y1 m1 then (y1, m1, d)
           else let (y2, m2) = next_month (y1, m1) in (y2, m2, d - days_in_month y1 m1))"

record partition =
  pn_name :: string
  pn_from :: date
  pn_to :: date

definition share_partition :: "date \<Rightarrow> partition" where
  "share_partition t =
     (case t of (y, m, d) \<Rightarrow>
        \<lparr>pn_name = ''shares_'' @ fixed_digits 4 y @ ''_'' @ fixed_digits 2 m, pn_from = (y, m, 1), pn_to = add_month (y, m, 1)\<rparr>)"

definition ensure_share_partition :: "bool \<Rightarrow> date \<Rightarrow> partition list \<Rightarrow> partition list" where
  "ensure_share_partition ok t parts =
     (let p = share_partition t
      in if \<not> ok \<or> pn_name p \<in> set (map pn_name parts) then parts else parts @ [p])"

text \<open>The writer's part: the partitions of a date and of the date a month later.\<close>

definition ensure_both :: "bool \<times> bool \<Rightarrow> date \<Rightarrow> partition list \<Rightarrow> partition list" where
  "ensure_both ok now parts = ensure_share_partition (snd ok) (add_month now) (ensure_share_partition (fst ok) now parts)"

record rollover =
  ro_last_month :: int
  ro_parts :: "partition list"

definition month_of :: "date \<Rightarrow> int" where "month_of t = fst (snd t)"

definition boot_partitions :: "bool \<times> bool \<Rightarrow> date \<Rightarrow> partition list \<Rightarrow> rollover" where
  "boot_partitions ok now parts = \<lparr>ro_last_month = month_of now, ro_parts = ensure_both ok now parts\<rparr>"

definition rollover_tick :: "rollover \<Rightarrow> (bool \<times> bool) \<times> date \<Rightarrow> rollover" where
  "rollover_tick st ev =
     (case ev of (ok, now) \<Rightarrow>
        if month_of now \<noteq> ro_last_month st
        then \<lparr>ro_last_month = month_of now, ro_parts = ensure_both ok now (ro_parts st)\<rparr> else st)"

definition before :: "date \<Rightarrow> date \<Rightarrow> bool" where
  "before a b \<longleftrightarrow>
     (case (a, b) of ((y, m, d), (y', m', d')) \<Rightarrow> y < y' \<or> (y = y' \<and> (m < m' \<or> (m = m' \<and> d < d'))))"

definition holds_date :: "partition \<Rightarrow> date \<Rightarrow> bool" where
  "holds_date p t \<longleftrightarrow> \<not> before t (pn_from p) \<and> before t (pn_to p)"

definition covered :: "rollover \<Rightarrow> date \<Rightarrow> bool" where
  "covered st t \<longleftrightarrow> (\<exists>p \<in> set (ro_parts st). holds_date p t)"

subsection \<open>A partition is a month\<close>

definition month_index :: "date \<Rightarrow> int" where
  "month_index t = 12 * fst t + fst (snd t)"

lemma days_at_least: "28 \<le> days_in_month y m" and days_at_most: "days_in_month y m \<le> 31"
  by (simp_all add: days_in_month_def)

lemma add_month_first: "add_month (y, m, 1) = (fst (next_month (y, m)), snd (next_month (y, m)), 1)"
  using days_at_least [of "fst (next_month (y, m))" "snd (next_month (y, m))"]
  by (cases "next_month (y, m)") (simp add: add_month_def)

lemma holds_date_month:
  assumes "valid_date t" and "valid_date u"
  shows "holds_date (share_partition t) u \<longleftrightarrow> month_index u = month_index t"
proof -
  obtain y m d y' m' d' where t: "t = (y, m, d)" and u: "u = (y', m', d')" by (cases t; cases u)
  have b: "1 \<le> m" "m \<le> 12" "1 \<le> m'" "m' \<le> 12" "1 \<le> d'" using assms by (simp_all add: t u valid_date_def)
  have "holds_date (share_partition t) u \<longleftrightarrow> \<not> before u (y, m, 1) \<and> before u (fst (next_month (y, m)), snd (next_month (y, m)), 1)"
    by (simp add: t holds_date_def share_partition_def add_month_first)
  also have "\<dots> \<longleftrightarrow> y' = y \<and> m' = m" using b by (cases "m = 12") (auto simp: before_def next_month_def u)
  also have "\<dots> \<longleftrightarrow> 12 * y' + m' = 12 * y + m"
    using b by (cases y' y rule: linorder_cases) auto
  finally show ?thesis by (simp add: month_index_def t u)
qed

lemma month_apart:
  assumes "valid_date t" and "valid_date u" and "month_of u = month_of t" and "\<bar>month_index u - month_index t\<bar> < 12"
  shows "month_index u = month_index t"
  using assms by (auto simp: month_index_def month_of_def)

lemma same_month:
  assumes "valid_date a" and "valid_date b" and "month_index a = month_index b"
  shows "month_of a = month_of b"
proof -
  obtain y m d y' m' d' where a: "a = (y, m, d)" and b: "b = (y', m', d')" by (cases a; cases b)
  have "1 \<le> m" "m \<le> 12" "1 \<le> m'" "m' \<le> 12" "12 * y + m = 12 * y' + m'"
    using assms by (simp_all add: a b valid_date_def month_index_def)
  then show ?thesis by (cases y y' rule: linorder_cases) (auto simp: a b month_of_def)
qed

lemma add_month_valid:
  assumes "valid_date t"
  shows "valid_date (add_month t)"
proof -
  obtain y m d where t: "t = (y, m, d)" by (cases t)
  have b: "1 \<le> m" "m \<le> 12" "1 \<le> d" "d \<le> 31" using assms days_at_most [of y m] by (simp_all add: t valid_date_def)
  let ?n = "next_month (y, m)"
  have n: "1 \<le> snd ?n" "snd ?n \<le> 12" using b by (auto simp: next_month_def)
  have n2: "1 \<le> snd (next_month ?n)" "snd (next_month ?n) \<le> 12" using n by (auto simp: next_month_def split: prod.splits)
  show ?thesis
  proof (cases "d \<le> days_in_month (fst ?n) (snd ?n)")
    case True
    then show ?thesis using n b by (cases ?n) (simp add: t add_month_def valid_date_def)
  next
    case False
    have "d - days_in_month (fst ?n) (snd ?n) \<le> 28" using b(4) days_at_least [of "fst ?n" "snd ?n"] by linarith
    also have "28 \<le> days_in_month (fst (next_month ?n)) (snd (next_month ?n))" by (rule days_at_least)
    finally show ?thesis using False n2
      by (cases ?n; cases "next_month ?n") (simp add: t add_month_def valid_date_def)
  qed
qed

subsection \<open>The partitions that exist\<close>

definition plain_date :: "date \<Rightarrow> bool" where
  "plain_date t \<longleftrightarrow> valid_date t \<and> 0 \<le> fst t \<and> fst t < 10000"

definition parts_ok :: "partition list \<Rightarrow> bool" where
  "parts_ok parts \<longleftrightarrow> (\<forall>p \<in> set parts. \<exists>t. plain_date t \<and> p = share_partition t)"

definition has_month :: "partition list \<Rightarrow> int \<Rightarrow> bool" where
  "has_month parts i \<longleftrightarrow> (\<exists>t. valid_date t \<and> month_index t = i \<and> share_partition t \<in> set parts)"

lemma length_fixed_digits [simp]: "length (fixed_digits k n) = k"
  by (induction k arbitrary: n) simp_all

lemma same_name:
  assumes "plain_date t" and "plain_date u" and "pn_name (share_partition t) = pn_name (share_partition u)"
  shows "month_index t = month_index u" and "share_partition t = share_partition u"
proof -
  obtain y m d y' m' d' where t: "t = (y, m, d)" and u: "u = (y', m', d')" by (cases t; cases u)
  have b: "0 \<le> y" "y < 10 ^ 4" "0 \<le> y'" "y' < 10 ^ 4" "0 \<le> m" "m < 10 ^ 2" "0 \<le> m'" "m' < 10 ^ 2"
    using assms(1,2) by (simp_all add: t u plain_date_def valid_date_def)
  have "fixed_digits 4 y @ ''_'' @ fixed_digits 2 m = fixed_digits 4 y' @ ''_'' @ fixed_digits 2 m'"
    using assms(3) by (simp add: t u share_partition_def)
  then have "fixed_digits 4 y = fixed_digits 4 y'" "fixed_digits 2 m = fixed_digits 2 m'" by auto
  then have "y = y'" "m = m'" using b digits_value_fixed by metis+
  then show "month_index t = month_index u" "share_partition t = share_partition u"
    by (simp_all add: t u month_index_def share_partition_def)
qed

lemma ensure_partition:
  assumes "parts_ok parts" and "plain_date t"
  shows "parts_ok (ensure_share_partition ok t parts)"
    and "has_month (ensure_share_partition ok t parts) i \<longleftrightarrow> has_month parts i \<or> (ok \<and> i = month_index t)"
proof -
  let ?p = "share_partition t"
  have v: "valid_date t" using assms(2) by (simp add: plain_date_def)
  show "parts_ok (ensure_share_partition ok t parts)"
    using assms by (auto simp: ensure_share_partition_def parts_ok_def Let_def simp del: split_paired_Ex)
  have old: "has_month parts (month_index t)" if named: "pn_name ?p \<in> set (map pn_name parts)"
  proof -
    obtain p where p: "p \<in> set parts" "pn_name p = pn_name ?p"
      using named unfolding set_map by (elim imageE) simp
    then obtain u where u: "plain_date u" "p = share_partition u" using assms(1) unfolding parts_ok_def by blast
    then have "share_partition u = ?p" using same_name(2) [OF assms(2) u(1)] p(2) by simp
    then have "?p \<in> set parts" using p(1) u(2) by simp
    then show ?thesis using v unfolding has_month_def by (intro exI [of _ t]) simp
  qed
  have same: "month_index u = month_index t" if "valid_date u" "share_partition u = ?p" for u
    using that v holds_date_month [OF v, of u] holds_date_month [OF that(1), of u] by simp
  show "has_month (ensure_share_partition ok t parts) i \<longleftrightarrow> has_month parts i \<or> (ok \<and> i = month_index t)"
  proof (cases "\<not> ok \<or> pn_name ?p \<in> set (map pn_name parts)")
    case True
    then show ?thesis using old by (auto simp: ensure_share_partition_def Let_def)
  next
    case False
    then have "ensure_share_partition ok t parts = parts @ [?p]" by (auto simp: ensure_share_partition_def Let_def)
    moreover have "has_month (parts @ [?p]) i \<longleftrightarrow>
        has_month parts i \<or> (\<exists>u. valid_date u \<and> month_index u = i \<and> share_partition u = ?p)"
      unfolding has_month_def set_append by (simp del: split_paired_Ex) blast
    moreover have "(\<exists>u. valid_date u \<and> month_index u = i \<and> share_partition u = ?p) \<longleftrightarrow> i = month_index t"
      using v same by (blast intro: sym)
    ultimately show ?thesis using False by simp
  qed
qed

lemma covered_month:
  assumes "parts_ok (ro_parts st)" and "valid_date u"
  shows "covered st u \<longleftrightarrow> has_month (ro_parts st) (month_index u)"
proof
  assume "covered st u"
  then obtain t where "plain_date t" "share_partition t \<in> set (ro_parts st)" "holds_date (share_partition t) u"
    using assms(1) by (auto simp: covered_def parts_ok_def)
  then have "valid_date t" "month_index t = month_index u" "share_partition t \<in> set (ro_parts st)"
    using assms(2) holds_date_month [of t u] by (simp_all add: plain_date_def)
  then show "has_month (ro_parts st) (month_index u)" unfolding has_month_def by blast
next
  assume "has_month (ro_parts st) (month_index u)"
  then obtain t where "valid_date t" "month_index t = month_index u" "share_partition t \<in> set (ro_parts st)"
    unfolding has_month_def by blast
  then show "covered st u" using assms(2) holds_date_month [of t u] unfolding covered_def by auto
qed

lemma ensure_both_months:
  assumes "parts_ok parts" and "plain_date t" and "plain_date (add_month t)"
  shows "parts_ok (ensure_both ok t parts)"
    and "has_month (ensure_both ok t parts) i \<longleftrightarrow>
      has_month parts i \<or> (fst ok \<and> i = month_index t) \<or> (snd ok \<and> i = month_index (add_month t))"
  using ensure_partition [OF assms(1,2), of "fst ok"] ensure_partition [of "ensure_share_partition (fst ok) t parts" "add_month t" "snd ok"] assms(3)
  by (auto simp: ensure_both_def)

subsection \<open>Keeping up with the calendar\<close>

text \<open>Ticks come in order and less than a year apart, and the years have four digits.\<close>

fun paced :: "date \<Rightarrow> date list \<Rightarrow> bool" where
  "paced t [] = (plain_date t \<and> plain_date (add_month t))"
| "paced t (u # us) = (plain_date t \<and> plain_date (add_month t) \<and> 0 \<le> month_index u - month_index t \<and> month_index u - month_index t < 12
     \<and> paced u us)"

lemma paced_head: "paced t us \<Longrightarrow> plain_date t \<and> plain_date (add_month t)"
  by (cases us) auto

definition rollover_inv :: "rollover \<Rightarrow> date \<Rightarrow> bool" where
  "rollover_inv st t \<longleftrightarrow> parts_ok (ro_parts st) \<and> ro_last_month st = month_of t \<and> has_month (ro_parts st) (month_index t)"

lemma tick_inv:
  assumes "rollover_inv st t" and "paced t (u # us)"
  shows "rollover_inv (rollover_tick st ((True, ok), u)) u"
proof (cases "month_of u = ro_last_month st")
  case True
  have "month_index u = month_index t"
    using assms True paced_head [of u us] by (intro month_apart) (auto simp: rollover_inv_def plain_date_def)
  then show ?thesis using assms(1) True by (simp add: rollover_inv_def rollover_tick_def)
next
  case False
  have "plain_date u" "plain_date (add_month u)" "parts_ok (ro_parts st)"
    using assms paced_head [of u us] by (auto simp: rollover_inv_def)
  from ensure_both_months [OF this(3,1,2), of "(True, ok)"] False show ?thesis
    by (simp add: rollover_inv_def rollover_tick_def)
qed

text \<open>
  The partitions keep up with the calendar. With ticks in order and less than a year apart, if the statement for
  the current month succeeds at the start and at every tick that sees a new month, then after every
  tick the current month has its partition, whether or not those for the month after it succeed.
\<close>

theorem partitions_keep_up:
  assumes "parts_ok parts" and "paced t (map snd evs)" and "\<forall>ev \<in> set evs. fst (fst ev)"
  shows "covered (foldl rollover_tick (boot_partitions (True, ok) t parts) evs) (last (t # map snd evs))"
proof -
  have inv: "rollover_inv (boot_partitions (True, ok) t parts) t"
    using paced_head [OF assms(2)] ensure_both_months [OF assms(1), of t "(True, ok)"]
    by (simp add: rollover_inv_def boot_partitions_def)
  have "rollover_inv (foldl rollover_tick st evs) (last (t # map snd evs)) \<and> plain_date (last (t # map snd evs))"
    if "rollover_inv st t" "paced t (map snd evs)" "\<forall>ev \<in> set evs. fst (fst ev)" for st t
    using that
  proof (induction evs arbitrary: st t)
    case Nil
    then show ?case by simp
  next
    case (Cons ev evs)
    obtain ok u where ev: "ev = ((True, ok), u)" using Cons.prems(3) by (cases ev) auto
    have "rollover_inv (rollover_tick st ev) u" using tick_inv [OF Cons.prems(1), of u "map snd evs" ok] Cons.prems(2) by (simp add: ev)
    from Cons.IH [OF this] Cons.prems(2,3) show ?case by (simp add: ev)
  qed
  from this [OF inv assms(2,3)] show ?thesis
    by (auto simp: rollover_inv_def plain_date_def covered_month)
qed

text \<open>
  A month can be without a partition from its first day to its last. When the writer starts on a day the next month
  does not have, it prepares the month after that one instead; if then the statements of the first tick of the next month fail,
  nothing tries again before the month is over, whatever the database does: every share of that month is refused.
\<close>

theorem rollover_gap:
  assumes "parts_ok parts" and "plain_date t" and "plain_date (add_month t)" and "month_index (add_month t) = month_index t + 2"
    and "plain_date u" and "month_index u = month_index t + 1" and "\<not> has_month parts (month_index u)"
    and "\<forall>ev \<in> set evs. valid_date (snd ev) \<and> month_index (snd ev) = month_index u"
  shows "\<not> covered (foldl rollover_tick (boot_partitions (True, True) t parts) (((False, False), u) # evs)) u"
proof -
  let ?b = "boot_partitions (True, True) t parts"
  have b: "parts_ok (ro_parts ?b)" "\<not> has_month (ro_parts ?b) (month_index u)"
    using ensure_both_months [OF assms(1,2,3), of "(True, True)"] assms(4,6,7) by (simp_all add: boot_partitions_def)
  have v: "valid_date t" "valid_date u" using assms(2,5) by (simp_all add: plain_date_def)
  have ne: "month_of u \<noteq> month_of t" using assms(6) month_apart [OF v(1,2)] by auto
  let ?s = "rollover_tick ?b ((False, False), u)"
  have s: "ro_parts ?s = ro_parts ?b" "ro_last_month ?s = month_of u"
    using ne by (simp_all add: rollover_tick_def boot_partitions_def ensure_both_def ensure_share_partition_def)
  have "foldl rollover_tick st evs = st"
    if "ro_last_month st = month_of u" "\<forall>ev \<in> set evs. valid_date (snd ev) \<and> month_index (snd ev) = month_index u" for st
    using that
  proof (induction evs)
    case (Cons ev evs)
    have "month_of (snd ev) = month_of u" using Cons.prems(2) v(2) by (intro same_month) auto
    then have "rollover_tick st ev = st" using Cons.prems(1) by (cases ev) (simp add: rollover_tick_def)
    then show ?case using Cons.IH [OF Cons.prems(1)] Cons.prems(2) by simp
  qed simp
  from this [OF s(2) assms(8)] show ?thesis using b v(2) s(1) by (simp add: covered_month)
qed

text \<open>A start on the last day of January 2027.\<close>

theorem rollover_gap_witness:
  "\<not> covered (foldl rollover_tick (boot_partitions (True, True) (2027, 1, 31) [])
      [((False, False), (2027, 2, 1)), ((True, True), (2027, 2, 14))]) (2027, 2, 1)"
proof -
  have h: "plain_date (2027, 1, 31)" "plain_date (add_month (2027, 1, 31))" "plain_date (2027, 2, 1)"
    "month_index (add_month (2027, 1, 31)) = month_index (2027, 1, 31) + 2" "month_index (2027, 2, 1) = month_index (2027, 1, 31) + 1"
    "valid_date (2027, 2, 14)" "month_index (2027, 2, 14) = month_index (2027, 2, 1)"
    by code_simp+
  have n: "parts_ok []" "\<not> has_month [] (month_index (2027, 2, 1))" by (simp_all add: parts_ok_def has_month_def)
  show ?thesis
    using rollover_gap [OF n(1) h(1,2,4,3,5) n(2), of "[((True, True), (2027, 2, 14))]"] h(6,7) by simp
qed

end
