(* ===== verification/Migrations.thy ===== *)
theory Migrations
  imports Main
begin

text \<open>
  \<open>internal/storage/postgres/store.go\<close>: the schema and how \<open>New\<close> brings a database to it. A statement is what it does to the tables,
  their columns and their indexes; column types, defaults, partitioning and the predicate of the partial index are left out, the columns are those the records of \<open>Store\<close> and \<open>ShareWriter\<close>
  are read from. What the database does to each statement is an argument; processes that migrate at the same time are not modelled.
\<close>

subsection \<open>Statements\<close>

datatype ddl =
    CreateTable string "string list" "string list"
  | AddColumns string "string list"
  | CreateIndex bool string string "string list"

text \<open>Tables with their columns and primary key; indexes with their uniqueness, table and columns; the rows of \<open>schema_migrations\<close>.\<close>

record schema =
  sc_tables :: "(string \<times> string list \<times> string list) list"
  sc_indexes :: "(string \<times> bool \<times> string \<times> string list) list"
  sc_versions :: "nat list"

definition empty_schema :: schema where
  "empty_schema = \<lparr>sc_tables = [], sc_indexes = [], sc_versions = []\<rparr>"

definition has_columns :: "schema \<Rightarrow> string \<Rightarrow> string list \<Rightarrow> bool" where
  "has_columns s t cs = (case map_of (sc_tables s) t of None \<Rightarrow> False | Some (cols, key) \<Rightarrow> set cs \<subseteq> set cols)"

text \<open>All statements say \<open>IF NOT EXISTS\<close>; an index on what is not there is an error.\<close>

fun run_ddl :: "ddl \<Rightarrow> schema \<Rightarrow> schema option" where
  "run_ddl (CreateTable t cols key) s =
     Some (if map_of (sc_tables s) t \<noteq> None then s else s\<lparr>sc_tables := sc_tables s @ [(t, cols, key)]\<rparr>)"
| "run_ddl (AddColumns t cs) s =
     (if map_of (sc_tables s) t = None then None
      else Some (s\<lparr>sc_tables := map (\<lambda>(n, cols, key). (n, if n = t then cols @ filter (\<lambda>c. c \<notin> set cols) cs else cols, key)) (sc_tables s)\<rparr>))"
| "run_ddl (CreateIndex unique n t cs) s =
     (if map_of (sc_indexes s) n \<noteq> None then Some s
      else if has_columns s t cs then Some (s\<lparr>sc_indexes := sc_indexes s @ [(n, unique, t, cs)]\<rparr>)
      else None)"

definition migrations :: "ddl list" where
  "migrations =
    [CreateTable ''schema_migrations'' [''version'', ''applied_at''] [''version''],
     CreateTable ''shares''
       [''poolid'', ''blockheight'', ''difficulty'', ''networkdifficulty'', ''miner'', ''worker'', ''useragent'', ''ipaddress'', ''source'', ''created''] [],
     CreateIndex False ''idx_shares_pool_miner_created'' ''shares'' [''poolid'', ''miner'', ''created''],
     CreateIndex False ''idx_shares_pool_created'' ''shares'' [''poolid'', ''created''],
     CreateTable ''blocks''
       [''id'', ''poolid'', ''blockheight'', ''networkdifficulty'', ''status'', ''confirmationprogress'', ''effort'', ''minereffort'',
        ''transactionconfirmationdata'', ''miner'', ''worker'', ''reward'', ''hash'', ''source'', ''created''] [''id''],
     CreateIndex True ''idx_blocks_pool_height_hash'' ''blocks'' [''poolid'', ''blockheight'', ''hash''],
     CreateIndex False ''idx_blocks_pool_status'' ''blocks'' [''poolid'', ''status''],
     AddColumns ''blocks'' [''reward_sats'', ''rewarded'', ''confirmations''],
     CreateTable ''balances'' [''poolid'', ''miner'', ''amount_sats'', ''updated''] [''poolid'', ''miner''],
     CreateTable ''balance_changes'' [''id'', ''poolid'', ''miner'', ''amount_sats'', ''usage'', ''blockheight'', ''created''] [''id''],
     CreateIndex False ''idx_balance_changes_pool_miner'' ''balance_changes'' [''poolid'', ''miner'', ''created''],
     CreateTable ''payments''
       [''id'', ''poolid'', ''miner'', ''address'', ''amount_sats'', ''txid'', ''status'', ''batch_id'', ''created'', ''updated''] [''id''],
     CreateIndex False ''idx_payments_pool_status'' ''payments'' [''poolid'', ''status''],
     CreateIndex False ''idx_payments_pool_miner'' ''payments'' [''poolid'', ''miner'', ''created''],
     AddColumns ''shares'' [''id''],
     CreateIndex True ''uq_shares_id_created'' ''shares'' [''id'', ''created'']]"

subsection \<open>Applying them\<close>

text \<open>A transaction commits, fails before it does, or commits although the client sees an error.\<close>

datatype migration_outcome = MigrationOk | MigrationFails | MigrationCommitsThenFails

datatype migration_error = BootstrapFailed | VersionFailed | MigrationFailed nat

definition current_version :: "schema \<Rightarrow> nat" where
  "current_version s = foldl max 0 (sc_versions s)"

definition record_version :: "nat \<Rightarrow> schema \<Rightarrow> schema" where
  "record_version v s = (if v \<in> set (sc_versions s) then s else s\<lparr>sc_versions := sc_versions s @ [v]\<rparr>)"

fun migrate_from :: "ddl list \<Rightarrow> (nat \<Rightarrow> migration_outcome) \<Rightarrow> nat list \<Rightarrow> schema \<Rightarrow> schema \<times> (migration_error + unit)" where
  "migrate_from ms out [] s = (s, Inr ())"
| "migrate_from ms out (v # vs) s =
     (case run_ddl (ms ! (v - 1)) s of None \<Rightarrow> (s, Inl (MigrationFailed v))
      | Some s1 \<Rightarrow>
        (case out v of
           MigrationFails \<Rightarrow> (s, Inl (MigrationFailed v))
         | MigrationCommitsThenFails \<Rightarrow> (record_version v s1, Inl (MigrationFailed v))
         | MigrationOk \<Rightarrow> migrate_from ms out vs (record_version v s1)))"

record migration_env =
  me_bootstrap :: migration_outcome
  me_version_ok :: bool
  me_apply :: "nat \<Rightarrow> migration_outcome"

definition apply_migrations :: "ddl list \<Rightarrow> migration_env \<Rightarrow> schema \<Rightarrow> schema \<times> (migration_error + unit)" where
  "apply_migrations ms env s =
     (case run_ddl (ms ! 0) s of None \<Rightarrow> (s, Inl BootstrapFailed)
      | Some s1 \<Rightarrow>
        if me_bootstrap env = MigrationFails then (s, Inl BootstrapFailed)
        else if me_bootstrap env = MigrationCommitsThenFails then (s1, Inl BootstrapFailed)
        else if \<not> me_version_ok env then (s1, Inl VersionFailed)
        else migrate_from ms (me_apply env) [current_version s1 + 1 ..< length ms + 1] s1)"

subsection \<open>Opening the store\<close>

datatype store_error = BadDsn | PoolFailed | PingFailed | MigrateError migration_error

record store_env =
  oe_dsn_ok :: bool
  oe_pool_ok :: bool
  oe_ping_ok :: bool
  oe_migrations :: migration_env

definition new_store :: "store_env \<Rightarrow> schema \<Rightarrow> schema \<times> (store_error + unit)" where
  "new_store env s =
     (if \<not> oe_dsn_ok env then (s, Inl BadDsn)
      else if \<not> oe_pool_ok env then (s, Inl PoolFailed)
      else if \<not> oe_ping_ok env then (s, Inl PingFailed)
      else case apply_migrations migrations (oe_migrations env) s of
          (s', Inl e) \<Rightarrow> (s', Inl (MigrateError e))
        | (s', Inr _) \<Rightarrow> (s', Inr ()))"

subsection \<open>Every start brings the schema forward\<close>

text \<open>The schema after the first \<open>k\<close> statements, each recorded.\<close>

fun schema_after :: "ddl list \<Rightarrow> nat \<Rightarrow> schema" where
  "schema_after ms 0 = empty_schema"
| "schema_after ms (Suc k) = record_version (Suc k) (the (run_ddl (ms ! k) (schema_after ms k)))"

definition migrates :: "ddl list \<Rightarrow> bool" where
  "migrates ms \<longleftrightarrow> list_all (\<lambda>k. run_ddl (ms ! k) (schema_after ms k) \<noteq> None) [0 ..< length ms]
     \<and> list_all (\<lambda>k. run_ddl (ms ! 0) (schema_after ms k) = Some (schema_after ms k)) [1 ..< length ms + 1]
     \<and> run_ddl (ms ! 0) (the (run_ddl (ms ! 0) empty_schema)) = run_ddl (ms ! 0) empty_schema
     \<and> sc_versions (the (run_ddl (ms ! 0) empty_schema)) = []"

text \<open>The states a database can be in: after some of the statements, or with the bootstrap statement alone.\<close>

definition stage :: "ddl list \<Rightarrow> nat \<Rightarrow> schema \<Rightarrow> bool" where
  "stage ms k s \<longleftrightarrow> k \<le> length ms \<and> (s = schema_after ms k \<or> k = 0 \<and> Some s = run_ddl (ms ! 0) empty_schema)"

lemma run_ddl_versions: "run_ddl d s = Some s' \<Longrightarrow> sc_versions s' = sc_versions s"
  by (cases d) (auto split: if_splits)

lemma max_upto: "foldl max (0 :: nat) [1 ..< Suc k] = k"
  by (induction k) simp_all

lemma versions_after:
  assumes "migrates ms" and "k \<le> length ms"
  shows "sc_versions (schema_after ms k) = [1 ..< Suc k]"
  using assms(2)
proof (induction k)
  case 0
  then show ?case by (simp add: empty_schema_def)
next
  case (Suc k)
  have "run_ddl (ms ! k) (schema_after ms k) \<noteq> None" using assms(1) Suc.prems by (auto simp: migrates_def list_all_iff)
  then obtain s where s: "run_ddl (ms ! k) (schema_after ms k) = Some s" by blast
  then show ?case using run_ddl_versions [OF s] Suc by (simp add: record_version_def)
qed

lemma migrate_from_stage:
  assumes "migrates ms" and "stage ms k s" and "vs = [Suc k ..< Suc (length ms)]"
    and "migrate_from ms out vs s = (s', r)"
  shows "\<exists>k'. k \<le> k' \<and> stage ms k' s' \<and> (r = Inr () \<longrightarrow> vs = [] \<and> s' = s \<or> s' = schema_after ms (length ms))"
  using assms(2-)
proof (induction vs arbitrary: k s)
  case Nil
  then show ?case by auto
next
  case (Cons v vs)
  have v: "v = Suc k" and vs: "vs = [Suc (Suc k) ..< Suc (length ms)]" and k: "k < length ms"
    using Cons.prems(2) by (subst (asm) upt_rec; simp split: if_splits del: upt_Suc)+
  have n: "run_ddl (ms ! k) s = Some (the (run_ddl (ms ! k) (schema_after ms k)))"
  proof (cases "s = schema_after ms k")
    case True
    then show ?thesis using assms(1) k by (auto simp: migrates_def list_all_iff)
  next
    case False
    then have "k = 0" "Some s = run_ddl (ms ! 0) empty_schema" using Cons.prems(1) by (auto simp: stage_def)
    then show ?thesis using assms(1) by (cases "run_ddl (ms ! 0) empty_schema") (auto simp: migrates_def)
  qed
  have s1: "record_version v (the (run_ddl (ms ! k) (schema_after ms k))) = schema_after ms (Suc k)" by (simp add: v)
  have st: "stage ms (Suc k) (schema_after ms (Suc k))" using k by (simp add: stage_def)
  have i: "v - 1 = k" by (simp add: v)
  have m: "(case out v of MigrationFails \<Rightarrow> (s, Inl (MigrationFailed v))
      | MigrationCommitsThenFails \<Rightarrow> (schema_after ms (Suc k), Inl (MigrationFailed v))
      | MigrationOk \<Rightarrow> migrate_from ms out vs (schema_after ms (Suc k))) = (s', r)"
    using Cons.prems(3) unfolding migrate_from.simps i n option.case s1 .
  show ?case
  proof (cases "out v")
    case MigrationOk
    then have "migrate_from ms out vs (schema_after ms (Suc k)) = (s', r)" using m by simp
    with Cons.IH [OF st vs this] obtain k' where
      "Suc k \<le> k'" "stage ms k' s'" "r = Inr () \<longrightarrow> vs = [] \<and> s' = schema_after ms (Suc k) \<or> s' = schema_after ms (length ms)" by auto
    moreover have "vs = [] \<Longrightarrow> Suc k = length ms" using vs k by (auto simp del: upt_Suc)
    ultimately show ?thesis by (metis Suc_leD)
  next
    case MigrationFails
    then show ?thesis using m Cons.prems(1) by auto
  next
    case MigrationCommitsThenFails
    then have "s' = schema_after ms (Suc k)" "r \<noteq> Inr ()" using m by auto
    then show ?thesis using st le_SucI [OF le_refl [of k]] by blast
  qed
qed

lemma apply_stage:
  assumes "migrates ms" and "0 < length ms" and "stage ms k s" and "apply_migrations ms env s = (s', r)"
  shows "\<exists>k' \<ge> k. stage ms k' s' \<and> (r = Inr () \<longrightarrow> s' = schema_after ms (length ms))"
proof -
  obtain s1 where s1: "run_ddl (ms ! 0) s = Some s1" "stage ms k s1" "sc_versions s1 = [1 ..< Suc k]"
  proof (cases "k = 0")
    case True
    have e: "run_ddl (ms ! 0) empty_schema \<noteq> None" using assms(1,2) by (force simp: migrates_def list_all_iff)
    then obtain b where b: "run_ddl (ms ! 0) empty_schema = Some b" by blast
    then have "run_ddl (ms ! 0) s = Some b" "sc_versions b = []" using assms(1,3) True by (auto simp: migrates_def stage_def)
    then show ?thesis using that [of b] True b by (simp add: stage_def)
  next
    case False
    then have s: "s = schema_after ms k" "k \<le> length ms" using assms(3) by (auto simp: stage_def)
    then have "run_ddl (ms ! 0) s = Some s" using assms(1) False by (auto simp: migrates_def list_all_iff)
    then show ?thesis using that [of s] assms(3) s versions_after [OF assms(1) s(2)] by simp
  qed
  have c: "current_version s1 = k" using max_upto [of k] by (simp add: current_version_def s1(3))
  have k: "k \<le> length ms" using assms(3) by (simp add: stage_def)
  show ?thesis
  proof (cases "me_bootstrap env = MigrationOk \<and> me_version_ok env")
    case True
    then have m: "migrate_from ms (me_apply env) [Suc k ..< Suc (length ms)] s1 = (s', r)"
      using assms(4) by (simp add: apply_migrations_def s1(1) c del: upt_Suc)
    from migrate_from_stage [OF assms(1) s1(2) refl m] obtain k' where
      "k \<le> k'" "stage ms k' s'" "r = Inr () \<longrightarrow> [Suc k ..< Suc (length ms)] = [] \<and> s' = s1 \<or> s' = schema_after ms (length ms)" by blast
    moreover have "s1 = schema_after ms (length ms)" if "[Suc k ..< Suc (length ms)] = []"
      using that k s1(2) assms(2) by (auto simp: stage_def simp del: upt_Suc)
    ultimately show ?thesis by blast
  next
    case False
    then have "s' \<in> {s, s1} \<and> r \<noteq> Inr ()"
      using assms(4) by (cases "me_bootstrap env") (auto simp: apply_migrations_def s1(1))
    then show ?thesis using assms(3) s1(2) by auto
  qed
qed

lemma migrations_migrate: "migrates migrations"
  by code_simp

lemma new_store_stage:
  assumes "stage migrations k s"
  shows "\<exists>k' \<ge> k. stage migrations k' (fst (new_store env s))
    \<and> (snd (new_store env s) = Inr () \<longrightarrow> fst (new_store env s) = schema_after migrations 16)"
proof -
  obtain s' r where a: "apply_migrations migrations (oe_migrations env) s = (s', r)" by fastforce
  have n: "length migrations = 16" "0 < length migrations" by (simp_all add: migrations_def)
  from apply_stage [OF migrations_migrate n(2) assms a] show ?thesis
    using assms by (auto simp: new_store_def a n(1) split: sum.splits)
qed

definition starts :: "store_env list \<Rightarrow> schema" where
  "starts envs = foldl (\<lambda>s env. fst (new_store env s)) empty_schema envs"

lemma starts_stage: "\<exists>k. stage migrations k (starts envs)"
proof (induction envs rule: rev_induct)
  case Nil
  show ?case by (intro exI [of _ 0]) (simp add: starts_def stage_def)
next
  case (snoc env envs)
  then show ?case using new_store_stage by (fastforce simp: starts_def)
qed

text \<open>What the statements of the program name.\<close>

definition serves_the_code :: "schema \<Rightarrow> bool" where
  "serves_the_code s \<longleftrightarrow>
     has_columns s ''shares'' [''id'', ''poolid'', ''blockheight'', ''difficulty'', ''networkdifficulty'', ''miner'', ''worker'', ''useragent'',
       ''ipaddress'', ''source'', ''created'']
     \<and> has_columns s ''blocks'' [''id'', ''poolid'', ''blockheight'', ''networkdifficulty'', ''status'', ''confirmationprogress'', ''confirmations'',
       ''miner'', ''worker'', ''hash'', ''source'', ''reward_sats'', ''rewarded'', ''created'']
     \<and> has_columns s ''balances'' [''poolid'', ''miner'', ''amount_sats'', ''updated'']
     \<and> has_columns s ''balance_changes'' [''poolid'', ''miner'', ''amount_sats'', ''usage'', ''blockheight'', ''created'']
     \<and> has_columns s ''payments'' [''id'', ''poolid'', ''miner'', ''address'', ''amount_sats'', ''txid'', ''status'', ''batch_id'', ''created'', ''updated'']
     \<and> map_of (sc_indexes s) ''uq_shares_id_created'' = Some (True, ''shares'', [''id'', ''created''])
     \<and> map_of (sc_indexes s) ''idx_blocks_pool_height_hash'' = Some (True, ''blocks'', [''poolid'', ''blockheight'', ''hash''])
     \<and> map_option snd (map_of (sc_tables s) ''balances'') = Some [''poolid'', ''miner'']"

text \<open>
  C22: every start brings the schema forward and none breaks it. Whatever fails in whatever starts of the programs on one database,
  a commit whose client sees an error included, the schema is at every moment that after the first few migrations,
  each recorded with its number, and never goes back; a start that succeeds leaves all sixteen applied: the tables, columns,
  unique indexes and keys that the program's statements name are there.
\<close>

theorem migrations_converge:
  shows "(\<exists>k \<le> 16. stage migrations k (starts envs) \<and> (\<exists>k' \<ge> k. stage migrations k' (starts (envs @ [env]))))
    \<and> (snd (new_store env (starts envs)) = Inr () \<longrightarrow>
         starts (envs @ [env]) = schema_after migrations 16 \<and> serves_the_code (starts (envs @ [env])))"
proof -
  obtain k where k: "stage migrations k (starts envs)" using starts_stage by blast
  have l: "k \<le> 16" using k by (simp add: stage_def migrations_def)
  have s: "starts (envs @ [env]) = fst (new_store env (starts envs))" by (simp add: starts_def)
  have "serves_the_code (schema_after migrations 16)" by code_simp
  then show ?thesis using new_store_stage [OF k, of env] k l unfolding s by auto
qed

text \<open>A start whose fifth migration commits with an error, then one that succeeds.\<close>

definition sample_start :: "(nat \<Rightarrow> migration_outcome) \<Rightarrow> store_env" where
  "sample_start out = \<lparr>oe_dsn_ok = True, oe_pool_ok = True, oe_ping_ok = True,
     oe_migrations = \<lparr>me_bootstrap = MigrationOk, me_version_ok = True, me_apply = out\<rparr>\<rparr>"

theorem migrations_converge_witness:
  "sc_versions (starts [sample_start (\<lambda>v. if v = 5 then MigrationCommitsThenFails else MigrationOk)]) = [1, 2, 3, 4, 5]
   \<and> starts [sample_start (\<lambda>v. if v = 5 then MigrationCommitsThenFails else MigrationOk), sample_start (\<lambda>_. MigrationOk)]
     = schema_after migrations 16"
proof -
  let ?a = "sample_start (\<lambda>v. if v = 5 then MigrationCommitsThenFails else MigrationOk)"
  have "sc_versions (starts [?a]) = [1, 2, 3, 4, 5]" "snd (new_store (sample_start (\<lambda>_. MigrationOk)) (starts [?a])) = Inr ()"
    by code_simp+
  then show ?thesis using migrations_converge [of "[?a]" "sample_start (\<lambda>_. MigrationOk)"] by simp
qed

end
