(* ===== verification/Rpc.thy ===== *)
theory Rpc
  imports Protocol
begin

text \<open>
  \<open>internal/coins/rpc/client.go\<close>: the JSON-RPC client every daemon is called through. The daemon and the network
  are one argument, \<open>serve\<close>: what a posted request does to their state and what comes back of it, \<open>None\<close> when the exchange fails or runs
  into the timeout. \<open>encoding/json\<close> is the arguments \<open>marshal\<close> and \<open>parse\<close> on texts; decoding the parsed value into the envelope
  and its error object is written out, with field names matched up to the case of ASCII letters.
\<close>

subsection \<open>The client\<close>

record rpc_options =
  rpo_url :: string
  rpo_user :: string
  rpo_password :: string
  rpo_timeout :: int

record rpc_client =
  rpk_url :: string
  rpk_user :: string
  rpk_password :: string
  rpk_timeout :: int
  rpk_next_id :: "64 word"

definition new_rpc_client :: "rpc_options \<Rightarrow> rpc_client" where
  "new_rpc_client opts =
     \<lparr>rpk_url = rpo_url opts, rpk_user = rpo_user opts, rpk_password = rpo_password opts,
      rpk_timeout = (if rpo_timeout opts \<le> 0 then 15000000000 else rpo_timeout opts), rpk_next_id = 0\<rparr>"

record rpc_request =
  rpr_jsonrpc :: string
  rpr_id :: "64 word"
  rpr_method :: string
  rpr_params :: json

record http_request =
  hq_url :: string
  hq_content_type :: string
  hq_basic_auth :: "(string \<times> string) option"
  hq_timeout :: int
  hq_body :: bytes

text \<open>A reply: its status, the bytes of its body that arrive and whether it breaks off after them.\<close>

record http_reply =
  hp_status :: int
  hp_body :: bytes
  hp_broken :: bool

datatype rpc_error =
    MarshalFailed
  | BadRequest
  | TransportFailed
  | BodyFailed
  | HttpStatus int
  | DecodeFailed
  | DaemonError int string
  | DecodeResultFailed

subsection \<open>The envelope\<close>

text \<open>A JSON number decoded into an \<open>int\<close>: digits with an optional sign, in 64 bits.\<close>

definition json_int :: "string \<Rightarrow> int option" where
  "json_int s =
     (let (neg, ds) = (case s of c # cs \<Rightarrow> if c = CHR ''-'' then (True, cs) else (False, s) | [] \<Rightarrow> (False, []));
          n = (if neg then - digits_value ds else digits_value ds)
      in if ds = [] \<or> \<not> list_all (\<lambda>c. 48 \<le> (of_char c :: int) \<and> (of_char c :: int) \<le> 57) ds \<or> n < - (2 ^ 63) \<or> 2 ^ 63 \<le> n then None else Some n)"

type_synonym rpc_error_object = "int \<times> string"

text \<open>One field of the error object; a value of another kind is an error, \<open>null\<close> changes nothing.\<close>

definition error_field :: "rpc_error_object option \<Rightarrow> string \<times> json \<Rightarrow> rpc_error_object option" where
  "error_field e kv =
     (case e of None \<Rightarrow> None
      | Some (code, msg) \<Rightarrow>
        if equal_fold (fst kv) ''code''
        then (case snd kv of JNumber s \<Rightarrow> map_option (\<lambda>n. (n, msg)) (json_int s) | JNull \<Rightarrow> Some (code, msg) | _ \<Rightarrow> None)
        else if equal_fold (fst kv) ''message''
        then (case snd kv of JString s \<Rightarrow> Some (code, s) | JNull \<Rightarrow> Some (code, msg) | _ \<Rightarrow> None)
        else Some (code, msg))"

record envelope =
  env_result :: "json option"
  env_error :: "rpc_error_object option"

definition envelope_field :: "envelope option \<Rightarrow> string \<times> json \<Rightarrow> envelope option" where
  "envelope_field r kv =
     (case r of None \<Rightarrow> None
      | Some env \<Rightarrow>
        if equal_fold (fst kv) ''result'' then Some (env\<lparr>env_result := Some (snd kv)\<rparr>)
        else if equal_fold (fst kv) ''error''
        then (case snd kv of
            JNull \<Rightarrow> Some (env\<lparr>env_error := None\<rparr>)
          | JObject kvs \<Rightarrow>
            (case foldl error_field (Some (case env_error env of None \<Rightarrow> (0, []) | Some e \<Rightarrow> e)) kvs of
               None \<Rightarrow> None | Some e \<Rightarrow> Some (env\<lparr>env_error := Some e\<rparr>))
          | _ \<Rightarrow> None)
        else Some env)"

definition decode_envelope :: "json \<Rightarrow> envelope option" where
  "decode_envelope j =
     (case j of
        JNull \<Rightarrow> Some \<lparr>env_result = None, env_error = None\<rparr>
      | JObject kvs \<Rightarrow> foldl envelope_field (Some \<lparr>env_result = None, env_error = None\<rparr>) kvs
      | _ \<Rightarrow> None)"

subsection \<open>A call\<close>

definition body_limit :: nat where "body_limit = 2 ^ 25"

text \<open>\<open>ReadAll\<close> of the limited body: a break is noticed only before the limit.\<close>

definition read_body :: "http_reply \<Rightarrow> bytes option" where
  "read_body r = (if hp_broken r \<and> length (hp_body r) < body_limit then None else Some (take body_limit (hp_body r)))"

definition reply_envelope :: "(bytes \<Rightarrow> json option) \<Rightarrow> bytes \<Rightarrow> envelope option" where
  "reply_envelope parse raw = (case parse raw of None \<Rightarrow> None | Some j \<Rightarrow> decode_envelope j)"

text \<open>What a reply is turned into. \<open>want\<close> decodes the result, \<open>None\<close> when the caller passes nil.\<close>

definition reply_outcome ::
  "(bytes \<Rightarrow> json option) \<Rightarrow> (json \<Rightarrow> 'r option) option \<Rightarrow> http_reply \<Rightarrow> rpc_error + 'r option" where
  "reply_outcome parse want r =
     (case read_body r of None \<Rightarrow> Inl BodyFailed
      | Some raw \<Rightarrow>
        (case reply_envelope parse raw of
           None \<Rightarrow> if hp_status r \<noteq> 200 then Inl (HttpStatus (hp_status r)) else Inl DecodeFailed
         | Some env \<Rightarrow>
           (case env_error env of Some (code, msg) \<Rightarrow> Inl (DaemonError code msg)
            | None \<Rightarrow>
              if hp_status r \<noteq> 200 then Inl (HttpStatus (hp_status r))
              else case want of None \<Rightarrow> Inr None
              | Some dec \<Rightarrow>
                (case Option.bind (env_result env) dec of None \<Rightarrow> Inl DecodeResultFailed | Some x \<Rightarrow> Inr (Some x)))))"

definition rpc_request_of :: "rpc_client \<Rightarrow> string \<Rightarrow> json option \<Rightarrow> rpc_request" where
  "rpc_request_of c method params =
     \<lparr>rpr_jsonrpc = ''1.0'', rpr_id = rpk_next_id c + 1, rpr_method = method,
      rpr_params = (case params of None \<Rightarrow> JArray [] | Some p \<Rightarrow> p)\<rparr>"

definition http_post :: "rpc_client \<Rightarrow> bytes \<Rightarrow> http_request" where
  "http_post c body =
     \<lparr>hq_url = rpk_url c, hq_content_type = ''application/json'',
      hq_basic_auth = (if rpk_user c \<noteq> [] \<or> rpk_password c \<noteq> [] then Some (rpk_user c, rpk_password c) else None),
      hq_timeout = rpk_timeout c, hq_body = body\<rparr>"

definition rpc_call ::
  "(rpc_request \<Rightarrow> bytes option) \<Rightarrow> (bytes \<Rightarrow> json option) \<Rightarrow> (string \<Rightarrow> bool) \<Rightarrow> ('w \<Rightarrow> http_request \<Rightarrow> 'w \<times> http_reply option)
     \<Rightarrow> rpc_client \<times> 'w \<Rightarrow> string \<Rightarrow> json option \<Rightarrow> (json \<Rightarrow> 'r option) option
     \<Rightarrow> (rpc_client \<times> 'w) \<times> (rpc_error + 'r option)" where
  "rpc_call marshal parse url_ok serve st method params want =
     (case st of (c, w) \<Rightarrow>
        let c' = c\<lparr>rpk_next_id := rpk_next_id c + 1\<rparr>
        in case marshal (rpc_request_of c method params) of
             None \<Rightarrow> ((c', w), Inl MarshalFailed)
           | Some body \<Rightarrow>
             if \<not> url_ok (rpk_url c) then ((c', w), Inl BadRequest)
             else (case serve w (http_post c body) of
                 (w', None) \<Rightarrow> ((c', w'), Inl TransportFailed)
               | (w', Some r) \<Rightarrow> ((c', w'), reply_outcome parse want r)))"

end
