(* ===== verification/Wallet.thy ===== *)
theory Wallet
  imports Rpc Payouts
begin

text \<open>
  The payout pass against the coin daemon's wallet (\<open>internal/payouts/payouts.go\<close> over \<open>internal/coins/rpc/client.go\<close>):
  \<open>sendmany\<close> as a call of the RPC client, and what the wallet has sent by then. The wallet's history is the list of its transactions, each
  with the outputs it was told to pay (before any fee taken from them). What the daemon and the network do with a posted request is an
  argument; the theorems compare the history with the tables.
\<close>

type_synonym chain = "(string \<times> (string \<times> int) list) list"

subsection \<open>sendmany\<close>

text \<open>The positional parameters: the empty account, the amounts, one confirmation, the comment and, when the fee is
  subtracted, the addresses it is taken from.\<close>

definition sendmany_params :: "send_call \<Rightarrow> json" where
  "sendmany_params call =
     JArray ([JString [], JObject (map (\<lambda>(a, s). (a, JString s)) (sc_amounts call)), JNumber ''1'', JString ''gostratum payout'']
       @ (case sc_subtract call of None \<Rightarrow> [] | Some as \<Rightarrow> [JArray (map JString as)]))"

record daemon_link =
  dl_marshal :: "rpc_request \<Rightarrow> bytes option"
  dl_parse :: "bytes \<Rightarrow> json option"
  dl_url_ok :: "string \<Rightarrow> bool"
  dl_serve :: "chain \<Rightarrow> http_request \<Rightarrow> chain \<times> http_reply option"

definition call_wallet :: "daemon_link \<Rightarrow> rpc_client \<times> chain \<Rightarrow> send_call \<Rightarrow> (rpc_client \<times> chain) \<times> (rpc_error + string)" where
  "call_wallet dl st call =
     (case rpc_call (dl_marshal dl) (dl_parse dl) (dl_url_ok dl) (dl_serve dl) st ''sendmany'' (Some (sendmany_params call)) (Some json_string) of
        (st', Inl e) \<Rightarrow> (st', Inl e)
      | (st', Inr r) \<Rightarrow> (st', Inr (case r of None \<Rightarrow> [] | Some txid \<Rightarrow> txid)))"

definition wallet_send ::
  "daemon_link \<Rightarrow> rpc_client \<times> chain \<Rightarrow> (string \<times> int) list \<Rightarrow> bool \<Rightarrow> (rpc_client \<times> chain) \<times> (rpc_error wallet_error + string)" where
  "wallet_send dl st outputs subtract_fee =
     (case send_call_of outputs subtract_fee of Inl e \<Rightarrow> (st, Inl e)
      | Inr call \<Rightarrow> let (st', r) = call_wallet dl st call in (st', settle_send r))"

lemma wallet_send_result: "snd (wallet_send dl st outs sub) = send_many (\<lambda>call. snd (call_wallet dl st call)) outs sub"
  by (simp add: wallet_send_def send_many_def Let_def split: sum.splits prod.splits)

subsection \<open>A pass\<close>

record payoutd =
  pd_client :: rpc_client
  pd_chain :: chain
  pd_db :: db

text \<open>What a pass asks the wallet to send, if it gets that far.\<close>

definition asked :: "payout_options \<Rightarrow> 'w payout_env \<Rightarrow> db \<Rightarrow> (string \<times> int) list option" where
  "asked opts env d =
     (if \<not> ye_stuck_ok env then None
      else case snd (begin_payout (ye_begin env) d (yo_pool opts) (payout_min opts) (ye_batch_id env) (ye_now env) (payout_validate opts)) of
        Inl e \<Rightarrow> None
      | Inr batch \<Rightarrow> if batch = [] then None else Some (batch_outputs batch))"

definition daemon_pass ::
  "daemon_link \<Rightarrow> payout_options \<Rightarrow> rpc_error payout_env \<Rightarrow> payoutd \<Rightarrow> payoutd \<times> rpc_error payout_result" where
  "daemon_pass dl opts env s =
     (let st = (pd_client s, pd_chain s);
          (d', res) = payout_pass opts (env\<lparr>ye_wallet := \<lambda>outs sub. snd (wallet_send dl st outs sub)\<rparr>) (pd_db s);
          st' = (case asked opts env (pd_db s) of None \<Rightarrow> st | Some outs \<Rightarrow> fst (wallet_send dl st outs (yo_subtract_fee opts)))
      in (\<lparr>pd_client = fst st', pd_chain = snd st', pd_db = d'\<rparr>, res))"

subsection \<open>What the daemon is told\<close>

text \<open>The amounts of a call as the daemon reads them.\<close>

definition call_amounts :: "rpc_request \<Rightarrow> (string \<times> int) list" where
  "call_amounts req =
     (case rpr_params req of
        JArray (_ # JObject kvs # _) \<Rightarrow> map (\<lambda>(a, j). (a, case j of JString s \<Rightarrow> parse_amount s | _ \<Rightarrow> 0)) kvs
      | _ \<Rightarrow> [])"

text \<open>What the client makes of the outcome of an exchange.\<close>

definition call_answer :: "daemon_link \<Rightarrow> http_reply option \<Rightarrow> rpc_error + string" where
  "call_answer dl reply =
     (case reply of None \<Rightarrow> Inl TransportFailed
      | Some r \<Rightarrow> (case reply_outcome (dl_parse dl) (Some json_string) r of
          Inl e \<Rightarrow> Inl e | Inr None \<Rightarrow> Inr [] | Inr (Some txid) \<Rightarrow> Inr txid))"

text \<open>The two things a daemon can do with a \<open>sendmany\<close>: refuse it, or send the transaction.\<close>

definition refuses :: "daemon_link \<Rightarrow> chain \<Rightarrow> http_request \<Rightarrow> bool" where
  "refuses dl ch h \<longleftrightarrow> fst (dl_serve dl ch h) = ch \<and> isl (call_answer dl (snd (dl_serve dl ch h)))"

definition sends :: "daemon_link \<Rightarrow> chain \<Rightarrow> http_request \<Rightarrow> string \<Rightarrow> (string \<times> int) list \<Rightarrow> bool" where
  "sends dl ch h txid outs \<longleftrightarrow> fst (dl_serve dl ch h) = ch @ [(txid, outs)]"

text \<open>No answer is lost: a transaction that is sent is answered with its id, and a refusal with an error.\<close>

definition answers_reach_us :: "daemon_link \<Rightarrow> bool" where
  "answers_reach_us dl \<longleftrightarrow>
     (\<forall>ch c req body. dl_marshal dl req = Some body \<longrightarrow> rpr_method req = ''sendmany'' \<longrightarrow>
        refuses dl ch (http_post c body)
        \<or> (\<exists>txid. sends dl ch (http_post c body) txid (call_amounts req) \<and> trim_space txid \<noteq> []
             \<and> call_answer dl (snd (dl_serve dl ch (http_post c body))) = Inr txid))"

text \<open>What the tables and the wallet say was paid to a set of addresses.\<close>

definition paid_to :: "db \<Rightarrow> string set \<Rightarrow> int" where
  "paid_to d A = (\<Sum>q\<leftarrow>db_payments d. if pm_status q \<noteq> Failed \<and> pm_address q \<in> A then pm_amount q else 0)"

definition outputs_to :: "(string \<times> int) list \<Rightarrow> string set \<Rightarrow> int" where
  "outputs_to outs A = (\<Sum>(a, x)\<leftarrow>outs. if a \<in> A then x else 0)"

definition sent_to :: "chain \<Rightarrow> string set \<Rightarrow> int" where
  "sent_to ch A = (\<Sum>(txid, outs)\<leftarrow>ch. outputs_to outs A)"

definition amounts_fit :: "(string \<times> int) list \<Rightarrow> bool" where
  "amounts_fit outs \<longleftrightarrow> (\<forall>(a, x) \<in> set outs. x < 2 ^ 63)"

definition fresh_batch :: "'w payout_env \<Rightarrow> db \<Rightarrow> bool" where
  "fresh_batch env d \<longleftrightarrow> (\<forall>q \<in> set (db_payments d). pm_batch q \<noteq> ye_batch_id env)"

subsection \<open>One send\<close>

text \<open>The request a send posts, if it gets that far.\<close>

definition posted :: "daemon_link \<Rightarrow> rpc_client \<Rightarrow> (string \<times> int) list \<Rightarrow> bool \<Rightarrow> http_request option" where
  "posted dl c outs sub =
     (case send_call_of outs sub :: rpc_error wallet_error + send_call of Inl e \<Rightarrow> None
      | Inr call \<Rightarrow>
        (case dl_marshal dl (rpc_request_of c ''sendmany'' (Some (sendmany_params call))) of None \<Rightarrow> None
         | Some body \<Rightarrow> if dl_url_ok dl (rpk_url c) then Some (http_post c body) else None))"

lemma wallet_send_unposted:
  "posted dl c outs sub = None \<Longrightarrow> snd (fst (wallet_send dl (c, ch) outs sub)) = ch \<and> isl (snd (wallet_send dl (c, ch) outs sub))"
  by (simp add: posted_def wallet_send_def call_wallet_def rpc_call_def settle_send_def Let_def split: sum.splits option.splits if_splits)

lemma wallet_send_posted:
  assumes "posted dl c outs sub = Some h"
  shows "snd (fst (wallet_send dl (c, ch) outs sub)) = fst (dl_serve dl ch h)"
    and "snd (wallet_send dl (c, ch) outs sub) = settle_send (call_answer dl (snd (dl_serve dl ch h)))"
proof -
  obtain call body where c: "(send_call_of outs sub :: rpc_error wallet_error + send_call) = Inr call"
    "dl_marshal dl (rpc_request_of c ''sendmany'' (Some (sendmany_params call))) = Some body"
    "dl_url_ok dl (rpk_url c)" "h = http_post c body"
    using assms by (auto simp: posted_def split: sum.splits option.splits if_splits)
  have "snd (fst (wallet_send dl (c, ch) outs sub)) = fst (dl_serve dl ch h)
      \<and> snd (wallet_send dl (c, ch) outs sub) = settle_send (call_answer dl (snd (dl_serve dl ch h)))"
    using c by (cases "dl_serve dl ch h"; cases "snd (dl_serve dl ch h)")
      (auto simp: wallet_send_def call_wallet_def rpc_call_def call_answer_def Let_def split: sum.splits option.splits)
  then show "snd (fst (wallet_send dl (c, ch) outs sub)) = fst (dl_serve dl ch h)"
    and "snd (wallet_send dl (c, ch) outs sub) = settle_send (call_answer dl (snd (dl_serve dl ch h)))" by auto
qed

text \<open>The amounts the daemon reads are the outputs of the pass.\<close>

lemma amount_read:
  assumes "0 < x" and "x < 2 ^ 63"
  shows "parse_amount (the (sats_to_amount_string (word_of_int x))) = x"
proof -
  have "sint (word_of_int x :: 64 word) = signed_take_bit 63 x" by (simp add: signed_of_int)
  also have "\<dots> = x" using assms by (intro signed_take_bit_int_eq_self) simp_all
  finally have s: "sint (word_of_int x :: 64 word) = x" .
  then have "sats_to_amount_string (word_of_int x) = Some (amount_text x)"
    using amount_string_nonneg [of "word_of_int x"] assms(1) by simp
  then show ?thesis using parse_amount_text(1) [of x] assms(1) by simp
qed

lemma call_amounts_outs:
  assumes "send_call_of outs sub = Inr call" and "amounts_fit outs"
  shows "call_amounts (rpc_request_of c m (Some (sendmany_params call))) = outs"
proof -
  have call: "sc_amounts call = map (\<lambda>(a, x). (a, the (sats_to_amount_string (word_of_int x)))) outs"
    and pos: "filter (\<lambda>(a, x). x \<le> 0) outs = []"
    using assms(1) by (auto simp: send_call_of_def split: list.splits prod.splits if_splits)
  have "call_amounts (rpc_request_of c m (Some (sendmany_params call)))
      = map (\<lambda>(a, x). (a, parse_amount (the (sats_to_amount_string (word_of_int x))))) outs"
    by (simp add: call_amounts_def rpc_request_of_def sendmany_params_def call split_def)
  also have "\<dots> = outs"
  proof (rule map_idI)
    fix ax assume m: "ax \<in> set outs"
    obtain a x where ax: "ax = (a, x)" by (cases ax)
    have "0 < x" using pos m by (auto simp: filter_empty_conv ax)
    moreover have "x < 2 ^ 63" using assms(2) m by (auto simp: amounts_fit_def ax)
    ultimately show "(case ax of (a, x) \<Rightarrow> (a, parse_amount (the (sats_to_amount_string (word_of_int x))))) = ax"
      by (simp add: ax amount_read)
  qed
  finally show ?thesis .
qed

lemma posted_request:
  assumes "posted dl c outs sub = Some h" and "amounts_fit outs"
  obtains req body where "h = http_post c body" "dl_marshal dl req = Some body" "rpr_method req = ''sendmany''" "call_amounts req = outs"
proof -
  obtain call body where c: "(send_call_of outs sub :: rpc_error wallet_error + send_call) = Inr call"
    "dl_marshal dl (rpc_request_of c ''sendmany'' (Some (sendmany_params call))) = Some body" "h = http_post c body"
    using assms(1) by (auto simp: posted_def split: sum.splits option.splits if_splits)
  show ?thesis
    by (rule that [OF c(3,2) _ call_amounts_outs [OF c(1) assms(2)]]) (simp add: rpc_request_of_def)
qed

text \<open>When answers arrive, a send either fails and sends nothing, or sends exactly its outputs.\<close>

lemma wallet_send_truly:
  assumes "answers_reach_us dl" and "amounts_fit outs"
  shows "(snd (fst (wallet_send dl (c, ch) outs sub)) = ch \<and> isl (snd (wallet_send dl (c, ch) outs sub)))
    \<or> (\<exists>txid. snd (fst (wallet_send dl (c, ch) outs sub)) = ch @ [(txid, outs)] \<and> snd (wallet_send dl (c, ch) outs sub) = Inr txid)"
proof (cases "posted dl c outs sub")
  case None
  then show ?thesis using wallet_send_unposted by blast
next
  case (Some h)
  obtain req body where r: "h = http_post c body" "dl_marshal dl req = Some body" "rpr_method req = ''sendmany''" "call_amounts req = outs"
    using posted_request [OF Some assms(2)] .
  note w = wallet_send_posted [OF Some, of ch]
  from assms(1) r have "refuses dl ch h \<or> (\<exists>txid. sends dl ch h txid outs \<and> trim_space txid \<noteq> []
      \<and> call_answer dl (snd (dl_serve dl ch h)) = Inr txid)"
    unfolding answers_reach_us_def by blast
  then show ?thesis
    unfolding w by (elim disjE exE) (auto simp: refuses_def sends_def settle_send_def isl_def)
qed

subsection \<open>The rows of a pass\<close>

lemma mark_rows:
  "mark_payments_sent out d b txid = (d', r) \<Longrightarrow>
   db_payments d' = db_payments d
   \<or> db_payments d' = map (\<lambda>p. if in_flight b p then p\<lparr>pm_status := Sent, pm_txid := txid\<rparr> else p) (db_payments d)"
  by (cases out) (auto simp: mark_payments_sent_def finish_tx_def split: if_splits)

lemma refund_one_payments: "db_payments (foldl refund_one d ps) = db_payments d"
  by (induction ps arbitrary: d) (simp_all add: refund_one_def)

lemma refund_rows:
  "refund_batch out d b = (d', r) \<Longrightarrow>
   db_payments d' = db_payments d
   \<or> db_payments d' = map (\<lambda>p. if in_flight b p then p\<lparr>pm_status := Failed\<rparr> else p) (db_payments d)"
  by (cases out) (auto simp: refund_batch_def finish_tx_def fail_batch_def refund_one_payments Let_def split: if_splits)

lemma fresh_rows:
  assumes "\<forall>q \<in> set ps. pm_batch q \<noteq> b"
  shows "map (\<lambda>p. if in_flight b p then g p else p) (ps @ map f new) = ps @ map ((\<lambda>p. if in_flight b p then g p else p) \<circ> f) new"
  using assms by (auto intro: map_idI simp: in_flight_def)

text \<open>A pass appends rows; if the wallet sent what it was asked to, they are the batch and none is failed.\<close>

lemma pass_rows:
  assumes "books d" and fresh: "fresh_batch env d" and "payout_pass opts env d = (d', res)"
  obtains new f where "db_payments d' = db_payments d @ map f new"
    and "\<And>y. y \<in> set new \<Longrightarrow> pm_address (f y) = py_address y \<and> pm_amount (f y) = py_amount y"
    and "\<And>outs txid. asked opts env d = Some outs \<Longrightarrow> ye_wallet env outs (yo_subtract_fee opts) = Inr txid \<Longrightarrow>
      outs = batch_outputs new \<and> (\<forall>y \<in> set new. pm_status (f y) \<noteq> Failed)"
proof -
  let ?b = "ye_batch_id env" and ?row = "row_of (ye_now env)"
  obtain d1 r1 where b: "begin_payout (ye_begin env) d (yo_pool opts) (payout_min opts) ?b (ye_now env) (payout_validate opts) = (d1, r1)"
    by fastforce
  obtain new where new: "db_payments d1 = db_payments d @ map ?row new" "\<forall>batch. r1 = Inr batch \<longrightarrow> new = batch"
    using begin_detail [OF assms(1) b] by blast
  note fr = fresh_rows [OF fresh [unfolded fresh_batch_def]]
  have row: "pm_address (?row y) = py_address y \<and> pm_amount (?row y) = py_amount y \<and> pm_status (?row y) \<noteq> Failed" for y
    by (simp add: row_of_def)
  consider "d' = d" "asked opts env d = None"
    | "d' = d1" "asked opts env d = None"
    | w r where "asked opts env d = Some (batch_outputs new)" "ye_wallet env (batch_outputs new) (yo_subtract_fee opts) = Inl w"
        "refund_batch (ye_refund env) d1 ?b = (d', r)"
    | txid r where "asked opts env d = Some (batch_outputs new)" "ye_wallet env (batch_outputs new) (yo_subtract_fee opts) = Inr txid"
        "mark_payments_sent (ye_mark env) d1 ?b txid = (d', r)"
    using assms(3) b new(2) by (auto simp: payout_pass_def asked_def split: if_splits sum.splits prod.splits)
  then show ?thesis
  proof cases
    case 1
    show ?thesis by (rule that [of "\<lambda>y. undefined" "[]"]) (simp_all add: 1)
  next
    case 2
    show ?thesis by (rule that [of ?row new]) (simp_all add: 2 new(1) row)
  next
    case (3 w r)
    from refund_rows [OF 3(3)] show ?thesis
    proof
      assume "db_payments d' = db_payments d1"
      then show ?thesis using 3 by (intro that [of ?row new]) (simp_all add: new(1) row)
    next
      assume "db_payments d' = map (\<lambda>p. if in_flight ?b p then p\<lparr>pm_status := Failed\<rparr> else p) (db_payments d1)"
      then have "db_payments d' = db_payments d @ map ((\<lambda>p. if in_flight ?b p then p\<lparr>pm_status := Failed\<rparr> else p) \<circ> ?row) new" unfolding new(1) fr .
      then show ?thesis by (rule that) (use 3 row in auto)
    qed
  next
    case (4 txid r)
    from mark_rows [OF 4(3)] show ?thesis
    proof
      assume "db_payments d' = db_payments d1"
      then show ?thesis using 4 by (intro that [of ?row new]) (simp_all add: new(1) row)
    next
      assume "db_payments d' = map (\<lambda>p. if in_flight ?b p then p\<lparr>pm_status := Sent, pm_txid := txid\<rparr> else p) (db_payments d1)"
      then have "db_payments d' = db_payments d @ map ((\<lambda>p. if in_flight ?b p then p\<lparr>pm_status := Sent, pm_txid := txid\<rparr> else p) \<circ> ?row) new" unfolding new(1) fr .
      then show ?thesis by (rule that) (use 4 row in auto)
    qed
  qed
qed

lemma outputs_add: "outputs_to (add_output os a x) A = outputs_to os A + (if a \<in> A then x else 0)"
  by (induction os a x rule: add_output.induct) (auto simp: outputs_to_def)

lemma outputs_of_batch: "outputs_to (batch_outputs batch) A = (\<Sum>y\<leftarrow>batch. if py_address y \<in> A then py_amount y else 0)"
proof -
  have "outputs_to (foldl (\<lambda>os y. add_output os (py_address y) (py_amount y)) os batch) A
      = outputs_to os A + (\<Sum>y\<leftarrow>batch. if py_address y \<in> A then py_amount y else 0)" for os
    by (induction batch arbitrary: os) (simp_all add: outputs_add)
  from this [of "[]"] show ?thesis by (simp add: batch_outputs_def outputs_to_def)
qed

lemma pass_ledger_steps: "ledger_step\<^sup>*\<^sup>* d (fst (payout_pass opts env d))"
proof -
  obtain d1 r1 where b: "begin_payout (ye_begin env) d (yo_pool opts) (payout_min opts) (ye_batch_id env) (ye_now env)
      (payout_validate opts) = (d1, r1)"
    by fastforce
  have s: "ledger_step d d1" using PayoutBegun [of d "ye_begin env"] b by (metis fst_conv)
  then have "ledger_step\<^sup>*\<^sup>* d d1" "ledger_step\<^sup>*\<^sup>* d (fst (refund_batch out d1 x))"
    "ledger_step\<^sup>*\<^sup>* d (fst (mark_payments_sent out d1 x t))" for out x t
    using PayoutRefunded PayoutSent by (meson r_into_rtranclp rtranclp.rtrancl_into_rtrancl)+
  then show ?thesis
    using b by (auto simp: payout_pass_def split: sum.splits prod.splits) (metis fst_conv)+
qed

lemma pass_frame:
  "db_blocks (fst (payout_pass opts env d)) = db_blocks d \<and> db_shares (fst (payout_pass opts env d)) = db_shares d"
proof -
  obtain d1 r1 where b: "begin_payout (ye_begin env) d (yo_pool opts) (payout_min opts) (ye_batch_id env) (ye_now env)
      (payout_validate opts) = (d1, r1)"
    by fastforce
  have d1: "db_blocks d1 = db_blocks d \<and> db_shares d1 = db_shares d" using payout_frame b by (metis fst_conv)
  have "db_blocks d2 = db_blocks d \<and> db_shares d2 = db_shares d" if "refund_batch (ye_refund env) d1 x = (d2, r)" for d2 r x
    using refund_frame [of "ye_refund env" d1 x] d1 that by simp
  moreover have "db_blocks d2 = db_blocks d \<and> db_shares d2 = db_shares d" if "mark_payments_sent (ye_mark env) d1 x t = (d2, r)" for d2 r x t
    using mark_sent_frame [of "ye_mark env" d1 x t] d1 that by simp
  ultimately show ?thesis using b d1 by (simp add: payout_pass_def split: sum.splits prod.splits)
qed

subsection \<open>The wallet against the tables\<close>

lemma asked_wallet [simp]: "asked opts (env\<lparr>ye_wallet := w\<rparr>) d = asked opts env d"
  by (simp add: asked_def)

lemma sent_to_snoc: "sent_to (ch @ [(txid, outs)]) A = sent_to ch A + outputs_to outs A"
  by (simp add: sent_to_def)

lemma daemon_pass_parts:
  fixes s :: payoutd
  assumes "daemon_pass dl opts env s = (s', res)"
  defines "env' \<equiv> env\<lparr>ye_wallet := \<lambda>outs sub. snd (wallet_send dl (pd_client s, pd_chain s) outs sub)\<rparr>"
  shows "payout_pass opts env' (pd_db s) = (pd_db s', res)"
    and "asked opts env (pd_db s) = None \<Longrightarrow> pd_chain s' = pd_chain s"
    and "asked opts env (pd_db s) = Some outs \<Longrightarrow>
      pd_chain s' = snd (fst (wallet_send dl (pd_client s, pd_chain s) outs (yo_subtract_fee opts)))"
  using assms(1) by (auto simp: daemon_pass_def env'_def Let_def split: prod.splits)

lemma paid_to_rows:
  assumes "db_payments d' = db_payments d @ map f new"
    and "\<And>y. y \<in> set new \<Longrightarrow> pm_address (f y) = py_address y \<and> pm_amount (f y) = py_amount y"
  shows "paid_to d' A = paid_to d A + (\<Sum>y\<leftarrow>new. if pm_status (f y) \<noteq> Failed \<and> py_address y \<in> A then py_amount y else 0)"
proof -
  have "(\<Sum>y\<leftarrow>new. if pm_status (f y) \<noteq> Failed \<and> pm_address (f y) \<in> A then pm_amount (f y) else 0)
      = (\<Sum>y\<leftarrow>new. if pm_status (f y) \<noteq> Failed \<and> py_address y \<in> A then py_amount y else 0)"
    using assms(2) by (intro arg_cong [where f = sum_list] map_cong) simp_all
  then show ?thesis unfolding paid_to_def assms(1) by (simp add: comp_def)
qed

lemma pass_pays:
  assumes "books (pd_db s)" and "payments_nonneg (pd_db (fst (daemon_pass dl opts env s)))" and "answers_reach_us dl"
    and "fresh_batch env (pd_db s)" and fit: "\<forall>outs. asked opts env (pd_db s) = Some outs \<longrightarrow> amounts_fit outs"
  shows "sent_to (pd_chain (fst (daemon_pass dl opts env s))) A - sent_to (pd_chain s) A
    \<le> paid_to (pd_db (fst (daemon_pass dl opts env s))) A - paid_to (pd_db s) A"
proof -
  let ?st = "(pd_client s, pd_chain s)" and ?env = "env\<lparr>ye_wallet := \<lambda>outs sub. snd (wallet_send dl (pd_client s, pd_chain s) outs sub)\<rparr>"
  obtain s' res where p: "daemon_pass dl opts env s = (s', res)" by fastforce
  note parts = daemon_pass_parts [OF p]
  have fresh: "fresh_batch ?env (pd_db s)" using assms(4) by (simp add: fresh_batch_def)
  obtain new f where rows: "db_payments (pd_db s') = db_payments (pd_db s) @ map f new"
    "\<And>y. y \<in> set new \<Longrightarrow> pm_address (f y) = py_address y \<and> pm_amount (f y) = py_amount y"
    "\<And>outs txid. asked opts env (pd_db s) = Some outs \<Longrightarrow> snd (wallet_send dl ?st outs (yo_subtract_fee opts)) = Inr txid \<Longrightarrow>
      outs = batch_outputs new \<and> (\<forall>y \<in> set new. pm_status (f y) \<noteq> Failed)"
    by (rule pass_rows [OF assms(1) fresh parts(1)]) simp
  have paid: "paid_to (pd_db s') A
      = paid_to (pd_db s) A + (\<Sum>y\<leftarrow>new. if pm_status (f y) \<noteq> Failed \<and> py_address y \<in> A then py_amount y else 0)"
    by (rule paid_to_rows [OF rows(1)]) (rule rows(2))
  have nonneg: "0 \<le> py_amount y" if "y \<in> set new" for y
    using assms(2) rows(1) rows(2) [OF that] that by (force simp: p payments_nonneg_def)
  have "0 \<le> (\<Sum>y\<leftarrow>new. if pm_status (f y) \<noteq> Failed \<and> py_address y \<in> A then py_amount y else 0)"
    by (rule sum_list_nonneg) (auto simp: nonneg)
  then have up: "paid_to (pd_db s) A \<le> paid_to (pd_db s') A" using paid by linarith
  show ?thesis
  proof (cases "asked opts env (pd_db s)")
    case None
    then show ?thesis using up parts(2) by (simp add: p)
  next
    case (Some outs)
    note ch = parts(3) [OF Some]
    from wallet_send_truly [OF assms(3) fit [rule_format, OF Some], of "pd_client s" "pd_chain s" "yo_subtract_fee opts"]
    show ?thesis
    proof (elim disjE conjE exE)
      assume "snd (fst (wallet_send dl ?st outs (yo_subtract_fee opts))) = pd_chain s"
      then show ?thesis using up ch by (simp add: p)
    next
      fix txid assume w: "snd (fst (wallet_send dl ?st outs (yo_subtract_fee opts))) = pd_chain s @ [(txid, outs)]"
        "snd (wallet_send dl ?st outs (yo_subtract_fee opts)) = Inr txid"
      have o: "outs = batch_outputs new" and st: "\<forall>y \<in> set new. pm_status (f y) \<noteq> Failed" using rows(3) [OF Some w(2)] by auto
      have "(\<Sum>y\<leftarrow>new. if pm_status (f y) \<noteq> Failed \<and> py_address y \<in> A then py_amount y else 0)
          = (\<Sum>y\<leftarrow>new. if py_address y \<in> A then py_amount y else 0)"
        using st by (intro arg_cong [where f = sum_list] map_cong) auto
      then have "paid_to (pd_db s') A = paid_to (pd_db s) A + outputs_to outs A" unfolding paid o outputs_of_batch by simp
      then show ?thesis using ch w(1) by (simp add: p sent_to_snoc)
    qed
  qed
qed

text \<open>
  Everything that happens to the payout daemon, its wallet and the tables: other work on the tables that leaves the payments alone, a
  restart, and a pass with a fresh batch id, amounts that fit the code's integers and a daemon whose answers arrive. A crash inside a pass is a pass one of whose
  transactions does not commit.
\<close>

inductive pay_step :: "payoutd \<Rightarrow> payoutd \<Rightarrow> bool" where
  Accounting: "ledger_step (pd_db s) d' \<Longrightarrow> db_payments d' = db_payments (pd_db s) \<Longrightarrow> pay_step s (s\<lparr>pd_db := d'\<rparr>)"
| PayoutdStarts: "pay_step s (s\<lparr>pd_client := c\<rparr>)"
| PayoutPass: "answers_reach_us dl \<Longrightarrow> fresh_batch env (pd_db s) \<Longrightarrow>
    \<forall>outs. asked opts env (pd_db s) = Some outs \<longrightarrow> amounts_fit outs \<Longrightarrow> pay_step s (fst (daemon_pass dl opts env s))"

definition new_payoutd :: "rpc_client \<Rightarrow> payoutd" where
  "new_payoutd c = \<lparr>pd_client = c, pd_chain = [], pd_db = empty_db\<rparr>"

lemma pass_db: "pd_db (fst (daemon_pass dl opts env s))
    = fst (payout_pass opts (env\<lparr>ye_wallet := \<lambda>outs sub. snd (wallet_send dl (pd_client s, pd_chain s) outs sub)\<rparr>) (pd_db s))"
  by (simp add: daemon_pass_def Let_def split: prod.splits)

lemma pay_step_ledger: "pay_step s s' \<Longrightarrow> ledger_step\<^sup>*\<^sup>* (pd_db s) (pd_db s')"
  by (cases rule: pay_step.cases) (auto simp: pass_db intro: pass_ledger_steps)

lemma rewards_bounded_before:
  "ledger_step\<^sup>*\<^sup>* d d' \<Longrightarrow> rewards_bounded d' \<Longrightarrow> rewards_nonneg d \<Longrightarrow> rewards_bounded d"
proof (induction rule: converse_rtranclp_induct)
  case (step d e)
  then show ?case using rewards_bounded_back rewards_nonneg_step by blast
qed

lemma pay_history:
  assumes "pay_step\<^sup>*\<^sup>* (new_payoutd c) s"
  shows "ledger_step\<^sup>*\<^sup>* empty_db (pd_db s) \<and> (rewards_bounded (pd_db s) \<longrightarrow> sent_to (pd_chain s) A \<le> paid_to (pd_db s) A)"
  using assms
proof (induction rule: rtranclp_induct)
  case base
  then show ?case by (simp add: new_payoutd_def sent_to_def paid_to_def empty_db_def)
next
  case (step s s')
  have db: "ledger_step\<^sup>*\<^sup>* empty_db (pd_db s')" using step.IH pay_step_ledger [OF step.hyps(2)] by auto
  have "sent_to (pd_chain s') A \<le> paid_to (pd_db s') A" if b': "rewards_bounded (pd_db s')"
  proof -
    have "rewards_nonneg (pd_db s)" using ledger_inv_reachable step.IH by blast
    then have b: "rewards_bounded (pd_db s)" using rewards_bounded_before [OF pay_step_ledger [OF step.hyps(2)] b'] by blast
    have inv: "ledger_inv (pd_db s)" "ledger_inv (pd_db s')" using ledger_inv_reachable step.IH db b b' by blast+
    from step.hyps(2) show ?thesis
    proof cases
      case (PayoutPass dl env opts)
      note pass_pays [OF _ _ PayoutPass(2,3,4), of A, folded PayoutPass(1)]
      then show ?thesis using inv step.IH b by (force simp: ledger_inv_def)
    qed (use step.IH b in \<open>auto simp: paid_to_def\<close>)
  qed
  with db show ?case by blast
qed

text \<open>
  C4: as long as no answer is lost, nothing is paid twice. After any history of the accounting and of payout passes, whatever
  transactions failed or the daemon refused: what the wallet sent to any set of addresses is
  covered by payments to them that the tables still hold as sent or in flight. So the pool's miners together, paid or not, never get more than
  the rewards of the credited blocks.
\<close>

theorem sends_are_debited:
  assumes "pay_step\<^sup>*\<^sup>* (new_payoutd c) s" and "rewards_bounded (pd_db s)"
  shows "sent_to (pd_chain s) A \<le> paid_to (pd_db s) A
    \<and> sent_to (pd_chain s) UNIV + balances_total (pd_db s) + fee_total (pd_db s) \<le> rewarded_total (pd_db s)"
proof -
  note h = pay_history [OF assms(1)]
  have "paid_to (pd_db s) UNIV = paid_total (pd_db s)"
    unfolding paid_to_def paid_total_def by (rule arg_cong [where f = sum_list]) simp
  then show ?thesis using h [of A] h [of UNIV] assms(2) money_conserved [of "pd_db s"] by simp
qed

subsection \<open>An answer that is lost\<close>

text \<open>What a pass pays depends on the balances alone.\<close>

definition payees :: "payout_options \<Rightarrow> db \<Rightarrow> (string \<times> int) list" where
  "payees opts d =
     concat (map (\<lambda>(m, x). case payout_validate opts m of None \<Rightarrow> [] | Some a \<Rightarrow> [(a, x)]) (payable d (yo_pool opts) (payout_min opts)))"

lemma pay_fold_payees:
  "map (\<lambda>y. (py_address y, py_amount y)) (snd (foldl (pay_one validate pool b now) st cs))
     = map (\<lambda>y. (py_address y, py_amount y)) (snd st)
       @ concat (map (\<lambda>(m, x). case validate m of None \<Rightarrow> [] | Some a \<Rightarrow> [(a, x)]) cs)"
proof (induction cs arbitrary: st)
  case (Cons c cs)
  have "map (\<lambda>y. (py_address y, py_amount y)) (snd (pay_one validate pool b now st c))
      = map (\<lambda>y. (py_address y, py_amount y)) (snd st) @ (case c of (m, x) \<Rightarrow> case validate m of None \<Rightarrow> [] | Some a \<Rightarrow> [(a, x)])"
    by (cases st; cases c) (simp add: pay_one_def Let_def split: option.splits)
  then show ?case by (simp add: Cons.IH)
qed simp

lemma batch_outputs_payees:
  "batch_outputs batch = foldl (\<lambda>os (a, x). add_output os a x) [] (map (\<lambda>y. (py_address y, py_amount y)) batch)"
  by (simp add: batch_outputs_def foldl_map)

lemma asked_payees:
  "asked opts env d =
     (if ye_stuck_ok env \<and> ye_begin env = TxCommitted \<and> payees opts d \<noteq> []
      then Some (foldl (\<lambda>os (a, x). add_output os a x) [] (payees opts d)) else None)"
proof -
  obtain d1 batch where f: "foldl (pay_one (payout_validate opts) (yo_pool opts) (ye_batch_id env) (ye_now env)) (d, [])
      (payable d (yo_pool opts) (payout_min opts)) = (d1, batch)"
    by fastforce
  have "map (\<lambda>y. (py_address y, py_amount y)) batch = payees opts d"
    using pay_fold_payees [of "payout_validate opts" "yo_pool opts" "ye_batch_id env" "ye_now env" "(d, [])"
        "payable d (yo_pool opts) (payout_min opts)"] f by (simp add: payees_def)
  moreover from this have "batch = [] \<longleftrightarrow> payees opts d = []" by (metis map_is_Nil_conv)
  ultimately show ?thesis
    by (cases "ye_begin env") (auto simp: asked_def begin_payout_def f finish_tx_def batch_outputs_payees)
qed

lemma rows_determined:
  "map (\<lambda>r. (bl_pool r, bl_miner r)) rs' = map (\<lambda>r. (bl_pool r, bl_miner r)) rs \<Longrightarrow>
   distinct (map (\<lambda>r. (bl_pool r, bl_miner r)) rs) \<Longrightarrow> (\<And>p m. row_balance rs' p m = row_balance rs p m) \<Longrightarrow> rs' = rs"
proof (induction rs arbitrary: rs')
  case (Cons r rs)
  obtain r' rt where rs': "rs' = r' # rt" "bl_pool r' = bl_pool r" "bl_miner r' = bl_miner r"
    "map (\<lambda>r. (bl_pool r, bl_miner r)) rt = map (\<lambda>r. (bl_pool r, bl_miner r)) rs"
    using Cons.prems(1) by (cases rs') auto
  have "bl_amount r' = bl_amount r" using Cons.prems(3) [of "bl_pool r" "bl_miner r"] by (simp add: rs')
  then have "r' = r" using rs' by simp
  have none: "(p, m) \<notin> set (map (\<lambda>r. (bl_pool r, bl_miner r)) ls) \<Longrightarrow> row_balance ls p m = 0" for ls p m
    by (induction ls) auto
  have "row_balance rt p m = row_balance rs p m" for p m
  proof (cases "(p, m) = (bl_pool r, bl_miner r)")
    case True
    then have "(p, m) \<notin> set (map (\<lambda>r. (bl_pool r, bl_miner r)) rs)" using Cons.prems(2) by simp
    then show ?thesis using none [of p m rs] none [of p m rt] rs'(4) by simp
  next
    case False
    then show ?thesis using Cons.prems(3) [of p m] rs' by auto
  qed
  then have "rt = rs" using Cons.IH [OF rs'(4)] Cons.prems(2) by simp
  with \<open>r' = r\<close> show ?case by (simp add: rs')
qed simp

lemma pay_fold_keys:
  assumes "\<And>m x. (m, x) \<in> set cs \<Longrightarrow> (pool, m) \<in> set (keys (fst st))"
  shows "keys (fst (foldl (pay_one validate pool b now) st cs)) = keys (fst st)
    \<and> (\<forall>q \<in> set (db_payments (fst (foldl (pay_one validate pool b now) st cs))).
          q \<in> set (db_payments (fst st)) \<or> (pm_pool q, pm_miner q) \<in> set (keys (fst st)))"
  using assms
proof (induction cs arbitrary: st)
  case (Cons c cs)
  have one: "keys (fst (pay_one validate pool b now st c)) = keys (fst st)
      \<and> (\<forall>q \<in> set (db_payments (fst (pay_one validate pool b now st c))).
          q \<in> set (db_payments (fst st)) \<or> (pm_pool q, pm_miner q) \<in> set (keys (fst st)))"
    using Cons.prems [of "fst c" "snd c"]
    by (cases st; cases c) (auto simp: pay_one_def Let_def keys_def deduct_def deduct_balance_keys split: option.splits)
  then show ?case using Cons.IH [of "pay_one validate pool b now st c"] Cons.prems by auto
qed simp

lemma refund_fold_keys:
  "(\<And>q. q \<in> set ps \<Longrightarrow> (pm_pool q, pm_miner q) \<in> set (keys d)) \<Longrightarrow> keys (foldl refund_one d ps) = keys d"
proof (induction ps arbitrary: d)
  case (Cons q ps)
  have "keys (refund_one d q) = keys d" using Cons.prems by (simp add: refund_one_def keys_upsert)
  then show ?case using Cons by simp
qed simp

lemma refund_restores:
  assumes "books d" and "fresh_batch env d" and "payout_pass opts env d = (d', SendFailedRefunded w)"
  shows "db_balances d' = db_balances d"
proof -
  let ?b = "ye_batch_id env" and ?cs = "payable d (yo_pool opts) (payout_min opts)"
  obtain d1 batch where f: "foldl (pay_one (payout_validate opts) (yo_pool opts) ?b (ye_now env)) (d, []) ?cs = (d1, batch)" by fastforce
  have r: "\<exists>u. refund_batch (ye_refund env) d1 ?b = (d', Inr u)"
    using assms(3) by (auto simp: payout_pass_def begin_payout_def f finish_tx_def split: if_splits sum.splits prod.splits tx_outcome.splits)
  have k1: "keys d1 = keys d \<and> (\<forall>q \<in> set (db_payments d1). q \<in> set (db_payments d) \<or> (pm_pool q, pm_miner q) \<in> set (keys d))"
    using pay_fold_keys [of ?cs "yo_pool opts" "(d, [])" "payout_validate opts" ?b "ye_now env"] payable_candidates(2) [OF assms(1)]
    by (simp add: f)
  have "(pm_pool q, pm_miner q) \<in> set (keys d1)" if "q \<in> set (filter (in_flight ?b) (db_payments d1))" for q
    using that k1 assms(2) by (auto simp: fresh_batch_def in_flight_def)
  then have k2: "keys (foldl refund_one d1 (filter (in_flight ?b) (db_payments d1))) = keys d1" by (rule refund_fold_keys)
  have "keys d' = keys d1"
    using r k2 by (cases "ye_refund env") (auto simp: refund_batch_def finish_tx_def Let_def keys_def split: if_splits)
  then have k: "keys d' = keys d" using k1 by simp
  have "miner_balance d' p m = miner_balance d p m" for p m
    by (rule pass_refunded [OF assms(1) assms(2) [unfolded fresh_batch_def] assms(3)])
  then show ?thesis using k assms(1) by (intro rows_determined) (simp_all add: keys_def books_def miner_balance_rows)
qed

lemma refund_fails_rows:
  assumes "books d" and "fresh_batch env d" and "payout_pass opts env d = (d', SendFailedRefunded w)"
  shows "\<forall>q \<in> set (db_payments d'). pm_batch q = ye_batch_id env \<longrightarrow> pm_status q = Failed"
proof -
  have fresh: "\<forall>q \<in> set (db_payments d). pm_batch q \<noteq> ye_batch_id env" using assms(2) by (simp add: fresh_batch_def)
  from assms(1) fresh assms(3) show ?thesis
  proof (cases rule: payout_pass_cases)
    case (refund d1 new r2)
    have "db_payments d' = map (\<lambda>p. if in_flight (ye_batch_id env) p then p\<lparr>pm_status := Failed\<rparr> else p) (db_payments d1)"
      using refund_detail(2) [OF refund(2)] refund(4) by simp
    then show ?thesis using refund(1) fresh in_flight_row by (auto simp: batch_begun_def)
  qed auto
qed

text \<open>
  C20: one lost answer pays a batch twice. When the wallet sends a batch and no good answer comes back of it, because of the 15 second
  timeout, a broken connection, a proxy's error page, the pass takes the send for failed and refunds: every balance is as
  before, every payment of the batch is marked failed, nothing is left in flight for an operator to look at, and the transaction is on the chain. From there
  every pass that gets to the wallet asks it to send the very same outputs again.
\<close>

theorem lost_answer_pays_twice:
  assumes "books (pd_db s)" and "fresh_batch env (pd_db s)" and "asked opts env (pd_db s) = Some outs"
    and "posted dl (pd_client s) outs (yo_subtract_fee opts) = Some h"
    and "sends dl (pd_chain s) h txid outs" and "call_answer dl (snd (dl_serve dl (pd_chain s) h)) = Inl e"
    and "ye_refund env = TxCommitted"
  shows "let (s', res) = daemon_pass dl opts env s in
    res = SendFailedRefunded (Rpc e) \<and> pd_chain s' = pd_chain s @ [(txid, outs)]
    \<and> (\<forall>p m. miner_balance (pd_db s') p m = miner_balance (pd_db s) p m)
    \<and> (\<forall>q \<in> set (db_payments (pd_db s')). pm_batch q = ye_batch_id env \<longrightarrow> pm_status q = Failed)
    \<and> (\<forall>env2 :: rpc_error payout_env. ye_stuck_ok env2 \<longrightarrow> ye_begin env2 = TxCommitted \<longrightarrow> asked opts env2 (pd_db s') = Some outs)"
proof -
  obtain s' res where p: "daemon_pass dl opts env s = (s', res)" by fastforce
  note parts = daemon_pass_parts [OF p]
  let ?st = "(pd_client s, pd_chain s)" and ?env = "env\<lparr>ye_wallet := \<lambda>outs sub. snd (wallet_send dl (pd_client s, pd_chain s) outs sub)\<rparr>"
  have fresh: "fresh_batch ?env (pd_db s)" using assms(2) by (simp add: fresh_batch_def)
  note w = wallet_send_posted [OF assms(4), of "pd_chain s"]
  have wr: "snd (wallet_send dl ?st outs (yo_subtract_fee opts)) = Inl (Rpc e)" unfolding w(2) assms(6) by (simp add: settle_send_def)
  obtain d1 batch where b: "begin_payout (ye_begin env) (pd_db s) (yo_pool opts) (payout_min opts) (ye_batch_id env) (ye_now env)
      (payout_validate opts) = (d1, Inr batch)" "batch \<noteq> []" "batch_outputs batch = outs" "ye_stuck_ok env"
    using assms(3) by (auto simp: asked_def split: if_splits sum.splits) (metis prod.collapse)
  have "\<exists>d2. refund_batch TxCommitted d1 (ye_batch_id env) = (d2, Inr ())" by (auto simp: refund_batch_def finish_tx_def Let_def)
  then obtain d2 where d2: "refund_batch TxCommitted d1 (ye_batch_id env) = (d2, Inr ())" ..
  have "payout_pass opts ?env (pd_db s) = (d2, SendFailedRefunded (Rpc e))"
    using b wr d2 assms(7) by (simp add: payout_pass_def)
  then have res: "res = SendFailedRefunded (Rpc e)" and pass: "payout_pass opts ?env (pd_db s) = (pd_db s', SendFailedRefunded (Rpc e))"
    using parts(1) by simp_all
  note bal = refund_restores [OF assms(1) fresh pass]
  have chain: "pd_chain s' = pd_chain s @ [(txid, outs)]" using parts(3) [OF assms(3)] w(1) assms(5) by (simp add: sends_def)
  have fail: "\<forall>q \<in> set (db_payments (pd_db s')). pm_batch q = ye_batch_id env \<longrightarrow> pm_status q = Failed"
    using refund_fails_rows [OF assms(1) fresh pass] by simp
  have same: "payees opts (pd_db s') = payees opts (pd_db s)" by (simp add: payees_def payable_def bal)
  have "\<forall>env2 :: rpc_error payout_env. ye_stuck_ok env2 \<longrightarrow> ye_begin env2 = TxCommitted \<longrightarrow> asked opts env2 (pd_db s') = Some outs"
    using assms(3) by (auto simp: asked_payees same split: if_splits)
  with res chain fail bal show ?thesis by (simp add: p miner_balance_rows)
qed

text \<open>A daemon that sends the one payment of the ledger's sample history, and whose answer arrives or not.\<close>

definition sample_link :: "bool \<Rightarrow> daemon_link" where
  "sample_link arrives =
     \<lparr>dl_marshal = \<lambda>req. if call_amounts req = [(''a'', 990)] then Some [1] else None,
      dl_parse = \<lambda>b. if b = [2] then Some (JObject [(''result'', JString ''tx1''), (''error'', JNull)]) else None,
      dl_url_ok = \<lambda>u. True,
      dl_serve = \<lambda>ch h. (ch @ [(''tx1'', [(''a'', 990)])],
        if arrives then Some \<lparr>hp_status = 200, hp_body = [2], hp_broken = False\<rparr> else None)\<rparr>"

definition sample_rpc :: rpc_client where
  "sample_rpc = new_rpc_client \<lparr>rpo_url = ''http://127.0.0.1:8332'', rpo_user = [], rpo_password = [], rpo_timeout = 0\<rparr>"

definition sample_pass_env :: "string \<Rightarrow> rpc_error payout_env" where
  "sample_pass_env b = \<lparr>ye_stuck_ok = True, ye_batch_id = b, ye_now = 50, ye_begin = TxCommitted,
     ye_wallet = (\<lambda>outs sub. Inl EmptyOutputs), ye_refund = TxCommitted, ye_mark = TxCommitted\<rparr>"

definition sample_payoutd :: payoutd where
  "sample_payoutd = (new_payoutd sample_rpc)\<lparr>pd_db := history2\<rparr>"

lemma sample_asked: "asked sample_payout (sample_pass_env b) history2 = Some [(''a'', 990)]"
  unfolding asked_payees by code_simp

lemma sample_reaches: "answers_reach_us (sample_link True)"
proof -
  have "read_body \<lparr>hp_status = 200, hp_body = [2], hp_broken = False\<rparr> = Some [2]" by (simp add: read_body_def body_limit_def)
  moreover have "reply_envelope (dl_parse (sample_link True)) [2] = Some \<lparr>env_result = Some (JString ''tx1''), env_error = None\<rparr>" by code_simp
  moreover have "json_string (JString ''tx1'') = Some ''tx1''" "trim_space ''tx1'' \<noteq> []" by code_simp+
  ultimately have answer: "call_answer (sample_link True) (Some \<lparr>hp_status = 200, hp_body = [2], hp_broken = False\<rparr>) = Inr ''tx1''"
    by (simp add: call_answer_def reply_outcome_def)
  have serve: "dl_serve (sample_link True) ch h = (ch @ [(''tx1'', [(''a'', 990)])], Some \<lparr>hp_status = 200, hp_body = [2], hp_broken = False\<rparr>)"
    for ch h by (simp add: sample_link_def)
  have "call_amounts req = [(''a'', 990)]" if "dl_marshal (sample_link True) req = Some body" for req body
    using that by (simp add: sample_link_def split: if_splits)
  moreover have "trim_space ''tx1'' \<noteq> []" by code_simp
  ultimately show ?thesis by (auto simp: answers_reach_us_def sends_def serve answer)
qed

lemma history_unpaid: "db_payments empty_db = []" "db_payments history1 = []" "db_payments history2 = []"
  by code_simp+

lemma sample_posted: "posted (sample_link b) c [(''a'', 990)] sub = Some (http_post c [1])"
proof -
  obtain call where c: "(send_call_of [(''a'', 990)] sub :: rpc_error wallet_error + send_call) = Inr call" by (simp add: send_call_of_def)
  have "amounts_fit [(''a'', 990)]" by (simp add: amounts_fit_def)
  from call_amounts_outs [OF c this] show ?thesis by (simp add: posted_def c) (simp add: sample_link_def)
qed

lemma sample_serve: "fst (dl_serve (sample_link b) ch h) = ch @ [(''tx1'', [(''a'', 990)])]"
  by (simp add: sample_link_def)

lemma sample_chain:
  assumes "asked sample_payout env (pd_db s) = Some [(''a'', 990)]"
  shows "pd_chain (fst (daemon_pass (sample_link b) sample_payout env s)) = pd_chain s @ [(''tx1'', [(''a'', 990)])]"
proof -
  obtain s' res where p: "daemon_pass (sample_link b) sample_payout env s = (s', res)" by fastforce
  show ?thesis using daemon_pass_parts(3) [OF p assms] by (simp add: p wallet_send_posted(1) [OF sample_posted] sample_serve)
qed

theorem sends_are_debited_witness:
  "let s = fst (daemon_pass (sample_link True) sample_payout (sample_pass_env ''b1'') sample_payoutd) in
     sent_to (pd_chain s) {''a''} = 990 \<and> sent_to (pd_chain s) {''a''} \<le> paid_to (pd_db s) {''a''} \<and> rewarded_total (pd_db s) = 1000"
proof -
  let ?n = "new_payoutd sample_rpc" and ?s = "fst (daemon_pass (sample_link True) sample_payout (sample_pass_env ''b1'') sample_payoutd)"
  note p = history_unpaid
  have s: "pd_db sample_payoutd = history2" "pd_chain sample_payoutd = []" by (simp_all add: sample_payoutd_def new_payoutd_def)
  have "pay_step ?n (?n\<lparr>pd_db := history1\<rparr>)"
    by (rule Accounting) (simp_all add: new_payoutd_def history_begins p)
  moreover have "pay_step (?n\<lparr>pd_db := history1\<rparr>) ((?n\<lparr>pd_db := history1\<rparr>)\<lparr>pd_db := history2\<rparr>)"
    by (rule Accounting) (simp_all add: history_credits p)
  moreover have "(?n\<lparr>pd_db := history1\<rparr>)\<lparr>pd_db := history2\<rparr> = sample_payoutd" by (simp add: sample_payoutd_def)
  ultimately have "pay_step\<^sup>*\<^sup>* ?n sample_payoutd" by (metis rtranclp.rtrancl_into_rtrancl rtranclp.rtrancl_refl)
  moreover have "pay_step sample_payoutd ?s"
    by (rule PayoutPass [OF sample_reaches]) (simp_all add: sample_payoutd_def sample_asked fresh_batch_def p amounts_fit_def)
  ultimately have "pay_step\<^sup>*\<^sup>* ?n ?s" by (rule rtranclp.rtrancl_into_rtrancl)
  moreover have blocks: "db_blocks (pd_db ?s) = db_blocks history2" "db_shares (pd_db ?s) = db_shares history2"
    by (simp_all only: pass_db pass_frame s)
  have "rewards_bounded history2" "rewarded_total history2 = 1000" by code_simp+
  then have "rewards_bounded (pd_db ?s)" "rewarded_total (pd_db ?s) = 1000"
    using blocks by (simp_all add: rewards_bounded_def share_miners_def rewarded_total_def)
  moreover have "pd_chain ?s = [(''tx1'', [(''a'', 990)])]"
    using sample_chain [of "sample_pass_env ''b1''" sample_payoutd True] by (simp only: s sample_asked) simp
  ultimately show ?thesis using sends_are_debited [of sample_rpc ?s "{''a''}"] by (simp add: Let_def sent_to_def outputs_to_def)
qed

theorem lost_answer_pays_twice_witness:
  "let s1 = fst (daemon_pass (sample_link False) sample_payout (sample_pass_env ''b1'') sample_payoutd);
       s2 = fst (daemon_pass (sample_link True) sample_payout (sample_pass_env ''b2'') s1)
   in miner_balance (pd_db s1) ''btc'' ''a'' = 990 \<and> sent_to (pd_chain s1) {''a''} = 990
     \<and> sent_to (pd_chain s2) {''a''} = 1980 \<and> rewarded_total history2 = 1000"
proof -
  let ?dl = "sample_link False" and ?c = "pd_client sample_payoutd"
  have s: "pd_db sample_payoutd = history2" "pd_chain sample_payoutd = []" by (simp_all add: sample_payoutd_def new_payoutd_def)
  have h: "fresh_batch (sample_pass_env ''b1'') (pd_db sample_payoutd)" "books (pd_db sample_payoutd)"
    "asked sample_payout (sample_pass_env ''b1'') (pd_db sample_payoutd) = Some [(''a'', 990)]"
    using history2_books sample_asked by (simp_all add: s fresh_batch_def history_unpaid)
  have d: "sends ?dl (pd_chain sample_payoutd) (http_post ?c [1]) ''tx1'' [(''a'', 990)]"
    "call_answer ?dl (snd (dl_serve ?dl (pd_chain sample_payoutd) (http_post ?c [1]))) = Inl TransportFailed"
    "ye_refund (sample_pass_env ''b1'') = TxCommitted"
    by (simp_all add: sends_def sample_link_def call_answer_def sample_pass_env_def)
  obtain s1 res where r: "daemon_pass ?dl sample_payout (sample_pass_env ''b1'') sample_payoutd = (s1, res)" by fastforce
  have s1: "pd_chain s1 = [(''tx1'', [(''a'', 990)])]" "miner_balance (pd_db s1) ''btc'' ''a'' = miner_balance history2 ''btc'' ''a''"
    "asked sample_payout (sample_pass_env ''b2'') (pd_db s1) = Some [(''a'', 990)]"
    using lost_answer_pays_twice [OF h(2,1,3) sample_posted d] unfolding r Let_def split_conv s by (simp_all add: sample_pass_env_def)
  obtain s2 res2 where r2: "daemon_pass (sample_link True) sample_payout (sample_pass_env ''b2'') s1 = (s2, res2)" by fastforce
  have "pd_chain s2 = [(''tx1'', [(''a'', 990)]), (''tx1'', [(''a'', 990)])]"
    using sample_chain [OF s1(3), of True] by (simp add: r2 s1(1))
  moreover have "miner_balance history2 ''btc'' ''a'' = 990" "rewarded_total history2 = 1000" by code_simp+
  ultimately show ?thesis unfolding r Let_def fst_conv r2 using s1(1,2) by (simp add: sent_to_def outputs_to_def)
qed

end
