(* ===== verification/Listeners.thy ===== *)
theory Listeners
  imports Server
begin

text \<open>
  \<open>internal/stratum/server.go\<close>: the listeners of the front-end, one accept loop for each, their start and their end. Whether an
  address can be bound, and what \<open>Accept\<close> returns, is the environment; everything behind an accepted connection is \<open>Server\<close>.
\<close>

subsection \<open>Starting\<close>

record listeners =
  ln_open :: "port_config list"
  ln_loops :: "port_config list"
  ln_vardiff :: bool

definition listen_addr :: "stratum_config \<Rightarrow> port_config \<Rightarrow> string" where
  "listen_addr cfg port = sg_bind_address cfg @ '':'' @ dec_digits (pt_port port)"

definition close_listeners :: "listeners \<Rightarrow> listeners" where
  "close_listeners ls = ls\<lparr>ln_open := []\<rparr>"

text \<open>The loop over the configured ports: the address that could not be bound, if any.\<close>

fun open_ports :: "(string \<Rightarrow> bool) \<Rightarrow> stratum_config \<Rightarrow> listeners \<Rightarrow> port_config list \<Rightarrow> listeners \<times> string option" where
  "open_ports listen cfg ls [] = (ls, None)"
| "open_ports listen cfg ls (port # ports) =
     (let addr = listen_addr cfg port in
      if \<not> listen addr then (close_listeners ls, Some addr)
      else open_ports listen cfg (ls\<lparr>ln_open := ln_open ls @ [port], ln_loops := ln_loops ls @ [port]\<rparr>) ports)"

definition server_start :: "(string \<Rightarrow> bool) \<Rightarrow> stratum_config \<Rightarrow> listeners \<times> (string + unit)" where
  "server_start listen cfg =
     (case open_ports listen cfg \<lparr>ln_open = [], ln_loops = [], ln_vardiff = False\<rparr> (sg_ports cfg) of
        (ls, Some addr) \<Rightarrow> (ls, Inl addr)
      | (ls, None) \<Rightarrow> (ls\<lparr>ln_vardiff := True\<rparr>, Inr ()))"

lemma open_ports_all:
  "list_all (\<lambda>p. listen (listen_addr cfg p)) ports \<Longrightarrow>
   open_ports listen cfg ls ports = (ls\<lparr>ln_open := ln_open ls @ ports, ln_loops := ln_loops ls @ ports\<rparr>, None)"
  by (induction ports arbitrary: ls) (simp_all add: Let_def)

lemma open_ports_fails:
  "list_all (\<lambda>p. listen (listen_addr cfg p)) ps \<Longrightarrow> \<not> listen (listen_addr cfg p) \<Longrightarrow>
   open_ports listen cfg ls (ps @ p # qs) = (ls\<lparr>ln_open := [], ln_loops := ln_loops ls @ ps\<rparr>, Some (listen_addr cfg p))"
  by (induction ps arbitrary: ls) (simp_all add: Let_def close_listeners_def)

text \<open>
  All ports or none. \<open>Start\<close> succeeds exactly when every configured address can be bound, and then every port has its
  listener and its accept loop; otherwise it names the first address that could not be bound, and leaves no listener open.
\<close>

lemma server_start_exact:
  "(case server_start listen cfg of
      (ls, Inr _) \<Rightarrow> list_all (\<lambda>p. listen (listen_addr cfg p)) (sg_ports cfg)
        \<and> ln_open ls = sg_ports cfg \<and> ln_loops ls = sg_ports cfg \<and> ln_vardiff ls
    | (ls, Inl addr) \<Rightarrow> ln_open ls = [] \<and> \<not> ln_vardiff ls
        \<and> find (\<lambda>a. \<not> listen a) (map (listen_addr cfg) (sg_ports cfg)) = Some addr)"
proof (cases "list_all (\<lambda>p. listen (listen_addr cfg p)) (sg_ports cfg)")
  case True
  then show ?thesis by (simp add: server_start_def open_ports_all)
next
  case False
  then have "\<exists>p \<in> set (sg_ports cfg). \<not> listen (listen_addr cfg p)" by (simp add: list_all_iff)
  from split_list_first_prop [OF this] obtain ps p qs where s: "sg_ports cfg = ps @ p # qs"
    "list_all (\<lambda>p. listen (listen_addr cfg p)) ps" "\<not> listen (listen_addr cfg p)"
    by (auto simp: list_all_iff)
  have "find (\<lambda>a. \<not> listen a) (map (listen_addr cfg) (ps @ p # qs)) = Some (listen_addr cfg p)"
    using s(2,3) by (induction ps) auto
  then show ?thesis using s by (simp add: server_start_def open_ports_fails)
qed

subsection \<open>The accept loops\<close>

record listening =
  lg_front :: stratum
  lg_listeners :: listeners

text \<open>What happens at the ports: a connection, an \<open>Accept\<close> that times out, one that fails in another way (as it does, too,
  once the shutdown has closed the listener), shutdown, and everything else in the front-end.\<close>

datatype listen_event =
    LnAccept port_config int string string
  | LnTimeout port_config
  | LnFails port_config
  | LnShutdown
  | LnOther server_event

fun listen_step :: "listening \<Rightarrow> listen_event \<Rightarrow> listening" where
  "listen_step w (LnAccept port now sid host) =
     (if port \<in> set (ln_open (lg_listeners w)) \<and> port \<in> set (ln_loops (lg_listeners w))
      then w\<lparr>lg_front := fst (stratum_step (lg_front w) (SvAccept now sid host port))\<rparr> else w)"
| "listen_step w (LnTimeout port) = w"
| "listen_step w (LnFails port) =
     w\<lparr>lg_listeners := (lg_listeners w)\<lparr>ln_loops := removeAll port (ln_loops (lg_listeners w))\<rparr>\<rparr>"
| "listen_step w LnShutdown = w\<lparr>lg_listeners := (close_listeners (lg_listeners w))\<lparr>ln_vardiff := False\<rparr>\<rparr>"
| "listen_step w (LnOther e) =
     (case e of SvAccept now sid host port \<Rightarrow> w | _ \<Rightarrow> w\<lparr>lg_front := fst (stratum_step (lg_front w) e)\<rparr>)"

definition listen_run :: "listening \<Rightarrow> listen_event list \<Rightarrow> listening" where
  "listen_run w evs = foldl listen_step w evs"

definition at_port :: "port_config \<Rightarrow> listen_event \<Rightarrow> bool" where
  "at_port port e \<longleftrightarrow> (\<exists>now sid host. e = LnAccept port now sid host)"

lemma at_port_code [code]: "at_port port e = (case e of LnAccept p now sid host \<Rightarrow> p = port | _ \<Rightarrow> False)"
  by (auto simp: at_port_def split: listen_event.splits)

lemma listen_step_loops:
  "set (ln_loops (lg_listeners (listen_step w e))) \<subseteq> set (ln_loops (lg_listeners w))"
  "e \<noteq> LnShutdown \<Longrightarrow> ln_open (lg_listeners (listen_step w e)) = ln_open (lg_listeners w)"
  by (cases e; auto simp: close_listeners_def split: server_event.splits)+

lemma dead_loop_run:
  "port \<notin> set (ln_loops (lg_listeners w)) \<Longrightarrow>
   listen_run w evs = listen_run w (filter (\<lambda>e. \<not> at_port port e) evs)
   \<and> (LnShutdown \<notin> set evs \<longrightarrow> ln_open (lg_listeners (listen_run w evs)) = ln_open (lg_listeners w))"
proof (induction evs arbitrary: w)
  case (Cons e evs)
  have "port \<notin> set (ln_loops (lg_listeners (listen_step w e)))" using Cons.prems listen_step_loops(1) by blast
  note ih = Cons.IH [OF this]
  have "at_port port e \<Longrightarrow> listen_step w e = w" using Cons.prems by (auto simp: at_port_def)
  then show ?case using ih listen_step_loops(2) [of e w] by (auto simp: listen_run_def)
qed (simp add: listen_run_def)

text \<open>
  C36: one failing accept closes a port for good. After an \<open>Accept\<close> that fails with anything but a timeout (the process is
  out of file descriptors for a moment) the loop of that port has returned: whatever happens from then on, the front-end is in the state it would
  be in if nobody had connected to that port any more, while its listener stays open, so that miners
  still connect and wait. Nothing restarts the loop, and neither the pool's state nor the other ports change.
\<close>

theorem accept_error_ends_port:
  assumes "LnShutdown \<notin> set evs" and "port \<in> set (ln_open (lg_listeners w))"
  shows "listen_run w (LnFails port # evs) = listen_run w (LnFails port # filter (\<lambda>e. \<not> at_port port e) evs)
    \<and> port \<in> set (ln_open (lg_listeners (listen_run w (LnFails port # evs))))
    \<and> lg_front (listen_step w (LnFails port)) = lg_front w
    \<and> (\<forall>q. q \<noteq> port \<longrightarrow> q \<in> set (ln_loops (lg_listeners (listen_step w (LnFails port)))) \<longleftrightarrow> q \<in> set (ln_loops (lg_listeners w)))"
proof -
  let ?w = "listen_step w (LnFails port)"
  have r: "listen_run w (LnFails port # es) = listen_run ?w es" for es by (simp add: listen_run_def)
  have d: "port \<notin> set (ln_loops (lg_listeners ?w))" by simp
  have "port \<in> set (ln_open (lg_listeners (listen_run ?w evs)))"
  proof -
    have "ln_open (lg_listeners (listen_run ?w evs)) = ln_open (lg_listeners ?w)" using dead_loop_run [OF d] assms(1) by blast
    then show ?thesis using assms(2) by simp
  qed
  moreover have "listen_run ?w evs = listen_run ?w (filter (\<lambda>e. \<not> at_port port e) evs)" using dead_loop_run [OF d] by blast
  ultimately show ?thesis unfolding r by simp
qed

text \<open>A server with one port that fails to accept once; a miner connects before and one after.\<close>

definition sample_listening :: listening where
  "sample_listening =
     \<lparr>lg_front = new_stratum sample_cfg sample_lifecycle [] None (\<lambda>_. bitcoinlike_coin sample_adapter),
      lg_listeners = fst (server_start (\<lambda>addr. addr = ''0.0.0.0:3333'') (sample_cfg\<lparr>sg_ports := [sample_port]\<rparr>))\<rparr>"

theorem accept_error_ends_port_witness:
  "let w = listen_step sample_listening (LnAccept sample_port 0 ''s1'' ''ip'') in
     map fst (sm_sessions (st_sessions (lg_front (listen_step w (LnAccept sample_port 1 ''s2'' ''ip2''))))) = [''s1'', ''s2'']
     \<and> sample_port \<in> set (ln_open (lg_listeners (listen_run w [LnFails sample_port, LnAccept sample_port 1 ''s2'' ''ip2''])))
     \<and> map fst (sm_sessions (st_sessions (lg_front (listen_run w [LnFails sample_port, LnAccept sample_port 1 ''s2'' ''ip2''])))) = [''s1'']"
proof -
  define w where "w = listen_step sample_listening (LnAccept sample_port 0 ''s1'' ''ip'')"
  let ?evs = "[LnAccept sample_port 1 ''s2'' ''ip2'']"
  have o: "sample_port \<in> set (ln_open (lg_listeners w))" unfolding w_def by code_simp
  have f: "filter (\<lambda>e. \<not> at_port sample_port e) ?evs = []" by (simp add: at_port_def)
  have r: "listen_run w [LnFails sample_port] = listen_step w (LnFails sample_port)" by (simp add: listen_run_def)
  have n: "LnShutdown \<notin> set ?evs" by simp
  note t = accept_error_ends_port [OF n o, unfolded f r]
  have "map fst (sm_sessions (st_sessions (lg_front w))) = [''s1'']"
    "map fst (sm_sessions (st_sessions (lg_front (listen_step w (LnAccept sample_port 1 ''s2'' ''ip2''))))) = [''s1'', ''s2'']"
    unfolding w_def by code_simp+
  with t show ?thesis unfolding Let_def w_def [symmetric] by metis
qed

subsection \<open>Shutdown\<close>

text \<open>
  When the goroutine of a connection returns: its read began at \<open>r\<close>, lines arrive at the given times, the shutdown signal comes at
  \<open>down\<close>. The loop looks at the signal only between two reads, and a read ends with a line or at the timeout, if there is
  one. \<open>Wait\<close> waits for all of them.
\<close>

fun conn_returns :: "int \<Rightarrow> int \<Rightarrow> int \<Rightarrow> int list \<Rightarrow> int option" where
  "conn_returns timeout down r [] = (if 0 < timeout then Some (r + timeout) else None)"
| "conn_returns timeout down r (a # as) =
     (if 0 < timeout \<and> r + timeout < a then Some (r + timeout)
      else if down \<le> a then Some a
      else conn_returns timeout down a as)"

text \<open>A connection is gone at most one read timeout after the signal, and no sooner when its miner is silent: ten minutes,
  unless configured. Without a timeout it holds the shutdown up until the miner speaks.\<close>

lemma shutdown_bound:
  assumes "r \<le> down"
  shows "0 < timeout \<longrightarrow> (\<exists>t. conn_returns timeout down r as = Some t \<and> t \<le> down + timeout)"
    and "timeout \<le> 0 \<longrightarrow> (\<forall>a \<in> set as. a < down) \<longrightarrow> conn_returns timeout down r as = None"
  using assms by (induction timeout down r as rule: conn_returns.induct) auto

end
