(* ===== verification/Metrics.thy ===== *)
theory Metrics
  imports Handler "HOL-Library.AList" "HOL-Library.Char_ord" "HOL-Library.List_Lexorder"
begin

text \<open>
  \<open>internal/metrics\<close>: the registry of counters and gauges and its Prometheus text, and the counters \<open>stratumd\<close> hooks into the request
  handler. Go maps are association lists with distinct keys; a map of labels is given as a list in any order. A gauge's callback and its \<open>%g\<close>
  text are an argument of rendering; \<open>%q\<close> is written out for printable ASCII and an argument (\<open>quote_rest\<close>) for other text.
\<close>

subsection \<open>Series names\<close>

definition plain_label :: "char \<Rightarrow> bool" where
  "plain_label c \<longleftrightarrow> 32 \<le> (of_char c :: int) \<and> (of_char c :: int) < 127 \<and> c \<noteq> CHR 0x22 \<and> c \<noteq> CHR 0x5C"

definition go_quote :: "(string \<Rightarrow> string) \<Rightarrow> string \<Rightarrow> string" where
  "go_quote quote_rest s = (if list_all plain_label s then CHR 0x22 # s @ [CHR 0x22] else quote_rest s)"

definition metric_key :: "(string \<Rightarrow> string) \<Rightarrow> string \<Rightarrow> (string \<times> string) list \<Rightarrow> string" where
  "metric_key quote_rest name labels =
     (if labels = [] then name
      else name @ ''{'' @ join_commas (map (\<lambda>(k, v). k @ ''='' @ go_quote quote_rest v) (sort_key fst labels)) @ ''}'')"

definition metric_name :: "string \<Rightarrow> string" where
  "metric_name k = takeWhile (\<lambda>c. c \<noteq> CHR ''{'') k"

subsection \<open>The registry\<close>

record 'g metrics =
  mx_counters :: "(string \<times> 64 word) list"
  mx_gauges :: "(string \<times> 'g) list"
  mx_help :: "string \<Rightarrow> string option"

definition new_metrics :: "'g metrics" where
  "new_metrics = \<lparr>mx_counters = [], mx_gauges = [], mx_help = Map.empty\<rparr>"

definition set_help :: "string \<Rightarrow> string \<Rightarrow> 'g metrics \<Rightarrow> 'g metrics" where
  "set_help name help r = (if help \<noteq> [] then r\<lparr>mx_help := (mx_help r)(name \<mapsto> help)\<rparr> else r)"

definition metric_counter :: "string \<Rightarrow> string \<Rightarrow> string \<Rightarrow> 'g metrics \<Rightarrow> 'g metrics" where
  "metric_counter key name help r =
     (if map_of (mx_counters r) key \<noteq> None then r
      else set_help name help (r\<lparr>mx_counters := mx_counters r @ [(key, 0)]\<rparr>))"

text \<open>\<open>Counter(\<dots>).Add(n)\<close>: the counter is created when it is new.\<close>

definition counter_add :: "(string \<Rightarrow> string) \<Rightarrow> string \<Rightarrow> string \<Rightarrow> (string \<times> string) list \<Rightarrow> 64 word \<Rightarrow> 'g metrics \<Rightarrow> 'g metrics" where
  "counter_add quote_rest name help labels n r =
     (let key = metric_key quote_rest name labels; r1 = metric_counter key name help r
      in r1\<lparr>mx_counters := map (\<lambda>(k, v). (k, if k = key then v + n else v)) (mx_counters r1)\<rparr>)"

definition metric_gauge :: "(string \<Rightarrow> string) \<Rightarrow> string \<Rightarrow> string \<Rightarrow> (string \<times> string) list \<Rightarrow> 'g \<Rightarrow> 'g metrics \<Rightarrow> 'g metrics" where
  "metric_gauge quote_rest name help labels g r =
     set_help name help (r\<lparr>mx_gauges := AList.update (metric_key quote_rest name labels) g (mx_gauges r)\<rparr>)"

subsection \<open>Rendering\<close>

datatype metric_line = HelpLine string string | TypeLine string string | SeriesLine string string

fun line_text :: "metric_line \<Rightarrow> string" where
  "line_text (HelpLine name h) = ''# HELP '' @ name @ '' '' @ h @ [CHR 0x0A]"
| "line_text (TypeLine name t) = ''# TYPE '' @ name @ '' '' @ t @ [CHR 0x0A]"
| "line_text (SeriesLine k v) = k @ '' '' @ v @ [CHR 0x0A]"

definition metric_header :: "(string \<Rightarrow> string option) \<Rightarrow> string list \<Rightarrow> string \<Rightarrow> string \<Rightarrow> metric_line list \<times> string list" where
  "metric_header help seen k ty =
     (let name = metric_name k in
      if name \<in> set seen then ([], seen)
      else ((case help name of None \<Rightarrow> [] | Some h \<Rightarrow> if h = [] then [] else [HelpLine name h]) @ [TypeLine name ty], name # seen))"

fun render_series ::
  "(string \<Rightarrow> string option) \<Rightarrow> string \<Rightarrow> string list \<Rightarrow> (string \<times> string) list \<Rightarrow> metric_line list \<times> string list" where
  "render_series help ty seen [] = ([], seen)"
| "render_series help ty seen ((k, v) # xs) =
     (let (h, seen1) = metric_header help seen k ty; (ls, seen2) = render_series help ty seen1 xs
      in (h @ SeriesLine k v # ls, seen2))"

definition render :: "('g \<Rightarrow> string) \<Rightarrow> 'g metrics \<Rightarrow> metric_line list" where
  "render gauge_text r =
     (let (cs, seen) = render_series (mx_help r) ''counter'' []
            (map (\<lambda>(k, v). (k, int_text (sint v))) (sort_key fst (mx_counters r)));
          (gs, _) = render_series (mx_help r) ''gauge'' seen (map (\<lambda>(k, g). (k, gauge_text g)) (sort_key fst (mx_gauges r)))
      in cs @ gs)"

subsection \<open>The counters of the request handler\<close>

definition shares_metric :: string where "shares_metric = ''pool_shares_total''"
definition blocks_metric :: string where "blocks_metric = ''pool_blocks_found_total''"

definition count_share :: "(string \<Rightarrow> string) \<Rightarrow> string \<Rightarrow> string \<Rightarrow> 'g metrics \<Rightarrow> 'g metrics" where
  "count_share quote_rest p result r = counter_add quote_rest shares_metric ''Shares by outcome.'' [(''pool'', p), (''result'', result)] 1 r"

definition count_effect :: "(string \<Rightarrow> string) \<Rightarrow> 'g metrics \<Rightarrow> node_effect \<Rightarrow> 'g metrics" where
  "count_effect quote_rest r e =
     (case e of
        NeAccepted p \<Rightarrow> count_share quote_rest p ''accepted'' r
      | NeRejected p \<Rightarrow> count_share quote_rest p ''rejected'' r
      | NeBlockFound p \<Rightarrow> counter_add quote_rest blocks_metric ''Block candidates found.'' [(''pool'', p)] 1 r
      | NeJobs p j \<Rightarrow> r)"

subsection \<open>What is rendered\<close>

definition series_of :: "metric_line list \<Rightarrow> (string \<times> string) list" where
  "series_of ls = concat (map (\<lambda>l. case l of SeriesLine k v \<Rightarrow> [(k, v)] | _ \<Rightarrow> []) ls)"

definition typed_names :: "metric_line list \<Rightarrow> string list" where
  "typed_names ls = concat (map (\<lambda>l. case l of TypeLine n t \<Rightarrow> [n] | _ \<Rightarrow> []) ls)"

lemma series_of_append [simp]: "series_of (xs @ ys) = series_of xs @ series_of ys"
  and typed_names_append [simp]: "typed_names (xs @ ys) = typed_names xs @ typed_names ys"
  by (simp_all add: series_of_def typed_names_def)

lemma series_of_line [simp]: "series_of (SeriesLine k v # ls) = (k, v) # series_of ls"
  and typed_names_line [simp]: "typed_names (SeriesLine k v # ls) = typed_names ls"
  by (simp_all add: series_of_def typed_names_def)

lemma header_parts:
  assumes "metric_header hs seen k ty = (h, seen1)"
  shows "series_of h = []" and "typed_names h = (if metric_name k \<in> set seen then [] else [metric_name k])"
    and "seen1 = rev (typed_names h) @ seen"
  using assms by (auto simp: metric_header_def Let_def series_of_def typed_names_def split: if_splits option.splits)

lemma render_series_parts:
  assumes "distinct seen" and "render_series hs ty seen xs = (ls, seen2)"
  shows "series_of ls = xs \<and> seen2 = rev (typed_names ls) @ seen \<and> distinct seen2
    \<and> set seen2 = set seen \<union> metric_name ` fst ` set xs"
  using assms
proof (induction hs ty seen xs arbitrary: ls seen2 rule: render_series.induct)
  case (2 hs ty seen k v xs)
  obtain h seen1 where h: "metric_header hs seen k ty = (h, seen1)" by fastforce
  obtain ls' where r: "render_series hs ty seen1 xs = (ls', seen2)" "ls = h @ SeriesLine k v # ls'"
    using "2.prems"(2) h by (auto split: prod.splits)
  note p = header_parts [OF h]
  have "distinct seen1" "metric_name k \<in> set seen1" using "2.prems"(1) p by auto
  then have i: "series_of ls' = xs \<and> seen2 = rev (typed_names ls') @ seen1 \<and> distinct seen2
    \<and> set seen2 = set seen1 \<union> metric_name ` fst ` set xs"
    using "2.IH" [OF h [symmetric] refl _ r(1)] by blast
  have "set seen1 = insert (metric_name k) (set seen)" using p(2,3) by auto
  then have "set seen2 = insert (metric_name k) (set seen) \<union> metric_name ` fst ` set xs" using i by blast
  then have "set seen2 = set seen \<union> metric_name ` fst ` set ((k, v) # xs)" by simp
  moreover have "series_of ls = (k, v) # xs" "seen2 = rev (typed_names ls) @ seen" using i p(1,3) by (simp_all add: r(2))
  ultimately show ?case using i by blast
qed (simp add: series_of_def typed_names_def)

text \<open>The text shows every counter and then every gauge, each once, in order of their names, and one \<open>TYPE\<close> for every metric.\<close>

lemma render_exact:
  "series_of (render gauge_text r) =
     map (\<lambda>(k, v). (k, int_text (sint v))) (sort_key fst (mx_counters r)) @ map (\<lambda>(k, g). (k, gauge_text g)) (sort_key fst (mx_gauges r))"
  "distinct (typed_names (render gauge_text r))"
  "set (typed_names (render gauge_text r)) = metric_name ` (fst ` set (mx_counters r) \<union> fst ` set (mx_gauges r))"
proof -
  obtain cs seen where c: "render_series (mx_help r) ''counter'' [] (map (\<lambda>(k, v). (k, int_text (sint v))) (sort_key fst (mx_counters r))) = (cs, seen)"
    by fastforce
  obtain gs seen2 where g: "render_series (mx_help r) ''gauge'' seen (map (\<lambda>(k, g). (k, gauge_text g)) (sort_key fst (mx_gauges r))) = (gs, seen2)"
    by fastforce
  have r: "render gauge_text r = cs @ gs" by (simp add: render_def c g)
  note pc = render_series_parts [OF _ c, simplified]
  have "distinct seen" using pc by blast
  note pg = render_series_parts [OF this g]
  have keys: "fst ` set (map (\<lambda>(k, x). (k, f x)) xs) = fst ` set xs" for f :: "'x \<Rightarrow> string" and xs by force
  show "series_of (render gauge_text r) =
     map (\<lambda>(k, v). (k, int_text (sint v))) (sort_key fst (mx_counters r)) @ map (\<lambda>(k, g). (k, gauge_text g)) (sort_key fst (mx_gauges r))"
    using pc pg by (simp add: r)
  have t: "rev (typed_names (cs @ gs)) = seen2" using pc pg by simp
  show "distinct (typed_names (render gauge_text r))" using t pg by (metis r distinct_rev)
  have "set (typed_names (cs @ gs)) = set seen2" using t set_rev by metis
  also have "\<dots> = set seen \<union> metric_name ` fst ` set (mx_gauges r)" using pg [THEN conjunct2, THEN conjunct2, THEN conjunct2] by (simp only: keys set_sort)
  also have "set seen = metric_name ` fst ` set (mx_counters r)" using pc [THEN conjunct2, THEN conjunct2, THEN conjunct2] by (simp only: keys [unfolded set_map] set_map set_sort Un_empty_left list.set)
  finally show "set (typed_names (render gauge_text r)) = metric_name ` (fst ` set (mx_counters r) \<union> fst ` set (mx_gauges r))"
    by (simp only: r image_Un)
qed

subsection \<open>Counting\<close>

lemma map_of_bump: "map_of (map (\<lambda>(k, v). (k, if k = key then f v else v)) xs) k' = (if k' = key then map_option f (map_of xs k') else map_of xs k')"
  by (induction xs) auto

lemma counter_add_series:
  "map_of (mx_counters (counter_add q name help labels n r)) k =
     (if k = metric_key q name labels then Some ((case map_of (mx_counters r) k of None \<Rightarrow> 0 | Some v \<Rightarrow> v) + n)
      else map_of (mx_counters r) k)"
  by (simp add: counter_add_def metric_counter_def set_help_def Let_def map_of_bump map_add_def split: option.splits)

lemma fst_bump: "map (fst \<circ> (\<lambda>(k, v). (k, g k v))) xs = map fst xs"
  by (induction xs) auto

lemma counter_add_keys:
  "map fst (mx_counters (counter_add q name help labels n r)) =
     map fst (mx_counters r) @ (if map_of (mx_counters r) (metric_key q name labels) = None then [metric_key q name labels] else [])"
  by (simp add: counter_add_def metric_counter_def set_help_def Let_def fst_bump)

lemma counter_add_distinct:
  "distinct (map fst (mx_counters r)) \<Longrightarrow> distinct (map fst (mx_counters (counter_add q name help labels n r)))"
  unfolding counter_add_keys by (auto simp: map_of_eq_None_iff)

definition share_series :: "string \<Rightarrow> string \<Rightarrow> string" where
  "share_series p result = shares_metric @ ''{pool='' @ [CHR 0x22] @ p @ [CHR 0x22] @ '',result='' @ [CHR 0x22] @ result @ [CHR 0x22] @ ''}''"

definition block_series :: "string \<Rightarrow> string" where
  "block_series p = blocks_metric @ ''{pool='' @ [CHR 0x22] @ p @ [CHR 0x22] @ ''}''"

definition effect_series :: "node_effect \<Rightarrow> string option" where
  "effect_series e =
     (case e of NeAccepted p \<Rightarrow> Some (share_series p ''accepted'') | NeRejected p \<Rightarrow> Some (share_series p ''rejected'')
      | NeBlockFound p \<Rightarrow> Some (block_series p) | NeJobs p j \<Rightarrow> None)"

definition effect_pool :: "node_effect \<Rightarrow> string" where
  "effect_pool e = (case e of NeAccepted p \<Rightarrow> p | NeRejected p \<Rightarrow> p | NeBlockFound p \<Rightarrow> p | NeJobs p j \<Rightarrow> p)"

definition plain_pool :: "string \<Rightarrow> bool" where
  "plain_pool p \<longleftrightarrow> list_all plain_label p"

lemma effect_key:
  assumes "plain_pool p"
  shows "metric_key q shares_metric [(''pool'', p), (''result'', ''accepted'')] = share_series p ''accepted''"
    and "metric_key q shares_metric [(''pool'', p), (''result'', ''rejected'')] = share_series p ''rejected''"
    and "metric_key q blocks_metric [(''pool'', p)] = block_series p"
proof -
  have s: "sort_key fst [(''pool'', p), (''result'', x)] = [(''pool'', p), (''result'', x)]" for x :: string
  proof -
    have "''pool'' \<le> ''result''" by code_simp
    then show ?thesis by (simp add: sort_key_def)
  qed
  have r: "list_all plain_label ''accepted''" "list_all plain_label ''rejected''" by code_simp+
  show "metric_key q shares_metric [(''pool'', p), (''result'', ''accepted'')] = share_series p ''accepted''"
    "metric_key q shares_metric [(''pool'', p), (''result'', ''rejected'')] = share_series p ''rejected''"
    "metric_key q blocks_metric [(''pool'', p)] = block_series p"
    using assms r by (simp_all add: metric_key_def s go_quote_def plain_pool_def share_series_def block_series_def)
qed

lemma quote_ends:
  assumes "plain_pool p" and "plain_pool p'" and "p @ CHR 0x22 # x = p' @ CHR 0x22 # y"
  shows "p = p' \<and> x = y"
proof -
  have "takeWhile (\<lambda>c. c \<noteq> CHR 0x22) (p @ CHR 0x22 # x) = p" "takeWhile (\<lambda>c. c \<noteq> CHR 0x22) (p' @ CHR 0x22 # y) = p'"
    using assms(1,2) by (auto simp: plain_pool_def list_all_iff plain_label_def takeWhile_tail)
  then show ?thesis using assms(3) by simp
qed

lemma effect_series_inj:
  assumes "plain_pool (effect_pool a)" and "plain_pool (effect_pool b)" and "effect_series a = effect_series b" and "effect_series a \<noteq> None"
  shows "a = b"
proof -
  have s: "share_series p x = share_series p' y \<longleftrightarrow> p = p' \<and> x = y" if "plain_pool p" "plain_pool p'" for p p' x y
  proof
    assume "share_series p x = share_series p' y"
    then have "p @ CHR 0x22 # ('',result='' @ [CHR 0x22] @ x @ [CHR 0x22] @ ''}'') = p' @ CHR 0x22 # ('',result='' @ [CHR 0x22] @ y @ [CHR 0x22] @ ''}'')"
      by (simp add: share_series_def)
    from quote_ends [OF that this] show "p = p' \<and> x = y" by simp
  qed simp
  have b: "block_series p = block_series p' \<longleftrightarrow> p = p'" if "plain_pool p" "plain_pool p'" for p p'
    by (auto simp: block_series_def)
  have d: "share_series p x \<noteq> block_series p'" "block_series p' \<noteq> share_series p x" for p x p'
    by (simp_all add: share_series_def block_series_def shares_metric_def blocks_metric_def)
  show ?thesis using assms by (cases a; cases b) (simp_all add: effect_series_def effect_pool_def s b d)
qed

lemma count_effect_series:
  assumes "plain_pool (effect_pool e)"
  shows "map_of (mx_counters (count_effect q r e)) k =
     (if effect_series e = Some k then Some ((case map_of (mx_counters r) k of None \<Rightarrow> 0 | Some v \<Rightarrow> v) + 1) else map_of (mx_counters r) k)"
  using assms by (cases e) (auto simp: count_effect_def count_share_def counter_add_series effect_key effect_series_def effect_pool_def)

lemma count_effect_distinct:
  "distinct (map fst (mx_counters r)) \<Longrightarrow> distinct (map fst (mx_counters (count_effect q r e)))"
  by (cases e) (simp_all add: count_effect_def count_share_def counter_add_distinct)

lemma count_run:
  assumes "\<forall>e \<in> set es. plain_pool (effect_pool e)" and "plain_pool (effect_pool e0)" and "effect_series e0 = Some k"
    and "distinct (map fst (mx_counters r))"
  shows "map_of (mx_counters (foldl (count_effect q) r es)) k =
      (case map_of (mx_counters r) k of None \<Rightarrow> if e0 \<in> set es then Some (of_nat (count_list es e0)) else None
       | Some v \<Rightarrow> Some (v + of_nat (count_list es e0)))
    \<and> distinct (map fst (mx_counters (foldl (count_effect q) r es)))"
  using assms(1,4)
proof (induction es arbitrary: r)
  case Nil
  then show ?case by (simp split: option.splits)
next
  case (Cons e es)
  have e: "effect_series e = Some k \<longleftrightarrow> e = e0"
    using effect_series_inj [of e e0] Cons.prems(1) assms(2,3) by auto
  have h: "plain_pool (effect_pool e)" using Cons.prems(1) by simp
  show ?case
    using Cons.IH [of "count_effect q r e"] count_effect_distinct [OF Cons.prems(2)] Cons.prems(1)
    by (cases "e = e0"; cases "map_of (mx_counters r) k")
      (simp_all add: count_effect_series [OF h] count_effect_series [OF assms(2)] assms(3) e add.assoc)
qed

text \<open>
  The counters count. For pools with plain names, in any order of events: for every kind of outcome, an accepted share, a
  rejected share or a block found, of every pool the text shows exactly one line, the number of those events since the start, and no line before
  the first; and every metric is declared once.
\<close>

theorem counters_exact:
  assumes "\<forall>e \<in> set es. plain_pool (effect_pool e)" and "plain_pool (effect_pool e0)" and "effect_series e0 = Some k"
    and "length es < 2 ^ 63"
  shows "let ls = render gauge_text (foldl (count_effect q) (new_metrics :: 'a metrics) es) in
    filter (\<lambda>s. fst s = k) (series_of ls) = (if e0 \<in> set es then [(k, int_text (int (count_list es e0)))] else [])
    \<and> distinct (typed_names ls)"
proof -
  let ?r = "foldl (count_effect q) (new_metrics :: 'a metrics) es" and ?f = "\<lambda>(k, v). (k, int_text (sint (v :: 64 word)))"
  have e: "mx_counters (new_metrics :: 'a metrics) = []" by (simp add: new_metrics_def)
  have "map_of (mx_counters ?r) k = (if e0 \<in> set es then Some (of_nat (count_list es e0)) else None)"
    and d: "distinct (map fst (mx_counters ?r))"
    using count_run [OF assms(1-3), of "new_metrics :: 'a metrics" q] by (simp_all only: e map_of.simps option.case list.map distinct.simps)
  moreover have f: "filter (\<lambda>x. fst x = k) xs = (case map_of xs k of None \<Rightarrow> [] | Some v \<Rightarrow> [(k, v)])"
    if "distinct (map fst xs)" for xs :: "(string \<times> 64 word) list"
    using that
  proof (induction xs)
    case (Cons x xs)
    obtain k' v where x: "x = (k', v)" by fastforce
    have "filter (\<lambda>x. fst x = k) xs = []" if "k' = k"
      using Cons.prems that by (auto simp: x filter_empty_conv rev_image_eqI)
    then show ?case using Cons by (auto simp: x)
  qed simp
  ultimately have c: "filter (\<lambda>x. fst x = k) (mx_counters ?r) = (if e0 \<in> set es then [(k, of_nat (count_list es e0))] else [])" by simp
  have g: "mx_gauges ?r = []"
  proof -
    have "mx_gauges (count_effect q r e) = mx_gauges r" for r :: "'a metrics" and e
      by (cases e) (simp_all add: count_effect_def count_share_def counter_add_def metric_counter_def set_help_def Let_def)
    then have "mx_gauges (foldl (count_effect q) r es) = mx_gauges r" for r :: "'a metrics" by (induction es arbitrary: r) simp_all
    then show ?thesis by (simp add: new_metrics_def)
  qed
  have n: "sint (of_nat (count_list es e0) :: 64 word) = int (count_list es e0)"
  proof -
    have "count_list es e0 < 2 ^ 63" using count_le_length [of es e0] assms(4) by linarith
    then show ?thesis by (simp add: signed_of_nat signed_take_bit_int_eq_self)
  qed
  have p: "(\<lambda>s. fst s = k) \<circ> ?f = (\<lambda>x. fst x = k)" by auto
  have "filter (\<lambda>s. fst s = k) (series_of (render gauge_text ?r)) = map ?f (sort_key fst (filter (\<lambda>x. fst x = k) (mx_counters ?r)))"
    by (simp add: render_exact(1) g filter_map p filter_sort)
  then show ?thesis using render_exact(2) [of gauge_text ?r] by (simp add: Let_def c n)
qed

theorem counters_exact_witness:
  "let ls = render (\<lambda>g :: unit. '''') (foldl (count_effect id) new_metrics [NeAccepted ''btc'', NeRejected ''btc'', NeAccepted ''btc'']) in
     filter (\<lambda>s. fst s = share_series ''btc'' ''accepted'') (series_of ls) = [(share_series ''btc'' ''accepted'', ''2'')]
     \<and> distinct (typed_names ls)"
proof -
  have p: "plain_pool ''btc''" by code_simp
  have n: "int_text 2 = ''2''" by code_simp
  show ?thesis
    using counters_exact [of "[NeAccepted ''btc'', NeRejected ''btc'', NeAccepted ''btc'']" "NeAccepted ''btc''" "share_series ''btc'' ''accepted''"
        "\<lambda>g :: unit. ''''" id]
    by (simp add: effect_pool_def effect_series_def p n)
qed

end
