(* ===== verification/Nats.thy ===== *)
theory Nats
  imports Messaging
begin

text \<open>
  \<open>internal/messaging/nats/client.go\<close> and the attaching of consumers in \<open>consumer.go\<close>: the connection, the two streams with their
  retry in the background, the durable consumer of the master and the command consumer of the other nodes. What NATS answers is
  the environment; publishing and handling of messages are in \<open>Messaging\<close>.
\<close>

subsection \<open>Streams and consumers\<close>

record nats_stream =
  ns_name :: string
  ns_subjects :: "string list"
  ns_max_age :: int

definition events_stream :: nats_stream where
  "events_stream =
     \<lparr>ns_name = ''POOLEVENTS'', ns_subjects = [''shares.>'', ''blocks.>'', ''poolstate.>''], ns_max_age = 72 * 3600000000000\<rparr>"

definition commands_stream :: nats_stream where
  "commands_stream = \<lparr>ns_name = ''POOLCMD'', ns_subjects = [''commands.>''], ns_max_age = 3600000000000\<rparr>"

record consumer_config =
  kc_stream :: string
  kc_durable :: string
  kc_deliver_all :: bool
  kc_max_ack_pending :: int

definition master_consumer :: consumer_config where
  "master_consumer =
     \<lparr>kc_stream = ns_name events_stream, kc_durable = ''master-persist'', kc_deliver_all = True, kc_max_ack_pending = 10000\<rparr>"

text \<open>An ephemeral consumer that is delivered new commands only; zero stands for the server's default.\<close>

definition command_consumer :: consumer_config where
  "command_consumer = \<lparr>kc_stream = ns_name commands_stream, kc_durable = [], kc_deliver_all = False, kc_max_ack_pending = 0\<rparr>"

record nats_options =
  no_urls :: "string list"
  no_name :: string
  no_region :: string
  no_require_streams :: bool

record nats_env =
  nv_dial :: "string \<Rightarrow> bool"
  nv_jetstream :: bool
  nv_stream :: "nats_stream \<Rightarrow> bool"
  nv_consumer :: "consumer_config \<Rightarrow> bool"
  nv_consume :: bool

datatype nats_error = DialFailed | JetStreamFailed | EnsureFailed string | CreateConsumerFailed | ConsumeFailed

text \<open>The client; \<open>nc_retrying\<close> says whether \<open>retryStreams\<close> runs.\<close>

record nats_client =
  nc_url :: string
  nc_name :: string
  nc_region :: string
  nc_retrying :: bool

subsection \<open>Connecting\<close>

definition server_url :: "string \<Rightarrow> string list \<Rightarrow> string" where
  "server_url default_url urls = (case urls of [] \<Rightarrow> default_url | u # us \<Rightarrow> u @ concat (map (\<lambda>v. '','' @ v) us))"

definition ensure_streams :: "(nats_stream \<Rightarrow> bool) \<Rightarrow> nats_error + unit" where
  "ensure_streams create =
     (if \<not> create events_stream then Inl (EnsureFailed (ns_name events_stream))
      else if \<not> create commands_stream then Inl (EnsureFailed (ns_name commands_stream))
      else Inr ())"

definition nats_connect :: "string \<Rightarrow> nats_env \<Rightarrow> nats_options \<Rightarrow> nats_error + nats_client" where
  "nats_connect default_url env opts =
     (let url = server_url default_url (no_urls opts);
          c = \<lparr>nc_url = url, nc_name = no_name opts, nc_region = no_region opts, nc_retrying = False\<rparr>
      in if \<not> nv_dial env url then Inl DialFailed
         else if \<not> nv_jetstream env then Inl JetStreamFailed
         else case ensure_streams (nv_stream env) of
             Inl e \<Rightarrow> if no_require_streams opts then Inl e else Inr (c\<lparr>nc_retrying := True\<rparr>)
           | Inr _ \<Rightarrow> Inr c)"

text \<open>One tick of the retry: it ends with the first success.\<close>

definition retry_streams :: "(nats_stream \<Rightarrow> bool) \<Rightarrow> nats_client \<Rightarrow> nats_client" where
  "retry_streams create c = (if nc_retrying c \<and> ensure_streams create = Inr () then c\<lparr>nc_retrying := False\<rparr> else c)"

definition start_consumer :: "nats_env \<Rightarrow> consumer_config \<Rightarrow> nats_error + unit" where
  "start_consumer env k =
     (if \<not> nv_consumer env k then Inl CreateConsumerFailed else if \<not> nv_consume env then Inl ConsumeFailed else Inr ())"

lemma nats_connect_ready:
  "(\<exists>c. nats_connect url env opts = Inr c) \<longleftrightarrow>
     nv_dial env (server_url url (no_urls opts)) \<and> nv_jetstream env
     \<and> (no_require_streams opts \<longrightarrow> ensure_streams (nv_stream env) = Inr ())"
  by (auto simp: nats_connect_def Let_def split: sum.splits)

lemma nats_connect_client:
  "nats_connect url env opts = Inr c \<Longrightarrow>
     nc_region c = no_region opts \<and> (nc_retrying c \<longleftrightarrow> ensure_streams (nv_stream env) \<noteq> Inr ())"
  by (auto simp: nats_connect_def Let_def split: sum.splits if_splits)

subsection \<open>Subjects\<close>

text \<open>The tokens of a subject. NATS takes a publish only on subjects without an empty token.\<close>

fun tokens :: "string \<Rightarrow> string list" where
  "tokens [] = [[]]"
| "tokens (c # cs) = (if c = CHR ''.'' then [] # tokens cs else case tokens cs of [] \<Rightarrow> [[c]] | t # ts \<Rightarrow> (c # t) # ts)"

lemma tokens_dot: "tokens (xs @ CHR ''.'' # ys) = tokens xs @ tokens ys"
proof (induction xs)
  case (Cons x xs)
  have "tokens xs \<noteq> []" by (cases xs) (auto split: list.splits)
  then show ?case using Cons by (auto split: list.splits)
qed simp

text \<open>
  The region is a token of every event's subject, so a node without one publishes on subjects with an empty token. An all-in-one node may be
  configured without a region and with NATS.
\<close>

lemma regionless_subjects:
  "[] \<in> set (tokens (share_subject [] pool)) \<and> [] \<in> set (tokens (block_subject [] pool)) \<and> [] \<in> set (tokens (state_subject [] pool))"
proof -
  have t: "tokens (xs @ ''.'' @ [] @ ''.'' @ pool) = tokens xs @ [] # tokens pool" for xs
    using tokens_dot [of xs "CHR ''.'' # pool"] by simp
  show ?thesis
    using t [of "''shares''"] t [of "''blocks''"] t [of "''poolstate''"]
    by (simp add: share_subject_def block_subject_def state_subject_def subject_share_prefix_def subject_block_prefix_def subject_state_prefix_def)
qed

text \<open>What such a node records never gets to the stream, as long as NATS takes no publish on a subject with an empty token.\<close>

definition subjects_well_formed :: "(string \<Rightarrow> bool) \<Rightarrow> bool" where
  "subjects_well_formed takes \<longleftrightarrow> (\<forall>s. takes s \<longrightarrow> [] \<notin> set (tokens s))"

lemma regionless_message:
  assumes "subjects_well_formed takes" and "pb_region pb = []" and "message_of c pb r = Some m"
  shows "\<not> takes (fst m)"
  using assms regionless_subjects
  by (cases r) (auto simp: message_of_def subjects_well_formed_def)

end
