(* ===== verification/Daemon.thy ===== *)
theory Daemon
  imports Wiring Listeners Nats
begin

text \<open>
  \<open>cmd/stratumd/main.go\<close> from start to end: which parts of a node come up in which order, where the process exits instead, and how the
  shutdown takes them down; \<open>cmd/rewardd\<close> and \<open>cmd/payoutd\<close> up to their loops. What the parts do is in their own theories; here a
  part is a name, and what the outside answers while the process starts is the environment. Whether an address can be bound is asked once for each
  use, so the API and a stratum port are taken to have different ones.
\<close>

subsection \<open>Starting stratumd\<close>

datatype part =
    PtSpool | PtNats | PtStreamRetry | PtPublisher | PtPools | PtStore | PtWriter | PtConsumer | PtCommands | PtApi | PtStratum

datatype exit_reason =
    ExitSpool | ExitNats nats_error | ExitPostgres | ExitConsumer nats_error | ExitApi string | ExitStratum string

record boot_env =
  bv_spool :: bool
  bv_default_url :: string
  bv_nats :: nats_env
  bv_postgres :: bool
  bv_listen :: "string \<Rightarrow> bool"

definition nats_options_of :: "config \<Rightarrow> nats_options" where
  "nats_options_of cfg =
     \<lparr>no_urls = na_urls (cf_nats cfg), no_name = cf_node_id cfg, no_region = cf_region cfg, no_require_streams = (cf_mode cfg = mode_master)\<rparr>"

text \<open>A step of \<open>main\<close> takes the parts that run; the process goes on with more of them or exits with those it had.\<close>

type_synonym boot = "(exit_reason \<times> part list) + part list"

definition boot_messaging :: "boot_env \<Rightarrow> config \<Rightarrow> part list \<Rightarrow> boot" where
  "boot_messaging env cfg ps =
     (if \<not> na_enabled (cf_nats cfg) then Inr ps
      else if \<not> bv_spool env then Inl (ExitSpool, ps)
      else case nats_connect (bv_default_url env) (bv_nats env) (nats_options_of cfg) of
          Inl e \<Rightarrow> Inl (ExitNats e, ps @ [PtSpool])
        | Inr c \<Rightarrow> Inr (ps @ [PtSpool, PtNats] @ (if nc_retrying c then [PtStreamRetry] else []) @ [PtPublisher]))"

definition boot_pools :: "part list \<Rightarrow> boot" where
  "boot_pools ps = Inr (ps @ [PtPools])"

definition boot_storage :: "boot_env \<Rightarrow> config \<Rightarrow> part list \<Rightarrow> boot" where
  "boot_storage env cfg ps =
     (if \<not> pg_enabled (cf_postgres cfg) then Inr ps
      else if \<not> bv_postgres env then Inl (ExitPostgres, ps)
      else Inr (ps @ [PtStore, PtWriter]))"

definition boot_followers :: "boot_env \<Rightarrow> config \<Rightarrow> part list \<Rightarrow> boot" where
  "boot_followers env cfg ps =
     (if consumes_events cfg
      then (case start_consumer (bv_nats env) master_consumer of
          Inl e \<Rightarrow> Inl (ExitConsumer e, ps) | Inr _ \<Rightarrow> Inr (ps @ [PtConsumer]))
      else if follows_commands cfg
      then (case start_consumer (bv_nats env) command_consumer of
          Inl e \<Rightarrow> Inr ps | Inr _ \<Rightarrow> Inr (ps @ [PtCommands]))
      else Inr ps)"

definition boot_api :: "boot_env \<Rightarrow> config \<Rightarrow> part list \<Rightarrow> boot" where
  "boot_api env cfg ps =
     (if \<not> ai_enabled (cf_api cfg) then Inr ps
      else if \<not> bv_listen env (ai_bind (cf_api cfg)) then Inl (ExitApi (ai_bind (cf_api cfg)), ps)
      else Inr (ps @ [PtApi]))"

definition boot_stratum :: "boot_env \<Rightarrow> config \<Rightarrow> part list \<Rightarrow> boot" where
  "boot_stratum env cfg ps =
     (case snd (server_start (bv_listen env) (cf_stratum cfg)) of
        Inl addr \<Rightarrow> Inl (ExitStratum addr, filter (\<lambda>p. p \<noteq> PtPools) ps)
      | Inr _ \<Rightarrow> Inr (ps @ [PtStratum]))"

definition boot :: "boot_env \<Rightarrow> config \<Rightarrow> boot" where
  "boot env cfg =
     foldl (\<lambda>r step. case r of Inl x \<Rightarrow> Inl x | Inr ps \<Rightarrow> step ps) (Inr [])
       [boot_messaging env cfg, boot_pools, boot_storage env cfg, boot_followers env cfg, boot_api env cfg, boot_stratum env cfg]"

subsection \<open>Shutting down\<close>

text \<open>After the signal the API and the stream retry end with the context; the rest is stopped one after the other.\<close>

definition stop_order :: "part list" where
  "stop_order = [PtStratum, PtPools, PtConsumer, PtCommands, PtPublisher, PtNats, PtSpool, PtWriter, PtStore]"

definition shutdown :: "part list \<Rightarrow> part list" where
  "shutdown ps = filter (\<lambda>p. p \<in> set ps) stop_order"

text \<open>
  Who calls whom while running, by the values and callbacks \<open>main\<close> hands out: a session reaches the pools and, through the job manager's
  recorders, the writer, the store and the publisher; a pool reports its state to the publisher and its job manager sends new jobs through
  the server; a failed publish goes from the client to the spool; the API and the gauges it serves read nearly everything. The goroutines of a
  subscription count as the subscriber's, and those that a job manager leaves behind for a block belong to no part.
\<close>

fun calls :: "part \<Rightarrow> part list" where
  "calls PtStratum = [PtPools, PtWriter, PtStore, PtPublisher]"
| "calls PtPools = [PtPublisher, PtStratum]"
| "calls PtConsumer = [PtNats, PtWriter, PtStore]"
| "calls PtCommands = [PtNats, PtPools]"
| "calls PtPublisher = [PtSpool, PtNats]"
| "calls PtNats = [PtSpool]"
| "calls PtWriter = [PtStore]"
| "calls PtApi = [PtPools, PtStore, PtNats, PtStratum, PtWriter, PtSpool]"
| "calls PtStreamRetry = [PtNats]"
| "calls _ = []"

definition stopped_before :: "part list \<Rightarrow> part \<Rightarrow> part \<Rightarrow> bool" where
  "stopped_before xs a b \<longleftrightarrow> a \<in> set xs \<and> b \<in> set (tl (dropWhile (\<lambda>p. p \<noteq> a) xs))"

lemma stopped_before_filter:
  "P a \<Longrightarrow> P b \<Longrightarrow> distinct xs \<Longrightarrow> stopped_before (filter P xs) a b \<longleftrightarrow> stopped_before xs a b"
  by (induction xs) (auto simp: stopped_before_def split: if_splits dest: set_dropWhileD)

subsection \<open>What a node that is ready consists of\<close>

definition stream_names_ok :: "boot_env \<Rightarrow> bool" where
  "stream_names_ok env \<longleftrightarrow> ensure_streams (nv_stream (bv_nats env)) = Inr ()"

definition can_start :: "boot_env \<Rightarrow> config \<Rightarrow> bool" where
  "can_start env cfg \<longleftrightarrow>
     (na_enabled (cf_nats cfg) \<longrightarrow> bv_spool env \<and> nv_dial (bv_nats env) (server_url (bv_default_url env) (na_urls (cf_nats cfg)))
        \<and> nv_jetstream (bv_nats env) \<and> (cf_mode cfg = mode_master \<longrightarrow> stream_names_ok env))
     \<and> (pg_enabled (cf_postgres cfg) \<longrightarrow> bv_postgres env)
     \<and> (cf_mode cfg = mode_master \<longrightarrow> start_consumer (bv_nats env) master_consumer = Inr ())
     \<and> (ai_enabled (cf_api cfg) \<longrightarrow> bv_listen env (ai_bind (cf_api cfg)))
     \<and> list_all (\<lambda>p. bv_listen env (listen_addr (cf_stratum cfg) p)) (sg_ports (cf_stratum cfg))"

definition expected_parts :: "boot_env \<Rightarrow> config \<Rightarrow> part set" where
  "expected_parts env cfg =
     {PtPools, PtStratum}
     \<union> (if na_enabled (cf_nats cfg) then {PtSpool, PtNats, PtPublisher} else {})
     \<union> (if na_enabled (cf_nats cfg) \<and> \<not> stream_names_ok env then {PtStreamRetry} else {})
     \<union> (if pg_enabled (cf_postgres cfg) then {PtStore, PtWriter} else {})
     \<union> (if cf_mode cfg = mode_master then {PtConsumer} else {})
     \<union> (if na_enabled (cf_nats cfg) \<and> cf_mode cfg \<noteq> mode_master \<and> start_consumer (bv_nats env) command_consumer = Inr () then {PtCommands} else {})
     \<union> (if ai_enabled (cf_api cfg) then {PtApi} else {})"

lemma server_start_ready:
  "(\<exists>u. snd (server_start listen cfg) = Inr u) \<longleftrightarrow> list_all (\<lambda>p. listen (listen_addr cfg p)) (sg_ports cfg)"
  using server_start_exact [of listen cfg] find_None_iff [of "\<lambda>a. \<not> listen a" "map (listen_addr cfg) (sg_ports cfg)"]
  by (cases "server_start listen cfg"; cases "snd (server_start listen cfg)") (auto simp: list_all_iff)

lemma boot_messaging_ready:
  "boot_messaging env cfg [] = Inr ps \<longleftrightarrow>
     (na_enabled (cf_nats cfg) \<longrightarrow> bv_spool env \<and> nv_dial (bv_nats env) (server_url (bv_default_url env) (na_urls (cf_nats cfg)))
        \<and> nv_jetstream (bv_nats env) \<and> (cf_mode cfg = mode_master \<longrightarrow> stream_names_ok env))
     \<and> ps = (if na_enabled (cf_nats cfg) then [PtSpool, PtNats] @ (if stream_names_ok env then [] else [PtStreamRetry]) @ [PtPublisher] else [])"
  by (auto simp: boot_messaging_def nats_connect_def nats_options_of_def stream_names_ok_def Let_def split: sum.splits)

lemma boot_steps:
  "boot env cfg = Inr ps \<longleftrightarrow>
     (\<exists>p1 p2 p3 p4. boot_messaging env cfg [] = Inr p1 \<and> boot_storage env cfg (p1 @ [PtPools]) = Inr p2
        \<and> boot_followers env cfg p2 = Inr p3 \<and> boot_api env cfg p3 = Inr p4 \<and> boot_stratum env cfg p4 = Inr ps)"
  by (auto simp: boot_def boot_pools_def split: sum.splits)

text \<open>The parts in the order they come up.\<close>

definition booted :: "boot_env \<Rightarrow> config \<Rightarrow> part list" where
  "booted env cfg =
     (if na_enabled (cf_nats cfg) then [PtSpool, PtNats] @ (if stream_names_ok env then [] else [PtStreamRetry]) @ [PtPublisher] else [])
     @ [PtPools] @ (if pg_enabled (cf_postgres cfg) then [PtStore, PtWriter] else [])
     @ (if consumes_events cfg then [PtConsumer]
        else if follows_commands cfg \<and> start_consumer (bv_nats env) command_consumer = Inr () then [PtCommands] else [])
     @ (if ai_enabled (cf_api cfg) then [PtApi] else []) @ [PtStratum]"

lemma boot_ready:
  assumes "cf_mode cfg = mode_master \<longrightarrow> na_enabled (cf_nats cfg)"
  shows "boot env cfg = Inr ps \<longleftrightarrow> can_start env cfg \<and> ps = booted env cfg"
proof -
  have s: "boot_storage env cfg p1 = Inr p2 \<longleftrightarrow> (pg_enabled (cf_postgres cfg) \<longrightarrow> bv_postgres env)
      \<and> p2 = p1 @ (if pg_enabled (cf_postgres cfg) then [PtStore, PtWriter] else [])" for p1 p2
    by (auto simp: boot_storage_def)
  have f: "boot_followers env cfg p1 = Inr p2 \<longleftrightarrow> (consumes_events cfg \<longrightarrow> start_consumer (bv_nats env) master_consumer = Inr ())
      \<and> p2 = p1 @ (if consumes_events cfg then [PtConsumer]
          else if follows_commands cfg \<and> start_consumer (bv_nats env) command_consumer = Inr () then [PtCommands] else [])" for p1 p2
    by (auto simp: boot_followers_def split: sum.splits)
  have a: "boot_api env cfg p1 = Inr p2 \<longleftrightarrow> (ai_enabled (cf_api cfg) \<longrightarrow> bv_listen env (ai_bind (cf_api cfg)))
      \<and> p2 = p1 @ (if ai_enabled (cf_api cfg) then [PtApi] else [])" for p1 p2
    by (auto simp: boot_api_def)
  have t: "boot_stratum env cfg p1 = Inr p2 \<longleftrightarrow>
      list_all (\<lambda>p. bv_listen env (listen_addr (cf_stratum cfg) p)) (sg_ports (cf_stratum cfg)) \<and> p2 = p1 @ [PtStratum]" for p1 p2
    using server_start_ready [of "bv_listen env" "cf_stratum cfg"] by (auto simp: boot_stratum_def split: sum.splits)
  have m: "consumes_events cfg \<longleftrightarrow> cf_mode cfg = mode_master" using assms by (auto simp: consumes_events_def)
  show ?thesis
    unfolding boot_steps boot_messaging_ready s f a t can_start_def booted_def m by (auto simp: m)
qed

lemma booted_parts: "set (booted env cfg) = expected_parts env cfg \<and> distinct (booted env cfg)"
  if "cf_mode cfg = mode_master \<longrightarrow> na_enabled (cf_nats cfg)"
  using that by (simp add: booted_def expected_parts_def consumes_events_def follows_commands_def) auto

text \<open>
  C21: a node starts completely or not at all, and stops its parts in a fixed order. For every loaded configuration and whatever the outside answers:
  \<open>main\<close> gets ready exactly when every service it needs is there (the streams only for a master; a missing command consumer only leaves
  the node without remote commands), and then runs exactly the parts its configuration asks for, each once. After the signal \<open>main\<close> stops each
  of them once, except the API and the stream retry, which end with the signal's context and for which it does not wait. Of the parts it stops, one
  that calls another is stopped before it, with exactly two exceptions: the command subscriber outlives the pools it acts on, and the
  pools, whose job managers send jobs through the stratum server, outlive that server.
\<close>

theorem node_starts_and_stops:
  assumes "load_config raw = Inr cfg"
  shows "((\<exists>ps. boot env cfg = Inr ps) \<longleftrightarrow> can_start env cfg)
    \<and> (\<forall>ps. boot env cfg = Inr ps \<longrightarrow> distinct ps \<and> set ps = expected_parts env cfg
        \<and> distinct (shutdown ps) \<and> set (shutdown ps) = set ps - {PtApi, PtStreamRetry}
        \<and> (\<forall>a \<in> set (shutdown ps). \<forall>b \<in> set (calls a). b \<in> set ps \<longrightarrow>
             (stopped_before (shutdown ps) a b \<longleftrightarrow> (a, b) \<noteq> (PtCommands, PtPools) \<and> (a, b) \<noteq> (PtPools, PtStratum))))"
proof -
  have m: "cf_mode cfg = mode_master \<longrightarrow> na_enabled (cf_nats cfg)"
    using load_ok(1) [OF assms] by (simp add: config_ok_def services_ok_def)
  have o: "\<forall>a \<in> set stop_order. \<forall>b \<in> set (calls a).
      stopped_before stop_order a b \<longleftrightarrow> (a, b) \<noteq> (PtCommands, PtPools) \<and> (a, b) \<noteq> (PtPools, PtStratum)"
    by code_simp
  have d: "distinct stop_order" by code_simp
  have c: "set stop_order = UNIV - {PtApi, PtStreamRetry}"
  proof -
    have "p \<in> set stop_order \<longleftrightarrow> p \<notin> {PtApi, PtStreamRetry}" for p by (cases p) (simp_all add: stop_order_def)
    then show ?thesis by blast
  qed
  have s: "set (shutdown ps) = set ps - {PtApi, PtStreamRetry}" for ps by (auto simp: shutdown_def c)
  have stop: "stopped_before (shutdown ps) a b \<longleftrightarrow> (a, b) \<noteq> (PtCommands, PtPools) \<and> (a, b) \<noteq> (PtPools, PtStratum)"
    if "a \<in> set (shutdown ps)" "b \<in> set (calls a)" "b \<in> set ps" for ps a b
  proof -
    have "a \<in> set stop_order" "a \<in> set ps" using that(1) by (auto simp: shutdown_def)
    then show ?thesis unfolding shutdown_def using stopped_before_filter [of "\<lambda>p. p \<in> set ps" a b stop_order] d o that(2,3) by blast
  qed
  have ds: "distinct (shutdown ps)" for ps by (simp add: shutdown_def d)
  show ?thesis unfolding boot_ready [OF m] using booted_parts [OF m, of env] s ds stop by metis
qed

subsection \<open>A start that fails late\<close>

text \<open>The master's consumer at work: the message at the head of the stream is handled and acknowledged.\<close>

definition handle_next :: "msg_codec \<Rightarrow> wal_codec \<Rightarrow> backends \<times> message list \<Rightarrow> record_env \<Rightarrow> backends \<times> message list" where
  "handle_next mc wc st e = (case snd st of [] \<Rightarrow> st | m # ms \<Rightarrow> (master_consumes mc wc e (fst st) m, ms))"

text \<open>What is left of the writer's shares when the process exits: the table and the log on disk.\<close>

definition survives :: "wal_codec \<Rightarrow> share_record list \<Rightarrow> share_writer \<Rightarrow> share_record \<Rightarrow> bool" where
  "survives wc tbl w r \<longleftrightarrow> stored tbl r \<or> r \<in> logged wc w"

definition consumed_share :: "msg_codec \<Rightarrow> message \<Rightarrow> share_record option" where
  "consumed_share mc m = (case consume mc m of Some (SinkShare x) \<Rightarrow> Some (sink_share_record x) | _ \<Rightarrow> None)"

lemma late_exit_running:
  assumes "cf_mode cfg = mode_master" and "na_enabled (cf_nats cfg)" and "pg_enabled (cf_postgres cfg)"
    and "boot env cfg = Inl (r, ps)" and "\<exists>a. r = ExitApi a \<or> r = ExitStratum a"
  shows "PtConsumer \<in> set ps \<and> PtWriter \<in> set ps"
proof -
  have m: "boot_messaging env cfg qs \<noteq> Inl (ExitApi a, xs) \<and> boot_messaging env cfg qs \<noteq> Inl (ExitStratum a, xs)" for a qs xs
    by (auto simp: boot_messaging_def split: if_splits sum.splits)
  have s: "x = qs @ [PtStore, PtWriter]" if "boot_storage env cfg qs = Inr x" for x qs
    using that assms(3) by (simp add: boot_storage_def split: if_splits)
  have s': "boot_storage env cfg qs \<noteq> Inl (ExitApi a, xs) \<and> boot_storage env cfg qs \<noteq> Inl (ExitStratum a, xs)" for a qs xs
    by (auto simp: boot_storage_def split: if_splits)
  have f: "x = qs @ [PtConsumer]" if "boot_followers env cfg qs = Inr x" for x qs
    using that assms(1,2) by (auto simp: boot_followers_def consumes_events_def split: sum.splits)
  have f': "boot_followers env cfg qs \<noteq> Inl (ExitApi a, xs) \<and> boot_followers env cfg qs \<noteq> Inl (ExitStratum a, xs)" for a qs xs
    by (auto simp: boot_followers_def split: if_splits sum.splits)
  have a: "set qs \<subseteq> set x" if "boot_api env cfg qs = Inr x" for x qs
    using that by (auto simp: boot_api_def split: if_splits)
  have a': "snd x = qs" if "boot_api env cfg qs = Inl x" for x qs
    using that by (auto simp: boot_api_def split: if_splits)
  have t: "snd x = filter (\<lambda>p. p \<noteq> PtPools) qs" if "boot_stratum env cfg qs = Inl x" for x qs
    using that by (auto simp: boot_stratum_def split: sum.splits)
  obtain p1 where 1: "boot_messaging env cfg [] = Inr p1"
    using assms(4,5) m by (cases "boot_messaging env cfg []") (auto simp: boot_def)
  obtain p2 where 2: "boot_storage env cfg (p1 @ [PtPools]) = Inr p2"
    using assms(4,5) s' 1 by (cases "boot_storage env cfg (p1 @ [PtPools])") (auto simp: boot_def boot_pools_def)
  obtain p3 where 3: "boot_followers env cfg p2 = Inr p3"
    using assms(4,5) f' 1 2 by (cases "boot_followers env cfg p2") (auto simp: boot_def boot_pools_def)
  have in3: "PtConsumer \<in> set p3" "PtWriter \<in> set p3" using f [OF 3] s [OF 2] by auto
  show ?thesis
  proof (cases "boot_api env cfg p3")
    case (Inl x)
    then have "x = (r, ps)" using assms(4) 1 2 3 by (simp add: boot_def boot_pools_def)
    then show ?thesis using a' [OF Inl] in3 by simp
  next
    case (Inr p4)
    then have "boot_stratum env cfg p4 = Inl (r, ps)" using assms(4) 1 2 3 by (simp add: boot_def boot_pools_def)
    from t [OF this] a [OF Inr] in3 show ?thesis by auto
  qed
qed

lemma handle_share:
  assumes "consumed_share mc m = Some x" and "bk_writer b = Some w" and "int (length (sw_queue w)) < wo_queue_size (sw_opts w)"
  shows "bk_writer (master_consumes mc wc e b m) = Some (w\<lparr>sw_queue := sw_queue w @ [with_id (re_new_id e) x]\<rparr>)"
  using assms by (auto simp: consumed_share_def master_consumes_def sink_def store_share_def enqueue_def Let_def split: option.splits sink_effect.splits)

lemma handle_shares:
  assumes "length es = length ms" and "\<forall>m \<in> set ms. consumed_share mc m \<noteq> None" and "bk_writer b = Some w"
    and "int (length (sw_queue w) + length ms) \<le> wo_queue_size (sw_opts w)"
    and "foldl (handle_next mc wc) (b, ms) es = (b', rest)"
  shows "rest = [] \<and> bk_writer b' = Some (w\<lparr>sw_queue := sw_queue w @ map2 (\<lambda>e m. with_id (re_new_id e) (the (consumed_share mc m))) es ms\<rparr>)"
  using assms
proof (induction es ms arbitrary: b w rule: list_induct2)
  case (Cons e es m ms)
  obtain x where x: "consumed_share mc m = Some x" using Cons.prems(1) by auto
  let ?w = "w\<lparr>sw_queue := sw_queue w @ [with_id (re_new_id e) x]\<rparr>"
  have b1: "bk_writer (master_consumes mc wc e b m) = Some ?w"
    using Cons.prems(2,3) by (intro handle_share [OF x]) auto
  have r: "foldl (handle_next mc wc) (master_consumes mc wc e b m, ms) es = (b', rest)"
    using Cons.prems(4) handle_next_def [of mc wc "(b, m # ms)" e] by simp
  show ?case using Cons.IH [OF _ b1 _ r] Cons.prems(1,3) by (simp add: x)
qed simp

lemma fresh_indexed:
  assumes "distinct (map hr_id rs)" and "\<forall>r \<in> set rs. hr_id r \<noteq> [] \<and> hr_id r \<notin> fst ` set ks"
  shows "indexed_ok ks rs"
  using assms
proof (induction rs arbitrary: ks)
  case (Cons r rs)
  have "share_key r \<notin> set ks" using Cons.prems(2) by (auto simp: share_key_def rev_image_eqI)
  moreover have "indexed_ok (share_key r # ks) rs" using Cons.prems by (intro Cons.IH) (auto simp: share_key_def dest: sym)
  ultimately show ?case using Cons.prems(2) by simp
qed simp

text \<open>
  C35: a master that fails late loses what it has consumed. The consumer runs before the API and the stratum ports are opened; when one
  of them cannot be bound, \<open>main\<close> exits at once, without closing the writer. The shares consumed by then are acknowledged, so the stream is
  empty and NATS will not deliver them again, and they wait in memory: neither the table nor the log has them and none
  survives the exit, though the writer's final flush, which the shutdown makes and this exit leaves out, would have stored every one.
\<close>

theorem late_start_failure_loses:
  assumes "load_config raw = Inr cfg" and "cf_mode cfg = mode_master"
    and "boot env cfg = Inl (r, ps)" and "\<exists>a. r = ExitApi a \<or> r = ExitStratum a"
    and "\<forall>m \<in> set ms. consumed_share mc m \<noteq> None" and "length es = length ms"
    and "bk_writer b = Some (new_share_writer (writer_options_of (cf_postgres cfg)) wal)"
    and "int (length ms) \<le> wo_queue_size (writer_defaults (writer_options_of (cf_postgres cfg)))"
    and "distinct (map re_new_id es)" and "\<forall>e \<in> set es. re_new_id e \<noteq> [] \<and> re_new_id e \<notin> hr_id ` set tbl"
    and "\<forall>e \<in> set es. re_new_id e \<notin> hr_id ` logged wc (new_share_writer (writer_options_of (cf_postgres cfg)) wal)"
    and "foldl (handle_next mc wc) (b, ms) es = (b', rest)"
  shows "PtConsumer \<in> set ps \<and> PtWriter \<in> set ps \<and> rest = []
    \<and> (\<exists>w. bk_writer b' = Some w \<and> length (sw_queue w) = length ms
        \<and> (\<forall>x \<in> set (sw_queue w). \<not> survives wc tbl w x \<and> stored (fst (final_flush DbOk tbl w)) x))"
proof -
  let ?fresh = "new_share_writer (writer_options_of (cf_postgres cfg)) wal"
  let ?q = "map2 (\<lambda>e m. with_id (re_new_id e) (the (consumed_share mc m))) es ms"
  let ?w = "?fresh\<lparr>sw_queue := ?q\<rparr>"
  have ok: "na_enabled (cf_nats cfg)" "pg_enabled (cf_postgres cfg)"
    using load_ok(1) [OF assms(1)] assms(2) by (auto simp: config_ok_def services_ok_def)
  have w0: "sw_queue ?fresh = []" "sw_batch ?fresh = []" "sw_pending ?fresh = []"
    "sw_opts ?fresh = writer_defaults (writer_options_of (cf_postgres cfg))"
    by (simp_all add: new_share_writer_def Let_def)
  have "int (length (sw_queue ?fresh) + length ms) \<le> wo_queue_size (sw_opts ?fresh)" using assms(8) by (simp add: w0)
  note h0 = handle_shares [OF assms(6,5,7) this assms(12), unfolded w0 append.simps(1)]
  have h: "rest = []" "bk_writer b' = Some ?w" using h0 by blast+
  have i: "hr_id (with_id (re_new_id e) (the (consumed_share mc m))) = re_new_id e" if "m \<in> set ms" for e m
    using assms(5) that by (auto simp: with_id_def consumed_share_def sink_share_record_def split: option.splits sink_effect.splits)
  have ids: "map hr_id ?q = map re_new_id es"
    by (rule nth_equalityI) (simp_all add: assms(6) i)
  have id: "\<exists>e \<in> set es. hr_id x = re_new_id e" if "x \<in> set ?q" for x
  proof -
    have "hr_id x \<in> hr_id ` set ?q" using that by (rule imageI)
    then have "hr_id x \<in> set (map hr_id ?q)" by (simp only: set_map)
    then show ?thesis unfolding ids by auto
  qed
  have lost: "\<not> survives wc tbl ?w x" if x: "x \<in> set ?q" for x
  proof -
    have l: "logged wc ?w = logged wc ?fresh" by (simp add: logged_def)
    obtain e where "e \<in> set es" "hr_id x = re_new_id e" using id [OF x] by blast
    then show ?thesis using assms(10,11) unfolding survives_def l by (auto simp: stored_def share_key_def rev_image_eqI)
  qed
  have "indexed_ok (map share_key tbl) ?q"
  proof (rule fresh_indexed)
    show "distinct (map hr_id ?q)" unfolding ids by (rule assms(9))
    show "\<forall>r \<in> set ?q. hr_id r \<noteq> [] \<and> hr_id r \<notin> fst ` set (map share_key tbl)"
      using id assms(10) by (fastforce simp: share_key_def)
  qed
  then have "fst (final_flush DbOk tbl ?w) = tbl @ ?q"
    using w0(2,3) by (auto simp: final_flush_def copy_shares_def finish_insert_def Let_def)
  then have st: "stored (fst (final_flush DbOk tbl ?w)) x" if "x \<in> set ?q" for x using that by (simp add: stored_self)
  show ?thesis using late_exit_running [OF assms(2) ok assms(3,4)] h lost st assms(6) by auto
qed

subsection \<open>A node that starts before its NATS server\<close>

record follower =
  fw_lifecycle :: lifecycle
  fw_client :: nats_client
  fw_attached :: bool

datatype follow_event =
    FoRetry "nats_stream \<Rightarrow> bool"
  | FoCommand int bytes
  | FoOperator int string pool_op

fun follow_step :: "msg_codec \<Rightarrow> follower \<Rightarrow> follow_event \<Rightarrow> follower" where
  "follow_step mc s (FoRetry create) = s\<lparr>fw_client := retry_streams create (fw_client s)\<rparr>"
| "follow_step mc s (FoCommand now data) =
     (if fw_attached s then s\<lparr>fw_lifecycle := fst (on_command mc now (fw_lifecycle s) data)\<rparr> else s)"
| "follow_step mc s (FoOperator now p op) = s\<lparr>fw_lifecycle := fst (apply_op now (fw_lifecycle s) p op)\<rparr>"

fun is_command :: "follow_event \<Rightarrow> bool" where
  "is_command (FoCommand now data) = True"
| "is_command _ = False"

text \<open>The state when \<open>main\<close> is ready: the client, and whether the command consumer was attached.\<close>

definition follower_at :: "part list \<Rightarrow> nats_client \<Rightarrow> lifecycle \<Rightarrow> follower" where
  "follower_at ps c lc = \<lparr>fw_lifecycle = lc, fw_client = c, fw_attached = (PtCommands \<in> set ps)\<rparr>"

lemma detached_run:
  "\<not> fw_attached s \<Longrightarrow> foldl (follow_step mc) s evs = foldl (follow_step mc) s (filter (\<lambda>e. \<not> is_command e) evs)"
proof (induction evs arbitrary: s)
  case (Cons e evs)
  have "\<not> fw_attached (follow_step mc s e)" using Cons.prems by (cases e) simp_all
  then show ?case using Cons.IH Cons.prems by (cases e) simp_all
qed simp

lemma retried_run:
  "\<not> nc_retrying (fw_client s) \<or> (\<exists>create. FoRetry create \<in> set evs \<and> ensure_streams create = Inr ()) \<Longrightarrow>
     \<not> nc_retrying (fw_client (foldl (follow_step mc) s evs))"
proof (induction evs arbitrary: s)
  case (Cons e evs)
  show ?case
  proof (cases "\<not> nc_retrying (fw_client (follow_step mc s e))")
    case True
    then show ?thesis using Cons.IH by simp
  next
    case False
    then have "nc_retrying (fw_client s)" "\<nexists>create. e = FoRetry create \<and> ensure_streams create = Inr ()"
      by (cases e; auto simp: retry_streams_def split: if_splits)+
    then have "\<exists>create. FoRetry create \<in> set evs \<and> ensure_streams create = Inr ()" using Cons.prems by auto
    then show ?thesis using Cons.IH by simp
  qed
qed simp

text \<open>
  A node that is up before its NATS server never follows a command. A node that is not a master starts although the streams or the
  command consumer cannot be had, and a retry in the background ends with the streams in place. But the consumer of commands is tried
  once only: if that failed, the pools of the node are, whatever is commanded for the rest of its life, where its own operator and
  nobody else put them, while its events go out.
\<close>

theorem late_nats_never_follows:
  assumes "load_config raw = Inr cfg" and "cf_mode cfg \<noteq> mode_master" and "boot env cfg = Inr ps"
    and "start_consumer (bv_nats env) command_consumer \<noteq> Inr ()"
    and "nats_connect (bv_default_url env) (bv_nats env) (nats_options_of cfg) = Inr c"
  shows "let s = follower_at ps c lc in
    foldl (follow_step mc) s evs = foldl (follow_step mc) s (filter (\<lambda>e. \<not> is_command e) evs)
    \<and> (nc_retrying c \<longleftrightarrow> \<not> stream_names_ok env)
    \<and> ((\<exists>create. FoRetry create \<in> set evs \<and> ensure_streams create = Inr ()) \<longrightarrow> \<not> nc_retrying (fw_client (foldl (follow_step mc) s evs)))"
proof -
  have m: "cf_mode cfg = mode_master \<longrightarrow> na_enabled (cf_nats cfg)" using assms(2) by simp
  have "PtCommands \<notin> set ps"
    using assms(3,4) booted_parts [OF m, of env] unfolding boot_ready [OF m] by (simp add: expected_parts_def)
  then have "\<not> fw_attached (follower_at ps c lc)" by (simp add: follower_at_def)
  from detached_run [OF this] show ?thesis
    using retried_run nats_connect_client [OF assms(5)] by (auto simp: Let_def stream_names_ok_def)
qed

subsection \<open>Shutdown and pending publishes\<close>

text \<open>
  A publish that NATS has not acknowledged is neither awaited nor put on the spool when the process ends: an event just recorded is then at
  the node's spool only if it had been there before.
\<close>

lemma pending_not_spooled:
  assumes "message_of c pb r = Some m"
  shows "m \<in> set (pb_pending (record_any c PubPending w pb r)) \<and> spooled (record_any c PubPending w pb r) = spooled pb"
  by (simp add: record_any_publish assms publish_def spooled_def)

subsection \<open>rewardd and payoutd\<close>

datatype daemon_exit = NeedsPostgres | PostgresDown | NoPools

definition daemon_main :: "bool \<Rightarrow> config \<Rightarrow> (pool_config \<Rightarrow> wiring_error + 'o) \<Rightarrow> daemon_exit + 'o list" where
  "daemon_main pg_ok cfg build =
     (if \<not> pg_enabled (cf_postgres cfg) then Inl NeedsPostgres
      else if \<not> pg_ok then Inl PostgresDown
      else let procs = List.map_filter (\<lambda>p. if pc_enabled p then (case build p of Inl _ \<Rightarrow> None | Inr o1 \<Rightarrow> Some o1) else None) (cf_pools cfg)
           in if procs = [] then Inl NoPools else Inr procs)"

definition rewardd_main :: "bool \<Rightarrow> config \<Rightarrow> daemon_exit + processor_options list" where
  "rewardd_main pg_ok cfg = daemon_main pg_ok cfg (reward_processor cfg)"

definition payoutd_main :: "pow_hash \<Rightarrow> (bytes \<Rightarrow> bytes) \<Rightarrow> bool \<Rightarrow> config \<Rightarrow> daemon_exit + payout_options list" where
  "payoutd_main scrypt_hash blake2b_256 pg_ok cfg = daemon_main pg_ok cfg (payout_processor scrypt_hash blake2b_256 cfg)"

text \<open>What one pool's goroutine does to the tables, given the environments of the passes it makes: with \<open>-once\<close> a single one.\<close>

definition reward_loop :: "bool \<Rightarrow> processor_options \<Rightarrow> 'e pass_env list \<Rightarrow> db \<Rightarrow> db" where
  "reward_loop once opts envs d = processor_run opts (if once then take 1 envs else envs) d"

definition payout_loop :: "bool \<Rightarrow> payout_options \<Rightarrow> 'w payout_env list \<Rightarrow> db \<Rightarrow> db" where
  "payout_loop once opts envs d = foldl (\<lambda>d env. fst (payout_pass opts env d)) d (if once then take 1 envs else envs)"

lemma rewardd_pools:
  "rewardd_main pg_ok cfg = Inr procs \<longleftrightarrow>
     pg_enabled (cf_postgres cfg) \<and> pg_ok \<and> procs \<noteq> [] \<and> map po_pool procs = rewarded_pools cfg
     \<and> procs = List.map_filter (\<lambda>p. if pc_enabled p then (case reward_processor cfg p of Inl _ \<Rightarrow> None | Inr o1 \<Rightarrow> Some o1) else None) (cf_pools cfg)"
proof -
  let ?f = "\<lambda>p. if pc_enabled p then (case reward_processor cfg p of Inl _ \<Rightarrow> None | Inr o1 \<Rightarrow> Some o1) else None"
  have id: "reward_processor cfg p = Inr o1 \<Longrightarrow> po_pool o1 = pc_id p" for p o1
    by (auto simp: reward_processor_def Let_def split: option.splits if_splits sum.splits)
  have "map po_pool (List.map_filter ?f ps) = map pc_id (filter (\<lambda>p. pc_enabled p \<and> (\<exists>x. reward_processor cfg p = Inr x)) ps)" for ps
    by (induction ps) (auto simp: map_filter_simps id split: sum.splits)
  then show ?thesis by (auto simp: rewardd_main_def daemon_main_def rewarded_pools_def Let_def)
qed

subsection \<open>Sample runs\<close>

definition sample_boot :: "bool \<Rightarrow> (string \<Rightarrow> bool) \<Rightarrow> boot_env" where
  "sample_boot nats listen =
     \<lparr>bv_spool = True, bv_default_url = ''nats://127.0.0.1:4222'',
      bv_nats = \<lparr>nv_dial = (\<lambda>_. True), nv_jetstream = True, nv_stream = (\<lambda>_. nats), nv_consumer = (\<lambda>_. nats), nv_consume = nats\<rparr>,
      bv_postgres = True, bv_listen = listen\<rparr>"

definition node_of_mode :: "string \<Rightarrow> config" where
  "node_of_mode mode = sample_config\<lparr>cf_mode := mode, cf_region := ''eu'',
     cf_nats := \<lparr>na_enabled = True, na_urls = [''nats://a'', ''nats://b''], na_spool_dir = [], na_spool_max_bytes = 0\<rparr>\<rparr>"

lemma nodes_ok:
  "load_config (node_of_mode mode_master) = Inr (apply_defaults (node_of_mode mode_master))"
  "load_config (node_of_mode mode_regional) = Inr (apply_defaults (node_of_mode mode_regional))"
proof -
  have "config_ok (apply_defaults (node_of_mode mode_master))" "config_ok (apply_defaults (node_of_mode mode_regional))" by code_simp+
  then show "load_config (node_of_mode mode_master) = Inr (apply_defaults (node_of_mode mode_master))"
    "load_config (node_of_mode mode_regional) = Inr (apply_defaults (node_of_mode mode_regional))" by (simp_all add: load_config_by)
qed

theorem node_starts_and_stops_witness:
  "boot (sample_boot True (\<lambda>_. True)) (apply_defaults (node_of_mode mode_master))
     = Inr [PtSpool, PtNats, PtPublisher, PtPools, PtStore, PtWriter, PtConsumer, PtStratum]
   \<and> stopped_before (shutdown [PtSpool, PtNats, PtPublisher, PtPools, PtStore, PtWriter, PtConsumer, PtStratum]) PtConsumer PtWriter
   \<and> \<not> stopped_before (shutdown [PtSpool, PtNats, PtPublisher, PtPools, PtStore, PtWriter, PtConsumer, PtStratum]) PtPools PtStratum"
proof -
  let ?ps = "[PtSpool, PtNats, PtPublisher, PtPools, PtStore, PtWriter, PtConsumer, PtStratum]"
  have b: "boot (sample_boot True (\<lambda>_. True)) (apply_defaults (node_of_mode mode_master)) = Inr ?ps" by code_simp
  have i: "PtConsumer \<in> set (shutdown ?ps)" "PtPools \<in> set (shutdown ?ps)" by code_simp+
  have "\<forall>a \<in> set (shutdown ?ps). \<forall>b \<in> set (calls a). b \<in> set ?ps \<longrightarrow>
      (stopped_before (shutdown ?ps) a b \<longleftrightarrow> (a, b) \<noteq> (PtCommands, PtPools) \<and> (a, b) \<noteq> (PtPools, PtStratum))"
    using conjunct2 [OF node_starts_and_stops [OF nodes_ok(1), of "sample_boot True (\<lambda>_. True)"]] b by blast
  from bspec [OF this i(1)] bspec [OF this i(2)] b show ?thesis by simp
qed

theorem late_start_failure_loses_witness:
  "\<exists>w. sw_queue w = [with_id ''x'' (sink_share_record (share_msg_of ''eu'' Messaging.sample_share_event))]
     \<and> (\<forall>x \<in> set (sw_queue w). \<not> survives ShareWriter.sample_codec [] w x \<and> stored (fst (final_flush DbOk [] w)) x)"
proof -
  let ?cfg = "apply_defaults (node_of_mode mode_master)" and ?env = "sample_boot True (\<lambda>_. False)"
  let ?w = "new_share_writer (writer_options_of (cf_postgres ?cfg)) None"
  let ?b = "\<lparr>bk_stats = new_collector, bk_writer = Some ?w, bk_store = None, bk_publisher = None\<rparr> :: backends"
  let ?e = "\<lparr>re_now = 0, re_new_id = ''x'', re_wal = WriteOk, re_insert_ok = True, re_block_id = 1, re_publish = PubPending, re_spool = WriteOk\<rparr>"
  let ?ms = "[(''shares.eu.btc'', [1])]"
  have m: "consumed_share Messaging.sample_codec (''shares.eu.btc'', [1]) = Some (sink_share_record (share_msg_of ''eu'' Messaging.sample_share_event))"
    by code_simp
  have mode: "cf_mode ?cfg = mode_master" by code_simp
  obtain ps where ps: "boot ?env ?cfg = Inl (ExitStratum ''0.0.0.0:3333'', ps)"
  proof -
    have "fst (projl (boot ?env ?cfg)) = ExitStratum ''0.0.0.0:3333'' \<and> isl (boot ?env ?cfg)" by code_simp
    then show ?thesis using that by (cases "boot ?env ?cfg") (auto simp: prod_eq_iff)
  qed
  obtain b' ms' where r: "foldl (handle_next Messaging.sample_codec ShareWriter.sample_codec) (?b, ?ms) [?e] = (b', ms')" by fastforce
  have s: "int (length ?ms) \<le> wo_queue_size (writer_defaults (writer_options_of (cf_postgres ?cfg)))" by code_simp
  have l: "logged ShareWriter.sample_codec ?w = {}" by (simp add: logged_def new_share_writer_def Let_def)
  have "\<exists>w. bk_writer b' = Some w \<and> length (sw_queue w) = length ?ms
      \<and> (\<forall>x \<in> set (sw_queue w). \<not> survives ShareWriter.sample_codec [] w x \<and> stored (fst (final_flush DbOk [] w)) x)"
    using late_start_failure_loses [OF nodes_ok(1) mode ps _ _ _ _ s _ _ _ r] m l by simp
  moreover have "\<forall>w. bk_writer b' = Some w \<longrightarrow>
      sw_queue w = [with_id ''x'' (sink_share_record (share_msg_of ''eu'' Messaging.sample_share_event))]"
    using handle_shares [of "[?e]" ?ms _ ?b ?w, OF _ _ _ _ r] m s by (simp add: new_share_writer_def Let_def)
  ultimately show ?thesis by blast
qed

theorem late_nats_never_follows_witness:
  "\<exists>ps c. boot (sample_boot False (\<lambda>_. True)) (apply_defaults (node_of_mode mode_regional)) = Inr ps \<and> nc_retrying c
     \<and> (let s = foldl (follow_step Messaging.sample_codec) (follower_at ps c (new_lifecycle 0 [sample_pool_config ''btc'']))
           [FoRetry (\<lambda>_. True), FoCommand 1 [2]]
        in \<not> nc_retrying (fw_client s) \<and> fw_lifecycle s = new_lifecycle 0 [sample_pool_config ''btc''])"
proof -
  let ?env = "sample_boot False (\<lambda>_. True)" and ?cfg = "apply_defaults (node_of_mode mode_regional)"
  let ?evs = "[FoRetry (\<lambda>_. True), FoCommand 1 [2]]"
  obtain ps where ps: "boot ?env ?cfg = Inr ps"
  proof -
    have "\<not> isl (boot ?env ?cfg)" by code_simp
    then show ?thesis using that by (cases "boot ?env ?cfg") auto
  qed
  obtain c where c: "nats_connect (bv_default_url ?env) (bv_nats ?env) (nats_options_of ?cfg) = Inr c"
  proof -
    have "\<not> isl (nats_connect (bv_default_url ?env) (bv_nats ?env) (nats_options_of ?cfg))" by code_simp
    then show ?thesis using that by (cases "nats_connect (bv_default_url ?env) (bv_nats ?env) (nats_options_of ?cfg)") auto
  qed
  have h: "cf_mode ?cfg \<noteq> mode_master" "start_consumer (bv_nats ?env) command_consumer \<noteq> Inr ()" "\<not> stream_names_ok ?env" by code_simp+
  have e: "ensure_streams (\<lambda>_. True) = Inr ()" by (simp add: ensure_streams_def)
  note t = late_nats_never_follows [OF nodes_ok(2) h(1) ps h(2) c, of "new_lifecycle 0 [sample_pool_config ''btc'']" Messaging.sample_codec ?evs,
      unfolded Let_def]
  have "fw_lifecycle (foldl (follow_step Messaging.sample_codec) (follower_at ps c (new_lifecycle 0 [sample_pool_config ''btc''])) ?evs)
      = new_lifecycle 0 [sample_pool_config ''btc'']"
    using t by (simp add: follower_at_def)
  moreover have "nc_retrying c" using t h(3) by blast
  moreover have "FoRetry (\<lambda>_. True) \<in> set ?evs" by simp
  ultimately show ?thesis unfolding Let_def using t ps e by blast
qed

end
