(* ===== verification/Json.thy ===== *)
theory Json
  imports Rpc
begin

text \<open>
  \<open>encoding/json\<close> on the texts the program reads and writes, as far as the stratum protocol uses it: \<open>Marshal\<close> of a value with Go's string
  escapes (HTML characters included) and \<open>Unmarshal\<close> of a text into a \<open>json\<close>, with UTF-8, surrogates, invalid bytes and the limit of
  10000 nested values. A number keeps its text. Characters are bytes.
\<close>

subsection \<open>Characters\<close>

definition byte_code :: "char \<Rightarrow> nat" where
  "byte_code c = of_char c"

definition json_digit :: "char \<Rightarrow> bool" where
  "json_digit c \<longleftrightarrow> 48 \<le> byte_code c \<and> byte_code c \<le> 57"

definition skip_space :: "string \<Rightarrow> string" where
  "skip_space s = dropWhile is_line_space s"

text \<open>The length of the encoded character a text starts with, when its first byte is not ASCII; 0 if the bytes are no UTF-8.\<close>

definition utf8_len :: "string \<Rightarrow> nat" where
  "utf8_len s =
     (let b = (\<lambda>i. if i < length s then byte_code (s ! i) else 0); cont = (\<lambda>i. 128 \<le> b i \<and> b i < 192) in
      if 194 \<le> b 0 \<and> b 0 \<le> 223 \<and> cont 1 then 2
      else if 224 \<le> b 0 \<and> b 0 \<le> 239 \<and> (if b 0 = 224 then 160 else 128) \<le> b 1 \<and> b 1 \<le> (if b 0 = 237 then 159 else 191) \<and> cont 2 then 3
      else if 240 \<le> b 0 \<and> b 0 \<le> 244 \<and> (if b 0 = 240 then 144 else 128) \<le> b 1 \<and> b 1 \<le> (if b 0 = 244 then 143 else 191) \<and> cont 2 \<and> cont 3
      then 4 else 0)"

definition utf8_encode :: "nat \<Rightarrow> string" where
  "utf8_encode r =
     (if r < 128 then [char_of r]
      else if r < 2048 then [char_of (192 + r div 64), char_of (128 + r mod 64)]
      else if 55296 \<le> r \<and> r < 57344 \<or> 1114111 < r then [char_of (239 :: nat), char_of (191 :: nat), char_of (189 :: nat)]
      else if r < 65536 then [char_of (224 + r div 4096), char_of (128 + r div 64 mod 64), char_of (128 + r mod 64)]
      else [char_of (240 + r div 262144), char_of (128 + r div 4096 mod 64), char_of (128 + r div 64 mod 64), char_of (128 + r mod 64)])"

definition replacement :: string where
  "replacement = utf8_encode 65533"

subsection \<open>Writing\<close>

definition escape_char :: "char \<Rightarrow> string" where
  "escape_char c =
     (let n = byte_code c in
      if n = 34 \<or> n = 92 then [CHR 0x5C, c]
      else if n = 8 then [CHR 0x5C, CHR ''b''] else if n = 9 then [CHR 0x5C, CHR ''t''] else if n = 10 then [CHR 0x5C, CHR ''n'']
      else if n = 12 then [CHR 0x5C, CHR ''f''] else if n = 13 then [CHR 0x5C, CHR ''r'']
      else if n < 32 \<or> n \<in> {38, 60, 62}
      then [CHR 0x5C, CHR ''u'', CHR ''0'', CHR ''0'', hex_digit (int (n div 16)), hex_digit (int (n mod 16))]
      else [c])"

text \<open>Bytes that are no UTF-8 become the replacement character; two line separators are escaped.\<close>

function escape_text :: "string \<Rightarrow> string" where
  "escape_text [] = []"
| "escape_text (c # cs) =
     (if byte_code c < 128 then escape_char c @ escape_text cs
      else let k = utf8_len (c # cs) in
        if k = 0 then CHR 0x5C # ''ufffd'' @ escape_text cs
        else if map byte_code (take 3 (c # cs)) = [226, 128, 168] then CHR 0x5C # ''u2028'' @ escape_text (drop 2 cs)
        else if map byte_code (take 3 (c # cs)) = [226, 128, 169] then CHR 0x5C # ''u2029'' @ escape_text (drop 2 cs)
        else take k (c # cs) @ escape_text (drop (k - 1) cs))"
  by pat_completeness auto
termination by (relation "measure length") (auto simp: less_Suc_eq_le)

definition quoted :: "string \<Rightarrow> string" where
  "quoted s = CHR 0x22 # escape_text s @ [CHR 0x22]"

primrec json_text :: "json \<Rightarrow> string" where
  "json_text JNull = ''null''"
| "json_text (JBool b) = (if b then ''true'' else ''false'')"
| "json_text (JNumber s) = s"
| "json_text (JString s) = quoted s"
| "json_text (JArray js) = CHR ''['' # join_commas (map json_text js) @ '']''"
| "json_text (JObject kvs) = CHR ''{'' # join_commas (map (\<lambda>(k, t). quoted k @ CHR '':'' # t) (map (map_prod id json_text) kvs)) @ ''}''"

subsection \<open>Reading strings and numbers\<close>

definition hex4 :: "string \<Rightarrow> (nat \<times> string) option" where
  "hex4 s =
     (case s of
        a # b # c # d # r \<Rightarrow>
          (case (hex_val a, hex_val b, hex_val c, hex_val d) of
             (Some w, Some x, Some y, Some z) \<Rightarrow> Some (nat (4096 * w + 256 * x + 16 * y + z), r)
           | _ \<Rightarrow> None)
      | _ \<Rightarrow> None)"

definition simple_escape :: "char \<Rightarrow> char option" where
  "simple_escape e =
     (if byte_code e \<in> {34, 92, 47} then Some e
      else if e = CHR ''b'' then Some (CHR 0x08) else if e = CHR ''f'' then Some (CHR 0x0C) else if e = CHR ''n'' then Some (CHR 0x0A)
      else if e = CHR ''r'' then Some (CHR 0x0D) else if e = CHR ''t'' then Some (CHR 0x09) else None)"

text \<open>The character of a \<open>\u\<close> escape, with the rest: a pair of surrogates is one character, a lone one the replacement character.\<close>

definition unicode_escape :: "string \<Rightarrow> (string \<times> string) option" where
  "unicode_escape s =
     (case hex4 s of None \<Rightarrow> None
      | Some (u, r) \<Rightarrow>
        if 55296 \<le> u \<and> u < 56320 \<and> take 2 r = [CHR 0x5C, CHR ''u'']
        then (case hex4 (drop 2 r) of
            Some (v, r2) \<Rightarrow> if 56320 \<le> v \<and> v < 57344 then Some (utf8_encode (65536 + (u - 55296) * 1024 + (v - 56320)), r2)
              else Some (replacement, r)
          | None \<Rightarrow> Some (replacement, r))
        else Some (utf8_encode u, r))"

lemma hex4_shorter: "hex4 s = Some (u, r) \<Longrightarrow> length r < length s"
  by (auto simp: hex4_def split: list.splits option.splits)

lemma unicode_escape_shorter: "unicode_escape s = Some (t, r) \<Longrightarrow> length r < length s"
  by (auto simp: unicode_escape_def dest!: hex4_shorter split: option.splits prod.splits if_splits)

text \<open>The rest of a string literal behind its quote.\<close>

function unquote :: "string \<Rightarrow> (string \<times> string) option" where
  "unquote [] = None"
| "unquote (c # cs) =
     (let n = byte_code c in
      if n = 34 then Some ([], cs)
      else if n = 92 then
        (case cs of [] \<Rightarrow> None
         | e # cs1 \<Rightarrow>
           if e = CHR ''u''
           then (case unicode_escape cs1 of None \<Rightarrow> None | Some (t, r) \<Rightarrow> map_option (\<lambda>(s, r2). (t @ s, r2)) (unquote r))
           else (case simple_escape e of None \<Rightarrow> None | Some x \<Rightarrow> map_option (\<lambda>(s, r2). (x # s, r2)) (unquote cs1)))
      else if n < 32 then None
      else if n < 128 then map_option (\<lambda>(s, r2). (c # s, r2)) (unquote cs)
      else let k = utf8_len (c # cs) in
        if k = 0 then map_option (\<lambda>(s, r2). (replacement @ s, r2)) (unquote cs)
        else map_option (\<lambda>(s, r2). (take k (c # cs) @ s, r2)) (unquote (drop (k - 1) cs)))"
  by pat_completeness auto
termination by (relation "measure length") (auto simp: less_Suc_eq_le dest!: unicode_escape_shorter)

definition int_part :: "string \<Rightarrow> (string \<times> string) option" where
  "int_part s =
     (case s of [] \<Rightarrow> None
      | c # cs \<Rightarrow> if c = CHR ''0'' then Some (''0'', cs)
        else if json_digit c then Some (takeWhile json_digit s, dropWhile json_digit s) else None)"

definition fraction_part :: "string \<Rightarrow> (string \<times> string) option" where
  "fraction_part s =
     (case s of
        c # cs \<Rightarrow> if c \<noteq> CHR ''.'' then Some ([], s)
          else if takeWhile json_digit cs = [] then None else Some (c # takeWhile json_digit cs, dropWhile json_digit cs)
      | [] \<Rightarrow> Some ([], []))"

definition sign_part :: "(char \<Rightarrow> bool) \<Rightarrow> string \<Rightarrow> string \<times> string" where
  "sign_part is_sign s = (case s of c # cs \<Rightarrow> if is_sign c then ([c], cs) else ([], s) | [] \<Rightarrow> ([], []))"

definition exponent_part :: "string \<Rightarrow> (string \<times> string) option" where
  "exponent_part s =
     (case s of
        c # cs \<Rightarrow> if c \<noteq> CHR ''e'' \<and> c \<noteq> CHR ''E'' then Some ([], s)
          else (case sign_part (\<lambda>x. x = CHR ''+'' \<or> x = CHR ''-'') cs of (sg, r) \<Rightarrow>
            if takeWhile json_digit r = [] then None else Some (c # sg @ takeWhile json_digit r, dropWhile json_digit r))
      | [] \<Rightarrow> Some ([], []))"

definition take_number :: "string \<Rightarrow> (string \<times> string) option" where
  "take_number s =
     (case sign_part (\<lambda>x. x = CHR ''-'') s of (sg, s0) \<Rightarrow>
      (case int_part s0 of None \<Rightarrow> None
       | Some (a, s1) \<Rightarrow> (case fraction_part s1 of None \<Rightarrow> None
         | Some (b, s2) \<Rightarrow> (case exponent_part s2 of None \<Rightarrow> None
           | Some (e, s3) \<Rightarrow> Some (sg @ a @ b @ e, s3)))))"

subsection \<open>Reading values\<close>

definition take_word :: "string \<Rightarrow> json \<Rightarrow> string \<Rightarrow> (json \<times> string) option" where
  "take_word w j s = (if take (length w) s = w then Some (j, drop (length w) s) else None)"

text \<open>\<open>n\<close> is fuel for the recursion, \<open>d\<close> how many values may still be opened.\<close>

fun parse_value :: "nat \<Rightarrow> nat \<Rightarrow> string \<Rightarrow> (json \<times> string) option"
and parse_elems :: "nat \<Rightarrow> nat \<Rightarrow> string \<Rightarrow> (json list \<times> string) option"
and parse_members :: "nat \<Rightarrow> nat \<Rightarrow> string \<Rightarrow> ((string \<times> json) list \<times> string) option" where
  "parse_value 0 d s = None"
| "parse_value (Suc n) d s =
     (case s of [] \<Rightarrow> None
      | c # cs \<Rightarrow>
        if c = CHR 0x22 then map_option (\<lambda>(t, r). (JString t, r)) (unquote cs)
        else if c = CHR ''['' then
          (if d = 0 then None
           else if take 1 (skip_space cs) = '']'' then Some (JArray [], drop 1 (skip_space cs))
           else map_option (\<lambda>(js, r). (JArray js, r)) (parse_elems n (d - 1) (skip_space cs)))
        else if c = CHR ''{'' then
          (if d = 0 then None
           else if take 1 (skip_space cs) = ''}'' then Some (JObject [], drop 1 (skip_space cs))
           else map_option (\<lambda>(kvs, r). (JObject kvs, r)) (parse_members n (d - 1) (skip_space cs)))
        else if c = CHR ''n'' then take_word ''null'' JNull s
        else if c = CHR ''t'' then take_word ''true'' (JBool True) s
        else if c = CHR ''f'' then take_word ''false'' (JBool False) s
        else map_option (\<lambda>(t, r). (JNumber t, r)) (take_number s))"
| "parse_elems 0 d s = None"
| "parse_elems (Suc n) d s =
     (case parse_value n d s of None \<Rightarrow> None
      | Some (j, r) \<Rightarrow>
        (case skip_space r of [] \<Rightarrow> None
         | c # r1 \<Rightarrow>
           if c = CHR '']'' then Some ([j], r1)
           else if c = CHR '','' then map_option (\<lambda>(js, r2). (j # js, r2)) (parse_elems n d (skip_space r1))
           else None))"
| "parse_members 0 d s = None"
| "parse_members (Suc n) d s =
     (if take 1 s \<noteq> [CHR 0x22] then None
      else case unquote (drop 1 s) of None \<Rightarrow> None
      | Some (k, r) \<Rightarrow>
        if take 1 (skip_space r) \<noteq> '':'' then None
        else (case parse_value n d (skip_space (drop 1 (skip_space r))) of None \<Rightarrow> None
          | Some (v, r1) \<Rightarrow>
            (case skip_space r1 of [] \<Rightarrow> None
             | c # r2 \<Rightarrow>
               if c = CHR ''}'' then Some ([(k, v)], r2)
               else if c = CHR '','' then map_option (\<lambda>(kvs, r3). ((k, v) # kvs, r3)) (parse_members n d (skip_space r2))
               else None)))"

definition max_nesting :: nat where "max_nesting = 10000"

definition parse_json :: "string \<Rightarrow> json option" where
  "parse_json s =
     (case parse_value (2 * length s) max_nesting (skip_space s) of None \<Rightarrow> None
      | Some (j, r) \<Rightarrow> if skip_space r = [] then Some j else None)"

subsection \<open>The fuel is enough\<close>

lemma skip_space_shorter: "length (skip_space s) \<le> length s"
  by (simp add: skip_space_def length_dropWhile_le)

lemma unquote_shorter: "unquote s = Some (t, r) \<Longrightarrow> length r < length s"
proof (induction s arbitrary: t r rule: length_induct)
  case (1 s)
  then have ih: "unquote x = Some (t', r') \<Longrightarrow> length x < length s \<Longrightarrow> length r' < length x" for x t' r' by blast
  show ?case
  proof (cases s)
    case (Cons c cs)
    have d: "length (drop k cs) < length s" for k using Cons by simp
    show ?thesis
    proof (cases "byte_code c = 92")
      case True
      then obtain e cs1 where e: "cs = e # cs1" using 1(2) Cons by (cases cs) (auto simp: Let_def)
      show ?thesis
      proof (cases "e = CHR ''u''")
        case u: True
        then obtain x rest where x: "unicode_escape cs1 = Some (x, rest)" "\<exists>s1. unquote rest = Some (s1, r)"
          using 1(2) True Cons e by (auto simp: Let_def split: option.splits)
        then show ?thesis using unicode_escape_shorter [OF x(1)] ih [of rest] Cons e by fastforce
      next
        case False
        then have "\<exists>s1. unquote cs1 = Some (s1, r)" using 1(2) True Cons e by (auto simp: Let_def split: option.splits)
        then show ?thesis using ih [of cs1] Cons e by fastforce
      qed
    next
      case False
      then have "r = cs \<or> (\<exists>s1. unquote cs = Some (s1, r)) \<or> (\<exists>s1. unquote (drop (utf8_len (c # cs) - 1) cs) = Some (s1, r))"
        using 1(2) Cons by (auto simp: Let_def split: if_splits)
      then show ?thesis using ih [of cs] ih [of "drop (utf8_len (c # cs) - 1) cs"] d Cons by fastforce
    qed
  qed (use 1(2) in simp)
qed

lemma dropWhile_shorter: "length (dropWhile P s) \<le> length s"
  by (rule length_dropWhile_le)

lemma take_number_shorter: "take_number s = Some (t, r) \<Longrightarrow> length r < length s"
proof -
  assume t: "take_number s = Some (t, r)"
  obtain sg s0 where sg: "sign_part (\<lambda>x. x = CHR ''-'') s = (sg, s0)" by fastforce
  obtain a s1 b s2 e where p: "int_part s0 = Some (a, s1)" "fraction_part s1 = Some (b, s2)" "exponent_part s2 = Some (e, r)"
    using t by (auto simp: take_number_def sg split: option.splits)
  have "length s0 \<le> length s" using sg by (auto simp: sign_part_def split: list.splits if_splits)
  moreover have "length s1 < length s0"
    using p(1) dropWhile_shorter [of json_digit] by (auto simp: int_part_def less_Suc_eq_le split: list.splits if_splits)
  moreover have "length s2 \<le> length s1"
    using p(2) dropWhile_shorter [of json_digit] by (auto simp: fraction_part_def le_SucI split: list.splits if_splits)
  moreover have "length r \<le> length s2"
  proof -
    have g: "length x \<le> length cs" if "sign_part f cs = (y, x)" for f cs x y
      using that by (auto simp: sign_part_def split: list.splits if_splits)
    show ?thesis
      using p(3) dropWhile_shorter [of json_digit] g
      by (auto simp: exponent_part_def split: list.splits if_splits prod.splits) (meson le_SucI le_trans)+
  qed
  ultimately show ?thesis by linarith
qed

lemma take_word_shorter: "take_word w j s = Some (x, r) \<Longrightarrow> w \<noteq> [] \<Longrightarrow> length r < length s"
  by (cases s; cases w) (auto simp: take_word_def less_Suc_eq_le split: if_splits)

lemma skipped: "length (skip_space s) \<le> length s" "skip_space s = c # r \<Longrightarrow> length r < length s"
  "length (drop k (skip_space s)) \<le> length s"
proof -
  show "length (skip_space s) \<le> length s" by (rule skip_space_shorter)
  then show "length (drop k (skip_space s)) \<le> length s" by simp
  show "length r < length s" if "skip_space s = c # r" using that skip_space_shorter [of s] by simp
qed

lemma parse_shorter:
  "parse_value n d s = Some (j, r) \<Longrightarrow> length r < length s"
  "parse_elems n d s = Some (js, r) \<Longrightarrow> length r < length s"
  "parse_members n d s = Some (kvs, r) \<Longrightarrow> length r < length s"
proof (induction n d s and n d s and n d s arbitrary: j r and js r and kvs r rule: parse_value_parse_elems_parse_members.induct)
  case (2 n d s)
  obtain c cs where s: "s = c # cs" using "2.prems" by (cases s) auto
  have a: "length r < length cs" if "parse_elems n (d - 1) (skip_space cs) = Some (js, r)" "c = CHR ''['' " "d \<noteq> 0" "take 1 (skip_space cs) \<noteq> '']''" for js
    using "2.IH"(1) [OF s _ that(2,3,4) that(1)] that(2) skipped(1) [of cs] by simp
  have m: "length r < length cs" if "parse_members n (d - 1) (skip_space cs) = Some (kvs, r)" "c = CHR ''{'' " "d \<noteq> 0" "take 1 (skip_space cs) \<noteq> ''}''" for kvs
    using "2.IH"(2) [OF s _ _ that(2,3,4) that(1)] that(2) skipped(1) [of cs] by simp
  show ?case
    using "2.prems" a m skipped(3) [of _ cs]
    by (auto simp: s less_Suc_eq_le split: if_splits dest!: unquote_shorter take_number_shorter take_word_shorter)
next
  case (4 n d s)
  obtain j r1 where v: "parse_value n d s = Some (j, r1)" using "4.prems" by (auto split: option.splits)
  obtain c r2 where c: "skip_space r1 = c # r2" using "4.prems" v by (cases "skip_space r1") auto
  have l: "length r1 < length s" "length r2 < length r1" using "4.IH"(1) [OF v] skipped(2) [OF c] by auto
  show ?case
  proof (cases "c = CHR '']''")
    case True
    then show ?thesis using "4.prems" v c l by simp
  next
    case False
    then obtain js1 where e: "c = CHR '',''" "parse_elems n d (skip_space r2) = Some (js1, r)"
      using "4.prems" v c by (auto split: if_splits)
    show ?thesis using "4.IH"(2) [OF v refl c False e(1) e(2)] l skipped(1) [of r2] by simp
  qed
next
  case (6 n d s)
  obtain k r0 where k: "take 1 s = [CHR 0x22]" "unquote (drop 1 s) = Some (k, r0)" "take 1 (skip_space r0) = '':''"
    using "6.prems" by (auto split: if_splits option.splits)
  obtain v r1 where v: "parse_value n d (skip_space (drop 1 (skip_space r0))) = Some (v, r1)"
    using "6.prems" k by (auto split: option.splits)
  obtain c r2 where c: "skip_space r1 = c # r2" using "6.prems" k v by (cases "skip_space r1") auto
  have nq: "\<not> take 1 s \<noteq> [CHR 0x22]" "\<not> take 1 (skip_space r0) \<noteq> '':''" using k by simp_all
  have "length r1 < length (skip_space (drop 1 (skip_space r0)))" using "6.IH"(1) [OF nq(1) k(2) refl nq(2) v] .
  then have l: "length r1 < length s" "length r2 < length r1"
    using unquote_shorter [OF k(2)] skipped(1) [of "drop 1 (skip_space r0)"] skipped(3) [of 1 r0] skipped(2) [OF c] by simp_all
  show ?case
  proof (cases "c = CHR ''}''")
    case True
    then show ?thesis using "6.prems" k v c l by simp
  next
    case False
    then obtain kvs1 where e: "c = CHR '',''" "parse_members n d (skip_space r2) = Some (kvs1, r)"
      using "6.prems" k v c by (auto split: if_splits)
    show ?thesis using "6.IH"(2) [OF nq(1) k(2) refl nq(2) v refl c False e(1) e(2)] l skipped(1) [of r2] by simp
  qed
qed simp_all

lemma parse_fuel:
  "parse_value n d s = Some x \<Longrightarrow> 2 * length s \<le> m \<Longrightarrow> parse_value m d s = Some x"
  "parse_elems n d s = Some y \<Longrightarrow> 2 * length s + 1 \<le> m \<Longrightarrow> parse_elems m d s = Some y"
  "parse_members n d s = Some z \<Longrightarrow> 2 * length s + 1 \<le> m \<Longrightarrow> parse_members m d s = Some z"
proof (induction n d s and n d s and n d s arbitrary: x m and y m and z m rule: parse_value_parse_elems_parse_members.induct)
  case (2 n d s)
  obtain c cs where s: "s = c # cs" using "2.prems" by (cases s) auto
  then obtain m1 where m: "m = Suc m1" "2 * length cs + 1 \<le> m1" using "2.prems"(2) by (cases m) auto
  have l: "2 * length (skip_space cs) + 1 \<le> m1" using skipped(1) [of cs] m(2) by linarith
  have a: "parse_elems m1 (d - 1) (skip_space cs) = Some w"
    if "parse_elems n (d - 1) (skip_space cs) = Some w" "c = CHR ''[''" "d \<noteq> 0" "take 1 (skip_space cs) \<noteq> '']''" for w
    using "2.IH"(1) [OF s _ that(2,3,4) that(1) l] that(2) by simp
  have b: "parse_members m1 (d - 1) (skip_space cs) = Some w"
    if "parse_members n (d - 1) (skip_space cs) = Some w" "c = CHR ''{''" "d \<noteq> 0" "take 1 (skip_space cs) \<noteq> ''}''" for w
    using "2.IH"(2) [OF s _ _ that(2,3,4) that(1) l] that(2) by simp
  show ?case using "2.prems"(1) a b by (auto simp: s m(1) split: if_splits)
next
  case (4 n d s)
  obtain m1 where m: "m = Suc m1" "2 * length s \<le> m1" using "4.prems"(2) by (cases m) auto
  obtain j r1 where v: "parse_value n d s = Some (j, r1)" using "4.prems"(1) by (auto split: option.splits)
  obtain c r2 where c: "skip_space r1 = c # r2" using "4.prems"(1) v by (cases "skip_space r1") auto
  have l: "length r1 < length s" "length r2 < length r1" using parse_shorter(1) [OF v] skipped(2) [OF c] by auto
  note v' = "4.IH"(1) [OF v m(2)]
  show ?case
  proof (cases "c = CHR '']''")
    case True
    then show ?thesis using "4.prems"(1) v v' c m by simp
  next
    case False
    then obtain js r3 where e: "c = CHR '',''" "parse_elems n d (skip_space r2) = Some (js, r3)"
      using "4.prems"(1) v c by (auto split: if_splits)
    have "2 * length (skip_space r2) + 1 \<le> m1" using skipped(1) [of r2] l m(2) by linarith
    from "4.IH"(2) [OF v refl c False e(1) e(2) this] show ?thesis using "4.prems"(1) v v' c e False m(1) by simp
  qed
next
  case (6 n d s)
  obtain m1 where m: "m = Suc m1" "2 * length s \<le> m1" using "6.prems"(2) by (cases m) auto
  obtain k r0 where k: "take 1 s = [CHR 0x22]" "unquote (drop 1 s) = Some (k, r0)" "take 1 (skip_space r0) = '':''"
    using "6.prems"(1) by (auto split: if_splits option.splits)
  let ?t = "skip_space (drop 1 (skip_space r0))"
  obtain v r1 where v: "parse_value n d ?t = Some (v, r1)" using "6.prems"(1) k by (auto split: option.splits)
  obtain c r2 where c: "skip_space r1 = c # r2" using "6.prems"(1) k v by (cases "skip_space r1") auto
  have nq: "\<not> take 1 s \<noteq> [CHR 0x22]" "\<not> take 1 (skip_space r0) \<noteq> '':''" using k by simp_all
  have t: "length ?t < length s"
    using unquote_shorter [OF k(2)] skipped(1) [of "drop 1 (skip_space r0)"] skipped(3) [of 1 r0] by simp
  then have l: "length r1 < length s" "length r2 < length r1" using parse_shorter(1) [OF v] skipped(2) [OF c] by simp_all
  have "2 * length ?t \<le> m1" using t m(2) by linarith
  note v' = "6.IH"(1) [OF nq(1) k(2) refl nq(2) v this]
  show ?case
  proof (cases "c = CHR ''}''")
    case True
    then show ?thesis using "6.prems"(1) k v v' c m by simp
  next
    case False
    then obtain kvs r3 where e: "c = CHR '',''" "parse_members n d (skip_space r2) = Some (kvs, r3)"
      using "6.prems"(1) k v c by (auto split: if_splits)
    have "2 * length (skip_space r2) + 1 \<le> m1" using skipped(1) [of r2] l m(2) by linarith
    from "6.IH"(2) [OF nq(1) k(2) refl nq(2) v refl c False e(1) e(2) this] show ?thesis
      using "6.prems"(1) k v v' c e False m(1) by simp
  qed
qed simp_all

text \<open>What the parser says does not depend on the fuel.\<close>

lemma parse_json_fuel:
  "parse_json s = Some j \<longleftrightarrow> (\<exists>n r. parse_value n max_nesting (skip_space s) = Some (j, r) \<and> skip_space r = [])"
proof
  assume "parse_json s = Some j"
  then obtain r where "parse_value (2 * length s) max_nesting (skip_space s) = Some (j, r)" "skip_space r = []"
    by (auto simp: parse_json_def split: option.splits if_splits)
  then show "\<exists>n r. parse_value n max_nesting (skip_space s) = Some (j, r) \<and> skip_space r = []" by blast
next
  assume "\<exists>n r. parse_value n max_nesting (skip_space s) = Some (j, r) \<and> skip_space r = []"
  then obtain n r where p: "parse_value n max_nesting (skip_space s) = Some (j, r)" "skip_space r = []" by blast
  have "2 * length (skip_space s) \<le> 2 * length s" using skipped(1) [of s] by simp
  from parse_fuel(1) [OF p(1) this] p(2) show "parse_json s = Some j" by (simp add: parse_json_def)
qed

subsection \<open>What is written is read back\<close>

definition ascii :: "string \<Rightarrow> bool" where
  "ascii s \<longleftrightarrow> list_all (\<lambda>c. byte_code c < 128) s"

lemma byte_code_eq: "n < 256 \<Longrightarrow> byte_code c = n \<longleftrightarrow> c = char_of n"
  by (auto simp: byte_code_def)

lemma escaped_chars:
  "char_of (34 :: nat) = CHR 0x22" "char_of (92 :: nat) = CHR 0x5C" "char_of (8 :: nat) = CHR 0x08" "char_of (9 :: nat) = CHR 0x09"
  "char_of (10 :: nat) = CHR 0x0A" "char_of (12 :: nat) = CHR 0x0C" "char_of (13 :: nat) = CHR 0x0D"
  by code_simp+

lemma byte_code_char [simp]: "byte_code (char_of (n :: nat)) = n mod 256"
  by (simp add: byte_code_def)

lemma unquote_hex:
  assumes "byte_code c < 128"
  shows "unicode_escape (CHR ''0'' # CHR ''0'' # hex_digit (int (byte_code c div 16)) # hex_digit (int (byte_code c mod 16)) # t) = Some ([c], t)"
proof -
  have z: "hex_val (CHR ''0'') = Some 0" by code_simp
  have "hex_val (hex_digit (int (byte_code c div 16))) = Some (int (byte_code c div 16))"
    "hex_val (hex_digit (int (byte_code c mod 16))) = Some (int (byte_code c mod 16))"
    using assms by (intro hex_val_hex_digit; simp)+
  moreover have "nat (16 * int (byte_code c div 16) + int (byte_code c mod 16)) = byte_code c"
  proof -
    have "16 * int (byte_code c div 16) + int (byte_code c mod 16) = int (byte_code c)" by (simp add: zdiv_int zmod_int)
    then show ?thesis by simp
  qed
  ultimately have "hex4 (CHR ''0'' # CHR ''0'' # hex_digit (int (byte_code c div 16)) # hex_digit (int (byte_code c mod 16)) # t) = Some (byte_code c, t)"
    by (simp add: hex4_def z)
  moreover have "utf8_encode (byte_code c) = [c]" using assms by (simp add: utf8_encode_def byte_code_def)
  ultimately show ?thesis using assms by (simp add: unicode_escape_def)
qed

lemma unquote_escaped:
  assumes "byte_code c < 128"
  shows "unquote (escape_char c @ t) = map_option (\<lambda>(s, r). (c # s, r)) (unquote t)"
proof -
  have bs: "byte_code (CHR 0x5C) = 92" by code_simp
  consider "byte_code c \<in> {34, 92}" | "byte_code c \<in> {8, 9, 10, 12, 13}"
    | "byte_code c < 32 \<or> byte_code c \<in> {38, 60, 62}" "byte_code c \<notin> {8, 9, 10, 12, 13}"
    | "\<not> byte_code c < 32" "byte_code c \<notin> {34, 92, 38, 60, 62}" by blast
  then show ?thesis
  proof cases
    case 1
    then have "c = CHR 0x22 \<or> c = CHR 0x5C" by (auto simp: byte_code_eq escaped_chars)
    then show ?thesis by (auto simp: escape_char_def simple_escape_def byte_code_def Let_def)
  next
    case 2
    then have "c \<in> {CHR 0x08, CHR 0x09, CHR 0x0A, CHR 0x0C, CHR 0x0D}" by (auto simp: byte_code_eq escaped_chars)
    then show ?thesis by (auto simp: escape_char_def simple_escape_def byte_code_def Let_def)
  next
    case 3
    then have "escape_char c = [CHR 0x5C, CHR ''u'', CHR ''0'', CHR ''0'', hex_digit (int (byte_code c div 16)), hex_digit (int (byte_code c mod 16))]"
      by (auto simp: escape_char_def Let_def)
    then show ?thesis using unquote_hex [OF assms, of t] by (simp add: bs Let_def)
  next
    case 4
    then show ?thesis using assms by (simp add: escape_char_def Let_def)
  qed
qed

lemma unquote_quoted: "ascii s \<Longrightarrow> unquote (escape_text s @ CHR 0x22 # r) = Some (s, r)"
proof (induction s)
  case Nil
  have "byte_code (CHR 0x22) = 34" by code_simp
  then show ?case by simp
next
  case (Cons c s)
  then show ?case by (simp add: ascii_def unquote_escaped)
qed

lemma escaped_codes:
  assumes "byte_code c < 128"
  shows "\<forall>x \<in> set (escape_char c). 32 \<le> byte_code x"
proof -
  have "\<forall>k \<in> set [0..15]. 32 \<le> byte_code (hex_digit k)" by code_simp
  moreover have "int (byte_code c div 16) \<in> set [0..15]" "int (byte_code c mod 16) \<in> set [0..15]" using assms by auto
  moreover have "32 \<le> byte_code (CHR 0x5C)" "32 \<le> byte_code (CHR ''u'')" "32 \<le> byte_code (CHR ''0'')" "32 \<le> byte_code (CHR ''b'')"
    "32 \<le> byte_code (CHR ''t'')" "32 \<le> byte_code (CHR ''n'')" "32 \<le> byte_code (CHR ''f'')" "32 \<le> byte_code (CHR ''r'')" by code_simp+
  ultimately show ?thesis unfolding escape_char_def Let_def by (simp del: set_upto)
qed

text \<open>A number ends where no more of it can follow.\<close>

definition number_text :: "string \<Rightarrow> bool" where
  "number_text s \<longleftrightarrow> take_number s = Some (s, [])"

definition ends_number :: "string \<Rightarrow> bool" where
  "ends_number r \<longleftrightarrow> (case r of [] \<Rightarrow> True | c # cs \<Rightarrow> c \<in> {CHR '','', CHR '']'', CHR ''}''})"

lemma ends_number_digit:
  assumes "ends_number r"
  shows "takeWhile json_digit (s @ r) = takeWhile json_digit s" and "dropWhile json_digit (s @ r) = dropWhile json_digit s @ r"
proof -
  have "\<not> json_digit (CHR '','')" "\<not> json_digit (CHR '']'')" "\<not> json_digit (CHR ''}'')" by code_simp+
  then have r: "takeWhile json_digit r = []" "dropWhile json_digit r = r" using assms by (auto simp: ends_number_def split: list.splits)
  then have "takeWhile json_digit (s @ r) = takeWhile json_digit s \<and> dropWhile json_digit (s @ r) = dropWhile json_digit s @ r"
    by (induction s) auto
  then show "takeWhile json_digit (s @ r) = takeWhile json_digit s" "dropWhile json_digit (s @ r) = dropWhile json_digit s @ r" by simp_all
qed

lemma number_parts_end:
  assumes "ends_number r"
  shows "int_part (s @ r) = map_option (\<lambda>(a, b). (a, b @ r)) (int_part s)"
    and "fraction_part (s @ r) = map_option (\<lambda>(a, b). (a, b @ r)) (fraction_part s)"
    and "exponent_part (s @ r) = map_option (\<lambda>(a, b). (a, b @ r)) (exponent_part s)"
    and "sign_part (\<lambda>x. x = CHR ''-'') (s @ r) = map_prod id (\<lambda>b. b @ r) (sign_part (\<lambda>x. x = CHR ''-'') s)"
proof -
  note d = ends_number_digit [OF assms]
  have n: "\<not> json_digit (CHR '','')" "\<not> json_digit (CHR '']'')" "\<not> json_digit (CHR ''}'')" by code_simp+
  have sg: "sign_part (\<lambda>x. x = CHR ''+'' \<or> x = CHR ''-'') (cs @ r)
      = map_prod id (\<lambda>b. b @ r) (sign_part (\<lambda>x. x = CHR ''+'' \<or> x = CHR ''-'') cs)" for cs
    using assms by (cases cs; cases r) (auto simp: sign_part_def ends_number_def)
  show "int_part (s @ r) = map_option (\<lambda>(a, b). (a, b @ r)) (int_part s)"
  proof (cases s)
    case Nil
    then show ?thesis using assms n by (cases r) (auto simp: int_part_def ends_number_def)
  next
    case (Cons c cs)
    then show ?thesis using d [of cs] by (simp add: int_part_def)
  qed
  show "fraction_part (s @ r) = map_option (\<lambda>(a, b). (a, b @ r)) (fraction_part s)"
  proof (cases s)
    case Nil
    then show ?thesis using assms by (cases r) (auto simp: fraction_part_def ends_number_def)
  next
    case (Cons c cs)
    then show ?thesis using d [of cs] by (simp add: fraction_part_def)
  qed
  show "exponent_part (s @ r) = map_option (\<lambda>(a, b). (a, b @ r)) (exponent_part s)"
  proof (cases s)
    case Nil
    then show ?thesis using assms by (cases r) (auto simp: exponent_part_def ends_number_def)
  next
    case (Cons c cs)
    obtain x y where "sign_part (\<lambda>x. x = CHR ''+'' \<or> x = CHR ''-'') cs = (x, y)" by fastforce
    then show ?thesis using d [of y] sg [of cs] Cons by (simp add: exponent_part_def)
  qed
  show "sign_part (\<lambda>x. x = CHR ''-'') (s @ r) = map_prod id (\<lambda>b. b @ r) (sign_part (\<lambda>x. x = CHR ''-'') s)"
    using assms by (cases s; cases r) (auto simp: sign_part_def ends_number_def)
qed

lemma take_number_end:
  assumes "number_text s" and "ends_number r"
  shows "take_number (s @ r) = Some (s, r)"
proof -
  have "take_number (s @ r) = map_option (\<lambda>(a, b). (a, b @ r)) (take_number s)"
    by (simp add: take_number_def number_parts_end [OF assms(2)] split: prod.splits option.splits)
  then show ?thesis using assms(1) by (simp add: number_text_def)
qed

lemma number_head:
  assumes "number_text s"
  obtains c cs where "s = c # cs" "c = CHR ''-'' \<or> json_digit c"
proof -
  obtain sg s0 where sg: "sign_part (\<lambda>x. x = CHR ''-'') s = (sg, s0)" by fastforce
  have i: "int_part s0 \<noteq> None" using assms by (auto simp: number_text_def take_number_def sg split: option.splits)
  have z: "json_digit (CHR ''0'')" by code_simp
  show ?thesis
  proof (cases s)
    case Nil
    then show ?thesis using sg i by (simp add: sign_part_def int_part_def)
  next
    case (Cons c cs)
    have "c = CHR ''-'' \<or> json_digit c"
      using sg i z Cons by (auto simp: sign_part_def int_part_def split: if_splits list.splits)
    then show ?thesis using that Cons by blast
  qed
qed

lemma dec_digits_number:
  "0 \<le> n \<Longrightarrow> list_all json_digit (dec_digits n) \<and> dec_digits n \<noteq> [] \<and> (n = 0 \<and> dec_digits n = ''0'' \<or> hd (dec_digits n) \<noteq> CHR ''0'')"
proof (induction n rule: dec_digits.induct)
  case (1 n)
  have d: "json_digit (char_of (48 + k))" "k \<noteq> 0 \<Longrightarrow> char_of (48 + k) \<noteq> CHR ''0''" if "0 \<le> k" "k < 10" for k :: int
  proof -
    have "\<forall>k \<in> set [0..9]. json_digit (char_of (48 + k :: int)) \<and> (k = 0 \<or> char_of (48 + k :: int) \<noteq> CHR ''0'')" by code_simp
    moreover have "k \<in> set [0..9]" using that by simp
    ultimately show "json_digit (char_of (48 + k))" "k \<noteq> 0 \<Longrightarrow> char_of (48 + k) \<noteq> CHR ''0''" by blast+
  qed
  have z: "char_of (48 :: int) = CHR ''0''" by code_simp
  show ?case
  proof (cases "n < 10")
    case True
    then have "dec_digits n = [char_of (48 + n)]" by (subst dec_digits.simps) simp
    then show ?thesis using d [of n] "1.prems" True z by auto
  next
    case False
    then have n: "dec_digits n = dec_digits (n div 10) @ [char_of (48 + n mod 10)]" by (subst dec_digits.simps) simp
    have "0 \<le> n div 10" "n div 10 \<noteq> 0" using False by (simp_all add: pos_imp_zdiv_pos_iff div_le_dividend)
    then show ?thesis using "1.IH" [OF False] d(1) [of "n mod 10"] unfolding n by simp
  qed
qed

lemma int_text_number: "number_text (int_text n)"
proof -
  have d: "number_text (dec_digits k) \<and> number_text (CHR ''-'' # dec_digits k)" if k: "0 \<le> k" for k
  proof -
    obtain c cs where c: "dec_digits k = c # cs" "list_all json_digit (c # cs)" "c # cs = ''0'' \<or> c \<noteq> CHR ''0''"
      using dec_digits_number [OF k] by (cases "dec_digits k") auto
    have m: "c \<noteq> CHR ''-''"
    proof
      assume "c = CHR ''-''"
      moreover have "\<not> json_digit (CHR ''-'')" by code_simp
      ultimately show False using c(2) by simp
    qed
    have w: "takeWhile json_digit cs = cs" "dropWhile json_digit cs = []"
      using c(2) by (simp_all add: list_all_iff takeWhile_eq_all_conv dropWhile_eq_Nil_conv)
    have "json_digit c" using c(2) by simp
    then have "int_part (c # cs) = Some (c # cs, [])" using c(3) w by (auto simp: int_part_def)
    then show ?thesis
      using c(1) m by (simp add: number_text_def take_number_def sign_part_def fraction_part_def exponent_part_def)
  qed
  show ?thesis using d [of n] d [of "- n"] by (simp add: int_text_def)
qed

text \<open>Values whose strings are ASCII and whose numbers are numbers.\<close>

primrec plain_json :: "json \<Rightarrow> bool" where
  "plain_json JNull \<longleftrightarrow> True"
| "plain_json (JBool b) \<longleftrightarrow> True"
| "plain_json (JNumber s) \<longleftrightarrow> number_text s"
| "plain_json (JString s) \<longleftrightarrow> ascii s"
| "plain_json (JArray js) \<longleftrightarrow> list_all id (map plain_json js)"
| "plain_json (JObject kvs) \<longleftrightarrow> list_all (\<lambda>(k, b). ascii k \<and> b) (map (map_prod id plain_json) kvs)"

primrec json_depth :: "json \<Rightarrow> nat" where
  "json_depth JNull = 0"
| "json_depth (JBool b) = 0"
| "json_depth (JNumber s) = 0"
| "json_depth (JString s) = 0"
| "json_depth (JArray js) = Suc (foldr max (map json_depth js) 0)"
| "json_depth (JObject kvs) = Suc (foldr max (map snd (map (map_prod id json_depth) kvs)) 0)"

definition starts_value :: "string \<Rightarrow> bool" where
  "starts_value t \<longleftrightarrow> (case t of [] \<Rightarrow> False | c # cs \<Rightarrow> \<not> is_line_space c \<and> c \<noteq> CHR '']'' \<and> c \<noteq> CHR ''}'')"

lemma byte_code_of_int: "(of_char c :: int) = int (byte_code c)"
  by (cases c) (simp add: byte_code_def of_char_def horner_sum_foldr)

lemma digit_head:
  assumes "c = CHR ''-'' \<or> json_digit c"
  shows "\<not> is_line_space c" and "c \<notin> {CHR '']'', CHR ''}'', CHR 0x22, CHR ''['', CHR ''{'', CHR ''n'', CHR ''t'', CHR ''f'', CHR '','', CHR '':''}"
proof -
  have "\<not> json_digit (CHR '']'')" "\<not> json_digit (CHR ''}'')" "\<not> json_digit (CHR 0x22)" "\<not> json_digit (CHR ''['')" "\<not> json_digit (CHR ''{'')"
    "\<not> json_digit (CHR ''n'')" "\<not> json_digit (CHR ''t'')" "\<not> json_digit (CHR ''f'')" "\<not> json_digit (CHR '','')" "\<not> json_digit (CHR '':'')" by code_simp+
  then show "c \<notin> {CHR '']'', CHR ''}'', CHR 0x22, CHR ''['', CHR ''{'', CHR ''n'', CHR ''t'', CHR ''f'', CHR '','', CHR '':''}"
    using assms by auto
  have "c \<in> {CHR '' '', CHR 0x09, CHR 0x0D, CHR 0x0A}" if "is_line_space c"
  proof -
    have "char_of (32 :: nat) = CHR '' ''" "char_of (9 :: nat) = CHR 0x09" "char_of (13 :: nat) = CHR 0x0D" "char_of (10 :: nat) = CHR 0x0A"
      by code_simp+
    then have "char_of (byte_code c) \<in> {CHR '' '', CHR 0x09, CHR 0x0D, CHR 0x0A}" if "byte_code c \<in> {32, 9, 13, 10}"
      using that by fastforce
    moreover have "byte_code c \<in> {32, 9, 13, 10}" using that byte_code_of_int [of c] by (auto simp: is_line_space_def)
    ultimately show ?thesis by (simp add: byte_code_def)
  qed
  moreover have "\<not> json_digit (CHR '' '')" "\<not> json_digit (CHR 0x09)" "\<not> json_digit (CHR 0x0D)" "\<not> json_digit (CHR 0x0A)" by code_simp+
  ultimately show "\<not> is_line_space c" using assms by auto
qed

lemma text_starts: "plain_json j \<Longrightarrow> starts_value (json_text j)"
proof (cases j)
  case (JNumber s)
  moreover assume "plain_json j"
  ultimately have "number_text s" by simp
  then obtain c cs where c: "s = c # cs" "c = CHR ''-'' \<or> json_digit c" using number_head by blast
  then show ?thesis using digit_head [OF c(2)] JNumber by (simp add: starts_value_def)
next
  have w: "\<not> is_line_space (CHR ''n'')" "\<not> is_line_space (CHR ''t'')" "\<not> is_line_space (CHR ''f'')" "\<not> is_line_space (CHR 0x22)"
    "\<not> is_line_space (CHR ''['')" "\<not> is_line_space (CHR ''{'')" by code_simp+
  show "starts_value (json_text j)" if "j = JNull" using that w by (simp add: starts_value_def)
  show "starts_value (json_text j)" if "j = JBool b" for b using that w by (cases b) (simp_all add: starts_value_def)
  show "starts_value (json_text j)" if "j = JString s" for s using that w by (simp add: starts_value_def quoted_def)
  show "starts_value (json_text j)" if "j = JArray js" for js using that w by (simp add: starts_value_def)
  show "starts_value (json_text j)" if "j = JObject kvs" for kvs using that w by (simp add: starts_value_def)
qed

lemma skip_starts: "starts_value t \<Longrightarrow> skip_space (t @ r) = t @ r"
  by (cases t) (simp_all add: starts_value_def skip_space_def)

lemma skip_mark: "c \<in> {CHR '']'', CHR ''}'', CHR '','', CHR '':'', CHR 0x22} \<Longrightarrow> skip_space (c # r) = c # r"
proof -
  have "\<not> is_line_space (CHR '']'')" "\<not> is_line_space (CHR ''}'')" "\<not> is_line_space (CHR '','')" "\<not> is_line_space (CHR '':'')"
    "\<not> is_line_space (CHR 0x22)" by code_simp+
  moreover assume "c \<in> {CHR '']'', CHR ''}'', CHR '','', CHR '':'', CHR 0x22}"
  ultimately show ?thesis by (auto simp: skip_space_def)
qed

text \<open>What a value has to satisfy for the lists it stands in.\<close>

definition reads_back :: "json \<Rightarrow> bool" where
  "reads_back j \<longleftrightarrow>
     (\<forall>n d r. json_depth j \<le> d \<longrightarrow> 2 * length (json_text j) \<le> n \<longrightarrow> ends_number r \<longrightarrow> parse_value n d (json_text j @ r) = Some (j, r))"

lemma max_elems: "foldr max xs 0 \<le> (d :: nat) \<longleftrightarrow> (\<forall>x \<in> set xs. x \<le> d)"
  by (induction xs) auto

lemma elems_back:
  assumes "js \<noteq> []" and "\<forall>j \<in> set js. reads_back j \<and> plain_json j \<and> json_depth j \<le> d"
    and "2 * length (join_commas (map json_text js)) + 1 \<le> n"
  shows "parse_elems n d (join_commas (map json_text js) @ CHR '']'' # r) = Some (js, r)"
  using assms
proof (induction js arbitrary: n)
  case (Cons j js)
  obtain m where n: "n = Suc m" using Cons.prems(3) by (cases n) auto
  have j: "reads_back j" "plain_json j" "json_depth j \<le> d" using Cons.prems(2) by auto
  show ?case
  proof (cases js)
    case Nil
    have "ends_number (CHR '']'' # r)" by (simp add: ends_number_def)
    then have "parse_value m d (json_text j @ CHR '']'' # r) = Some (j, CHR '']'' # r)"
      using j(1,3) Cons.prems(3) n Nil by (auto simp: reads_back_def)
    then show ?thesis using Nil n skip_mark [of "CHR '']''" r] by simp
  next
    case (Cons j2 js2)
    let ?t = "join_commas (map json_text js)"
    have c: "join_commas (map json_text (j # js)) = json_text j @ CHR '','' # ?t" using Cons by simp
    have e: "ends_number (CHR '','' # ?t @ CHR '']'' # r)" by (simp add: ends_number_def)
    have "parse_value m d (json_text j @ CHR '','' # ?t @ CHR '']'' # r) = Some (j, CHR '','' # ?t @ CHR '']'' # r)"
      using j(1,3) e Cons.prems(3) n unfolding reads_back_def c by simp
    moreover have "parse_elems m d (?t @ CHR '']'' # r) = Some (js, r)"
      using Cons.IH [of m] Cons.prems(2,3) n Cons unfolding c by simp
    moreover have "skip_space (?t @ CHR '']'' # r) = ?t @ CHR '']'' # r"
    proof -
      have "starts_value (json_text j2)" using Cons.prems(2) Cons by (intro text_starts) simp
      then have "starts_value ?t" using Cons by (cases js2; cases "json_text j2") (auto simp: starts_value_def)
      then show ?thesis by (rule skip_starts)
    qed
    ultimately show ?thesis unfolding c n by (simp add: skip_mark)
  qed
qed simp

definition member_text :: "string \<times> json \<Rightarrow> string" where
  "member_text kv = quoted (fst kv) @ CHR '':'' # json_text (snd kv)"

lemma object_text: "json_text (JObject kvs) = CHR ''{'' # join_commas (map member_text kvs) @ ''}''"
proof -
  have "member_text = (\<lambda>kv. quoted (fst kv) @ CHR '':'' # json_text (snd kv))" by (rule ext) (rule member_text_def)
  then show ?thesis by (simp add: case_prod_beta comp_def)
qed

lemma member_back:
  assumes "ascii k" and "reads_back j \<and> plain_json j \<and> json_depth j \<le> d" and "2 * length (member_text (k, j)) \<le> n" and "ends_number r"
  shows "take 1 (member_text (k, j) @ r) = [CHR 0x22]"
    and "unquote (drop 1 (member_text (k, j) @ r)) = Some (k, CHR '':'' # json_text j @ r)"
    and "skip_space (CHR '':'' # json_text j @ r) = CHR '':'' # json_text j @ r"
    and "skip_space (json_text j @ r) = json_text j @ r"
    and "parse_value n d (json_text j @ r) = Some (j, r)"
proof -
  have m: "member_text (k, j) @ r = CHR 0x22 # escape_text k @ CHR 0x22 # CHR '':'' # json_text j @ r"
    by (simp add: member_text_def quoted_def)
  show "take 1 (member_text (k, j) @ r) = [CHR 0x22]" unfolding m by simp
  show "unquote (drop 1 (member_text (k, j) @ r)) = Some (k, CHR '':'' # json_text j @ r)"
    unfolding m using unquote_quoted [OF assms(1)] by simp
  show "skip_space (CHR '':'' # json_text j @ r) = CHR '':'' # json_text j @ r" by (rule skip_mark) simp
  show "skip_space (json_text j @ r) = json_text j @ r" using assms(2) by (intro skip_starts text_starts) simp
  have "2 * length (json_text j) \<le> n" using assms(3) by (simp add: member_text_def)
  then show "parse_value n d (json_text j @ r) = Some (j, r)" using assms(2,4) unfolding reads_back_def by blast
qed

lemma members_step:
  assumes "take 1 s = [CHR 0x22]" and "unquote (drop 1 s) = Some (k, CHR '':'' # t)" and "skip_space (CHR '':'' # t) = CHR '':'' # t"
    and "skip_space t = t" and "parse_value m d t = Some (j, c # r)" and "skip_space (c # r) = c # r"
  shows "parse_members (Suc m) d s =
    (if c = CHR ''}'' then Some ([(k, j)], r)
     else if c = CHR '','' then map_option (\<lambda>(kvs, r3). ((k, j) # kvs, r3)) (parse_members m d (skip_space r)) else None)"
  using assms by simp

lemma members_back:
  assumes "kvs \<noteq> []" and "\<forall>(k, j) \<in> set kvs. ascii k \<and> reads_back j \<and> plain_json j \<and> json_depth j \<le> d"
    and "2 * length (join_commas (map member_text kvs)) + 1 \<le> n"
  shows "parse_members n d (join_commas (map member_text kvs) @ CHR ''}'' # r) = Some (kvs, r)"
  using assms
proof (induction kvs arbitrary: n)
  case (Cons kv kvs)
  obtain m where n: "n = Suc m" using Cons.prems(3) by (cases n) auto
  obtain k j where kv: "kv = (k, j)" by (cases kv)
  have j: "ascii k" "reads_back j \<and> plain_json j \<and> json_depth j \<le> d" using Cons.prems(2) kv by auto
  show ?case
  proof (cases kvs)
    case Nil
    have "ends_number (CHR ''}'' # r)" by (simp add: ends_number_def)
    moreover have "2 * length (member_text (k, j)) \<le> m" using Cons.prems(3) n Nil kv by simp
    ultimately have b: "take 1 (member_text (k, j) @ CHR ''}'' # r) = [CHR 0x22]"
      "unquote (drop 1 (member_text (k, j) @ CHR ''}'' # r)) = Some (k, CHR '':'' # json_text j @ CHR ''}'' # r)"
      "skip_space (CHR '':'' # json_text j @ CHR ''}'' # r) = CHR '':'' # json_text j @ CHR ''}'' # r"
      "skip_space (json_text j @ CHR ''}'' # r) = json_text j @ CHR ''}'' # r"
      "parse_value m d (json_text j @ CHR ''}'' # r) = Some (j, CHR ''}'' # r)" using member_back [OF j] by blast+
    have "skip_space (CHR ''}'' # r) = CHR ''}'' # r" by (rule skip_mark) simp
    then have "parse_members (Suc m) d (member_text (k, j) @ CHR ''}'' # r) = Some ([(k, j)], r)"
      by (subst members_step [OF b]) simp_all
    then show ?thesis unfolding n Nil kv by (simp only: list.map join_commas.simps)
  next
    case (Cons kv2 kvs2)
    let ?t = "join_commas (map member_text kvs)"
    have c: "join_commas (map member_text (kv # kvs)) @ CHR ''}'' # r = member_text (k, j) @ CHR '','' # ?t @ CHR ''}'' # r"
      using Cons kv by simp
    have "ends_number (CHR '','' # ?t @ CHR ''}'' # r)" by (simp add: ends_number_def)
    moreover have "2 * length (member_text (k, j)) \<le> m" using Cons.prems(3) n Cons kv by simp
    ultimately have b: "take 1 (member_text (k, j) @ CHR '','' # ?t @ CHR ''}'' # r) = [CHR 0x22]"
      "unquote (drop 1 (member_text (k, j) @ CHR '','' # ?t @ CHR ''}'' # r)) = Some (k, CHR '':'' # json_text j @ CHR '','' # ?t @ CHR ''}'' # r)"
      "skip_space (CHR '':'' # json_text j @ CHR '','' # ?t @ CHR ''}'' # r) = CHR '':'' # json_text j @ CHR '','' # ?t @ CHR ''}'' # r"
      "skip_space (json_text j @ CHR '','' # ?t @ CHR ''}'' # r) = json_text j @ CHR '','' # ?t @ CHR ''}'' # r"
      "parse_value m d (json_text j @ CHR '','' # ?t @ CHR ''}'' # r) = Some (j, CHR '','' # ?t @ CHR ''}'' # r)"
      using member_back [OF j] by blast+
    have p: "parse_members m d (?t @ CHR ''}'' # r) = Some (kvs, r)"
      using Cons.IH [of m] Cons.prems(2,3) n Cons by simp
    have "starts_value ?t"
    proof -
      have "\<not> is_line_space (CHR 0x22)" by code_simp
      then show ?thesis using Cons by (cases kvs2) (simp_all add: starts_value_def member_text_def quoted_def)
    qed
    then have q: "skip_space (?t @ CHR ''}'' # r) = ?t @ CHR ''}'' # r" by (rule skip_starts)
    have "skip_space (CHR '','' # ?t @ CHR ''}'' # r) = CHR '','' # ?t @ CHR ''}'' # r" by (rule skip_mark) simp
    then have "parse_members (Suc m) d (member_text (k, j) @ CHR '','' # ?t @ CHR ''}'' # r) = Some ((k, j) # kvs, r)"
      by (subst members_step [OF b]) (simp_all add: p q)
    then show ?thesis unfolding n c [unfolded kv] kv .
  qed
qed simp

lemma reads_backI:
  assumes "json_text j \<noteq> []"
    and "\<And>m d r. \<lbrakk>json_depth j \<le> d; 2 * length (json_text j) \<le> Suc m; ends_number r\<rbrakk> \<Longrightarrow> parse_value (Suc m) d (json_text j @ r) = Some (j, r)"
  shows "reads_back j"
  unfolding reads_back_def
proof (intro allI impI)
  fix n d r
  assume p: "json_depth j \<le> d" "2 * length (json_text j) \<le> n" "ends_number r"
  then obtain m where "n = Suc m" using assms(1) by (cases n) auto
  then show "parse_value n d (json_text j @ r) = Some (j, r)" using assms(2) p by blast
qed

text \<open>What \<open>Marshal\<close> writes of a plain value, \<open>Unmarshal\<close> reads back.\<close>

lemma array_back:
  assumes e: "\<forall>j \<in> set js. reads_back j \<and> plain_json j"
  shows "reads_back (JArray js)"
proof -
  have "parse_value (Suc m) d (json_text (JArray js) @ r) = Some (JArray js, r)"
    if d: "json_depth (JArray js) \<le> d" and m: "2 * length (json_text (JArray js)) \<le> Suc m" for m d r
  proof (cases "js = []")
    case True
    then show ?thesis using d skip_mark [of "CHR '']''" r] by simp
  next
    case False
    have dj: "\<forall>j \<in> set js. json_depth j \<le> d - 1" "d \<noteq> 0" using d max_elems [of "map json_depth js" "d - 1"] by auto
    let ?t = "join_commas (map json_text js)"
    have "starts_value ?t"
    proof -
      obtain j2 js2 where js: "js = j2 # js2" using False by (cases js) auto
      then have "starts_value (json_text j2)" using e by (intro text_starts) simp
      then show ?thesis using js by (cases js2; cases "json_text j2") (auto simp: starts_value_def)
    qed
    moreover from this have "take 1 (?t @ CHR '']'' # r) \<noteq> '']''" by (cases ?t) (auto simp: starts_value_def)
    moreover have "parse_elems m (d - 1) (?t @ CHR '']'' # r) = Some (js, r)" using e dj m False by (intro elems_back) simp_all
    ultimately show ?thesis using dj by (simp add: skip_starts)
  qed
  then show ?thesis by (intro reads_backI) simp_all
qed

lemma object_back:
  assumes e: "\<forall>(k, j) \<in> set kvs. ascii k \<and> reads_back j \<and> plain_json j"
  shows "reads_back (JObject kvs)"
proof -
  have "parse_value (Suc m) d (json_text (JObject kvs) @ r) = Some (JObject kvs, r)"
    if d: "json_depth (JObject kvs) \<le> d" and m: "2 * length (json_text (JObject kvs)) \<le> Suc m" for m d r
  proof (cases "kvs = []")
    case True
    then show ?thesis using d skip_mark [of "CHR ''}''" r] by simp
  next
    case False
    have dj: "\<forall>(k, j) \<in> set kvs. json_depth j \<le> d - 1" "d \<noteq> 0"
      using d max_elems [of "map snd (map (map_prod id json_depth) kvs)" "d - 1"] by auto
    let ?t = "join_commas (map member_text kvs)"
    have w: "\<not> is_line_space (CHR 0x22)" by code_simp
    obtain kv2 kvs2 where kvs: "kvs = kv2 # kvs2" using False by (cases kvs) auto
    have "starts_value ?t" using kvs w by (cases kvs2) (simp_all add: starts_value_def member_text_def quoted_def)
    moreover from this have "take 1 (?t @ CHR ''}'' # r) \<noteq> ''}''" by (cases ?t) (auto simp: starts_value_def)
    moreover have "parse_members m (d - 1) (?t @ CHR ''}'' # r) = Some (kvs, r)"
      using e dj m False unfolding object_text by (intro members_back) auto
    ultimately show ?thesis using dj unfolding object_text by (simp add: skip_starts)
  qed
  then show ?thesis by (intro reads_backI) simp_all
qed

lemma number_back:
  assumes "number_text s"
  shows "reads_back (JNumber s)"
proof -
  obtain c cs where c: "s = c # cs" "c = CHR ''-'' \<or> json_digit c" using number_head [OF assms] by blast
  have "c \<notin> {CHR 0x22, CHR ''['', CHR ''{'', CHR ''n'', CHR ''t'', CHR ''f''}" using digit_head(2) [OF c(2)] by blast
  then have "parse_value (Suc m) d (s @ r) = Some (JNumber s, r)" if "ends_number r" for m d r
    using take_number_end [OF assms that] c(1) by simp
  then show ?thesis using c(1) by (intro reads_backI) simp_all
qed

lemma value_back: "plain_json j \<Longrightarrow> reads_back j"
proof (induction j)
  case (JNumber s)
  then show ?case by (simp add: number_back)
next
  case (JArray js)
  then have "\<forall>j \<in> set js. reads_back j \<and> plain_json j" by (simp add: list_all_iff)
  then show ?case by (rule array_back)
next
  case (JObject kvs)
  have "ascii k \<and> reads_back j \<and> plain_json j" if "(k, j) \<in> set kvs" for k j
  proof -
    have "ascii k" "plain_json j" using JObject.prems that by (force simp: list_all_iff)+
    moreover have "reads_back j" using JObject.IH [OF that, of j] \<open>plain_json j\<close> by simp
    ultimately show ?thesis by simp
  qed
  then show ?case by (intro object_back) blast
next
  case (JString s)
  have "parse_value (Suc m) d (quoted s @ r) = Some (JString s, r)" for m d r
    using unquote_quoted [of s r] JString by (simp add: quoted_def)
  then show ?case by (intro reads_backI) (simp_all add: quoted_def)
next
  case JNull
  show ?case by (rule reads_backI) (simp_all add: take_word_def)
next
  case (JBool b)
  show ?case by (rule reads_backI; cases b) (simp_all add: take_word_def)
qed

lemma json_back:
  assumes "plain_json j" and "json_depth j \<le> max_nesting"
  shows "parse_json (json_text j) = Some j"
proof -
  have "parse_value (2 * length (json_text j)) max_nesting (json_text j @ []) = Some (j, [])"
    using value_back [OF assms(1), unfolded reads_back_def, rule_format, of max_nesting "2 * length (json_text j)" "[]"] assms(2)
    by (simp add: ends_number_def)
  moreover have "skip_space (json_text j @ []) = json_text j @ []" using assms(1) by (intro skip_starts text_starts)
  ultimately show ?thesis by (simp add: parse_json_def skip_space_def)
qed

subsection \<open>No control characters\<close>

definition no_control :: "string \<Rightarrow> bool" where
  "no_control s \<longleftrightarrow> (\<forall>c \<in> set s. 32 \<le> byte_code c)"

lemma no_control_simps [simp]:
  "no_control []" "no_control (c # s) \<longleftrightarrow> 32 \<le> byte_code c \<and> no_control s" "no_control (s @ t) \<longleftrightarrow> no_control s \<and> no_control t"
  by (auto simp: no_control_def)

lemma utf8_codes: "no_control (take (utf8_len s) s)"
proof -
  define b where "b = (\<lambda>i. if i < length s then byte_code (s ! i) else 0)"
  have "32 \<le> b i" if "i < utf8_len s" for i
  proof -
    consider "utf8_len s = 0" | "utf8_len s = 2" "194 \<le> b 0" "128 \<le> b 1" | "utf8_len s = 3" "224 \<le> b 0" "128 \<le> b 1" "128 \<le> b 2"
      | "utf8_len s = 4" "240 \<le> b 0" "128 \<le> b 1" "128 \<le> b 2" "128 \<le> b 3"
      unfolding utf8_len_def Let_def b_def [symmetric] by (fastforce split: if_splits)
    then show ?thesis using that by cases (auto simp: numeral_eq_Suc less_Suc_eq)
  qed
  then have "32 \<le> byte_code (s ! i)" if "i < utf8_len s" "i < length s" for i using that by (fastforce simp: b_def)
  then show ?thesis by (auto simp: no_control_def in_set_conv_nth)
qed

lemma no_control_escape: "no_control (escape_text s)"
proof (induction s rule: escape_text.induct)
  case (2 c cs)
  have w: "no_control (CHR 0x5C # ''ufffd'')" "no_control (CHR 0x5C # ''u2028'')" "no_control (CHR 0x5C # ''u2029'')" by code_simp+
  show ?case
  proof (cases "byte_code c < 128")
    case True
    then show ?thesis using 2 escaped_codes [of c] by (auto simp: no_control_def)
  next
    case False
    let ?t = "escape_text (c # cs)"
    have "?t = (CHR 0x5C # ''ufffd'') @ escape_text cs \<or> ?t = (CHR 0x5C # ''u2028'') @ escape_text (drop 2 cs)
      \<or> ?t = (CHR 0x5C # ''u2029'') @ escape_text (drop 2 cs)
      \<or> ?t = take (utf8_len (c # cs)) (c # cs) @ escape_text (drop (utf8_len (c # cs) - 1) cs)"
      using False by (simp add: Let_def)
    then show ?thesis using 2 w utf8_codes [of "c # cs"] False by (auto simp: Let_def split: if_splits)
  qed
qed simp

primrec clean_json :: "json \<Rightarrow> bool" where
  "clean_json JNull \<longleftrightarrow> True"
| "clean_json (JBool b) \<longleftrightarrow> True"
| "clean_json (JNumber s) \<longleftrightarrow> no_control s"
| "clean_json (JString s) \<longleftrightarrow> True"
| "clean_json (JArray js) \<longleftrightarrow> list_all id (map clean_json js)"
| "clean_json (JObject kvs) \<longleftrightarrow> list_all snd (map (map_prod id clean_json) kvs)"

lemma no_control_join: "\<forall>x \<in> set xs. no_control x \<Longrightarrow> no_control (join_commas xs)"
proof (induction xs rule: join_commas.induct)
  case (3 x y xs)
  have "no_control '',''" by code_simp
  then show ?case using 3 by simp
qed simp_all

lemma no_control_quoted: "no_control (quoted s)"
proof -
  have "32 \<le> byte_code (CHR 0x22)" by code_simp
  then show ?thesis by (simp add: quoted_def no_control_escape)
qed

lemma clean_text: "clean_json j \<Longrightarrow> no_control (json_text j)"
proof (induction j)
  case (JArray js)
  then have "no_control (join_commas (map json_text js))" by (intro no_control_join) (auto simp: list_all_iff)
  moreover have "no_control ''[''" "no_control '']''" by code_simp+
  ultimately show ?case by simp
next
  case (JObject kvs)
  have w: "no_control ''{''" "no_control ''}''" "32 \<le> byte_code (CHR '':'')" by code_simp+
  have "no_control (member_text (k, j))" if "(k, j) \<in> set kvs" for k j
  proof -
    have "clean_json j" using JObject.prems that by (force simp: list_all_iff)
    then have "no_control (json_text j)" using JObject.IH [OF that, of j] by simp
    then show ?thesis using w(3) by (simp add: member_text_def no_control_quoted)
  qed
  then have "no_control (join_commas (map member_text kvs))" by (intro no_control_join) auto
  then show ?case unfolding object_text using w by simp
next
  case JNull
  have "no_control ''null''" by code_simp
  then show ?case by simp
next
  case (JBool b)
  have "no_control ''true''" "no_control ''false''" by code_simp+
  then show ?case by simp
qed (simp_all add: no_control_quoted)

lemma number_clean: "take_number s = Some (t, r) \<Longrightarrow> no_control t"
proof -
  have d: "no_control (takeWhile json_digit x)" for x
    by (auto simp: no_control_def json_digit_def dest!: set_takeWhileD)
  have w: "no_control ''-''" "no_control ''+''" "no_control ''0''" "no_control ''.''" "no_control ''e''" "no_control ''E''" by code_simp+
  have i: "no_control a" if "int_part x = Some (a, y)" for x a y
  proof -
    have "a = ''0'' \<or> a = takeWhile json_digit x"
      using that by (auto simp: int_part_def simp del: takeWhile.simps split: list.splits if_splits)
    then show ?thesis using w(3) d [of x] by (elim disjE) simp_all
  qed
  have f: "no_control a" if "fraction_part x = Some (a, y)" for x a y
  proof -
    have "a = [] \<or> a = ''.'' @ takeWhile json_digit (tl x)"
      using that by (auto simp: fraction_part_def split: list.splits if_splits)
    then show ?thesis using w(4) d [of "tl x"] by (elim disjE) simp_all
  qed
  have g: "no_control (fst (sign_part P x))" if "\<And>c. P c \<Longrightarrow> c = CHR ''-'' \<or> c = CHR ''+''" for P x
    using that w(1,2) by (fastforce simp: sign_part_def split: list.splits)
  have e: "no_control a" if "exponent_part x = Some (a, y)" for x a y
  proof -
    let ?p = "sign_part (\<lambda>x. x = CHR ''+'' \<or> x = CHR ''-'') (tl x)"
    have "a = [] \<or> a = ''e'' @ fst ?p @ takeWhile json_digit (snd ?p) \<or> a = ''E'' @ fst ?p @ takeWhile json_digit (snd ?p)"
      using that by (auto simp: exponent_part_def split: list.splits if_splits prod.splits)
    moreover have "no_control (fst ?p)" by (rule g) auto
    ultimately show ?thesis using w(5,6) d [of "snd ?p"] by (elim disjE) simp_all
  qed
  assume "take_number s = Some (t, r)"
  then obtain sg s0 x y z s1 s2 s3 where p: "sign_part (\<lambda>x. x = CHR ''-'') s = (sg, s0)" "int_part s0 = Some (x, s1)"
    "fraction_part s1 = Some (y, s2)" "exponent_part s2 = Some (z, s3)" "t = sg @ x @ y @ z"
    by (auto simp: take_number_def split: prod.splits option.splits)
  moreover have "no_control sg" using g [of "\<lambda>x. x = CHR ''-''" s] p(1) by simp
  ultimately show ?thesis using i [OF p(2)] f [OF p(3)] e [OF p(4)] by simp
qed

text \<open>What the parser returns has no control characters in its numbers.\<close>

lemma parse_clean:
  "parse_value n d s = Some (j, r) \<Longrightarrow> clean_json j"
  "parse_elems n d s = Some (js, r) \<Longrightarrow> \<forall>j \<in> set js. clean_json j"
  "parse_members n d s = Some (kvs, r) \<Longrightarrow> \<forall>kv \<in> set kvs. clean_json (snd kv)"
proof (induction n d s and n d s and n d s arbitrary: j r and js r and kvs r rule: parse_value_parse_elems_parse_members.induct)
  case (2 n d s)
  then show ?case
    by (auto simp: take_word_def list_all_iff split: list.splits if_splits dest: number_clean)
next
  case (4 n d s)
  then show ?case by (auto split: option.splits list.splits if_splits)
next
  case (6 n d s)
  then show ?case by (auto split: option.splits list.splits if_splits) force
qed simp_all

lemma parse_json_clean: "parse_json s = Some j \<Longrightarrow> clean_json j"
  by (auto simp: parse_json_def split: option.splits if_splits dest: parse_clean(1))

end
