(* ===== verification/Wire.thy ===== *)
theory Wire
  imports Json Server
begin

text \<open>
  The lines of the stratum protocol: how a message of the handler becomes bytes (\<open>Response\<close>, \<open>Notification\<close> and \<open>RPCError\<close> of
  \<open>protocol/message.go\<close> under \<open>Writer.writeJSON\<close> of \<open>protocol/codec.go\<close>) and how the bytes of a line become a request
  (\<open>Reader.Read\<close>). It gives the \<open>decode\<close> the server theory leaves open. An id is written by its value, where Go keeps its spelling; the
  text of a refused share (\<open>%g\<close> and \<open>%q\<close> of \<open>fmt\<close>) is the argument \<open>submit_text\<close>.
\<close>

subsection \<open>Floating-point numbers\<close>

text \<open>The shortest decimal that rounds to \<open>x\<close>, as coefficient and exponent, the nearest of those.\<close>

definition decimal_exponent :: "rat \<Rightarrow> int" where
  "decimal_exponent x =
     (if 1 \<le> x then int (length (dec_digits \<lfloor>x\<rfloor>)) - 1 else - int (length (dec_digits (\<lceil>1 / x\<rceil> - 1))))"

definition near_decimal :: "f64 \<Rightarrow> int \<Rightarrow> int option" where
  "near_decimal x k =
     (let q = x / 10 powi k; lo = \<lfloor>q\<rfloor>; hi = \<lceil>q\<rceil>; ok = (\<lambda>c. round64 (of_int c * 10 powi k) = x)
      in if ok lo \<and> (\<not> ok hi \<or> q - of_int lo \<le> of_int hi - q) then Some lo else if ok hi then Some hi else None)"

definition shortest_decimal :: "f64 \<Rightarrow> int \<times> int" where
  "shortest_decimal x =
     (let e = decimal_exponent x;
          n = (case find (\<lambda>n. near_decimal x (e + 1 - int n) \<noteq> None) [1..<17] of Some n \<Rightarrow> n | None \<Rightarrow> 17);
          k = e + 1 - int n;
          c = (case near_decimal x k of Some c \<Rightarrow> c | None \<Rightarrow> \<lfloor>x / 10 powi k\<rfloor>)
      in if c mod 10 = 0 then (c div 10, k + 1) else (c, k))"

definition plain_decimal :: "int \<Rightarrow> int \<Rightarrow> string" where
  "plain_decimal c k =
     (if 0 \<le> k then dec_digits (c * 10 ^ nat k)
      else let m = nat (- k); ds = dec_digits (c mod 10 ^ m)
        in dec_digits (c div 10 ^ m) @ CHR ''.'' # replicate (m - length ds) (CHR ''0'') @ ds)"

definition exponent_decimal :: "int \<Rightarrow> int \<Rightarrow> string" where
  "exponent_decimal c k =
     (let ds = dec_digits c; e = k + int (length ds) - 1
      in hd ds # (if tl ds = [] then [] else CHR ''.'' # tl ds) @ CHR ''e'' # (if e < 0 then CHR ''-'' else CHR ''+'') # dec_digits \<bar>e\<bar>)"

definition json_float :: "f64 \<Rightarrow> string" where
  "json_float x =
     (if x = 0 then ''0''
      else let a = \<bar>x\<bar>; (c, k) = shortest_decimal a
        in (if x < 0 then ''-'' else [])
          @ (if a < 1 / 10 ^ 6 \<or> 10 ^ 21 \<le> a then exponent_decimal c k else plain_decimal c k))"

subsection \<open>Messages\<close>

record stratum_error =
  se_code :: int
  se_message :: string
  se_data :: json

definition new_error :: "int \<Rightarrow> string \<Rightarrow> stratum_error" where
  "new_error code msg = \<lparr>se_code = code, se_message = msg, se_data = JNull\<rparr>"

text \<open>The error triple \<open>[code, message, data]\<close>.\<close>

definition error_json :: "stratum_error \<Rightarrow> json" where
  "error_json e = JArray [JNumber (int_text (se_code e)), JString (se_message e), se_data e]"

text \<open>Reading the triple: elements that are missing or of another type leave their field alone.\<close>

definition read_error :: "json \<Rightarrow> stratum_error option" where
  "read_error j =
     (case raw_list (Some j) of None \<Rightarrow> None
      | Some arr \<Rightarrow> Some
          \<lparr>se_code = (case arr of JNumber s # _ \<Rightarrow> (case json_int s of Some n \<Rightarrow> n | None \<Rightarrow> 0) | _ \<Rightarrow> 0),
           se_message = (case arr of _ # JString s # _ \<Rightarrow> s | _ \<Rightarrow> []),
           se_data = (case arr of _ # _ # d # _ \<Rightarrow> d | _ \<Rightarrow> JNull)\<rparr>)"

definition id_json :: "json option \<Rightarrow> json" where
  "id_json i = (case i of None \<Rightarrow> JNull | Some j \<Rightarrow> j)"

definition response_json :: "json option \<Rightarrow> json \<Rightarrow> stratum_error option \<Rightarrow> json" where
  "response_json i result err =
     JObject [(''id'', id_json i), (''result'', result), (''error'', case err of None \<Rightarrow> JNull | Some e \<Rightarrow> error_json e)]"

definition ok_response :: "json option \<Rightarrow> json \<Rightarrow> json" where
  "ok_response i result = response_json i result None"

definition err_response :: "json option \<Rightarrow> stratum_error \<Rightarrow> json" where
  "err_response i e = response_json i JNull (Some e)"

definition notification_json :: "string \<Rightarrow> json list \<Rightarrow> json" where
  "notification_json m params = JObject [(''id'', JNull), (''method'', JString m), (''params'', JArray params)]"

definition method_set_difficulty :: string where "method_set_difficulty = ''mining.set_difficulty''"
definition method_notify :: string where "method_notify = ''mining.notify''"

definition param_json :: "notify_param \<Rightarrow> json" where
  "param_json p = (case p of PStr s \<Rightarrow> JString s | PList ss \<Rightarrow> JArray (map JString ss) | PBool b \<Rightarrow> JBool b)"

text \<open>The results of the handler; the keys of a Go map are written in order.\<close>

definition reply_json :: "reply \<Rightarrow> json" where
  "reply_json r =
     (case r of
        ReTrue \<Rightarrow> JBool True
      | ReVersion v \<Rightarrow> JString v
      | ReSubscribed sid en1 n \<Rightarrow>
          JArray [JArray [JArray [JString method_set_difficulty, JString sid], JArray [JString method_notify, JString sid]],
            JString en1, JNumber (int_text (int n))]
      | ReConfigured rolling \<Rightarrow>
          JObject (if rolling then [(''version-rolling'', JBool True), (''version-rolling.mask'', JString ''1fffe000'')] else []))"

definition err_message :: "(submit_error \<Rightarrow> string) \<Rightarrow> err_text \<Rightarrow> string" where
  "err_message submit_text t = (case t of TMsg s \<Rightarrow> s | TSubmit e \<Rightarrow> submit_text e)"

definition message_json :: "(submit_error \<Rightarrow> string) \<Rightarrow> out_msg \<Rightarrow> json" where
  "message_json submit_text m =
     (case m of
        OutOk i r \<Rightarrow> ok_response i (reply_json r)
      | OutErr i code t \<Rightarrow> err_response i (new_error code (err_message submit_text t))
      | OutSetDifficulty d \<Rightarrow> notification_json method_set_difficulty [JNumber (json_float d)]
      | OutNotify ps \<Rightarrow> notification_json method_notify (map param_json ps))"

definition newline :: char where "newline = CHR 0x0A"

definition write_json :: "json \<Rightarrow> string" where
  "write_json j = json_text j @ [newline]"

definition wire_line :: "(submit_error \<Rightarrow> string) \<Rightarrow> out_msg \<Rightarrow> string" where
  "wire_line submit_text m = write_json (message_json submit_text m)"

subsection \<open>Requests\<close>

text \<open>Keys match up to case; two letters outside ASCII fold to an ASCII one.\<close>

fun fold_letters :: "string \<Rightarrow> string" where
  "fold_letters (a # b # s) =
     (if map byte_code [a, b] = [197, 191] then CHR ''s'' # fold_letters s
      else if map byte_code (a # b # take 1 s) = [226, 132, 170] then CHR ''k'' # fold_letters (drop 1 s)
      else a # fold_letters (b # s))"
| "fold_letters s = s"

definition request_field :: "request option \<Rightarrow> string \<times> json \<Rightarrow> request option" where
  "request_field r kv =
     (case r of None \<Rightarrow> None
      | Some req \<Rightarrow>
        let key = fold_letters (fst kv) in
        if equal_fold key ''id'' then Some (req\<lparr>rq_id := Some (snd kv)\<rparr>)
        else if equal_fold key ''method''
        then (case snd kv of JString s \<Rightarrow> Some (req\<lparr>rq_method := s\<rparr>) | JNull \<Rightarrow> Some req | _ \<Rightarrow> None)
        else if equal_fold key ''params'' then Some (req\<lparr>rq_params := Some (snd kv)\<rparr>)
        else Some req)"

definition empty_request :: request where
  "empty_request = \<lparr>rq_id = None, rq_method = [], rq_params = None\<rparr>"

definition request_of_json :: "json \<Rightarrow> request option" where
  "request_of_json j =
     (case j of JNull \<Rightarrow> Some empty_request | JObject kvs \<Rightarrow> foldl request_field (Some empty_request) kvs | _ \<Rightarrow> None)"

definition decode_line :: "string \<Rightarrow> request option" where
  "decode_line line = (case parse_json line of None \<Rightarrow> None | Some j \<Rightarrow> request_of_json j)"

subsection \<open>Numbers\<close>

definition digit_text :: "string \<Rightarrow> bool" where
  "digit_text s \<longleftrightarrow> s \<noteq> [] \<and> list_all json_digit s"

lemma digit_text_dec: "0 \<le> n \<Longrightarrow> digit_text (dec_digits n)"
  using dec_digits_number [of n] by (simp add: digit_text_def)

lemma digit_run:
  assumes "list_all json_digit ds" and "r = [] \<or> \<not> json_digit (hd r)"
  shows "takeWhile json_digit (ds @ r) = ds" and "dropWhile json_digit (ds @ r) = r"
proof -
  have "takeWhile json_digit r = [] \<and> dropWhile json_digit r = r" using assms(2) by (cases r) auto
  then show "takeWhile json_digit (ds @ r) = ds" "dropWhile json_digit (ds @ r) = r"
    using assms(1) by (simp_all add: list_all_iff)
qed

text \<open>An integer part, perhaps a fraction, perhaps an exponent.\<close>

lemma number_join:
  assumes a: "digit_text a" "a = [z] \<or> hd a \<noteq> CHR ''0''"
    and f: "f = [] \<or> (\<exists>ds. f = CHR ''.'' # ds \<and> digit_text ds)"
    and e: "x = [] \<or> (\<exists>sg ds. x = CHR ''e'' # sg # ds \<and> (sg = CHR ''+'' \<or> sg = CHR ''-'') \<and> digit_text ds)"
  shows "number_text (a @ f @ x)" and "number_text (CHR ''-'' # a @ f @ x)"
proof -
  have n: "\<not> json_digit (CHR ''.'')" "\<not> json_digit (CHR ''e'')" "\<not> json_digit (CHR ''-'')" by code_simp+
  have x0: "x = [] \<or> hd x = CHR ''e''" using e by auto
  then have fx: "f @ x = [] \<or> \<not> json_digit (hd (f @ x))" and xd: "x = [] \<or> \<not> json_digit (hd x)" using f n by auto
  obtain c cs where c: "a = c # cs" "json_digit c" "list_all json_digit cs" using a(1) by (cases a) (auto simp: digit_text_def)
  have "c \<noteq> CHR ''-''" using c(2) n by auto
  then have sg: "sign_part (\<lambda>x. x = CHR ''-'') (a @ f @ x) = ([], a @ f @ x)"
      "sign_part (\<lambda>x. x = CHR ''-'') (CHR ''-'' # a @ f @ x) = (''-'', a @ f @ x)" using c(1) by (simp_all add: sign_part_def)
  have "takeWhile json_digit (a @ f @ x) = a" "dropWhile json_digit (a @ f @ x) = f @ x"
    using digit_run [of a "f @ x"] a(1) fx by (simp_all add: digit_text_def)
  then have i: "int_part (a @ f @ x) = Some (a, f @ x)" using c a(2) by (auto simp: int_part_def)
  have fr: "fraction_part (f @ x) = Some (f, x)"
  proof (cases "f = []")
    case True
    then show ?thesis using x0 by (cases x) (auto simp: fraction_part_def)
  next
    case False
    then obtain ds where ds: "f = CHR ''.'' # ds" "digit_text ds" using f by blast
    then show ?thesis using digit_run [of ds x] xd by (simp add: fraction_part_def digit_text_def)
  qed
  have ex: "exponent_part x = Some (x, [])"
  proof (cases "x = []")
    case False
    then obtain sg ds where ds: "x = CHR ''e'' # sg # ds" "sg = CHR ''+'' \<or> sg = CHR ''-''" "digit_text ds" using e by blast
    then have w: "takeWhile json_digit ds = ds" "dropWhile json_digit ds = []" "ds \<noteq> []"
      using digit_run [of ds "[]"] by (simp_all add: digit_text_def)
    then show ?thesis using ds(1,2) by (auto simp: exponent_part_def sign_part_def w(1,2))
  qed (simp add: exponent_part_def)
  show "number_text (a @ f @ x)" "number_text (CHR ''-'' # a @ f @ x)"
    by (simp_all add: number_text_def take_number_def sg i fr ex)
qed

lemma dec_digits_lead: "0 \<le> n \<Longrightarrow> dec_digits n = ''0'' \<or> hd (dec_digits n) \<noteq> CHR ''0''"
  using dec_digits_number [of n] by auto

lemma coefficient_nonneg: "0 < x \<Longrightarrow> 0 \<le> fst (shortest_decimal x)"
proof -
  assume x: "0 < x"
  have q: "0 \<le> x / 10 powi k" for k :: int using x by simp
  have fl: "0 \<le> \<lfloor>x / 10 powi k\<rfloor>" for k using q [of k] by (simp only: zero_le_floor)
  have ce: "0 \<le> \<lceil>x / 10 powi k\<rceil>" for k using fl [of k] floor_le_ceiling [of "x / 10 powi k"] by (rule order_trans)
  have "c = \<lfloor>x / 10 powi k\<rfloor> \<or> c = \<lceil>x / 10 powi k\<rceil>" if "near_decimal x k = Some c" for k c
    using that unfolding near_decimal_def Let_def by (simp only: option.inject split: if_splits) simp_all
  then have "0 \<le> c" if "near_decimal x k = Some c" for k c using fl ce that by blast
  then have "0 \<le> (case near_decimal x k of Some c \<Rightarrow> c | None \<Rightarrow> \<lfloor>x / 10 powi k\<rfloor>)" for k
    using fl [of k] by (cases "near_decimal x k") simp_all
  then show ?thesis unfolding shortest_decimal_def Let_def by (simp add: pos_imp_zdiv_nonneg_iff del: not_None_eq One_nat_def upt_Suc)
qed

lemma plain_decimal_number:
  assumes "0 \<le> c"
  shows "number_text (plain_decimal c k)" and "number_text (CHR ''-'' # plain_decimal c k)"
proof -
  have "json_digit (CHR ''0'')" by code_simp
  then have z: "digit_text (replicate m (CHR ''0'') @ ds)" if "digit_text ds" for m ds
    using that by (auto simp: digit_text_def list_all_iff)
  have i: "digit_text (dec_digits n) \<and> (dec_digits n = [CHR ''0''] \<or> hd (dec_digits n) \<noteq> CHR ''0'')" if "0 \<le> n" for n
    using digit_text_dec [OF that] dec_digits_lead [OF that] by blast
  show "number_text (plain_decimal c k)" "number_text (CHR ''-'' # plain_decimal c k)"
  proof (atomize (full), cases "0 \<le> k")
    case True
    have "0 \<le> c * 10 ^ nat k" using assms by simp
    then show "number_text (plain_decimal c k) \<and> number_text (CHR ''-'' # plain_decimal c k)"
      using number_join [of "dec_digits (c * 10 ^ nat k)" "CHR ''0''" "[]" "[]"] i True by (simp add: plain_decimal_def)
  next
    case False
    let ?m = "nat (- k)"
    let ?f = "replicate (?m - length (dec_digits (c mod 10 ^ ?m))) (CHR ''0'') @ dec_digits (c mod 10 ^ ?m)"
    have "0 \<le> c div 10 ^ ?m" "0 \<le> c mod 10 ^ ?m" using assms by (simp_all add: pos_imp_zdiv_nonneg_iff)
    then show "number_text (plain_decimal c k) \<and> number_text (CHR ''-'' # plain_decimal c k)"
      using number_join [of "dec_digits (c div 10 ^ ?m)" "CHR ''0''" "CHR ''.'' # ?f" "[]"] i z [OF digit_text_dec, of "c mod 10 ^ ?m"] False
      by (simp add: plain_decimal_def Let_def)
  qed
qed

lemma exponent_decimal_number:
  assumes "0 \<le> c"
  shows "number_text (exponent_decimal c k)" and "number_text (CHR ''-'' # exponent_decimal c k)"
proof -
  obtain d ds where d: "dec_digits c = d # ds" "json_digit d" "list_all json_digit ds"
    using digit_text_dec [OF assms] by (cases "dec_digits c") (auto simp: digit_text_def)
  let ?f = "if ds = [] then [] else CHR ''.'' # ds"
  let ?e = "k + int (length (dec_digits c)) - 1"
  let ?x = "CHR ''e'' # (if ?e < 0 then CHR ''-'' else CHR ''+'') # dec_digits \<bar>?e\<bar>"
  have "digit_text [d]" "?f = [] \<or> (\<exists>ts. ?f = CHR ''.'' # ts \<and> digit_text ts)" using d by (simp_all add: digit_text_def)
  moreover have "\<exists>sg ts. ?x = CHR ''e'' # sg # ts \<and> (sg = CHR ''+'' \<or> sg = CHR ''-'') \<and> digit_text ts"
    using digit_text_dec [of "\<bar>?e\<bar>"] by simp
  ultimately have "number_text ([d] @ ?f @ ?x)" "number_text (CHR ''-'' # [d] @ ?f @ ?x)" using number_join [of "[d]" d ?f ?x] by blast+
  moreover have "exponent_decimal c k = [d] @ ?f @ ?x"
    unfolding exponent_decimal_def Let_def by (simp only: d(1) list.sel append.simps)
  ultimately show "number_text (exponent_decimal c k)" "number_text (CHR ''-'' # exponent_decimal c k)" by simp_all
qed

lemma json_float_number: "number_text (json_float x)"
proof (cases "x = 0")
  case True
  have "number_text ''0''" by code_simp
  then show ?thesis using True by (simp add: json_float_def)
next
  case False
  obtain c k where c: "shortest_decimal \<bar>x\<bar> = (c, k)" by fastforce
  then have "0 \<le> c" using coefficient_nonneg [of "\<bar>x\<bar>"] False by simp
  then show ?thesis
    using False plain_decimal_number [of c k] exponent_decimal_number [of c k] by (simp add: json_float_def c Let_def)
qed

subsection \<open>Framing\<close>

text \<open>The id a message answers, \<open>None\<close> for a notification.\<close>

definition answered_id :: "out_msg \<Rightarrow> json option" where
  "answered_id m = (case m of OutOk i r \<Rightarrow> i | OutErr i code t \<Rightarrow> i | _ \<Rightarrow> None)"

lemma handle_answers:
  assumes "handle now nd s req = (nd', s', out, effs)" and "m \<in> set out"
  shows "answered_id m \<in> {None, rq_id req}"
proof -
  have "answered_id m \<in> {None, rq_id req}" if h: "handle_submit now nd s req = (nd', s', out, effs)"
    using h
  proof (cases rule: handle_submit_cases)
    case (judged params r st)
    from judged(8) show ?thesis by (cases rule: settle_submit_cases) (use assms(2) in \<open>auto simp: answered_id_def\<close>)
  qed (use assms(2) in \<open>simp add: answered_id_def\<close>)
  moreover have "answered_id m \<in> {None, rq_id req}" if "handle_authorize nd s req = (nd', s', out, effs)"
    using that assms(2)
    by (auto simp: handle_authorize_def answered_id_def send_set_difficulty_def Let_def split: if_splits option.splits list.splits sum.splits)
  moreover have "answered_id m \<in> {None, rq_id req}" if "handle_subscribe nd s req = (nd', s', out, effs)"
    using that assms(2) by (auto simp: handle_subscribe_def answered_id_def Let_def split: prod.splits)
  moreover have "answered_id m \<in> {None, rq_id req}" if "handle_configure nd s req = (nd', s', out, effs)"
    using that assms(2) by (auto simp: handle_configure_def answered_id_def split: option.splits list.splits)
  ultimately show ?thesis using assms by (auto simp: handle_def answered_id_def split: if_splits)
qed

definition clean_id :: "json option \<Rightarrow> bool" where
  "clean_id i \<longleftrightarrow> clean_json (id_json i)"

lemma clean_id_None [simp]: "clean_id None"
  by (simp add: clean_id_def id_json_def)

lemma message_clean:
  assumes "clean_id (answered_id m)"
  shows "clean_json (message_json submit_text m)"
proof -
  have n: "no_control t" if "number_text t" for t using that number_clean by (simp add: number_text_def)
  have "clean_json (reply_json r)" for r using n [OF int_text_number] by (cases r) (simp_all add: reply_json_def)
  moreover have "clean_json (param_json p)" for p by (cases p) (simp_all add: param_json_def list_all_iff)
  ultimately show ?thesis
    using assms n [OF int_text_number] n [OF json_float_number]
    by (cases m) (auto simp: message_json_def ok_response_def err_response_def response_json_def notification_json_def error_json_def
        new_error_def answered_id_def clean_id_def list_all_iff)
qed

lemma request_field_clean:
  assumes "case r of None \<Rightarrow> True | Some req \<Rightarrow> clean_id (rq_id req)" and "clean_json (snd kv)"
  shows "case request_field r kv of None \<Rightarrow> True | Some req \<Rightarrow> clean_id (rq_id req)"
  using assms by (auto simp: request_field_def clean_id_def id_json_def Let_def split: option.splits json.splits)

lemma decode_line_clean:
  assumes "decode_line l = Some req"
  shows "clean_id (rq_id req)"
proof -
  obtain j where j: "parse_json l = Some j" "request_of_json j = Some req" using assms by (auto simp: decode_line_def split: option.splits)
  have f: "(case r of None \<Rightarrow> True | Some req \<Rightarrow> clean_id (rq_id req)) \<Longrightarrow> \<forall>kv \<in> set kvs. clean_json (snd kv)
      \<Longrightarrow> case foldl request_field r kvs of None \<Rightarrow> True | Some req \<Rightarrow> clean_id (rq_id req)" for r kvs
    by (induction kvs arbitrary: r) (simp_all add: request_field_clean)
  show ?thesis
  proof (cases j)
    case (JObject kvs)
    have "\<forall>kv \<in> set kvs. clean_json (snd kv)" using parse_json_clean [OF j(1)] JObject by (auto simp: list_all_iff)
    then show ?thesis using f [of "Some empty_request" kvs] j(2) JObject by (simp add: request_of_json_def empty_request_def)
  qed (use j(2) in \<open>auto simp: request_of_json_def empty_request_def\<close>)
qed

lemma step_answers:
  assumes "stratum_step st ev = (st', out)" and "(sid, m) \<in> set out"
  shows "answered_id m = None \<or> (\<exists>now id req. ev = SvInput now id (RdRequest req) \<and> answered_id m = rq_id req)"
proof (cases ev)
  case (SvInput now id x)
  then obtain s where s: "map_of (sm_sessions (st_sessions st)) id = Some s"
    using assms by (cases "map_of (sm_sessions (st_sessions st)) id") simp_all
  obtain st2 out2 effs go where c: "conn_input now st s x = (st2, out2, effs, go)" by (cases "conn_input now st s x")
  have m: "(sid, m) \<in> set out2" using assms SvInput s c by simp
  show ?thesis
  proof (cases x)
    case (RdRequest req)
    obtain nd s2 outs effs2 where h: "handle now (st_node st) (touch now s) req = (nd, s2, outs, effs2)"
      by (cases "handle now (st_node st) (touch now s) req")
    then have "m \<in> set outs" using c m RdRequest by (auto simp: conn_input_def)
    then show ?thesis using handle_answers [OF h] SvInput RdRequest by auto
  next
    case RdTooLong
    then show ?thesis using c m by (simp add: conn_input_def Let_def case_prod_beta split: if_splits)
  next
    case RdMalformed
    then show ?thesis using c m by (simp add: conn_input_def Let_def case_prod_beta split: if_splits)
  qed (use c m in \<open>simp_all add: conn_input_def\<close>)
next
  case (SvTick now)
  obtain k s where "m \<in> set (snd (vardiff_session now s))"
    using assms SvTick by (auto simp: vardiff_tick_def Let_def)
  then show ?thesis
    by (auto simp: vardiff_session_def answered_id_def Let_def split: option.splits prod.splits if_splits)
next
  case (SvPoll p rpc)
  have b: "answered_id m = None" if "(sid, m) \<in> set (broadcast_notify st2 q ps)" for st2 q ps
    using that by (auto simp: broadcast_notify_def answered_id_def)
  obtain st2 out2 res where r: "poll_pool st p rpc = (st2, out2, res)" by (cases "poll_pool st p rpc")
  have "(sid, m) \<in> set out2" using assms SvPoll r by simp
  then show ?thesis
    using r b unfolding poll_pool_def Let_def
    by (fastforce split: option.splits prod.splits jobs_effect.splits)
next
  case (SvOp now p op)
  then show ?thesis using assms by (simp add: Let_def case_prod_beta)
next
  case (SvAccept now sid2 host port)
  then show ?thesis using assms by (simp split: if_splits)
qed

text \<open>
  C18: nothing a miner sends, and nothing its messages quote, breaks the line protocol of the others or of itself: whatever the front-end
  writes - answers that echo the id and the method of a request, error texts, notifications - is one line: bytes without control
  characters, then the newline. The requests are those the reader made of lines of any bytes.
\<close>

theorem lines_framed:
  assumes "stratum_step st ev = (st', out)" and "(sid, m) \<in> set out"
    and "\<And>now id req. ev = SvInput now id (RdRequest req) \<Longrightarrow> \<exists>l. decode_line l = Some req"
  shows "\<exists>t. wire_line submit_text m = t @ [newline] \<and> no_control t \<and> newline \<notin> set t"
proof -
  have "clean_id (answered_id m)"
    using step_answers [OF assms(1,2)] assms(3) decode_line_clean by (metis clean_id_None)
  then have "no_control (json_text (message_json submit_text m))" by (intro clean_text message_clean)
  moreover have "\<not> 32 \<le> byte_code newline" by code_simp
  ultimately show ?thesis by (auto simp: wire_line_def write_json_def no_control_def)
qed

subsection \<open>Round trips\<close>

definition plain_message :: "(submit_error \<Rightarrow> string) \<Rightarrow> out_msg \<Rightarrow> bool" where
  "plain_message submit_text m \<longleftrightarrow>
     plain_json (id_json (answered_id m)) \<and> json_depth (id_json (answered_id m)) < 9000
     \<and> (case m of
          OutOk i r \<Rightarrow> (case r of ReVersion v \<Rightarrow> ascii v | ReSubscribed sid en1 n \<Rightarrow> ascii sid \<and> ascii en1 | _ \<Rightarrow> True)
        | OutErr i code t \<Rightarrow> ascii (err_message submit_text t)
        | OutSetDifficulty d \<Rightarrow> True
        | OutNotify ps \<Rightarrow> list_all (\<lambda>p. case p of PStr s \<Rightarrow> ascii s | PList ss \<Rightarrow> list_all ascii ss | PBool b \<Rightarrow> True) ps)"

lemma ascii_names:
  "ascii ''id''" "ascii ''result''" "ascii ''error''" "ascii ''method''" "ascii ''params''" "ascii ''version-rolling''"
  "ascii ''version-rolling.mask''" "ascii ''1fffe000''" "ascii method_set_difficulty" "ascii method_notify"
  by code_simp+

lemma strings_depth: "foldr max (map (json_depth \<circ> JString) ss) 0 = 0"
  by (induction ss) simp_all

lemma response_plain:
  "plain_json (response_json i r err) \<longleftrightarrow> plain_json (id_json i) \<and> plain_json r \<and> (case err of None \<Rightarrow> True | Some e \<Rightarrow> plain_json (error_json e))"
  by (cases err) (auto simp: response_json_def ascii_names)

lemma response_depth:
  assumes "json_depth (id_json i) < 9000" and "json_depth r \<le> 8" and "case err of None \<Rightarrow> True | Some e \<Rightarrow> se_data e = JNull"
  shows "json_depth (response_json i r err) \<le> max_nesting"
proof -
  have "json_depth (response_json i r err) \<le> Suc (max (json_depth (id_json i)) (max (json_depth r) 1))"
    using assms(3) by (cases err) (simp_all add: response_json_def error_json_def)
  then show ?thesis using assms(1,2) unfolding max_nesting_def by linarith
qed

lemma reply_plain:
  assumes "case r of ReVersion v \<Rightarrow> ascii v | ReSubscribed sid en1 n \<Rightarrow> ascii sid \<and> ascii en1 | _ \<Rightarrow> True"
  shows "plain_json (reply_json r)" and "json_depth (reply_json r) \<le> 8"
  using assms by (cases r; simp add: reply_json_def ascii_names int_text_number)+

lemma notification_plain:
  assumes "ascii mt" and "\<forall>p \<in> set ps. plain_json p \<and> json_depth p \<le> 1"
  shows "plain_json (notification_json mt ps)" and "json_depth (notification_json mt ps) \<le> max_nesting"
proof -
  show "plain_json (notification_json mt ps)" using assms by (simp add: notification_json_def ascii_names list_all_iff)
  have "foldr max (map json_depth ps) 0 \<le> 1" using assms(2) by (simp add: max_elems)
  then have "json_depth (notification_json mt ps) \<le> 3" by (simp add: notification_json_def)
  then show "json_depth (notification_json mt ps) \<le> max_nesting" unfolding max_nesting_def by linarith
qed

lemma wire_message_plain:
  assumes "plain_message submit_text m"
  shows "plain_json (message_json submit_text m) \<and> json_depth (message_json submit_text m) \<le> max_nesting"
proof (cases m)
  case (OutOk i r)
  then show ?thesis
    using assms reply_plain [of r]
    by (simp add: message_json_def ok_response_def plain_message_def answered_id_def response_plain response_depth)
next
  case (OutErr i code t)
  then show ?thesis
    using assms by (simp add: message_json_def err_response_def plain_message_def answered_id_def response_plain response_depth
        error_json_def new_error_def int_text_number)
next
  case (OutSetDifficulty d)
  then show ?thesis
    using notification_plain [of method_set_difficulty "[JNumber (json_float d)]"] by (simp add: message_json_def ascii_names json_float_number)
next
  case (OutNotify ps)
  have "plain_json (param_json p) \<and> json_depth (param_json p) \<le> 1" if "p \<in> set ps" for p
    using assms OutNotify that by (cases p) (auto simp: param_json_def plain_message_def list_all_iff strings_depth)
  then show ?thesis
    using notification_plain [of method_notify "map param_json ps"] OutNotify by (simp add: message_json_def ascii_names)
qed

text \<open>A request as a client writes it.\<close>

definition request_json :: "json \<Rightarrow> string \<Rightarrow> json \<Rightarrow> json" where
  "request_json i m ps = JObject [(''id'', i), (''method'', JString m), (''params'', ps)]"

lemma fold_letters_ascii: "ascii s \<Longrightarrow> fold_letters s = s"
  by (induction s rule: fold_letters.induct) (simp_all add: ascii_def)

lemma request_keys:
  "equal_fold ''id'' ''id''" "\<not> equal_fold ''method'' ''id''" "equal_fold ''method'' ''method''" "\<not> equal_fold ''params'' ''id''"
  "\<not> equal_fold ''params'' ''method''" "equal_fold ''params'' ''params''"
  by code_simp+

lemma request_field_id: "request_field (Some req) (''id'', j) = Some (req\<lparr>rq_id := Some j\<rparr>)"
  using request_keys by (simp only: request_field_def fst_conv snd_conv fold_letters_ascii ascii_names option.case Let_def if_True)

lemma request_field_method: "request_field (Some req) (''method'', JString m) = Some (req\<lparr>rq_method := m\<rparr>)"
  using request_keys
  by (simp only: request_field_def fst_conv snd_conv fold_letters_ascii ascii_names option.case json.case Let_def if_True if_False)

lemma request_field_params: "request_field (Some req) (''params'', j) = Some (req\<lparr>rq_params := Some j\<rparr>)"
  using request_keys by (simp only: request_field_def fst_conv snd_conv fold_letters_ascii ascii_names option.case Let_def if_True if_False)

lemma request_read: "request_of_json (request_json i m ps) = Some \<lparr>rq_id = Some i, rq_method = m, rq_params = Some ps\<rparr>"
  by (simp add: request_of_json_def request_json_def empty_request_def request_field_id request_field_method request_field_params)

lemma decode_request:
  assumes "plain_json i" and "plain_json ps" and "ascii m" and "json_depth i < 9000" and "json_depth ps < 9000"
  shows "decode_line (json_text (request_json i m ps)) = Some \<lparr>rq_id = Some i, rq_method = m, rq_params = Some ps\<rparr>"
proof -
  have "plain_json (request_json i m ps)" "json_depth (request_json i m ps) \<le> max_nesting"
    using assms by (simp_all add: request_json_def ascii_names max_nesting_def)
  then show ?thesis by (simp add: decode_line_def json_back request_read)
qed

lemma read_request:
  assumes "plain_json i" and "plain_json ps" and "ascii m" and "json_depth i < 9000" and "json_depth ps < 9000"
    and "length (json_text (request_json i m ps)) \<le> n"
  shows "read_line decode_line (new_reader (json_text (request_json i m ps) # ls) n)
    = (new_reader ls n, RdRequest \<lparr>rq_id = Some i, rq_method = m, rq_params = Some ps\<rparr>)"
proof -
  let ?l = "json_text (request_json i m ps)"
  have o: "?l \<noteq> []" "hd ?l = CHR ''{''" "last ?l = CHR ''}''" unfolding request_json_def object_text by simp_all
  have w: "of_char (CHR ''}'') \<noteq> (13 :: int)" "\<not> is_line_space (CHR ''{'')" by code_simp+
  have "drop_cr ?l = ?l" using o w by (simp add: drop_cr_def)
  moreover have "trim_line ?l \<noteq> []"
  proof -
    obtain t where t: "?l = CHR ''{'' # t" using o by (cases ?l) auto
    then have "dropWhile is_line_space ?l = ?l" using w(2) by simp
    moreover have "dropWhile is_line_space (rev ?l) \<noteq> []" using t w(2) by (auto simp: dropWhile_eq_Nil_conv)
    ultimately show ?thesis by (simp only: trim_line_def rev_is_Nil_conv not_False_eq_True)
  qed
  ultimately show ?thesis
    using assms(6) decode_request [OF assms(1-5)]
    by (simp add: read_line_def new_reader_def judge_line_def scan_buffer_size_def)
qed

text \<open>An error triple is read back as the error it was made of.\<close>

lemma json_int_text: "- (2 ^ 63) \<le> n \<Longrightarrow> n < 2 ^ 63 \<Longrightarrow> json_int (int_text n) = Some n"
proof -
  assume n: "- (2 ^ 63) \<le> n" "n < 2 ^ 63"
  have d: "list_all (\<lambda>c. 48 \<le> (of_char c :: int) \<and> (of_char c :: int) \<le> 57) (dec_digits k)" if "0 \<le> k" for k
    using dec_digits_number [OF that] by (auto simp: list_all_iff json_digit_def byte_code_of_int)
  show ?thesis
  proof (cases "n < 0")
    case True
    then show ?thesis using n d [of "- n"] digits_value_dec [of "- n"] dec_digits_number [of "- n"]
      by (simp add: json_int_def int_text_def)
  next
    case False
    have "\<not> json_digit (CHR ''-'')" by code_simp
    then obtain c cs where c: "dec_digits n = c # cs" "c \<noteq> CHR ''-''"
      using dec_digits_number [of n] False by (cases "dec_digits n") auto
    then show ?thesis using n d [of n] digits_value_dec [of n] False by (simp add: json_int_def int_text_def)
  qed
qed

lemma error_read_back:
  assumes "- (2 ^ 63) \<le> se_code e" and "se_code e < 2 ^ 63"
  shows "read_error (error_json e) = Some e"
  using json_int_text [OF assms] by (simp add: read_error_def error_json_def raw_list_def)

text \<open>
  C34: what either side of the protocol writes, the other reads as written. A request of ASCII strings that fits the line limit is read by
  the node as exactly that request, and leaves the next line to be read; the line the node writes for any message of ASCII strings, without
  its newline, parses as the JSON of that message - the id of its request, the result, and as error null or the triple of code, text and null
  that reads back as the error.
\<close>

theorem messages_read_back:
  assumes "plain_json i" and "plain_json ps" and "ascii mt" and "json_depth i < 9000" and "json_depth ps < 9000"
    and "length (json_text (request_json i mt ps)) \<le> n"
    and "plain_message submit_text m"
  shows "read_line decode_line (new_reader (json_text (request_json i mt ps) # ls) n)
      = (new_reader ls n, RdRequest \<lparr>rq_id = Some i, rq_method = mt, rq_params = Some ps\<rparr>)
    \<and> (\<exists>t. wire_line submit_text m = t @ [newline] \<and> parse_json t = Some (message_json submit_text m))
    \<and> (\<forall>j code et. m = OutErr j code et \<and> code \<in> {0..<2 ^ 63} \<longrightarrow>
        (\<exists>e. message_json submit_text m = JObject [(''id'', id_json j), (''result'', JNull), (''error'', e)]
          \<and> read_error e = Some \<lparr>se_code = code, se_message = err_message submit_text et, se_data = JNull\<rparr>))"
proof (intro conjI allI impI)
  show "read_line decode_line (new_reader (json_text (request_json i mt ps) # ls) n)
      = (new_reader ls n, RdRequest \<lparr>rq_id = Some i, rq_method = mt, rq_params = Some ps\<rparr>)"
    by (rule read_request [OF assms(1-6)])
  show "\<exists>t. wire_line submit_text m = t @ [newline] \<and> parse_json t = Some (message_json submit_text m)"
    using wire_message_plain [OF assms(7)] json_back by (simp add: wire_line_def write_json_def)
  fix j code et
  assume "m = OutErr j code et \<and> code \<in> {0..<2 ^ 63}"
  then show "\<exists>e. message_json submit_text m = JObject [(''id'', id_json j), (''result'', JNull), (''error'', e)]
          \<and> read_error e = Some \<lparr>se_code = code, se_message = err_message submit_text et, se_data = JNull\<rparr>"
    using error_read_back [of "new_error code (err_message submit_text et)"]
    by (simp add: message_json_def err_response_def response_json_def new_error_def)
qed

text \<open>A request whose id and method hold newlines, and the answer that quotes them.\<close>

definition sample_bad :: json where
  "sample_bad = request_json (JString [newline, CHR 0x22]) [newline, CHR ''x''] JNull"

definition sample_accepted :: stratum where
  "sample_accepted = stratum_run (new_stratum sample_cfg sample_lifecycle [] None (\<lambda>_. bitcoinlike_coin sample_adapter))
     [SvAccept 0 ''s1'' ''ip'' sample_port]"

theorem lines_framed_witness:
  "\<exists>t. wire_line (\<lambda>_. []) (OutErr (Some (JString [newline, CHR 0x22])) 20 (TMsg (''unknown method '' @ [newline, CHR ''x'']))) = t @ [newline]
     \<and> no_control t \<and> newline \<notin> set t"
proof -
  let ?req = "\<lparr>rq_id = Some (JString [newline, CHR 0x22]), rq_method = [newline, CHR ''x''], rq_params = Some JNull\<rparr>"
  let ?m = "OutErr (Some (JString [newline, CHR 0x22])) 20 (TMsg (''unknown method '' @ [newline, CHR ''x'']))"
  have a: "ascii [newline, CHR ''x'']" "plain_json (JString [newline, CHR 0x22])" by code_simp+
  then have d: "decode_line (json_text sample_bad) = Some ?req"
    unfolding sample_bad_def by (intro decode_request) simp_all
  have o: "map snd (snd (stratum_step sample_accepted (SvInput 1 ''s1'' (RdRequest ?req)))) = [?m]" by code_simp
  obtain st out where st: "stratum_step sample_accepted (SvInput 1 ''s1'' (RdRequest ?req)) = (st, out)" by fastforce
  then obtain sid where "(sid, ?m) \<in> set out" using o by auto
  then show ?thesis using lines_framed [OF st, of sid ?m "\<lambda>_. []"] d by blast
qed

theorem messages_read_back_witness:
  "let l = json_text (request_json (JNumber ''7'') ''mining.authorize'' (JArray [JString ''a'']))
   in read_line decode_line (new_reader [l] 200)
      = (new_reader [] 200, RdRequest \<lparr>rq_id = Some (JNumber ''7''), rq_method = ''mining.authorize'', rq_params = Some (JArray [JString ''a''])\<rparr>)
    \<and> (\<exists>t. wire_line (\<lambda>_. []) (OutErr (Some (JNumber ''7'')) 24 (TMsg ''empty worker'')) = t @ [newline]
        \<and> parse_json t = Some (message_json (\<lambda>_. []) (OutErr (Some (JNumber ''7'')) 24 (TMsg ''empty worker''))))"
proof -
  have a: "plain_json (JNumber ''7'')" "plain_json (JArray [JString ''a''])" "ascii ''mining.authorize''" "ascii ''empty worker''"
    "length (json_text (request_json (JNumber ''7'') ''mining.authorize'' (JArray [JString ''a'']))) \<le> 200" by code_simp+
  moreover have "plain_message (\<lambda>_. []) (OutErr (Some (JNumber ''7'')) 24 (TMsg ''empty worker''))"
    using a by (simp add: plain_message_def answered_id_def id_json_def err_message_def)
  ultimately show ?thesis
    using messages_read_back [of "JNumber ''7''" "JArray [JString ''a'']" "''mining.authorize''" 200 "\<lambda>_. []"
        "OutErr (Some (JNumber ''7'')) 24 (TMsg ''empty worker'')" "[]"] by (simp only: Let_def) simp
qed

end
