(* ===== verification/Spec2Isabelle.thy ===== *)
theory Spec2Isabelle
  imports Wiring Partitions Migrations Wallet Listeners Metrics Daemon Wire
begin

text \<open>
  A mining pool for Bitcoin-like coins, written in Go: \<open>stratumd\<close> accepts miners over the stratum protocol,
  builds jobs from the coin daemons' block templates, validates shares and submits blocks; \<open>rewardd\<close> confirms the
  found blocks and credits miners; \<open>payoutd\<close> pays them. A node is all-in-one, regional (it sends its events over
  NATS) or master (it stores them). This library models the three programs' own logic as executable functions and
  proves what makes each part correct. Names in the theories follow the code's, in snake case.

  \<^bold>\<open>The parts and their theories.\<close> Paths are under \<open>internal/\<close> unless they start with \<open>cmd/\<close>.

  \<^item> \<open>Prelude\<close>: bytes, hexadecimal, decimal digits, ASCII strings and the lemmas everything shares. \<open>GoFloat\<close>: Go's \<open>float64\<close>
    and the 224-bit \<open>big.Float\<close> as rationals with correct rounding (locale \<open>rounding\<close>, interpreted at both precisions);
    infinities, NaN and underflow do not arise from the values the code feeds in and are not represented.
    \<open>Base64\<close>, \<open>Sha256\<close>, \<open>Sha512\<close>: the standard encodings and digests, executable.
  \<^item> \<open>Merkle\<close>, \<open>Target\<close>, \<open>Coinbase\<close>, \<open>Job\<close>, \<open>Block\<close>, \<open>Address\<close> (\<open>coins/bitcoinbase\<close>): merkle roots and stratum branches, compact targets, the
    coinbase transaction split around the extranonces, the job and its notification, header and block assembly, payout
    addresses. \<open>Adapter\<close> (\<open>coins/adapter.go\<close>, \<open>coins/bitcoinlike\<close>, \<open>btc\<close>, \<open>ltc\<close>, \<open>rxd\<close>, \<open>scash\<close>): the coin adapter, its constructors and \<open>ValidateShare\<close>.
  \<^item> \<open>Jobs\<close> (\<open>jobs\<close>): the job manager of a pool (poll, remembered jobs, duplicate check, recorded events) and the registry. A
    submission is also available as its two critical sections, so that interleavings can be stated.
  \<^item> \<open>Config\<close>, \<open>Durations\<close> (\<open>config\<close>): the configuration, its defaults, its validation and its duration format.
  \<^item> \<open>Pool\<close> (\<open>pool\<close>): the lifecycle state machine, the supervised service and the manager; \<open>pool_step\<close> is the step relation.
  \<^item> \<open>Protocol\<close>, \<open>VarDiff\<close>, \<open>Session\<close>, \<open>Handler\<close>, \<open>Server\<close> (\<open>stratum\<close>) and \<open>Bans\<close> (\<open>bans\<close>): reading lines, difficulty, sessions and
    extranonce allocation, the request handlers, the connection loop, the vardiff loop and bans. \<open>stratum_step\<close> is one event of the front-end.
    \<open>Listeners\<close>: its ports, the start and the end of their accept loops. \<open>Json\<close>: the part of \<open>encoding/json\<close> the protocol uses, printer and
    parser; \<open>Wire\<close>: the lines themselves, requests decoded from bytes and messages encoded to them.
  \<^item> \<open>Rewards\<close>, \<open>Calculators\<close>, \<open>Processor\<close> (\<open>rewards\<close>), \<open>Store\<close>, \<open>Ledger\<close>, \<open>Queries\<close> (\<open>storage/postgres\<close>) and \<open>Payouts\<close> (\<open>payouts\<close>): the split of a
    reward, the payment schemes, confirmation, the tables as lists of rows and every statement the code runs on them, and the payout pass.
    \<open>ledger_step\<close> is the abstract specification the processors refine. \<open>Rpc\<close> (\<open>coins/rpc\<close>): the JSON-RPC client; \<open>Wallet\<close>: the payout pass over it,
    beside the history of the daemon's wallet.
  \<^item> \<open>Spool\<close> (\<open>spool\<close>), \<open>ShareWriter\<close> (\<open>storage/postgres/sharewriter.go\<close>, \<open>sharewal.go\<close>), \<open>Messaging\<close> (\<open>messaging/nats\<close>), \<open>Stats\<close> (\<open>stats\<close>): the file that
    holds what could not be sent, the asynchronous writer with its log, publisher, consumer and commands, and the live counters.
    \<open>Nats\<close>: the connection, its streams and their retry, the consumers. \<open>Partitions\<close>: the monthly partitions of the shares table and when the
    writer makes them. \<open>Migrations\<close> (\<open>storage/postgres/store.go\<close>): the schema statements and how a start applies them.
  \<^item> \<open>Api\<close> (\<open>api\<close>): routing, the public pages and the admin actions. \<open>Wiring\<close> (\<open>cmd/stratumd\<close>, \<open>cmd/rewardd\<close>, \<open>cmd/payoutd\<close>): how a
    node is built from its configuration, where events go, and which pools the daemons take up.
    \<open>Daemon\<close> (\<open>cmd\<close>): the programs from start to end, part by part, with their exits and the order of shutdown.
    \<open>Metrics\<close> (\<open>metrics\<close>): counters, gauges and their text, and the counters the handlers drive.

  \<^bold>\<open>How they interact.\<close> \<open>Wiring.start_node\<close> gives the front-end its lifecycle, registry and adapters. A submission goes
  \<open>Server.conn_input\<close>, \<open>Handler.handle\<close>, \<open>Jobs.registry_submit_share\<close>, \<open>Adapter.validate_share\<close>; the events it returns go to
  \<open>Wiring.multi_record_share\<close>, which feeds \<open>Stats\<close>, \<open>ShareWriter.enqueue\<close> and \<open>Messaging.publish\<close>; a master turns what it consumes into
  the same rows (\<open>Wiring.relay_persists\<close>). The blocks and shares in the tables are what \<open>Processor\<close> and \<open>Payouts\<close> work on. The API and the
  commands act through \<open>Pool.apply_op\<close>. The interfaces are locales: \<open>share_source\<close> (what a calculator needs of the tables),
  \<open>coin_jobs\<close> (what the manager needs of an adapter), \<open>pool_gate\<close> (what the handlers need of the lifecycle), \<open>line_codec\<close> (what
  the spool needs of its encoding) and \<open>rounding\<close>, each interpreted on the model's own definitions.

  \<^bold>\<open>Effects and the environment.\<close> State is passed explicitly. Time, random ids and what a daemon, a database statement,
  a disk or NATS does are arguments, so the theorems hold for all of them; a goroutine is a sequence of steps that others may interleave.
  Errors are values of a sum type; a Go panic is a value too. Machine integers are words where they can wrap and \<open>int\<close> where a bound is
  proved or checked; Go maps are partial functions, or association lists where their size matters.

  \<^bold>\<open>What the lemmas show.\<close> Money: in the tables nothing is created or lost between a block's reward, balances, payments and fees, whatever fails
  (\<open>Ledger\<close>, \<open>Payouts\<close>, \<open>Processor\<close>); the processor confirms, orphans and credits blocks exactly as \<open>Processor.processor_step\<close> allows; the wallet pays
  no more than the tables say, unless an answer is lost (\<open>Wallet\<close>); splits are exact and close to proportional (\<open>Rewards\<close>); the PPLNS walk counts the
  window, but for rows tied at the end of a page (\<open>Store\<close>). Shares: judged on
  the miner's own work, credited once per key, recorded completely (\<open>Adapter\<close>, \<open>Jobs\<close>), and kept by the writer, the spool and the relay
  through failures short of torn writes, the relay as long as the spool has room (\<open>ShareWriter\<close>, \<open>Spool\<close>, \<open>Messaging\<close>). Pools: legal transitions only, one pool at a time, recovery (\<open>Pool\<close>, \<open>Api\<close>, \<open>Wiring\<close>). Front-end:
  authorization, the connection cap, distinct extranonces, termination of the loop, bans (\<open>Handler\<close>, \<open>Server\<close>, \<open>Bans\<close>). Consensus data: merkle branches,
  coinbase and heights parse back (\<open>Merkle\<close>, \<open>Coinbase\<close>, \<open>Job\<close>). Protocol: whatever arrives, what leaves is framed, and both sides read what the other
  wrote (\<open>Wire\<close>). Programs: start completely or not at all and stop in an order that fits who calls whom but for two pairs (\<open>Daemon\<close>), and a schema that only goes forward (\<open>Migrations\<close>). Configuration: what loads and what it guarantees (\<open>Config\<close>, \<open>Wiring\<close>, \<open>Durations\<close>).
  Several theorems state behaviour that the code surely does not intend: \<open>Adapter.candidate_hash_reversed\<close>, \<open>ShareWriter.refused_share_stalls\<close>,
  \<open>ShareWriter.shutdown_loses\<close>, \<open>Spool.torn_append_loses_next\<close>, \<open>Jobs.late_claim_accepted_twice\<close>, \<open>Jobs.respelled_share_accepted_again\<close>,
  \<open>Pool.resume_after_disable_idle\<close>, \<open>Pool.poll_error_overrides_operator\<close>, \<open>Server.one_long_line_bans\<close>, \<open>Partitions.rollover_gap\<close>, \<open>Wiring.reward_modes\<close>,
  \<open>Wallet.lost_answer_pays_twice\<close>, \<open>Listeners.accept_error_ends_port\<close>, \<open>Daemon.late_start_failure_loses\<close>, \<open>Daemon.late_nats_never_follows\<close>,
  \<open>Daemon.pending_not_spooled\<close>, \<open>Nats.regionless_message\<close>.

  \<^bold>\<open>Bounds and fuel.\<close> \<open>Server.serve_conn\<close> takes the number of reads as fuel; eight more than there are lines are enough
  (\<open>Server.connection_ends\<close>). \<open>Durations.parse_terms\<close> takes the number of terms; the length of the text is enough (\<open>parse_terms_enough\<close>).
  \<open>Json.parse_json\<close> takes twice the length of the text, which is enough (\<open>parse_json_fuel\<close>).
  \<open>Payouts.sats_to_amount_string\<close> is partial, for the one value on which the code does not return. All other loops are
  total functions with a measure. The line limit of the spool's scanner, the 250000 retained shares, the 10000 tracked miners, the eight
  remembered jobs and the other limits are the code's own.

  \<^bold>\<open>Not modelled.\<close> Sockets, HTTP and TLS; the servers of NATS and PostgreSQL and their client libraries; the HTTP exchange below the JSON-RPC client;
  \<open>encoding/json\<close> outside the stratum protocol (events, the daemon's answers and the spool: codecs are arguments, with the law that decoding
  inverts encoding where it is needed); scrypt, blake2b and RandomX (third-party or absent: arguments); logging; flags and the reading of the
  configuration file; the gauges' callbacks; \<open>cmd/tmpprobe\<close>, scripts, deployment files and tests.
\<close>

end
